(* ===== verification/Joaju_Prelude.thy ===== *)
theory Joaju_Prelude
  imports Main "HOL-Library.Word"
begin

text \<open>
  Shared vocabulary of the development: bytes, the byte/character bridge between a Go
  \<open>string\<close> and a Go \<open>[]byte\<close>, results of fallible calls as sums, the facts about the bit
  operations on bytes that the transport relies on, and the one interface every stateful
  component is checked against, a step function with an invariant.
\<close>

unbundle bit_operations_syntax

section \<open>Collections\<close>

named_theorems byte_facts "ranges of masked bytes, as inequalities on unat"
named_theorems reader_simps "how the reader moves"

section \<open>Bytes and strings\<close>

type_synonym byte = "8 word"

text \<open>A Go string is a sequence of bytes; \<^typ>\<open>string\<close> is one too, since a
  \<^typ>\<open>char\<close> has exactly 256 values. The conversions \<open>string(b)\<close> and \<open>[]byte(s)\<close>.\<close>

definition bytes_of_string :: "string \<Rightarrow> byte list" where
  "bytes_of_string s = map of_char s"

definition string_of_bytes :: "byte list \<Rightarrow> string" where
  "string_of_bytes b = map (\<lambda>w. char_of (unat w)) b"

lemma length_bytes_of_string [simp]: "length (bytes_of_string s) = length s"
  by (simp add: bytes_of_string_def)

lemma length_string_of_bytes [simp]: "length (string_of_bytes b) = length b"
  by (simp add: string_of_bytes_def)

lemma bytes_of_string_Nil [simp]: "bytes_of_string [] = []"
  by (simp add: bytes_of_string_def)

lemma byte_lt_256 [simp]: "unat (c::byte) < 256"
  using unsigned_less [of c] by simp

lemma char_of_of_char_byte: "char_of (unat (of_char c :: byte)) = c"
proof -
  have lt: "(of_char c :: nat) < 256" by (rule nat_of_char_less_256)
  have "(of_char c :: byte) = word_of_nat (of_char c)"
    by (simp add: of_nat_of_char)
  then have "unat (of_char c :: byte) = of_char c"
    using lt by (simp add: unat_of_nat)
  then show ?thesis by (simp add: char_of_char)
qed

lemma of_char_char_of_byte: "(of_char (char_of (unat w)) :: byte) = w"
proof -
  have "(of_char (char_of (unat w)) :: byte) = word_of_nat (of_char (char_of (unat w)))"
    by (simp only: of_nat_of_char)
  also have "\<dots> = word_of_nat (unat w mod 256)" by (simp only: of_char_of)
  also have "unat w mod 256 = unat w" by simp
  also have "word_of_nat (unat w) = w" by simp
  finally show ?thesis .
qed

lemma string_of_bytes_of_string [simp]: "string_of_bytes (bytes_of_string s) = s"
  by (induction s) (simp_all add: bytes_of_string_def string_of_bytes_def char_of_of_char_byte)

lemma bytes_of_string_of_bytes [simp]: "bytes_of_string (string_of_bytes b) = b"
  by (induction b) (simp_all add: bytes_of_string_def string_of_bytes_def of_char_char_of_byte)

lemma bytes_of_string_append [simp]:
  "bytes_of_string (s @ t) = bytes_of_string s @ bytes_of_string t"
  by (simp add: bytes_of_string_def)

lemma string_of_bytes_append [simp]:
  "string_of_bytes (a @ b) = string_of_bytes a @ string_of_bytes b"
  by (simp add: string_of_bytes_def)

lemma bytes_of_string_inject [simp]: "bytes_of_string s = bytes_of_string t \<longleftrightarrow> s = t"
  by (metis string_of_bytes_of_string)

section \<open>Facts about single bytes\<close>

lemma unat_and_mask: "unat ((c::byte) AND mask n) = unat c mod 2 ^ n"
proof -
  have "unat (c AND mask n) = take_bit n (unat c)"
    by (simp only: take_bit_eq_mask [symmetric] unsigned_take_bit_eq)
  then show ?thesis by (simp only: take_bit_eq_mod)
qed

lemma unat_and_not_mask: "unat ((c::byte) AND NOT (mask n)) = unat c - unat c mod 2 ^ n"
proof -
  have "(c AND NOT (mask n)) + (c AND mask n) = (c AND NOT (mask n)) OR (c AND mask n)"
    by (rule disjunctive_add) (simp add: bit_simps)
  also have "\<dots> = c" by (rule bit_eqI) (auto simp: bit_simps)
  finally have eq: "c AND NOT (mask n) = c - (c AND mask n)" by (simp add: algebra_simps)
  have "c AND mask n \<le> c"
    by (simp add: word_le_nat_alt unat_and_mask)
  then show ?thesis by (simp only: eq unat_sub unat_and_mask)
qed

lemma byte_masks:
  "(0xe0::byte) = NOT (mask 5)" "(0xf0::byte) = NOT (mask 4)"
  "(0xf8::byte) = NOT (mask 3)" "(0xc0::byte) = NOT (mask 6)" "(0x80::byte) = NOT (mask 7)"
  "(0x3f::byte) = mask 6" "(0x1f::byte) = mask 5" "(0x0f::byte) = mask 4" "(0x07::byte) = mask 3"
  "(0x7f::byte) = mask 7"
  by (simp_all add: mask_eq_exp_minus_1)

lemma byte_eq_unat: "(c::byte) = d \<longleftrightarrow> unat c = unat d"
  by (simp add: word_unat_eq_iff)

lemma block_div: "m * q \<le> n \<Longrightarrow> n < m * q + m \<Longrightarrow> n div m = (q::nat)"
  by (rule div_nat_eqI) (simp_all add: algebra_simps)

lemma block_mod: "m * q \<le> n \<Longrightarrow> n < m * q + m \<Longrightarrow> n mod m = n - m * (q::nat)"
  using block_div [of m q n] by (simp add: modulo_nat_def mult.commute)

lemma block_iff: "0 < m \<Longrightarrow> n - n mod m = m * q \<longleftrightarrow> m * q \<le> n \<and> n < m * q + (m::nat)"
  using block_div [of m q n] by (auto simp: minus_mod_eq_mult_div) (metis add.commute dividend_less_div_times mult.commute)

text \<open>The tests the transport makes on a byte, read as ranges.\<close>

lemma byte_and_simps [byte_facts]:
  "unat ((c::byte) AND 0xe0) = unat c - unat c mod 32"
  "unat (c AND 0xf0) = unat c - unat c mod 16"
  "unat (c AND 0xf8) = unat c - unat c mod 8"
  "unat (c AND 0xc0) = unat c - unat c mod 64"
  "unat (c AND 0x80) = unat c - unat c mod 128"
  "unat (c AND 0x7f) = unat c mod 128"
  "unat (c AND 0x3f) = unat c mod 64"
  "unat (c AND 0x1f) = unat c mod 32"
  "unat (c AND 0x0f) = unat c mod 16"
  "unat (c AND 0x07) = unat c mod 8"
  by (simp_all only: byte_masks unat_and_not_mask unat_and_mask) simp_all

lemma byte_lead [byte_facts]:
  "(c::byte) AND 0xe0 = 0xc0 \<longleftrightarrow> 192 \<le> unat c \<and> unat c < 224"
  "c AND 0xf0 = 0xe0 \<longleftrightarrow> 224 \<le> unat c \<and> unat c < 240"
  "c AND 0xf8 = 0xf0 \<longleftrightarrow> 240 \<le> unat c \<and> unat c < 248"
  "c AND 0xc0 = 0x80 \<longleftrightarrow> 128 \<le> unat c \<and> unat c < 192"
  "c AND 0x80 = 0 \<longleftrightarrow> unat c < 128"
  "c < 0x80 \<longleftrightarrow> unat c < 128"
  using block_iff [of 32 "unat c" 6] block_iff [of 16 "unat c" 14] block_iff [of 8 "unat c" 30]
    block_iff [of 64 "unat c" 2] block_iff [of 128 "unat c" 0]
  by (simp_all add: byte_eq_unat byte_and_simps word_less_nat_alt)

lemma byte_low [byte_facts]:
  "128 \<le> unat (c::byte) \<Longrightarrow> unat c < 192 \<Longrightarrow> uint (c AND 0x3f) = int (unat c) - 128"
  "192 \<le> unat c \<Longrightarrow> unat c < 224 \<Longrightarrow> uint (c AND 0x1f) = int (unat c) - 192"
  "224 \<le> unat c \<Longrightarrow> unat c < 240 \<Longrightarrow> uint (c AND 0x0f) = int (unat c) - 224"
  "240 \<le> unat c \<Longrightarrow> unat c < 248 \<Longrightarrow> uint (c AND 0x07) = int (unat c) - 240"
  using block_mod [of 64 2 "unat c"] block_mod [of 32 6 "unat c"] block_mod [of 16 14 "unat c"]
    block_mod [of 8 30 "unat c"]
  by (simp_all only: uint_nat byte_and_simps)

text \<open>\<open>v << 6 | x\<close> with the low six bits of \<open>v << 6\<close> clear is an addition.\<close>

lemma shift_or_low6:
  assumes "0 \<le> x" "x < 64"
  shows "push_bit 6 v OR x = v * 64 + (x::int)"
proof -
  have x: "take_bit 6 x = x" using assms by (simp add: take_bit_int_eq_self)
  have "push_bit 6 v AND x = 0"
    by (rule bit_eqI)
      (metis bit_0_eq bit_and_iff bit_push_bit_iff bit_take_bit_iff bot_apply bot_bool_def
        linorder_not_le x)
  then have "push_bit 6 v OR x = push_bit 6 v + x" by (simp add: disjunctive_add_eq_or)
  then show ?thesis by (simp add: push_bit_eq_mult)
qed

section \<open>Results\<close>

text \<open>A call that answers \<open>(T, error)\<close> is a sum: \<open>Inl\<close> the error, \<open>Inr\<close> the value.\<close>

definition is_ok :: "'e + 'a \<Rightarrow> bool" where
  "is_ok r = (case r of Inl _ \<Rightarrow> False | Inr _ \<Rightarrow> True)"

lemma is_ok_simps [simp]: "is_ok (Inr x)" "\<not> is_ok (Inl e)"
  by (simp_all add: is_ok_def)

text \<open>The values among optional ones, in order.\<close>

fun somes :: "'a option list \<Rightarrow> 'a list" where
  "somes [] = []"
| "somes (None # xs) = somes xs"
| "somes (Some x # xs) = x # somes xs"

lemma somes_Nil_iff: "somes xs = [] \<longleftrightarrow> (\<forall>x \<in> set xs. x = None)"
  by (induction xs rule: somes.induct) auto

lemma set_somes: "x \<in> set (somes xs) \<longleftrightarrow> Some x \<in> set xs"
  by (induction xs rule: somes.induct) auto

section \<open>The contract of a stateful component\<close>

text \<open>
  A component is a state, a step function over the operations it offers, an invariant and
  the condition under which an operation may be called. The law is that one permitted step
  keeps the invariant; what follows, once for all components, is that every permitted run
  keeps it, at every prefix.
\<close>

fun permitted :: "('s \<Rightarrow> 'e \<Rightarrow> 's) \<Rightarrow> ('s \<Rightarrow> 'e \<Rightarrow> bool) \<Rightarrow> 's \<Rightarrow> 'e list \<Rightarrow> bool" where
  "permitted step may s [] = True"
| "permitted step may s (e # es) = (may s e \<and> permitted step may (step s e) es)"

locale stepper =
  fixes step :: "'s \<Rightarrow> 'e \<Rightarrow> 's"
    and may :: "'s \<Rightarrow> 'e \<Rightarrow> bool"
    and inv :: "'s \<Rightarrow> bool"
  assumes step_inv: "inv s \<Longrightarrow> may s e \<Longrightarrow> inv (step s e)"
begin

lemma run_inv: "inv s \<Longrightarrow> permitted step may s es \<Longrightarrow> inv (foldl step s es)"
  by (induction es arbitrary: s) (auto intro: step_inv)

lemma permitted_append:
  "permitted step may s (es @ fs) \<longleftrightarrow>
    permitted step may s es \<and> permitted step may (foldl step s es) fs"
  by (induction es arbitrary: s) auto

lemma every_prefix_inv:
  assumes "inv s" "permitted step may s (es @ fs)"
  shows "inv (foldl step s es)"
  using assms by (auto simp: permitted_append intro: run_inv)

end

text \<open>A component every operation of which may be called in every state.\<close>

locale total_stepper =
  fixes step :: "'s \<Rightarrow> 'e \<Rightarrow> 's"
    and inv :: "'s \<Rightarrow> bool"
  assumes total_step_inv: "inv s \<Longrightarrow> inv (step s e)"

sublocale total_stepper \<subseteq> stepper step "\<lambda>s e. True" inv
  by unfold_locales (rule total_step_inv)

context total_stepper
begin

lemma always_permitted: "permitted step (\<lambda>s e. True) s es"
  by (induction es arbitrary: s) auto

lemma always_inv: "inv s \<Longrightarrow> inv (foldl step s es)"
  using always_permitted by (rule run_inv [rotated])

end

section \<open>Go's integers\<close>

text \<open>An \<open>int\<close> has 64 bits on the platforms the program is built for, and its additions wrap.\<close>

definition go_int :: "int \<Rightarrow> int" where
  "go_int n = signed_take_bit 63 n"

lemma go_int_idem [simp]: "go_int (go_int n) = go_int n"
  by (simp add: go_int_def)

lemma go_int_add: "go_int (go_int m + n) = go_int (m + n)"
  using signed_take_bit_add [of 63 "signed_take_bit 63 m" n] signed_take_bit_add [of 63 m n] by (simp add: go_int_def)

lemma go_int_fits: "- (2 ^ 63) \<le> n \<Longrightarrow> n < 2 ^ 63 \<Longrightarrow> go_int n = n"
  by (simp add: go_int_def signed_take_bit_int_eq_self)

lemma go_int_0 [simp]: "go_int 0 = 0"
  by (simp add: go_int_def)

section \<open>The contract of a concurrent component\<close>

text \<open>
  Where several callers interleave, a component is a step relation instead: an invariant that
  the start satisfies and every step keeps holds in every reachable state.
\<close>

locale transitions =
  fixes start :: "'s \<Rightarrow> bool"
    and step :: "'s \<Rightarrow> 's \<Rightarrow> bool"
    and inv :: "'s \<Rightarrow> bool"
  assumes start_inv: "start s \<Longrightarrow> inv s"
    and keeps_inv: "step s s' \<Longrightarrow> inv s \<Longrightarrow> inv s'"
begin

lemma kept: "step\<^sup>*\<^sup>* s s' \<Longrightarrow> inv s \<Longrightarrow> inv s'"
  by (induction rule: rtranclp_induct) (auto intro: keeps_inv)

lemma reachable_inv: "start s \<Longrightarrow> step\<^sup>*\<^sup>* s s' \<Longrightarrow> inv s'"
  using kept start_inv by blast

end

section \<open>The contract of a check fed in pieces\<close>

text \<open>
  A check that is handed its input a piece at a time, answering each time whether anything so
  far is wrong, and asked at the end whether the input may stop here. The laws: feeding two
  pieces is feeding their concatenation, a refusal is final, and on the whole input the
  answer is the reference predicate's. Stopping at the first refused piece then decides the
  concatenation of the pieces, however it was cut.
\<close>

fun feed_all :: "('s \<Rightarrow> 'b list \<Rightarrow> 's \<times> bool) \<Rightarrow> 's \<Rightarrow> 'b list list \<Rightarrow> 's \<times> bool" where
  "feed_all feed s [] = (s, True)"
| "feed_all feed s (c # cs) =
    (let (s', ok) = feed s c in if ok then feed_all feed s' cs else (s', False))"

locale incremental =
  fixes start :: 's
    and feed :: "'s \<Rightarrow> 'b list \<Rightarrow> 's \<times> bool"
    and complete :: "'s \<Rightarrow> bool"
    and valid :: "'b list \<Rightarrow> bool"
  assumes feed_append:
      "feed s (a @ b) = (let (s', ok) = feed s a in if ok then feed s' b else (s', False))"
    and feed_Nil: "feed start [] = (start, True)"
    and whole: "feed start b = (s, ok) \<Longrightarrow> ok \<and> complete s \<longleftrightarrow> valid b"
begin

lemma feed_all_Cons: "feed_all feed s (c # cs) = feed s (concat (c # cs))"
proof (induction cs arbitrary: s c)
  case Nil
  show ?case by (simp split: prod.splits)
next
  case (Cons d ds)
  show ?case
    by (simp add: feed_append [of s c] Cons.IH [simplified] del: feed_all.simps(2) split: prod.splits)
      (simp add: Cons.IH [simplified])
qed

lemma feed_all_concat: "feed_all feed start cs = feed start (concat cs)"
proof (cases cs)
  case Nil
  then show ?thesis by (simp add: feed_Nil)
next
  case (Cons c ds)
  then show ?thesis by (simp only: feed_all_Cons)
qed

lemma pieces_valid:
  "(let (s, ok) = feed_all feed start cs in ok \<and> complete s) \<longleftrightarrow> valid (concat cs)"
  using whole [of "concat cs"] by (simp add: feed_all_concat split: prod.splits)

lemma refused_for_good:
  assumes "\<not> snd (feed start a)"
  shows "\<not> valid (a @ b)"
proof -
  have "feed start (a @ b) = (fst (feed start a), False)"
    using assms by (cases "feed start a") (simp add: feed_append)
  then show ?thesis using whole by blast
qed

end

end
