(* ===== verification/Ws_Utf8.thy ===== *)
theory Ws_Utf8
  imports Joaju_Prelude
begin

text \<open>
  \<^verbatim>\<open>ws/utf8.go\<close>: the incremental UTF-8 check of a fragmented text message, and the
  whole-payload check it has to agree with. \<open>ValidUTF8\<close> is the standard library's
  \<open>utf8.Valid\<close>, written from its table of lead bytes and accept ranges; \<open>well_formed\<close> is
  the definition of UTF-8 itself, a concatenation of encoded scalar values. The three are
  shown to be the same predicate, and feeding a payload in pieces is shown to be feeding it
  whole.
\<close>

section \<open>The validator of a message in pieces\<close>

record utf8Validator =
  pending :: nat
  rune_value :: int
  need :: nat
  bad :: bool

definition utf8_reset :: utf8Validator where
  "utf8_reset = \<lparr>pending = 0, rune_value = 0, need = 0, bad = False\<rparr>"

definition MaxRune :: int where
  "MaxRune = 0x10ffff"

text \<open>\<open>minForLength\<close>, indexed by the length of the encoding.\<close>

definition minForLength :: "nat \<Rightarrow> int" where
  "minForLength n = [0, 0, 0x80, 0x800, 0x10000] ! n"

text \<open>The loop of \<open>write\<close>: one byte at a time, stopping at the first that is wrong.\<close>

fun utf8_loop :: "utf8Validator \<Rightarrow> byte list \<Rightarrow> utf8Validator \<times> bool" where
  "utf8_loop v [] = (v, True)"
| "utf8_loop v (c # cs) =
    (if pending v = 0 then
       (if c < 0x80 then utf8_loop v cs
        else if c AND 0xe0 = 0xc0 then
          utf8_loop (v\<lparr>pending := 1, need := 2, rune_value := uint (c AND 0x1f)\<rparr>) cs
        else if c AND 0xf0 = 0xe0 then
          utf8_loop (v\<lparr>pending := 2, need := 3, rune_value := uint (c AND 0x0f)\<rparr>) cs
        else if c AND 0xf8 = 0xf0 then
          utf8_loop (v\<lparr>pending := 3, need := 4, rune_value := uint (c AND 0x07)\<rparr>) cs
        else (v\<lparr>bad := True\<rparr>, False))
     else if c AND 0xc0 \<noteq> 0x80 then (v\<lparr>bad := True\<rparr>, False)
     else
       let v1 = v\<lparr>rune_value := push_bit 6 (rune_value v) OR uint (c AND 0x3f),
                  pending := pending v - 1\<rparr>
       in if 0 < pending v1 then utf8_loop v1 cs
          else if rune_value v1 < minForLength (need v1) then (v1\<lparr>bad := True\<rparr>, False)
          else if 0xd800 \<le> rune_value v1 \<and> rune_value v1 \<le> 0xdfff then (v1\<lparr>bad := True\<rparr>, False)
          else if rune_value v1 > MaxRune then (v1\<lparr>bad := True\<rparr>, False)
          else utf8_loop v1 cs)"

definition utf8_write :: "utf8Validator \<Rightarrow> byte list \<Rightarrow> utf8Validator \<times> bool" where
  "utf8_write v b = (if bad v then (v, False) else utf8_loop v b)"

definition utf8_complete :: "utf8Validator \<Rightarrow> bool" where
  "utf8_complete v \<longleftrightarrow> \<not> bad v \<and> pending v = 0"

section \<open>The whole-payload check\<close>

text \<open>
  The lead bytes of \<open>utf8.first\<close>: how many bytes the encoding has, and the range its
  second byte has to fall in. Every later byte is in \<open>0x80..0xBF\<close>.
\<close>

definition lead_info :: "nat \<Rightarrow> (nat \<times> nat \<times> nat) option" where
  "lead_info n =
    (if n < 0xc2 then None
     else if n \<le> 0xdf then Some (2, 0x80, 0xbf)
     else if n = 0xe0 then Some (3, 0xa0, 0xbf)
     else if n \<le> 0xec then Some (3, 0x80, 0xbf)
     else if n = 0xed then Some (3, 0x80, 0x9f)
     else if n \<le> 0xef then Some (3, 0x80, 0xbf)
     else if n = 0xf0 then Some (4, 0x90, 0xbf)
     else if n \<le> 0xf3 then Some (4, 0x80, 0xbf)
     else if n = 0xf4 then Some (4, 0x80, 0x8f)
     else None)"

definition within :: "nat \<Rightarrow> nat \<Rightarrow> byte \<Rightarrow> bool" where
  "within lo hi c \<longleftrightarrow> lo \<le> unat c \<and> unat c \<le> hi"

text \<open>The bytes of one encoded rune at the front of the payload, and what follows.\<close>

fun rune_tail :: "nat \<Rightarrow> nat \<Rightarrow> nat \<Rightarrow> byte list \<Rightarrow> byte list option" where
  "rune_tail sz lo hi (b1 # bs) =
    (if \<not> within lo hi b1 then None
     else if sz = 2 then Some bs
     else (case bs of
        [] \<Rightarrow> None
      | b2 # bs2 \<Rightarrow>
          if \<not> within 0x80 0xbf b2 then None
          else if sz = 3 then Some bs2
          else (case bs2 of
             [] \<Rightarrow> None
           | b3 # bs3 \<Rightarrow> if within 0x80 0xbf b3 then Some bs3 else None)))"
| "rune_tail sz lo hi [] = None"

lemma rune_tail_length: "rune_tail sz lo hi bs = Some r \<Longrightarrow> length r < length bs"
  by (cases "(sz, lo, hi, bs)" rule: rune_tail.cases) (auto split: if_splits list.splits)

function ValidUTF8 :: "byte list \<Rightarrow> bool" where
  "ValidUTF8 [] = True"
| "ValidUTF8 (c # cs) =
    (if c < 0x80 then ValidUTF8 cs
     else case lead_info (unat c) of
        None \<Rightarrow> False
      | Some (sz, lo, hi) \<Rightarrow>
          (case rune_tail sz lo hi cs of None \<Rightarrow> False | Some r \<Rightarrow> ValidUTF8 r))"
  by pat_completeness auto
termination
  by (relation "measure length") (auto dest: rune_tail_length)

declare ValidUTF8.simps [simp del]

section \<open>The definition of UTF-8\<close>

definition scalar_value :: "nat \<Rightarrow> bool" where
  "scalar_value n \<longleftrightarrow> n < 0xd800 \<or> (0xe000 \<le> n \<and> n \<le> 0x10ffff)"

definition utf8_encode :: "nat \<Rightarrow> byte list" where
  "utf8_encode n =
    (if n < 0x80 then [word_of_nat n]
     else if n < 0x800 then [word_of_nat (0xc0 + n div 64), word_of_nat (0x80 + n mod 64)]
     else if n < 0x10000 then
       [word_of_nat (0xe0 + n div 4096), word_of_nat (0x80 + n div 64 mod 64),
        word_of_nat (0x80 + n mod 64)]
     else
       [word_of_nat (0xf0 + n div 262144), word_of_nat (0x80 + n div 4096 mod 64),
        word_of_nat (0x80 + n div 64 mod 64), word_of_nat (0x80 + n mod 64)])"

definition well_formed :: "byte list \<Rightarrow> bool" where
  "well_formed bs \<longleftrightarrow>
    (\<exists>ns. (\<forall>n \<in> set ns. scalar_value n) \<and> bs = concat (map utf8_encode ns))"

section \<open>The loop, read on numbers\<close>

text \<open>What a payload comes to: no byte was refused and no rune is left open.\<close>

definition accepts :: "utf8Validator \<Rightarrow> byte list \<Rightarrow> bool" where
  "accepts v bs \<longleftrightarrow> (let (v', ok) = utf8_loop v bs in ok \<and> pending v' = 0)"

lemma accepts_Nil [simp]: "accepts v [] \<longleftrightarrow> pending v = 0"
  by (simp add: accepts_def)

lemma accepts_lead:
  "pending v = 0 \<Longrightarrow> accepts v (c # cs) =
    (if unat c < 128 then accepts v cs
     else if unat c < 192 then False
     else if unat c < 224 then
       accepts (v\<lparr>pending := 1, need := 2, rune_value := int (unat c) - 192\<rparr>) cs
     else if unat c < 240 then
       accepts (v\<lparr>pending := 2, need := 3, rune_value := int (unat c) - 224\<rparr>) cs
     else if unat c < 248 then
       accepts (v\<lparr>pending := 3, need := 4, rune_value := int (unat c) - 240\<rparr>) cs
     else False)"
  by (simp add: accepts_def byte_lead byte_low)

definition rune_ok :: "nat \<Rightarrow> int \<Rightarrow> bool" where
  "rune_ok k x \<longleftrightarrow> minForLength k \<le> x \<and> \<not> (0xd800 \<le> x \<and> x \<le> 0xdfff) \<and> x \<le> MaxRune"

definition with_byte :: "int \<Rightarrow> nat \<Rightarrow> int" where
  "with_byte x m = x * 64 + (int m - 128)"

lemma accepts_cont:
  assumes "pending v = Suc k"
  shows "accepts v (c # cs) =
    (128 \<le> unat c \<and> unat c < 192 \<and>
     (k = 0 \<longrightarrow> rune_ok (need v) (with_byte (rune_value v) (unat c))) \<and>
     accepts (v\<lparr>rune_value := with_byte (rune_value v) (unat c), pending := k\<rparr>) cs)"
proof (cases "128 \<le> unat c \<and> unat c < 192")
  case True
  then have low: "push_bit 6 (rune_value v) OR uint (c AND 0x3f) = with_byte (rune_value v) (unat c)"
    using shift_or_low6 [of "int (unat c) - 128" "rune_value v"]
    by (simp only: byte_low with_byte_def) linarith
  have cont: "c AND 0xc0 = 0x80" using True by (simp add: byte_lead)
  show ?thesis using assms True
    by (auto simp: accepts_def cont low Let_def rune_ok_def not_less)
next
  case False
  then have "c AND 0xc0 \<noteq> 0x80" by (simp add: byte_lead)
  with assms False show ?thesis by (auto simp: accepts_def)
qed

text \<open>Between runes only the latched flag is state: the rest is overwritten by the next lead.\<close>

lemma accepts_fresh:
  assumes "pending v = 0" "pending w = 0" "bad v = bad w"
  shows "accepts v bs = accepts w bs"
proof (induction bs)
  case Nil
  with assms show ?case by simp
next
  case (Cons c cs)
  have "v\<lparr>pending := p, need := n, rune_value := x\<rparr> = w\<lparr>pending := p, need := n, rune_value := x\<rparr>"
    for p n x using assms(3) by simp
  with Cons assms(1,2) show ?case by (simp add: accepts_lead)
qed

section \<open>The validator is \<open>utf8.Valid\<close>\<close>

text \<open>
  The three questions asked of a complete rune (long enough for its length, no surrogate, no
  more than the Unicode maximum) are the accept range of the second byte.
\<close>

definition second_ok :: "nat \<Rightarrow> nat \<Rightarrow> bool" where
  "second_ok n m \<longleftrightarrow> (case lead_info n of None \<Rightarrow> False | Some (sz, lo, hi) \<Rightarrow> lo \<le> m \<and> m \<le> hi)"

lemmas rune_arith = rune_ok_def with_byte_def minForLength_def MaxRune_def second_ok_def
  lead_info_def

lemma second_ok2:
  assumes "192 \<le> n" "n < 224" "128 \<le> m" "m < 192"
  shows "rune_ok 2 (with_byte (int n - 192) m) \<longleftrightarrow> second_ok n m"
  using assms by (simp add: rune_arith)

lemma second_ok3:
  assumes "224 \<le> n" "n < 240" "128 \<le> m" "m < 192" "128 \<le> k" "k < 192"
  shows "rune_ok 3 (with_byte (with_byte (int n - 224) m) k) \<longleftrightarrow> second_ok n m"
  using assms by (simp add: rune_arith) linarith

lemma second_ok4:
  assumes "240 \<le> n" "n < 248" "128 \<le> m" "m < 192" "128 \<le> k" "k < 192" "128 \<le> l" "l < 192"
  shows "rune_ok 4 (with_byte (with_byte (with_byte (int n - 240) m) k) l) \<longleftrightarrow> second_ok n m"
  using assms by (simp add: rune_arith) linarith

lemma second_ok_cont: "second_ok n m \<Longrightarrow> 128 \<le> m \<and> m < 192"
  by (auto simp: second_ok_def lead_info_def split: if_splits)

lemma lead_info_size:
  "n < 224 \<Longrightarrow> lead_info n = Some (sz, lo, hi) \<Longrightarrow> sz = 2"
  "224 \<le> n \<Longrightarrow> n < 240 \<Longrightarrow> lead_info n = Some (sz, lo, hi) \<Longrightarrow> sz = 3"
  "240 \<le> n \<Longrightarrow> lead_info n = Some (sz, lo, hi) \<Longrightarrow> sz = 4"
  by (auto simp: lead_info_def split: if_splits)

definition cont :: "byte \<Rightarrow> bool" where
  "cont b \<longleftrightarrow> 128 \<le> unat b \<and> unat b < 192"

lemma within_cont: "within 0x80 0xbf b \<longleftrightarrow> cont b"
  by (auto simp: within_def cont_def)

text \<open>One encoded rune, as \<open>utf8.Valid\<close> reads it.\<close>

definition rune_then :: "(byte list \<Rightarrow> bool) \<Rightarrow> nat \<Rightarrow> byte list \<Rightarrow> bool" where
  "rune_then A n cs =
    (case lead_info n of None \<Rightarrow> False
     | Some (sz, lo, hi) \<Rightarrow> (case rune_tail sz lo hi cs of None \<Rightarrow> False | Some r \<Rightarrow> A r))"

lemma rune_then2:
  "n < 224 \<Longrightarrow> rune_then A n cs =
    (case cs of b # r \<Rightarrow> second_ok n (unat b) \<and> A r | [] \<Rightarrow> False)"
  by (auto simp: rune_then_def second_ok_def within_def dest: lead_info_size(1)
      split: option.splits list.splits)

lemma rune_then3:
  "224 \<le> n \<Longrightarrow> n < 240 \<Longrightarrow> rune_then A n cs =
    (case cs of b # c # r \<Rightarrow> second_ok n (unat b) \<and> cont c \<and> A r | _ \<Rightarrow> False)"
  by (cases "lead_info n")
    (auto simp: rune_then_def second_ok_def within_cont within_def [of "fst _"]
      dest!: lead_info_size(2) split: list.splits if_splits simp: within_def cont_def)

lemma rune_then4:
  "240 \<le> n \<Longrightarrow> rune_then A n cs =
    (case cs of b # c # d # r \<Rightarrow> second_ok n (unat b) \<and> cont c \<and> cont d \<and> A r | _ \<Rightarrow> False)"
  by (cases "lead_info n")
    (auto simp: rune_then_def second_ok_def within_def cont_def
      dest!: lead_info_size(3) split: list.splits if_splits)

lemma accepts_open:
  "accepts \<lparr>pending = 1, rune_value = x, need = 2, bad = False\<rparr> cs =
    (case cs of b # r \<Rightarrow> cont b \<and> rune_ok 2 (with_byte x (unat b)) \<and> accepts utf8_reset r
     | [] \<Rightarrow> False)"
  "accepts \<lparr>pending = 2, rune_value = x, need = 3, bad = False\<rparr> cs =
    (case cs of b # c # r \<Rightarrow> cont b \<and> cont c \<and>
        rune_ok 3 (with_byte (with_byte x (unat b)) (unat c)) \<and> accepts utf8_reset r
     | _ \<Rightarrow> False)"
  "accepts \<lparr>pending = 3, rune_value = x, need = 4, bad = False\<rparr> cs =
    (case cs of b # c # d # r \<Rightarrow> cont b \<and> cont c \<and> cont d \<and>
        rune_ok 4 (with_byte (with_byte (with_byte x (unat b)) (unat c)) (unat d)) \<and>
        accepts utf8_reset r
     | _ \<Rightarrow> False)"
proof -
  have fresh: "accepts \<lparr>pending = 0, rune_value = y, need = m, bad = False\<rparr> r = accepts utf8_reset r"
    for y m r by (rule accepts_fresh) (simp_all add: utf8_reset_def)
  show "accepts \<lparr>pending = 1, rune_value = x, need = 2, bad = False\<rparr> cs =
    (case cs of b # r \<Rightarrow> cont b \<and> rune_ok 2 (with_byte x (unat b)) \<and> accepts utf8_reset r
     | [] \<Rightarrow> False)"
    by (auto simp: accepts_cont cont_def fresh split: list.splits)
  show "accepts \<lparr>pending = 2, rune_value = x, need = 3, bad = False\<rparr> cs =
    (case cs of b # c # r \<Rightarrow> cont b \<and> cont c \<and>
        rune_ok 3 (with_byte (with_byte x (unat b)) (unat c)) \<and> accepts utf8_reset r
     | _ \<Rightarrow> False)"
    by (auto simp: accepts_cont cont_def fresh numeral_2_eq_2 split: list.splits)
  show "accepts \<lparr>pending = 3, rune_value = x, need = 4, bad = False\<rparr> cs =
    (case cs of b # c # d # r \<Rightarrow> cont b \<and> cont c \<and> cont d \<and>
        rune_ok 4 (with_byte (with_byte (with_byte x (unat b)) (unat c)) (unat d)) \<and>
        accepts utf8_reset r
     | _ \<Rightarrow> False)"
    by (auto simp: accepts_cont cont_def fresh numeral_3_eq_3 split: list.splits)
qed

lemma rune_ok_second:
  "192 \<le> n \<Longrightarrow> n < 224 \<Longrightarrow>
    cont b \<and> rune_ok 2 (with_byte (int n - 192) (unat b)) \<and> A \<longleftrightarrow> second_ok n (unat b) \<and> A"
  "224 \<le> n \<Longrightarrow> n < 240 \<Longrightarrow>
    cont b \<and> cont c \<and> rune_ok 3 (with_byte (with_byte (int n - 224) (unat b)) (unat c)) \<and> A \<longleftrightarrow>
    second_ok n (unat b) \<and> cont c \<and> A"
  "240 \<le> n \<Longrightarrow> n < 248 \<Longrightarrow>
    cont b \<and> cont c \<and> cont d \<and>
      rune_ok 4 (with_byte (with_byte (with_byte (int n - 240) (unat b)) (unat c)) (unat d)) \<and> A \<longleftrightarrow>
    second_ok n (unat b) \<and> cont c \<and> cont d \<and> A"
  using second_ok2 second_ok3 second_ok4 second_ok_cont by (auto simp only: cont_def)

lemma accepts_rune:
  assumes "128 \<le> unat c"
  shows "accepts utf8_reset (c # cs) = rune_then (accepts utf8_reset) (unat c) cs"
proof -
  consider "unat c < 192" | "192 \<le> unat c" "unat c < 224" | "224 \<le> unat c" "unat c < 240"
    | "240 \<le> unat c" "unat c < 248" | "248 \<le> unat c"
    by linarith
  then show ?thesis
  proof cases
    case 1
    then show ?thesis using assms
      by (simp add: accepts_lead utf8_reset_def rune_then_def lead_info_def)
  next
    case 2
    then have "accepts utf8_reset (c # cs) =
      accepts \<lparr>pending = 1, rune_value = int (unat c) - 192, need = 2, bad = False\<rparr> cs"
      by (simp add: accepts_lead utf8_reset_def)
    then show ?thesis using 2
      by (simp only: accepts_open rune_then2 rune_ok_second)
  next
    case 3
    then have "accepts utf8_reset (c # cs) =
      accepts \<lparr>pending = 2, rune_value = int (unat c) - 224, need = 3, bad = False\<rparr> cs"
      by (simp add: accepts_lead utf8_reset_def)
    then show ?thesis using 3
      by (simp only: accepts_open rune_then3 rune_ok_second)
  next
    case 4
    then have "accepts utf8_reset (c # cs) =
      accepts \<lparr>pending = 3, rune_value = int (unat c) - 240, need = 4, bad = False\<rparr> cs"
      by (simp add: accepts_lead utf8_reset_def)
    then show ?thesis using 4
      by (simp only: accepts_open rune_then4 rune_ok_second)
  next
    case 5
    then show ?thesis
      by (simp add: accepts_lead utf8_reset_def rune_then_def lead_info_def)
  qed
qed

lemma ValidUTF8_rune: "128 \<le> unat c \<Longrightarrow> ValidUTF8 (c # cs) = rune_then ValidUTF8 (unat c) cs"
  by (simp add: ValidUTF8.simps byte_lead rune_then_def)

lemma accepts_ValidUTF8: "accepts utf8_reset bs = ValidUTF8 bs"
proof (induction bs rule: ValidUTF8.induct)
  case 1
  show ?case by (simp add: ValidUTF8.simps utf8_reset_def)
next
  case (2 c cs)
  show ?case
  proof (cases "unat c < 128")
    case True
    with "2.IH"(1) have "accepts utf8_reset cs = ValidUTF8 cs" by (simp add: byte_lead)
    with True show ?thesis by (simp add: ValidUTF8.simps byte_lead accepts_lead utf8_reset_def)
  next
    case False
    then have lead: "128 \<le> unat c" "\<not> c < 0x80" by (simp_all add: byte_lead)
    have "rune_then (accepts utf8_reset) (unat c) cs = rune_then ValidUTF8 (unat c) cs"
      using "2.IH"(2) lead(2) by (auto simp: rune_then_def split: option.splits)
    with lead(1) show ?thesis by (simp add: accepts_rune ValidUTF8_rune)
  qed
qed

section \<open>\<open>utf8.Valid\<close> is the definition of UTF-8\<close>

lemma unat_word_of_nat_byte: "k < 256 \<Longrightarrow> unat (word_of_nat k :: byte) = k"
  by (simp add: unat_of_nat)

lemma base64_digits:
  assumes "b < (64::nat)"
  shows "(a * 64 + b) div 64 = a" "(a * 64 + b) mod 64 = b"
  using assms by simp_all

text \<open>The encodings by length, in base 64.\<close>

lemma utf8_encode_digits:
  "n < 128 \<Longrightarrow> utf8_encode n = [word_of_nat n]"
  "b < 64 \<Longrightarrow> 128 \<le> a * 64 + b \<Longrightarrow> a * 64 + b < 2048 \<Longrightarrow>
    utf8_encode (a * 64 + b) = [word_of_nat (192 + a), word_of_nat (128 + b)]"
  "b < 64 \<Longrightarrow> c < 64 \<Longrightarrow> 2048 \<le> (a * 64 + b) * 64 + c \<Longrightarrow> (a * 64 + b) * 64 + c < 65536 \<Longrightarrow>
    utf8_encode ((a * 64 + b) * 64 + c) =
      [word_of_nat (224 + a), word_of_nat (128 + b), word_of_nat (128 + c)]"
  "b < 64 \<Longrightarrow> c < 64 \<Longrightarrow> d < 64 \<Longrightarrow> 65536 \<le> ((a * 64 + b) * 64 + c) * 64 + d \<Longrightarrow>
    utf8_encode (((a * 64 + b) * 64 + c) * 64 + d) =
      [word_of_nat (240 + a), word_of_nat (128 + b), word_of_nat (128 + c), word_of_nat (128 + d)]"
proof -
  have div: "n div 4096 = n div 64 div 64" "n div 262144 = n div 64 div 64 div 64" for n :: nat
    by (simp_all add: div_mult2_eq [symmetric])
  show "n < 128 \<Longrightarrow> utf8_encode n = [word_of_nat n]" by (simp add: utf8_encode_def)
  show "b < 64 \<Longrightarrow> 128 \<le> a * 64 + b \<Longrightarrow> a * 64 + b < 2048 \<Longrightarrow>
    utf8_encode (a * 64 + b) = [word_of_nat (192 + a), word_of_nat (128 + b)]"
    by (simp add: utf8_encode_def base64_digits)
  show "b < 64 \<Longrightarrow> c < 64 \<Longrightarrow> 2048 \<le> (a * 64 + b) * 64 + c \<Longrightarrow>
    (a * 64 + b) * 64 + c < 65536 \<Longrightarrow> utf8_encode ((a * 64 + b) * 64 + c) =
      [word_of_nat (224 + a), word_of_nat (128 + b), word_of_nat (128 + c)]"
    by (simp only: utf8_encode_def base64_digits div) simp
  show "b < 64 \<Longrightarrow> c < 64 \<Longrightarrow> d < 64 \<Longrightarrow> 65536 \<le> ((a * 64 + b) * 64 + c) * 64 + d \<Longrightarrow>
    utf8_encode (((a * 64 + b) * 64 + c) * 64 + d) =
      [word_of_nat (240 + a), word_of_nat (128 + b), word_of_nat (128 + c), word_of_nat (128 + d)]"
    by (simp only: utf8_encode_def base64_digits div) simp
qed

lemma base64_cases:
  obtains (two) a b where "n = a * 64 + b" "b < (64::nat)"
  by (metis div_mult_mod_eq mod_less_divisor zero_less_numeral)

lemma ValidUTF8_encode:
  assumes "scalar_value n"
  shows "ValidUTF8 (utf8_encode n @ r) = ValidUTF8 r"
proof -
  obtain a3 d where n1: "n = a3 * 64 + d" "d < 64" by (rule base64_cases)
  obtain a2 c where n2: "a3 = a2 * 64 + c" "c < 64" by (rule base64_cases)
  obtain a b where n3: "a2 = a * 64 + b" "b < 64" by (rule base64_cases)
  note digits = n1 n2 n3
  consider "n < 128" | "128 \<le> n" "n < 2048" | "2048 \<le> n" "n < 65536" | "65536 \<le> n" by linarith
  then show ?thesis
  proof cases
    case 1
    then show ?thesis
      by (simp add: utf8_encode_digits ValidUTF8.simps byte_lead unat_word_of_nat_byte)
  next
    case 2
    then have "a3 < 32" "2 \<le> a3" using n1 by linarith+
    with 2 n1 show ?thesis
      by (simp del: of_nat_add add: utf8_encode_digits ValidUTF8_rune rune_then2
          unat_word_of_nat_byte second_ok_def lead_info_def)
  next
    case 3
    then have e: "utf8_encode n = [word_of_nat (224 + a2), word_of_nat (128 + c), word_of_nat (128 + d)]"
      using n1 n2 by (simp only: utf8_encode_digits)
    have a2: "a2 < 16" using 3 n1 n2 by linarith
    have "second_ok (224 + a2) (128 + c)"
      using 3 n1 n2 a2 assms by (simp add: second_ok_def lead_info_def scalar_value_def) linarith
    then show ?thesis using a2 n1(2) n2(2)
      by (simp del: of_nat_add add: e ValidUTF8_rune rune_then3 unat_word_of_nat_byte cont_def)
  next
    case 4
    have "n \<le> 0x10ffff" using assms 4 by (auto simp: scalar_value_def)
    with 4 have e: "utf8_encode n =
        [word_of_nat (240 + a), word_of_nat (128 + b), word_of_nat (128 + c), word_of_nat (128 + d)]"
      using digits by (simp only: utf8_encode_digits)
    have a: "a < 5" using digits \<open>n \<le> 0x10ffff\<close> by linarith
    have "second_ok (240 + a) (128 + b)"
      using 4 digits a \<open>n \<le> 0x10ffff\<close> by (simp add: second_ok_def lead_info_def)
    then show ?thesis using a n1(2) n2(2) n3(2)
      by (simp del: of_nat_add add: e ValidUTF8_rune rune_then4 unat_word_of_nat_byte cont_def)
  qed
qed

lemma well_formed_Cons: "scalar_value n \<Longrightarrow> well_formed r \<Longrightarrow> well_formed (utf8_encode n @ r)"
  unfolding well_formed_def
proof (elim exE conjE)
  fix ns
  assume "scalar_value n" "\<forall>n\<in>set ns. scalar_value n" "r = concat (map utf8_encode ns)"
  then show "\<exists>ns. (\<forall>n\<in>set ns. scalar_value n) \<and> utf8_encode n @ r = concat (map utf8_encode ns)"
    by (intro exI [of _ "n # ns"]) simp
qed

lemma byte_back: "k \<le> unat b \<Longrightarrow> word_of_nat (k + (unat b - k)) = (b::byte)"
  by simp

lemma three_digits_bound:
  "n < 240 \<Longrightarrow> m < 192 \<Longrightarrow> k < 192 \<Longrightarrow> with_byte (with_byte (int n - 224) m) k < 65536"
  by (simp add: with_byte_def)

text \<open>A rune the payload check accepts is the encoding of a scalar value.\<close>

lemma rune_then_encode:
  assumes "128 \<le> unat c" "rune_then A (unat c) cs"
  obtains n r where "scalar_value n" "c # cs = utf8_encode n @ r" "A r"
proof -
  have "unat c \<le> 244" using assms by (auto simp: rune_then_def lead_info_def split: if_splits)
  then consider "unat c < 224" | "224 \<le> unat c" "unat c < 240" | "240 \<le> unat c" "unat c < 248"
    by linarith
  then show ?thesis
  proof cases
    case 1
    with assms obtain b r where cs: "cs = b # r" "second_ok (unat c) (unat b)" "A r"
      by (auto simp: rune_then2 split: list.splits)
    have lead: "194 \<le> unat c" and b: "128 \<le> unat b" "unat b < 192"
      using cs(2) second_ok_cont [OF cs(2)] by (auto simp: second_ok_def lead_info_def split: if_splits)
    define n where "n = (unat c - 192) * 64 + (unat b - 128)"
    have rng: "128 \<le> n" "n < 2048" "unat b - 128 < 64" unfolding n_def using lead b 1 by linarith+
    have "utf8_encode n = [c, b]"
      using rng lead b unfolding n_def by (simp only: utf8_encode_digits byte_back)
    then show ?thesis using that [of n r] rng cs by (simp add: scalar_value_def)
  next
    case 2
    with assms obtain b d r where cs: "cs = b # d # r" "second_ok (unat c) (unat b)" "cont d" "A r"
      by (auto simp: rune_then3 split: list.splits)
    have b: "128 \<le> unat b" "unat b < 192" "128 \<le> unat d" "unat d < 192"
      using second_ok_cont [OF cs(2)] cs(3) by (auto simp: cont_def)
    define n where "n = ((unat c - 224) * 64 + (unat b - 128)) * 64 + (unat d - 128)"
    have n: "int n = with_byte (with_byte (int (unat c) - 224) (unat b)) (unat d)"
      unfolding n_def with_byte_def using b(1,3) 2(1) by (simp only: of_nat_add of_nat_mult of_nat_diff) simp
    have "rune_ok 3 (int n)" unfolding n using second_ok3 [of "unat c" "unat b" "unat d"] cs(2) b 2 by blast
    then have rng: "2048 \<le> n" "scalar_value n"
      unfolding rune_ok_def minForLength_def MaxRune_def scalar_value_def by auto
    have "int n < 65536" unfolding n using b 2 by (intro three_digits_bound)
    then have rng2: "n < 65536" "unat b - 128 < 64" "unat d - 128 < 64" using b by linarith+
    have "utf8_encode n = [c, b, d]"
      using rng rng2 2 b unfolding n_def by (simp only: utf8_encode_digits byte_back)
    then show ?thesis using that [of n r] rng cs by simp
  next
    case 3
    with assms obtain b d e r where cs: "cs = b # d # e # r" "second_ok (unat c) (unat b)"
        "cont d" "cont e" "A r"
      by (auto simp: rune_then4 split: list.splits)
    have b: "128 \<le> unat b" "unat b < 192" "128 \<le> unat d" "unat d < 192" "128 \<le> unat e" "unat e < 192"
      using second_ok_cont [OF cs(2)] cs(3,4) by (auto simp: cont_def)
    define n where "n = (((unat c - 240) * 64 + (unat b - 128)) * 64 + (unat d - 128)) * 64 + (unat e - 128)"
    have n: "int n = with_byte (with_byte (with_byte (int (unat c) - 240) (unat b)) (unat d)) (unat e)"
      unfolding n_def with_byte_def using b(1,3,5) 3(1) by (simp only: of_nat_add of_nat_mult of_nat_diff) simp
    have "rune_ok 4 (int n)" unfolding n
      using second_ok4 [of "unat c" "unat b" "unat d" "unat e"] cs(2) b 3 by blast
    then have rng: "65536 \<le> n" "scalar_value n"
      unfolding rune_ok_def minForLength_def MaxRune_def scalar_value_def by auto
    have rng2: "unat b - 128 < 64" "unat d - 128 < 64" "unat e - 128 < 64"
      using b by linarith+
    have "utf8_encode n = [c, b, d, e]"
      using rng rng2 3 b unfolding n_def by (simp only: utf8_encode_digits byte_back)
    then show ?thesis using that [of n r] rng cs by simp
  qed
qed

lemma ValidUTF8_imp_well_formed: "ValidUTF8 bs \<Longrightarrow> well_formed bs"
proof (induction bs rule: length_induct)
  case (1 bs)
  show ?case
  proof (cases bs)
    case Nil
    then show ?thesis by (auto simp: well_formed_def intro: exI [of _ "[]"])
  next
    case (Cons c cs)
    show ?thesis
    proof (cases "unat c < 128")
      case True
      with Cons "1.prems" have "ValidUTF8 cs" by (simp add: ValidUTF8.simps byte_lead)
      with "1.IH" Cons have "well_formed cs" by simp
      moreover have "bs = utf8_encode (unat c) @ cs" using True Cons by (simp add: utf8_encode_digits)
      ultimately show ?thesis using True by (simp add: well_formed_Cons scalar_value_def)
    next
      case False
      with Cons "1.prems" have "rune_then ValidUTF8 (unat c) cs" by (simp add: ValidUTF8_rune)
      with False obtain n r where n: "scalar_value n" "bs = utf8_encode n @ r" "ValidUTF8 r"
        using rune_then_encode [of c ValidUTF8 cs] Cons by (metis linorder_not_less)
      moreover have "utf8_encode n \<noteq> []" by (simp add: utf8_encode_def)
      ultimately show ?thesis using "1.IH" by (auto intro: well_formed_Cons)
    qed
  qed
qed

lemma well_formed_imp_ValidUTF8: "well_formed bs \<Longrightarrow> ValidUTF8 bs"
proof -
  have "\<forall>n \<in> set ns. scalar_value n \<Longrightarrow> ValidUTF8 (concat (map utf8_encode ns))" for ns
    by (induction ns) (auto simp: ValidUTF8_encode ValidUTF8.simps)
  then show "well_formed bs \<Longrightarrow> ValidUTF8 bs" by (auto simp: well_formed_def)
qed

lemma ValidUTF8_well_formed: "ValidUTF8 bs \<longleftrightarrow> well_formed bs"
  using ValidUTF8_imp_well_formed well_formed_imp_ValidUTF8 by blast

section \<open>One rune at a time\<close>

text \<open>
  \<open>utf8.RuneStart\<close>, and \<open>utf8.DecodeRune\<close> as far as its callers look at it: the length of the
  encoding at the front, \<open>None\<close> for the error of one byte.
\<close>

definition RuneStart :: "byte \<Rightarrow> bool" where
  "RuneStart b \<longleftrightarrow> b AND 0xc0 \<noteq> 0x80"

definition rune_len :: "byte list \<Rightarrow> nat option" where
  "rune_len s = (case s of [] \<Rightarrow> None
    | c # cs \<Rightarrow>
        if c < 0x80 then Some 1
        else case lead_info (unat c) of None \<Rightarrow> None
          | Some (sz, lo, hi) \<Rightarrow> (case rune_tail sz lo hi cs of None \<Rightarrow> None | Some r \<Rightarrow> Some sz))"

lemma encode_shape:
  assumes "scalar_value n"
  obtains c cs where "utf8_encode n = c # cs" "\<not> cont c" "\<forall>b \<in> set cs. cont b" "length cs \<le> 3"
    "unat c < 128 \<longleftrightarrow> cs = []"
proof -
  have c: "cont (word_of_nat (128 + x mod 64))" for x
    using mod_less_divisor [of 64 x] by (simp add: cont_def unat_word_of_nat_byte del: of_nat_add)
  have l: "\<not> cont (word_of_nat k)" "\<not> unat (word_of_nat k :: byte) < 128" if "192 \<le> k" "k < 256" for k
    using that by (simp_all add: cont_def unat_word_of_nat_byte)
  consider "n < 128" | "128 \<le> n" "n < 2048" | "2048 \<le> n" "n < 65536" | "65536 \<le> n" "n \<le> 0x10ffff"
    using assms by (force simp: scalar_value_def)
  then show ?thesis
  proof cases
    case 1
    then show ?thesis using that [of "word_of_nat n" "[]"]
      by (simp add: utf8_encode_def cont_def unat_word_of_nat_byte)
  next
    case 2
    then have "192 + n div 64 < 256" by (simp add: less_mult_imp_div_less)
    with 2 show ?thesis using that [of "word_of_nat (192 + n div 64)" "[word_of_nat (128 + n mod 64)]"]
        l [of "192 + n div 64"] c by (simp add: utf8_encode_def del: of_nat_add)
  next
    case 3
    then have "n div 4096 < 16" by (simp add: less_mult_imp_div_less)
    with 3 show ?thesis
      using that [of "word_of_nat (224 + n div 4096)" "[word_of_nat (128 + n div 64 mod 64), word_of_nat (128 + n mod 64)]"]
        l [of "224 + n div 4096"] c by (simp add: utf8_encode_def del: of_nat_add)
  next
    case 4
    then have "n div 262144 < 5" by (simp add: less_mult_imp_div_less)
    with 4 show ?thesis
      using that [of "word_of_nat (240 + n div 262144)" "[word_of_nat (128 + n div 4096 mod 64),
          word_of_nat (128 + n div 64 mod 64), word_of_nat (128 + n mod 64)]"]
        l [of "240 + n div 262144"] c by (simp add: utf8_encode_def del: of_nat_add)
  qed
qed

lemma RuneStart_cont: "RuneStart b \<longleftrightarrow> \<not> cont b"
  by (auto simp: RuneStart_def cont_def byte_lead)

lemma ValidUTF8_cont: "cont c \<Longrightarrow> \<not> ValidUTF8 (c # cs)"
  by (auto simp: ValidUTF8.simps cont_def byte_lead lead_info_def)

lemma rune_tail_len:
  "rune_tail sz lo hi bs = Some r \<Longrightarrow> sz \<in> {2, 3, 4} \<Longrightarrow> length bs = sz - 1 + length r"
  by (cases "(sz, lo, hi, bs)" rule: rune_tail.cases) (auto split: if_splits list.splits)

lemma rune_tail_append:
  "rune_tail sz lo hi bs = Some r \<Longrightarrow> rune_tail sz lo hi (bs @ t) = Some (r @ t)"
  by (cases "(sz, lo, hi, bs)" rule: rune_tail.cases) (auto split: if_splits list.splits)

lemma lead_info_sizes: "lead_info n = Some (sz, lo, hi) \<Longrightarrow> sz \<in> {2, 3, 4}"
  by (auto simp: lead_info_def split: if_splits)

lemma rune_len_encode:
  assumes "rune_len s = Some n"
  obtains m r where "scalar_value m" "s = utf8_encode m @ r" "length (utf8_encode m) = n"
proof -
  obtain c cs where s: "s = c # cs" using assms by (auto simp: rune_len_def split: list.splits)
  show ?thesis
  proof (cases "unat c < 128")
    case True
    then show ?thesis using assms that [of "unat c" cs]
      by (simp add: s rune_len_def byte_lead utf8_encode_digits scalar_value_def)
  next
    case False
    then obtain sz lo hi r where t: "lead_info (unat c) = Some (sz, lo, hi)" "rune_tail sz lo hi cs = Some r"
      "n = sz" using assms by (auto simp: s rune_len_def byte_lead split: option.splits)
    then have "rune_then (\<lambda>x. x = r) (unat c) cs" by (simp add: rune_then_def)
    then obtain m where m: "scalar_value m" "c # cs = utf8_encode m @ r"
      using rune_then_encode [of c "\<lambda>x. x = r" cs] False by (metis linorder_not_less)
    have "length (c # cs) = sz + length r"
      using rune_tail_len [OF t(2) lead_info_sizes [OF t(1)]] lead_info_sizes [OF t(1)] by auto
    then have "length (utf8_encode m) = n" using t(3) by (simp add: m(2))
    with m s show ?thesis using that by blast
  qed
qed

lemma rune_len_append: "rune_len s = Some n \<Longrightarrow> rune_len (s @ t) = Some n"
  by (auto simp: rune_len_def rune_tail_append split: list.splits option.splits if_splits)

lemma rune_len_of_encode:
  assumes "scalar_value m"
  shows "rune_len (utf8_encode m @ r) = Some (length (utf8_encode m))"
proof -
  obtain c cs where s: "utf8_encode m = c # cs" "\<forall>b \<in> set cs. cont b" "unat c < 128 \<longleftrightarrow> cs = []"
    using encode_shape [OF assms] by metis
  have "rune_len (c # cs) = Some (length (c # cs))"
  proof (cases "unat c < 128")
    case True
    then show ?thesis using s(3) by (simp add: rune_len_def byte_lead)
  next
    case False
    have "ValidUTF8 (c # cs)" using ValidUTF8_encode [OF assms, of "[]"] s(1) by (simp add: ValidUTF8.simps)
    then have "rune_then ValidUTF8 (unat c) cs" using False ValidUTF8_rune [of c cs] by simp
    then obtain sz lo hi t where t: "lead_info (unat c) = Some (sz, lo, hi)"
      "rune_tail sz lo hi cs = Some t" "ValidUTF8 t"
      by (auto simp: rune_then_def split: option.splits)
    then have n: "rune_len (c # cs) = Some sz" using False by (simp add: rune_len_def byte_lead)
    have len: "length cs = sz - 1 + length t" "sz \<in> {2, 3, 4}"
      using rune_tail_len [OF t(2)] lead_info_sizes [OF t(1)] by auto
    have "t = []"
    proof (rule ccontr)
      assume "t \<noteq> []"
      moreover have "set t \<subseteq> set cs" using t(2)
        by (cases "(sz, lo, hi, cs)" rule: rune_tail.cases) (auto split: if_splits list.splits)
      ultimately have "cont (hd t)" using s(2) by (cases t) auto
      with \<open>t \<noteq> []\<close> t(3) show False using ValidUTF8_cont by (cases t) auto
    qed
    with n len show ?thesis by auto
  qed
  then show ?thesis using rune_len_append [of "c # cs"] s(1) by simp
qed

lemma encode_prefix_free:
  assumes "scalar_value m" "scalar_value k" "utf8_encode m @ a = utf8_encode k @ b"
  shows "utf8_encode m = utf8_encode k"
  using rune_len_of_encode [OF assms(1), of a] rune_len_of_encode [OF assms(2), of b] assms(3)
  by (metis append_eq_append_conv option.inject)

section \<open>Feeding a message in pieces\<close>

lemma utf8_loop_bad: "utf8_loop v b = (v', ok) \<Longrightarrow> \<not> bad v \<Longrightarrow> bad v' = (\<not> ok)"
proof (induction b arbitrary: v)
  case Nil
  then show ?case by auto
next
  case (Cons c cs)
  from Cons.prems show ?case by (auto simp: Let_def split: if_splits dest!: Cons.IH)
qed

lemma utf8_loop_append:
  "utf8_loop v (a @ b) = (let (v', ok) = utf8_loop v a in if ok then utf8_loop v' b else (v', False))"
  by (induction a arbitrary: v) (simp_all add: Let_def)

lemma utf8_write_append:
  "utf8_write v (a @ b) = (let (v', ok) = utf8_write v a in if ok then utf8_write v' b else (v', False))"
proof (cases "bad v")
  case True
  then show ?thesis by (simp add: utf8_write_def)
next
  case False
  obtain v' ok where a: "utf8_loop v a = (v', ok)" by (cases "utf8_loop v a")
  with utf8_loop_bad [OF a False] False show ?thesis
    by (simp add: utf8_write_def utf8_loop_append)
qed

lemma utf8_write_complete:
  assumes "utf8_write utf8_reset b = (v, ok)"
  shows "ok \<and> utf8_complete v \<longleftrightarrow> ValidUTF8 b"
proof -
  have r: "\<not> bad utf8_reset" by (simp add: utf8_reset_def)
  with assms have l: "utf8_loop utf8_reset b = (v, ok)" by (simp add: utf8_write_def)
  have "ok \<and> utf8_complete v \<longleftrightarrow> accepts utf8_reset b"
    using utf8_loop_bad [OF l r] by (auto simp: accepts_def l utf8_complete_def)
  then show ?thesis by (simp add: accepts_ValidUTF8)
qed

interpretation utf8: incremental utf8_reset utf8_write utf8_complete ValidUTF8
  by unfold_locales (auto simp: utf8_write_append utf8_write_complete, simp add: utf8_write_def utf8_reset_def)

text \<open>
  How far behind the refusal may be: while nothing has been refused, all but the last three
  bytes fed are already complete, valid runes.
\<close>

definition open_bytes :: "utf8Validator \<Rightarrow> nat" where
  "open_bytes v = (if pending v = 0 then 0 else need v - pending v)"

definition open_rune :: "utf8Validator \<Rightarrow> bool" where
  "open_rune v \<longleftrightarrow> (pending v = 0 \<or> (pending v < need v \<and> need v \<le> 4))"

lemma open_rune_step:
  assumes "open_rune v" "utf8_loop v [c] = (v', True)"
  shows "open_rune v'" "open_bytes v' = 0 \<and> pending v' = 0 \<or> open_bytes v' = Suc (open_bytes v)"
  using assms by (auto simp: open_rune_def open_bytes_def Let_def split: if_splits)

lemma utf8_lag:
  "utf8_loop utf8_reset b = (v, True) \<Longrightarrow>
    open_rune v \<and> open_bytes v \<le> length b \<and> accepts utf8_reset (take (length b - open_bytes v) b)"
proof (induction b arbitrary: v rule: rev_induct)
  case Nil
  then show ?case by (auto simp: open_rune_def open_bytes_def utf8_reset_def)
next
  case (snoc c b)
  from snoc.prems obtain u where u: "utf8_loop utf8_reset b = (u, True)" "utf8_loop u [c] = (v, True)"
    by (auto simp: utf8_loop_append split: prod.splits if_splits simp del: utf8_loop.simps(2))
  note ih = snoc.IH [OF u(1)]
  note step = open_rune_step [OF conjunct1 [OF ih] u(2)]
  show ?case
  proof (cases "pending v = 0")
    case True
    then have "accepts utf8_reset (b @ [c])" by (simp add: accepts_def snoc.prems)
    with step True show ?thesis by (simp add: open_bytes_def)
  next
    case False
    with step have "open_bytes v = Suc (open_bytes u)" by (auto simp: open_bytes_def)
    with step(1) ih show ?thesis by (auto simp: take_append)
  qed
qed

section \<open>Properties\<close>

text \<open>Property C11. The incremental validator of a fragmented text message decides UTF-8: the
  fragments of a message are each accepted, and the message may end, exactly when their
  concatenation is a sequence of encoded Unicode scalar values, wherever it was cut.\<close>

theorem validator_decides_utf8:
  "(let (v, ok) = feed_all utf8_write utf8_reset fragments in ok \<and> utf8_complete v) \<longleftrightarrow>
    well_formed (concat fragments)"
  unfolding ValidUTF8_well_formed [symmetric] by (rule utf8.pieces_valid)

text \<open>A refusal is never premature and never more than three bytes late: once a
  prefix is refused no continuation of it is UTF-8, and while nothing is refused all but the
  last three bytes fed so far are UTF-8 already.\<close>

theorem validator_refusal_timely:
  "(\<not> snd (utf8_write utf8_reset b) \<and> \<not> (\<exists>more. well_formed (b @ more))) \<or>
   (snd (utf8_write utf8_reset b) \<and>
     (\<exists>k \<le> 3. k \<le> length b \<and> well_formed (take (length b - k) b)))"
proof (cases "snd (utf8_write utf8_reset b)")
  case False
  then show ?thesis using utf8.refused_for_good [of b] by (simp add: ValidUTF8_well_formed)
next
  case True
  then obtain v where v: "utf8_loop utf8_reset b = (v, True)"
    by (cases "utf8_loop utf8_reset b") (auto simp: utf8_write_def utf8_reset_def split: if_splits)
  from utf8_lag [OF v] have "open_bytes v \<le> 3" by (auto simp: open_rune_def open_bytes_def)
  with utf8_lag [OF v] True show ?thesis
    by (auto simp: accepts_ValidUTF8 ValidUTF8_well_formed)
qed

end
