(* ===== verification/Json.thy ===== *)
theory Json
  imports Ws_Utf8
begin

text \<open>
  What the protocol uses of the standard library's \<open>encoding/json\<close>: the scanner behind
  \<open>Valid\<close>, with its nesting limit; \<open>Compact\<close>; a string written the way \<open>Marshal\<close> writes
  one, HTML characters escaped and bytes that are not UTF-8 replaced; a string read the way
  \<open>Unmarshal\<close> reads one; and the members of an object, each value as the bytes it was written
  with, which is what a \<open>RawMessage\<close> holds. Field names are matched as the library matches
  them, exactly or by case folding. A Go string and a \<open>[]byte\<close> are both \<^typ>\<open>string\<close> here.
\<close>

section \<open>Characters\<close>

abbreviation quot :: char where "quot \<equiv> CHR 0x22"
abbreviation bslash :: char where "bslash \<equiv> CHR 0x5C"

definition code :: "char \<Rightarrow> nat" where
  "code c = of_char c"

definition is_space :: "char \<Rightarrow> bool" where
  "is_space c \<longleftrightarrow> c = CHR '' '' \<or> c = CHR 0x09 \<or> c = CHR 0x0A \<or> c = CHR 0x0D"

definition skip_ws :: "string \<Rightarrow> string" where
  "skip_ws s = dropWhile is_space s"

definition is_digit :: "char \<Rightarrow> bool" where
  "is_digit c \<longleftrightarrow> 0x30 \<le> code c \<and> code c \<le> 0x39"

definition hex_value :: "char \<Rightarrow> nat option" where
  "hex_value c =
    (let n = code c in
     if 0x30 \<le> n \<and> n \<le> 0x39 then Some (n - 0x30)
     else if 0x61 \<le> n \<and> n \<le> 0x66 then Some (n - 0x61 + 10)
     else if 0x41 \<le> n \<and> n \<le> 0x46 then Some (n - 0x41 + 10)
     else None)"

definition hex4 :: "char \<Rightarrow> char \<Rightarrow> char \<Rightarrow> char \<Rightarrow> nat option" where
  "hex4 a b c d =
    (case (hex_value a, hex_value b, hex_value c, hex_value d) of
       (Some w, Some x, Some y, Some z) \<Rightarrow> Some (w * 4096 + x * 256 + y * 16 + z)
     | _ \<Rightarrow> None)"

section \<open>The scanner\<close>

text \<open>Each scanner answers what is left after the piece it takes from the front.\<close>

fun scan_string :: "string \<Rightarrow> string option" where
  "scan_string [] = None"
| "scan_string (c # s) =
    (if c = quot then Some s
     else if c = bslash then
       (case s of
          [] \<Rightarrow> None
        | e # s1 \<Rightarrow>
            if e \<in> set ''bfnrt/'' \<or> e = bslash \<or> e = quot then scan_string s1
            else if e = CHR ''u'' then
              (case s1 of
                 h1 # h2 # h3 # h4 # s2 \<Rightarrow> if hex4 h1 h2 h3 h4 = None then None else scan_string s2
               | _ \<Rightarrow> None)
            else None)
     else if code c < 0x20 then None
     else scan_string s)"

definition scan_digits1 :: "string \<Rightarrow> string option" where
  "scan_digits1 s = (case s of [] \<Rightarrow> None | c # r \<Rightarrow> if is_digit c then Some (dropWhile is_digit r) else None)"

definition scan_number :: "string \<Rightarrow> string option" where
  "scan_number s =
    (let s = (case s of c # r \<Rightarrow> if c = CHR ''-'' then r else s | [] \<Rightarrow> s);
         int_part = (case s of
             [] \<Rightarrow> None
           | c # r \<Rightarrow> if c = CHR ''0'' then Some r else scan_digits1 s);
         frac = (\<lambda>s. case s of [] \<Rightarrow> Some s
           | c # r \<Rightarrow> if c = CHR ''.'' then scan_digits1 r else Some s);
         expo = (\<lambda>s. case s of [] \<Rightarrow> Some s
           | c # r \<Rightarrow> if c = CHR ''e'' \<or> c = CHR ''E'' then
                (case r of
                   sg # r1 \<Rightarrow> if sg = CHR ''+'' \<or> sg = CHR ''-'' then scan_digits1 r1 else scan_digits1 r
                 | [] \<Rightarrow> None)
              else Some s)
     in Option.bind (Option.bind int_part frac) expo)"

definition scan_word :: "string \<Rightarrow> string \<Rightarrow> string option" where
  "scan_word w s = (if take (length w) s = w then Some (drop (length w) s) else None)"

definition scan_scalar :: "string \<Rightarrow> string option" where
  "scan_scalar s =
    (case s of
       [] \<Rightarrow> None
     | c # r \<Rightarrow>
         if c = quot then scan_string r
         else if c = CHR ''t'' then scan_word ''true'' s
         else if c = CHR ''f'' then scan_word ''false'' s
         else if c = CHR ''n'' then scan_word ''null'' s
         else scan_number s)"

text \<open>The bytes a scanner took.\<close>

definition taken :: "string \<Rightarrow> string \<Rightarrow> string" where
  "taken s r = take (length s - length r) s"

text \<open>
  The members of an object and the elements of an array, after the opening bracket. The
  number of turns is bounded by the length of the input, since each takes a character.
\<close>

primrec obj_items :: "(string \<Rightarrow> string option) \<Rightarrow> nat \<Rightarrow> string \<Rightarrow> ((string \<times> string) list \<times> string) option" where
  "obj_items sc 0 s = None"
| "obj_items sc (Suc n) s =
    (case skip_ws s of
       [] \<Rightarrow> None
     | q # r \<Rightarrow>
         if q \<noteq> quot then None
         else case scan_string r of None \<Rightarrow> None
         | Some r1 \<Rightarrow>
            (case skip_ws r1 of
               [] \<Rightarrow> None
             | c # r2 \<Rightarrow>
                 if c \<noteq> CHR '':'' then None
                 else case sc (skip_ws r2) of None \<Rightarrow> None
                 | Some r3 \<Rightarrow>
                    let member = (taken (q # r) r1, taken (skip_ws r2) r3) in
                    (case skip_ws r3 of
                       [] \<Rightarrow> None
                     | e # r4 \<Rightarrow>
                         if e = CHR ''}'' then Some ([member], r4)
                         else if e = CHR '','' then
                           (case obj_items sc n r4 of None \<Rightarrow> None
                            | Some (ms, r5) \<Rightarrow> Some (member # ms, r5))
                         else None)))"

primrec arr_items :: "(string \<Rightarrow> string option) \<Rightarrow> nat \<Rightarrow> string \<Rightarrow> string option" where
  "arr_items sc 0 s = None"
| "arr_items sc (Suc n) s =
    (case sc (skip_ws s) of None \<Rightarrow> None
     | Some r \<Rightarrow>
        (case skip_ws r of
           [] \<Rightarrow> None
         | c # r1 \<Rightarrow>
             if c = CHR '']'' then Some r1
             else if c = CHR '','' then arr_items sc n r1
             else None))"

definition scan_object :: "(string \<Rightarrow> string option) \<Rightarrow> string \<Rightarrow> ((string \<times> string) list \<times> string) option" where
  "scan_object sc s =
    (case skip_ws s of
       c # r \<Rightarrow> if c = CHR ''}'' then Some ([], r) else obj_items sc (length s) s
     | [] \<Rightarrow> None)"

definition scan_array :: "(string \<Rightarrow> string option) \<Rightarrow> string \<Rightarrow> string option" where
  "scan_array sc s =
    (case skip_ws s of
       c # r \<Rightarrow> if c = CHR '']'' then Some r else arr_items sc (length s) s
     | [] \<Rightarrow> None)"

text \<open>A value, in at most so many nested brackets.\<close>

primrec scan_value :: "nat \<Rightarrow> string \<Rightarrow> string option" where
  "scan_value 0 s =
    (case s of c # r \<Rightarrow> if c = CHR ''{'' \<or> c = CHR ''['' then None else scan_scalar s | [] \<Rightarrow> None)"
| "scan_value (Suc d) s =
    (case s of
       [] \<Rightarrow> None
     | c # r \<Rightarrow>
         if c = CHR ''{'' then map_option snd (scan_object (scan_value d) r)
         else if c = CHR ''['' then scan_array (scan_value d) r
         else scan_scalar s)"

definition maxNestingDepth :: nat where "maxNestingDepth = 10000"

definition Valid :: "string \<Rightarrow> bool" where
  "Valid s = (case scan_value maxNestingDepth (skip_ws s) of
     None \<Rightarrow> False | Some r \<Rightarrow> skip_ws r = [])"

section \<open>Compacting\<close>

text \<open>White space outside strings goes; what is inside a string stays.\<close>

fun squeeze :: "bool \<Rightarrow> string \<Rightarrow> string" where
  "squeeze inside [] = []"
| "squeeze False (c # s) =
    (if is_space c then squeeze False s
     else c # squeeze (c = quot) s)"
| "squeeze True (c # s) =
    (if c = bslash then
       (case s of [] \<Rightarrow> [c] | e # s1 \<Rightarrow> c # e # squeeze True s1)
     else c # squeeze (c \<noteq> quot) s)"

definition Compact :: "string \<Rightarrow> string option" where
  "Compact s = (if Valid s then Some (squeeze False s) else None)"

section \<open>Runes of a string\<close>

text \<open>A string as the runes it holds, \<open>None\<close> for a byte that is not part of one.\<close>

function runes :: "string \<Rightarrow> string option list" where
  "runes [] = []"
| "runes (c # s) =
    (case rune_len (bytes_of_string (c # s)) of
       None \<Rightarrow> None # runes s
     | Some n \<Rightarrow> Some (c # take (n - 1) s) # runes (drop (n - 1) s))"
  by pat_completeness auto
termination
  by (relation "measure length") auto

definition replacement :: string where
  "replacement = [CHR 0xEF, CHR 0xBF, CHR 0xBD]"

definition to_valid :: "string \<Rightarrow> string" where
  "to_valid s = concat (map (\<lambda>r. case r of None \<Rightarrow> replacement | Some u \<Rightarrow> u) (runes s))"

section \<open>Strings\<close>

definition hex_digit :: "nat \<Rightarrow> char" where
  "hex_digit n = ''0123456789abcdef'' ! n"

definition u_escape :: "nat \<Rightarrow> string" where
  "u_escape n = [bslash, CHR ''u'', hex_digit (n div 4096 mod 16), hex_digit (n div 256 mod 16),
     hex_digit (n div 16 mod 16), hex_digit (n mod 16)]"

definition html_unsafe :: "char \<Rightarrow> bool" where
  "html_unsafe c \<longleftrightarrow> c = CHR ''<'' \<or> c = CHR ''>'' \<or> c = CHR ''&''"

definition quote_char :: "char \<Rightarrow> string" where
  "quote_char c =
    (if c = quot \<or> c = bslash then [bslash, c]
     else if c = CHR 0x08 then [bslash, CHR ''b'']
     else if c = CHR 0x0C then [bslash, CHR ''f'']
     else if c = CHR 0x0A then [bslash, CHR ''n'']
     else if c = CHR 0x0D then [bslash, CHR ''r'']
     else if c = CHR 0x09 then [bslash, CHR ''t'']
     else if code c < 0x20 \<or> html_unsafe c then u_escape (code c)
     else [c])"

fun quote_rune :: "string option \<Rightarrow> string" where
  "quote_rune None = u_escape 0xfffd"
| "quote_rune (Some u) =
    (if u = [CHR 0xE2, CHR 0x80, CHR 0xA8] then u_escape 0x2028
     else if u = [CHR 0xE2, CHR 0x80, CHR 0xA9] then u_escape 0x2029
     else case u of [c] \<Rightarrow> quote_char c | _ \<Rightarrow> u)"

text \<open>\<open>Marshal\<close> of a string.\<close>

definition json_string :: "string \<Rightarrow> string" where
  "json_string s = [quot] @ concat (map quote_rune (runes s)) @ [quot]"

definition encode_rune :: "nat \<Rightarrow> string" where
  "encode_rune n = string_of_bytes (utf8_encode n)"

text \<open>
  \<open>unquote\<close>, on the contents of a string after the opening quote and with its bytes made
  valid: a lone or mismatched surrogate becomes the replacement character.
\<close>

fun unq :: "string \<Rightarrow> string option" where
  "unq [] = None"
| "unq (c # s) =
    (if c = quot then Some []
     else if c = bslash then
       (case s of
          [] \<Rightarrow> None
        | e # s1 \<Rightarrow>
            if e = CHR ''u'' then
              (case s1 of
                 h1 # h2 # h3 # h4 # s2 \<Rightarrow>
                   (case hex4 h1 h2 h3 h4 of None \<Rightarrow> None
                    | Some n \<Rightarrow>
                       if 0xd800 \<le> n \<and> n < 0xe000 then
                         (case s2 of
                            b # u # k1 # k2 # k3 # k4 # s3 \<Rightarrow>
                              (case (if b = bslash \<and> u = CHR ''u'' then hex4 k1 k2 k3 k4 else None) of
                                 Some m \<Rightarrow>
                                   if n < 0xdc00 \<and> 0xdc00 \<le> m \<and> m < 0xe000 then
                                     map_option ((@) (encode_rune ((n - 0xd800) * 1024 + (m - 0xdc00) + 0x10000))) (unq s3)
                                   else map_option ((@) replacement) (unq s2)
                               | None \<Rightarrow> map_option ((@) replacement) (unq s2))
                          | _ \<Rightarrow> map_option ((@) replacement) (unq s2))
                       else map_option ((@) (encode_rune n)) (unq s2))
               | _ \<Rightarrow> None)
            else if e = CHR ''b'' then map_option ((#) (CHR 0x08)) (unq s1)
            else if e = CHR ''f'' then map_option ((#) (CHR 0x0C)) (unq s1)
            else if e = CHR ''n'' then map_option ((#) (CHR 0x0A)) (unq s1)
            else if e = CHR ''r'' then map_option ((#) (CHR 0x0D)) (unq s1)
            else if e = CHR ''t'' then map_option ((#) (CHR 0x09)) (unq s1)
            else if e = quot \<or> e = bslash \<or> e = CHR ''/'' then map_option ((#) e) (unq s1)
            else None)
     else if code c < 0x20 then None
     else map_option ((#) c) (unq s))"

definition unquote :: "string \<Rightarrow> string option" where
  "unquote raw = (case raw of q # s \<Rightarrow> if q = quot then unq (to_valid s) else None | [] \<Rightarrow> None)"

section \<open>Objects into structs\<close>

text \<open>The members of a text that is one object, with the keys as they read.\<close>

definition members :: "string \<Rightarrow> (string \<times> string) list option" where
  "members s =
    (if \<not> Valid s then None
     else case skip_ws s of
        c # r \<Rightarrow>
          if c = CHR ''{'' then
            (case scan_object (scan_value (maxNestingDepth - 1)) r of None \<Rightarrow> None
             | Some (ms, _) \<Rightarrow> Some (map (\<lambda>(k, v). (case unquote k of Some k' \<Rightarrow> k' | None \<Rightarrow> [], v)) ms))
          else if scan_word ''null'' (c # r) \<noteq> None then Some []
          else None
      | [] \<Rightarrow> None)"

text \<open>Case folding: the ASCII letters, and the two letters outside ASCII that fold onto them.\<close>

fun fold_name :: "string \<Rightarrow> string" where
  "fold_name [] = []"
| "fold_name (c # s) =
    (if code c < 0x80 then
       (if 0x61 \<le> code c \<and> code c \<le> 0x7a then char_of (code c - 32) else c) # fold_name s
     else if c = CHR 0xC5 \<and> take 1 s = [CHR 0xBF] then CHR ''S'' # fold_name (drop 1 s)
     else if c = CHR 0xE2 \<and> take 2 s = [CHR 0x84, CHR 0xAA] then CHR ''K'' # fold_name (drop 2 s)
     else c # fold_name s)"

text \<open>
  The field a key is decoded into, out of the fields of the struct: the one of that very
  name, or else the one it folds to.
\<close>

definition field_of :: "string list \<Rightarrow> string \<Rightarrow> string option" where
  "field_of fs key =
    (if List.member fs key then Some key
     else List.find (\<lambda>f. fold_name f = fold_name key) fs)"

text \<open>
  One field after the members are read in order. A string field takes strings, keeps its
  value on null and fails on anything else; a raw field takes the bytes of any value.
\<close>

fun string_field :: "string list \<Rightarrow> string \<Rightarrow> (string \<times> string) list \<Rightarrow> string \<Rightarrow> string option" where
  "string_field fs f [] old = Some old"
| "string_field fs f ((k, v) # ms) old =
    (if field_of fs k \<noteq> Some f \<or> v = ''null'' then string_field fs f ms old
     else case unquote v of None \<Rightarrow> None | Some s \<Rightarrow> string_field fs f ms s)"

fun raw_field :: "string list \<Rightarrow> string \<Rightarrow> (string \<times> string) list \<Rightarrow> string \<Rightarrow> string" where
  "raw_field fs f [] old = old"
| "raw_field fs f ((k, v) # ms) old =
    raw_field fs f ms (if field_of fs k = Some f then v else old)"

end
