(* ===== verification/Joaju_Types.thy ===== *)
theory Joaju_Types
  imports Joaju_Prelude "HOL-Library.Sublist" "HOL-Library.List_Lexorder" "HOL-Library.Char_ord"
begin

text \<open>
  \<^verbatim>\<open>joaju.go\<close>: the vocabulary the server and the protocol share. Channel names carry their
  tenant, which comes off a grant; the kind of a channel is read off its name; a connection
  can only be made from a grant. The modules \<open>hesape/auth\<close> and \<open>hesape/broadcasting\<close> are not
  part of the repository: what the code calls of them is the record \<open>hesape\<close>, an argument of
  the definitions that use it, and what the code relies on is stated as \<open>hesape_documented\<close>.
\<close>

section \<open>Errors\<close>

text \<open>
  An error, as far as \<open>errors.Is\<close> and \<open>errors.As\<close> can tell: the sentinel it wraps, a protocol
  error with the code and the sentence a client sees, several errors joined, or something
  nobody asks about.
\<close>

datatype jerr =
    ErrForbidden
  | ErrNoGrant
  | ErrWrongTenant
  | ErrNoChannel
  | ErrConnectionLimit
  | ErrChannelName
  | ProtocolError (pe_code: int) (pe_message: string)
  | ErrOther string
  | Joined "jerr list"

text \<open>\<open>errors.Is (err, auth.ErrForbidden)\<close>: two of the sentinels wrap it.\<close>

fun is_forbidden :: "jerr \<Rightarrow> bool" where
  "is_forbidden ErrForbidden = True"
| "is_forbidden ErrNoGrant = True"
| "is_forbidden ErrWrongTenant = True"
| "is_forbidden (Joined es) = (\<exists>e \<in> set es. is_forbidden e)"
| "is_forbidden _ = False"

text \<open>\<open>errors.Is (err, ErrNoChannel)\<close>.\<close>

fun is_no_channel :: "jerr \<Rightarrow> bool" where
  "is_no_channel ErrNoChannel = True"
| "is_no_channel (Joined es) = (\<exists>e \<in> set es. is_no_channel e)"
| "is_no_channel _ = False"

text \<open>\<open>errors.As\<close> to a protocol error: the first one in the tree.\<close>

fun as_protocol :: "jerr \<Rightarrow> (int \<times> string) option" where
  "as_protocol (ProtocolError c m) = Some (c, m)"
| "as_protocol (Joined es) =
    (case somes (map as_protocol es) of [] \<Rightarrow> None | p # _ \<Rightarrow> Some p)"
| "as_protocol _ = None"

text \<open>\<open>errors.Join\<close>: nil errors are dropped, and no error is nil.\<close>

definition errors_join :: "jerr option list \<Rightarrow> jerr option" where
  "errors_join es = (case somes es of [] \<Rightarrow> None | l \<Rightarrow> Some (Joined l))"

lemma errors_join_None: "errors_join es = None \<longleftrightarrow> (\<forall>e \<in> set es. e = None)"
  by (auto simp: errors_join_def somes_Nil_iff [symmetric] split: list.splits)

section \<open>What is called of hesape\<close>

text \<open>
  A grant, its subject and its tenant; the check that a grant was issued for an action; the
  rules a requested name and a tenant have to obey to make a channel name; the prefixes and
  the separator of those names.
\<close>

record ('g, 's) hesape =
  Check :: "'g \<Rightarrow> string \<Rightarrow> jerr option"
  Subject :: "'g \<Rightarrow> 's"
  subject_ID :: "'s \<Rightarrow> string"
  auth_Tenant :: "'g \<Rightarrow> string"
  RequestedChannel :: "string \<Rightarrow> jerr + string"
  TenantChannel :: "'g \<Rightarrow> string \<Rightarrow> jerr + string"
  TenantSeparator :: string
  PrivateChannelPrefix :: string
  PresenceChannelPrefix :: string
  EncryptedPrivateChannelPrefix :: string
  ChannelJoin :: string

text \<open>
  What the code relies on: a requested name comes back as it was asked for and holds no
  separator; a tenant that makes a channel name is not empty and holds no separator either;
  the prefixes are the protocol's, and the separator is one character.
\<close>

definition hesape_documented :: "('g, 's) hesape \<Rightarrow> bool" where
  "hesape_documented H \<longleftrightarrow>
    (\<forall>raw name. RequestedChannel H raw = Inr name \<longrightarrow>
       name = raw \<and> raw \<noteq> [] \<and> CHR '':'' \<notin> set raw) \<and>
    (\<forall>g name full. TenantChannel H g name = Inr full \<longrightarrow>
       auth_Tenant H g \<noteq> [] \<and> CHR '':'' \<notin> set (auth_Tenant H g)) \<and>
    TenantSeparator H = '':'' \<and>
    PrivateChannelPrefix H = ''private-'' \<and>
    PresenceChannelPrefix H = ''presence-'' \<and>
    EncryptedPrivateChannelPrefix H = ''private-encrypted-''"

section \<open>Channel names\<close>

definition Connect :: string where "Connect = ''joaju.connect''"
definition Operate :: string where "Operate = ''joaju.operate''"

definition CacheChannelPrefix :: string where "CacheChannelPrefix = ''cache-''"

definition PrivateCacheChannelPrefix :: "('g, 's) hesape \<Rightarrow> string" where
  "PrivateCacheChannelPrefix H = PrivateChannelPrefix H @ CacheChannelPrefix"

definition PresenceCacheChannelPrefix :: "('g, 's) hesape \<Rightarrow> string" where
  "PresenceCacheChannelPrefix H = PresenceChannelPrefix H @ CacheChannelPrefix"

definition EncryptedPrivateCacheChannelPrefix :: "('g, 's) hesape \<Rightarrow> string" where
  "EncryptedPrivateCacheChannelPrefix H = EncryptedPrivateChannelPrefix H @ CacheChannelPrefix"

definition MaxChannelNameLength :: nat where "MaxChannelNameLength = 164"
definition ChannelNameCharacters :: string where "ChannelNameCharacters = ''_-=@,.;''"

definition ProtocolPrefix :: string where "ProtocolPrefix = ''pusher:''"
definition InternalPrefix :: string where "InternalPrefix = ''pusher_internal:''"

type_synonym SocketID = string

datatype ChannelType =
    PublicChannel | PrivateChannel | PresenceChannel | CacheChannel
  | PrivateCacheChannel | PresenceCacheChannel

fun type_String :: "ChannelType \<Rightarrow> string" where
  "type_String PublicChannel = ''public''"
| "type_String PrivateChannel = ''private''"
| "type_String PresenceChannel = ''presence''"
| "type_String CacheChannel = ''cache''"
| "type_String PrivateCacheChannel = ''private-cache''"
| "type_String PresenceCacheChannel = ''presence-cache''"

definition Guarded :: "ChannelType \<Rightarrow> bool" where
  "Guarded t \<longleftrightarrow> t \<in> {PrivateChannel, PresenceChannel, PrivateCacheChannel, PresenceCacheChannel}"

definition Presence :: "ChannelType \<Rightarrow> bool" where
  "Presence t \<longleftrightarrow> t = PresenceChannel \<or> t = PresenceCacheChannel"

definition Cache :: "ChannelType \<Rightarrow> bool" where
  "Cache t \<longleftrightarrow> t \<in> {CacheChannel, PrivateCacheChannel, PresenceCacheChannel}"

record ChannelName =
  tenant :: string
  requested :: string

definition zero_name :: ChannelName where
  "zero_name = \<lparr>tenant = [], requested = []\<rparr>"

definition IsZero :: "ChannelName \<Rightarrow> bool" where
  "IsZero n \<longleftrightarrow> tenant n = [] \<or> requested n = []"

definition notChannelCharacter :: "char \<Rightarrow> bool" where
  "notChannelCharacter r =
    (let n = (of_char r :: nat) in
     if (0x61 \<le> n \<and> n \<le> 0x7a) \<or> (0x41 \<le> n \<and> n \<le> 0x5a) \<or> (0x30 \<le> n \<and> n \<le> 0x39) then False
     else r \<notin> set ChannelNameCharacters)"

text \<open>
  The code walks the name rune by rune and the model byte by byte: every allowed rune is one
  byte, so a rune of several is refused either way.
\<close>

definition NewChannelName :: "('g, 's) hesape \<Rightarrow> 'g \<Rightarrow> string \<Rightarrow> jerr + ChannelName" where
  "NewChannelName H g req =
    (case RequestedChannel H req of
       Inl err \<Rightarrow> Inl err
     | Inr name \<Rightarrow>
         if length name > MaxChannelNameLength then Inl ErrChannelName
         else if list_ex notChannelCharacter name then Inl ErrChannelName
         else case TenantChannel H g name of
            Inl err \<Rightarrow> Inl err
          | Inr _ \<Rightarrow> Inr \<lparr>tenant = auth_Tenant H g, requested = name\<rparr>)"

definition name_String :: "('g, 's) hesape \<Rightarrow> ChannelName \<Rightarrow> string" where
  "name_String H n = (if IsZero n then [] else tenant n @ TenantSeparator H @ requested n)"

definition name_Type :: "('g, 's) hesape \<Rightarrow> ChannelName \<Rightarrow> ChannelType" where
  "name_Type H n =
    (let name = requested n in
     if prefix (EncryptedPrivateCacheChannelPrefix H) name then PrivateCacheChannel
     else if prefix (PrivateCacheChannelPrefix H) name then PrivateCacheChannel
     else if prefix (PresenceCacheChannelPrefix H) name then PresenceCacheChannel
     else if prefix CacheChannelPrefix name then CacheChannel
     else if prefix (PrivateChannelPrefix H) name then PrivateChannel
     else if prefix (PresenceChannelPrefix H) name then PresenceChannel
     else PublicChannel)"

section \<open>Connections, members and events\<close>

text \<open>
  A socket's write half is an interface, \<open>Sink\<close>. Every call of \<open>Send\<close> is recorded, with the
  socket it was made on and the message, in the order the calls are made; what it answers may
  depend on everything that was sent before, so a sink is a function of that record.
\<close>

type_synonym outbox = "(SocketID \<times> string) list"
type_synonym sink = "outbox \<Rightarrow> SocketID \<Rightarrow> string \<Rightarrow> jerr option"

record 'g Connection =
  conn_id :: SocketID
  conn_grant :: 'g

definition NewConnection :: "('g, 's) hesape \<Rightarrow> 'g \<Rightarrow> SocketID \<Rightarrow> bool \<Rightarrow> jerr + 'g Connection" where
  "NewConnection H g sid has_sink =
    (case Check H g Connect of
       Some err \<Rightarrow> Inl err
     | None \<Rightarrow>
         if auth_Tenant H g = [] then Inl ErrNoGrant
         else if sid = [] then Inl (ErrOther ''a connection needs a socket id'')
         else if \<not> has_sink then Inl (ErrOther ''a connection needs somewhere to write'')
         else Inr \<lparr>conn_id = sid, conn_grant = g\<rparr>)"

definition conn_Tenant :: "('g, 's) hesape \<Rightarrow> 'g Connection \<Rightarrow> string" where
  "conn_Tenant H c = auth_Tenant H (conn_grant c)"

definition conn_Subject :: "('g, 's) hesape \<Rightarrow> 'g Connection \<Rightarrow> 's" where
  "conn_Subject H c = Subject H (conn_grant c)"

definition conn_Send :: "sink \<Rightarrow> outbox \<Rightarrow> 'g Connection \<Rightarrow> string \<Rightarrow> jerr option \<times> outbox" where
  "conn_Send snk w c message = (snk w (conn_id c) message, w @ [(conn_id c, message)])"

record Member =
  UserID :: string
  Info :: string

definition no_member :: Member where
  "no_member = \<lparr>UserID = [], Info = []\<rparr>"

record 'g Subscriber =
  sub_Conn :: "'g Connection"
  sub_Member :: Member

record Event =
  ev_Name :: string
  ev_Channel :: ChannelName
  ev_Data :: string
  ev_Socket :: SocketID
  ev_UserID :: string

text \<open>What a subscription policy is asked about.\<close>

record Subscription =
  subs_Channel :: ChannelName
  subs_Member :: Member
  subs_Socket :: SocketID
  subs_Auth :: string
  subs_ChannelData :: string

text \<open>What the other two policies are asked about: opening a socket, calling a route.\<close>

record Handshake =
  hs_Socket :: SocketID
  hs_Origin :: string

record Operation =
  op_Route :: string
  op_Origin :: string

section \<open>Lemmas on names\<close>

lemma NewChannelName_ok:
  assumes "NewChannelName H g req = Inr n" "hesape_documented H"
  shows "tenant n = auth_Tenant H g" "requested n = req" "\<not> IsZero n"
    "CHR '':'' \<notin> set (tenant n)" "CHR '':'' \<notin> set (requested n)" "length (requested n) \<le> MaxChannelNameLength"
    "\<not> list_ex notChannelCharacter (requested n)"
proof -
  obtain name full where n: "RequestedChannel H req = Inr name" "TenantChannel H g name = Inr full"
    "n = \<lparr>tenant = auth_Tenant H g, requested = name\<rparr>" "length name \<le> MaxChannelNameLength"
    "\<not> list_ex notChannelCharacter name"
    using assms(1) by (auto simp: NewChannelName_def split: sum.splits if_splits)
  have "name = req" "req \<noteq> []" "CHR '':'' \<notin> set req"
    using assms(2) n(1) unfolding hesape_documented_def by blast+
  moreover have "auth_Tenant H g \<noteq> []" "CHR '':'' \<notin> set (auth_Tenant H g)"
    using assms(2) n(2) unfolding hesape_documented_def by blast+
  ultimately show "tenant n = auth_Tenant H g" "requested n = req" "\<not> IsZero n"
    "CHR '':'' \<notin> set (tenant n)" "CHR '':'' \<notin> set (requested n)" "length (requested n) \<le> MaxChannelNameLength"
    "\<not> list_ex notChannelCharacter (requested n)"
    using n(3-5) by (simp_all add: IsZero_def)
qed

lemma split_separator:
  assumes "a @ c # b = a' @ c # b'" "c \<notin> set a" "c \<notin> set a'"
  shows "a = a' \<and> b = b'"
proof -
  have "takeWhile (\<lambda>x. x \<noteq> c) (a @ c # b) = a" "takeWhile (\<lambda>x. x \<noteq> c) (a' @ c # b') = a'"
    using assms(2,3) by (auto simp: takeWhile_append)
  then have "a = a'" using assms(1) by simp
  then show ?thesis using assms(1) by simp
qed

lemma name_String_inj:
  assumes "hesape_documented H" "\<not> IsZero m" "\<not> IsZero n"
    "CHR '':'' \<notin> set (tenant m)" "CHR '':'' \<notin> set (tenant n)" "name_String H m = name_String H n"
  shows "m = n"
proof -
  have "TenantSeparator H = '':''" using assms(1) by (simp add: hesape_documented_def)
  then have "tenant m @ CHR '':'' # requested m = tenant n @ CHR '':'' # requested n"
    using assms(2,3,6) by (simp add: name_String_def)
  from split_separator [OF this assms(4,5)] show ?thesis by (cases m; cases n) simp
qed

text \<open>The kind of a channel, as its three properties, read off the name the client sent.\<close>

lemma type_properties:
  assumes "hesape_documented H"
  shows "Guarded (name_Type H n) \<longleftrightarrow> prefix ''private-'' (requested n) \<or> prefix ''presence-'' (requested n)"
    "Presence (name_Type H n) \<longleftrightarrow> prefix ''presence-'' (requested n)"
    "Cache (name_Type H n) \<longleftrightarrow> prefix ''cache-'' (requested n) \<or> prefix ''private-cache-'' (requested n) \<or>
       prefix ''presence-cache-'' (requested n) \<or> prefix ''private-encrypted-cache-'' (requested n)"
proof -
  have p: "PrivateCacheChannelPrefix H = ''private-cache-''" "PresenceCacheChannelPrefix H = ''presence-cache-''"
    "EncryptedPrivateCacheChannelPrefix H = ''private-encrypted-cache-''" "PrivateChannelPrefix H = ''private-''"
    "PresenceChannelPrefix H = ''presence-''" "CacheChannelPrefix = ''cache-''"
    using assms by (simp_all add: hesape_documented_def PrivateCacheChannelPrefix_def
        PresenceCacheChannelPrefix_def EncryptedPrivateCacheChannelPrefix_def CacheChannelPrefix_def)
  show "Guarded (name_Type H n) \<longleftrightarrow> prefix ''private-'' (requested n) \<or> prefix ''presence-'' (requested n)"
    "Presence (name_Type H n) \<longleftrightarrow> prefix ''presence-'' (requested n)"
    "Cache (name_Type H n) \<longleftrightarrow> prefix ''cache-'' (requested n) \<or> prefix ''private-cache-'' (requested n) \<or>
       prefix ''presence-cache-'' (requested n) \<or> prefix ''private-encrypted-cache-'' (requested n)"
    by (auto simp: name_Type_def p Let_def Guarded_def Presence_def Cache_def prefix_def)
qed

section \<open>Properties\<close>

text \<open>Property C24. Channel keys keep tenants apart. Two names built for any two grants from any two
  requested names are held under the same key only if they are the same tenant's and the same
  requested name; in particular no client can ask for a name that reaches another tenant.\<close>

theorem channel_keys_keep_tenants_apart:
  assumes "hesape_documented H" "NewChannelName H g1 r1 = Inr n1" "NewChannelName H g2 r2 = Inr n2"
  shows "name_String H n1 = name_String H n2 \<longleftrightarrow> auth_Tenant H g1 = auth_Tenant H g2 \<and> r1 = r2"
proof -
  note n1 = NewChannelName_ok [OF assms(2,1)] and n2 = NewChannelName_ok [OF assms(3,1)]
  have "name_String H n1 = name_String H n2 \<longleftrightarrow> n1 = n2"
    using name_String_inj [OF assms(1) n1(3) n2(3) n1(4) n2(4)] by blast
  also have "\<dots> \<longleftrightarrow> tenant n1 = tenant n2 \<and> requested n1 = requested n2" by (cases n1; cases n2) auto
  finally show ?thesis using n1(1,2) n2(1,2) by simp
qed

text \<open>The kind of a channel is what its name says: guarded exactly when the name the client
  sent begins with \<open>private-\<close> or \<open>presence-\<close>, a presence channel exactly when it begins with
  \<open>presence-\<close>, and a cache channel exactly when one of the four cache prefixes starts it, the
  encrypted one included.\<close>

theorem kind_is_read_off_the_name:
  assumes "hesape_documented H"
  shows "(Guarded (name_Type H n) \<longleftrightarrow> prefix ''private-'' (requested n) \<or> prefix ''presence-'' (requested n)) \<and>
    (Presence (name_Type H n) \<longleftrightarrow> prefix ''presence-'' (requested n)) \<and>
    (Cache (name_Type H n) \<longleftrightarrow> prefix ''cache-'' (requested n) \<or> prefix ''private-cache-'' (requested n) \<or>
       prefix ''presence-cache-'' (requested n) \<or> prefix ''private-encrypted-cache-'' (requested n))"
  using type_properties [OF assms] by blast

section \<open>A concrete instance of what is called of hesape\<close>

text \<open>
  Grants that record a subject, a tenant and an action, for evaluating the definitions on
  concrete inputs.
\<close>

record sample_grant =
  gr_subject :: string
  gr_tenant :: string
  gr_action :: string

definition sample_hesape :: "(sample_grant, string) hesape" where
  "sample_hesape = \<lparr>Check = (\<lambda>g a. if gr_action g = a then None else Some ErrForbidden),
    Subject = gr_subject, subject_ID = (\<lambda>s. s), auth_Tenant = gr_tenant,
    RequestedChannel = (\<lambda>s. if s = [] \<or> CHR '':'' \<in> set s then Inl ErrForbidden else Inr s),
    TenantChannel = (\<lambda>g n. if gr_tenant g = [] \<or> CHR '':'' \<in> set (gr_tenant g) then Inl ErrForbidden
      else Inr (gr_tenant g @ '':'' @ n)),
    TenantSeparator = '':'', PrivateChannelPrefix = ''private-'', PresenceChannelPrefix = ''presence-'',
    EncryptedPrivateChannelPrefix = ''private-encrypted-'', ChannelJoin = ''channel.join''\<rparr>"

lemma sample_documented: "hesape_documented sample_hesape"
  by (auto simp: hesape_documented_def sample_hesape_def split: if_splits)

definition join_grant :: "string \<Rightarrow> string \<Rightarrow> sample_grant" where
  "join_grant t u = \<lparr>gr_subject = u, gr_tenant = t, gr_action = ''channel.join''\<rparr>"

definition sample_conn :: "string \<Rightarrow> string \<Rightarrow> SocketID \<Rightarrow> sample_grant Connection" where
  "sample_conn t u sid = \<lparr>conn_id = sid, conn_grant = \<lparr>gr_subject = u, gr_tenant = t, gr_action = Connect\<rparr>\<rparr>"

lemma sample_facts:
  "Check sample_hesape (join_grant t u) (ChannelJoin sample_hesape) = None"
  "auth_Tenant sample_hesape (join_grant t u) = t" "Subject sample_hesape (join_grant t u) = u"
  "subject_ID sample_hesape u = u" "conn_Tenant sample_hesape (sample_conn t u sid) = t"
  "conn_Subject sample_hesape (sample_conn t u sid) = u" "conn_id (sample_conn t u sid) = sid"
  by (simp_all add: sample_hesape_def join_grant_def sample_conn_def conn_Tenant_def conn_Subject_def)

theorem channel_keys_keep_tenants_apart_witness:
  "\<exists>n1 n2 n3. NewChannelName sample_hesape (join_grant ''acme'' ''ana'') ''orders.17'' = Inr n1 \<and>
    NewChannelName sample_hesape (join_grant ''globex'' ''ana'') ''orders.17'' = Inr n2 \<and>
    NewChannelName sample_hesape (join_grant ''acme'' ''bob'') ''orders.17'' = Inr n3 \<and>
    name_String sample_hesape n1 \<noteq> name_String sample_hesape n2 \<and> name_String sample_hesape n1 = name_String sample_hesape n3"
proof -
  have n: "NewChannelName sample_hesape (join_grant t u) ''orders.17'' = Inr \<lparr>tenant = t, requested = ''orders.17''\<rparr>"
    if "t = ''acme'' \<or> t = ''globex''" for t u
    using that by (auto simp: NewChannelName_def sample_hesape_def join_grant_def MaxChannelNameLength_def
        notChannelCharacter_def ChannelNameCharacters_def of_char_def)
  have "name_String sample_hesape \<lparr>tenant = ''acme'', requested = ''orders.17''\<rparr> \<noteq> name_String sample_hesape \<lparr>tenant = ''globex'', requested = ''orders.17''\<rparr>"
    using channel_keys_keep_tenants_apart [OF sample_documented n [of "''acme''" "''ana''"] n [of "''globex''" "''ana''"]]
    by (simp add: sample_hesape_def join_grant_def)
  then show ?thesis using n by blast
qed

theorem kind_is_read_off_the_name_witness:
  "hesape_documented sample_hesape \<and> Guarded (name_Type sample_hesape \<lparr>tenant = ''acme'', requested = ''private-orders.17''\<rparr>)"
  using kind_is_read_off_the_name [OF sample_documented, of "\<lparr>tenant = ''acme'', requested = ''private-orders.17''\<rparr>"]
    sample_documented by simp

end
