(* ===== verification/Pusher_Frame.thy ===== *)
theory Pusher_Frame
  imports Json Joaju_Types
begin

text \<open>
  \<^verbatim>\<open>protocols/pusher/pusher.go\<close>: the wire format of the Pusher protocol. A frame, the
  double encoding of its data, the frames the server sends and the requests it reads out of a
  client's, the closed list of what a client may say, and the decision about client events.
\<close>

section \<open>Events and errors\<close>

definition EventConnectionEstablished :: string where
  "EventConnectionEstablished = ProtocolPrefix @ ''connection_established''"
definition EventError :: string where "EventError = ProtocolPrefix @ ''error''"
definition EventSubscribe :: string where "EventSubscribe = ProtocolPrefix @ ''subscribe''"
definition EventUnsubscribe :: string where "EventUnsubscribe = ProtocolPrefix @ ''unsubscribe''"
definition EventPing :: string where "EventPing = ProtocolPrefix @ ''ping''"
definition EventPong :: string where "EventPong = ProtocolPrefix @ ''pong''"
definition EventSubscriptionSucceeded :: string where
  "EventSubscriptionSucceeded = InternalPrefix @ ''subscription_succeeded''"
definition EventMemberAdded :: string where "EventMemberAdded = InternalPrefix @ ''member_added''"
definition EventMemberRemoved :: string where "EventMemberRemoved = InternalPrefix @ ''member_removed''"
definition EventCacheMiss :: string where "EventCacheMiss = ProtocolPrefix @ ''cache_miss''"
definition ClientEventPrefix :: string where "ClientEventPrefix = ''client-''"

lemmas event_defs = EventConnectionEstablished_def EventError_def EventSubscribe_def EventUnsubscribe_def
  EventPing_def EventPong_def EventSubscriptionSucceeded_def EventMemberAdded_def EventMemberRemoved_def
  EventCacheMiss_def ClientEventPrefix_def ProtocolPrefix_def InternalPrefix_def

definition CodeOverQuota :: int where "CodeOverQuota = 4004"
definition CodeUnauthorized :: int where "CodeUnauthorized = 4009"
definition CodeInvalidMessage :: int where "CodeInvalidMessage = 4200"
definition CodeRateLimited :: int where "CodeRateLimited = 4301"

definition ErrOverQuota :: jerr where
  "ErrOverQuota = ProtocolError CodeOverQuota ''Application is over connection quota''"
definition ErrUnauthorized :: jerr where
  "ErrUnauthorized = ProtocolError CodeUnauthorized ''Connection is unauthorized''"
definition ErrNotSubscribed :: jerr where
  "ErrNotSubscribed = ProtocolError CodeUnauthorized ''The client is not a member of the specified channel.''"
definition ErrClientEventChannel :: jerr where
  "ErrClientEventChannel = ProtocolError CodeUnauthorized ''Client event rejected - only supported on private and presence channels''"
definition ErrInvalidMessage :: jerr where
  "ErrInvalidMessage = ProtocolError CodeInvalidMessage ''Invalid message format''"
definition ErrRateLimited :: jerr where
  "ErrRateLimited = ProtocolError CodeRateLimited ''Rate limit exceeded''"
definition ErrChannelLimit :: jerr where
  "ErrChannelLimit = ProtocolError CodeRateLimited ''Subscription rejected - this connection is on as many channels as it may be''"
definition ErrClientEventsDisabled :: jerr where
  "ErrClientEventsDisabled = ProtocolError CodeRateLimited ''The app does not have client messaging enabled.''"

lemmas protocol_errors = ErrOverQuota_def ErrUnauthorized_def ErrNotSubscribed_def ErrClientEventChannel_def
  ErrInvalidMessage_def ErrRateLimited_def ErrChannelLimit_def ErrClientEventsDisabled_def
  CodeOverQuota_def CodeUnauthorized_def CodeInvalidMessage_def CodeRateLimited_def

section \<open>JSON texts\<close>

fun nat_string :: "nat \<Rightarrow> string" where
  "nat_string n = (if n < 10 then [hex_digit n] else nat_string (n div 10) @ [hex_digit (n mod 10)])"

declare nat_string.simps [simp del]

definition int_string :: "int \<Rightarrow> string" where
  "int_string i = (if i < 0 then CHR ''-'' # nat_string (nat (- i)) else nat_string (nat i))"

fun commas :: "string list \<Rightarrow> string" where
  "commas [] = []"
| "commas [x] = x"
| "commas (x # xs) = x @ '','' @ commas xs"

definition json_object :: "(string \<times> string) list \<Rightarrow> string" where
  "json_object ms = ''{'' @ commas (map (\<lambda>(k, v). json_string k @ '':'' @ v) ms) @ ''}''"

definition json_array :: "string list \<Rightarrow> string" where
  "json_array vs = ''['' @ commas vs @ '']''"

text \<open>
  What \<open>Marshal\<close> does with bytes an encoder of the value itself produced, a \<open>RawMessage\<close>
  among them: they have to be JSON, they are compacted, and the characters HTML gives a
  meaning to are escaped.
\<close>

fun escape_html :: "string \<Rightarrow> string" where
  "escape_html [] = []"
| "escape_html (c # s) =
    (if html_unsafe c then u_escape (code c) @ escape_html s
     else if c = CHR 0xE2 \<and> take 2 s = [CHR 0x80, CHR 0xA8] then u_escape 0x2028 @ escape_html (drop 2 s)
     else if c = CHR 0xE2 \<and> take 2 s = [CHR 0x80, CHR 0xA9] then u_escape 0x2029 @ escape_html (drop 2 s)
     else c # escape_html s)"

definition marshal_raw :: "string \<Rightarrow> string option" where
  "marshal_raw s = map_option escape_html (Compact s)"

section \<open>Frames\<close>

record Frame =
  fr_Event :: string
  fr_Channel :: string
  fr_Data :: string
  fr_UserID :: string

definition ev_frame :: "string \<Rightarrow> string \<Rightarrow> string \<Rightarrow> Frame" where
  "ev_frame e ch data = \<lparr>fr_Event = e, fr_Channel = ch, fr_Data = data, fr_UserID = []\<rparr>"

definition error_frame :: "int \<Rightarrow> string \<Rightarrow> Frame" where
  "error_frame c m =
    ev_frame EventError [] (json_object [(''code'', int_string c), (''message'', json_string m)])"

definition ErrorFrame :: "jerr \<Rightarrow> Frame" where
  "ErrorFrame err =
    (case as_protocol err of
       Some (c, m) \<Rightarrow> error_frame c m
     | None \<Rightarrow>
         if is_forbidden err then error_frame (pe_code ErrUnauthorized) (pe_message ErrUnauthorized)
         else error_frame (pe_code ErrInvalidMessage) (pe_message ErrInvalidMessage))"

definition MarshalJSON :: "Frame \<Rightarrow> jerr + string" where
  "MarshalJSON f =
    (if fr_Event f = [] then Inl (ErrOther ''a frame with no event name is not a frame'')
     else
       let omit = (\<lambda>k v. if v = [] then [] else [(k, json_string v)]) in
       if fr_Data f = [] then
         Inr (json_object ([(''event'', json_string (fr_Event f))] @
           omit ''channel'' (fr_Channel f) @ omit ''user_id'' (fr_UserID f)))
       else case Compact (fr_Data f) of
          None \<Rightarrow> Inl (ErrOther ''the data of the frame is not JSON'')
        | Some encoded \<Rightarrow>
            Inr (json_object ([(''event'', json_string (fr_Event f)), (''data'', json_string encoded)] @
              omit ''channel'' (fr_Channel f) @ omit ''user_id'' (fr_UserID f))))"

definition Encode :: "Frame \<Rightarrow> jerr + string" where
  "Encode f =
    (case MarshalJSON f of
       Inl err \<Rightarrow> Inl err
     | Inr s \<Rightarrow>
         (case marshal_raw s of None \<Rightarrow> Inl (ErrOther ''the encoded frame is not JSON'') | Some t \<Rightarrow> Inr t))"

definition unwrapJSONString :: "string \<Rightarrow> string" where
  "unwrapJSONString raw =
    (if raw = [] \<or> raw = ''null'' then []
     else if hd raw \<noteq> quot then raw
     else case unquote raw of
        None \<Rightarrow> raw
      | Some inner \<Rightarrow> if Valid inner then inner else raw)"

definition frame_fields :: "string list" where
  "frame_fields = [''event'', ''data'', ''channel'', ''user_id'']"

definition UnmarshalJSON :: "string \<Rightarrow> Frame option" where
  "UnmarshalJSON b =
    (case members b of None \<Rightarrow> None
     | Some ms \<Rightarrow>
        (case (string_field frame_fields ''event'' ms [], string_field frame_fields ''channel'' ms [],
               string_field frame_fields ''user_id'' ms []) of
           (Some e, Some ch, Some u) \<Rightarrow>
             Some \<lparr>fr_Event = e, fr_Channel = ch,
               fr_Data = unwrapJSONString (raw_field frame_fields ''data'' ms []), fr_UserID = u\<rparr>
         | _ \<Rightarrow> None))"

definition Decode :: "string \<Rightarrow> jerr + Frame" where
  "Decode message =
    (if \<not> ValidUTF8 (bytes_of_string message) then Inl ErrInvalidMessage
     else case UnmarshalJSON message of
        None \<Rightarrow> Inl ErrInvalidMessage
      | Some f \<Rightarrow> if fr_Event f = [] then Inl ErrInvalidMessage else Inr f)"

definition IsProtocol :: "Frame \<Rightarrow> bool" where "IsProtocol f = prefix ProtocolPrefix (fr_Event f)"
definition IsInternal :: "Frame \<Rightarrow> bool" where "IsInternal f = prefix InternalPrefix (fr_Event f)"
definition IsClientEvent :: "Frame \<Rightarrow> bool" where "IsClientEvent f = prefix ClientEventPrefix (fr_Event f)"

definition ClientMaySend :: "Frame \<Rightarrow> jerr option" where
  "ClientMaySend f =
    (if IsClientEvent f then None
     else if fr_Event f \<in> {EventSubscribe, EventUnsubscribe, EventPing, EventPong} then None
     else Some ErrInvalidMessage)"

section \<open>The frames the server sends\<close>

text \<open>\<open>Duration.Round\<close> of a positive duration to the second, in nanoseconds.\<close>

definition round_second :: "int \<Rightarrow> int" where
  "round_second d =
    (let m = 1000000000; r = d mod m in
     if r + r < m then d - r
     else if d + m - r \<le> 2 ^ 63 - 1 then d + m - r
     else 2 ^ 63 - 1)"

definition ConnectionEstablished :: "SocketID \<Rightarrow> int \<Rightarrow> Frame" where
  "ConnectionEstablished sid activityTimeout =
    (let secs = (if activityTimeout > 0 then
                   (let n = round_second activityTimeout div 1000000000 in if n = 0 then 1 else n)
                 else 0)
     in ev_frame EventConnectionEstablished []
          (json_object ([(''socket_id'', json_string sid)] @
            (if secs = 0 then [] else [(''activity_timeout'', int_string secs)]))))"

definition Ping :: Frame where "Ping = ev_frame EventPing [] []"
definition Pong :: Frame where "Pong = ev_frame EventPong [] []"

text \<open>
  What \<open>Channel.Data\<close> answers: nothing, or the presence block, as the ids of the members and
  what is published about each.
\<close>

record presence =
  pr_count :: nat
  pr_ids :: "string list"
  pr_hash :: "(string \<times> string) list"

text \<open>\<open>Marshal\<close> of that map: the keys of a map come out sorted.\<close>

definition marshal_hash :: "(string \<times> string) list \<Rightarrow> string option" where
  "marshal_hash h =
    (let entries = map (\<lambda>k. (k, marshal_raw (the (map_of h k)))) (sort (remdups (map fst h))) in
     if \<exists>e \<in> set entries. snd e = None then None
     else Some (json_object (map (\<lambda>(k, v). (k, the v)) entries)))"

definition marshal_data :: "presence option \<Rightarrow> string option" where
  "marshal_data d =
    (case d of
       None \<Rightarrow> Some (json_object [])
     | Some p \<Rightarrow>
         (case marshal_hash (pr_hash p) of
            None \<Rightarrow> None
          | Some h \<Rightarrow>
              Some (json_object [(''presence'', json_object
                [(''count'', int_string (int (pr_count p))), (''hash'', h),
                 (''ids'', json_array (map json_string (pr_ids p)))])])))"

definition SubscriptionSucceeded :: "ChannelName \<Rightarrow> presence option \<Rightarrow> jerr + Frame" where
  "SubscriptionSucceeded name data =
    (if IsZero name then Inl (ErrOther ''a subscription confirmation needs a channel'')
     else case marshal_data data of
        None \<Rightarrow> Inl (ErrOther ''the data could not be encoded'')
      | Some d \<Rightarrow> Inr (ev_frame EventSubscriptionSucceeded (requested name) d))"

definition MemberAdded :: "ChannelName \<Rightarrow> Member \<Rightarrow> jerr + Frame" where
  "MemberAdded name m =
    (if IsZero name then Inl (ErrOther ''a member announcement needs a channel'')
     else if Info m = [] then
       Inr (ev_frame EventMemberAdded (requested name) (json_object [(''user_id'', json_string (UserID m))]))
     else case marshal_raw (Info m) of
        None \<Rightarrow> Inl (ErrOther ''the member could not be encoded'')
      | Some info \<Rightarrow>
          Inr (ev_frame EventMemberAdded (requested name)
            (json_object [(''user_id'', json_string (UserID m)), (''user_info'', info)])))"

definition MemberRemoved :: "ChannelName \<Rightarrow> Member \<Rightarrow> jerr + Frame" where
  "MemberRemoved name m =
    (if IsZero name then Inl (ErrOther ''a member announcement needs a channel'')
     else Inr (ev_frame EventMemberRemoved (requested name) (json_object [(''user_id'', json_string (UserID m))])))"

definition CacheMiss :: "ChannelName \<Rightarrow> jerr + Frame" where
  "CacheMiss name =
    (if IsZero name then Inl (ErrOther ''a cache miss needs a channel'')
     else Inr (ev_frame EventCacheMiss (requested name) []))"

definition EventFrame :: "Event \<Rightarrow> jerr + Frame" where
  "EventFrame e =
    (if ev_Name e = [] then Inl (ErrOther ''an event with no name cannot be sent'')
     else if IsZero (ev_Channel e) then Inl (ErrOther ''an event with no channel cannot be sent'')
     else Inr \<lparr>fr_Event = ev_Name e, fr_Channel = requested (ev_Channel e), fr_Data = ev_Data e,
       fr_UserID = ev_UserID e\<rparr>)"

section \<open>The requests a client makes\<close>

record SubscribeRequest =
  rq_Channel :: string
  rq_Auth :: string
  rq_ChannelData :: string

definition Subscribe_request :: "Frame \<Rightarrow> jerr + SubscribeRequest" where
  "Subscribe_request f =
    (if fr_Event f \<noteq> EventSubscribe then Inl ErrInvalidMessage
     else
       let fs = [''channel'', ''auth'', ''channel_data''] in
       case (if fr_Data f = [] then Some [] else members (fr_Data f)) of
         None \<Rightarrow> Inl ErrInvalidMessage
       | Some ms \<Rightarrow>
          (case (string_field fs ''channel'' ms [], string_field fs ''auth'' ms []) of
             (Some ch, Some a) \<Rightarrow>
               if ch = [] then Inl ErrInvalidMessage
               else Inr \<lparr>rq_Channel = ch, rq_Auth = a,
                      rq_ChannelData = unwrapJSONString (raw_field fs ''channel_data'' ms [])\<rparr>
           | _ \<Rightarrow> Inl ErrInvalidMessage))"

definition Unsubscribe_request :: "Frame \<Rightarrow> jerr + string" where
  "Unsubscribe_request f =
    (if fr_Event f \<noteq> EventUnsubscribe then Inl ErrInvalidMessage
     else
       case (if fr_Data f = [] then Some [] else members (fr_Data f)) of
         None \<Rightarrow> Inl ErrInvalidMessage
       | Some ms \<Rightarrow>
          (case string_field [''channel''] ''channel'' ms [] of
             Some ch \<Rightarrow> if ch = [] then Inl ErrInvalidMessage else Inr ch
           | None \<Rightarrow> Inl ErrInvalidMessage))"

definition memberID :: "string \<Rightarrow> jerr + string" where
  "memberID raw =
    (if raw = [] \<or> raw = ''null'' then Inr []
     else if hd raw = quot then
       (case unquote raw of None \<Rightarrow> Inl ErrInvalidMessage | Some sid \<Rightarrow> Inr sid)
     else if hd raw = CHR ''-'' \<or> is_digit (hd raw) then Inr raw
     else Inl ErrInvalidMessage)"

definition Member_of :: "SubscribeRequest \<Rightarrow> jerr + Member" where
  "Member_of r =
    (if rq_ChannelData r = [] then Inr no_member
     else
       let fs = [''user_id'', ''user_info''] in
       case members (rq_ChannelData r) of
         None \<Rightarrow> Inl ErrInvalidMessage
       | Some ms \<Rightarrow>
          (case memberID (raw_field fs ''user_id'' ms []) of
             Inl err \<Rightarrow> Inl err
           | Inr uid \<Rightarrow> Inr \<lparr>UserID = uid, Info = unwrapJSONString (raw_field fs ''user_info'' ms [])\<rparr>))"

section \<open>Client events\<close>

definition Accept :: "('g, 's) hesape \<Rightarrow> bool \<Rightarrow> Frame \<Rightarrow> ChannelName \<Rightarrow> SocketID \<Rightarrow> Member \<Rightarrow> bool \<Rightarrow> jerr + Event" where
  "Accept H enabled f channel sid sender subscribed =
    (if \<not> IsClientEvent f then Inl ErrInvalidMessage
     else if \<not> enabled then Inl ErrClientEventsDisabled
     else if IsZero channel \<or> fr_Channel f = [] then Inl ErrInvalidMessage
     else if requested channel \<noteq> fr_Channel f then Inl ErrInvalidMessage
     else if \<not> Guarded (name_Type H channel) then Inl ErrClientEventChannel
     else if \<not> subscribed then Inl ErrNotSubscribed
     else Inr \<lparr>ev_Name = fr_Event f, ev_Channel = channel, ev_Data = fr_Data f, ev_Socket = sid,
       ev_UserID = UserID sender\<rparr>)"

end
