(* ===== verification/Pusher_Channel.thy ===== *)
theory Pusher_Channel
  imports Pusher_Frame "HOL-Library.AList"
begin

text \<open>
  \<^verbatim>\<open>protocols/pusher/channels.go\<close>: one channel, of whichever kind its name says. The
  subscriber map is an association list from socket ids; Go ranges over a map in no
  particular order, and no statement below depends on the order of the list. A nil connection,
  which the code refuses, has no counterpart: a \<^typ>\<open>'g Connection\<close> is always one. Delivery
  appends to the record of sends.
\<close>

section \<open>The channel\<close>

record 'g channel =
  ch_name :: ChannelName
  subscribers :: "(SocketID \<times> 'g Subscriber) list"
  cached :: "Event option"

definition NewChannel :: "ChannelName \<Rightarrow> jerr + 'g channel" where
  "NewChannel name =
    (if IsZero name then Inl (ErrOther ''a channel needs a name'')
     else Inr \<lparr>ch_name = name, subscribers = [], cached = None\<rparr>)"

definition Connections :: "'g channel \<Rightarrow> 'g Subscriber list" where
  "Connections c = sort_key (\<lambda>s. conn_id (sub_Conn s)) (map snd (subscribers c))"

definition channel_Find :: "'g channel \<Rightarrow> SocketID \<Rightarrow> 'g Subscriber option" where
  "channel_Find c sid = map_of (subscribers c) sid"

definition Subscribed :: "'g channel \<Rightarrow> 'g Connection \<Rightarrow> bool" where
  "Subscribed c conn = (channel_Find c (conn_id conn) \<noteq> None)"

definition gather :: "'g channel \<Rightarrow> SocketID \<Rightarrow> 'g Subscriber list" where
  "gather c skip = map snd (filter (\<lambda>(sid, s). sid \<noteq> skip) (subscribers c))"

definition holds :: "'g channel \<Rightarrow> string \<Rightarrow> bool" where
  "holds c userID = (if userID = [] then False
    else \<exists>s \<in> set (map snd (subscribers c)). UserID (sub_Member s) = userID)"

section \<open>Delivery\<close>

fun send_each :: "sink \<Rightarrow> outbox \<Rightarrow> 'g Subscriber list \<Rightarrow> string \<Rightarrow> jerr option list \<times> outbox" where
  "send_each snk w [] message = ([], w)"
| "send_each snk w (s # ss) message =
    (let (e, w1) = conn_Send snk w (sub_Conn s) message;
         (es, w2) = send_each snk w1 ss message
     in (e # es, w2))"

definition deliver :: "sink \<Rightarrow> outbox \<Rightarrow> 'g Subscriber list \<Rightarrow> Frame \<Rightarrow> jerr option \<times> outbox" where
  "deliver snk w to f =
    (if to = [] then (None, w)
     else case Encode f of
        Inl err \<Rightarrow> (Some err, w)
      | Inr message \<Rightarrow>
          (let (errs, w') = send_each snk w to message in (errors_join errs, w')))"

definition emit :: "sink \<Rightarrow> outbox \<Rightarrow> 'g Subscriber list \<Rightarrow> jerr + Frame \<Rightarrow> jerr option \<times> outbox" where
  "emit snk w to r = (case r of Inl err \<Rightarrow> (Some err, w) | Inr f \<Rightarrow> deliver snk w to f)"

section \<open>Operations\<close>

definition Subscribe :: "('g, 's) hesape \<Rightarrow> sink \<Rightarrow> 'g \<Rightarrow> 'g Connection \<Rightarrow> Member \<Rightarrow> 'g channel \<times> outbox \<Rightarrow>
    jerr option \<times> 'g channel \<times> outbox" where
  "Subscribe H snk g conn member0 = (\<lambda>(c, w).
    (case Check H g (ChannelJoin H) of
       Some err \<Rightarrow> (Some err, c, w)
     | None \<Rightarrow>
       if auth_Tenant H g \<noteq> tenant (ch_name c) then (Some ErrWrongTenant, c, w)
       else if conn_Tenant H conn \<noteq> tenant (ch_name c) then (Some ErrWrongTenant, c, w)
       else if subject_ID H (Subject H g) \<noteq> subject_ID H (conn_Subject H conn) then (Some ErrForbidden, c, w)
       else
         let presence = Presence (name_Type H (ch_name c)) in
         if presence \<and> UserID member0 = [] then (Some (ErrOther ''the subscription names no member''), c, w)
         else
           let member = (if presence then member0 else no_member);
               seated = (channel_Find c (conn_id conn) \<noteq> None);
               announce = (presence \<and> \<not> seated \<and> \<not> holds c (UserID member));
               c' = c\<lparr>subscribers := AList.update (conn_id conn) \<lparr>sub_Conn = conn, sub_Member = member\<rparr> (subscribers c)\<rparr>;
               others = (if announce then gather c' (conn_id conn) else []);
               arrived = [\<lparr>sub_Conn = conn, sub_Member = member\<rparr>]
           in if seated then (None, c', w)
              else
                let (e1, w1) = (if announce then emit snk w others (MemberAdded (ch_name c) member) else (None, w));
                    (e2, w2) = (if \<not> Cache (name_Type H (ch_name c)) then (None, w1)
                                else case cached c of
                                   Some ev \<Rightarrow> emit snk w1 arrived (EventFrame ev)
                                 | None \<Rightarrow> emit snk w1 arrived (CacheMiss (ch_name c)))
                in (errors_join [e1, e2], c', w2)))"

definition Unsubscribe :: "('g, 's) hesape \<Rightarrow> sink \<Rightarrow> 'g Connection \<Rightarrow> 'g channel \<times> outbox \<Rightarrow>
    jerr option \<times> 'g channel \<times> outbox" where
  "Unsubscribe H snk conn = (\<lambda>(c, w).
    (case channel_Find c (conn_id conn) of
       None \<Rightarrow> (None, c, w)
     | Some gone \<Rightarrow>
         let c' = c\<lparr>subscribers := AList.delete (conn_id conn) (subscribers c)\<rparr>;
             announce = (Presence (name_Type H (ch_name c)) \<and> \<not> holds c' (UserID (sub_Member gone)))
         in if \<not> announce then (None, c', w)
            else let (e, w') = emit snk w (gather c' []) (MemberRemoved (ch_name c) (sub_Member gone))
                 in (e, c', w')))"

definition channel_accepts :: "'g channel \<Rightarrow> Event \<Rightarrow> jerr option" where
  "channel_accepts c e =
    (if ev_Name e = [] then Some (ErrOther ''an event needs a name'')
     else if tenant (ev_Channel e) \<noteq> tenant (ch_name c) then Some ErrWrongTenant
     else if requested (ev_Channel e) \<noteq> requested (ch_name c) then
       Some (ErrOther ''an event for one channel was handed to another'')
     else None)"

definition channel_send :: "('g, 's) hesape \<Rightarrow> sink \<Rightarrow> Event \<Rightarrow> SocketID \<Rightarrow> 'g channel \<times> outbox \<Rightarrow>
    jerr option \<times> 'g channel \<times> outbox" where
  "channel_send H snk e skip = (\<lambda>(c, w).
    (case channel_accepts c e of
       Some err \<Rightarrow> (Some err, c, w)
     | None \<Rightarrow>
       (case EventFrame e of
          Inl err \<Rightarrow> (Some err, c, w)
        | Inr f \<Rightarrow>
            let c' = (if Cache (name_Type H (ch_name c)) \<and> \<not> IsProtocol f \<and> \<not> IsInternal f \<and> \<not> IsClientEvent f
                      then c\<lparr>cached := Some e\<rparr> else c);
                (err, w') = deliver snk w (gather c' skip) f
            in (err, c', w'))))"

definition Broadcast :: "('g, 's) hesape \<Rightarrow> sink \<Rightarrow> Event \<Rightarrow> 'g channel \<times> outbox \<Rightarrow>
    jerr option \<times> 'g channel \<times> outbox" where
  "Broadcast H snk e = channel_send H snk e (ev_Socket e)"

definition BroadcastToAll :: "('g, 's) hesape \<Rightarrow> sink \<Rightarrow> Event \<Rightarrow> 'g channel \<times> outbox \<Rightarrow>
    jerr option \<times> 'g channel \<times> outbox" where
  "BroadcastToAll H snk e = channel_send H snk e []"

text \<open>
  The presence block. The members are read in the order the map is walked and the first
  socket of a person is the one whose information is published.
\<close>

fun collect_members :: "Member list \<Rightarrow> (string \<times> string) list \<Rightarrow> (string \<times> string) list" where
  "collect_members [] acc = acc"
| "collect_members (m # ms) acc =
    (if map_of acc (UserID m) \<noteq> None then collect_members ms acc
     else collect_members ms (acc @ [(UserID m, if Info m = [] then ''{}'' else Info m)]))"

definition channel_Data :: "('g, 's) hesape \<Rightarrow> 'g channel \<Rightarrow> presence option" where
  "channel_Data H c =
    (if \<not> Presence (name_Type H (ch_name c)) then None
     else
       let hash = collect_members (map (\<lambda>(sid, s). sub_Member s) (subscribers c)) [];
           ids = sort (map fst hash)
       in Some \<lparr>pr_count = length ids, pr_ids = ids, pr_hash = hash\<rparr>)"

section \<open>What goes out\<close>

lemma send_each_eq:
  "snd (send_each snk w ss message) = w @ map (\<lambda>s. (conn_id (sub_Conn s), message)) ss"
  "length (fst (send_each snk w ss message)) = length ss"
  by (induction ss arbitrary: w) (auto simp: conn_Send_def Let_def split_def)

definition copies :: "'g Subscriber list \<Rightarrow> Frame \<Rightarrow> outbox" where
  "copies to f = (case Encode f of Inl _ \<Rightarrow> [] | Inr m \<Rightarrow> map (\<lambda>s. (conn_id (sub_Conn s), m)) to)"

lemma deliver_eq: "snd (deliver snk w to f) = w @ copies to f"
  using send_each_eq(1) [of snk w to]
  by (auto simp: deliver_def copies_def split: sum.splits prod.splits) (metis snd_conv)

lemma emit_eq: "snd (emit snk w to r) = w @ (case r of Inl _ \<Rightarrow> [] | Inr f \<Rightarrow> copies to f)"
  by (simp add: emit_def deliver_eq split: sum.splits)

section \<open>The invariant\<close>

text \<open>
  Everybody on a channel is a socket of the channel's tenant, held under its own id; on a
  presence channel everybody is somebody, and elsewhere nobody is anybody; what is cached was
  sent on this channel.
\<close>

definition seated_ok :: "('g, 's) hesape \<Rightarrow> ChannelName \<Rightarrow> SocketID \<times> 'g Subscriber \<Rightarrow> bool" where
  "seated_ok H n = (\<lambda>(sid, s). conn_id (sub_Conn s) = sid \<and> sid \<noteq> [] \<and>
    conn_Tenant H (sub_Conn s) = tenant n \<and>
    (if Presence (name_Type H n) then UserID (sub_Member s) \<noteq> [] else sub_Member s = no_member))"

definition channel_ok :: "('g, 's) hesape \<Rightarrow> 'g channel \<Rightarrow> bool" where
  "channel_ok H c \<longleftrightarrow> \<not> IsZero (ch_name c) \<and> distinct (map fst (subscribers c)) \<and>
    (\<forall>p \<in> set (subscribers c). seated_ok H (ch_name c) p) \<and>
    (\<forall>e. cached c = Some e \<longrightarrow> ev_Channel e = ch_name c \<and> ev_Name e \<noteq> [] \<and>
       Cache (name_Type H (ch_name c)))"

text \<open>The people a presence channel shows.\<close>

definition people :: "'g channel \<Rightarrow> string set" where
  "people c = UserID ` sub_Member ` snd ` set (subscribers c)"

lemma holds_people: "holds c u \<longleftrightarrow> u \<noteq> [] \<and> u \<in> people c"
  by (auto simp: holds_def people_def)

lemma NewChannel_ok: "NewChannel n = Inr c \<Longrightarrow> channel_ok H c"
  by (auto simp: NewChannel_def channel_ok_def split: if_splits)

lemma name_eqI: "tenant m = tenant n \<Longrightarrow> requested m = requested n \<Longrightarrow> (m::ChannelName) = n"
  by (cases m; cases n) simp

lemma set_update_new:
  assumes "distinct (map fst al)"
  shows "set (AList.update k v al) = insert (k, v) {p \<in> set al. fst p \<noteq> k}"
  using assms
proof (induction al)
  case (Cons p al)
  obtain k' v' where p: "p = (k', v')" by force
  have "k' \<notin> fst ` set al" using Cons.prems p by auto
  then show ?case using Cons p by (auto simp: image_iff)
qed simp

lemma set_delete: "set (AList.delete k al) = {p \<in> set al. fst p \<noteq> k}"
  by (auto simp: AList.delete_eq)

lemma distinct_delete: "distinct (map fst al) \<Longrightarrow> distinct (map fst (AList.delete k al))"
  by (rule AList.distinct_delete)

section \<open>Subscribing\<close>

text \<open>Who may be seated: the four checks of \<open>Subscribe\<close>, and a name on a presence channel.\<close>

definition may_seat :: "('g, 's) hesape \<Rightarrow> 'g \<Rightarrow> 'g Connection \<Rightarrow> Member \<Rightarrow> 'g channel \<Rightarrow> bool" where
  "may_seat H g conn m c \<longleftrightarrow> Check H g (ChannelJoin H) = None \<and> auth_Tenant H g = tenant (ch_name c) \<and>
    conn_Tenant H conn = tenant (ch_name c) \<and>
    subject_ID H (Subject H g) = subject_ID H (conn_Subject H conn) \<and>
    (Presence (name_Type H (ch_name c)) \<longrightarrow> UserID m \<noteq> [])"

definition seat_member :: "('g, 's) hesape \<Rightarrow> 'g channel \<Rightarrow> Member \<Rightarrow> Member" where
  "seat_member H c m = (if Presence (name_Type H (ch_name c)) then m else no_member)"

definition seated :: "('g, 's) hesape \<Rightarrow> 'g Connection \<Rightarrow> Member \<Rightarrow> 'g channel \<Rightarrow> 'g channel" where
  "seated H conn m c = c\<lparr>subscribers := AList.update (conn_id conn)
     \<lparr>sub_Conn = conn, sub_Member = seat_member H c m\<rparr> (subscribers c)\<rparr>"

definition copies_of :: "'g Subscriber list \<Rightarrow> jerr + Frame \<Rightarrow> outbox" where
  "copies_of to r = (case r of Inl _ \<Rightarrow> [] | Inr f \<Rightarrow> copies to f)"

text \<open>What the others and the newcomer are sent when a socket arrives.\<close>

definition arrival :: "('g, 's) hesape \<Rightarrow> 'g Connection \<Rightarrow> Member \<Rightarrow> 'g channel \<Rightarrow> outbox" where
  "arrival H conn m c =
    (if Presence (name_Type H (ch_name c)) \<and> \<not> holds c (UserID m)
     then copies_of (gather (seated H conn m c) (conn_id conn)) (MemberAdded (ch_name c) m) else []) @
    (if \<not> Cache (name_Type H (ch_name c)) then []
     else copies_of [\<lparr>sub_Conn = conn, sub_Member = seat_member H c m\<rparr>]
       (case cached c of Some ev \<Rightarrow> EventFrame ev | None \<Rightarrow> CacheMiss (ch_name c)))"

lemma Subscribe_refused: "\<not> may_seat H g conn m c \<Longrightarrow> \<exists>e. Subscribe H snk g conn m (c, w) = (Some e, c, w)"
  by (auto simp: Subscribe_def may_seat_def Let_def split: option.splits)

lemma emit_copies: "snd (emit snk w to r) = w @ copies_of to r"
  by (simp add: emit_eq copies_of_def)

lemma Subscribe_again:
  assumes "may_seat H g conn m c" "channel_Find c (conn_id conn) \<noteq> None"
  shows "Subscribe H snk g conn m (c, w) = (None, seated H conn m c, w)"
  using assms by (auto simp: Subscribe_def may_seat_def seated_def seat_member_def Let_def)

lemma Subscribe_new:
  assumes "may_seat H g conn m c" "channel_Find c (conn_id conn) = None"
  shows "snd (Subscribe H snk g conn m (c, w)) = (seated H conn m c, w @ arrival H conn m c)"
proof -
  have m: "Check H g (ChannelJoin H) = None" "auth_Tenant H g = tenant (ch_name c)"
    "conn_Tenant H conn = tenant (ch_name c)" "subject_ID H (Subject H g) = subject_ID H (conn_Subject H conn)"
    "\<not> (Presence (name_Type H (ch_name c)) \<and> UserID m = [])"
    using assms(1) by (auto simp: may_seat_def)
  show ?thesis using assms(2)
    by (cases "Presence (name_Type H (ch_name c))"; cases "holds c (UserID m)"; cases "cached c")
      (simp_all add: Subscribe_def Let_def m arrival_def split_def emit_copies seated_def
        seat_member_def m(5)[simplified])
qed

lemma seated_fields [simp]: "ch_name (seated H conn m c) = ch_name c" "cached (seated H conn m c) = cached c"
  by (simp_all add: seated_def)

lemma seated_subscribers:
  "channel_ok H c \<Longrightarrow> set (subscribers (seated H conn m c)) =
    insert (conn_id conn, \<lparr>sub_Conn = conn, sub_Member = seat_member H c m\<rparr>)
      {p \<in> set (subscribers c). fst p \<noteq> conn_id conn}"
  by (simp add: seated_def set_update_new channel_ok_def)

lemma seated_ok_channel:
  assumes "channel_ok H c" "may_seat H g conn m c" "conn_id conn \<noteq> []"
  shows "channel_ok H (seated H conn m c)"
  using assms seated_subscribers [OF assms(1), of conn m]
  by (auto simp: channel_ok_def seated_ok_def may_seat_def seat_member_def)
    (auto simp: seated_def distinct_update)

section \<open>Who receives\<close>

text \<open>
  The new entries of the record of sends are one copy of one message for each socket of a set:
  nobody else, nobody twice.
\<close>

definition one_each :: "outbox \<Rightarrow> SocketID set \<Rightarrow> Frame \<Rightarrow> bool" where
  "one_each new ids f \<longleftrightarrow>
    (case Encode f of Inl _ \<Rightarrow> new = []
     | Inr m \<Rightarrow> distinct (map fst new) \<and> fst ` set new = ids \<and> (\<forall>p \<in> set new. snd p = m))"

definition ids :: "'g channel \<Rightarrow> SocketID set" where
  "ids c = fst ` set (subscribers c)"

lemma gather_ids:
  assumes "channel_ok H c"
  shows "distinct (map (\<lambda>s. conn_id (sub_Conn s)) (gather c skip))"
    "(\<lambda>s. conn_id (sub_Conn s)) ` set (gather c skip) = ids c - {skip}"
proof -
  have k: "\<forall>p \<in> set (subscribers c). conn_id (sub_Conn (snd p)) = fst p"
    using assms by (auto simp: channel_ok_def seated_ok_def)
  have "map (\<lambda>s. conn_id (sub_Conn s)) (gather c skip) = map fst (filter (\<lambda>(sid, s). sid \<noteq> skip) (subscribers c))"
    using k by (auto simp: gather_def)
  moreover have "distinct (map fst (filter (\<lambda>(sid, s). sid \<noteq> skip) (subscribers c)))"
    using assms by (simp add: channel_ok_def distinct_map_filter)
  ultimately show "distinct (map (\<lambda>s. conn_id (sub_Conn s)) (gather c skip))" by simp
  have "set (map (\<lambda>s. conn_id (sub_Conn s)) (gather c skip)) = ids c - {skip}"
    unfolding \<open>map (\<lambda>s. conn_id (sub_Conn s)) (gather c skip) = _\<close> by (auto simp: ids_def image_iff)
  then show "(\<lambda>s. conn_id (sub_Conn s)) ` set (gather c skip) = ids c - {skip}" by simp
qed

lemma copies_one_each: "channel_ok H c \<Longrightarrow> one_each (copies (gather c skip) f) (ids c - {skip}) f"
  using gather_ids [of H c skip] by (auto simp: one_each_def copies_def comp_def image_image split: sum.splits)

lemma no_empty_id: "channel_ok H c \<Longrightarrow> ids c - {[]} = ids c"
  by (auto simp: channel_ok_def seated_ok_def ids_def)

text \<open>Every message a channel sends goes to sockets of the tenant that owns it.\<close>

definition to_sockets :: "outbox \<Rightarrow> SocketID set \<Rightarrow> bool" where
  "to_sockets new S \<longleftrightarrow> fst ` set new \<subseteq> S"

lemma to_sockets_append: "to_sockets (a @ b) S \<longleftrightarrow> to_sockets a S \<and> to_sockets b S"
  by (auto simp: to_sockets_def)

lemma to_sockets_Nil [simp]: "to_sockets [] S"
  by (simp add: to_sockets_def)

lemma to_sockets_mono: "to_sockets a S \<Longrightarrow> S \<subseteq> T \<Longrightarrow> to_sockets a T"
  by (auto simp: to_sockets_def)

lemma copies_of_to: "(\<lambda>s. conn_id (sub_Conn s)) ` set to \<subseteq> S \<Longrightarrow> to_sockets (copies_of to r) S"
  by (auto simp: to_sockets_def copies_of_def copies_def split: sum.splits)

lemma arrival_to:
  assumes "channel_ok H c" "may_seat H g conn m c" "conn_id conn \<noteq> []"
  shows "to_sockets (arrival H conn m c) (ids (seated H conn m c))"
proof -
  have ok: "channel_ok H (seated H conn m c)" by (rule seated_ok_channel [OF assms])
  have me: "conn_id conn \<in> ids (seated H conn m c)"
    using seated_subscribers [OF assms(1), of conn m] by (auto simp: ids_def)
  have "to_sockets (copies_of (gather (seated H conn m c) (conn_id conn)) r) (ids (seated H conn m c))" for r
    by (rule copies_of_to) (simp add: gather_ids(2) [OF ok])
  moreover have "to_sockets (copies_of [\<lparr>sub_Conn = conn, sub_Member = seat_member H c m\<rparr>] r)
      (ids (seated H conn m c))" for r
    by (rule copies_of_to) (simp add: me)
  ultimately show ?thesis by (simp add: arrival_def to_sockets_append)
qed

section \<open>Unsubscribing and broadcasting\<close>

definition unseated :: "'g Connection \<Rightarrow> 'g channel \<Rightarrow> 'g channel" where
  "unseated conn c = c\<lparr>subscribers := AList.delete (conn_id conn) (subscribers c)\<rparr>"

lemma unseated_fields [simp]: "ch_name (unseated conn c) = ch_name c" "cached (unseated conn c) = cached c"
  "set (subscribers (unseated conn c)) = {p \<in> set (subscribers c). fst p \<noteq> conn_id conn}"
  by (simp_all add: unseated_def set_delete)

lemma unseated_ok_channel: "channel_ok H c \<Longrightarrow> channel_ok H (unseated conn c)"
  by (auto simp: channel_ok_def) (simp add: unseated_def distinct_delete)

lemma unseated_absent: "channel_Find c (conn_id conn) = None \<Longrightarrow> unseated conn c = c"
  by (simp add: unseated_def channel_Find_def AList.delete_id map_of_eq_None_iff)

definition departure :: "('g, 's) hesape \<Rightarrow> 'g Connection \<Rightarrow> 'g channel \<Rightarrow> outbox" where
  "departure H conn c =
    (case channel_Find c (conn_id conn) of
       None \<Rightarrow> []
     | Some gone \<Rightarrow>
         if Presence (name_Type H (ch_name c)) \<and> \<not> holds (unseated conn c) (UserID (sub_Member gone))
         then copies_of (gather (unseated conn c) []) (MemberRemoved (ch_name c) (sub_Member gone)) else [])"

lemma Unsubscribe_eq: "snd (Unsubscribe H snk conn (c, w)) = (unseated conn c, w @ departure H conn c)"
  using unseated_absent [of c conn]
  by (auto simp: Unsubscribe_def departure_def unseated_def [symmetric] Let_def split_def emit_copies
      split: option.splits)

lemma departure_to: "channel_ok H c \<Longrightarrow> to_sockets (departure H conn c) (ids c)"
  using gather_ids(2) [OF unseated_ok_channel, of H c conn "[]"]
  by (auto simp: departure_def ids_def intro!: copies_of_to split: option.splits)

definition with_cached :: "('g, 's) hesape \<Rightarrow> Event \<Rightarrow> 'g channel \<Rightarrow> 'g channel" where
  "with_cached H e c =
    (let n = ev_Name e in
     if Cache (name_Type H (ch_name c)) \<and> \<not> prefix ProtocolPrefix n \<and> \<not> prefix InternalPrefix n \<and>
        \<not> prefix ClientEventPrefix n
     then c\<lparr>cached := Some e\<rparr> else c)"

definition the_frame :: "Event \<Rightarrow> Frame" where
  "the_frame e = \<lparr>fr_Event = ev_Name e, fr_Channel = requested (ev_Channel e), fr_Data = ev_Data e,
     fr_UserID = ev_UserID e\<rparr>"

lemma accepted_frame:
  "channel_ok H c \<Longrightarrow> channel_accepts c e = None \<Longrightarrow>
    ev_Channel e = ch_name c \<and> EventFrame e = Inr (the_frame e)"
  by (auto simp: channel_accepts_def EventFrame_def channel_ok_def the_frame_def IsZero_def split: if_splits intro!: name_eqI)

lemma gather_with_cached [simp]: "gather (with_cached H e c) = gather c" "ids (with_cached H e c) = ids c"
  "subscribers (with_cached H e c) = subscribers c" "ch_name (with_cached H e c) = ch_name c"
  by (auto simp: with_cached_def gather_def ids_def fun_eq_iff Let_def)

lemma channel_send_ok:
  assumes "channel_ok H c" "channel_accepts c e = None"
  shows "snd (channel_send H snk e skip (c, w)) = (with_cached H e c, w @ copies (gather c skip) (the_frame e))"
  using accepted_frame [OF assms] assms(2) gather_with_cached(1) [of H e c]
  by (auto simp: channel_send_def with_cached_def Let_def split_def deliver_eq IsProtocol_def IsInternal_def
      IsClientEvent_def the_frame_def)

lemma channel_send_refused:
  "channel_accepts c e = Some err \<Longrightarrow> channel_send H snk e skip (c, w) = (Some err, c, w)"
  by (simp add: channel_send_def)

lemma with_cached_ok: "channel_ok H c \<Longrightarrow> channel_accepts c e = None \<Longrightarrow> channel_ok H (with_cached H e c)"
  using accepted_frame [of H c e]
  by (auto simp: channel_ok_def with_cached_def Let_def channel_accepts_def split: if_splits)

section \<open>Presence\<close>

lemma people_seated:
  assumes "channel_ok H c" "Presence (name_Type H (ch_name c))" "channel_Find c (conn_id conn) = None"
  shows "people (seated H conn m c) = insert (UserID m) (people c)"
proof -
  have "\<forall>p \<in> set (subscribers c). fst p \<noteq> conn_id conn"
    using assms(3) unfolding channel_Find_def map_of_eq_None_iff by (metis image_eqI)
  then have "{p \<in> set (subscribers c). fst p \<noteq> conn_id conn} = set (subscribers c)" by auto
  then show ?thesis using seated_subscribers [OF assms(1), of conn m] assms(2)
    by (auto simp: people_def seat_member_def)
qed

lemma people_unseated:
  assumes "channel_ok H c" "channel_Find c (conn_id conn) = Some gone"
  shows "people c = insert (UserID (sub_Member gone)) (people (unseated conn c))"
proof -
  have g: "(conn_id conn, gone) \<in> set (subscribers c)" using assms(2) by (auto simp: channel_Find_def dest: map_of_SomeD)
  have d: "distinct (map fst (subscribers c))" using assms(1) by (simp add: channel_ok_def)
  have uniq: "s = gone" if "(conn_id conn, s) \<in> set (subscribers c)" for s
    using that d g by (metis eq_key_imp_eq_value)
  have "set (subscribers c) = insert (conn_id conn, gone) (set (subscribers (unseated conn c)))"
    using g by (auto dest: uniq)
  from arg_cong [OF this, of "\<lambda>A. UserID ` sub_Member ` snd ` A"] show ?thesis
    unfolding people_def by (simp only: image_insert snd_conv)
qed

lemma collect_members_keys:
  "distinct (map fst acc) \<Longrightarrow> distinct (map fst (collect_members ms acc)) \<and>
    fst ` set (collect_members ms acc) = fst ` set acc \<union> UserID ` set ms"
proof (induction ms acc rule: collect_members.induct)
  case (2 m ms acc)
  have "map_of acc (UserID m) = None \<longleftrightarrow> UserID m \<notin> fst ` set acc" by (rule map_of_eq_None_iff)
  with 2 show ?case by (cases "UserID m \<in> fst ` set acc") auto
qed simp

lemma Data_people:
  assumes "channel_Data H c = Some d"
  shows "sorted (pr_ids d) \<and> distinct (pr_ids d) \<and> set (pr_ids d) = people c \<and> pr_count d = card (people c) \<and>
    fst ` set (pr_hash d) = people c"
proof -
  define hash where "hash = collect_members (map (\<lambda>(sid, s). sub_Member s) (subscribers c)) []"
  have d: "pr_ids d = sort (map fst hash)" "pr_hash d = hash" "pr_count d = length (pr_ids d)"
    using assms by (auto simp: channel_Data_def hash_def Let_def split: if_splits)
  have k: "distinct (map fst hash)" "fst ` set hash = people c"
    using collect_members_keys [of "[]" "map (\<lambda>(sid, s). sub_Member s) (subscribers c)"]
    by (auto simp: hash_def people_def image_image split_def)
  then have s: "set (pr_ids d) = people c" "distinct (pr_ids d)" by (simp_all add: d(1))
  then have "pr_count d = card (people c)" using d(3) distinct_card by fastforce
  then show ?thesis using s d k by simp
qed

section \<open>Runs of a channel\<close>

datatype 'g ch_op =
    Op_Subscribe 'g "'g Connection" Member
  | Op_Unsubscribe "'g Connection"
  | Op_Broadcast Event
  | Op_BroadcastToAll Event

fun ch_step :: "('g, 's) hesape \<Rightarrow> sink \<Rightarrow> 'g channel \<times> outbox \<Rightarrow> 'g ch_op \<Rightarrow> 'g channel \<times> outbox" where
  "ch_step H snk s (Op_Subscribe g conn m) = snd (Subscribe H snk g conn m s)"
| "ch_step H snk s (Op_Unsubscribe conn) = snd (Unsubscribe H snk conn s)"
| "ch_step H snk s (Op_Broadcast e) = snd (Broadcast H snk e s)"
| "ch_step H snk s (Op_BroadcastToAll e) = snd (BroadcastToAll H snk e s)"

text \<open>Which tenant each socket belongs to; a connection is made from a grant of that tenant.\<close>

fun ch_may :: "('g, 's) hesape \<Rightarrow> (SocketID \<Rightarrow> string) \<Rightarrow> 'g channel \<times> outbox \<Rightarrow> 'g ch_op \<Rightarrow> bool" where
  "ch_may H owner s (Op_Subscribe g conn m) = (conn_id conn \<noteq> [] \<and> conn_Tenant H conn = owner (conn_id conn))"
| "ch_may H owner s _ = True"

definition confined :: "('g, 's) hesape \<Rightarrow> (SocketID \<Rightarrow> string) \<Rightarrow> ChannelName \<Rightarrow> outbox \<Rightarrow> 'g channel \<times> outbox \<Rightarrow> bool" where
  "confined H owner n base = (\<lambda>(c, w). ch_name c = n \<and> channel_ok H c \<and>
    (\<forall>sid \<in> ids c. owner sid = tenant n) \<and>
    (\<exists>new. w = base @ new \<and> to_sockets new {sid. owner sid = tenant n}))"

lemma confined_send:
  assumes "confined H owner n base (c, w)"
  shows "confined H owner n base (snd (channel_send H snk e skip (c, w)))"
proof (cases "channel_accepts c e")
  case None
  have ok: "channel_ok H c" "ch_name c = n" "\<forall>sid \<in> ids c. owner sid = tenant n"
    using assms by (auto simp: confined_def)
  have "to_sockets (copies (gather c skip) (the_frame e)) {sid. owner sid = tenant n}"
    using copies_of_to [of "gather c skip" "{sid. owner sid = tenant n}" "Inr (the_frame e)"]
      gather_ids(2) [OF ok(1), of skip] ok(3) by (auto simp: copies_of_def)
  then show ?thesis using assms with_cached_ok [OF ok(1) None] channel_send_ok [OF ok(1) None, of snk skip w]
    by (auto simp: confined_def to_sockets_append intro: exI [of _ "_ @ _"])
next
  case (Some err)
  then show ?thesis using assms by (simp add: channel_send_refused)
qed

lemma confined_subscribe:
  assumes c: "confined H owner n base (c, w)" and conn: "conn_id conn \<noteq> []" "conn_Tenant H conn = owner (conn_id conn)"
  shows "confined H owner n base (snd (Subscribe H snk g conn m (c, w)))"
proof (cases "may_seat H g conn m c")
  case True
  have ok: "channel_ok H c" "ch_name c = n" using c by (auto simp: confined_def)
  note s = seated_ok_channel [OF ok(1) True conn(1)] arrival_to [OF ok(1) True conn(1)]
  have own: "\<forall>sid \<in> ids (seated H conn m c). owner sid = tenant n"
    using c conn True seated_subscribers [OF ok(1), of conn m] by (auto simp: confined_def ids_def may_seat_def)
  then have "to_sockets (arrival H conn m c) {sid. owner sid = tenant n}"
    using s(2) by (auto intro: to_sockets_mono)
  then show ?thesis using c s(1) own Subscribe_new [OF True, of snk w] Subscribe_again [OF True, of snk w]
    by (cases "channel_Find c (conn_id conn) = None")
      (auto simp: confined_def to_sockets_append intro: exI [of _ "_ @ _"])
next
  case False
  then show ?thesis using c Subscribe_refused [OF False, of snk w] by auto
qed

lemma confined_unsubscribe:
  assumes c: "confined H owner n base (c, w)"
  shows "confined H owner n base (snd (Unsubscribe H snk conn (c, w)))"
proof -
  have ok: "channel_ok H c" "\<forall>sid \<in> ids c. owner sid = tenant n" using c by (auto simp: confined_def)
  then have "to_sockets (departure H conn c) {sid. owner sid = tenant n}"
    using departure_to [OF ok(1), of conn] by (auto intro: to_sockets_mono)
  then show ?thesis using c ok unseated_ok_channel [OF ok(1), of conn]
    by (auto simp: Unsubscribe_eq confined_def to_sockets_append ids_def intro: exI [of _ "_ @ _"])
qed

interpretation channel_run: stepper "ch_step H snk" "ch_may H owner" "confined H owner n base"
  for H :: "('g, 's) hesape" and snk owner n base
proof unfold_locales
  show "confined H owner n base (ch_step H snk s op)"
    if "confined H owner n base s" "ch_may H owner s op" for s op
    using that by (cases s; cases op)
      (auto simp: Broadcast_def BroadcastToAll_def confined_send confined_subscribe confined_unsubscribe)
qed

section \<open>Properties\<close>

text \<open>Nobody is seated without the four checks. When \<open>Subscribe\<close> changes a channel or
  sends anything at all, the grant was issued for joining a channel, its tenant and the
  socket's tenant are the channel's, and the grant is for the subject that holds the socket.\<close>

theorem seating_is_authorized:
  assumes "Subscribe H snk g conn m (c, w) = (e, c', w')" "(c', w') \<noteq> (c, w) \<or> e = None"
  shows "Check H g (ChannelJoin H) = None \<and> auth_Tenant H g = tenant (ch_name c) \<and>
    conn_Tenant H conn = tenant (ch_name c) \<and>
    subject_ID H (Subject H g) = subject_ID H (conn_Subject H conn) \<and>
    (Presence (name_Type H (ch_name c)) \<longrightarrow> UserID m \<noteq> [])"
proof (rule ccontr)
  assume "\<not> ?thesis"
  then have "\<not> may_seat H g conn m c" by (simp add: may_seat_def)
  then show False using Subscribe_refused [of H g conn m c snk w] assms by auto
qed

text \<open>A broadcast reaches everybody else, once. An event the channel accepts is sent, as one
  encoded message, to every subscriber but the socket the event names as its sender, and to
  nobody else; \<open>BroadcastToAll\<close> spares nobody.\<close>

theorem broadcast_reaches_everyone_once:
  assumes "channel_ok H c" "channel_accepts c e = None"
  shows "(\<exists>new. snd (snd (Broadcast H snk e (c, w))) = w @ new \<and> one_each new (ids c - {ev_Socket e}) (the_frame e)) \<and>
    (\<exists>new. snd (snd (BroadcastToAll H snk e (c, w))) = w @ new \<and> one_each new (ids c) (the_frame e))"
  using channel_send_ok [OF assms, of snk _ w] copies_one_each [OF assms(1), of _ "the_frame e"]
    no_empty_id [OF assms(1)]
  by (simp add: Broadcast_def BroadcastToAll_def) metis

text \<open>On a presence channel an arrival is about a person. A socket that is seated is announced
  to the other sockets, each of them once, exactly when it brings a person who was not there;
  a second socket of the same person is seated and announced to nobody.\<close>

theorem presence_arrival_is_announced:
  assumes "channel_ok H c" "Presence (name_Type H (ch_name c))" "\<not> Cache (name_Type H (ch_name c))"
    and "may_seat H g conn m c" "conn_id conn \<noteq> []" "channel_Find c (conn_id conn) = None"
    and "MemberAdded (ch_name c) m = Inr f"
  shows "\<exists>new. snd (Subscribe H snk g conn m (c, w)) = (seated H conn m c, w @ new) \<and>
    people (seated H conn m c) = insert (UserID m) (people c) \<and>
    (if UserID m \<in> people c then new = [] else one_each new (ids (seated H conn m c) - {conn_id conn}) f)"
proof -
  have ok: "channel_ok H (seated H conn m c)" using seated_ok_channel [OF assms(1,4,5)] .
  have "UserID m \<noteq> []" using assms(2,4) by (simp add: may_seat_def)
  then show ?thesis
    using Subscribe_new [OF assms(4,6), of snk w] people_seated [OF assms(1,2,6)] copies_one_each [OF ok] assms(2,3,7)
    by (auto simp: arrival_def holds_people copies_of_def)
qed

text \<open>On a presence channel a departure is about a person too. A socket that leaves is
  announced to the sockets that stay, each of them once, exactly when it was the last socket
  of its person; closing one of two tabs tells nobody anything.\<close>

theorem presence_departure_is_announced:
  assumes "channel_ok H c" "Presence (name_Type H (ch_name c))"
    and "channel_Find c (conn_id conn) = Some gone" "MemberRemoved (ch_name c) (sub_Member gone) = Inr f"
  shows "\<exists>new. snd (Unsubscribe H snk conn (c, w)) = (unseated conn c, w @ new) \<and>
    people c = insert (UserID (sub_Member gone)) (people (unseated conn c)) \<and>
    (if people (unseated conn c) = people c then new = [] else one_each new (ids (unseated conn c)) f)"
proof -
  have ok: "channel_ok H (unseated conn c)" using unseated_ok_channel [OF assms(1)] .
  have ne: "UserID (sub_Member gone) \<noteq> []"
    using assms(1-3) by (auto simp: channel_ok_def seated_ok_def channel_Find_def dest!: map_of_SomeD)
  show ?thesis
    using people_unseated [OF assms(1,3)] copies_one_each [OF ok, of "[]" f] no_empty_id [OF ok] assms(2-4) ne
    by (auto simp: Unsubscribe_eq departure_def holds_people copies_of_def)
qed

text \<open>The presence block lists the people on the channel: its ids are sorted, without
  repetition, and are exactly the people seated; its count is how many there are, however many
  sockets they hold; and each of them has an entry.\<close>

theorem presence_block_lists_people:
  assumes "channel_Data H c = Some d"
  shows "sorted (pr_ids d) \<and> distinct (pr_ids d) \<and> set (pr_ids d) = people c \<and> pr_count d = card (people c) \<and>
    fst ` set (pr_hash d) = people c"
  using assms by (rule Data_people)

text \<open>Property C23. A channel serves one tenant. Whatever a channel is asked to do, in whatever order and
  whichever writes fail, everybody on it is a socket of the tenant in its name, held once, and
  every message it ever sent went to a socket of that tenant.\<close>

theorem channel_serves_one_tenant:
  assumes "NewChannel n = Inr c" "permitted (ch_step H snk) (ch_may H owner) (c, w) ops"
    and "foldl (ch_step H snk) (c, w) ops = (c', w')"
  shows "distinct (map fst (subscribers c')) \<and> (\<forall>(sid, s) \<in> set (subscribers c'). owner sid = tenant n) \<and>
    (\<exists>new. w' = w @ new \<and> (\<forall>(sid, message) \<in> set new. owner sid = tenant n))"
proof -
  have "confined H owner n w (c, w)"
    using assms(1) NewChannel_ok [OF assms(1), of H]
    by (auto simp: confined_def NewChannel_def ids_def split: if_splits)
  from channel_run.run_inv [OF this assms(2)] show ?thesis
    by (fastforce simp: assms(3) confined_def channel_ok_def ids_def to_sockets_def)
qed

text \<open>A cache channel replays its state. Once an application event was broadcast on a cache
  channel, the next socket to arrive is sent exactly that event, whatever protocol or client
  events were sent after it; before that it is told there is nothing yet.\<close>

theorem cache_replays_last_event:
  assumes "channel_ok H c" "Cache (name_Type H (ch_name c))" "\<not> Presence (name_Type H (ch_name c))"
    and "channel_accepts c e = None" "\<not> prefix ProtocolPrefix (ev_Name e)" "\<not> prefix InternalPrefix (ev_Name e)"
      "\<not> prefix ClientEventPrefix (ev_Name e)"
    and "channel_accepts c e' = None" "prefix ClientEventPrefix (ev_Name e') \<or> prefix ProtocolPrefix (ev_Name e')"
    and "may_seat H g conn m c" "channel_Find c (conn_id conn) = None"
    and "snd (Broadcast H snk e (c, w)) = (c1, w1)" "snd (Broadcast H snk e' (c1, w1)) = (c2, w2)"
  shows "snd (snd (Subscribe H snk g conn m (c2, w2))) = w2 @ copies [\<lparr>sub_Conn = conn, sub_Member = no_member\<rparr>] (the_frame e) \<and>
    (cached c = None \<longrightarrow> (\<exists>f. CacheMiss (ch_name c) = Inr f \<and>
       snd (snd (Subscribe H snk g conn m (c, w))) = w @ copies [\<lparr>sub_Conn = conn, sub_Member = no_member\<rparr>] f))"
proof -
  have c1: "c1 = c\<lparr>cached := Some e\<rparr>"
    using channel_send_ok [OF assms(1,4), of snk "ev_Socket e" w] assms(2,5-7,12)
    by (simp add: Broadcast_def with_cached_def)
  have ok1: "channel_ok H c1"
    using with_cached_ok [OF assms(1,4)] assms(2,5-7) c1 by (simp add: with_cached_def)
  have "channel_accepts c1 e' = None" using assms(8) c1 by (simp add: channel_accepts_def split: if_splits)
  then have c2: "c2 = c1"
    using channel_send_ok [OF ok1, of e' snk "ev_Socket e'" w1] assms(9,13)
    by (auto simp: Broadcast_def with_cached_def Let_def)
  have seat: "may_seat H g conn m c1" "channel_Find c1 (conn_id conn) = None"
    using assms(10,11) c1 by (simp_all add: may_seat_def channel_Find_def)
  have ef: "EventFrame e = Inr (the_frame e)" using accepted_frame [OF assms(1,4)] by simp
  have "\<not> IsZero (ch_name c)" using assms(1) by (simp add: channel_ok_def)
  then show ?thesis
    using Subscribe_new [OF seat, of snk w2] Subscribe_new [OF assms(10,11), of snk w] assms(2,3) c1 c2 ef
    by (auto simp: arrival_def copies_of_def seat_member_def CacheMiss_def)
qed

section \<open>Witnesses\<close>

definition seat_of :: "string \<Rightarrow> SocketID \<Rightarrow> SocketID \<times> sample_grant Subscriber" where
  "seat_of u sid = (sid, \<lparr>sub_Conn = sample_conn ''acme'' u sid, sub_Member = \<lparr>UserID = u, Info = []\<rparr>\<rparr>)"

definition room :: "sample_grant channel" where
  "room = \<lparr>ch_name = \<lparr>tenant = ''acme'', requested = ''presence-room''\<rparr>,
    subscribers = [seat_of ''ana'' ''1.1'', seat_of ''ana'' ''1.2'', seat_of ''bob'' ''2.1''], cached = None\<rparr>"

definition board :: "sample_grant channel" where
  "board = \<lparr>ch_name = \<lparr>tenant = ''acme'', requested = ''cache-board''\<rparr>, subscribers = [], cached = None\<rparr>"

definition all_writes_work :: sink where
  "all_writes_work w sid message = None"

lemmas sample_defs = sample_hesape_def sample_conn_def join_grant_def conn_Tenant_def conn_Subject_def
  room_def board_def seat_of_def

lemma sample_kinds:
  "Presence (name_Type sample_hesape (ch_name room))" "\<not> Cache (name_Type sample_hesape (ch_name room))"
  "Cache (name_Type sample_hesape (ch_name board))" "\<not> Presence (name_Type sample_hesape (ch_name board))"
  by (simp_all add: type_properties [OF sample_documented] room_def board_def)

lemma sample_channels_ok: "channel_ok sample_hesape room" "channel_ok sample_hesape board"
  using sample_kinds
  by (simp_all add: channel_ok_def seated_ok_def IsZero_def) (simp_all add: sample_defs)

lemma sample_may_seat:
  "may_seat sample_hesape (join_grant ''acme'' ''eva'') (sample_conn ''acme'' ''eva'' ''3.1'') \<lparr>UserID = ''eva'', Info = []\<rparr> room"
  "may_seat sample_hesape (join_grant ''acme'' ''eva'') (sample_conn ''acme'' ''eva'' ''3.1'') \<lparr>UserID = ''eva'', Info = []\<rparr> board"
  by (simp_all add: may_seat_def sample_defs)

definition update_event :: Event where
  "update_event = \<lparr>ev_Name = ''updated'', ev_Channel = \<lparr>tenant = ''acme'', requested = ''cache-board''\<rparr>, ev_Data = ''{}'',
    ev_Socket = [], ev_UserID = []\<rparr>"

definition typing_event :: Event where
  "typing_event = update_event\<lparr>ev_Name := ''client-typing''\<rparr>"

theorem seating_is_authorized_witness:
  "\<exists>e c' w'. Subscribe sample_hesape all_writes_work (join_grant ''acme'' ''eva'') (sample_conn ''acme'' ''eva'' ''3.1'')
      \<lparr>UserID = ''eva'', Info = []\<rparr> (board, []) = (e, c', w') \<and> c' \<noteq> board \<and>
    Check sample_hesape (join_grant ''acme'' ''eva'') (ChannelJoin sample_hesape) = None"
proof -
  obtain e c' w' where run: "Subscribe sample_hesape all_writes_work (join_grant ''acme'' ''eva'') (sample_conn ''acme'' ''eva'' ''3.1'')
      \<lparr>UserID = ''eva'', Info = []\<rparr> (board, []) = (e, c', w')" by (metis prod_cases3)
  have "c' = seated sample_hesape (sample_conn ''acme'' ''eva'' ''3.1'') \<lparr>UserID = ''eva'', Info = []\<rparr> board"
    using Subscribe_new [OF sample_may_seat(2), of all_writes_work "[]"] run by (simp add: channel_Find_def board_def)
  then have ne: "c' \<noteq> board" by (simp add: seated_def board_def)
  then show ?thesis using run seating_is_authorized [OF run] by blast
qed

theorem broadcast_reaches_everyone_once_witness:
  "\<exists>new. snd (snd (Broadcast sample_hesape all_writes_work
      \<lparr>ev_Name = ''client-typing'', ev_Channel = ch_name room, ev_Data = ''{}'', ev_Socket = ''1.1'', ev_UserID = ''ana''\<rparr> (room, []))) = new \<and>
    one_each new {''1.2'', ''2.1''} (the_frame
      \<lparr>ev_Name = ''client-typing'', ev_Channel = ch_name room, ev_Data = ''{}'', ev_Socket = ''1.1'', ev_UserID = ''ana''\<rparr>)"
proof -
  let ?e = "\<lparr>ev_Name = ''client-typing'', ev_Channel = ch_name room, ev_Data = ''{}'', ev_Socket = ''1.1'', ev_UserID = ''ana''\<rparr>"
  have "channel_accepts room ?e = None" by (simp add: channel_accepts_def)
  moreover have "ids room - {''1.1''} = {''1.2'', ''2.1''}" by (auto simp: ids_def room_def seat_of_def)
  ultimately show ?thesis
    using broadcast_reaches_everyone_once [OF sample_channels_ok(1), of ?e all_writes_work "[]"] by simp
qed

theorem presence_arrival_is_announced_witness:
  "\<exists>new f. snd (snd (Subscribe sample_hesape all_writes_work (join_grant ''acme'' ''eva'') (sample_conn ''acme'' ''eva'' ''3.1'')
      \<lparr>UserID = ''eva'', Info = []\<rparr> (room, []))) = new \<and> one_each new {''1.1'', ''1.2'', ''2.1''} f"
proof -
  let ?c = "sample_conn ''acme'' ''eva'' ''3.1''" and ?m = "\<lparr>UserID = ''eva'', Info = []\<rparr>"
  obtain f where f: "MemberAdded (ch_name room) ?m = Inr f" by (simp add: MemberAdded_def room_def IsZero_def)
  have find: "channel_Find room (conn_id ?c) = None" by (simp add: channel_Find_def sample_defs)
  have "UserID ?m \<notin> people room" by (simp add: people_def sample_defs)
  moreover have "ids (seated sample_hesape ?c ?m room) - {conn_id ?c} = {''1.1'', ''1.2'', ''2.1''}"
    by (simp add: seated_def ids_def sample_defs insert_Diff_if)
  moreover have "conn_id ?c \<noteq> []" by (simp add: sample_conn_def)
  note presence_arrival_is_announced [OF sample_channels_ok(1) sample_kinds(1,2) sample_may_seat(1) this find f, of all_writes_work "[]"]
  ultimately show ?thesis by (metis append_Nil snd_conv)
qed

theorem presence_departure_is_announced_witness:
  "snd (snd (Unsubscribe sample_hesape all_writes_work (sample_conn ''acme'' ''ana'' ''1.1'') (room, []))) = [] \<and>
   (\<exists>new f. snd (snd (Unsubscribe sample_hesape all_writes_work (sample_conn ''acme'' ''bob'' ''2.1'') (room, []))) = new \<and>
     one_each new {''1.1'', ''1.2''} f)"
proof -
  have find: "channel_Find room ''1.1'' = Some (snd (seat_of ''ana'' ''1.1''))" "channel_Find room ''2.1'' = Some (snd (seat_of ''bob'' ''2.1''))"
    by (simp_all add: channel_Find_def room_def seat_of_def)
  obtain f g where fr: "MemberRemoved (ch_name room) \<lparr>UserID = ''ana'', Info = []\<rparr> = Inr f"
      "MemberRemoved (ch_name room) \<lparr>UserID = ''bob'', Info = []\<rparr> = Inr g"
    by (simp add: MemberRemoved_def room_def IsZero_def)
  have p: "people (unseated (sample_conn ''acme'' ''ana'' ''1.1'') room) = people room"
      "people (unseated (sample_conn ''acme'' ''bob'' ''2.1'') room) \<noteq> people room"
      "ids (unseated (sample_conn ''acme'' ''bob'' ''2.1'') room) = {''1.1'', ''1.2''}"
    by (simp_all add: people_def unseated_def ids_def sample_defs)
  note dep = presence_departure_is_announced [OF sample_channels_ok(1) sample_kinds(1), of _ _ _ all_writes_work "[]"]
  have a: "channel_Find room (conn_id (sample_conn ''acme'' ''ana'' ''1.1'')) = Some (snd (seat_of ''ana'' ''1.1''))"
    "MemberRemoved (ch_name room) (sub_Member (snd (seat_of ''ana'' ''1.1''))) = Inr f"
    using find(1) fr(1) by (simp_all add: sample_conn_def seat_of_def)
  have b: "channel_Find room (conn_id (sample_conn ''acme'' ''bob'' ''2.1'')) = Some (snd (seat_of ''bob'' ''2.1''))"
    "MemberRemoved (ch_name room) (sub_Member (snd (seat_of ''bob'' ''2.1''))) = Inr g"
    using find(2) fr(2) by (simp_all add: sample_conn_def seat_of_def)
  show ?thesis using dep [OF a] dep [OF b] p by (metis append_Nil snd_conv)
qed

theorem presence_block_lists_people_witness:
  "\<exists>d. channel_Data sample_hesape room = Some d \<and> set (pr_ids d) = {''ana'', ''bob''}"
proof -
  obtain d where d: "channel_Data sample_hesape room = Some d"
    using sample_kinds(1) by (simp add: channel_Data_def Let_def)
  moreover have "people room = {''ana'', ''bob''}" by (auto simp: people_def room_def seat_of_def)
  ultimately show ?thesis using presence_block_lists_people [OF d] by auto
qed

lemma Broadcast_subscribers: "subscribers (fst (snd (Broadcast H snk e (c, w)))) = subscribers c"
  by (auto simp: Broadcast_def channel_send_def Let_def split_def split: option.splits sum.splits)

theorem channel_serves_one_tenant_witness:
  "\<exists>c' w'. foldl (ch_step sample_hesape all_writes_work) (board, [])
      [Op_Subscribe (join_grant ''acme'' ''eva'') (sample_conn ''acme'' ''eva'' ''3.1'') \<lparr>UserID = ''eva'', Info = []\<rparr>,
       Op_Subscribe (join_grant ''globex'' ''eve'') (sample_conn ''globex'' ''eve'' ''4.1'') no_member, Op_Broadcast update_event] = (c', w') \<and>
    map fst (subscribers c') = [''3.1''] \<and> ''4.1'' \<notin> fst ` set w'"
proof -
  let ?eva = "sample_conn ''acme'' ''eva'' ''3.1''" and ?eve = "sample_conn ''globex'' ''eve'' ''4.1''"
  let ?ops = "[Op_Subscribe (join_grant ''acme'' ''eva'') ?eva \<lparr>UserID = ''eva'', Info = []\<rparr>, Op_Subscribe (join_grant ''globex'' ''eve'') ?eve no_member, Op_Broadcast update_event]"
  let ?owner = "\<lambda>sid. if sid = ''4.1'' then ''globex'' else ''acme''"
  obtain c' w' where run: "foldl (ch_step sample_hesape all_writes_work) (board, []) ?ops = (c', w')" by force
  have "NewChannel (ch_name board) = Inr board" by (simp add: NewChannel_def board_def IsZero_def)
  moreover have "permitted (ch_step sample_hesape all_writes_work) (ch_may sample_hesape ?owner) (board, []) ?ops"
    by (simp add: sample_defs)
  ultimately have "\<forall>(sid, message) \<in> set w'. ?owner sid = ''acme''"
    using channel_serves_one_tenant [OF _ _ run, of "ch_name board" ?owner] by (auto simp: board_def)
  then have out: "''4.1'' \<notin> fst ` set w'" by fastforce
  let ?c = "seated sample_hesape ?eva \<lparr>UserID = ''eva'', Info = []\<rparr> board"
  have "channel_Find board (conn_id ?eva) = None" by (simp add: channel_Find_def sample_defs)
  from Subscribe_new [OF sample_may_seat(2) this] obtain w1 where s1: "snd (Subscribe sample_hesape all_writes_work (join_grant ''acme'' ''eva'') ?eva \<lparr>UserID = ''eva'', Info = []\<rparr> (board, [])) = (?c, w1)" by blast
  have "\<not> may_seat sample_hesape (join_grant ''globex'' ''eve'') ?eve no_member ?c" by (simp add: may_seat_def seated_def sample_defs)
  from Subscribe_refused [OF this] have s2: "snd (Subscribe sample_hesape all_writes_work (join_grant ''globex'' ''eve'') ?eve no_member (?c, w1)) = (?c, w1)"
    by (metis snd_conv)
  have "c' = fst (snd (Broadcast sample_hesape all_writes_work update_event (?c, w1)))" using run s1 s2 by simp
  then have one: "map fst (subscribers c') = [''3.1'']" by (simp add: Broadcast_subscribers seated_def board_def sample_conn_def)
  show ?thesis by (intro exI conjI, rule run, rule one, rule out)
qed

theorem cache_replays_last_event_witness:
  "\<exists>c1 w1 c2 w2. snd (Broadcast sample_hesape all_writes_work update_event (board, [])) = (c1, w1) \<and>
    snd (Broadcast sample_hesape all_writes_work typing_event (c1, w1)) = (c2, w2) \<and>
    snd (snd (Subscribe sample_hesape all_writes_work (join_grant ''acme'' ''eva'') (sample_conn ''acme'' ''eva'' ''3.1'')
      \<lparr>UserID = ''eva'', Info = []\<rparr> (c2, w2))) =
      w2 @ copies [\<lparr>sub_Conn = sample_conn ''acme'' ''eva'' ''3.1'', sub_Member = no_member\<rparr>] (the_frame update_event)"
proof -
  obtain c1 w1 where b1: "snd (Broadcast sample_hesape all_writes_work update_event (board, [])) = (c1, w1)" by force
  obtain c2 w2 where b2: "snd (Broadcast sample_hesape all_writes_work typing_event (c1, w1)) = (c2, w2)" by force
  have acc: "channel_accepts board update_event = None" "channel_accepts board typing_event = None"
    by (simp_all add: channel_accepts_def update_event_def typing_event_def board_def)
  have names: "\<not> prefix ProtocolPrefix (ev_Name update_event)" "\<not> prefix InternalPrefix (ev_Name update_event)"
    "\<not> prefix ClientEventPrefix (ev_Name update_event)" "prefix ClientEventPrefix (ev_Name typing_event)"
    by (simp_all add: update_event_def typing_event_def event_defs)
  have find: "channel_Find board (conn_id (sample_conn ''acme'' ''eva'' ''3.1'')) = None"
    by (simp add: channel_Find_def board_def)
  show ?thesis
    using cache_replays_last_event [OF sample_channels_ok(2) sample_kinds(3,4) acc(1) names(1-3) acc(2) _ sample_may_seat(2) find b1 b2]
      names(4) b1 b2 by blast
qed

end
