(* ===== verification/Pusher_Broker.thy ===== *)
theory Pusher_Broker
  imports Pusher_Channel
begin

text \<open>
  \<^verbatim>\<open>protocols/pusher/broker.go\<close>: the registry of the channels one process holds. A channel
  is an object that several parts of the program refer to, so the model keeps the channels in
  a heap, a list indexed by reference that only grows, and the registry maps keys to
  references: that is what lets one say that a name means one channel. The contract the
  protocol relies on is the locale \<open>channel_registry\<close>, interpreted on these operations.
\<close>

section \<open>The registry\<close>

record 'g broker =
  heap :: "'g channel list"
  held :: "(string \<times> nat) list"

definition NewMemoryBroker :: "'g broker" where
  "NewMemoryBroker = \<lparr>heap = [], held = []\<rparr>"

definition tenantOf :: "('g, 's) hesape \<Rightarrow> 'g \<Rightarrow> jerr + string" where
  "tenantOf H g =
    (case Check H g (ChannelJoin H) of
       Some err \<Rightarrow> Inl err
     | None \<Rightarrow> if auth_Tenant H g = [] then Inl ErrNoGrant else Inr (auth_Tenant H g))"

definition broker_accepts :: "('g, 's) hesape \<Rightarrow> 'g \<Rightarrow> ChannelName \<Rightarrow> jerr option" where
  "broker_accepts H g name =
    (case tenantOf H g of
       Inl err \<Rightarrow> Some err
     | Inr t \<Rightarrow>
         if IsZero name then Some (ErrOther ''the zero channel name is not a channel'')
         else if t \<noteq> tenant name then Some ErrWrongTenant
         else None)"

definition Find :: "('g, 's) hesape \<Rightarrow> 'g \<Rightarrow> ChannelName \<Rightarrow> 'g broker \<Rightarrow> jerr + nat" where
  "Find H g name b =
    (case broker_accepts H g name of
       Some err \<Rightarrow> Inl err
     | None \<Rightarrow> (case map_of (held b) (name_String H name) of None \<Rightarrow> Inl ErrNoChannel | Some r \<Rightarrow> Inr r))"

definition FindOrCreate :: "('g, 's) hesape \<Rightarrow> 'g \<Rightarrow> ChannelName \<Rightarrow> 'g broker \<Rightarrow> (jerr + nat) \<times> 'g broker" where
  "FindOrCreate H g name b =
    (case broker_accepts H g name of
       Some err \<Rightarrow> (Inl err, b)
     | None \<Rightarrow>
         let key = name_String H name in
         (case map_of (held b) key of
            Some r \<Rightarrow> (Inr r, b)
          | None \<Rightarrow>
              (case NewChannel name of
                 Inl err \<Rightarrow> (Inl err, b)
               | Inr made \<Rightarrow>
                   (Inr (length (heap b)),
                    b\<lparr>heap := heap b @ [made], held := AList.update key (length (heap b)) (held b)\<rparr>))))"

definition Remove :: "('g, 's) hesape \<Rightarrow> 'g \<Rightarrow> ChannelName \<Rightarrow> 'g broker \<Rightarrow> jerr option \<times> 'g broker" where
  "Remove H g name b =
    (case broker_accepts H g name of
       Some err \<Rightarrow> (Some err, b)
     | None \<Rightarrow>
         let key = name_String H name in
         (case map_of (held b) key of
            None \<Rightarrow> (None, b)
          | Some r \<Rightarrow>
              if length (Connections (heap b ! r)) > 0 then (None, b)
              else (None, b\<lparr>held := AList.delete key (held b)\<rparr>)))"

definition All :: "('g, 's) hesape \<Rightarrow> 'g \<Rightarrow> 'g broker \<Rightarrow> jerr + nat list" where
  "All H g b =
    (case tenantOf H g of
       Inl err \<Rightarrow> Inl err
     | Inr t \<Rightarrow>
         let mine = filter (\<lambda>r. tenant (ch_name (heap b ! r)) = t) (map snd (held b)) in
         Inr (sort_key (\<lambda>r. name_String H (ch_name (heap b ! r))) mine))"

section \<open>The invariant\<close>

text \<open>
  Every key refers to a channel in the heap whose own name has that key, and every channel in
  the heap is in order. The names have no separator in the tenant, which is what makes a key
  one name's.
\<close>

definition plain_name :: "ChannelName \<Rightarrow> bool" where
  "plain_name n \<longleftrightarrow> \<not> IsZero n \<and> CHR '':'' \<notin> set (tenant n)"

definition broker_ok :: "('g, 's) hesape \<Rightarrow> 'g broker \<Rightarrow> bool" where
  "broker_ok H b \<longleftrightarrow> distinct (map fst (held b)) \<and>
    (\<forall>(k, r) \<in> set (held b). r < length (heap b) \<and> k = name_String H (ch_name (heap b ! r))) \<and>
    (\<forall>c \<in> set (heap b). channel_ok H c \<and> plain_name (ch_name c))"

lemma broker_ok_held:
  assumes "broker_ok H b" "map_of (held b) k = Some r"
  shows "r < length (heap b)" "k = name_String H (ch_name (heap b ! r))" "channel_ok H (heap b ! r)"
    "plain_name (ch_name (heap b ! r))"
  using assms by (auto simp: broker_ok_def dest!: map_of_SomeD)

lemma map_of_held: "broker_ok H b \<Longrightarrow> (k, r) \<in> set (held b) \<longleftrightarrow> map_of (held b) k = Some r"
  by (simp add: broker_ok_def)

lemma key_plain:
  "hesape_documented H \<Longrightarrow> plain_name m \<Longrightarrow> plain_name n \<Longrightarrow> name_String H m = name_String H n \<longleftrightarrow> m = n"
  using name_String_inj [of H m n] by (auto simp: plain_name_def)

lemma NewChannel_plain: "plain_name n \<Longrightarrow> NewChannel n = Inr \<lparr>ch_name = n, subscribers = [], cached = None\<rparr>"
  by (simp add: NewChannel_def plain_name_def)

lemma NewMemoryBroker_ok: "broker_ok H NewMemoryBroker"
  by (simp add: broker_ok_def NewMemoryBroker_def)

lemma heap_channel_ok: "broker_ok H b \<Longrightarrow> r < length (heap b) \<Longrightarrow> channel_ok H (heap b ! r) \<and> plain_name (ch_name (heap b ! r))"
  by (simp add: broker_ok_def)

lemma put_broker_ok:
  assumes "broker_ok H b" "r < length (heap b)" "channel_ok H c" "ch_name c = ch_name (heap b ! r)"
  shows "broker_ok H (b\<lparr>heap := (heap b)[r := c]\<rparr>)"
proof -
  have "ch_name ((heap b)[r := c] ! i) = ch_name (heap b ! i)" for i
    using assms(2,4) by (cases "i = r") simp_all
  moreover have "\<forall>x \<in> set ((heap b)[r := c]). channel_ok H x \<and> plain_name (ch_name x)"
    using assms heap_channel_ok [OF assms(1,2)] set_update_subset_insert [of "heap b" r c]
    unfolding broker_ok_def by (metis insertE subsetD)
  ultimately show ?thesis using assms(1) unfolding broker_ok_def by simp
qed

text \<open>What creating does: nothing when the key is held, one new empty channel otherwise.\<close>

definition created :: "('g, 's) hesape \<Rightarrow> ChannelName \<Rightarrow> 'g broker \<Rightarrow> 'g broker" where
  "created H n b = (if map_of (held b) (name_String H n) \<noteq> None then b
    else b\<lparr>heap := heap b @ [\<lparr>ch_name = n, subscribers = [], cached = None\<rparr>],
           held := AList.update (name_String H n) (length (heap b)) (held b)\<rparr>)"

definition ref_of :: "('g, 's) hesape \<Rightarrow> ChannelName \<Rightarrow> 'g broker \<Rightarrow> nat" where
  "ref_of H n b = (case map_of (held b) (name_String H n) of Some r \<Rightarrow> r | None \<Rightarrow> length (heap b))"

lemma FindOrCreate_eq:
  "plain_name n \<Longrightarrow> broker_accepts H g n = None \<Longrightarrow> FindOrCreate H g n b = (Inr (ref_of H n b), created H n b)"
  by (auto simp: FindOrCreate_def created_def ref_of_def NewChannel_plain Let_def split: option.splits)

lemma created_ok:
  assumes "broker_ok H b" "plain_name n"
  shows "broker_ok H (created H n b)"
proof (cases "map_of (held b) (name_String H n)")
  case None
  have c: "channel_ok H \<lparr>ch_name = n, subscribers = [], cached = None\<rparr>"
    using assms(2) by (simp add: channel_ok_def plain_name_def)
  have d: "distinct (map fst (held b))" using assms(1) by (simp add: broker_ok_def)
  have "\<forall>(k, r) \<in> set (held b). r < length (heap b) \<and> k = name_String H (ch_name (heap b ! r))"
    using assms(1) by (simp add: broker_ok_def)
  then have "\<forall>(k, r) \<in> set (AList.update (name_String H n) (length (heap b)) (held b)).
      r < Suc (length (heap b)) \<and>
      k = name_String H (ch_name ((heap b @ [\<lparr>ch_name = n, subscribers = [], cached = None\<rparr>]) ! r))"
    unfolding set_update_new [OF d] by (auto simp: nth_append)
  then show ?thesis using None assms c d by (auto simp: broker_ok_def created_def distinct_update)
next
  case (Some r)
  then show ?thesis using assms by (simp add: created_def)
qed

lemma created_held:
  "map_of (held (created H n b)) (name_String H n) = Some (ref_of H n b)"
  "k \<noteq> name_String H n \<Longrightarrow> map_of (held (created H n b)) k = map_of (held b) k"
  "map_of (held b) k = Some r \<Longrightarrow> map_of (held (created H n b)) k = Some r"
  by (auto simp: created_def ref_of_def update_conv' split: option.splits)

lemma created_heap: "r < length (heap b) \<Longrightarrow> heap (created H n b) ! r = heap b ! r"
  "length (heap b) \<le> length (heap (created H n b))"
  by (auto simp: created_def nth_append)

lemma ref_of_created:
  assumes "broker_ok H b"
  shows "ref_of H n b < length (heap (created H n b))"
proof (cases "map_of (held b) (name_String H n)")
  case None
  then show ?thesis by (simp add: ref_of_def created_def)
next
  case (Some r)
  then show ?thesis using broker_ok_held(1) [OF assms Some] by (simp add: ref_of_def created_def)
qed

lemma created_name:
  assumes "broker_ok H b" "plain_name n" "hesape_documented H"
  shows "ch_name (heap (created H n b) ! ref_of H n b) = n"
proof -
  note ok = created_ok [OF assms(1,2)] and h = broker_ok_held [OF created_ok [OF assms(1,2)] created_held(1)]
  show ?thesis using h(2,4) key_plain [OF assms(3) h(4) assms(2)] by simp
qed

definition dropped :: "('g, 's) hesape \<Rightarrow> ChannelName \<Rightarrow> 'g broker \<Rightarrow> 'g broker" where
  "dropped H n b = (case map_of (held b) (name_String H n) of None \<Rightarrow> b
    | Some r \<Rightarrow> if subscribers (heap b ! r) \<noteq> [] then b else b\<lparr>held := AList.delete (name_String H n) (held b)\<rparr>)"

lemma Connections_empty: "Connections c = [] \<longleftrightarrow> subscribers c = []"
  by (metis Connections_def Nil_is_map_conv length_0_conv length_sort)

lemma Remove_eq: "broker_accepts H g n = None \<Longrightarrow> Remove H g n b = (None, dropped H n b)"
  by (auto simp: Remove_def dropped_def Connections_empty Let_def split: option.splits)

lemma dropped_ok: "broker_ok H b \<Longrightarrow> broker_ok H (dropped H n b)"
  by (auto simp: broker_ok_def dropped_def set_delete distinct_delete split: option.splits)

lemma dropped_heap [simp]: "heap (dropped H n b) = heap b"
  by (auto simp: dropped_def split: option.splits)

lemma dropped_held:
  "map_of (held (dropped H n b)) k = (if k = name_String H n \<and>
     (\<exists>r. map_of (held b) k = Some r \<and> subscribers (heap b ! r) = []) then None else map_of (held b) k)"
  by (auto simp: dropped_def delete_conv' split: option.splits)

section \<open>The contract of a registry\<close>

text \<open>
  What a subscription relies on: a channel that was reached is the one that is found; reaching
  a name twice reaches the same channel; reaching or removing one name leaves the others
  alone; and a channel somebody is on is not removed.
\<close>

datatype 'g registry_op = Reach 'g ChannelName | Drop 'g ChannelName

definition registry_step :: "('g \<Rightarrow> ChannelName \<Rightarrow> 'b \<Rightarrow> (jerr + nat) \<times> 'b) \<Rightarrow> ('g \<Rightarrow> ChannelName \<Rightarrow> 'b \<Rightarrow> jerr option \<times> 'b) \<Rightarrow>
    'b \<Rightarrow> 'g registry_op \<Rightarrow> 'b" where
  "registry_step reach remove b op = (case op of Reach g n \<Rightarrow> snd (reach g n b) | Drop g n \<Rightarrow> snd (remove g n b))"

definition op_name :: "'g registry_op \<Rightarrow> ChannelName" where
  "op_name op = (case op of Reach g n \<Rightarrow> n | Drop g n \<Rightarrow> n)"

locale channel_registry =
  fixes find :: "'g \<Rightarrow> ChannelName \<Rightarrow> 'b \<Rightarrow> jerr + nat"
    and find_or_create :: "'g \<Rightarrow> ChannelName \<Rightarrow> 'b \<Rightarrow> (jerr + nat) \<times> 'b"
    and remove :: "'g \<Rightarrow> ChannelName \<Rightarrow> 'b \<Rightarrow> jerr option \<times> 'b"
    and occupied :: "'b \<Rightarrow> nat \<Rightarrow> bool"
    and ok :: "'b \<Rightarrow> bool"
    and named :: "ChannelName \<Rightarrow> bool"
  assumes reach_finds: "ok b \<Longrightarrow> named n \<Longrightarrow> find_or_create g n b = (Inr r, b') \<Longrightarrow> find g n b' = Inr r"
    and reach_ok: "ok b \<Longrightarrow> named n \<Longrightarrow> ok (snd (find_or_create g n b))"
    and reach_keeps: "ok b \<Longrightarrow> named n \<Longrightarrow> find h m b = Inr r \<Longrightarrow> find h m (snd (find_or_create g n b)) = Inr r"
    and reach_occupied: "ok b \<Longrightarrow> named n \<Longrightarrow> find h m b = Inr r \<Longrightarrow>
      occupied (snd (find_or_create g n b)) r = occupied b r"
    and reach_again: "ok b \<Longrightarrow> named n \<Longrightarrow> find g n b = Inr r \<Longrightarrow> find_or_create g n b = (Inr r, b)"
    and remove_ok: "ok b \<Longrightarrow> ok (snd (remove g n b))"
    and remove_keeps: "ok b \<Longrightarrow> named n \<Longrightarrow> find h m b = Inr r \<Longrightarrow> occupied b r \<Longrightarrow> find h m (snd (remove g n b)) = Inr r"
    and remove_occupied: "occupied (snd (remove g n b)) r = occupied b r"
begin

lemma step_keeps:
  assumes "ok b" "named (op_name op)"
  shows "ok (registry_step find_or_create remove b op)"
    "find h m b = Inr r \<Longrightarrow> occupied b r \<Longrightarrow> find h m (registry_step find_or_create remove b op) = Inr r \<and>
       occupied (registry_step find_or_create remove b op) r"
  using assms
  by (auto simp: registry_step_def op_name_def reach_ok remove_ok reach_keeps remove_keeps reach_occupied remove_occupied
      split: registry_op.splits)

lemma occupied_stays:
  assumes "ok b" "find h m b = Inr r" "occupied b r" "list_all (\<lambda>op. named (op_name op)) ops"
  shows "ok (foldl (registry_step find_or_create remove) b ops) \<and>
    find h m (foldl (registry_step find_or_create remove) b ops) = Inr r \<and>
    occupied (foldl (registry_step find_or_create remove) b ops) r"
  using assms
proof (induction ops arbitrary: b)
  case (Cons op ops)
  then have n: "named (op_name op)" "list_all (\<lambda>op. named (op_name op)) ops" by simp_all
  note s = step_keeps [OF Cons.prems(1) n(1)]
  from s(2) [OF Cons.prems(2,3)] Cons.IH [OF s(1) _ _ n(2)] show ?case by simp
qed simp

lemma run_keeps:
  assumes "ok b" "list_all (\<lambda>op. named (op_name op)) ops"
  shows "ok (foldl (registry_step find_or_create remove) b ops)"
  using assms by (induction ops arbitrary: b) (simp_all add: step_keeps(1))

lemma one_channel_per_name:
  assumes "ok b" "named n" "find_or_create g n b = (Inr r, b1)" "occupied b1 r"
    "list_all (\<lambda>op. named (op_name op)) ops" "b2 = foldl (registry_step find_or_create remove) b1 ops"
  shows "find g n b2 = Inr r \<and> find_or_create g n b2 = (Inr r, b2)"
proof -
  have f: "find g n b1 = Inr r" using reach_finds [OF assms(1-3)] .
  have ok1: "ok b1" using reach_ok [OF assms(1,2), of g] assms(3) by simp
  show ?thesis using occupied_stays [OF ok1 f assms(4,5)] reach_again [OF _ assms(2)] assms(6) by simp
qed

end

lemma Find_eq: "Find H g n b = Inr r \<longleftrightarrow> broker_accepts H g n = None \<and> map_of (held b) (name_String H n) = Some r"
  by (auto simp: Find_def split: option.splits)

lemma FindOrCreate_cases:
  assumes "plain_name n"
  obtains "broker_accepts H g n = None" "FindOrCreate H g n b = (Inr (ref_of H n b), created H n b)"
  | e where "broker_accepts H g n = Some e" "FindOrCreate H g n b = (Inl e, b)"
  using FindOrCreate_eq [OF assms, of H g b]
  by (cases "broker_accepts H g n") (auto simp: FindOrCreate_def)

lemma Remove_cases:
  obtains "broker_accepts H g n = None" "Remove H g n b = (None, dropped H n b)"
  | e where "broker_accepts H g n = Some e" "Remove H g n b = (Some e, b)"
  using Remove_eq [of H g n b] by (cases "broker_accepts H g n") (auto simp: Remove_def)

definition occupied :: "'g broker \<Rightarrow> nat \<Rightarrow> bool" where
  "occupied b r \<longleftrightarrow> subscribers (heap b ! r) \<noteq> []"

interpretation memory: channel_registry "Find H" "FindOrCreate H" "Remove H" occupied "broker_ok H" plain_name
  for H :: "('g, 's) hesape"
proof unfold_locales
  fix b b' :: "'g broker" and n m :: ChannelName and g h :: 'g and r :: nat
  show "Find H g n b' = Inr r" if "plain_name n" "FindOrCreate H g n b = (Inr r, b')"
    using that by (cases rule: FindOrCreate_cases [OF that(1), of H g b]) (auto simp: Find_eq created_held)
  show "broker_ok H (snd (FindOrCreate H g n b))" if "broker_ok H b" "plain_name n"
    using that by (cases rule: FindOrCreate_cases [OF that(2), of H g b]) (auto simp: created_ok)
  show "Find H h m (snd (FindOrCreate H g n b)) = Inr r" if "plain_name n" "Find H h m b = Inr r"
    using that by (cases rule: FindOrCreate_cases [OF that(1), of H g b]) (auto simp: Find_eq created_held)
  show "occupied (snd (FindOrCreate H g n b)) r = occupied b r" if "broker_ok H b" "plain_name n" "Find H h m b = Inr r"
    using that broker_ok_held(1) [OF that(1)]
    by (cases rule: FindOrCreate_cases [OF that(2), of H g b]) (auto simp: Find_eq occupied_def created_heap)
  show "FindOrCreate H g n b = (Inr r, b)" if "Find H g n b = Inr r"
    using that by (auto simp: Find_eq FindOrCreate_def Let_def)
  show "broker_ok H (snd (Remove H g n b))" if "broker_ok H b"
    using that by (cases rule: Remove_cases [of H g n b]) (auto simp: dropped_ok)
  show "Find H h m (snd (Remove H g n b)) = Inr r" if "Find H h m b = Inr r" "occupied b r"
    using that by (cases rule: Remove_cases [of H g n b]) (auto simp: Find_eq dropped_held occupied_def)
  show "occupied (snd (Remove H g n b)) r = occupied b r"
    by (cases rule: Remove_cases [of H g n b]) (auto simp: occupied_def)
qed

section \<open>Properties\<close>

text \<open>A name means one channel. From the moment a channel was reached and somebody is on it,
  reaching the same name again hands out that very channel, whatever names are reached and
  whatever channels are asked to be removed in between, its own included.\<close>

theorem a_name_means_one_channel:
  assumes "broker_ok H b" "plain_name n" "FindOrCreate H g n b = (Inr r, b1)" "occupied b1 r"
    and "list_all (\<lambda>op. plain_name (op_name op)) ops"
    and "b2 = foldl (registry_step (FindOrCreate H) (Remove H)) b1 ops"
  shows "Find H g n b2 = Inr r \<and> FindOrCreate H g n b2 = (Inr r, b2)"
  using assms by (rule memory.one_channel_per_name)

text \<open>A tenant sees its own channels. Listing answers, in the order of their keys, exactly
  the channels held for the tenant of the grant, and finding a name answers the channel of
  that very name, which is the grant's tenant's; a grant not issued for joining, or carrying
  no tenant, sees nothing at all.\<close>

theorem listing_is_one_tenants:
  assumes "broker_ok H b" "hesape_documented H" "plain_name n"
  shows "(case All H g b of
      Inr rs \<Rightarrow> Check H g (ChannelJoin H) = None \<and> auth_Tenant H g \<noteq> [] \<and>
        set rs = {r \<in> snd ` set (held b). tenant (ch_name (heap b ! r)) = auth_Tenant H g} \<and>
        sorted (map (\<lambda>r. name_String H (ch_name (heap b ! r))) rs)
    | Inl _ \<Rightarrow> Check H g (ChannelJoin H) \<noteq> None \<or> auth_Tenant H g = []) \<and>
    (\<forall>r. Find H g n b = Inr r \<longrightarrow> ch_name (heap b ! r) = n \<and> tenant n = auth_Tenant H g)"
proof -
  have "ch_name (heap b ! r) = n \<and> tenant n = auth_Tenant H g" if "Find H g n b = Inr r" for r
  proof -
    have f: "broker_accepts H g n = None" "map_of (held b) (name_String H n) = Some r" using that by (simp_all add: Find_eq)
    then have "tenant n = auth_Tenant H g" by (auto simp: broker_accepts_def tenantOf_def split: option.splits if_splits)
    then show ?thesis
      using broker_ok_held(2,4) [OF assms(1) f(2)] key_plain [OF assms(2) assms(3)] by metis
  qed
  then show ?thesis
    by (auto simp: All_def tenantOf_def Let_def sorted_sort_key split: option.splits if_splits)
qed

section \<open>Witnesses\<close>

definition one_room :: "sample_grant broker" where
  "one_room = \<lparr>heap = [room], held = [(''acme:presence-room'', 0)]\<rparr>"

lemma one_room_facts:
  "broker_ok sample_hesape one_room" "plain_name (ch_name room)" "occupied one_room 0"
  "FindOrCreate sample_hesape (join_grant ''acme'' ''eva'') (ch_name room) one_room = (Inr 0, one_room)"
  using sample_channels_ok(1)
  by (simp_all add: broker_ok_def one_room_def occupied_def plain_name_def IsZero_def name_String_def sample_defs
      FindOrCreate_def broker_accepts_def tenantOf_def)

theorem a_name_means_one_channel_witness:
  "Find sample_hesape (join_grant ''acme'' ''eva'') (ch_name room)
     (snd (Remove sample_hesape (join_grant ''acme'' ''bob'') (ch_name room) one_room)) = Inr 0"
  using a_name_means_one_channel [OF one_room_facts(1,2,4,3), of "[Drop (join_grant ''acme'' ''bob'') (ch_name room)]"]
    one_room_facts(2) by (simp add: op_name_def registry_step_def)

theorem listing_is_one_tenants_witness:
  "\<exists>rs. All sample_hesape (join_grant ''globex'' ''gil'') one_room = Inr rs \<and> rs = []"
proof -
  have e: "{r \<in> snd ` set (held one_room). tenant (ch_name (heap one_room ! r)) = ''globex''} = {}"
    by (auto simp: one_room_def room_def)
  note l = listing_is_one_tenants [OF one_room_facts(1) sample_documented one_room_facts(2), of "join_grant ''globex'' ''gil''",
      unfolded sample_facts e]
  show ?thesis
  proof (cases "All sample_hesape (join_grant ''globex'' ''gil'') one_room")
    case (Inr rs)
    then have "set rs = {}" using l by simp
    then show ?thesis using Inr by simp
  qed (use l in simp)
qed

end
