(* ===== verification/Json_Facts.thy ===== *)
theory Json_Facts
  imports Pusher_Frame
begin

text \<open>
  What is written is read back. A valid UTF-8 string written as JSON is one string to the
  scanner, reads back as itself, and is left alone by compacting and by HTML escaping; an
  object of such members is scanned, and its members found, whatever follows it.
\<close>

section \<open>Valid strings, rune by rune\<close>

abbreviation utf8 :: "string \<Rightarrow> bool" where
  "utf8 s \<equiv> ValidUTF8 (bytes_of_string s)"

abbreviation from_runes :: "nat list \<Rightarrow> string" where
  "from_runes ns \<equiv> concat (map encode_rune ns)"

lemma bytes_encode_rune [simp]: "bytes_of_string (encode_rune n) = utf8_encode n"
  by (simp add: encode_rune_def)

lemma string_of_bytes_concat: "string_of_bytes (concat xs) = concat (map string_of_bytes xs)"
  by (induction xs) (simp_all add: string_of_bytes_def)

lemma bytes_from_runes: "bytes_of_string (from_runes ns) = concat (map utf8_encode ns)"
  by (induction ns) simp_all

lemma utf8_runes: "utf8 s \<longleftrightarrow> (\<exists>ns. (\<forall>n \<in> set ns. scalar_value n) \<and> s = from_runes ns)"
proof -
  have "bytes_of_string s = concat (map utf8_encode ns) \<longleftrightarrow> s = from_runes ns" for ns
    by (metis bytes_from_runes bytes_of_string_inject)
  then show ?thesis by (simp add: ValidUTF8_well_formed well_formed_def)
qed

lemma code_char_of: "n < 256 \<Longrightarrow> code (char_of n) = n"
  by (simp add: code_def of_char_of)

lemma char_of_code [simp]: "char_of (code c) = c"
  by (simp add: code_def)

lemma code_eq: "code c = code d \<longleftrightarrow> c = d"
  by (metis char_of_code)

lemma encode_ascii: "n < 128 \<Longrightarrow> encode_rune n = [char_of n]"
  by (simp add: encode_rune_def string_of_bytes_def utf8_encode_digits unat_word_of_nat_byte)

lemma encode_high:
  assumes "scalar_value n" "128 \<le> n"
  obtains c d cs where "encode_rune n = c # d # cs" "\<forall>x \<in> set (c # d # cs). 128 \<le> code x"
    "\<forall>x \<in> set (d # cs). code x < 192"
proof -
  obtain b bs where s: "utf8_encode n = b # bs" "\<not> cont b" "\<forall>x \<in> set bs. cont x" "unat b < 128 \<longleftrightarrow> bs = []"
    using encode_shape [OF assms(1)] by metis
  have "bs \<noteq> []" using s(1) assms(2) by (auto simp: utf8_encode_def split: if_splits)
  then obtain e es where e: "bs = e # es" by (cases bs) auto
  have code: "code (char_of (unat x)) = unat x" for x :: byte by (rule code_char_of) simp
  have k: "encode_rune n = char_of (unat b) # char_of (unat e) # map (\<lambda>w. char_of (unat w)) es"
    by (simp add: encode_rune_def string_of_bytes_def s(1) e)
  have "\<not> unat b < 128" using s(4) \<open>bs \<noteq> []\<close> by simp
  then show ?thesis using that [OF k] s(3) e code by (auto simp: cont_def)
qed

lemma runes_from_runes: "\<forall>n \<in> set ns. scalar_value n \<Longrightarrow> runes (from_runes ns) = map (\<lambda>n. Some (encode_rune n)) ns"
proof (induction ns)
  case (Cons n ns)
  then have sv: "scalar_value n" by simp
  obtain c cs where c: "encode_rune n = c # cs"
  proof (cases "n < 128")
    case True then show ?thesis using that encode_ascii by blast
  next
    case False then show ?thesis using that encode_high [OF sv] by (metis linorder_not_less)
  qed
  have "rune_len (bytes_of_string (c # cs @ from_runes ns)) = Some (length (c # cs))"
    using rune_len_of_encode [OF sv, of "bytes_of_string (from_runes ns)"] c
    by (metis append_Cons bytes_encode_rune bytes_of_string_append length_bytes_of_string)
  then show ?case using Cons c by simp
qed simp

section \<open>One rune of a written string\<close>

lemma hex_digit_value: "k < 16 \<Longrightarrow> hex_value (hex_digit k) = Some k"
proof -
  have "\<forall>k \<in> set [0..<16]. hex_value (hex_digit k) = Some k"
    by (simp add: upt_rec hex_digit_def hex_value_def code_def of_char_def)
  then show "k < 16 \<Longrightarrow> hex_value (hex_digit k) = Some k" by simp
qed

lemma hex4_u_escape:
  assumes "n < 65536"
  shows "hex4 (hex_digit (n div 4096 mod 16)) (hex_digit (n div 256 mod 16)) (hex_digit (n div 16 mod 16)) (hex_digit (n mod 16)) = Some n"
proof -
  have "n div 4096 mod 16 * 4096 + n div 256 mod 16 * 256 + n div 16 mod 16 * 16 + n mod 16 = n"
  proof -
    obtain a x where a: "n = a * 16 + x" "x < 16" by (metis div_mult_mod_eq mod_less_divisor zero_less_numeral)
    obtain b y where b: "a = b * 16 + y" "y < 16" by (metis div_mult_mod_eq mod_less_divisor zero_less_numeral)
    obtain c z where c: "b = c * 16 + z" "z < 16" by (metis div_mult_mod_eq mod_less_divisor zero_less_numeral)
    have "c < 16" using assms a b c by linarith
    moreover have "n mod 16 = x" "n div 16 = a" using a by simp_all
    moreover have "a mod 16 = y" "n div 256 = b" using b \<open>n div 16 = a\<close> div_mult2_eq [of n 16 16] by simp_all
    moreover have "b mod 16 = z" "n div 4096 = c" using c \<open>n div 256 = b\<close> div_mult2_eq [of n 256 16] by simp_all
    ultimately show ?thesis using a b c by simp
  qed
  moreover have "hex_value (hex_digit (x mod 16)) = Some (x mod 16)" for x by (rule hex_digit_value) simp
  ultimately show ?thesis unfolding hex4_def by (simp only: prod.case option.case)
qed

text \<open>What every piece of a written string does to the readers in front of whatever follows.\<close>

definition transparent :: "string \<Rightarrow> string \<Rightarrow> bool" where
  "transparent w v \<longleftrightarrow> (\<forall>u. scan_string (w @ u) = scan_string u) \<and> (\<forall>u. unq (w @ u) = map_option ((@) v) (unq u)) \<and>
    (\<forall>u. squeeze True (w @ u) = w @ squeeze True u) \<and> (\<forall>u. escape_html (w @ u) = w @ escape_html u)"

lemma hex_digit_code: "k < 16 \<Longrightarrow> 48 \<le> code (hex_digit k) \<and> code (hex_digit k) < 103 \<and> \<not> html_unsafe (hex_digit k)"
proof -
  have "\<forall>k \<in> set [0..<16]. 48 \<le> code (hex_digit k) \<and> code (hex_digit k) < 103 \<and> \<not> html_unsafe (hex_digit k)"
    by (simp add: upt_rec hex_digit_def code_def of_char_def html_unsafe_def)
  then show "k < 16 \<Longrightarrow> 48 \<le> code (hex_digit k) \<and> code (hex_digit k) < 103 \<and> \<not> html_unsafe (hex_digit k)" by simp
qed

lemma code_chars: "code quot = 34" "code bslash = 92" "code (CHR 0xE2) = 226" "code (CHR ''<'') = 60" "code (CHR ''>'') = 62"
  "code (CHR ''&'') = 38"
  by (simp_all add: code_def of_char_def)

text \<open>A character the readers have nothing to say about.\<close>

definition quiet :: "char \<Rightarrow> bool" where
  "quiet c \<longleftrightarrow> 32 \<le> code c \<and> c \<noteq> quot \<and> c \<noteq> bslash \<and> \<not> html_unsafe c \<and> c \<noteq> CHR 0xE2"

lemma quiet_hex: "k < 16 \<Longrightarrow> quiet (hex_digit k)"
  using hex_digit_code [of k] hex_digit_value [of k] code_chars
  by (auto simp: quiet_def code_eq [symmetric] hex_value_def Let_def)

lemma quiet_cont: "128 \<le> code c \<Longrightarrow> code c < 192 \<Longrightarrow> quiet c"
  using code_chars by (auto simp: quiet_def html_unsafe_def code_eq [symmetric])

lemma quiet_unq: "list_all quiet w \<Longrightarrow> unq (w @ u) = map_option ((@) w) (unq u)"
proof (induction w)
  case Nil
  show ?case by (cases "unq u") simp_all
next
  case (Cons c w)
  then show ?case by (cases "unq u") (auto simp: quiet_def)
qed

lemma quiet_scan: "list_all quiet w \<Longrightarrow> scan_string (w @ u) = scan_string u"
  "list_all quiet w \<Longrightarrow> squeeze True (w @ u) = w @ squeeze True u"
  "list_all quiet w \<Longrightarrow> escape_html (w @ u) = w @ escape_html u"
  by (induction w) (auto simp: quiet_def)

lemma transparent_quiet: "list_all quiet w \<Longrightarrow> transparent w w"
  by (simp add: transparent_def quiet_scan quiet_unq)

lemma squeeze_bslash: "squeeze True (bslash # e # s) = bslash # e # squeeze True s"
  by simp

lemma transparent_escape4:
  assumes "list_all quiet [h1, h2, h3, h4]" "hex4 h1 h2 h3 h4 = Some n" "\<not> (0xd800 \<le> n \<and> n < 0xe000)"
  shows "transparent (bslash # CHR ''u'' # [h1, h2, h3, h4]) (encode_rune n)"
  unfolding transparent_def
proof (intro conjI allI)
  fix u
  show "scan_string ((bslash # CHR ''u'' # [h1, h2, h3, h4]) @ u) = scan_string u" using assms(2) by simp
  show "unq ((bslash # CHR ''u'' # [h1, h2, h3, h4]) @ u) = map_option ((@) (encode_rune n)) (unq u)"
    using assms(2,3) by (simp only: append_Cons unq.simps list.case option.case append_Nil if_False if_True) simp
  show "squeeze True ((bslash # CHR ''u'' # [h1, h2, h3, h4]) @ u) = (bslash # CHR ''u'' # [h1, h2, h3, h4]) @ squeeze True u"
    using quiet_scan(2) [OF assms(1), of u] by (simp only: append_Cons squeeze_bslash)
  have "list_all quiet ([CHR ''u''] @ [h1, h2, h3, h4])" using assms(1) by (simp add: quiet_def code_def of_char_def html_unsafe_def)
  from quiet_scan(3) [OF this, of u]
  show "escape_html ((bslash # CHR ''u'' # [h1, h2, h3, h4]) @ u) = (bslash # CHR ''u'' # [h1, h2, h3, h4]) @ escape_html u"
    by (simp only: append_Cons append_Nil escape_html.simps(2) [of bslash]) (simp add: html_unsafe_def)
qed

lemma transparent_u_escape:
  "n < 65536 \<Longrightarrow> \<not> (0xd800 \<le> n \<and> n < 0xe000) \<Longrightarrow> transparent (u_escape n) (encode_rune n)"
  unfolding u_escape_def by (rule transparent_escape4) (simp_all add: quiet_hex hex4_u_escape del: mod_less)

lemma map_option_append: "map_option ((@) v) (map_option ((@) v') x) = map_option ((@) (v @ v')) x"
  by (cases x) simp_all

lemma append_one: "(@) [x] = (#) x"
  by auto

lemma escape_pair: "\<not> html_unsafe e \<Longrightarrow> e \<noteq> CHR 0xE2 \<Longrightarrow> escape_html ([bslash, e] @ u) = [bslash, e] @ escape_html u"
  by (simp add: html_unsafe_def)

lemma transparent_pair:
  assumes "e \<in> set ''bfnrt/'' \<or> e = bslash \<or> e = quot" "\<And>u. unq (bslash # e # u) = map_option ((#) x) (unq u)"
  shows "transparent [bslash, e] [x]"
proof -
  have "scan_string ([bslash, e] @ u) = scan_string u" for u using assms(1) by simp
  moreover have "\<not> html_unsafe e" "e \<noteq> CHR 0xE2" using assms(1) by (auto simp: html_unsafe_def)
  ultimately show ?thesis unfolding transparent_def using assms(2) escape_pair squeeze_bslash
    by (simp only: append_one append_Cons append_Nil) simp
qed

lemma transparent_short:
  "transparent [bslash, quot] [quot]" "transparent [bslash, bslash] [bslash]" "transparent [bslash, CHR ''b''] [CHR 0x08]"
  "transparent [bslash, CHR ''f''] [CHR 0x0C]" "transparent [bslash, CHR ''n''] [CHR 0x0A]"
  "transparent [bslash, CHR ''r''] [CHR 0x0D]" "transparent [bslash, CHR ''t''] [CHR 0x09]"
  by (rule transparent_pair; simp)+

text \<open>A rune as it is written.\<close>

definition written :: "nat \<Rightarrow> string" where
  "written n = quote_rune (Some (encode_rune n))"

lemma transparent_ascii:
  assumes "n < 128"
  shows "transparent (written n) (encode_rune n)"
proof -
  define c where "c = (char_of n :: char)"
  have n: "code c = n" "encode_rune n = [c]" using assms by (simp_all add: c_def code_char_of encode_ascii)
  have w: "written n = quote_char c" by (simp add: written_def n)
  consider "c = quot \<or> c = bslash" | "c \<in> {CHR 0x08, CHR 0x0C, CHR 0x0A, CHR 0x0D, CHR 0x09}"
    | "\<not> (c = quot \<or> c = bslash)" "c \<notin> {CHR 0x08, CHR 0x0C, CHR 0x0A, CHR 0x0D, CHR 0x09}" by blast
  then show ?thesis
  proof cases
    case 1
    then show ?thesis using transparent_short(1,2) by (auto simp: w n(2) quote_char_def)
  next
    case 2
    then show ?thesis
      using transparent_short by (auto simp: w n(2) quote_char_def)
  next
    case 3
    show ?thesis
    proof (cases "code c < 32 \<or> html_unsafe c")
      case True
      then have "quote_char c = u_escape n" using 3 n(1) by (simp add: quote_char_def)
      then show ?thesis using transparent_u_escape [of n] assms w by simp
    next
      case False
      have "c \<noteq> CHR 0xE2" using n(1) assms code_chars(3) by auto
      then have "quiet c" using 3 False by (simp add: quiet_def)
      moreover have "quote_char c = [c]" using 3 False by (simp add: quote_char_def)
      ultimately show ?thesis using transparent_quiet [of "[c]"] by (simp add: w n(2))
    qed
  qed
qed

lemma encode_E2:
  assumes "scalar_value n" "encode_rune n = CHR 0xE2 # d # cs"
  shows "length cs = 1"
proof -
  have lead: "code (char_of (unat (word_of_nat k :: byte))) = k" if "k < 256" for k
    using that code_char_of [of k] by (simp add: unat_word_of_nat_byte)
  consider "n < 128" | "128 \<le> n" "n < 2048" | "2048 \<le> n" "n < 65536" | "65536 \<le> n" "n \<le> 0x10ffff"
    using assms(1) by (force simp: scalar_value_def)
  then show ?thesis
  proof cases
    case 1 then show ?thesis using assms(2) by (simp add: encode_ascii)
  next
    case 2
    then have "n div 64 < 32" by (simp add: less_mult_imp_div_less)
    then have "192 + n div 64 < 256" "192 + n div 64 \<noteq> 226" by linarith+
    moreover have "char_of (unat (word_of_nat (192 + n div 64) :: byte)) = CHR 0xE2"
      using assms(2) 2 by (simp add: encode_rune_def string_of_bytes_def utf8_encode_def)
    ultimately show ?thesis using lead [of "192 + n div 64"] code_chars(3) by simp
  next
    case 3 then show ?thesis using assms(2) by (auto simp: encode_rune_def string_of_bytes_def utf8_encode_def)
  next
    case 4
    then have "n div 262144 < 5" by (simp add: less_mult_imp_div_less)
    then have "240 + n div 262144 < 256" "240 + n div 262144 \<noteq> 226" by linarith+
    moreover have "char_of (unat (word_of_nat (240 + n div 262144) :: byte)) = CHR 0xE2"
      using assms(2) 4 by (simp add: encode_rune_def string_of_bytes_def utf8_encode_def)
    ultimately show ?thesis using lead [of "240 + n div 262144"] code_chars(3) by simp
  qed
qed

lemma encode_separators: "encode_rune 0x2028 = [CHR 0xE2, CHR 0x80, CHR 0xA8]" "encode_rune 0x2029 = [CHR 0xE2, CHR 0x80, CHR 0xA9]"
proof -
  have "char_of (226::nat) = CHR 0xE2" "char_of (128::nat) = CHR 0x80" "char_of (168::nat) = CHR 0xA8" "char_of (169::nat) = CHR 0xA9"
    using char_of_code [of "CHR 0xE2"] char_of_code [of "CHR 0x80"] char_of_code [of "CHR 0xA8"] char_of_code [of "CHR 0xA9"]
    by (simp_all add: code_def of_char_def)
  then show "encode_rune 0x2028 = [CHR 0xE2, CHR 0x80, CHR 0xA8]" "encode_rune 0x2029 = [CHR 0xE2, CHR 0x80, CHR 0xA9]"
    by (simp_all add: encode_rune_def string_of_bytes_def utf8_encode_def)
qed

lemma transparent_high:
  assumes "scalar_value n" "128 \<le> n"
  shows "transparent (written n) (encode_rune n)"
proof -
  obtain c d cs where e: "encode_rune n = c # d # cs" "\<forall>x \<in> set (c # d # cs). 128 \<le> code x" "\<forall>x \<in> set (d # cs). code x < 192"
    using encode_high [OF assms] by metis
  have tail: "list_all quiet (d # cs)" using e(2,3) by (auto simp: list_all_iff quiet_cont)
  consider "encode_rune n = encode_rune 0x2028" | "encode_rune n = encode_rune 0x2029"
    | "encode_rune n \<noteq> encode_rune 0x2028" "encode_rune n \<noteq> encode_rune 0x2029" by blast
  then show ?thesis
  proof cases
    case 1
    then show ?thesis using transparent_u_escape [of "0x2028"] by (simp add: written_def encode_separators)
  next
    case 2
    then show ?thesis using transparent_u_escape [of "0x2029"] by (simp add: written_def encode_separators)
  next
    case 3
    then have w: "written n = c # d # cs" by (auto simp: written_def encode_separators e(1))
    show ?thesis
    proof (cases "c = CHR 0xE2")
      case True
      then obtain x where cs: "cs = [x]" using encode_E2 [of n d cs] assms(1) e(1) by (auto simp: length_Suc_conv)
      have "quiet d" "quiet x" using tail cs by simp_all
      have "[d, x] \<noteq> [CHR 0x80, CHR 0xA8]" "[d, x] \<noteq> [CHR 0x80, CHR 0xA9]"
        using 3 e(1) cs True by (auto simp: encode_separators)
      then have esc: "escape_html ((c # d # cs) @ u) = c # escape_html ((d # cs) @ u)" for u
        using True cs by (auto simp: html_unsafe_def)
      have q: "scan_string ((c # d # cs) @ u) = scan_string ((d # cs) @ u)"
        "unq ((c # d # cs) @ u) = map_option ((@) [c]) (unq ((d # cs) @ u))"
        "squeeze True ((c # d # cs) @ u) = c # squeeze True ((d # cs) @ u)" for u
        using True code_chars(3) by (simp_all add: append_one)
      show ?thesis unfolding transparent_def w e(1) esc q quiet_scan [OF tail] quiet_unq [OF tail] map_option_append
        by simp
    next
      case False
      have "quiet c" using e(2) False code_chars by (auto simp: quiet_def html_unsafe_def code_eq [symmetric])
      then show ?thesis using transparent_quiet [of "c # d # cs"] tail by (simp add: w e(1))
    qed
  qed
qed

lemma transparent_written: "scalar_value n \<Longrightarrow> transparent (written n) (encode_rune n)"
  using transparent_ascii transparent_high by (cases "n < 128") auto

lemma transparent_append: "transparent w v \<Longrightarrow> transparent w' v' \<Longrightarrow> transparent (w @ w') (v @ v')"
  unfolding transparent_def by (simp add: map_option_append)

section \<open>Written strings\<close>

text \<open>The body of a written string, between its quotes.\<close>

definition body :: "string \<Rightarrow> string" where
  "body s = concat (map quote_rune (runes s))"

lemma json_string_body: "json_string s = quot # body s @ [quot]"
  by (simp add: json_string_def body_def)

lemma body_from_runes: "\<forall>n \<in> set ns. scalar_value n \<Longrightarrow> body (from_runes ns) = concat (map written ns)"
  by (simp add: body_def runes_from_runes comp_def written_def [symmetric] del: quote_rune.simps)

lemma transparent_body: "utf8 s \<Longrightarrow> transparent (body s) s"
proof -
  have "transparent (concat (map written ns)) (from_runes ns)" if "\<forall>n \<in> set ns. scalar_value n" for ns
    using that
  proof (induction ns)
    case Nil
    show ?case using transparent_quiet [of "[]"] by simp
  next
    case (Cons n ns)
    then show ?case using transparent_append [OF transparent_written] by simp
  qed
  then show "utf8 s \<Longrightarrow> transparent (body s) s" using body_from_runes unfolding utf8_runes by auto
qed

lemma ascii_utf8: "\<forall>c \<in> set w. code c < 128 \<Longrightarrow> utf8 w"
  unfolding utf8_runes
proof (intro exI conjI ballI)
  assume a: "\<forall>c \<in> set w. code c < 128"
  show "scalar_value n" if "n \<in> set (map code w)" for n using that a by (force simp: scalar_value_def)
  show "w = from_runes (map code w)" using a by (induction w) (simp_all add: encode_ascii)
qed

lemma utf8_append: "utf8 s \<Longrightarrow> utf8 t \<Longrightarrow> utf8 (s @ t)"
proof -
  assume "utf8 s" "utf8 t"
  then obtain ms ns where "\<forall>n \<in> set ms. scalar_value n" "s = from_runes ms" "\<forall>n \<in> set ns. scalar_value n" "t = from_runes ns"
    unfolding utf8_runes by blast
  then show "utf8 (s @ t)" unfolding utf8_runes by (intro exI [of _ "ms @ ns"]) auto
qed

lemma u_escape_ascii: "\<forall>c \<in> set (u_escape n). code c < 128"
proof -
  have "code (hex_digit (x mod 16)) < 128" for x
  proof -
    have "x mod 16 < 16" by simp
    from hex_digit_code [OF this] show ?thesis by linarith
  qed
  moreover have "code (CHR ''u'') = 117" by (simp add: code_def of_char_def)
  ultimately show ?thesis by (simp add: u_escape_def code_chars)
qed

lemma code_letters: "code (CHR ''b'') = 98" "code (CHR ''f'') = 102" "code (CHR ''n'') = 110" "code (CHR ''r'') = 114"
  "code (CHR ''t'') = 116"
  by (simp_all add: code_def of_char_def)

lemma utf8_quote_char: "code c < 128 \<Longrightarrow> utf8 (quote_char c)"
proof (rule ascii_utf8)
  assume "code c < 128"
  then show "\<forall>x \<in> set (quote_char c). code x < 128"
    using u_escape_ascii [of "code c"] by (simp add: quote_char_def code_chars code_letters)
qed

lemma utf8_written: "scalar_value n \<Longrightarrow> utf8 (written n)"
proof -
  assume sv: "scalar_value n"
  have enc: "utf8 (encode_rune n)" using ValidUTF8_encode [OF sv, of "[]"] by (simp add: ValidUTF8.simps)
  show "utf8 (written n)"
  proof (cases "n < 128")
    case True
    then show ?thesis using utf8_quote_char [of "char_of n"] by (simp add: written_def encode_ascii code_char_of)
  next
    case False
    then obtain c d cs where "encode_rune n = c # d # cs" using encode_high [OF sv] by (metis linorder_not_less)
    then have "written n = encode_rune n \<or> written n = u_escape 0x2028 \<or> written n = u_escape 0x2029"
      by (auto simp: written_def)
    then show ?thesis using enc ascii_utf8 [OF u_escape_ascii] by metis
  qed
qed

lemma utf8_json_string: "utf8 s \<Longrightarrow> utf8 (json_string s)"
proof -
  have b: "utf8 (concat (map written ns))" if "\<forall>n \<in> set ns. scalar_value n" for ns
    using that
  proof (induction ns)
    case Nil
    show ?case by (simp add: ValidUTF8.simps)
  next
    case (Cons n ns)
    then show ?case using utf8_append [OF utf8_written] by simp
  qed
  have q: "utf8 [quot]" by (rule ascii_utf8) (simp add: code_chars)
  assume "utf8 s"
  then obtain ns where "\<forall>n \<in> set ns. scalar_value n" "s = from_runes ns" unfolding utf8_runes by blast
  then have "utf8 (body s)" using b body_from_runes by simp
  then show "utf8 (json_string s)"
    using utf8_append [OF utf8_append [OF q] q] by (simp add: json_string_body)
qed

lemma to_valid_utf8: "utf8 s \<Longrightarrow> to_valid s = s"
  unfolding utf8_runes by (auto simp: to_valid_def runes_from_runes comp_def)

lemma scan_string_body: "utf8 s \<Longrightarrow> scan_string (body s @ quot # u) = Some u"
  using transparent_body [of s] by (simp add: transparent_def)

lemma utf8_tail: "utf8 (c # w) \<Longrightarrow> code c < 128 \<Longrightarrow> utf8 w"
proof -
  assume a: "utf8 (c # w)" "code c < 128"
  have "(of_char c :: byte) < 0x80"
    using a(2) char_of_of_char_byte [of c] code_char_of [of "unat (of_char c :: byte)"] by (simp add: byte_lead)
  then show "utf8 w" using a(1) by (simp add: bytes_of_string_def ValidUTF8.simps)
qed

text \<open>Reading back what was written.\<close>

lemma unquote_json_string: "utf8 s \<Longrightarrow> unquote (json_string s) = Some s"
proof -
  assume u: "utf8 s"
  have "utf8 (body s @ [quot])" using utf8_tail [of quot "body s @ [quot]"] utf8_json_string [OF u] by (simp add: json_string_body code_chars)
  then have "unquote (json_string s) = unq (body s @ [quot])" by (simp add: unquote_def json_string_body to_valid_utf8)
  then show ?thesis using transparent_body [OF u] by (simp add: transparent_def)
qed

section \<open>Values and objects\<close>

text \<open>
  What the scanner asks of a value at a nesting depth: it is taken whole in front of a
  comma, a closing bracket or the end, it does not begin with a space, and neither compacting
  nor escaping changes it.
\<close>

definition stops :: "string \<Rightarrow> bool" where
  "stops u \<longleftrightarrow> u = [] \<or> hd u \<in> set '',}]''"

definition value_at :: "nat \<Rightarrow> string \<Rightarrow> bool" where
  "value_at d v \<longleftrightarrow> v \<noteq> [] \<and> \<not> is_space (hd v) \<and> (\<forall>u. stops u \<longrightarrow> scan_value d (v @ u) = Some u) \<and>
    (\<forall>u. squeeze False (v @ u) = v @ squeeze False u) \<and> (\<forall>u. escape_html (v @ u) = v @ escape_html u)"

lemma value_string: "utf8 s \<Longrightarrow> value_at d (json_string s)"
proof -
  assume u: "utf8 s"
  note t = transparent_body [OF u, unfolded transparent_def]
  have "scan_value d (quot # body s @ quot # w) = Some w" for w
    using scan_string_body [OF u, of w] by (cases d) (simp_all add: scan_scalar_def)
  moreover have "squeeze False (quot # body s @ quot # w) = quot # body s @ quot # squeeze False w" for w
    using t by (simp add: is_space_def)
  moreover have "escape_html (quot # body s @ quot # w) = quot # body s @ quot # escape_html w" for w
    using t by (simp add: html_unsafe_def)
  ultimately show ?thesis by (simp add: value_at_def json_string_body is_space_def)
qed

lemma skip_ws_id: "w \<noteq> [] \<Longrightarrow> \<not> is_space (hd w) \<Longrightarrow> skip_ws w = w"
  by (cases w) (simp_all add: skip_ws_def)

lemma taken_append: "taken (a @ u) u = a"
  by (simp add: taken_def)

abbreviation member_text :: "string \<times> string \<Rightarrow> string" where
  "member_text kv \<equiv> json_string (fst kv) @ '':'' @ snd kv"

lemma commas_Cons: "commas (x # xs) = x @ (if xs = [] then [] else CHR '','' # commas xs)"
  by (cases xs) simp_all

lemma skip_chars: "skip_ws (CHR '':'' # u) = CHR '':'' # u" "skip_ws (CHR '','' # u) = CHR '','' # u" "skip_ws (CHR ''}'' # u) = CHR ''}'' # u"
  "skip_ws (quot # u) = quot # u" "skip_ws (CHR ''{'' # u) = CHR ''{'' # u"
  by (simp_all add: skip_ws_def is_space_def)

lemma obj_items_text:
  assumes "ms \<noteq> []" "length ms \<le> n" "\<forall>(k, v) \<in> set ms. utf8 k \<and> value_at d v"
  shows "obj_items (scan_value d) n (commas (map member_text ms) @ CHR ''}'' # u) = Some (map (\<lambda>(k, v). (json_string k, v)) ms, u)"
  using assms
proof (induction ms arbitrary: n)
  case (Cons kv ms)
  obtain k v where kv: "kv = (k, v)" by force
  obtain n' where n: "n = Suc n'" using Cons.prems(2) by (cases n) auto
  have u: "utf8 k" and v: "v \<noteq> []" "\<not> is_space (hd v)" "\<And>w. stops w \<Longrightarrow> scan_value d (v @ w) = Some w"
    using Cons.prems(3) kv by (auto simp: value_at_def)
  let ?rest = "(if ms = [] then [] else CHR '','' # commas (map member_text ms)) @ CHR ''}'' # u"
  have whole: "commas (map member_text (kv # ms)) @ CHR ''}'' # u = quot # body k @ quot # CHR '':'' # v @ ?rest"
    by (simp add: commas_Cons kv json_string_body)
  have sc: "scan_string (body k @ quot # CHR '':'' # v @ ?rest) = Some (CHR '':'' # v @ ?rest)" by (rule scan_string_body [OF u])
  have ws: "skip_ws (v @ ?rest) = v @ ?rest" using v(1,2) by (intro skip_ws_id) simp_all
  have "stops ?rest" by (simp add: stops_def)
  then have vs: "scan_value d (v @ ?rest) = Some ?rest" by (rule v(3))
  have tk: "taken (quot # body k @ quot # CHR '':'' # v @ ?rest) (CHR '':'' # v @ ?rest) = json_string k"
    using taken_append [of "quot # body k @ [quot]" "CHR '':'' # v @ ?rest"] by (simp add: json_string_body)
  have tv: "taken (v @ ?rest) ?rest = v" by (rule taken_append)
  have step: "obj_items (scan_value d) n (commas (map member_text (kv # ms)) @ CHR ''}'' # u) =
    (case skip_ws ?rest of [] \<Rightarrow> None
     | e # r4 \<Rightarrow> if e = CHR ''}'' then Some ([(json_string k, v)], r4)
       else if e = CHR '','' then (case obj_items (scan_value d) n' r4 of None \<Rightarrow> None | Some (l, r5) \<Rightarrow> Some ((json_string k, v) # l, r5))
       else None)"
    unfolding whole n obj_items.simps
    by (simp only: skip_chars list.case sc option.case ws vs tk tv simp_thms if_False if_True Let_def)
  show ?case
  proof (cases "ms = []")
    case True
    then show ?thesis unfolding step by (simp add: skip_chars kv)
  next
    case False
    have "obj_items (scan_value d) n' (commas (map member_text ms) @ CHR ''}'' # u) = Some (map (\<lambda>(k, v). (json_string k, v)) ms, u)"
      using Cons.IH [OF False, of n'] Cons.prems(2,3) n by simp
    then show ?thesis unfolding step using False by (simp add: skip_chars kv)
  qed
qed simp

lemma length_commas: "length ms \<le> length (commas (map member_text ms))"
proof (induction ms)
  case (Cons kv ms)
  have "1 \<le> length (member_text kv)" by (simp add: json_string_body)
  then show ?case using Cons by (simp add: commas_Cons json_string_body)
qed simp

lemma commas_through:
  assumes "\<forall>kv \<in> set ms. \<forall>u. f (json_string (fst kv) @ u) = json_string (fst kv) @ f u \<and> f (snd kv @ u) = snd kv @ f u"
    "\<And>c u. c \<in> set '':,'' \<Longrightarrow> f (c # u) = c # f u"
  shows "f (commas (map member_text ms) @ u) = commas (map member_text ms) @ f u"
  using assms(1) by (induction ms arbitrary: u) (simp_all add: commas_Cons assms(2))

lemma json_object_text: "json_object ms = CHR ''{'' # commas (map member_text ms) @ [CHR ''}'']"
  by (simp add: json_object_def split_def)

lemma scan_object_text:
  assumes "\<forall>(k, v) \<in> set ms. utf8 k \<and> value_at d v"
  shows "scan_object (scan_value d) (commas (map member_text ms) @ CHR ''}'' # u) = Some (map (\<lambda>(k, v). (json_string k, v)) ms, u)"
proof (cases "ms = []")
  case True
  then show ?thesis by (simp add: scan_object_def skip_chars)
next
  case False
  then obtain kv ms' where m: "ms = kv # ms'" by (cases ms) auto
  have "skip_ws (commas (map member_text ms) @ CHR ''}'' # u) = quot # tl (commas (map member_text ms) @ CHR ''}'' # u)"
    by (simp add: m commas_Cons json_string_body skip_chars)
  then show ?thesis using obj_items_text [OF False _ assms, of _ u] length_commas [of ms]
    by (simp add: scan_object_def del: obj_items.simps)
qed

lemma value_object:
  assumes "\<forall>(k, v) \<in> set ms. utf8 k \<and> value_at d v"
  shows "value_at (Suc d) (json_object ms)"
proof -
  have scan: "scan_value (Suc d) (json_object ms @ u) = Some u" for u
    using scan_object_text [OF assms, of u] by (simp add: json_object_text)
  have vals: "value_at d (json_string (fst kv)) \<and> value_at d (snd kv)" if "kv \<in> set ms" for kv
    using that assms value_string by (cases kv) auto
  have sq: "squeeze False (commas (map member_text ms) @ u) = commas (map member_text ms) @ squeeze False u" for u
    by (rule commas_through) (use vals in \<open>simp add: value_at_def\<close>, auto simp: is_space_def)
  have es: "escape_html (commas (map member_text ms) @ u) = commas (map member_text ms) @ escape_html u" for u
    by (rule commas_through) (use vals in \<open>simp add: value_at_def\<close>, auto simp: html_unsafe_def)
  show ?thesis unfolding value_at_def
    using scan by (simp add: json_object_text sq [simplified] es [simplified] is_space_def html_unsafe_def)
qed

lemma depth: "maxNestingDepth = Suc 9999" "maxNestingDepth - 1 = 9999"
  by (simp_all add: maxNestingDepth_def)

lemma value_Valid: "value_at maxNestingDepth v \<Longrightarrow> Valid v"
proof -
  assume v: "value_at maxNestingDepth v"
  then have "scan_value maxNestingDepth (v @ []) = Some []" unfolding value_at_def by (simp add: stops_def)
  then show "Valid v" using v skip_ws_id [of v] by (simp add: Valid_def value_at_def skip_ws_def)
qed

lemma value_Compact: "value_at maxNestingDepth v \<Longrightarrow> Compact v = Some v" "value_at maxNestingDepth v \<Longrightarrow> marshal_raw v = Some v"
proof -
  assume v: "value_at maxNestingDepth v"
  then have "squeeze False (v @ []) = v @ squeeze False []" "escape_html (v @ []) = v @ escape_html []" unfolding value_at_def by blast+
  then show "Compact v = Some v" "marshal_raw v = Some v" using value_Valid [OF v] by (simp_all add: Compact_def marshal_raw_def)
qed

lemma members_object:
  assumes "\<forall>(k, v) \<in> set ms. utf8 k \<and> value_at 9999 v"
  shows "members (json_object ms) = Some ms"
proof -
  have "Valid (json_object ms)" using value_Valid value_object [OF assms] by (simp add: depth)
  moreover have "skip_ws (json_object ms) = json_object ms" by (simp add: json_object_text skip_chars)
  ultimately have "members (json_object ms) =
      Some (map (\<lambda>(k, v). (case unquote k of Some k' \<Rightarrow> k' | None \<Rightarrow> [], v)) (map (\<lambda>(k, v). (json_string k, v)) ms))"
    using scan_object_text [OF assms, of "[]"] by (simp add: members_def json_object_text depth(2) [simplified])
  also have "\<dots> = Some ms" using assms by (auto simp: unquote_json_string intro!: map_idI)
  finally show ?thesis .
qed

section \<open>Numbers\<close>

lemma digit_facts: "k < 10 \<Longrightarrow> is_digit (hex_digit k) \<and> quiet (hex_digit k) \<and> (hex_digit k = CHR ''0'' \<longrightarrow> k = 0)"
proof -
  have "\<forall>k \<in> set [0..<10]. is_digit (hex_digit k) \<and> (hex_digit k = CHR ''0'' \<longrightarrow> k = 0)"
    by (simp add: upt_rec hex_digit_def is_digit_def code_def of_char_def)
  then show "k < 10 \<Longrightarrow> is_digit (hex_digit k) \<and> quiet (hex_digit k) \<and> (hex_digit k = CHR ''0'' \<longrightarrow> k = 0)"
    using quiet_hex [of k] by simp
qed

lemma nat_string_digits:
  "list_all is_digit (nat_string n) \<and> list_all quiet (nat_string n) \<and> nat_string n \<noteq> [] \<and>
    (hd (nat_string n) = CHR ''0'' \<longrightarrow> nat_string n = ''0'')"
proof (induction n rule: nat_string.induct)
  case (1 n)
  show ?case
  proof (cases "n < 10")
    case True
    then show ?thesis using digit_facts [of n] by (auto simp: nat_string.simps [of n] hex_digit_def)
  next
    case False
    note IH = 1 [OF False]
    have d: "n mod 10 < 10" by simp
    have "nat_string (n div 10) \<noteq> ''0''"
    proof
      assume z: "nat_string (n div 10) = ''0''"
      have "0 < n div 10" using False by (simp add: div_greater_zero_iff)
      then show False using z digit_facts [of "n div 10"] nat_string.simps [of "n div 10"] nat_string.simps [of "n div 10 div 10"]
        by (auto split: if_splits simp: append_eq_Cons_conv)
    qed
    moreover have "nat_string n = nat_string (n div 10) @ [hex_digit (n mod 10)]" using False nat_string.simps [of n] by simp
    ultimately show ?thesis using IH digit_facts [OF d] by auto
  qed
qed

lemma char_tests:
  "\<not> is_digit (CHR '','')" "\<not> is_digit (CHR ''}'')" "\<not> is_digit (CHR '']'')" "\<not> is_digit (CHR ''-'')" "\<not> is_digit quot"
  "\<not> is_digit (CHR ''{'')" "\<not> is_digit (CHR ''['')" "\<not> is_digit (CHR ''t'')" "\<not> is_digit (CHR ''f'')" "\<not> is_digit (CHR ''n'')"
  "\<not> is_digit (CHR '' '')" "\<not> is_digit (CHR 0x09)" "\<not> is_digit (CHR 0x0A)" "\<not> is_digit (CHR 0x0D)"
  "quiet (CHR ''-'')" "\<not> is_space (CHR ''-'')"
  by (simp_all add: is_digit_def code_def of_char_def quiet_def html_unsafe_def is_space_def)

lemma stops_plain:
  assumes "stops u"
  shows "dropWhile is_digit u = u" "u = [] \<or> hd u \<noteq> CHR ''.'' \<and> hd u \<noteq> CHR ''e'' \<and> hd u \<noteq> CHR ''E''"
proof -
  have "dropWhile is_digit u = u \<and> (u = [] \<or> hd u \<noteq> CHR ''.'' \<and> hd u \<noteq> CHR ''e'' \<and> hd u \<noteq> CHR ''E'')"
  proof (cases u)
    case (Cons c w)
    then consider "c = CHR '',''" | "c = CHR ''}''" | "c = CHR '']''" using assms by (auto simp: stops_def)
    then show ?thesis by cases (simp_all add: Cons char_tests)
  qed simp
  then show "dropWhile is_digit u = u" "u = [] \<or> hd u \<noteq> CHR ''.'' \<and> hd u \<noteq> CHR ''e'' \<and> hd u \<noteq> CHR ''E''" by simp_all
qed

lemma scan_number_digits:
  assumes "list_all is_digit ds" "ds \<noteq> []" "hd ds = CHR ''0'' \<longrightarrow> ds = ''0''" "stops u"
  shows "scan_number (ds @ u) = Some u" "scan_number (CHR ''-'' # ds @ u) = Some u"
proof -
  obtain c cs where c: "ds = c # cs" using assms(2) by (cases ds) auto
  have nd: "c \<noteq> CHR ''-''" using assms(1) c char_tests(4) by auto
  have dw: "dropWhile is_digit (cs @ u) = u"
    using assms(1) c stops_plain(1) [OF assms(4)] by (simp add: dropWhile_append2 list_all_iff)
  have int: "(if c = CHR ''0'' then Some (cs @ u) else scan_digits1 (c # cs @ u)) = Some u"
    using assms(1,3) c dw by (auto simp: scan_digits1_def)
  then show "scan_number (ds @ u) = Some u" "scan_number (CHR ''-'' # ds @ u) = Some u"
    using stops_plain(2) [OF assms(4)] nd by (auto simp: scan_number_def c Let_def split: list.splits)
qed

lemma squeeze_plain: "\<forall>c \<in> set w. \<not> is_space c \<and> c \<noteq> quot \<Longrightarrow> squeeze False (w @ u) = w @ squeeze False u"
  by (induction w) auto

lemma digit_plain: "is_digit c \<Longrightarrow> \<not> is_space c \<and> c \<noteq> quot \<and> c \<notin> set ''{[tfn''"
  using char_tests by (auto simp: is_space_def)

lemma value_digits:
  assumes "list_all is_digit ds" "list_all quiet ds" "ds \<noteq> []" "hd ds = CHR ''0'' \<longrightarrow> ds = ''0''" "w = ds \<or> w = CHR ''-'' # ds"
  shows "value_at d w"
proof -
  have w: "list_all quiet w" "\<forall>c \<in> set w. \<not> is_space c \<and> c \<noteq> quot" "w \<noteq> []" "hd w \<notin> set ''{[tfn''" "hd w \<noteq> quot"
  proof -
    have ds: "\<forall>c \<in> set ds. \<not> is_space c \<and> c \<noteq> quot \<and> c \<notin> set ''{[tfn''" using assms(1) digit_plain by (auto simp: list_all_iff)
    then have "hd ds \<notin> set ''{[tfn''" "hd ds \<noteq> quot" using hd_in_set [OF assms(3)] by blast+
    then have "w = ds \<Longrightarrow> list_all quiet w \<and> (\<forall>c \<in> set w. \<not> is_space c \<and> c \<noteq> quot) \<and> w \<noteq> [] \<and> hd w \<notin> set ''{[tfn'' \<and> hd w \<noteq> quot"
      using assms(2,3) ds by blast
    moreover have "list_all quiet w \<and> (\<forall>c \<in> set w. \<not> is_space c \<and> c \<noteq> quot) \<and> w \<noteq> [] \<and> hd w \<notin> set ''{[tfn'' \<and> hd w \<noteq> quot"
      if "w = CHR ''-'' # ds"
    proof -
      have "\<forall>c \<in> set ds. \<not> is_space c \<and> c \<noteq> quot" using ds by blast
      then show ?thesis using that assms(2) char_tests(15,16) by simp
    qed
    ultimately show "list_all quiet w" "\<forall>c \<in> set w. \<not> is_space c \<and> c \<noteq> quot" "w \<noteq> []" "hd w \<notin> set ''{[tfn''" "hd w \<noteq> quot"
      using assms(5) by argo+
  qed
  have "scan_value d (w @ u) = Some u" if "stops u" for u
  proof -
    obtain c cs where c: "w = c # cs" using w(3) by (cases w) auto
    have n: "scan_number (c # cs @ u) = Some u" using scan_number_digits [OF assms(1,3,4) that] assms(5) c by auto
    have "c \<noteq> CHR ''{''" "c \<noteq> CHR ''[''" "c \<noteq> CHR ''t''" "c \<noteq> CHR ''f''" "c \<noteq> CHR ''n''" "c \<noteq> quot" using w(4,5) c by simp_all
    then show ?thesis by (cases d) (simp_all add: c scan_scalar_def n)
  qed
  then show ?thesis unfolding value_at_def using w squeeze_plain [OF w(2)] quiet_scan(3) [OF w(1)] by simp
qed

lemma value_int: "value_at d (int_string i)"
proof -
  define ds where "ds = nat_string (if i < 0 then nat (- i) else nat i)"
  have "int_string i = ds \<or> int_string i = CHR ''-'' # ds" by (simp add: int_string_def ds_def)
  then show ?thesis using nat_string_digits [of "if i < 0 then nat (- i) else nat i", folded ds_def]
    by (intro value_digits) simp_all
qed

section \<open>Frames\<close>

lemma frame_names: "utf8 ''event''" "utf8 ''data''" "utf8 ''channel''" "utf8 ''user_id''"
  by (rule ascii_utf8; simp add: code_def of_char_def)+

text \<open>The members of an encoded frame.\<close>

definition frame_members :: "Frame \<Rightarrow> (string \<times> string) list" where
  "frame_members f = [(''event'', json_string (fr_Event f))] @
    (if fr_Data f = [] then [] else [(''data'', json_string (fr_Data f))]) @
    (if fr_Channel f = [] then [] else [(''channel'', json_string (fr_Channel f))]) @
    (if fr_UserID f = [] then [] else [(''user_id'', json_string (fr_UserID f))])"

definition utf8_frame :: "Frame \<Rightarrow> bool" where
  "utf8_frame f \<longleftrightarrow> utf8 (fr_Event f) \<and> utf8 (fr_Channel f) \<and> utf8 (fr_Data f) \<and> utf8 (fr_UserID f)"

lemma frame_members_values: "utf8_frame f \<Longrightarrow> \<forall>(k, v) \<in> set (frame_members f). utf8 k \<and> value_at d v"
  using frame_names value_string by (auto simp: frame_members_def utf8_frame_def)

lemma Encode_text:
  assumes "fr_Event f \<noteq> []" "fr_Data f = [] \<or> Compact (fr_Data f) = Some (fr_Data f)" "utf8_frame f"
  shows "Encode f = Inr (json_object (frame_members f))"
proof -
  have "MarshalJSON f = Inr (json_object (frame_members f))"
    using assms(1,2) by (auto simp: MarshalJSON_def frame_members_def Let_def)
  moreover have "marshal_raw (json_object (frame_members f)) = Some (json_object (frame_members f))"
    by (rule value_Compact(2)) (simp only: depth(1) value_object [OF frame_members_values [OF assms(3)]])
  ultimately show ?thesis by (simp add: Encode_def)
qed

lemma unwrap_string:
  assumes "utf8 s" "Valid s"
  shows "unwrapJSONString (json_string s) = s"
  using unquote_json_string [OF assms(1)] assms(2) by (simp add: unwrapJSONString_def json_string_body)

lemma not_null: "json_string s \<noteq> ''null''" "json_string s \<noteq> []"
  by (simp_all add: json_string_body)

lemma field_ofs:
  "field_of frame_fields ''event'' = Some ''event''" "field_of frame_fields ''data'' = Some ''data''"
  "field_of frame_fields ''channel'' = Some ''channel''" "field_of frame_fields ''user_id'' = Some ''user_id''"
  by (simp_all add: field_of_def frame_fields_def)

lemma Decode_text:
  assumes "fr_Event f \<noteq> []" "fr_Data f = [] \<or> Valid (fr_Data f)" "utf8_frame f"
  shows "UnmarshalJSON (json_object (frame_members f)) = Some f"
proof -
  have m: "members (json_object (frame_members f)) = Some (frame_members f)"
    by (rule members_object [OF frame_members_values [OF assms(3)]])
  have u: "unquote (json_string (fr_Event f)) = Some (fr_Event f)" "unquote (json_string (fr_Channel f)) = Some (fr_Channel f)"
    "unquote (json_string (fr_UserID f)) = Some (fr_UserID f)" "unquote (json_string (fr_Data f)) = Some (fr_Data f)"
    using assms(3) by (simp_all add: utf8_frame_def unquote_json_string)
  have fields: "string_field frame_fields ''event'' (frame_members f) [] = Some (fr_Event f)"
    "string_field frame_fields ''channel'' (frame_members f) [] = Some (fr_Channel f)"
    "string_field frame_fields ''user_id'' (frame_members f) [] = Some (fr_UserID f)"
    "raw_field frame_fields ''data'' (frame_members f) [] = (if fr_Data f = [] then [] else json_string (fr_Data f))"
    by (simp_all add: frame_members_def field_ofs not_null u)
  have "unwrapJSONString (if fr_Data f = [] then [] else json_string (fr_Data f)) = fr_Data f"
    using assms(2,3) unwrap_string by (auto simp: utf8_frame_def unwrapJSONString_def [of "[]"])
  then show ?thesis by (simp add: UnmarshalJSON_def m fields)
qed

lemma utf8_concat: "(\<And>x. x \<in> set xs \<Longrightarrow> utf8 x) \<Longrightarrow> utf8 (concat xs)"
proof (induction xs)
  case Nil
  show ?case by (simp add: ValidUTF8.simps)
next
  case (Cons x xs)
  have "utf8 x" "utf8 (concat xs)" using Cons by auto
  then show ?case using utf8_append by simp
qed

lemma utf8_object: "\<forall>(k, v) \<in> set ms. utf8 k \<and> utf8 v \<Longrightarrow> utf8 (json_object ms)"
proof -
  have b: "utf8 [c]" if "c \<in> set ''{}:,''" for c by (rule ascii_utf8) (use that in \<open>auto simp: code_def of_char_def\<close>)
  have "utf8 (commas (map member_text ms))" if "\<forall>(k, v) \<in> set ms. utf8 k \<and> utf8 v" for ms
    using that
  proof (induction ms)
    case Nil
    show ?case by (simp add: ValidUTF8.simps)
  next
    case (Cons kv ms)
    obtain k v where kv: "kv = (k, v)" by force
    have "utf8 (json_string k @ [CHR '':''] @ v)" using Cons.prems kv b utf8_json_string by (intro utf8_append) auto
    moreover have "utf8 ([CHR '',''] @ commas (map member_text ms))" using Cons b by (intro utf8_append) auto
    ultimately show ?case using utf8_append [of "json_string k @ [CHR '':''] @ v" "[CHR '',''] @ commas (map member_text ms)"]
      by (simp add: commas_Cons kv)
  qed
  then show "\<forall>(k, v) \<in> set ms. utf8 k \<and> utf8 v \<Longrightarrow> utf8 (json_object ms)"
    using utf8_append [OF b utf8_append [OF _ b], of "CHR ''{''" "commas (map member_text ms)" "CHR ''}''"]
    by (simp add: json_object_text)
qed

lemma Decode_written:
  assumes "fr_Event f \<noteq> []" "fr_Data f = [] \<or> Compact (fr_Data f) = Some (fr_Data f)" "utf8_frame f"
  shows "Decode (json_object (frame_members f)) = Inr f"
proof -
  have "fr_Data f = [] \<or> Valid (fr_Data f)" using assms(2) by (auto simp: Compact_def split: if_splits)
  note d = Decode_text [OF assms(1) this assms(3)]
  have "utf8 (json_object (frame_members f))"
    using assms(3) frame_names by (intro utf8_object) (auto simp: frame_members_def utf8_frame_def utf8_json_string)
  then show ?thesis using d assms(1) by (simp add: Decode_def)
qed

text \<open>Property C27. A frame survives the wire. A frame with an event name, whose fields are UTF-8 and whose
  data is absent or compact JSON, is encoded without an error, and decoding what was written
  gives the frame back, its data unwrapped from the string it travels in.\<close>

theorem encoded_frame_is_decoded:
  assumes "fr_Event f \<noteq> []" "fr_Data f = [] \<or> Compact (fr_Data f) = Some (fr_Data f)" "utf8_frame f"
  shows "\<exists>s. Encode f = Inr s \<and> Decode s = Inr f"
  using Encode_text [OF assms] Decode_written [OF assms] by simp

text \<open>The frame of a protocol error is such a frame.\<close>

lemma utf8_int_string: "utf8 (int_string i)"
proof (rule ascii_utf8)
  have "code c < 128" if "is_digit c" for c using that by (simp add: is_digit_def)
  moreover have "code (CHR ''-'') = 45" by (simp add: code_def of_char_def)
  ultimately show "\<forall>c \<in> set (int_string i). code c < 128"
    using nat_string_digits by (auto simp: int_string_def list_all_iff)
qed

lemma error_names: "utf8 EventError" "utf8 ''code''" "utf8 ''message''"
  by (rule ascii_utf8; simp add: code_def of_char_def event_defs)+

lemma error_frame_sound:
  assumes "utf8 m"
  shows "fr_Event (error_frame c m) \<noteq> []" "Compact (fr_Data (error_frame c m)) = Some (fr_Data (error_frame c m))"
    "utf8_frame (error_frame c m)"
proof -
  let ?ms = "[(''code'', int_string c), (''message'', json_string m)]"
  have "\<forall>(k, v) \<in> set ?ms. utf8 k \<and> value_at 9999 v" using error_names value_int value_string [OF assms] by simp
  from value_object [OF this] have "value_at maxNestingDepth (json_object ?ms)" by (simp only: depth(1))
  then show "Compact (fr_Data (error_frame c m)) = Some (fr_Data (error_frame c m))"
    by (simp add: error_frame_def ev_frame_def value_Compact)
  have "utf8 (json_object ?ms)" using error_names utf8_int_string utf8_json_string [OF assms] by (intro utf8_object) simp
  then show "utf8_frame (error_frame c m)"
    using error_names(1) by (simp add: utf8_frame_def error_frame_def ev_frame_def ValidUTF8.simps)
  show "fr_Event (error_frame c m) \<noteq> []" by (simp add: error_frame_def ev_frame_def event_defs)
qed

lemma Encode_error: "utf8 m \<Longrightarrow> \<exists>s. Encode (error_frame c m) = Inr s"
  using Encode_text error_frame_sound by blast

theorem encoded_frame_is_decoded_witness:
  "\<exists>s. Encode (error_frame 4009 ''Connection is unauthorized'') = Inr s \<and> Decode s = Inr (error_frame 4009 ''Connection is unauthorized'')"
proof -
  have "utf8 ''Connection is unauthorized''" by (rule ascii_utf8) (simp add: code_def of_char_def)
  from error_frame_sound [OF this, of 4009] show ?thesis
    using encoded_frame_is_decoded [of "error_frame 4009 ''Connection is unauthorized''"] by blast
qed

end
