(* ===== verification/Json_Compact.thy ===== *)
theory Json_Compact
  imports Json_Facts
begin

text \<open>
  What \<open>Marshal\<close> writes for bytes that are already JSON: white space outside strings is dropped
  and the characters HTML gives a meaning to are escaped. The result is JSON again, in the same
  number of nested brackets and with nothing left to drop or to escape, so that it can be put
  inside an object and read back out as the bytes that were written. The proof follows the
  scanner, one piece at a time.
\<close>

section \<open>Pieces\<close>

text \<open>
  A piece \<open>v\<close> of a text that comes out as \<open>e\<close>, whatever follows it, and that stays as it is the
  second time.
\<close>

definition thins :: "string \<Rightarrow> string \<Rightarrow> bool" where
  "thins v e \<longleftrightarrow> (\<exists>w. (\<forall>u. squeeze False (v @ u) = w @ squeeze False u) \<and> (\<forall>u. escape_html (w @ u) = e @ escape_html u)) \<and>
    (\<forall>u. squeeze False (e @ u) = e @ squeeze False u) \<and> (\<forall>u. escape_html (e @ u) = e @ escape_html u)"

lemma thins_append:
  assumes "thins v e" "thins v' e'"
  shows "thins (v @ v') (e @ e')"
proof -
  obtain w where w: "\<And>u. squeeze False (v @ u) = w @ squeeze False u" "\<And>u. escape_html (w @ u) = e @ escape_html u"
    using assms(1) unfolding thins_def by blast
  obtain w' where w': "\<And>u. squeeze False (v' @ u) = w' @ squeeze False u" "\<And>u. escape_html (w' @ u) = e' @ escape_html u"
    using assms(2) unfolding thins_def by blast
  have "\<forall>u. squeeze False ((v @ v') @ u) = (w @ w') @ squeeze False u" "\<forall>u. escape_html ((w @ w') @ u) = (e @ e') @ escape_html u"
    using w w' by simp_all
  moreover have "\<forall>u. squeeze False ((e @ e') @ u) = (e @ e') @ squeeze False u" "\<forall>u. escape_html ((e @ e') @ u) = (e @ e') @ escape_html u"
    using assms unfolding thins_def by simp_all
  ultimately show ?thesis unfolding thins_def by blast
qed

lemma thins_space: "\<forall>c \<in> set v. is_space c \<Longrightarrow> thins v []"
proof -
  assume "\<forall>c \<in> set v. is_space c"
  then have "squeeze False (v @ u) = squeeze False u" for u by (induction v) auto
  then show "thins v []" unfolding thins_def by (intro conjI exI [of _ "[]"]) simp_all
qed

definition bare :: "char \<Rightarrow> bool" where
  "bare c \<longleftrightarrow> \<not> is_space c \<and> c \<noteq> quot \<and> \<not> html_unsafe c \<and> c \<noteq> CHR 0xE2"

lemma thins_bare:
  assumes "list_all bare v"
  shows "thins v v"
proof -
  have "squeeze False (v @ u) = v @ squeeze False u" "escape_html (v @ u) = v @ escape_html u" for u
    using assms by (induction v) (auto simp: bare_def)
  then show ?thesis unfolding thins_def by (intro conjI exI [of _ v]) simp_all
qed

lemma brackets_bare: "bare (CHR ''{'')" "bare (CHR ''}'')" "bare (CHR ''['')" "bare (CHR '']'')" "bare (CHR '':'')" "bare (CHR '','')"
  by (simp_all add: bare_def is_space_def html_unsafe_def)

lemma skip_split: "\<exists>ws. s = ws @ skip_ws s \<and> thins ws []"
proof -
  have "s = takeWhile is_space s @ skip_ws s" by (simp add: skip_ws_def)
  moreover have "thins (takeWhile is_space s) []" by (rule thins_space) (auto dest: set_takeWhileD)
  ultimately show ?thesis by blast
qed

section \<open>Strings\<close>

text \<open>The contents of a string, with what they are written as.\<close>

inductive contents :: "string \<Rightarrow> string \<Rightarrow> bool" where
  nothing: "contents [] []"
| escaped: "e \<in> set ''bfnrt/'' \<or> e = bslash \<or> e = quot \<Longrightarrow> contents b w \<Longrightarrow> contents (bslash # e # b) (bslash # e # w)"
| numbered: "hex4 h1 h2 h3 h4 \<noteq> None \<Longrightarrow> contents b w \<Longrightarrow>
    contents (bslash # CHR ''u'' # h1 # h2 # h3 # h4 # b) (bslash # CHR ''u'' # h1 # h2 # h3 # h4 # w)"
| unsafe: "html_unsafe c \<Longrightarrow> contents b w \<Longrightarrow> contents (c # b) (u_escape (code c) @ w)"
| line: "contents b w \<Longrightarrow> contents ([CHR 0xE2, CHR 0x80, CHR 0xA8] @ b) (u_escape 0x2028 @ w)"
| separator: "contents b w \<Longrightarrow> contents ([CHR 0xE2, CHR 0x80, CHR 0xA9] @ b) (u_escape 0x2029 @ w)"
| plain: "\<lbrakk>c \<noteq> quot; c \<noteq> bslash; 32 \<le> code c; \<not> html_unsafe c;
    c = CHR 0xE2 \<longrightarrow> take 2 b \<noteq> [CHR 0x80, CHR 0xA8] \<and> take 2 b \<noteq> [CHR 0x80, CHR 0xA9]; contents b w\<rbrakk> \<Longrightarrow> contents (c # b) (c # w)"

lemma scan_string_contents:
  assumes "scan_string s = Some r"
  shows "\<exists>b w. s = b @ quot # r \<and> contents b w"
  using assms
proof (induction s rule: measure_induct_rule [of length])
  case (less s)
  obtain c t where s: "s = c # t" using less.prems by (cases s) auto
  consider "c = quot" | "c = bslash" | "c \<noteq> quot" "c \<noteq> bslash" "32 \<le> code c"
    using less.prems s by (auto split: if_splits)
  then show ?case
  proof cases
    case 1
    then show ?thesis using less.prems s contents.nothing by (intro exI [of _ "[]"]) simp
  next
    case 2
    then obtain e t1 where t: "t = e # t1" using less.prems s by (auto split: list.splits)
    show ?thesis
    proof (cases "e \<in> set ''bfnrt/'' \<or> e = bslash \<or> e = quot")
      case True
      then have "scan_string t1 = Some r" using less.prems s t 2 by simp
      from less.IH [OF _ this] obtain b w where "t1 = b @ quot # r" "contents b w" using s t by auto
      then show ?thesis
        using contents.escaped [OF True] s t 2 by (intro exI [of _ "bslash # e # b"] exI [of _ "bslash # e # w"]) simp
    next
      case False
      then obtain h1 h2 h3 h4 t2 where h: "e = CHR ''u''" "t1 = h1 # h2 # h3 # h4 # t2" "hex4 h1 h2 h3 h4 \<noteq> None" "scan_string t2 = Some r"
        using less.prems s t 2 by (auto split: if_splits list.splits)
      from less.IH [OF _ h(4)] obtain b w where "t2 = b @ quot # r" "contents b w" using s t h(2) by auto
      then show ?thesis
        using contents.numbered [OF h(3)] s t 2 h(1,2) 
        by (intro exI [of _ "bslash # CHR ''u'' # h1 # h2 # h3 # h4 # b"] exI [of _ "bslash # CHR ''u'' # h1 # h2 # h3 # h4 # w"]) simp
    qed
  next
    case 3
    then have p: "scan_string t = Some r" using less.prems s by simp
    from less.IH [OF _ this] obtain b w where b: "t = b @ quot # r" "contents b w" using s by auto
    consider "html_unsafe c" | d where "c = CHR 0xE2" "take 2 b = [CHR 0x80, d]" "d = CHR 0xA8 \<or> d = CHR 0xA9"
      | "\<not> html_unsafe c" "c = CHR 0xE2 \<longrightarrow> take 2 b \<noteq> [CHR 0x80, CHR 0xA8] \<and> take 2 b \<noteq> [CHR 0x80, CHR 0xA9]" by blast
    then have "\<exists>w'. contents (c # b) w'"
    proof cases
      case 1
      then show ?thesis using contents.unsafe [OF 1 b(2)] by blast
    next
      case 2
      then obtain b1 where b1: "b = CHR 0x80 # d # b1" by (cases b; cases "tl b") auto
      have "scan_string (b1 @ quot # r) = Some r" using p b(1) b1 2(3) by (auto simp: code_def of_char_def)
      from less.IH [OF _ this] obtain b2 w2 where b2: "b1 @ quot # r = b2 @ quot # r" "contents b2 w2" using s b(1) b1 by auto
      then have "contents b1 w2" by simp
      then show ?thesis using contents.line [of b1 w2] contents.separator [of b1 w2] 2(1,3) b1 by auto
    next
      case 3
      then show ?thesis
        using contents.plain [OF _ _ _ 3 b(2)] \<open>c \<noteq> quot\<close> \<open>c \<noteq> bslash\<close> \<open>32 \<le> code c\<close> by blast
    qed
    then show ?thesis using s b(1) by (metis append_Cons)
  qed
qed

lemma hex_plain: "hex4 h1 h2 h3 h4 \<noteq> None \<Longrightarrow> x \<in> {h1, h2, h3, h4} \<Longrightarrow> quiet x"
proof -
  assume "hex4 h1 h2 h3 h4 \<noteq> None" "x \<in> {h1, h2, h3, h4}"
  then have "hex_value x \<noteq> None" by (auto simp: hex4_def split: option.splits)
  then have "code x < 103" "code x \<noteq> 34" "code x \<noteq> 38" "code x \<noteq> 60" "code x \<noteq> 62" "code x \<noteq> 92" "32 \<le> code x"
    by (auto simp: hex_value_def Let_def split: if_splits)
  then show "quiet x" using code_chars by (auto simp: quiet_def html_unsafe_def)
qed

lemma escape_plain: "\<not> html_unsafe c \<Longrightarrow> c \<noteq> CHR 0xE2 \<Longrightarrow> escape_html (c # s) = c # escape_html s"
  by simp

lemma simple_escapes: "e \<in> set ''bfnrt/'' \<or> e = bslash \<or> e = quot \<Longrightarrow> \<not> html_unsafe e \<and> e \<noteq> CHR 0xE2"
  by (auto simp: html_unsafe_def)

lemma bslash_plain: "\<not> html_unsafe bslash" "bslash \<noteq> CHR 0xE2" "\<not> html_unsafe quot" "quot \<noteq> CHR 0xE2" "\<not> html_unsafe (CHR ''u'')" "CHR ''u'' \<noteq> CHR 0xE2"
  by (simp_all add: html_unsafe_def)

lemma quietD: "quiet c \<Longrightarrow> c \<noteq> quot \<and> c \<noteq> bslash \<and> \<not> html_unsafe c \<and> c \<noteq> CHR 0xE2 \<and> 32 \<le> code c"
  by (simp add: quiet_def)

lemma contents_scan: "contents b w \<Longrightarrow> scan_string (b @ quot # u) = Some u"
proof (induction rule: contents.induct)
  case (unsafe c b w)
  then have "c \<noteq> quot" "c \<noteq> bslash" "32 \<le> code c" by (auto simp: html_unsafe_def code_def of_char_def)
  then show ?case using unsafe by simp
qed (auto simp: code_def of_char_def)

lemma contents_squeeze: "contents b w \<Longrightarrow> squeeze True (b @ quot # u) = b @ quot # squeeze False u"
proof (induction rule: contents.induct)
  case (numbered h1 h2 h3 h4 b w)
  note q = hex_plain [OF numbered.hyps(1), THEN quietD]
  show ?case using q numbered.IH by simp
next
  case (unsafe c b w)
  then have "c \<noteq> quot" "c \<noteq> bslash" by (auto simp: html_unsafe_def)
  then show ?case using unsafe by simp
qed auto

lemma take_quot:
  assumes "d = CHR 0xA8 \<or> d = CHR 0xA9"
  shows "take 2 (b @ quot # u) = [CHR 0x80, d] \<longleftrightarrow> take 2 b = [CHR 0x80, d]"
  using assms by (cases b; cases "tl b") auto

lemma contents_escape: "contents b w \<Longrightarrow> escape_html (b @ quot # u) = w @ quot # escape_html u"
proof (induction rule: contents.induct)
  case nothing
  show ?case by (simp add: html_unsafe_def)
next
  case (escaped e b w)
  then show ?case using simple_escapes bslash_plain by (simp add: escape_plain del: escape_html.simps)
next
  case (numbered h1 h2 h3 h4 b w)
  note q = hex_plain [OF numbered.hyps(1), THEN quietD]
  show ?case using q numbered.IH bslash_plain by (simp add: escape_plain del: escape_html.simps)
next
  case (plain c b w)
  then have "take 2 (b @ quot # u) \<noteq> [CHR 0x80, CHR 0xA8]" "take 2 (b @ quot # u) \<noteq> [CHR 0x80, CHR 0xA9]" if "c = CHR 0xE2"
    using that take_quot by auto
  then show ?case using plain by (auto simp del: take_append drop_append)
qed (simp_all add: html_unsafe_def)

lemma u_escape_contents: "n < 65536 \<Longrightarrow> contents b w \<Longrightarrow> contents (u_escape n @ b) (u_escape n @ w)"
  using contents.numbered [of "hex_digit (n div 4096 mod 16)" "hex_digit (n div 256 mod 16)" "hex_digit (n div 16 mod 16)"
      "hex_digit (n mod 16)" b w] hex4_u_escape [of n] by (simp add: u_escape_def)

lemma u_escape_front: "take 2 (u_escape n @ w) = [bslash, CHR ''u'']" "hd (u_escape n @ w) = bslash"
  by (simp_all add: u_escape_def)

text \<open>What is written starts with a byte above ASCII only where the contents do.\<close>

lemma contents_hd: "contents b w \<Longrightarrow> w \<noteq> [] \<Longrightarrow> 128 \<le> code (hd w) \<Longrightarrow> \<exists>b' w'. b = hd w # b' \<and> w = hd w # w' \<and> contents b' w'"
  by (induction rule: contents.cases) (auto simp: code_chars u_escape_def)

lemma contents_take:
  assumes "contents b w" "take 2 w = [CHR 0x80, d]" "d = CHR 0xA8 \<or> d = CHR 0xA9"
  shows "take 2 b = [CHR 0x80, d]"
proof -
  obtain w1 where w: "w = CHR 0x80 # d # w1" using assms(2) by (cases w; cases "tl w") auto
  have "128 \<le> code (CHR 0x80)" "128 \<le> code d" using assms(3) by (auto simp: code_def of_char_def)
  then obtain b1 where b: "b = CHR 0x80 # b1" "contents b1 (d # w1)" using contents_hd [OF assms(1)] w by auto
  then obtain b2 where "b1 = d # b2" using contents_hd [OF b(2)] \<open>128 \<le> code d\<close> by auto
  then show ?thesis using b(1) by simp
qed

lemma contents_again: "contents b w \<Longrightarrow> contents w w"
proof (induction rule: contents.induct)
  case (unsafe c b w)
  then have "code c < 65536" by (auto simp: html_unsafe_def code_chars)
  then show ?case using u_escape_contents unsafe.IH by blast
next
  case (plain c b w)
  then show ?case using contents_take [OF plain.hyps(6)] by (intro contents.plain) auto
qed (auto intro: contents.intros u_escape_contents)

lemma thins_string:
  assumes "contents b w"
  shows "thins (quot # b @ [quot]) (quot # w @ [quot])"
  unfolding thins_def
proof (intro conjI allI exI [of _ "quot # b @ [quot]"])
  fix u
  show "squeeze False ((quot # b @ [quot]) @ u) = (quot # b @ [quot]) @ squeeze False u"
    using contents_squeeze [OF assms, of u] by (simp add: is_space_def)
  show "escape_html ((quot # b @ [quot]) @ u) = (quot # w @ [quot]) @ escape_html u"
    using contents_escape [OF assms, of u] bslash_plain by (simp add: escape_plain del: escape_html.simps)
  show "squeeze False ((quot # w @ [quot]) @ u) = (quot # w @ [quot]) @ squeeze False u"
    using contents_squeeze [OF contents_again [OF assms], of u] by (simp add: is_space_def)
  show "escape_html ((quot # w @ [quot]) @ u) = (quot # w @ [quot]) @ escape_html u"
    using contents_escape [OF contents_again [OF assms], of u] bslash_plain by (simp add: escape_plain del: escape_html.simps)
qed

section \<open>Numbers and words\<close>

definition numeric :: "char \<Rightarrow> bool" where
  "numeric c \<longleftrightarrow> is_digit c \<or> c \<in> set ''+-.eE''"

lemma digit_safe: "is_digit c \<Longrightarrow> \<not> html_unsafe c \<and> c \<noteq> CHR 0xE2"
proof -
  have "\<not> is_digit (CHR 0xE2)" "\<not> is_digit (CHR ''<'')" "\<not> is_digit (CHR ''>'')" "\<not> is_digit (CHR ''&'')"
    by (simp_all add: is_digit_def code_def of_char_def)
  then show "is_digit c \<Longrightarrow> \<not> html_unsafe c \<and> c \<noteq> CHR 0xE2" unfolding html_unsafe_def by blast
qed

lemma numeric_bare: "numeric c \<Longrightarrow> bare c \<and> c \<notin> set ''{[tfn'' \<and> c \<noteq> quot"
proof (cases "is_digit c")
  case True
  then show ?thesis using digit_plain [OF True] digit_safe [OF True] unfolding bare_def by blast
next
  case False
  assume "numeric c"
  then have "c \<in> set ''+-.eE''" using False by (simp add: numeric_def)
  moreover have "\<forall>c \<in> set ''+-.eE''. bare c \<and> c \<notin> set ''{[tfn'' \<and> c \<noteq> quot"
    by (simp add: bare_def html_unsafe_def is_space_def)
  ultimately show ?thesis by blast
qed

text \<open>A scanner that takes the same characters whatever follows, from a front of its own.\<close>

definition takes_numeric :: "(string \<Rightarrow> bool) \<Rightarrow> (string \<Rightarrow> bool) \<Rightarrow> (string \<Rightarrow> string option) \<Rightarrow> string \<Rightarrow> string \<Rightarrow> bool" where
  "takes_numeric front follow sc s r \<longleftrightarrow>
    (\<exists>v. s = v @ r \<and> list_all numeric v \<and> front v \<and> (\<forall>u. follow u \<longrightarrow> sc (v @ u) = Some u))"

definition no_digit :: "string \<Rightarrow> bool" where
  "no_digit u \<longleftrightarrow> u = [] \<or> \<not> is_digit (hd u)"

lemma digits1_taken:
  assumes "scan_digits1 s = Some r"
  shows "\<exists>v. s = v @ r \<and> v \<noteq> [] \<and> list_all is_digit v \<and> (\<forall>u. no_digit u \<longrightarrow> scan_digits1 (v @ u) = Some u)"
proof -
  obtain c t where s: "s = c # t" "is_digit c" "r = dropWhile is_digit t"
    using assms by (auto simp: scan_digits1_def split: list.splits if_splits)
  let ?v = "takeWhile is_digit t"
  have d: "list_all is_digit ?v" by (auto simp: list_all_iff dest: set_takeWhileD)
  have "dropWhile is_digit (?v @ u) = u" if "no_digit u" for u
    using that d by (cases u) (auto simp: no_digit_def list_all_iff dropWhile_append)
  then show ?thesis using s d by (intro exI [of _ "c # ?v"]) (auto simp: scan_digits1_def)
qed

definition sgn_part :: "string \<Rightarrow> string" where
  "sgn_part s = (case s of c # r \<Rightarrow> if c = CHR ''-'' then r else s | [] \<Rightarrow> s)"

definition int_part :: "string \<Rightarrow> string option" where
  "int_part s = (case s of [] \<Rightarrow> None | c # r \<Rightarrow> if c = CHR ''0'' then Some r else scan_digits1 s)"

definition frac_part :: "string \<Rightarrow> string option" where
  "frac_part s = (case s of [] \<Rightarrow> Some s | c # r \<Rightarrow> if c = CHR ''.'' then scan_digits1 r else Some s)"

definition expo_part :: "string \<Rightarrow> string option" where
  "expo_part s = (case s of [] \<Rightarrow> Some s
    | c # r \<Rightarrow> if c = CHR ''e'' \<or> c = CHR ''E'' then
         (case r of sg # r1 \<Rightarrow> if sg = CHR ''+'' \<or> sg = CHR ''-'' then scan_digits1 r1 else scan_digits1 r | [] \<Rightarrow> None)
       else Some s)"

lemma scan_number_parts: "scan_number s = Option.bind (Option.bind (int_part (sgn_part s)) frac_part) expo_part"
  by (simp only: scan_number_def Let_def int_part_def sgn_part_def frac_part_def [abs_def] expo_part_def [abs_def])

definition no_expo :: "string \<Rightarrow> bool" where
  "no_expo u \<longleftrightarrow> no_digit u \<and> (u = [] \<or> hd u \<noteq> CHR ''e'' \<and> hd u \<noteq> CHR ''E'')"

definition no_frac :: "string \<Rightarrow> bool" where
  "no_frac u \<longleftrightarrow> no_digit u \<and> (u = [] \<or> hd u \<noteq> CHR ''.'')"

lemma letters_no_digit: "\<not> is_digit (CHR ''e'')" "\<not> is_digit (CHR ''E'')" "\<not> is_digit (CHR ''.'')" "\<not> is_digit (CHR ''+'')" "\<not> is_digit (CHR ''-'')"
  by (simp_all add: is_digit_def code_def of_char_def)

lemma int_part_taken:
  assumes "int_part s = Some r"
  shows "takes_numeric (\<lambda>v. v \<noteq> [] \<and> is_digit (hd v)) no_digit int_part s r"
proof (cases "hd s = CHR ''0''")
  case True
  then have "s = CHR ''0'' # r" using assms by (cases s) (auto simp: int_part_def)
  then show ?thesis unfolding takes_numeric_def
    by (intro conjI exI [of _ "''0''"]) (auto simp: int_part_def numeric_def is_digit_def code_def of_char_def)
next
  case False
  then have d: "scan_digits1 s = Some r" using assms by (cases s) (auto simp: int_part_def)
  then obtain v where v: "s = v @ r" "v \<noteq> []" "list_all is_digit v" "\<forall>u. no_digit u \<longrightarrow> scan_digits1 (v @ u) = Some u"
    using digits1_taken by blast
  have "int_part (v @ u) = scan_digits1 (v @ u)" for u using v(1,2) False by (cases v) (auto simp: int_part_def)
  then show ?thesis using v unfolding takes_numeric_def
    by (auto simp: numeric_def list_all_iff intro!: exI [of _ v])
qed

lemma frac_part_taken: "frac_part s = Some r \<Longrightarrow> takes_numeric (\<lambda>v. v = [] \<or> hd v = CHR ''.'') no_frac frac_part s r"
proof (cases "s \<noteq> [] \<and> hd s = CHR ''.''")
  case True
  assume "frac_part s = Some r"
  then obtain t where t: "s = CHR ''.'' # t" "scan_digits1 t = Some r" using True by (cases s) (auto simp: frac_part_def)
  from digits1_taken [OF t(2)] obtain v where v: "t = v @ r" "list_all is_digit v" "\<forall>u. no_digit u \<longrightarrow> scan_digits1 (v @ u) = Some u" by blast
  then show ?thesis using t unfolding takes_numeric_def
    by (intro exI [of _ "CHR ''.'' # v"]) (auto simp: frac_part_def numeric_def list_all_iff no_frac_def)
next
  case False
  assume "frac_part s = Some r"
  then have "r = s" using False by (cases s) (auto simp: frac_part_def)
  then show ?thesis unfolding takes_numeric_def by (auto simp: frac_part_def no_frac_def split: list.splits)
qed

lemma expo_part_taken: "expo_part s = Some r \<Longrightarrow> takes_numeric (\<lambda>v. v = [] \<or> hd v = CHR ''e'' \<or> hd v = CHR ''E'') no_expo expo_part s r"
proof (cases "s \<noteq> [] \<and> (hd s = CHR ''e'' \<or> hd s = CHR ''E'')")
  case True
  assume e: "expo_part s = Some r"
  then obtain c sg t where s: "s = c # sg # t" "c = CHR ''e'' \<or> c = CHR ''E''"
    using True by (cases s) (auto simp: expo_part_def split: list.splits)
  obtain pre t1 where p: "sg # t = pre @ t1" "pre = [] \<and> sg \<noteq> CHR ''+'' \<and> sg \<noteq> CHR ''-'' \<or> pre = ''+'' \<or> pre = ''-''" "scan_digits1 t1 = Some r"
  proof (cases "sg = CHR ''+'' \<or> sg = CHR ''-''")
    case True
    then show ?thesis using e s that [of "[sg]" t] by (auto simp: expo_part_def)
  next
    case False
    then show ?thesis using e s that [of "[]" "sg # t"] by (auto simp: expo_part_def)
  qed
  from digits1_taken [OF p(3)] obtain v where v: "t1 = v @ r" "v \<noteq> []" "list_all is_digit v" "\<forall>u. no_digit u \<longrightarrow> scan_digits1 (v @ u) = Some u" by blast
  have "expo_part (c # pre @ v @ u) = scan_digits1 (v @ u)" for u
    using p(1,2) v(1,2) s(2) by (cases v) (auto simp: expo_part_def)
  then show ?thesis using s v p(1,2) unfolding takes_numeric_def
    by (intro exI [of _ "c # pre @ v"]) (auto simp: numeric_def list_all_iff no_expo_def)
next
  case False
  assume "expo_part s = Some r"
  then have "r = s" using False by (cases s) (auto simp: expo_part_def)
  then show ?thesis unfolding takes_numeric_def by (auto simp: expo_part_def no_expo_def split: list.splits)
qed

lemma number_taken:
  assumes "scan_number s = Some r"
  shows "\<exists>v. s = v @ r \<and> v \<noteq> [] \<and> list_all numeric v \<and> (\<forall>u. stops u \<longrightarrow> scan_number (v @ u) = Some u)"
proof -
  obtain a b where p: "int_part (sgn_part s) = Some a" "frac_part a = Some b" "expo_part b = Some r"
    using assms unfolding scan_number_parts by (auto simp: bind_eq_Some_conv)
  obtain i where i: "sgn_part s = i @ a" "list_all numeric i" "i \<noteq> []" "is_digit (hd i)" "\<And>u. no_digit u \<Longrightarrow> int_part (i @ u) = Some u"
    using int_part_taken [OF p(1)] unfolding takes_numeric_def by blast
  obtain f where f: "a = f @ b" "list_all numeric f" "f = [] \<or> hd f = CHR ''.''" "\<And>u. no_frac u \<Longrightarrow> frac_part (f @ u) = Some u"
    using frac_part_taken [OF p(2)] unfolding takes_numeric_def by blast
  obtain e where e: "b = e @ r" "list_all numeric e" "e = [] \<or> hd e = CHR ''e'' \<or> hd e = CHR ''E''" "\<And>u. no_expo u \<Longrightarrow> expo_part (e @ u) = Some u"
    using expo_part_taken [OF p(3)] unfolding takes_numeric_def by blast
  define pre where "pre = (if s \<noteq> [] \<and> hd s = CHR ''-'' then ''-'' else [])"
  have pre: "s = pre @ sgn_part s" "pre = [] \<or> pre = ''-''" by (cases s; simp add: sgn_part_def pre_def)+
  have "scan_number ((pre @ i @ f @ e) @ u) = Some u" if u: "stops u" for u
  proof -
    have n: "no_expo u" "no_frac u" "no_digit u"
      using stops_plain [OF u] u by (auto simp: no_expo_def no_frac_def no_digit_def stops_def char_tests)
    have f1: "no_frac (e @ u)" using n e(3) letters_no_digit by (cases e) (auto simp: no_frac_def no_digit_def)
    have i1: "no_digit (f @ e @ u)" using f1 f(3) letters_no_digit by (cases f) (auto simp: no_frac_def no_digit_def)
    have "hd i \<noteq> CHR ''-''" using i(4) letters_no_digit by auto
    then have "sgn_part (pre @ i @ f @ e @ u) = i @ f @ e @ u" using pre(2) i(3) by (cases i) (auto simp: sgn_part_def)
    then show ?thesis using i(5) [OF i1] f(4) [OF f1] e(4) [OF n(1)] by (simp add: scan_number_parts)
  qed
  moreover have "list_all numeric pre" using pre(2) by (auto simp: numeric_def)
  ultimately show ?thesis using pre(1) i f e by (intro exI [of _ "pre @ i @ f @ e"]) auto
qed

section \<open>Values\<close>

text \<open>A value that is scanned comes out as a value that is scanned.\<close>

definition recast :: "nat \<Rightarrow> string \<Rightarrow> string \<Rightarrow> bool" where
  "recast d v e \<longleftrightarrow> thins v e \<and> value_at d e"

lemma recastI:
  assumes "thins v e" "e \<noteq> []" "\<not> is_space (hd e)" "\<And>u. stops u \<Longrightarrow> scan_value d (e @ u) = Some u"
  shows "recast d v e"
  using assms unfolding recast_def value_at_def thins_def by blast

lemma scan_value_scalar:
  assumes "s \<noteq> []" "hd s \<noteq> CHR ''{''" "hd s \<noteq> CHR ''[''"
  shows "scan_value d s = scan_scalar s"
  using assms by (cases d; cases s) auto

lemma recast_word:
  assumes "w = ''true'' \<or> w = ''false'' \<or> w = ''null''"
  shows "recast d w w"
proof (rule recastI)
  have "list_all bare w" using assms by (auto simp: bare_def is_space_def html_unsafe_def)
  then show "thins w w" by (rule thins_bare)
  show "w \<noteq> []" "\<not> is_space (hd w)" using assms by (auto simp: is_space_def)
  fix u
  have "scan_value d (w @ u) = scan_scalar (w @ u)" using assms by (intro scan_value_scalar) auto
  also have "\<dots> = Some u" using assms by (auto simp: scan_scalar_def scan_word_def)
  finally show "scan_value d (w @ u) = Some u" .
qed

lemma recast_scalar:
  assumes "scan_scalar s = Some r"
  shows "\<exists>v e. s = v @ r \<and> recast d v e"
proof -
  obtain c t where s: "s = c # t" using assms by (cases s) (auto simp: scan_scalar_def)
  show ?thesis
  proof (cases "c = quot")
    case True
    then obtain b w where b: "t = b @ quot # r" "contents b w"
      using assms s scan_string_contents [of t r] by (auto simp: scan_scalar_def)
    have "recast d (quot # b @ [quot]) (quot # w @ [quot])"
    proof (rule recastI [OF thins_string [OF b(2)]])
      fix u
      have "scan_value d ((quot # w @ [quot]) @ u) = scan_scalar ((quot # w @ [quot]) @ u)" by (rule scan_value_scalar) simp_all
      then show "scan_value d ((quot # w @ [quot]) @ u) = Some u"
        using contents_scan [OF contents_again [OF b(2)], of u] by (simp add: scan_scalar_def)
    qed (simp_all add: is_space_def)
    then show ?thesis using s True b(1) by (intro exI [of _ "quot # b @ [quot]"] exI [of _ "quot # w @ [quot]"]) simp
  next
    case False
    show ?thesis
    proof (cases "c = CHR ''t'' \<or> c = CHR ''f'' \<or> c = CHR ''n''")
      case True
      define w where "w = (if c = CHR ''t'' then ''true'' else if c = CHR ''f'' then ''false'' else ''null'')"
      have w: "w = ''true'' \<or> w = ''false'' \<or> w = ''null''" "scan_word w s = Some r"
        using assms False True unfolding s w_def scan_scalar_def by (elim disjE; simp)+
      have "s = w @ r" using w(2) unfolding scan_word_def by (metis append_take_drop_id option.distinct(1) option.inject)
      then show ?thesis using recast_word [OF w(1)] by blast
    next
      case no: False
      then have "scan_number s = Some r" using assms s False by (simp add: scan_scalar_def)
      from number_taken [OF this] obtain v where v: "s = v @ r" "v \<noteq> []" "list_all numeric v" "\<And>u. stops u \<Longrightarrow> scan_number (v @ u) = Some u" by blast
      have h: "bare (hd v) \<and> hd v \<notin> set ''{[tfn'' \<and> hd v \<noteq> quot" using v(2,3) numeric_bare by (cases v) auto
      have b: "list_all bare v" using v(3) numeric_bare by (auto simp: list_all_iff)
      have "recast d v v"
      proof (rule recastI [OF thins_bare [OF b] v(2)])
        show "\<not> is_space (hd v)" using h by (simp add: bare_def)
        fix u assume u: "stops u"
        have "scan_value d (v @ u) = scan_scalar (v @ u)" using h v(2) by (intro scan_value_scalar) auto
        also have "\<dots> = scan_number (v @ u)" using h v(2) by (cases v) (auto simp: scan_scalar_def)
        finally show "scan_value d (v @ u) = Some u" using v(4) [OF u] by simp
      qed
      then show ?thesis using v(1) by blast
    qed
  qed
qed

section \<open>Objects and arrays\<close>

lemma value_at_facts:
  assumes "value_at d x"
  shows "x \<noteq> []" "skip_ws (x @ u) = x @ u" "stops u \<Longrightarrow> scan_value d (x @ u) = Some u"
  using assms skip_ws_id [of "x @ u"] unfolding value_at_def by auto

lemma stops_chars: "stops (CHR '','' # u)" "stops (CHR ''}'' # u)" "stops (CHR '']'' # u)"
  by (simp_all add: stops_def)

text \<open>One member of an object, and what comes after it.\<close>

lemma obj_items_member:
  assumes "contents w w" "value_at d x" "q = CHR ''}'' \<or> q = CHR '',''"
  shows "\<exists>member. obj_items (scan_value d) (Suc m) (quot # w @ quot # CHR '':'' # x @ q # u) =
    (if q = CHR ''}'' then Some ([member], u)
     else map_option (\<lambda>(ms, r). (member # ms, r)) (obj_items (scan_value d) m u))"
proof -
  have q: "stops (q # u)" "skip_ws (q # u) = q # u" using assms(3) stops_chars skip_chars by auto
  show ?thesis
    using assms(3) contents_scan [OF assms(1), of "CHR '':'' # x @ q # u"] value_at_facts [OF assms(2)] q skip_chars
    by (auto split: option.splits)
qed

lemma arr_items_element:
  assumes "value_at d x" "q = CHR '']'' \<or> q = CHR '',''"
  shows "arr_items (scan_value d) (Suc m) (x @ q # u) = (if q = CHR '']'' then Some u else arr_items (scan_value d) m u)"
proof -
  have "stops (q # u)" "skip_ws (q # u) = q # u" using assms(2) stops_chars skip_chars by (auto simp: skip_ws_def is_space_def)
  then show ?thesis using assms(2) value_at_facts [OF assms(1)] by auto
qed

lemma thins_join:
  assumes "thins ws []" "thins v e"
  shows "thins (ws @ v) e"
  using thins_append [OF assms] by simp

lemma thins_one: "bare c \<Longrightarrow> thins [c] [c]"
  by (rule thins_bare) simp

lemma obj_items_inv:
  assumes "obj_items sc (Suc n) s = Some (ms, r)"
  shows "\<exists>r0 r1 r2 r3 q r4. skip_ws s = quot # r0 \<and> scan_string r0 = Some r1 \<and> skip_ws r1 = CHR '':'' # r2 \<and>
    sc (skip_ws r2) = Some r3 \<and> skip_ws r3 = q # r4 \<and>
    (q = CHR ''}'' \<and> r = r4 \<or> q = CHR '','' \<and> (\<exists>ms'. obj_items sc n r4 = Some (ms', r)))"
  using assms by (auto simp: Let_def split: list.splits if_splits option.splits prod.splits)

lemma recast_obj_items:
  assumes sc: "\<And>s r. scan_value d s = Some r \<Longrightarrow> \<exists>v e. s = v @ r \<and> recast d v e"
    and "obj_items (scan_value d) n s = Some (ms, r)"
  shows "\<exists>v e. s = v @ r \<and> thins v e \<and> e \<noteq> [] \<and> hd e = quot \<and>
    (\<forall>m u. length e \<le> m \<longrightarrow> (\<exists>ms'. obj_items (scan_value d) m (e @ u) = Some (ms', u)))"
  using assms(2)
proof (induction n arbitrary: s ms)
  case (Suc n)
  obtain r0 r1 r2 r3 q r4 where p: "skip_ws s = quot # r0" "scan_string r0 = Some r1" "skip_ws r1 = CHR '':'' # r2"
    "scan_value d (skip_ws r2) = Some r3" "skip_ws r3 = q # r4" "q = CHR ''}'' \<or> q = CHR '',''"
    "q = CHR ''}'' \<Longrightarrow> r = r4" "q \<noteq> CHR ''}'' \<Longrightarrow> \<exists>ms'. obj_items (scan_value d) n r4 = Some (ms', r)"
    using obj_items_inv [OF Suc.prems] by force
  obtain b w where b: "r0 = b @ quot # r1" "contents b w" using scan_string_contents [OF p(2)] by blast
  obtain v3 e3 where v3: "skip_ws r2 = v3 @ r3" "thins v3 e3" "value_at d e3" using sc [OF p(4)] unfolding recast_def by blast
  obtain w0 w1 w2 w3 where ws: "s = w0 @ skip_ws s" "thins w0 []" "r1 = w1 @ skip_ws r1" "thins w1 []"
    "r2 = w2 @ skip_ws r2" "thins w2 []" "r3 = w3 @ skip_ws r3" "thins w3 []"
    using skip_split [of s] skip_split [of r1] skip_split [of r2] skip_split [of r3] by metis
  define v where "v = w0 @ (quot # b @ [quot]) @ w1 @ [CHR '':''] @ w2 @ v3 @ w3 @ [q]"
  define e where "e = (quot # w @ [quot]) @ [CHR '':''] @ e3 @ [q]"
  have s: "s = v @ r4" using ws p b(1) v3(1) unfolding v_def by (metis append.assoc append_Cons append_Nil)
  have "thins v e"
    unfolding v_def e_def using ws(2,4,6,8) thins_string [OF b(2)] v3(2) thins_one [of "CHR '':''"] thins_one [of q] brackets_bare p(6)
    by (intro thins_join thins_append) auto
  note step = obj_items_member [OF contents_again [OF b(2)] v3(3) p(6)]
  show ?case
  proof (cases "q = CHR ''}''")
    case True
    have "\<exists>ms'. obj_items (scan_value d) m (e @ u) = Some (ms', u)" if "length e \<le> m" for m u
      using step [of "m - 1" u] that True by (cases m) (auto simp: e_def)
    then show ?thesis using s True p(7) \<open>thins v e\<close> by (intro exI [of _ v] exI [of _ e]) (simp add: e_def)
  next
    case False
    from p(8) [OF False] Suc.IH obtain v' e' where i: "r4 = v' @ r" "thins v' e'"
      "\<forall>m u. length e' \<le> m \<longrightarrow> (\<exists>ms'. obj_items (scan_value d) m (e' @ u) = Some (ms', u))" by blast
    have "\<exists>ms'. obj_items (scan_value d) m ((e @ e') @ u) = Some (ms', u)" if m: "length (e @ e') \<le> m" for m u
    proof -
      obtain k where k: "m = Suc k" "length e' \<le> k" using m by (cases m) (auto simp: e_def)
      then obtain ms' where "obj_items (scan_value d) k (e' @ u) = Some (ms', u)" using i(3) by blast
      then show ?thesis using step [of k "e' @ u"] False k(1) by (auto simp: e_def)
    qed
    then show ?thesis using s i(1) thins_append [OF \<open>thins v e\<close> i(2)]
      by (intro exI [of _ "v @ v'"] exI [of _ "e @ e'"]) (simp add: e_def)
  qed
qed simp

lemma recast_arr_items:
  assumes sc: "\<And>s r. scan_value d s = Some r \<Longrightarrow> \<exists>v e. s = v @ r \<and> recast d v e"
    and "arr_items (scan_value d) n s = Some r"
  shows "\<exists>v e. s = v @ r \<and> thins v e \<and> e \<noteq> [] \<and> hd e \<noteq> CHR '']'' \<and> \<not> is_space (hd e) \<and>
    (\<forall>m u. length e \<le> m \<longrightarrow> arr_items (scan_value d) m (e @ u) = Some u)"
  using assms(2)
proof (induction n arbitrary: s)
  case (Suc n)
  obtain r1 q r2 where p: "scan_value d (skip_ws s) = Some r1" "skip_ws r1 = q # r2" "q = CHR '']'' \<or> q = CHR '',''"
    "q = CHR '']'' \<Longrightarrow> r = r2" "q \<noteq> CHR '']'' \<Longrightarrow> arr_items (scan_value d) n r2 = Some r"
    using Suc.prems by (auto split: list.splits if_splits option.splits)
  obtain v1 e1 where v1: "skip_ws s = v1 @ r1" "thins v1 e1" "value_at d e1" using sc [OF p(1)] unfolding recast_def by blast
  obtain w0 w1 where ws: "s = w0 @ skip_ws s" "thins w0 []" "r1 = w1 @ skip_ws r1" "thins w1 []"
    using skip_split [of s] skip_split [of r1] by metis
  define v where "v = w0 @ v1 @ w1 @ [q]"
  define e where "e = e1 @ [q]"
  have s: "s = v @ r2" using ws p v1(1) unfolding v_def by (metis append.assoc append_Cons append_Nil)
  have "thins v e"
    unfolding v_def e_def using ws(2,4) v1(2) thins_one [of q] brackets_bare p(3) by (intro thins_join thins_append) auto
  have h: "e1 \<noteq> []" "hd e1 \<noteq> CHR '']''" "\<not> is_space (hd e1)"
  proof -
    show "e1 \<noteq> []" "\<not> is_space (hd e1)" using v1(3) by (simp_all add: value_at_def)
    have "scan_value d (e1 @ []) = Some []" using v1(3) unfolding value_at_def by (simp add: stops_def)
    moreover have "scan_value d (CHR '']'' # x) = None" for x
      by (cases d) (simp_all add: scan_scalar_def scan_number_def scan_digits1_def char_tests)
    ultimately show "hd e1 \<noteq> CHR '']''" using \<open>e1 \<noteq> []\<close> by (cases e1) auto
  qed
  note step = arr_items_element [OF v1(3) p(3)]
  show ?case
  proof (cases "q = CHR '']''")
    case True
    have "arr_items (scan_value d) m (e @ u) = Some u" if "length e \<le> m" for m u
      using step [of "m - 1" u] that True by (cases m) (auto simp: e_def)
    then show ?thesis using s True p(4) \<open>thins v e\<close> h by (intro exI [of _ v] exI [of _ e]) (simp add: e_def)
  next
    case False
    from Suc.IH [OF p(5) [OF False]] obtain v' e' where i: "r2 = v' @ r" "thins v' e'"
      "\<forall>m u. length e' \<le> m \<longrightarrow> arr_items (scan_value d) m (e' @ u) = Some u" by blast
    have "arr_items (scan_value d) m ((e @ e') @ u) = Some u" if m: "length (e @ e') \<le> m" for m u
    proof -
      obtain k where k: "m = Suc k" "length e' \<le> k" using m by (cases m) (auto simp: e_def)
      then show ?thesis using i(3) step [of k "e' @ u"] False by (auto simp: e_def)
    qed
    then show ?thesis using s i(1) thins_append [OF \<open>thins v e\<close> i(2)] h
      by (intro exI [of _ "v @ v'"] exI [of _ "e @ e'"]) (simp add: e_def)
  qed
qed simp

lemma recast_object:
  assumes sc: "\<And>s r. scan_value d s = Some r \<Longrightarrow> \<exists>v e. s = v @ r \<and> recast d v e"
    and "scan_object (scan_value d) t = Some (ms, r)"
  shows "\<exists>v e. CHR ''{'' # t = v @ r \<and> recast (Suc d) v e"
proof (cases "\<exists>q. skip_ws t = CHR ''}'' # q")
  case True
  then have q: "skip_ws t = CHR ''}'' # r" using assms(2) by (auto simp: scan_object_def)
  obtain ws where ws: "t = ws @ skip_ws t" "thins ws []" using skip_split by blast
  have th: "thins ([CHR ''{''] @ ws @ [CHR ''}'']) ([CHR ''{''] @ [CHR ''}''])"
    using thins_one brackets_bare ws(2) by (intro thins_append thins_join) simp_all
  have "recast (Suc d) ([CHR ''{''] @ ws @ [CHR ''}'']) ([CHR ''{''] @ [CHR ''}''])"
    by (rule recastI [OF th]) (simp_all add: is_space_def scan_object_def skip_ws_def)
  moreover have "CHR ''{'' # t = ([CHR ''{''] @ ws @ [CHR ''}'']) @ r" using ws(1) q by simp
  ultimately show ?thesis by blast
next
  case False
  then have o: "obj_items (scan_value d) (length t) t = Some (ms, r)"
    using assms(2) by (auto simp: scan_object_def split: list.splits if_splits)
  from recast_obj_items [OF sc o] obtain v e where v: "t = v @ r" "thins v e" "e \<noteq> []" "hd e = quot"
    "\<And>m u. length e \<le> m \<Longrightarrow> \<exists>ms'. obj_items (scan_value d) m (e @ u) = Some (ms', u)" by blast
  have th: "thins ([CHR ''{''] @ v) ([CHR ''{''] @ e)" using thins_one brackets_bare v(2) by (intro thins_append) simp_all
  have "recast (Suc d) ([CHR ''{''] @ v) ([CHR ''{''] @ e)"
  proof (rule recastI [OF th])
    fix u
    obtain e1 where e: "e = quot # e1" using v(3,4) by (cases e) auto
    obtain ms' where "obj_items (scan_value d) (length (e @ u)) (e @ u) = Some (ms', u)" using v(5) [of "length (e @ u)" u] by auto
    then have "scan_object (scan_value d) (e @ u) = Some (ms', u)" using skip_chars by (simp add: scan_object_def e)
    then show "scan_value (Suc d) (([CHR ''{''] @ e) @ u) = Some u" by simp
  qed (simp_all add: is_space_def)
  then show ?thesis using v(1) by (intro exI [of _ "[CHR ''{''] @ v"] exI [of _ "[CHR ''{''] @ e"]) simp
qed

lemma recast_array:
  assumes sc: "\<And>s r. scan_value d s = Some r \<Longrightarrow> \<exists>v e. s = v @ r \<and> recast d v e"
    and "scan_array (scan_value d) t = Some r"
  shows "\<exists>v e. CHR ''['' # t = v @ r \<and> recast (Suc d) v e"
proof (cases "\<exists>q. skip_ws t = CHR '']'' # q")
  case True
  then have q: "skip_ws t = CHR '']'' # r" using assms(2) by (auto simp: scan_array_def)
  obtain ws where ws: "t = ws @ skip_ws t" "thins ws []" using skip_split by blast
  have th: "thins ([CHR ''[''] @ ws @ [CHR '']'']) ([CHR ''[''] @ [CHR '']''])"
    using thins_one brackets_bare ws(2) by (intro thins_append thins_join) simp_all
  have "recast (Suc d) ([CHR ''[''] @ ws @ [CHR '']'']) ([CHR ''[''] @ [CHR '']''])"
    by (rule recastI [OF th]) (simp_all add: is_space_def scan_array_def skip_ws_def)
  moreover have "CHR ''['' # t = ([CHR ''[''] @ ws @ [CHR '']'']) @ r" using ws(1) q by simp
  ultimately show ?thesis by blast
next
  case False
  then have o: "arr_items (scan_value d) (length t) t = Some r"
    using assms(2) by (auto simp: scan_array_def split: list.splits if_splits)
  from recast_arr_items [OF sc o] obtain v e where v: "t = v @ r" "thins v e" "e \<noteq> []" "hd e \<noteq> CHR '']''" "\<not> is_space (hd e)"
    "\<And>m u. length e \<le> m \<Longrightarrow> arr_items (scan_value d) m (e @ u) = Some u" by blast
  have th: "thins ([CHR ''[''] @ v) ([CHR ''[''] @ e)" using thins_one brackets_bare v(2) by (intro thins_append) simp_all
  have "recast (Suc d) ([CHR ''[''] @ v) ([CHR ''[''] @ e)"
  proof (rule recastI [OF th])
    fix u
    obtain c e1 where e: "e = c # e1" using v(3) by (cases e) auto
    have "skip_ws (e @ u) = e @ u" using v(3,5) by (simp add: skip_ws_id)
    moreover have "arr_items (scan_value d) (length (e @ u)) (e @ u) = Some u" using v(6) by simp
    ultimately have "scan_array (scan_value d) (e @ u) = Some u" using v(4) e by (simp add: scan_array_def del: arr_items.simps)
    then show "scan_value (Suc d) (([CHR ''[''] @ e) @ u) = Some u" by simp
  qed (simp_all add: is_space_def)
  then show ?thesis using v(1) by (intro exI [of _ "[CHR ''[''] @ v"] exI [of _ "[CHR ''[''] @ e"]) simp
qed

lemma recast_value: "scan_value d s = Some r \<Longrightarrow> \<exists>v e. s = v @ r \<and> recast d v e"
proof (induction d arbitrary: s r)
  case 0
  then have "scan_scalar s = Some r" by (cases s) (auto split: if_splits)
  then show ?case by (rule recast_scalar)
next
  case (Suc d)
  obtain c t where s: "s = c # t" using Suc.prems by (cases s) auto
  consider "c = CHR ''{''" | "c = CHR ''[''" | "c \<noteq> CHR ''{''" "c \<noteq> CHR ''[''" by blast
  then show ?case
  proof cases
    case 1
    then obtain ms where "scan_object (scan_value d) t = Some (ms, r)" using Suc.prems s by auto
    then show ?thesis using recast_object [OF Suc.IH] s 1 by blast
  next
    case 2
    then have "scan_array (scan_value d) t = Some r" using Suc.prems s by auto
    then show ?thesis using recast_array [OF Suc.IH] s 2 by blast
  next
    case 3
    then show ?thesis using Suc.prems s recast_scalar by simp
  qed
qed

section \<open>What is written for JSON\<close>

text \<open>A text that is one value in at most so many nested brackets.\<close>

definition fits :: "nat \<Rightarrow> string \<Rightarrow> bool" where
  "fits d s \<longleftrightarrow> (\<exists>r. scan_value d (skip_ws s) = Some r \<and> skip_ws r = [])"

lemma fits_Valid: "fits maxNestingDepth s \<longleftrightarrow> Valid s"
  by (auto simp: fits_def Valid_def split: option.splits)

lemma fits_recast: "fits d s \<Longrightarrow> value_at d (escape_html (squeeze False s))"
proof -
  assume "fits d s"
  then obtain r where r: "scan_value d (skip_ws s) = Some r" "skip_ws r = []" unfolding fits_def by blast
  obtain v e where v: "skip_ws s = v @ r" "thins v e" "value_at d e" using recast_value [OF r(1)] unfolding recast_def by blast
  obtain w0 w1 where ws: "s = w0 @ skip_ws s" "thins w0 []" "r = w1 @ skip_ws r" "thins w1 []"
    using skip_split [of s] skip_split [of r] by metis
  have "thins (w0 @ v @ w1) (e @ [])" by (rule thins_join [OF ws(2) thins_append [OF v(2) ws(4)]])
  moreover have "w0 @ v @ w1 = s" using ws(1,3) v(1) r(2) by simp
  ultimately have "thins s e" by simp
  then obtain w where "\<And>u. squeeze False (s @ u) = w @ squeeze False u" "\<And>u. escape_html (w @ u) = e @ escape_html u"
    unfolding thins_def by blast
  from this(1) [of "[]"] this(2) [of "[]"] have "escape_html (squeeze False s) = e" by simp
  then show ?thesis using v(3) by simp
qed

text \<open>One more bracket is allowed, so the same text still fits.\<close>

lemma items_mono:
  assumes "\<And>s r. sc s = Some r \<Longrightarrow> sc' s = Some r"
  shows "obj_items sc n s = Some x \<Longrightarrow> obj_items sc' n s = Some x" "arr_items sc n s = Some r \<Longrightarrow> arr_items sc' n s = Some r"
proof (induction n arbitrary: s x r)
  case (Suc n)
  {
    case 1
    then show ?case using Suc.IH(1) assms
      by (auto simp: Let_def split: list.splits if_splits option.splits prod.splits) (fastforce+)?
  next
    case 2
    then show ?case using Suc.IH(2) assms by (auto split: list.splits if_splits option.splits) (fastforce+)?
  }
qed simp_all

lemma scan_value_mono: "scan_value d s = Some r \<Longrightarrow> scan_value (Suc d) s = Some r"
proof (induction d arbitrary: s r)
  case 0
  then show ?case by (cases s) (auto split: if_splits)
next
  case (Suc d)
  have "obj_items (scan_value d) n t = Some x \<Longrightarrow> obj_items (scan_value (Suc d)) n t = Some x"
    "arr_items (scan_value d) n t = Some q \<Longrightarrow> arr_items (scan_value (Suc d)) n t = Some q" for n t x q
    by (rule items_mono; use Suc.IH in blast)+
  then have "scan_object (scan_value d) t = Some x \<Longrightarrow> scan_object (scan_value (Suc d)) t = Some x"
    "scan_array (scan_value d) t = Some q \<Longrightarrow> scan_array (scan_value (Suc d)) t = Some q" for t x q
    by (simp_all add: scan_object_def scan_array_def split: list.splits if_splits del: scan_value.simps)
  note mono = this
  obtain c t where s: "s = c # t" using Suc.prems by (cases s) auto
  have v: "scan_value (Suc k) (c # t) = (if c = CHR ''{'' then map_option snd (scan_object (scan_value k) t)
      else if c = CHR ''['' then scan_array (scan_value k) t else scan_scalar (c # t))" for k by simp
  show ?case
  proof (cases "c = CHR ''{''")
    case True
    then obtain ms where "scan_object (scan_value d) t = Some (ms, r)" using Suc.prems unfolding s v by auto
    from mono(1) [OF this] show ?thesis unfolding s v using True by simp
  next
    case False
    then show ?thesis using Suc.prems mono(2) [of t r] unfolding s v by (simp del: scan_value.simps split: if_splits)
  qed
qed

lemma fits_Suc: "fits d s \<Longrightarrow> fits (Suc d) s"
  unfolding fits_def using scan_value_mono by blast

lemma fits_mono:
  assumes "d \<le> d'" "fits d s"
  shows "fits d' s"
  using assms(1) by (induction rule: dec_induct) (use assms(2) fits_Suc in blast)+

text \<open>
  What \<open>Marshal\<close> writes for a \<open>RawMessage\<close>: JSON of the same depth, which compacting and escaping
  leave alone from then on.
\<close>

lemma marshal_fits:
  assumes "fits d s" "d \<le> maxNestingDepth"
  shows "marshal_raw s = Some (escape_html (squeeze False s)) \<and> value_at d (escape_html (squeeze False s))"
  using fits_mono [OF assms(2,1)] fits_recast [OF assms(1)] by (simp add: marshal_raw_def Compact_def fits_Valid)

end
