(* ===== verification/Joaju_Relay.thy ===== *)
theory Joaju_Relay
  imports Pusher_Broker Json_Compact
begin

text \<open>
  \<^verbatim>\<open>scaling.go\<close>: what one instance does to be part of a fleet. A relay publishes what the
  instance received on a topic of the channel, delivers what the other instances published to the
  channels this one holds, and says once that the bus went away and once that it is back. The
  broker in front of it joins the topic of a channel that comes into existence here and leaves
  the topic of one that is gone. The bus is an interface (\<open>Bus\<close>): what publishing answers may
  depend on everything this instance published before, so a bus is a function of that record.

  The contract of a registry is discharged for the broker that relays, and the fleet itself, its
  instances interleaved over the bus, is the theory \<open>Joaju_Fanout\<close>.
\<close>

section \<open>Topics\<close>

type_synonym InstanceID = string

definition DefaultRetryInterval :: int where "DefaultRetryInterval = 1000000000"
definition TopicPrefix :: string where "TopicPrefix = ''joaju:''"
definition DefaultMetricsTimeout :: int where "DefaultMetricsTimeout = 500000000"
definition MetricsTopic :: string where "MetricsTopic = TopicPrefix @ ''metrics''"

definition Topic :: "('g, 's) hesape \<Rightarrow> ChannelName \<Rightarrow> string" where
  "Topic H name = (if IsZero name then [] else TopicPrefix @ name_String H name)"

definition MetricsReplyTopic :: "InstanceID \<Rightarrow> string" where
  "MetricsReplyTopic iid = MetricsTopic @ ''/'' @ iid"

section \<open>What instances say to each other\<close>

record relayMessage =
  rm_Origin :: InstanceID
  rm_Event :: string
  rm_Channel :: string
  rm_Data :: string
  rm_Socket :: SocketID
  rm_UserID :: string

record fleetQuestion =
  fq_Origin :: InstanceID
  fq_Request :: string
  fq_Tenant :: string
  fq_Channel :: string

record channelAnswer =
  ca_Subscriptions :: int
  ca_Users :: "string list"

record fleetAnswer =
  fa_Origin :: InstanceID
  fa_Request :: string
  fa_Tenant :: string
  fa_Connections :: int
  fa_Channels :: "(string \<times> channelAnswer) list"

text \<open>\<open>omitempty\<close> on a string.\<close>

definition omitempty :: "string \<Rightarrow> string \<Rightarrow> (string \<times> string) list" where
  "omitempty k v = (if v = [] then [] else [(k, json_string v)])"

definition marshal_message :: "relayMessage \<Rightarrow> string option" where
  "marshal_message m =
    (let front = [(''origin'', json_string (rm_Origin m)), (''event'', json_string (rm_Event m)),
           (''channel'', json_string (rm_Channel m))];
         back = omitempty ''socket'' (rm_Socket m) @ omitempty ''user_id'' (rm_UserID m)
     in if rm_Data m = [] then Some (json_object (front @ back))
        else case marshal_raw (rm_Data m) of
           None \<Rightarrow> None
         | Some d \<Rightarrow> Some (json_object (front @ [(''data'', d)] @ back)))"

definition message_fields :: "string list" where
  "message_fields = [''origin'', ''event'', ''channel'', ''data'', ''socket'', ''user_id'']"

definition unmarshal_message :: "string \<Rightarrow> relayMessage option" where
  "unmarshal_message payload =
    (case members payload of None \<Rightarrow> None
     | Some ms \<Rightarrow>
        let str = (\<lambda>f. string_field message_fields f ms []) in
        (case (str ''origin'', str ''event'', str ''channel'', str ''socket'', str ''user_id'') of
           (Some og, Some e, Some ch, Some s, Some u) \<Rightarrow>
             Some \<lparr>rm_Origin = og, rm_Event = e, rm_Channel = ch, rm_Data = raw_field message_fields ''data'' ms [],
               rm_Socket = s, rm_UserID = u\<rparr>
         | _ \<Rightarrow> None))"

section \<open>The relay\<close>

text \<open>The lines of the log: the two the state of the bus is reported with, and the others.\<close>

datatype relay_line =
    LineUnreachable string ChannelName
  | LineReached
  | LineWarn string
  | LineError string

text \<open>
  One goroutine that listens on a topic for a channel, whether its context was cancelled, and whether
  its subscription stands: it does not yet when the goroutine starts, nor while it waits to try again.
  A channel is a reference into the heap of the broker.
\<close>

record listener =
  ls_topic :: string
  ls_channel :: nat
  ls_cancelled :: bool
  ls_subscribed :: bool

record relay =
  rl_id :: InstanceID
  has_bus :: bool
  degraded :: bool
  joined :: "(string \<times> nat) list"
  listeners :: "listener list"
  rl_closed :: bool
  attached :: bool
  rl_wait :: int
  pending :: "(string \<times> fleetAnswer list) list"
  published :: "(string \<times> string) list"
  lines :: "relay_line list"

type_synonym bus = "(string \<times> string) list \<Rightarrow> string \<Rightarrow> string \<Rightarrow> string + int"

definition ErrRelayClosed :: jerr where
  "ErrRelayClosed = ErrOther ''joaju: the relay is closed''"

text \<open>The context is nil, ended with an error, or alive.\<close>

datatype context_arg = NilContext | Ended string | Alive

definition NewRelay :: "context_arg \<Rightarrow> InstanceID \<Rightarrow> bool \<Rightarrow> jerr + relay" where
  "NewRelay ctx iid bus =
    (case ctx of
       NilContext \<Rightarrow> Inl (ErrOther ''joaju: a relay needs the server's context'')
     | Ended err \<Rightarrow> Inl (ErrOther (''joaju: a relay cannot start after the server's context ended: '' @ err))
     | Alive \<Rightarrow>
         if iid = [] then
           Inl (ErrOther ''joaju: a relay needs an instance id, or it cannot tell its own messages from its neighbours'')
         else
           Inr \<lparr>rl_id = iid, has_bus = bus, degraded = \<not> bus, joined = [], listeners = [], rl_closed = False,
             attached = False, rl_wait = DefaultMetricsTimeout, pending = [], published = [],
             lines = (if bus then [] else [LineWarn ''joaju: the relay has no message bus''])\<rparr>)"

definition relay_fail :: "string \<Rightarrow> ChannelName \<Rightarrow> relay \<Rightarrow> relay" where
  "relay_fail operation name r =
    (if degraded r then r else r\<lparr>lines := lines r @ [LineUnreachable operation name], degraded := True\<rparr>)"

definition recovered :: "relay \<Rightarrow> relay" where
  "recovered r = (if \<not> degraded r then r else r\<lparr>lines := lines r @ [LineReached], degraded := False\<rparr>)"

definition warn :: "string \<Rightarrow> relay \<Rightarrow> relay" where
  "warn what r = r\<lparr>lines := lines r @ [LineWarn what]\<rparr>"

definition log_error :: "string \<Rightarrow> relay \<Rightarrow> relay" where
  "log_error what r = r\<lparr>lines := lines r @ [LineError what]\<rparr>"

text \<open>A channel given to \<open>Join\<close>: the reference, and the name it answers; nil is \<open>None\<close>.\<close>

definition relay_Join :: "('g, 's) hesape \<Rightarrow> 'g \<Rightarrow> (nat \<times> ChannelName) option \<Rightarrow> relay \<Rightarrow> jerr option \<times> relay" where
  "relay_Join H g ch r =
    (case ch of
       None \<Rightarrow> (Some (ErrOther ''joaju: the relay was given no channel to join''), r)
     | Some (ref, name) \<Rightarrow>
         if IsZero name then (Some (ErrOther ''joaju: the relay was given a channel with no name''), r)
         else case Check H g (ChannelJoin H) of
           Some err \<Rightarrow> (Some err, r)
         | None \<Rightarrow>
             if auth_Tenant H g \<noteq> tenant name then (Some ErrWrongTenant, r)
             else
               let topic = Topic H name in
               if rl_closed r then (Some ErrRelayClosed, r)
               else if map_of (joined r) topic \<noteq> None then (None, r)
               else
                 let r1 = r\<lparr>joined := AList.update topic ref (joined r)\<rparr> in
                 if \<not> has_bus r1 then (None, r1)
                 else (None, r1\<lparr>listeners := listeners r1 @ [\<lparr>ls_topic = topic, ls_channel = ref, ls_cancelled = False, ls_subscribed = False\<rparr>]\<rparr>))"

text \<open>Cancelling a context stops the goroutine that holds it at its next turn.\<close>

definition cancel_on :: "string \<Rightarrow> listener list \<Rightarrow> listener list" where
  "cancel_on topic ls = map (\<lambda>l. if ls_topic l = topic then l\<lparr>ls_cancelled := True\<rparr> else l) ls"

definition relay_Leave :: "('g, 's) hesape \<Rightarrow> ChannelName \<Rightarrow> relay \<Rightarrow> jerr option \<times> relay" where
  "relay_Leave H name r =
    (if IsZero name then (Some (ErrOther ''joaju: the relay was given a channel with no name''), r)
     else
       let topic = Topic H name;
           held = map_of (joined r) topic;
           r1 = r\<lparr>joined := AList.delete topic (joined r)\<rparr>
       in if held \<noteq> None then (None, r1\<lparr>listeners := cancel_on topic (listeners r1)\<rparr>) else (None, r1))"

definition relay_Joined :: "relay \<Rightarrow> nat" where
  "relay_Joined r = length (joined r)"

text \<open>One call of the bus: what it answers, and the record of the call.\<close>

definition bus_Publish :: "bus \<Rightarrow> string \<Rightarrow> string \<Rightarrow> relay \<Rightarrow> (string + int) \<times> relay" where
  "bus_Publish B topic message r = (B (published r) topic message, r\<lparr>published := published r @ [(topic, message)]\<rparr>)"

definition relay_Publish :: "('g, 's) hesape \<Rightarrow> bus \<Rightarrow> Event \<Rightarrow> relay \<Rightarrow> jerr option \<times> relay" where
  "relay_Publish H B e r =
    (if IsZero (ev_Channel e) then (Some (ErrOther ''joaju: the relay was given an event with no channel''), r)
     else if ev_Name e = [] then (Some (ErrOther ''joaju: the relay was given an event with no name''), r)
     else if rl_closed r then (Some ErrRelayClosed, r)
     else if \<not> has_bus r then (None, r)
     else case marshal_message \<lparr>rm_Origin = rl_id r, rm_Event = ev_Name e, rm_Channel = requested (ev_Channel e),
            rm_Data = ev_Data e, rm_Socket = ev_Socket e, rm_UserID = ev_UserID e\<rparr> of
       None \<Rightarrow> (Some (ErrOther ''joaju: the event could not be encoded for the fleet''), r)
     | Some document \<Rightarrow>
         (case bus_Publish B (Topic H (ev_Channel e)) document r of
            (Inl err, r1) \<Rightarrow> (None, relay_fail ''publish'' (ev_Channel e) r1)
          | (Inr _, r1) \<Rightarrow> (None, recovered r1)))"

definition relay_carry :: "('g, 's) hesape \<Rightarrow> bus \<Rightarrow> Event \<Rightarrow> relay \<Rightarrow> relay" where
  "relay_carry H B e r =
    (case relay_Publish H B e r of
       (Some err, r1) \<Rightarrow> log_error ''joaju: an event was not handed to the fleet'' r1
     | (None, r1) \<Rightarrow> r1)"

text \<open>\<open>Close\<close>, up to the wait for the goroutines it stopped.\<close>

definition relay_close :: "relay \<Rightarrow> relay" where
  "relay_close r =
    (if rl_closed r then r
     else r\<lparr>rl_closed := True, joined := [], listeners := map (\<lambda>l. l\<lparr>ls_cancelled := True\<rparr>) (listeners r)\<rparr>)"

text \<open>
  One message that arrived for a channel: the name is the channel's own, which is the one the
  subscription was joined with.
\<close>

definition relay_deliver :: "('g, 's) hesape \<Rightarrow> sink \<Rightarrow> string \<Rightarrow> relay \<Rightarrow> 'g channel \<times> outbox \<Rightarrow> relay \<times> 'g channel \<times> outbox" where
  "relay_deliver H s payload r0 = (\<lambda>(c, w).
    (let r = recovered r0; name = ch_name c in
     case unmarshal_message payload of
       None \<Rightarrow> (warn ''joaju: the relay dropped a message it could not decode'' r, c, w)
     | Some message \<Rightarrow>
         if rm_Origin message = rl_id r then (r, c, w)
         else if rm_Origin message = [] then
           (warn ''joaju: the relay dropped a message that names no instance of origin'' r, c, w)
         else if rm_Channel message \<noteq> requested name then
           (warn ''joaju: the relay dropped a message addressed to another channel'' r, c, w)
         else
           let event = \<lparr>ev_Name = rm_Event message, ev_Channel = name, ev_Data = rm_Data message,
                 ev_Socket = rm_Socket message, ev_UserID = rm_UserID message\<rparr>
           in (case Broadcast H s event (c, w) of
                 (Some err, c1, w1) \<Rightarrow> (log_error ''joaju: the relay could not deliver a relayed message'' r, c1, w1)
               | (None, c1, w1) \<Rightarrow> (r, c1, w1))))"

section \<open>The broker that relays\<close>

text \<open>A broker as the wiring has it: bare, or wrapped around a relay. Nil is \<open>None\<close>.\<close>

datatype ('b, 'r) wired = Bare 'b | Wrapped 'b 'r

definition RelayedBroker :: "('b, 'r) wired option \<Rightarrow> 'r option \<Rightarrow> ('b, 'r) wired option" where
  "RelayedBroker base rly =
    (case (base, rly) of
       (Some (Bare b), Some r) \<Rightarrow> Some (Wrapped b r)
     | _ \<Rightarrow> base)"

definition relayed_FindOrCreate :: "('g, 's) hesape \<Rightarrow> 'g \<Rightarrow> ChannelName \<Rightarrow> 'g broker \<times> relay \<Rightarrow>
    (jerr + nat) \<times> 'g broker \<times> relay" where
  "relayed_FindOrCreate H g name = (\<lambda>(b, r).
    (case FindOrCreate H g name b of
       (Inl err, b1) \<Rightarrow> (Inl err, b1, r)
     | (Inr ref, b1) \<Rightarrow>
         (case relay_Join H g (Some (ref, ch_name (heap b1 ! ref))) r of
            (Some err, r1) \<Rightarrow> (Inl err, b1, r1)
          | (None, r1) \<Rightarrow> (Inr ref, b1, r1))))"

definition relayed_Remove :: "('g, 's) hesape \<Rightarrow> 'g \<Rightarrow> ChannelName \<Rightarrow> 'g broker \<times> relay \<Rightarrow>
    jerr option \<times> 'g broker \<times> relay" where
  "relayed_Remove H g name = (\<lambda>(b, r).
    (case Remove H g name b of
       (Some err, b1) \<Rightarrow> (Some err, b1, r)
     | (None, b1) \<Rightarrow>
         (case Find H g name b1 of
            Inl err \<Rightarrow>
              if is_no_channel err then (case relay_Leave H name r of (e, r1) \<Rightarrow> (e, b1, r1)) else (None, b1, r)
          | Inr _ \<Rightarrow> (None, b1, r))))"

definition relayed_Find :: "('g, 's) hesape \<Rightarrow> 'g \<Rightarrow> ChannelName \<Rightarrow> 'g broker \<times> relay \<Rightarrow> jerr + nat" where
  "relayed_Find H g name = (\<lambda>(b, r). Find H g name b)"

definition relayed_Carry :: "('g, 's) hesape \<Rightarrow> bus \<Rightarrow> Event \<Rightarrow> 'g broker \<times> relay \<Rightarrow> 'g broker \<times> relay" where
  "relayed_Carry H B e = (\<lambda>(b, r). (b, relay_carry H B e r))"

section \<open>Topics are apart\<close>

lemma Topic_key: "\<not> IsZero n \<Longrightarrow> Topic H n = TopicPrefix @ name_String H n"
  by (simp add: Topic_def)

lemma Topic_inj:
  assumes "hesape_documented H" "plain_name m" "plain_name n"
  shows "Topic H m = Topic H n \<longleftrightarrow> m = n"
  using assms key_plain [OF assms] by (auto simp: Topic_def plain_name_def)

text \<open>
  A topic of the fleet's own is nobody's channel: a tenant holds no separator, and no \<open>/\<close>
  either, which is what keeps the topic of the answers apart.
\<close>

lemma Topic_not_metrics:
  assumes "hesape_documented H" "plain_name n"
  shows "Topic H n \<noteq> MetricsTopic"
proof
  assume "Topic H n = MetricsTopic"
  then have "tenant n @ CHR '':'' # requested n = ''metrics''"
    using assms by (simp add: Topic_def MetricsTopic_def name_String_def plain_name_def hesape_documented_def)
  then have "CHR '':'' \<in> set ''metrics''" by (metis in_set_conv_decomp)
  then show False by simp
qed

lemma Topic_not_reply:
  assumes "hesape_documented H" "plain_name n" "CHR ''/'' \<notin> set (tenant n)"
  shows "Topic H n \<noteq> MetricsReplyTopic iid"
proof
  assume "Topic H n = MetricsReplyTopic iid"
  then have e: "tenant n @ CHR '':'' # requested n = ''metrics'' @ CHR ''/'' # iid"
    using assms by (simp add: Topic_def MetricsReplyTopic_def MetricsTopic_def name_String_def plain_name_def hesape_documented_def)
  have "takeWhile (\<lambda>c. c \<noteq> CHR ''/'') (tenant n @ CHR '':'' # requested n) =
      tenant n @ CHR '':'' # takeWhile (\<lambda>c. c \<noteq> CHR ''/'') (requested n)"
    using assms(3) by (subst takeWhile_append2) auto
  moreover have "takeWhile (\<lambda>c. c \<noteq> CHR ''/'') (''metrics'' @ CHR ''/'' # iid) = ''metrics''" by simp
  ultimately have "tenant n @ CHR '':'' # takeWhile (\<lambda>c. c \<noteq> CHR ''/'') (requested n) = ''metrics''" using e by simp
  then have "CHR '':'' \<in> set ''metrics''" by (metis in_set_conv_decomp)
  then show False by simp
qed

section \<open>An instance hears what it holds\<close>

definition live :: "relay \<Rightarrow> (string \<times> nat) set" where
  "live r = set (map (\<lambda>l. (ls_topic l, ls_channel l)) (filter (\<lambda>l. \<not> ls_cancelled l) (listeners r)))"

text \<open>
  The channels the broker holds are the channels whose topic the relay has joined, each for the
  very channel that is held, and on a bus each has a goroutine that listens.
\<close>

definition in_step :: "('g, 's) hesape \<Rightarrow> 'g broker \<times> relay \<Rightarrow> bool" where
  "in_step H = (\<lambda>(b, r). hesape_documented H \<and> broker_ok H b \<and> \<not> rl_closed r \<and> distinct (map fst (joined r)) \<and>
    (\<forall>t ref. map_of (joined r) t = Some ref \<longleftrightarrow> (\<exists>k. t = TopicPrefix @ k \<and> map_of (held b) k = Some ref)) \<and>
    (has_bus r \<longrightarrow> live r = set (joined r)))"

lemma in_step_joined:
  assumes "in_step H (b, r)"
  shows "map_of (joined r) (TopicPrefix @ k) = map_of (held b) k"
proof -
  have "map_of (joined r) (TopicPrefix @ k) = Some ref \<longleftrightarrow> map_of (held b) k = Some ref" for ref
    using assms by (simp add: in_step_def)
  then show ?thesis by (metis option.exhaust)
qed

lemma accepts_grant:
  assumes "broker_accepts H g n = None"
  shows "Check H g (ChannelJoin H) = None" "auth_Tenant H g = tenant n" "\<not> IsZero n"
  using assms by (auto simp: broker_accepts_def tenantOf_def split: option.splits if_splits)

text \<open>Joining under a grant the broker accepts does one thing, and it does it once.\<close>

definition now_joined :: "string \<Rightarrow> nat \<Rightarrow> relay \<Rightarrow> relay" where
  "now_joined t ref r = (if map_of (joined r) t \<noteq> None then r
    else r\<lparr>joined := AList.update t ref (joined r),
      listeners := (if has_bus r then listeners r @ [\<lparr>ls_topic = t, ls_channel = ref, ls_cancelled = False, ls_subscribed = False\<rparr>] else listeners r)\<rparr>)"

lemma relay_Join_eq:
  assumes "broker_accepts H g n = None" "\<not> rl_closed r"
  shows "relay_Join H g (Some (ref, n)) r = (None, now_joined (TopicPrefix @ name_String H n) ref r)"
  using accepts_grant [OF assms(1)] assms(2) by (simp add: relay_Join_def now_joined_def Topic_key Let_def)

lemma relayed_FindOrCreate_eq:
  assumes "in_step H (b, r)" "plain_name n" "broker_accepts H g n = None"
  shows "relayed_FindOrCreate H g n (b, r) =
    (Inr (ref_of H n b), created H n b, now_joined (TopicPrefix @ name_String H n) (ref_of H n b) r)"
proof -
  have i: "broker_ok H b" "hesape_documented H" "\<not> rl_closed r" using assms(1) by (simp_all add: in_step_def)
  show ?thesis
    unfolding relayed_FindOrCreate_def
    by (simp add: FindOrCreate_eq [OF assms(2,3)] created_name [OF i(1) assms(2) i(2)] relay_Join_eq [OF assms(3) i(3)])
qed

lemma relayed_FindOrCreate_refused:
  "broker_accepts H g n = Some e \<Longrightarrow> relayed_FindOrCreate H g n (b, r) = (Inl e, b, r)"
  by (simp add: relayed_FindOrCreate_def FindOrCreate_def)

lemma live_join: "has_bus r \<Longrightarrow> map_of (joined r) t = None \<Longrightarrow> live (now_joined t ref r) = insert (t, ref) (live r)"
  by (simp add: live_def now_joined_def)

lemma now_joined_step:
  assumes "in_step H (b, r)" "plain_name n"
  shows "in_step H (created H n b, now_joined (TopicPrefix @ name_String H n) (ref_of H n b) r)"
proof (cases "map_of (held b) (name_String H n)")
  case None
  let ?t = "TopicPrefix @ name_String H n" and ?ref = "ref_of H n b"
  have j: "map_of (joined r) ?t = None" using in_step_joined [OF assms(1)] None by simp
  have i: "broker_ok H b" "hesape_documented H" "\<not> rl_closed r" "distinct (map fst (joined r))"
    "\<And>t ref. map_of (joined r) t = Some ref \<longleftrightarrow> (\<exists>k. t = TopicPrefix @ k \<and> map_of (held b) k = Some ref)"
    "has_bus r \<longrightarrow> live r = set (joined r)"
    using assms(1) by (simp_all add: in_step_def)
  have "map_of (joined (now_joined ?t ?ref r)) t = Some ref \<longleftrightarrow>
      (\<exists>k. t = TopicPrefix @ k \<and> map_of (held (created H n b)) k = Some ref)" for t ref
    using None j i(5) by (auto simp: now_joined_def created_def ref_of_def update_conv')
  moreover have "live (now_joined ?t ?ref r) = set (joined (now_joined ?t ?ref r))" if "has_bus r"
  proof -
    have "{p \<in> set (joined r). fst p \<noteq> ?t} = set (joined r)" using j by (force simp: map_of_eq_None_iff)
    then have "set (AList.update ?t ?ref (joined r)) = insert (?t, ?ref) (set (joined r))" by (simp add: set_update_new [OF i(4)])
    moreover have "joined (now_joined ?t ?ref r) = AList.update ?t ?ref (joined r)" using j by (simp add: now_joined_def)
    ultimately show ?thesis using live_join [OF that j] i(6) that by simp
  qed
  ultimately show ?thesis
    using i(1-4) created_ok [OF i(1) assms(2)] j by (auto simp: in_step_def now_joined_def distinct_update)
next
  case (Some ref)
  then have "created H n b = b" "now_joined (TopicPrefix @ name_String H n) (ref_of H n b) r = r"
    using in_step_joined [OF assms(1)] by (simp_all add: created_def now_joined_def)
  then show ?thesis using assms(1) by simp
qed

text \<open>Removing: the topic is left exactly when the channel is gone.\<close>

definition now_left :: "string \<Rightarrow> relay \<Rightarrow> relay" where
  "now_left t r = (if map_of (joined r) t = None then r
    else r\<lparr>joined := AList.delete t (joined r), listeners := cancel_on t (listeners r)\<rparr>)"

lemma delete_absent: "map_of al k = None \<Longrightarrow> AList.delete k al = al"
  by (simp add: map_of_eq_None_iff delete_id)

lemma relay_Leave_eq: "\<not> IsZero n \<Longrightarrow> relay_Leave H n r = (None, now_left (TopicPrefix @ name_String H n) r)"
  by (auto simp: relay_Leave_def now_left_def Topic_key Let_def delete_absent)

lemma relayed_Remove_eq:
  assumes "broker_accepts H g n = None"
  shows "relayed_Remove H g n (b, r) = (None, dropped H n b,
    (if map_of (held (dropped H n b)) (name_String H n) = None then now_left (TopicPrefix @ name_String H n) r else r))"
  using relay_Leave_eq [OF accepts_grant(3) [OF assms], of H r]
  by (cases "map_of (held (dropped H n b)) (name_String H n)") (simp_all add: relayed_Remove_def Remove_eq [OF assms] Find_def assms)

lemma relayed_Remove_refused: "broker_accepts H g n = Some e \<Longrightarrow> relayed_Remove H g n (b, r) = (Some e, b, r)"
  by (simp add: relayed_Remove_def Remove_def)

lemma filter_cancel_on: "filter (\<lambda>l. \<not> ls_cancelled l) (cancel_on t ls) = filter (\<lambda>l. ls_topic l \<noteq> t \<and> \<not> ls_cancelled l) ls"
  by (induction ls) (auto simp: cancel_on_def)

lemma live_filter:
  "set (map (\<lambda>l. (ls_topic l, ls_channel l)) (filter (\<lambda>l. ls_topic l \<noteq> t \<and> \<not> ls_cancelled l) ls)) =
   {p \<in> set (map (\<lambda>l. (ls_topic l, ls_channel l)) (filter (\<lambda>l. \<not> ls_cancelled l) ls)). fst p \<noteq> t}"
  by (induction ls) auto

lemma live_left:
  assumes "map_of (joined r) t \<noteq> None"
  shows "live (now_left t r) = {p \<in> live r. fst p \<noteq> t}"
proof -
  have "listeners (now_left t r) = cancel_on t (listeners r)" using assms by (auto simp: now_left_def)
  then have "live (now_left t r) =
      set (map (\<lambda>l. (ls_topic l, ls_channel l)) (filter (\<lambda>l. ls_topic l \<noteq> t \<and> \<not> ls_cancelled l) (listeners r)))"
    by (simp only: live_def filter_cancel_on)
  also have "\<dots> = {p \<in> live r. fst p \<noteq> t}" unfolding live_def by (rule live_filter)
  finally show ?thesis .
qed

lemma now_left_step:
  assumes "in_step H (b, r)"
  shows "in_step H (dropped H n b,
    if map_of (held (dropped H n b)) (name_String H n) = None then now_left (TopicPrefix @ name_String H n) r else r)"
proof (cases "map_of (held b) (name_String H n) \<noteq> None \<and> map_of (held (dropped H n b)) (name_String H n) = None")
  case True
  let ?t = "TopicPrefix @ name_String H n"
  have i: "broker_ok H b" "hesape_documented H" "\<not> rl_closed r" "distinct (map fst (joined r))"
    "\<And>t ref. map_of (joined r) t = Some ref \<longleftrightarrow> (\<exists>k. t = TopicPrefix @ k \<and> map_of (held b) k = Some ref)"
    "has_bus r \<longrightarrow> live r = set (joined r)"
    using assms by (simp_all add: in_step_def)
  have j: "map_of (joined r) ?t \<noteq> None" using in_step_joined [OF assms] True by simp
  have h: "map_of (held (dropped H n b)) k = (if k = name_String H n then None else map_of (held b) k)" for k
    using True by (auto simp: dropped_held split: if_splits)
  have m: "map_of (joined (now_left ?t r)) t = Some ref \<longleftrightarrow>
      (\<exists>k. t = TopicPrefix @ k \<and> map_of (held (dropped H n b)) k = Some ref)" for t ref
  proof -
    have "map_of (joined (now_left ?t r)) t = (if t = ?t then None else map_of (joined r) t)"
      using j by (simp add: now_left_def delete_conv')
    then show ?thesis using i(5) [of t ref] by (auto simp: h)
  qed
  have l: "has_bus (now_left ?t r) \<longrightarrow> live (now_left ?t r) = set (joined (now_left ?t r))"
    using live_left [OF j] i(6) j by (simp add: now_left_def set_delete)
  have d: "distinct (map fst (joined (now_left ?t r)))" "\<not> rl_closed (now_left ?t r)"
    using i(3,4) by (simp_all add: now_left_def distinct_delete)
  have "in_step H (dropped H n b, now_left ?t r)"
    unfolding in_step_def prod.case using m l d i(2) dropped_ok [OF i(1)] by blast
  then show ?thesis using True by simp
next
  case False
  then have d: "dropped H n b = b" by (auto simp: dropped_def delete_conv' split: option.splits)
  have "now_left (TopicPrefix @ name_String H n) r = r" if "map_of (held b) (name_String H n) = None"
    using that in_step_joined [OF assms] by (simp add: now_left_def)
  then show ?thesis using assms d by simp
qed

lemma in_step_parts: "in_step H (b, r) \<Longrightarrow> broker_ok H b"
  by (simp add: in_step_def)

lemma relayed_Find_eq: "relayed_Find H g n (b, r) = Find H g n b"
  by (simp add: relayed_Find_def)

text \<open>The broker that relays keeps the contract of a registry, and stays in step with its relay.\<close>

interpretation relayed: channel_registry "relayed_Find H" "relayed_FindOrCreate H" "relayed_Remove H" "\<lambda>(b, r). occupied b"
    "in_step H" plain_name
  for H :: "('g, 's) hesape"
proof unfold_locales
  fix x x' :: "'g broker \<times> relay" and n m :: ChannelName and g h :: 'g and ref :: nat
  obtain b r where x: "x = (b, r)" by force
  obtain b' r' where x': "x' = (b', r')" by force
  have reach: "snd (relayed_FindOrCreate H g n x) = x \<or>
      snd (relayed_FindOrCreate H g n x) = (created H n b, now_joined (TopicPrefix @ name_String H n) (ref_of H n b) r)"
    if "in_step H x" "plain_name n"
    using relayed_FindOrCreate_eq [of H b r n g] relayed_FindOrCreate_refused [of H g n _ b r] that x
    by (cases "broker_accepts H g n") auto
  have remove: "snd (relayed_Remove H g n x) = x \<or> snd (relayed_Remove H g n x) = (dropped H n b,
      (if map_of (held (dropped H n b)) (name_String H n) = None then now_left (TopicPrefix @ name_String H n) r else r))"
    using relayed_Remove_eq [of H g n b r] relayed_Remove_refused [of H g n _ b r] x by (cases "broker_accepts H g n") auto
  show "relayed_Find H g n x' = Inr ref" if "in_step H x" "plain_name n" "relayed_FindOrCreate H g n x = (Inr ref, x')"
  proof (cases "broker_accepts H g n")
    case None
    then show ?thesis
      using that x x' relayed_FindOrCreate_eq [of H b r n g] by (auto simp: relayed_Find_eq Find_eq created_held)
  qed (use that x relayed_FindOrCreate_refused [of H g n _ b r] in simp)
  show "in_step H (snd (relayed_FindOrCreate H g n x))" if "in_step H x" "plain_name n"
    using reach [OF that] now_joined_step that x by auto
  show "relayed_Find H h m (snd (relayed_FindOrCreate H g n x)) = Inr ref"
    if "in_step H x" "plain_name n" "relayed_Find H h m x = Inr ref"
    using reach [OF that(1,2)] that(3) x by (auto simp: relayed_Find_eq Find_eq created_held)
  show "(case snd (relayed_FindOrCreate H g n x) of (b, r) \<Rightarrow> occupied b) ref = (case x of (b, r) \<Rightarrow> occupied b) ref"
    if "in_step H x" "plain_name n" "relayed_Find H h m x = Inr ref"
  proof -
    have "ref < length (heap b)"
      using that(1,3) x broker_ok_held(1) [of H b] in_step_parts [of H b r] by (auto simp: relayed_Find_eq Find_eq)
    from created_heap(1) [OF this, of H n] show ?thesis using reach [OF that(1,2)] x by (auto simp: occupied_def)
  qed
  show "relayed_FindOrCreate H g n x = (Inr ref, x)" if "in_step H x" "plain_name n" "relayed_Find H g n x = Inr ref"
  proof -
    have f: "broker_accepts H g n = None" "map_of (held b) (name_String H n) = Some ref"
      using that(3) x by (simp_all add: relayed_Find_eq Find_eq)
    then have "created H n b = b" "ref_of H n b = ref" by (simp_all add: created_def ref_of_def)
    moreover have "now_joined (TopicPrefix @ name_String H n) ref r = r"
      using in_step_joined [of H b r] that(1) x f(2) by (simp add: now_joined_def)
    ultimately show ?thesis using relayed_FindOrCreate_eq [of H b r n g] that(1,2) x f(1) by simp
  qed
  show "in_step H (snd (relayed_Remove H g n x))" if "in_step H x"
    using remove now_left_step [of H b r n] that x by (elim disjE) simp_all
  show "relayed_Find H h m (snd (relayed_Remove H g n x)) = Inr ref"
    if "relayed_Find H h m x = Inr ref" "(case x of (b, r) \<Rightarrow> occupied b) ref"
    using remove that x by (auto simp: relayed_Find_eq Find_eq dropped_held occupied_def)
  show "(case snd (relayed_Remove H g n x) of (b, r) \<Rightarrow> occupied b) ref = (case x of (b, r) \<Rightarrow> occupied b) ref"
    using remove x by (auto simp: occupied_def)
qed

section \<open>A message survives the bus\<close>

lemma message_names: "utf8 ''origin''" "utf8 ''event''" "utf8 ''channel''" "utf8 ''data''" "utf8 ''socket''" "utf8 ''user_id''"
  by (rule ascii_utf8; simp add: code_def of_char_def)+

lemma message_field_ofs:
  "field_of message_fields ''origin'' = Some ''origin''" "field_of message_fields ''event'' = Some ''event''"
  "field_of message_fields ''channel'' = Some ''channel''" "field_of message_fields ''data'' = Some ''data''"
  "field_of message_fields ''socket'' = Some ''socket''" "field_of message_fields ''user_id'' = Some ''user_id''"
  by (simp_all add: field_of_def message_fields_def)

text \<open>The data as the other instances read it: the same JSON, compact and with HTML escaped.\<close>

definition relayed_data :: "string \<Rightarrow> string" where
  "relayed_data d = (if d = [] then [] else escape_html (squeeze False d))"

definition sendable_message :: "relayMessage \<Rightarrow> bool" where
  "sendable_message m \<longleftrightarrow> utf8 (rm_Origin m) \<and> utf8 (rm_Event m) \<and> utf8 (rm_Channel m) \<and> utf8 (rm_Socket m) \<and>
    utf8 (rm_UserID m) \<and> (rm_Data m = [] \<or> fits 9999 (rm_Data m))"

definition message_members :: "relayMessage \<Rightarrow> (string \<times> string) list" where
  "message_members m = [(''origin'', json_string (rm_Origin m)), (''event'', json_string (rm_Event m)),
      (''channel'', json_string (rm_Channel m))] @
    (if rm_Data m = [] then [] else [(''data'', relayed_data (rm_Data m))]) @
    omitempty ''socket'' (rm_Socket m) @ omitempty ''user_id'' (rm_UserID m)"

lemma marshal_message_text: "sendable_message m \<Longrightarrow> marshal_message m = Some (json_object (message_members m))"
  using marshal_fits [of 9999 "rm_Data m"]
  by (auto simp: marshal_message_def message_members_def sendable_message_def relayed_data_def depth Let_def)

lemma message_values: "sendable_message m \<Longrightarrow> \<forall>(k, v) \<in> set (message_members m). utf8 k \<and> value_at 9999 v"
  using message_names value_string fits_recast
  by (auto simp: message_members_def sendable_message_def relayed_data_def omitempty_def)

lemma unmarshal_message_text:
  assumes "sendable_message m"
  shows "unmarshal_message (json_object (message_members m)) = Some (m\<lparr>rm_Data := relayed_data (rm_Data m)\<rparr>)"
proof -
  have u: "unquote (json_string (rm_Origin m)) = Some (rm_Origin m)" "unquote (json_string (rm_Event m)) = Some (rm_Event m)"
    "unquote (json_string (rm_Channel m)) = Some (rm_Channel m)" "unquote (json_string (rm_Socket m)) = Some (rm_Socket m)"
    "unquote (json_string (rm_UserID m)) = Some (rm_UserID m)"
    using assms by (simp_all add: sendable_message_def unquote_json_string)
  have "string_field message_fields ''origin'' (message_members m) [] = Some (rm_Origin m)"
    "string_field message_fields ''event'' (message_members m) [] = Some (rm_Event m)"
    "string_field message_fields ''channel'' (message_members m) [] = Some (rm_Channel m)"
    "string_field message_fields ''socket'' (message_members m) [] = Some (rm_Socket m)"
    "string_field message_fields ''user_id'' (message_members m) [] = Some (rm_UserID m)"
    "raw_field message_fields ''data'' (message_members m) [] = relayed_data (rm_Data m)"
    by (simp_all add: message_members_def omitempty_def message_field_ofs not_null u relayed_data_def)
  then show ?thesis
    by (simp add: unmarshal_message_def members_object [OF message_values [OF assms]])
qed

text \<open>The message an event travels as, and the event that arrives.\<close>

definition message_of :: "InstanceID \<Rightarrow> Event \<Rightarrow> relayMessage" where
  "message_of iid e = \<lparr>rm_Origin = iid, rm_Event = ev_Name e, rm_Channel = requested (ev_Channel e), rm_Data = ev_Data e,
    rm_Socket = ev_Socket e, rm_UserID = ev_UserID e\<rparr>"

definition arrives_as :: "Event \<Rightarrow> Event" where
  "arrives_as e = e\<lparr>ev_Data := relayed_data (ev_Data e)\<rparr>"

definition sendable_event :: "InstanceID \<Rightarrow> Event \<Rightarrow> bool" where
  "sendable_event iid e \<longleftrightarrow> \<not> IsZero (ev_Channel e) \<and> ev_Name e \<noteq> [] \<and> iid \<noteq> [] \<and> sendable_message (message_of iid e)"

definition document_of :: "InstanceID \<Rightarrow> Event \<Rightarrow> string" where
  "document_of iid e = json_object (message_members (message_of iid e))"

lemma relay_Publish_eq:
  assumes "sendable_event (rl_id r) e" "\<not> rl_closed r" "has_bus r"
  shows "relay_Publish H B e r =
    (case bus_Publish B (Topic H (ev_Channel e)) (document_of (rl_id r) e) r of
       (Inl err, r1) \<Rightarrow> (None, relay_fail ''publish'' (ev_Channel e) r1) | (Inr _, r1) \<Rightarrow> (None, recovered r1))"
  using assms marshal_message_text [of "message_of (rl_id r) e"]
  by (simp add: relay_Publish_def sendable_event_def message_of_def document_of_def)

lemma recovered_fields [simp]: "rl_id (recovered r) = rl_id r" "joined (recovered r) = joined r" "listeners (recovered r) = listeners r"
  "rl_closed (recovered r) = rl_closed r" "has_bus (recovered r) = has_bus r" "published (recovered r) = published r"
  "pending (recovered r) = pending r"
  by (simp_all add: recovered_def)

lemma relay_fail_fields [simp]: "rl_id (relay_fail op n r) = rl_id r" "joined (relay_fail op n r) = joined r"
  "listeners (relay_fail op n r) = listeners r" "rl_closed (relay_fail op n r) = rl_closed r" "has_bus (relay_fail op n r) = has_bus r"
  "published (relay_fail op n r) = published r" "pending (relay_fail op n r) = pending r"
  by (simp_all add: relay_fail_def)

lemma message_of_fields [simp]: "rm_Origin (message_of i e) = i" "rm_Channel (message_of i e) = requested (ev_Channel e)"
  by (simp_all add: message_of_def)

lemma relay_deliver_own:
  "sendable_event (rl_id r) e \<Longrightarrow> relay_deliver H s (document_of (rl_id r) e) r (c, w) = (recovered r, c, w)"
  by (simp add: relay_deliver_def document_of_def sendable_event_def unmarshal_message_text Let_def)

lemma relay_deliver_other:
  assumes "sendable_event i e" "i \<noteq> rl_id r" "ch_name c = ev_Channel e"
  shows "relay_deliver H s (document_of i e) r (c, w) =
    (case Broadcast H s (arrives_as e) (c, w) of
       (Some err, c1, w1) \<Rightarrow> (log_error ''joaju: the relay could not deliver a relayed message'' (recovered r), c1, w1)
     | (None, c1, w1) \<Rightarrow> (recovered r, c1, w1))"
proof -
  have "\<lparr>ev_Name = ev_Name e, ev_Channel = ev_Channel e, ev_Data = relayed_data (ev_Data e), ev_Socket = ev_Socket e,
      ev_UserID = ev_UserID e\<rparr> = arrives_as e" by (cases e) (simp add: arrives_as_def)
  then show ?thesis using assms
    by (simp add: relay_deliver_def document_of_def sendable_event_def unmarshal_message_text message_of_def Let_def)
qed

lemma relay_deliver_elsewhere:
  assumes "sendable_event i e" "requested (ch_name c) \<noteq> requested (ev_Channel e)"
  shows "snd (relay_deliver H s (document_of i e) r (c, w)) = (c, w)"
  using assms by (auto simp: relay_deliver_def document_of_def sendable_event_def unmarshal_message_text Let_def)

lemma relay_deliver_effect:
  assumes "channel_ok H c" "sendable_event i e" "ch_name c = ev_Channel e"
  shows "snd (relay_deliver H s (document_of i e) r (c, w)) =
    (if i = rl_id r then (c, w)
     else (with_cached H (arrives_as e) c, w @ copies (gather c (ev_Socket e)) (the_frame (arrives_as e))))"
proof (cases "i = rl_id r")
  case True
  then show ?thesis using relay_deliver_own [of r e H s c w] assms(2) by simp
next
  case False
  have "channel_accepts c (arrives_as e) = None"
    using assms(2,3) by (simp add: channel_accepts_def arrives_as_def sendable_event_def)
  from channel_send_ok [OF assms(1) this, of s "ev_Socket (arrives_as e)" w] show ?thesis
    using False unfolding relay_deliver_other [OF assms(2) False assms(3)]
    by (auto simp: Broadcast_def arrives_as_def split: prod.splits option.splits)
qed

lemma relay_deliver_relay:
  "fst (relay_deliver H s payload r (c, w)) = recovered r \<or>
   (\<exists>what. fst (relay_deliver H s payload r (c, w)) = warn what (recovered r)) \<or>
   (\<exists>what. fst (relay_deliver H s payload r (c, w)) = log_error what (recovered r))"
  by (auto simp: relay_deliver_def Let_def split: option.splits prod.splits)

lemma log_fields [simp]: "rl_id (warn x r) = rl_id r" "rl_id (log_error x r) = rl_id r" "listeners (warn x r) = listeners r"
  "listeners (log_error x r) = listeners r" "joined (warn x r) = joined r" "joined (log_error x r) = joined r"
  "rl_closed (warn x r) = rl_closed r" "rl_closed (log_error x r) = rl_closed r" "has_bus (warn x r) = has_bus r"
  "has_bus (log_error x r) = has_bus r" "degraded (warn x r) = degraded r" "degraded (log_error x r) = degraded r"
  by (simp_all add: warn_def log_error_def)

section \<open>Outages are reported once\<close>

text \<open>What the log says about the bus: \<open>True\<close> for a report that it is unreachable, \<open>False\<close> for one that it is back.\<close>

definition reports :: "relay_line list \<Rightarrow> bool list" where
  "reports ls = concat (map (\<lambda>l. case l of LineUnreachable op n \<Rightarrow> [True] | LineReached \<Rightarrow> [False] | _ \<Rightarrow> []) ls)"

definition reports_ok :: "relay \<Rightarrow> bool" where
  "reports_ok r \<longleftrightarrow> reports (lines r) = map even [0..<length (reports (lines r))] \<and>
    degraded r = odd (length (reports (lines r)))"

lemma reports_append: "reports (ls @ ls') = reports ls @ reports ls'"
  by (simp add: reports_def)

lemma reports_ok_fail: "reports_ok r \<Longrightarrow> reports_ok (relay_fail op n r)"
  by (auto simp: reports_ok_def relay_fail_def reports_append) (simp_all add: reports_def)

lemma reports_ok_recovered: "reports_ok r \<Longrightarrow> reports_ok (recovered r)"
  by (auto simp: reports_ok_def recovered_def reports_append) (simp_all add: reports_def)

lemma reports_ok_log: "reports_ok (warn x r) = reports_ok r" "reports_ok (log_error x r) = reports_ok r"
  by (simp_all add: reports_ok_def warn_def log_error_def reports_append) (simp_all add: reports_def)

lemma reports_ok_other: "reports_ok (r\<lparr>joined := j\<rparr>) = reports_ok r" "reports_ok (r\<lparr>listeners := l\<rparr>) = reports_ok r"
  "reports_ok (r\<lparr>rl_closed := b\<rparr>) = reports_ok r" "reports_ok (r\<lparr>published := p\<rparr>) = reports_ok r"
  "reports_ok (r\<lparr>pending := q\<rparr>) = reports_ok r"
  by (simp_all add: reports_ok_def)

lemma reports_ok_Join: "reports_ok r \<Longrightarrow> reports_ok (snd (relay_Join H g ch r))"
  by (auto simp: relay_Join_def reports_ok_other Let_def split: option.splits)

lemma reports_ok_Leave: "reports_ok r \<Longrightarrow> reports_ok (snd (relay_Leave H n r))"
  by (auto simp: relay_Leave_def reports_ok_other Let_def)

lemma reports_ok_Publish: "reports_ok r \<Longrightarrow> reports_ok (snd (relay_Publish H B e r))"
  by (auto simp: relay_Publish_def bus_Publish_def reports_ok_other intro!: reports_ok_fail reports_ok_recovered split: option.splits sum.splits)

lemma reports_ok_deliver: "reports_ok r \<Longrightarrow> reports_ok (fst (relay_deliver H s payload r (c, w)))"
  using relay_deliver_relay [of H s payload r c w] reports_ok_recovered [of r] by (auto simp: reports_ok_log)

end
