(* ===== verification/Joaju_Fanout.thy ===== *)
theory Joaju_Fanout
  imports Joaju_Relay
begin

text \<open>
  A fleet of instances over one bus. Each instance is a relay, the broker it stands in front of
  and what its sockets were sent; the bus hands a published document to the subscriptions of the
  topic, at most once each and possibly not at all, in any order. Everything interleaves: sockets come
  and go, channels are reached and removed, events are published, documents arrive, subscriptions
  are opened and lost and goroutines end. Reaching and removing a channel through the broker that
  relays are several calls of \<^verbatim>\<open>scaling.go\<close>, each under a lock of its own, and any number of callers may
  be between two of them.

  What is shown of every reachable state: a document that arrives was published by an instance
  that is not the receiver, for the very channel it is delivered to, tenant included, and its
  receivers are exactly the sockets a local broadcast would have reached; nothing arrives twice;
  an outage is reported once. That an instance hears what it holds needs its callers one at a time,
  which is how the protocol calls its broker, under its own lock (\<open>reach\<close> and \<open>drop\<close> of
  \<^verbatim>\<open>protocols/pusher/protocol.go\<close>).
\<close>

section \<open>The fleet\<close>

text \<open>
  A call of the broker that relays, between two of its steps: the channel was found or made and its
  topic is to be joined; the channel was removed and it is to be seen whether it is gone; it is gone
  and its topic is to be left.
\<close>

datatype 'g broker_call = ToJoin 'g nat | ToLook 'g ChannelName | ToLeave ChannelName

record 'g node =
  nd_relay :: relay
  nd_broker :: "'g broker"
  nd_out :: outbox
  nd_calls :: "'g broker_call list"

definition call_FindOrCreate :: "('g, 's) hesape \<Rightarrow> 'g \<Rightarrow> ChannelName \<Rightarrow> 'g node \<Rightarrow> 'g node" where
  "call_FindOrCreate H g n x =
    (case FindOrCreate H g n (nd_broker x) of
       (Inl err, b) \<Rightarrow> x\<lparr>nd_broker := b\<rparr>
     | (Inr ref, b) \<Rightarrow> x\<lparr>nd_broker := b, nd_calls := nd_calls x @ [ToJoin g ref]\<rparr>)"

definition call_Remove :: "('g, 's) hesape \<Rightarrow> 'g \<Rightarrow> ChannelName \<Rightarrow> 'g node \<Rightarrow> 'g node" where
  "call_Remove H g n x =
    (case Remove H g n (nd_broker x) of
       (Some err, b) \<Rightarrow> x\<lparr>nd_broker := b\<rparr>
     | (None, b) \<Rightarrow> x\<lparr>nd_broker := b, nd_calls := nd_calls x @ [ToLook g n]\<rparr>)"

definition call_next :: "('g, 's) hesape \<Rightarrow> 'g broker_call \<Rightarrow> 'g node \<Rightarrow> 'g node" where
  "call_next H c x =
    (let rest = remove1 c (nd_calls x) in
     case c of
       ToJoin g ref \<Rightarrow> x\<lparr>nd_relay := snd (relay_Join H g (Some (ref, ch_name (heap (nd_broker x) ! ref))) (nd_relay x)), nd_calls := rest\<rparr>
     | ToLook g n \<Rightarrow>
         (case Find H g n (nd_broker x) of
            Inl err \<Rightarrow> x\<lparr>nd_calls := (if is_no_channel err then rest @ [ToLeave n] else rest)\<rparr>
          | Inr _ \<Rightarrow> x\<lparr>nd_calls := rest\<rparr>)
     | ToLeave n \<Rightarrow> x\<lparr>nd_relay := snd (relay_Leave H n (nd_relay x)), nd_calls := rest\<rparr>)"

text \<open>
  A document under way: to which instance and which of its channels, which publication it is, and
  its bytes. What was delivered is recorded with the channel as it was and the messages that were
  written.
\<close>

record flight =
  fl_to :: InstanceID
  fl_channel :: nat
  fl_tag :: nat
  fl_document :: string

record 'g arrival =
  ar_to :: InstanceID
  ar_ref :: nat
  ar_tag :: nat
  ar_channel :: "'g channel"
  ar_sends :: outbox

record 'g fleet =
  nodes :: "InstanceID \<Rightarrow> 'g node"
  wire :: "flight list"
  sent :: "(InstanceID \<times> Event) list"
  arrivals :: "'g arrival list"

definition at_node :: "InstanceID \<Rightarrow> 'g node \<Rightarrow> 'g fleet \<Rightarrow> 'g fleet" where
  "at_node i x F = F\<lparr>nodes := (nodes F)(i := x)\<rparr>"

text \<open>The listeners a bus may hand a document of a topic to: those whose subscription stands, being cancelled or not.\<close>

definition ears :: "'g fleet \<Rightarrow> string \<Rightarrow> (InstanceID \<times> nat) set" where
  "ears F topic = {(j, ls_channel l) | j l. j \<noteq> [] \<and> l \<in> set (listeners (nd_relay (nodes F j))) \<and> ls_topic l = topic \<and> ls_subscribed l}"

definition flights :: "nat \<Rightarrow> string \<Rightarrow> (InstanceID \<times> nat) list \<Rightarrow> flight list" where
  "flights tag document who = map (\<lambda>(j, ref). \<lparr>fl_to = j, fl_channel = ref, fl_tag = tag, fl_document = document\<rparr>) who"

definition receive :: "('g, 's) hesape \<Rightarrow> sink \<Rightarrow> flight \<Rightarrow> 'g fleet \<Rightarrow> 'g fleet" where
  "receive H s f F =
    (let x = nodes F (fl_to f); c = heap (nd_broker x) ! fl_channel f;
         (r', c', w') = relay_deliver H s (fl_document f) (nd_relay x) (c, nd_out x)
     in (at_node (fl_to f) (x\<lparr>nd_relay := r', nd_broker := (nd_broker x)\<lparr>heap := (heap (nd_broker x))[fl_channel f := c']\<rparr>, nd_out := w'\<rparr>) F)
          \<lparr>wire := remove1 f (wire F),
           arrivals := arrivals F @ [\<lparr>ar_to = fl_to f, ar_ref = fl_channel f, ar_tag = fl_tag f, ar_channel = c,
             ar_sends = drop (length (nd_out x)) w'\<rparr>]\<rparr>)"

text \<open>A subscription that stands, or does not any more: which goroutine it is, by its place.\<close>

definition set_subscribed :: "nat \<Rightarrow> bool \<Rightarrow> relay \<Rightarrow> relay" where
  "set_subscribed k on r = r\<lparr>listeners := (listeners r)[k := (listeners r ! k)\<lparr>ls_subscribed := on\<rparr>]\<rparr>"

inductive fstep :: "('g, 's) hesape \<Rightarrow> sink \<Rightarrow> 'g fleet \<Rightarrow> 'g fleet \<Rightarrow> bool" for H s where
  reached: "\<lbrakk>i \<noteq> []; plain_name n\<rbrakk> \<Longrightarrow> fstep H s F (at_node i (call_FindOrCreate H g n (nodes F i)) F)"
| removed: "\<lbrakk>i \<noteq> []; plain_name n\<rbrakk> \<Longrightarrow> fstep H s F (at_node i (call_Remove H g n (nodes F i)) F)"
| went_on: "\<lbrakk>i \<noteq> []; c \<in> set (nd_calls (nodes F i))\<rbrakk> \<Longrightarrow> fstep H s F (at_node i (call_next H c (nodes F i)) F)"
| local: "\<lbrakk>i \<noteq> []; x = nodes F i; ref < length (heap (nd_broker x)); ch_name c' = ch_name (heap (nd_broker x) ! ref); channel_ok H c'\<rbrakk> \<Longrightarrow>
    fstep H s F (at_node i (x\<lparr>nd_broker := (nd_broker x)\<lparr>heap := (heap (nd_broker x))[ref := c']\<rparr>, nd_out := w'\<rparr>) F)"
| published: "\<lbrakk>i \<noteq> []; x = nodes F i; sendable_event i e; plain_name (ev_Channel e); \<not> rl_closed (nd_relay x); has_bus (nd_relay x);
     relay_Publish H B e (nd_relay x) = (a, r'); distinct who; set who \<subseteq> ears F (Topic H (ev_Channel e))\<rbrakk> \<Longrightarrow>
    fstep H s F ((at_node i (x\<lparr>nd_relay := r'\<rparr>) F)
      \<lparr>wire := wire F @ flights (length (sent F)) (document_of i e) who, sent := sent F @ [(i, e)]\<rparr>)"
| arrived: "f \<in> set (wire F) \<Longrightarrow> fstep H s F (receive H s f F)"
| lost: "f \<in> set (wire F) \<Longrightarrow> fstep H s F (F\<lparr>wire := remove1 f (wire F)\<rparr>)"
| subscribed: "\<lbrakk>i \<noteq> []; x = nodes F i; k < length (listeners (nd_relay x)); \<not> ls_cancelled (listeners (nd_relay x) ! k)\<rbrakk> \<Longrightarrow>
    fstep H s F (at_node i (x\<lparr>nd_relay := set_subscribed k True (nd_relay x)\<rparr>) F)"
| unsubscribed: "\<lbrakk>i \<noteq> []; x = nodes F i; k < length (listeners (nd_relay x)); \<not> ls_cancelled (listeners (nd_relay x) ! k);
     n = ch_name (heap (nd_broker x) ! ls_channel (listeners (nd_relay x) ! k))\<rbrakk> \<Longrightarrow>
    fstep H s F (at_node i (x\<lparr>nd_relay := relay_fail ''subscribe'' n (set_subscribed k False (nd_relay x))\<rparr>) F)"
| stopped: "\<lbrakk>i \<noteq> []; x = nodes F i; l \<in> set (listeners (nd_relay x)); ls_cancelled l\<rbrakk> \<Longrightarrow>
    fstep H s F (at_node i (x\<lparr>nd_relay := (nd_relay x)\<lparr>listeners := remove1 l (listeners (nd_relay x))\<rparr>\<rparr>) F)"
| closed: "i \<noteq> [] \<Longrightarrow> x = nodes F i \<Longrightarrow> fstep H s F (at_node i (x\<lparr>nd_relay := relay_close (nd_relay x)\<rparr>) F)"

text \<open>
  A fleet as it starts: every instance has a relay of its own id on the bus, and nothing else. The
  empty id names no instance.
\<close>

definition started :: "'g fleet \<Rightarrow> bool" where
  "started F \<longleftrightarrow> (\<forall>i. i \<noteq> [] \<longrightarrow> nd_broker (nodes F i) = NewMemoryBroker \<and> nd_calls (nodes F i) = [] \<and>
      NewRelay Alive i True = Inr (nd_relay (nodes F i))) \<and>
    wire F = [] \<and> sent F = [] \<and> arrivals F = []"

section \<open>The invariant\<close>

text \<open>A listener listens for the channel of its topic.\<close>

definition hears_own :: "('g, 's) hesape \<Rightarrow> 'g node \<Rightarrow> bool" where
  "hears_own H x \<longleftrightarrow> (\<forall>l \<in> set (listeners (nd_relay x)). ls_channel l < length (heap (nd_broker x)) \<and>
     plain_name (ch_name (heap (nd_broker x) ! ls_channel l)) \<and>
     ls_topic l = Topic H (ch_name (heap (nd_broker x) ! ls_channel l)))"

definition node_ok :: "('g, 's) hesape \<Rightarrow> InstanceID \<Rightarrow> 'g node \<Rightarrow> bool" where
  "node_ok H i x \<longleftrightarrow> rl_id (nd_relay x) = i \<and> broker_ok H (nd_broker x) \<and> hears_own H x \<and> reports_ok (nd_relay x) \<and>
    (\<forall>g ref. ToJoin g ref \<in> set (nd_calls x) \<longrightarrow> ref < length (heap (nd_broker x)))"

definition flight_ok :: "('g, 's) hesape \<Rightarrow> 'g fleet \<Rightarrow> flight \<Rightarrow> bool" where
  "flight_ok H F f \<longleftrightarrow> fl_to f \<noteq> [] \<and> fl_tag f < length (sent F) \<and> fl_channel f < length (heap (nd_broker (nodes F (fl_to f)))) \<and>
    (case sent F ! fl_tag f of (i, e) \<Rightarrow> fl_document f = document_of i e \<and>
       ch_name (heap (nd_broker (nodes F (fl_to f))) ! fl_channel f) = ev_Channel e)"

definition arrival_ok :: "('g, 's) hesape \<Rightarrow> 'g fleet \<Rightarrow> 'g arrival \<Rightarrow> bool" where
  "arrival_ok H F a \<longleftrightarrow> ar_tag a < length (sent F) \<and> channel_ok H (ar_channel a) \<and>
    (case sent F ! ar_tag a of (i, e) \<Rightarrow> ch_name (ar_channel a) = ev_Channel e \<and>
       ar_sends a = (if i = ar_to a then [] else copies (gather (ar_channel a) (ev_Socket e)) (the_frame (arrives_as e))))"

definition keys_of :: "'g fleet \<Rightarrow> (InstanceID \<times> nat \<times> nat) list" where
  "keys_of F = map (\<lambda>f. (fl_to f, fl_channel f, fl_tag f)) (wire F) @ map (\<lambda>a. (ar_to a, ar_ref a, ar_tag a)) (arrivals F)"

definition fleet_ok :: "('g, 's) hesape \<Rightarrow> 'g fleet \<Rightarrow> bool" where
  "fleet_ok H F \<longleftrightarrow> hesape_documented H \<and> (\<forall>i. i \<noteq> [] \<longrightarrow> node_ok H i (nodes F i)) \<and> (\<forall>f \<in> set (wire F). flight_ok H F f) \<and>
    (\<forall>a \<in> set (arrivals F). arrival_ok H F a) \<and> (\<forall>(i, e) \<in> set (sent F). sendable_event i e) \<and>
    distinct (keys_of F) \<and> (\<forall>k \<in> set (keys_of F). snd (snd k) < length (sent F))"

lemma flight_ok_cong: "nodes F = nodes G \<Longrightarrow> sent F = sent G \<Longrightarrow> flight_ok H F f = flight_ok H G f"
  by (simp add: flight_ok_def)

text \<open>What an operation on one instance may do: the heap keeps what it holds, channels keep their names.\<close>

definition grows :: "'g broker \<Rightarrow> 'g broker \<Rightarrow> bool" where
  "grows b b' \<longleftrightarrow> length (heap b) \<le> length (heap b') \<and> (\<forall>r < length (heap b). ch_name (heap b' ! r) = ch_name (heap b ! r))"

lemma grows_refl [simp]: "grows b b"
  by (simp add: grows_def)

lemma grows_created: "grows b (created H n b)"
  using created_heap(1) [of _ b H n] created_heap(2) [of b H n] by (simp add: grows_def)

lemma grows_dropped [simp]: "grows b (dropped H n b)"
  by (simp add: grows_def)

lemma grows_update: "ch_name c = ch_name (heap b ! r) \<Longrightarrow> grows b (b\<lparr>heap := (heap b)[r := c]\<rparr>)"
  unfolding grows_def by simp (metis nth_list_update_eq nth_list_update_neq)

lemma fleet_ok_node:
  assumes "fleet_ok H F" "node_ok H i x'" "grows (nd_broker (nodes F i)) (nd_broker x')"
  shows "fleet_ok H (at_node i x' F)"
proof -
  have "flight_ok H (at_node i x' F) f" if "flight_ok H F f" for f
    using that assms(3) by (auto simp: flight_ok_def at_node_def grows_def split: prod.splits)
  then show ?thesis using assms by (auto simp: fleet_ok_def at_node_def arrival_ok_def keys_of_def)
qed

lemma hears_own_grows:
  assumes "hears_own H x" "grows (nd_broker x) b'" "set (listeners r') \<subseteq> set (listeners (nd_relay x)) \<union> cancelled"
    "\<forall>l \<in> cancelled. \<exists>l' \<in> set (listeners (nd_relay x)). ls_topic l = ls_topic l' \<and> ls_channel l = ls_channel l'"
  shows "hears_own H (x\<lparr>nd_broker := b', nd_relay := r'\<rparr>)"
  unfolding hears_own_def
proof
  fix l assume "l \<in> set (listeners (nd_relay (x\<lparr>nd_broker := b', nd_relay := r'\<rparr>)))"
  then obtain l' where "l' \<in> set (listeners (nd_relay x))" "ls_topic l = ls_topic l'" "ls_channel l = ls_channel l'"
    using assms(3,4) by auto
  then show "ls_channel l < length (heap (nd_broker (x\<lparr>nd_broker := b', nd_relay := r'\<rparr>))) \<and>
      plain_name (ch_name (heap (nd_broker (x\<lparr>nd_broker := b', nd_relay := r'\<rparr>)) ! ls_channel l)) \<and>
      ls_topic l = Topic H (ch_name (heap (nd_broker (x\<lparr>nd_broker := b', nd_relay := r'\<rparr>)) ! ls_channel l))"
    using assms(1,2) by (auto simp: hears_own_def grows_def)
qed

lemma NewRelay_fresh:
  assumes "NewRelay Alive i True = Inr r"
  shows "rl_id r = i" "listeners r = []" "joined r = []" "\<not> rl_closed r" "has_bus r" "reports_ok r"
  using assms by (auto simp: NewRelay_def reports_ok_def reports_def split: if_splits)

lemma started_ok:
  assumes "hesape_documented H" "started F"
  shows "fleet_ok H F"
proof -
  have "node_ok H i (nodes F i)" if "i \<noteq> []" for i
  proof -
    have "nd_broker (nodes F i) = NewMemoryBroker" "NewRelay Alive i True = Inr (nd_relay (nodes F i))" "nd_calls (nodes F i) = []"
      using assms(2) that by (simp_all add: started_def)
    with NewRelay_fresh [OF this(2)] show ?thesis by (simp add: node_ok_def hears_own_def NewMemoryBroker_ok)
  qed
  then show ?thesis using assms by (simp add: fleet_ok_def started_def keys_of_def)
qed

text \<open>The relay after an operation of the broker that relays.\<close>

lemma hears_own_joined:
  assumes "hears_own H x" "grows (nd_broker x) b'" "ref < length (heap b')" "plain_name n" "ch_name (heap b' ! ref) = n"
  shows "hears_own H (x\<lparr>nd_broker := b', nd_relay := snd (relay_Join H g (Some (ref, n)) (nd_relay x))\<rparr>)"
proof -
  have "listeners (snd (relay_Join H g (Some (ref, n)) r)) = listeners r \<or>
      listeners (snd (relay_Join H g (Some (ref, n)) r)) = listeners r @ [\<lparr>ls_topic = Topic H n, ls_channel = ref, ls_cancelled = False, ls_subscribed = False\<rparr>]" for r
    by (simp add: relay_Join_def Let_def split: option.splits)
  then show ?thesis
  proof (rule disjE [where P = "listeners (snd (relay_Join H g (Some (ref, n)) (nd_relay x))) = listeners (nd_relay x)"])
    assume "listeners (snd (relay_Join H g (Some (ref, n)) (nd_relay x))) = listeners (nd_relay x)"
    then show ?thesis by (intro hears_own_grows [OF assms(1,2), where cancelled = "{}"]) auto
  next
    assume l: "listeners (snd (relay_Join H g (Some (ref, n)) (nd_relay x))) =
      listeners (nd_relay x) @ [\<lparr>ls_topic = Topic H n, ls_channel = ref, ls_cancelled = False, ls_subscribed = False\<rparr>]"
    have "hears_own H (x\<lparr>nd_broker := b', nd_relay := nd_relay x\<rparr>)"
      by (intro hears_own_grows [OF assms(1,2), where cancelled = "{}"]) auto
    then show ?thesis using l assms(3-5) by (auto simp: hears_own_def)
  qed
qed

lemma cancel_on_pairs: "l \<in> set (cancel_on t ls) \<Longrightarrow> \<exists>l' \<in> set ls. ls_topic l = ls_topic l' \<and> ls_channel l = ls_channel l'"
  by (auto simp: cancel_on_def)

lemma hears_own_left:
  assumes "hears_own H x" "grows (nd_broker x) b'"
  shows "hears_own H (x\<lparr>nd_broker := b', nd_relay := snd (relay_Leave H n (nd_relay x))\<rparr>)"
proof (rule hears_own_grows [OF assms, where cancelled = "set (cancel_on (Topic H n) (listeners (nd_relay x)))"])
  show "set (listeners (snd (relay_Leave H n (nd_relay x)))) \<subseteq>
      set (listeners (nd_relay x)) \<union> set (cancel_on (Topic H n) (listeners (nd_relay x)))"
    by (simp add: relay_Leave_def Let_def)
qed (use cancel_on_pairs in blast)

lemma relay_ops_id [simp]: "rl_id (snd (relay_Join H g c r)) = rl_id r" "rl_id (snd (relay_Leave H n r)) = rl_id r"
  "rl_id (relay_close r) = rl_id r" "rl_id (snd (relay_Publish H B e r)) = rl_id r"
  "listeners (snd (relay_Publish H B e r)) = listeners r"
  by (simp_all add: relay_Join_def relay_Leave_def relay_close_def relay_Publish_def bus_Publish_def Let_def
      split: option.splits prod.splits sum.splits)

lemma hears_own_calls [simp]: "hears_own H (x\<lparr>nd_calls := cs\<rparr>) = hears_own H x"
  by (simp add: hears_own_def)

lemma grows_length: "grows b b' \<Longrightarrow> ref < length (heap b) \<Longrightarrow> ref < length (heap b')"
  by (simp add: grows_def)

lemma call_FindOrCreate_eq:
  assumes "plain_name n"
  shows "call_FindOrCreate H g n x = (if broker_accepts H g n = None
    then x\<lparr>nd_broker := created H n (nd_broker x), nd_calls := nd_calls x @ [ToJoin g (ref_of H n (nd_broker x))]\<rparr> else x)"
  using FindOrCreate_eq [OF assms, of H g] by (cases "broker_accepts H g n") (simp_all add: call_FindOrCreate_def FindOrCreate_def)

lemma call_Remove_eq:
  "call_Remove H g n x = (if broker_accepts H g n = None
    then x\<lparr>nd_broker := dropped H n (nd_broker x), nd_calls := nd_calls x @ [ToLook g n]\<rparr> else x)"
  using Remove_eq [of H g n] by (cases "broker_accepts H g n") (simp_all add: call_Remove_def Remove_def)

lemma call_FindOrCreate_ok:
  assumes "hesape_documented H" "node_ok H i x" "plain_name n"
  shows "node_ok H i (call_FindOrCreate H g n x) \<and> grows (nd_broker x) (nd_broker (call_FindOrCreate H g n x))"
proof (cases "broker_accepts H g n")
  case None
  let ?b = "created H n (nd_broker x)" and ?ref = "ref_of H n (nd_broker x)"
  have ok: "broker_ok H (nd_broker x)" using assms(2) by (simp add: node_ok_def)
  have n: "?ref < length (heap ?b)" using ref_of_created [OF ok] by simp
  have "hears_own H (x\<lparr>nd_broker := ?b, nd_relay := nd_relay x\<rparr>)"
    using assms(2) by (intro hears_own_grows [OF _ grows_created, where cancelled = "{}"]) (auto simp: node_ok_def)
  then show ?thesis
    using assms(2) created_ok [OF ok assms(3)] grows_created n None
    by (auto simp: call_FindOrCreate_eq [OF assms(3)] node_ok_def hears_own_def intro: grows_length [OF grows_created])
qed (simp add: assms call_FindOrCreate_eq)

lemma call_Remove_ok:
  assumes "node_ok H i x"
  shows "node_ok H i (call_Remove H g n x) \<and> grows (nd_broker x) (nd_broker (call_Remove H g n x))"
proof (cases "broker_accepts H g n")
  case None
  have h: "hears_own H x" "broker_ok H (dropped H n (nd_broker x))" using assms dropped_ok by (auto simp: node_ok_def)
  have "hears_own H (x\<lparr>nd_broker := dropped H n (nd_broker x), nd_relay := nd_relay x\<rparr>)"
    by (rule hears_own_grows [OF h(1) grows_dropped, where cancelled = "{}"]) auto
  then show ?thesis using None h(2) assms by (auto simp: call_Remove_eq node_ok_def hears_own_def intro: grows_length [OF grows_dropped])
qed (simp add: assms call_Remove_eq)

lemma call_next_broker [simp]: "nd_broker (call_next H c x) = nd_broker x" "nd_out (call_next H c x) = nd_out x"
  by (auto simp: call_next_def Let_def split: broker_call.splits sum.splits)

lemma call_next_ok:
  assumes "node_ok H i x" "c \<in> set (nd_calls x)"
  shows "node_ok H i (call_next H c x)"
proof -
  have x: "hears_own H x" "broker_ok H (nd_broker x)" "reports_ok (nd_relay x)" "rl_id (nd_relay x) = i"
    "\<And>g ref. ToJoin g ref \<in> set (nd_calls x) \<Longrightarrow> ref < length (heap (nd_broker x))" using assms(1) by (auto simp: node_ok_def)
  have calls: "ToJoin g ref \<in> set (nd_calls x)" if "ToJoin g ref \<in> set (nd_calls (call_next H c x))" for g ref
    using that set_remove1_subset [of c "nd_calls x"] by (auto simp: call_next_def Let_def split: broker_call.splits sum.splits if_splits)
  have "hears_own H (call_next H c x) \<and> reports_ok (nd_relay (call_next H c x)) \<and> rl_id (nd_relay (call_next H c x)) = i"
  proof (cases c)
    case (ToJoin g ref)
    let ?n = "ch_name (heap (nd_broker x) ! ref)"
    have ref: "ref < length (heap (nd_broker x))" using x(5) assms(2) ToJoin by simp
    then have "plain_name ?n" using x(2) by (simp add: broker_ok_def)
    from hears_own_joined [OF x(1) grows_refl ref this refl, of g]
    show ?thesis using ToJoin x by (simp add: call_next_def hears_own_def reports_ok_Join)
  next
    case (ToLook g n)
    then show ?thesis using x by (auto simp: call_next_def Let_def split: sum.splits)
  next
    case (ToLeave n)
    from hears_own_left [OF x(1) grows_refl, of n] show ?thesis using ToLeave x by (simp add: call_next_def hears_own_def reports_ok_Leave)
  qed
  moreover have "\<forall>g ref. ToJoin g ref \<in> set (nd_calls (call_next H c x)) \<longrightarrow> ref < length (heap (nd_broker x))" using calls x(5) by blast
  ultimately show ?thesis using x(2) by (simp add: node_ok_def)
qed

lemma distinct_middle: "distinct (xs @ zs) \<Longrightarrow> distinct ys \<Longrightarrow> set (xs @ zs) \<inter> set ys = {} \<Longrightarrow> distinct (xs @ ys @ zs)"
  by auto

lemma publish_ok:
  assumes "fleet_ok H F" "i \<noteq> []" "sendable_event i e" "plain_name (ev_Channel e)" "distinct who"
    "set who \<subseteq> ears F (Topic H (ev_Channel e))" "relay_Publish H B e (nd_relay (nodes F i)) = (a, r')"
  shows "fleet_ok H ((at_node i ((nodes F i)\<lparr>nd_relay := r'\<rparr>) F)
    \<lparr>wire := wire F @ flights (length (sent F)) (document_of i e) who, sent := sent F @ [(i, e)]\<rparr>)" (is "fleet_ok H ?G")
proof -
  let ?x = "nodes F i"
  have r': "r' = snd (relay_Publish H B e (nd_relay ?x))" using assms(7) by simp
  have doc: "hesape_documented H" and nodes: "\<And>j. j \<noteq> [] \<Longrightarrow> node_ok H j (nodes F j)" using assms(1) by (simp_all add: fleet_ok_def)
  have "node_ok H i (?x\<lparr>nd_relay := r'\<rparr>)"
    using nodes [OF assms(2)] r' by (auto simp: node_ok_def hears_own_def reports_ok_Publish)
  then have base: "fleet_ok H (at_node i (?x\<lparr>nd_relay := r'\<rparr>) F)" by (rule fleet_ok_node [OF assms(1)]) simp
  have heaps: "heap (nd_broker (nodes ?G j)) = heap (nd_broker (nodes F j))" for j by (simp add: at_node_def)
  have old: "flight_ok H ?G f" if "flight_ok H F f" for f
    using that by (auto simp: flight_ok_def heaps at_node_def nth_append)
  have new: "flight_ok H ?G f" if f: "f \<in> set (flights (length (sent F)) (document_of i e) who)" for f
  proof -
    obtain j ref where j: "(j, ref) \<in> set who" "f = \<lparr>fl_to = j, fl_channel = ref, fl_tag = length (sent F), fl_document = document_of i e\<rparr>"
      using f by (auto simp: flights_def)
    then obtain l where l: "j \<noteq> []" "l \<in> set (listeners (nd_relay (nodes F j)))" "ls_topic l = Topic H (ev_Channel e)" "ls_channel l = ref"
      using assms(6) by (auto simp: ears_def)
    have "hears_own H (nodes F j)" using nodes [OF l(1)] by (simp add: node_ok_def)
    then have "ref < length (heap (nd_broker (nodes F j)))" "plain_name (ch_name (heap (nd_broker (nodes F j)) ! ref))"
      "Topic H (ev_Channel e) = Topic H (ch_name (heap (nd_broker (nodes F j)) ! ref))"
      using l by (auto simp: hears_own_def)
    then show ?thesis using j(2) l(1) Topic_inj [OF doc assms(4)] by (auto simp: flight_ok_def heaps at_node_def)
  qed
  have arr: "arrival_ok H ?G a" if "arrival_ok H F a" for a using that by (auto simp: arrival_ok_def at_node_def nth_append)
  have keys: "keys_of ?G = map (\<lambda>f. (fl_to f, fl_channel f, fl_tag f)) (wire F) @ map (\<lambda>(j, ref). (j, ref, length (sent F))) who @
      map (\<lambda>a. (ar_to a, ar_ref a, ar_tag a)) (arrivals F)"
    by (simp add: keys_of_def flights_def at_node_def comp_def split_def)
  have dist: "distinct (map (\<lambda>(j, ref). (j, ref, length (sent F))) who)" using assms(5) by (simp add: distinct_map inj_on_def split_def prod_eq_iff)
  have tags: "\<forall>k \<in> set (keys_of F). snd (snd k) < length (sent F)" and dF: "distinct (keys_of F)"
    using assms(1) by (simp_all add: fleet_ok_def)
  have newtag: "snd (snd k) = length (sent F)" if "k \<in> set (map (\<lambda>(j, ref). (j, ref, length (sent F))) who)" for k using that by auto
  with tags have disj: "set (keys_of F) \<inter> set (map (\<lambda>(j, ref). (j, ref, length (sent F))) who) = {}" by fastforce
  then have "distinct (keys_of ?G)" unfolding keys using dist dF unfolding keys_of_def by (intro distinct_middle) simp_all
  moreover have "snd (snd k) < length (sent ?G)" if "k \<in> set (keys_of ?G)" for k
  proof -
    have "k \<in> set (keys_of F) \<or> k \<in> set (map (\<lambda>(j, ref). (j, ref, length (sent F))) who)" using that unfolding keys by (auto simp: keys_of_def)
    then have "snd (snd k) < Suc (length (sent F))" using tags newtag [of k] by (auto intro: less_SucI simp del: set_map)
    then show ?thesis by (simp add: at_node_def)
  qed
  ultimately show ?thesis
    using base old new arr assms(1,3) unfolding fleet_ok_def by (auto simp: at_node_def)
qed

lemma distinct_move:
  assumes "f \<in> set xs" "distinct (map g xs @ ys)" "k = g f"
  shows "distinct (map g (remove1 f xs) @ ys @ [k])" "set (map g (remove1 f xs) @ ys @ [k]) = set (map g xs @ ys)"
proof -
  have "distinct xs" using assms(2) by (simp add: distinct_map)
  have inj: "inj_on g (set xs)" using assms(2) by (simp add: distinct_map)
  have "distinct (map g (remove1 f xs))" using assms(2) \<open>distinct xs\<close>
    by (auto simp: distinct_map distinct_remove1 intro: inj_on_subset [OF inj] dest: notin_set_remove1)
  moreover have "g f \<notin> g ` set (remove1 f xs)" using inj assms(1) \<open>distinct xs\<close> by (auto simp: inj_on_def)
  moreover have "set (remove1 f xs) \<subseteq> set xs" by (rule set_remove1_subset)
  ultimately show "distinct (map g (remove1 f xs) @ ys @ [k])" using assms by auto
  show "set (map g (remove1 f xs) @ ys @ [k]) = set (map g xs @ ys)" using assms(1,3) \<open>distinct xs\<close> by auto
qed

lemma receive_ok:
  assumes "fleet_ok H F" "f \<in> set (wire F)"
  shows "fleet_ok H (receive H s f F)" "grows (nd_broker (nodes F (fl_to f))) (nd_broker (nodes (receive H s f F) (fl_to f)))"
proof -
  have to: "fl_to f \<noteq> []" using assms by (auto simp: fleet_ok_def flight_ok_def)
  define x where "x = nodes F (fl_to f)"
  define c where "c = heap (nd_broker x) ! fl_channel f"
  obtain r' c' w' where d: "relay_deliver H s (fl_document f) (nd_relay x) (c, nd_out x) = (r', c', w')" by (cases "relay_deliver H s (fl_document f) (nd_relay x) (c, nd_out x)")
  define x' where "x' = (x\<lparr>nd_relay := r', nd_broker := (nd_broker x)\<lparr>heap := (heap (nd_broker x))[fl_channel f := c']\<rparr>, nd_out := w'\<rparr>)"
  define new where "new = \<lparr>ar_to = fl_to f, ar_ref = fl_channel f, ar_tag = fl_tag f, ar_channel = c, ar_sends = drop (length (nd_out x)) w'\<rparr>"
  have G: "receive H s f F = (at_node (fl_to f) x' F)\<lparr>wire := remove1 f (wire F), arrivals := arrivals F @ [new]\<rparr>"
    by (simp add: receive_def x_def [symmetric] c_def [symmetric] d x'_def new_def Let_def)
  have fo: "flight_ok H F f" and sends: "\<forall>(i, e) \<in> set (sent F). sendable_event i e" using assms(1,2) by (simp_all add: fleet_ok_def)
  obtain i e where ie: "sent F ! fl_tag f = (i, e)" by force
  have f: "fl_tag f < length (sent F)" "fl_channel f < length (heap (nd_broker x))" "fl_document f = document_of i e" "ch_name c = ev_Channel e"
    using fo ie by (auto simp: flight_ok_def x_def c_def)
  have "sendable_event i e" using sends f(1) ie by (metis (no_types, lifting) case_prodD nth_mem)
  have xo: "rl_id (nd_relay x) = fl_to f" "broker_ok H (nd_broker x)" "hears_own H x" "reports_ok (nd_relay x)"
    "\<forall>g ref. ToJoin g ref \<in> set (nd_calls x) \<longrightarrow> ref < length (heap (nd_broker x))"
    using assms(1) to by (auto simp: fleet_ok_def node_ok_def x_def)
  have co: "channel_ok H c" "plain_name (ch_name c)" using xo(2) f(2) by (auto simp: broker_ok_def c_def)
  note eff = relay_deliver_effect [OF co(1) \<open>sendable_event i e\<close> f(4), of s "nd_relay x" "nd_out x"]
  have acc: "channel_accepts c (arrives_as e) = None"
    using \<open>sendable_event i e\<close> f(4) by (simp add: channel_accepts_def arrives_as_def sendable_event_def)
  have c': "ch_name c' = ch_name c" "channel_ok H c'" "w' = nd_out x @ (if i = fl_to f then [] else copies (gather c (ev_Socket e)) (the_frame (arrives_as e)))"
    using eff d f(3) co(1) with_cached_ok [OF co(1) acc] xo(1) by (auto split: if_splits)
  have gr: "grows (nd_broker x) (nd_broker x')" using c'(1) by (simp add: x'_def c_def grows_update)
  then show "grows (nd_broker (nodes F (fl_to f))) (nd_broker (nodes (receive H s f F) (fl_to f)))" by (simp add: G at_node_def x_def)
  have "node_ok H (fl_to f) x'"
  proof -
    have r: "r' = fst (relay_deliver H s (fl_document f) (nd_relay x) (c, nd_out x))" by (simp add: d)
    have ls: "listeners r' = listeners (nd_relay x)" "rl_id r' = rl_id (nd_relay x)"
      using relay_deliver_relay [of H s "fl_document f" "nd_relay x" c "nd_out x"] r by auto
    have "hears_own H (x\<lparr>nd_broker := nd_broker x', nd_relay := r'\<rparr>)"
      by (rule hears_own_grows [OF xo(3) gr, where cancelled = "{}"]) (simp_all add: ls)
    then have "hears_own H x'" by (simp add: hears_own_def x'_def)
    moreover have "broker_ok H (nd_broker x')"
      using put_broker_ok [OF xo(2) f(2) c'(2)] c'(1) by (simp add: x'_def c_def)
    moreover have "reports_ok r'" using r xo(4) by (simp add: reports_ok_deliver)
    ultimately show ?thesis using ls(2) xo(1,5) by (simp add: node_ok_def x'_def)
  qed
  then have base: "fleet_ok H (at_node (fl_to f) x' F)"
    using fleet_ok_node [OF assms(1)] gr by (simp add: x_def)
  have new: "arrival_ok H F new" using f(1,4) ie co(1) c'(3) by (simp add: arrival_ok_def new_def)
  have keys: "keys_of (receive H s f F) = map (\<lambda>f. (fl_to f, fl_channel f, fl_tag f)) (remove1 f (wire F)) @
      map (\<lambda>a. (ar_to a, ar_ref a, ar_tag a)) (arrivals F) @ [(fl_to f, fl_channel f, fl_tag f)]"
    by (simp add: G keys_of_def new_def at_node_def)
  have dF: "distinct (keys_of F)" "\<forall>k \<in> set (keys_of F). snd (snd k) < length (sent F)" using assms(1) by (simp_all add: fleet_ok_def)
  note move = distinct_move [OF assms(2) dF(1) [unfolded keys_of_def] refl, folded keys keys_of_def]
  have same: "sent (receive H s f F) = sent F" "nodes (receive H s f F) = nodes (at_node (fl_to f) x' F)"
    "arrivals (receive H s f F) = arrivals F @ [new]" "wire (receive H s f F) = remove1 f (wire F)" by (simp_all add: G at_node_def)
  have "\<forall>g \<in> set (wire F). flight_ok H (at_node (fl_to f) x' F) g" using base by (simp add: fleet_ok_def at_node_def)
  then have "\<forall>g \<in> set (remove1 f (wire F)). flight_ok H (receive H s f F) g"
    using set_remove1_subset [of f "wire F"] flight_ok_cong [of "receive H s f F" "at_node (fl_to f) x' F" H] same
    by (simp add: at_node_def subset_iff)
  moreover have "\<forall>a \<in> set (arrivals F @ [new]). arrival_ok H (receive H s f F) a"
    using assms(1) new by (auto simp: fleet_ok_def arrival_ok_def same)
  ultimately show "fleet_ok H (receive H s f F)"
    using base move dF(2) sends unfolding fleet_ok_def same by (simp add: at_node_def)
qed

lemma distinct_drop:
  assumes "distinct (map g xs @ ys)"
  shows "distinct (map g (remove1 f xs) @ ys)" "set (map g (remove1 f xs) @ ys) \<subseteq> set (map g xs @ ys)"
proof -
  have sub: "set (remove1 f xs) \<subseteq> set xs" by (rule set_remove1_subset)
  have "distinct (map g (remove1 f xs))" using assms by (metis distinct_append distinct_map distinct_remove1 inj_on_subset sub)
  moreover have "set (map g (remove1 f xs)) \<subseteq> set (map g xs)" using image_mono [OF sub, of g] by simp
  ultimately show "distinct (map g (remove1 f xs) @ ys)" "set (map g (remove1 f xs) @ ys) \<subseteq> set (map g xs @ ys)"
    using assms by (auto simp del: set_map)
qed

lemma lose_ok:
  assumes "fleet_ok H F"
  shows "fleet_ok H (F\<lparr>wire := remove1 f (wire F)\<rparr>)" (is "fleet_ok H ?G")
proof -
  have k: "distinct (keys_of F)" "\<forall>k \<in> set (keys_of F). snd (snd k) < length (sent F)" using assms by (simp_all add: fleet_ok_def)
  have "keys_of ?G = map (\<lambda>f. (fl_to f, fl_channel f, fl_tag f)) (remove1 f (wire F)) @ map (\<lambda>a. (ar_to a, ar_ref a, ar_tag a)) (arrivals F)"
    by (simp add: keys_of_def)
  then have "distinct (keys_of ?G)" "\<forall>k \<in> set (keys_of ?G). snd (snd k) < length (sent ?G)"
    using distinct_drop [OF k(1) [unfolded keys_of_def], of f] k(2) [unfolded keys_of_def] by auto
  moreover have "flight_ok H ?G g" if "g \<in> set (wire F)" for g
    using assms that flight_ok_cong [of ?G F H g] by (simp add: fleet_ok_def)
  ultimately show ?thesis
    using assms set_remove1_subset [of f "wire F"] by (auto simp: fleet_ok_def arrival_ok_def)
qed

lemma relay_only_ok:
  assumes "fleet_ok H F" "i \<noteq> []" "rl_id r' = i" "reports_ok r'"
    "\<forall>l \<in> set (listeners r'). \<exists>l' \<in> set (listeners (nd_relay (nodes F i))). ls_topic l = ls_topic l' \<and> ls_channel l = ls_channel l'"
  shows "fleet_ok H (at_node i ((nodes F i)\<lparr>nd_relay := r'\<rparr>) F)"
proof -
  have x: "node_ok H i (nodes F i)" using assms(1,2) by (simp add: fleet_ok_def)
  have "hears_own H ((nodes F i)\<lparr>nd_broker := nd_broker (nodes F i), nd_relay := r'\<rparr>)"
    using x assms(5) by (intro hears_own_grows [where cancelled = "set (listeners r')"]) (auto simp: node_ok_def)
  then have "node_ok H i ((nodes F i)\<lparr>nd_relay := r'\<rparr>)" using x assms(3,4) by (simp add: node_ok_def)
  then show ?thesis by (rule fleet_ok_node [OF assms(1)]) simp
qed

lemma reports_ok_close: "reports_ok (relay_close r) = reports_ok r"
  by (simp add: relay_close_def reports_ok_def)

lemma set_subscribed_fields [simp]: "rl_id (set_subscribed k on r) = rl_id r" "joined (set_subscribed k on r) = joined r"
  "rl_closed (set_subscribed k on r) = rl_closed r" "has_bus (set_subscribed k on r) = has_bus r"
  "reports_ok (set_subscribed k on r) = reports_ok r"
  by (simp_all add: set_subscribed_def reports_ok_other)

lemma set_subscribed_pairs:
  assumes "k < length (listeners r)" "l \<in> set (listeners (set_subscribed k on r))"
  shows "\<exists>l' \<in> set (listeners r). ls_topic l = ls_topic l' \<and> ls_channel l = ls_channel l'"
  using assms set_update_subset_insert [of "listeners r" k] by (fastforce simp: set_subscribed_def)

lemma fstep_ok: "fstep H s F G \<Longrightarrow> fleet_ok H F \<Longrightarrow> fleet_ok H G"
proof (induction rule: fstep.induct)
  case (reached i n F g)
  then have "hesape_documented H" "node_ok H i (nodes F i)" by (simp_all add: fleet_ok_def)
  from call_FindOrCreate_ok [OF this reached.hyps(2), of g] show ?case using fleet_ok_node [OF reached.prems] by blast
next
  case (removed i n F g)
  then have "node_ok H i (nodes F i)" by (simp add: fleet_ok_def)
  from call_Remove_ok [OF this, of g n] show ?case using fleet_ok_node [OF removed.prems] by blast
next
  case (went_on i c F)
  then have "node_ok H i (nodes F i)" by (simp add: fleet_ok_def)
  from call_next_ok [OF this went_on.hyps(2)] show ?case using fleet_ok_node [OF went_on.prems] by simp
next
  case (local i x F ref c' w')
  let ?b = "(nd_broker x)\<lparr>heap := (heap (nd_broker x))[ref := c']\<rparr>"
  have x: "node_ok H i x" using local by (simp add: fleet_ok_def)
  have g: "grows (nd_broker x) ?b" using local.hyps(4) by (rule grows_update)
  have "hears_own H (x\<lparr>nd_broker := ?b, nd_relay := nd_relay x\<rparr>)"
    using x by (intro hears_own_grows [OF _ g, where cancelled = "{}"]) (auto simp: node_ok_def)
  moreover have "broker_ok H ?b" using x local.hyps(3-5) by (intro put_broker_ok) (simp_all add: node_ok_def)
  ultimately have "node_ok H i (x\<lparr>nd_broker := ?b, nd_out := w'\<rparr>)" using x by (simp add: node_ok_def hears_own_def)
  then show ?case using fleet_ok_node [OF local.prems] g local.hyps(2) by simp
next
  case (published i x F e B a r' who)
  then show ?case using publish_ok [of H F i e who B a r'] by simp
next
  case (arrived f F)
  then show ?case by (simp add: receive_ok)
next
  case (lost f F)
  then show ?case by (simp add: lose_ok)
next
  case (subscribed i x F k)
  then have "node_ok H i x" by (simp add: fleet_ok_def)
  then show ?case using relay_only_ok [OF subscribed.prems subscribed.hyps(1), of "set_subscribed k True (nd_relay x)"] subscribed.hyps(2,3)
      set_subscribed_pairs [of k "nd_relay x" _ True] by (simp add: node_ok_def)
next
  case (unsubscribed i x F k n)
  then have "node_ok H i x" by (simp add: fleet_ok_def)
  then show ?case using relay_only_ok [OF unsubscribed.prems unsubscribed.hyps(1), of "relay_fail ''subscribe'' n (set_subscribed k False (nd_relay x))"]
      unsubscribed.hyps(2,3) set_subscribed_pairs [of k "nd_relay x" _ False] by (simp add: node_ok_def reports_ok_fail)
next
  case (stopped i x F l)
  then have "node_ok H i x" by (simp add: fleet_ok_def)
  moreover have "\<forall>k \<in> set (remove1 l (listeners (nd_relay x))). \<exists>k' \<in> set (listeners (nd_relay x)). ls_topic k = ls_topic k' \<and> ls_channel k = ls_channel k'"
    using set_remove1_subset by fastforce
  ultimately show ?case using relay_only_ok [OF stopped.prems stopped.hyps(1), of "(nd_relay x)\<lparr>listeners := remove1 l (listeners (nd_relay x))\<rparr>"] stopped.hyps(2)
    by (simp add: node_ok_def reports_ok_other)
next
  case (closed i x F)
  then have "node_ok H i x" by (simp add: fleet_ok_def)
  moreover have "\<forall>k \<in> set (listeners (relay_close (nd_relay x))). \<exists>k' \<in> set (listeners (nd_relay x)). ls_topic k = ls_topic k' \<and> ls_channel k = ls_channel k'"
    by (auto simp: relay_close_def)
  ultimately show ?case using relay_only_ok [OF closed.prems closed.hyps(1), of "relay_close (nd_relay x)"] closed.hyps(2)
    by (simp add: node_ok_def reports_ok_close)
qed

lemma fleet_reachable_ok:
  assumes "hesape_documented H" "started F0" "(fstep H s)\<^sup>*\<^sup>* F0 F"
  shows "fleet_ok H F"
  using assms(3) by (induction rule: rtranclp_induct) (use started_ok [OF assms(1,2)] fstep_ok in blast)+

lemma channel_ok_tenants: "channel_ok H c \<Longrightarrow> p \<in> set (subscribers c) \<Longrightarrow> conn_Tenant H (sub_Conn (snd p)) = tenant (ch_name c)"
  by (auto simp: channel_ok_def seated_ok_def)

section \<open>Every instance hears what it holds\<close>

lemma in_step_cong:
  assumes "in_step H (b, r)" "broker_ok H b'" "held b' = held b" "joined r' = joined r" "live r' = live r"
    "rl_closed r' = rl_closed r" "has_bus r' = has_bus r"
  shows "in_step H (b', r')"
  using assms unfolding in_step_def by simp

lemma relay_ops_closed [simp]: "rl_closed (snd (relay_Join H g c r)) = rl_closed r" "rl_closed (snd (relay_Leave H n r)) = rl_closed r"
  "rl_closed (snd (relay_Publish H B e r)) = rl_closed r" "joined (snd (relay_Publish H B e r)) = joined r"
  "has_bus (snd (relay_Join H g c r)) = has_bus r" "has_bus (snd (relay_Leave H n r)) = has_bus r"
  "has_bus (snd (relay_Publish H B e r)) = has_bus r"
  by (simp_all add: relay_Join_def relay_Leave_def relay_Publish_def bus_Publish_def Let_def
      split: option.splits prod.splits sum.splits)

lemma live_listeners: "listeners r' = listeners r \<Longrightarrow> live r' = live r"
  by (simp add: live_def)

text \<open>
  The relay as it will be once the calls under way came to their end, and what a call is about. A
  state is in step when it is so then: an instance between two steps of a call is not.
\<close>

fun settled :: "('g, 's) hesape \<Rightarrow> 'g broker \<Rightarrow> 'g broker_call list \<Rightarrow> relay \<Rightarrow> relay" where
  "settled H b [] r = r"
| "settled H b (ToJoin g ref # cs) r = settled H b cs (snd (relay_Join H g (Some (ref, ch_name (heap b ! ref))) r))"
| "settled H b (ToLook g n # cs) r =
    settled H b cs (case Find H g n b of Inl err \<Rightarrow> if is_no_channel err then snd (relay_Leave H n r) else r | Inr _ \<Rightarrow> r)"
| "settled H b (ToLeave n # cs) r = settled H b cs (snd (relay_Leave H n r))"

fun call_topic :: "('g, 's) hesape \<Rightarrow> 'g broker \<Rightarrow> 'g broker_call \<Rightarrow> string" where
  "call_topic H b (ToJoin g ref) = Topic H (ch_name (heap b ! ref))"
| "call_topic H b (ToLook g n) = Topic H n"
| "call_topic H b (ToLeave n) = Topic H n"

definition node_in_step :: "('g, 's) hesape \<Rightarrow> 'g node \<Rightarrow> bool" where
  "node_in_step H x \<longleftrightarrow> has_bus (nd_relay x) \<and>
    (rl_closed (nd_relay x) \<or> in_step H (nd_broker x, settled H (nd_broker x) (nd_calls x) (nd_relay x)))"

lemma settled_fields [simp]: "rl_closed (settled H b cs r) = rl_closed r" "has_bus (settled H b cs r) = has_bus r"
  by (induction H b cs r rule: settled.induct) (auto split: sum.splits)

definition same_ears :: "relay \<Rightarrow> relay \<Rightarrow> bool" where
  "same_ears r r' \<longleftrightarrow> joined r = joined r' \<and> live r = live r' \<and> rl_closed r = rl_closed r' \<and> has_bus r = has_bus r'"

definition joins :: "('g, 's) hesape \<Rightarrow> 'g \<Rightarrow> ChannelName \<Rightarrow> relay \<Rightarrow> bool" where
  "joins H g n r \<longleftrightarrow> \<not> IsZero n \<and> Check H g (ChannelJoin H) = None \<and> auth_Tenant H g = tenant n \<and> \<not> rl_closed r \<and>
    map_of (joined r) (Topic H n) = None"

lemma join_parts:
  "joined (snd (relay_Join H g (Some (ref, n)) r)) = (if joins H g n r then AList.update (Topic H n) ref (joined r) else joined r)"
  "live (snd (relay_Join H g (Some (ref, n)) r)) = (if joins H g n r \<and> has_bus r then insert (Topic H n, ref) (live r) else live r)"
proof -
  have "listeners (snd (relay_Join H g (Some (ref, n)) r)) = (if joins H g n r \<and> has_bus r
      then listeners r @ [\<lparr>ls_topic = Topic H n, ls_channel = ref, ls_cancelled = False, ls_subscribed = False\<rparr>] else listeners r)"
    by (auto simp: relay_Join_def joins_def Let_def split: option.splits)
  moreover have "live r' = insert (ls_topic l, ls_channel l) (live r)" if "listeners r' = listeners r @ [l]" "\<not> ls_cancelled l" for r' l
    unfolding live_def that(1) using that(2) by (simp only: filter_append map_append set_append filter.simps simp_thms if_True list.map list.set) blast
  from this [of "snd (relay_Join H g (Some (ref, n)) r)" "\<lparr>ls_topic = Topic H n, ls_channel = ref, ls_cancelled = False, ls_subscribed = False\<rparr>"] calculation
  show "live (snd (relay_Join H g (Some (ref, n)) r)) = (if joins H g n r \<and> has_bus r then insert (Topic H n, ref) (live r) else live r)"
    using live_listeners [of "snd (relay_Join H g (Some (ref, n)) r)" r] by (cases "joins H g n r \<and> has_bus r") auto
qed (auto simp: relay_Join_def joins_def Let_def split: option.splits)

lemma leave_parts:
  "joined (snd (relay_Leave H n r)) = (if IsZero n then joined r else AList.delete (Topic H n) (joined r))"
  "live (snd (relay_Leave H n r)) = (if IsZero n \<or> map_of (joined r) (Topic H n) = None then live r else {p \<in> live r. fst p \<noteq> Topic H n})"
proof -
  show "joined (snd (relay_Leave H n r)) = (if IsZero n then joined r else AList.delete (Topic H n) (joined r))"
    by (simp add: relay_Leave_def Let_def)
  show "live (snd (relay_Leave H n r)) = (if IsZero n \<or> map_of (joined r) (Topic H n) = None then live r else {p \<in> live r. fst p \<noteq> Topic H n})"
  proof (cases "IsZero n")
    case True
    then show ?thesis by (simp add: relay_Leave_def)
  next
    case False
    then have "snd (relay_Leave H n r) = now_left (Topic H n) r" using relay_Leave_eq [OF False, of H r] Topic_key [OF False, of H] by simp
    moreover have "live (now_left (Topic H n) r) = live r" if "map_of (joined r) (Topic H n) = None" using that by (simp add: now_left_def)
    ultimately show ?thesis using live_left [of r "Topic H n"] False by simp
  qed
qed

lemma same_ears_settled:
  assumes "same_ears r r'"
  shows "same_ears (settled H b cs r) (settled H b cs r')"
  using assms
proof (induction H b cs r arbitrary: r' rule: settled.induct)
  case (2 H b g ref cs r)
  then have "same_ears (snd (relay_Join H g (Some (ref, ch_name (heap b ! ref))) r)) (snd (relay_Join H g (Some (ref, ch_name (heap b ! ref))) r'))"
    by (simp add: same_ears_def join_parts joins_def)
  then show ?case using 2 by simp
next
  case (3 H b g n cs r)
  then have "same_ears (snd (relay_Leave H n r)) (snd (relay_Leave H n r'))" by (simp add: same_ears_def leave_parts)
  then show ?case using 3 by (auto split: sum.splits)
next
  case (4 H b n cs r)
  then have "same_ears (snd (relay_Leave H n r)) (snd (relay_Leave H n r'))" by (simp add: same_ears_def leave_parts)
  then show ?case using 4 by simp
qed simp

text \<open>What no call is about is as it will be.\<close>

lemma settled_elsewhere:
  assumes "\<forall>c \<in> set cs. call_topic H b c \<noteq> t"
  shows "(t, ref) \<in> live (settled H b cs r) \<longleftrightarrow> (t, ref) \<in> live r"
  using assms by (induction H b cs r rule: settled.induct) (auto simp: join_parts leave_parts split: sum.splits)

lemma node_in_step_relay:
  assumes "node_in_step H x" "broker_ok H (nd_broker x)" "same_ears (nd_relay x) r'"
  shows "node_in_step H (x\<lparr>nd_relay := r'\<rparr>)"
  using assms same_ears_settled [OF assms(3), of H "nd_broker x" "nd_calls x"]
    in_step_cong [of H "nd_broker x" "settled H (nd_broker x) (nd_calls x) (nd_relay x)" "nd_broker x" "settled H (nd_broker x) (nd_calls x) r'"]
  by (auto simp: node_in_step_def same_ears_def)

lemma settled_broker:
  assumes "held b' = held b" "\<forall>r < length (heap b). ch_name (heap b' ! r) = ch_name (heap b ! r)"
    "\<forall>g ref. ToJoin g ref \<in> set cs \<longrightarrow> ref < length (heap b)"
  shows "settled H b' cs r = settled H b cs r"
  using assms
proof (induction H b cs r rule: settled.induct)
  case (3 H b g n cs r)
  have "Find H g n b' = Find H g n b" unfolding Find_def 3(2) by (rule refl)
  then show ?case using 3 by simp
qed simp_all

lemma live_remove1: "ls_cancelled l \<Longrightarrow> live (r\<lparr>listeners := remove1 l (listeners r)\<rparr>) = live r"
proof -
  assume "ls_cancelled l"
  then have "filter (\<lambda>l. \<not> ls_cancelled l) (remove1 l ls) = filter (\<lambda>l. \<not> ls_cancelled l) ls" for ls by (induction ls) auto
  then show ?thesis unfolding live_def by simp
qed

text \<open>Callers of the broker one at a time, on every instance: how the protocol calls it.\<close>

definition one_caller :: "'g fleet \<Rightarrow> bool" where
  "one_caller F \<longleftrightarrow> (\<forall>i. i \<noteq> [] \<longrightarrow> length (nd_calls (nodes F i)) \<le> 1)"

definition serialised :: "('g, 's) hesape \<Rightarrow> sink \<Rightarrow> 'g fleet \<Rightarrow> 'g fleet \<Rightarrow> bool" where
  "serialised H s F G \<longleftrightarrow> fstep H s F G \<and> one_caller G"

lemma reached_in_step:
  assumes "node_in_step H x" "plain_name n" "nd_calls (call_FindOrCreate H g n x) = [] \<or> length (nd_calls (call_FindOrCreate H g n x)) = 1"
  shows "node_in_step H (call_FindOrCreate H g n x)"
proof (cases "broker_accepts H g n")
  case None
  then have c: "call_FindOrCreate H g n x = x\<lparr>nd_broker := created H n (nd_broker x), nd_calls := [ToJoin g (ref_of H n (nd_broker x))]\<rparr>" "nd_calls x = []"
    using assms(3) call_FindOrCreate_eq [OF assms(2), of H g x] by simp_all
  have "in_step H (created H n (nd_broker x), settled H (created H n (nd_broker x)) [ToJoin g (ref_of H n (nd_broker x))] (nd_relay x))"
    if "in_step H (nd_broker x, nd_relay x)"
    using relayed.reach_ok [OF that assms(2), of g] FindOrCreate_eq [OF assms(2) None, of "nd_broker x"]
    by (auto simp: relayed_FindOrCreate_def split: prod.splits option.splits)
  then show ?thesis using assms(1) c by (auto simp: node_in_step_def)
qed (simp add: assms call_FindOrCreate_eq)

lemma removed_in_step:
  assumes "node_in_step H x" "nd_calls (call_Remove H g n x) = [] \<or> length (nd_calls (call_Remove H g n x)) = 1"
  shows "node_in_step H (call_Remove H g n x)"
proof (cases "broker_accepts H g n")
  case None
  then have c: "call_Remove H g n x = x\<lparr>nd_broker := dropped H n (nd_broker x), nd_calls := [ToLook g n]\<rparr>" "nd_calls x = []"
    using assms(2) call_Remove_eq [of H g n x] by simp_all
  have "in_step H (dropped H n (nd_broker x), settled H (dropped H n (nd_broker x)) [ToLook g n] (nd_relay x))"
    if "in_step H (nd_broker x, nd_relay x)"
    using relayed.remove_ok [OF that, of g n] Remove_eq [OF None, of "nd_broker x"]
    by (auto simp: relayed_Remove_def split: prod.splits sum.splits if_splits)
  then show ?thesis using assms(1) c by (auto simp: node_in_step_def)
qed (simp add: assms call_Remove_eq)

lemma went_on_in_step:
  assumes "node_in_step H x" "nd_calls x = [c]"
  shows "node_in_step H (call_next H c x)"
proof -
  have "settled H (nd_broker x) (nd_calls (call_next H c x)) (nd_relay (call_next H c x)) = settled H (nd_broker x) [c] (nd_relay x)"
    using assms(2) by (cases c) (auto simp: call_next_def Let_def split: sum.splits)
  moreover have "rl_closed (nd_relay (call_next H c x)) = rl_closed (nd_relay x)" "has_bus (nd_relay (call_next H c x)) = has_bus (nd_relay x)"
    by (cases c; auto simp: call_next_def Let_def split: sum.splits)+
  ultimately show ?thesis using assms by (simp add: node_in_step_def)
qed

lemma live_subscribed [simp]:
  assumes "k < length (listeners r)"
  shows "live (set_subscribed k on r) = live r"
proof -
  have "map (\<lambda>l. (ls_topic l, ls_channel l)) (filter (\<lambda>l. \<not> ls_cancelled l) (ls[k := (ls ! k)\<lparr>ls_subscribed := on\<rparr>])) =
      map (\<lambda>l. (ls_topic l, ls_channel l)) (filter (\<lambda>l. \<not> ls_cancelled l) ls)" if "k < length ls" for ls
    using that by (induction ls arbitrary: k) (auto split: nat.splits)
  note same = this [OF assms]
  have l: "listeners (set_subscribed k on r) = (listeners r)[k := (listeners r ! k)\<lparr>ls_subscribed := on\<rparr>]" by (simp add: set_subscribed_def)
  show ?thesis unfolding live_def l by (rule arg_cong [where f = set, OF same])
qed

lemma serialised_in_step:
  assumes "fstep H s F G" "fleet_ok H F" "one_caller F" "one_caller G" "\<forall>i. i \<noteq> [] \<longrightarrow> node_in_step H (nodes F i)"
  shows "\<forall>i. i \<noteq> [] \<longrightarrow> node_in_step H (nodes G i)"
  using assms
proof (induction rule: fstep.induct)
  case (reached i n F g)
  then have "length (nd_calls (call_FindOrCreate H g n (nodes F i))) \<le> 1" by (auto simp: one_caller_def at_node_def)
  then show ?case using reached reached_in_step [of H "nodes F i" n g] by (auto simp: at_node_def le_Suc_eq)
next
  case (removed i n F g)
  then have "length (nd_calls (call_Remove H g n (nodes F i))) \<le> 1" by (auto simp: one_caller_def at_node_def)
  then show ?case using removed removed_in_step [of H "nodes F i" g n] by (auto simp: at_node_def le_Suc_eq)
next
  case (went_on i c F)
  then have "length (nd_calls (nodes F i)) \<le> 1" by (simp add: one_caller_def)
  then have "nd_calls (nodes F i) = [c]" using went_on.hyps(2) by (cases "nd_calls (nodes F i)") auto
  then show ?case using went_on went_on_in_step [of H "nodes F i" c] by (simp add: at_node_def)
next
  case (local i x F ref c' w')
  let ?b = "(nd_broker x)\<lparr>heap := (heap (nd_broker x))[ref := c']\<rparr>"
  have x: "node_ok H i x" "node_in_step H x" using local.hyps(1,2) local.prems unfolding fleet_ok_def by blast+
  have "broker_ok H ?b" using x(1) local.hyps(3-5) by (intro put_broker_ok) (simp_all add: node_ok_def)
  moreover have "settled H ?b (nd_calls x) (nd_relay x) = settled H (nd_broker x) (nd_calls x) (nd_relay x)"
    using x(1) grows_update [OF local.hyps(4)] by (intro settled_broker) (auto simp: node_ok_def grows_def)
  ultimately have "node_in_step H (x\<lparr>nd_broker := ?b, nd_out := w'\<rparr>)"
    using x(2) in_step_cong [of H "nd_broker x" "settled H (nd_broker x) (nd_calls x) (nd_relay x)" ?b "settled H (nd_broker x) (nd_calls x) (nd_relay x)"]
    by (auto simp: node_in_step_def)
  then show ?case using local.prems by (simp add: at_node_def)
next
  case (published i x F e B a r' who)
  have x: "node_ok H i x" "node_in_step H x" using published.hyps(1,2) published.prems unfolding fleet_ok_def by blast+
  have r': "r' = snd (relay_Publish H B e (nd_relay x))" using published.hyps(7) by simp
  have "node_in_step H (x\<lparr>nd_relay := r'\<rparr>)"
    unfolding r' by (rule node_in_step_relay [OF x(2)]) (use x(1) in \<open>simp_all add: node_ok_def same_ears_def live_def\<close>)
  then show ?case using published.prems by (simp add: at_node_def)
next
  case (arrived f F)
  have to: "fl_to f \<noteq> []" using arrived by (auto simp: fleet_ok_def flight_ok_def)
  let ?x = "nodes F (fl_to f)" and ?y = "nodes (receive H s f F) (fl_to f)"
  have x: "node_in_step H ?x" "node_ok H (fl_to f) ?x" "node_ok H (fl_to f) ?y" and ok: "fleet_ok H (receive H s f F)"
    using to arrived.prems receive_ok(1) [OF arrived.prems(1) arrived.hyps, of s] by (simp_all add: fleet_ok_def)
  have r: "nd_relay ?y = fst (relay_deliver H s (fl_document f) (nd_relay ?x) (heap (nd_broker ?x) ! fl_channel f, nd_out ?x))"
    "held (nd_broker ?y) = held (nd_broker ?x)" "nd_calls ?y = nd_calls ?x"
    by (simp_all add: receive_def at_node_def Let_def split: prod.split)
  have names: "\<forall>k < length (heap (nd_broker ?x)). ch_name (heap (nd_broker ?y) ! k) = ch_name (heap (nd_broker ?x) ! k)"
    using receive_ok(2) [OF arrived.prems(1) arrived.hyps, of s] by (simp add: grows_def)
  have e: "same_ears (nd_relay ?x) (nd_relay ?y)"
    using relay_deliver_relay [of H s "fl_document f" "nd_relay ?x" "heap (nd_broker ?x) ! fl_channel f" "nd_out ?x"] unfolding r(1)
    by (auto simp: same_ears_def live_def)
  have "settled H (nd_broker ?y) (nd_calls ?x) (nd_relay ?y) = settled H (nd_broker ?x) (nd_calls ?x) (nd_relay ?y)"
    using x(2) r(2) names by (intro settled_broker) (auto simp: node_ok_def)
  then have "node_in_step H ?y"
    using x e same_ears_settled [OF e, of H "nd_broker ?x" "nd_calls ?x"] r(2,3)
      in_step_cong [of H "nd_broker ?x" "settled H (nd_broker ?x) (nd_calls ?x) (nd_relay ?x)" "nd_broker ?y" "settled H (nd_broker ?y) (nd_calls ?y) (nd_relay ?y)"]
    by (auto simp: node_in_step_def same_ears_def node_ok_def)
  moreover have "nodes (receive H s f F) i = nodes F i" if "i \<noteq> fl_to f" for i
    using that by (simp add: receive_def at_node_def Let_def split: prod.split)
  ultimately show ?case using arrived.prems(4) by metis
next
  case (subscribed i x F k)
  have x: "node_ok H i x" "node_in_step H x" using subscribed.hyps(1,2) subscribed.prems unfolding fleet_ok_def by blast+
  have "node_in_step H (x\<lparr>nd_relay := set_subscribed k True (nd_relay x)\<rparr>)"
    by (rule node_in_step_relay [OF x(2)]) (use x(1) subscribed.hyps(3) in \<open>simp_all add: node_ok_def same_ears_def\<close>)
  then show ?case using subscribed.prems by (simp add: at_node_def)
next
  case (unsubscribed i x F k n)
  have x: "node_ok H i x" "node_in_step H x" using unsubscribed.hyps(1,2) unsubscribed.prems unfolding fleet_ok_def by blast+
  have "live (relay_fail ''subscribe'' n (set_subscribed k False (nd_relay x))) = live (nd_relay x)"
    using live_listeners [of "relay_fail ''subscribe'' n (set_subscribed k False (nd_relay x))" "set_subscribed k False (nd_relay x)"] unsubscribed.hyps(3) by simp
  then have "node_in_step H (x\<lparr>nd_relay := relay_fail ''subscribe'' n (set_subscribed k False (nd_relay x))\<rparr>)"
    by (intro node_in_step_relay [OF x(2)]) (use x(1) in \<open>simp_all add: node_ok_def same_ears_def\<close>)
  then show ?case using unsubscribed.prems by (simp add: at_node_def)
next
  case (stopped i x F l)
  have x: "node_ok H i x" "node_in_step H x" using stopped.hyps(1,2) stopped.prems unfolding fleet_ok_def by blast+
  have "node_in_step H (x\<lparr>nd_relay := (nd_relay x)\<lparr>listeners := remove1 l (listeners (nd_relay x))\<rparr>\<rparr>)"
    by (rule node_in_step_relay [OF x(2)]) (use x(1) stopped.hyps(4) in \<open>simp_all add: node_ok_def same_ears_def live_remove1\<close>)
  then show ?case using stopped.prems by (simp add: at_node_def)
next
  case (closed i x F)
  then have "node_in_step H x" by simp
  then have "node_in_step H (x\<lparr>nd_relay := relay_close (nd_relay x)\<rparr>)" by (simp add: node_in_step_def relay_close_def)
  then show ?case using closed.prems by (simp add: at_node_def)
qed simp

lemma started_in_step:
  assumes "hesape_documented H" "started F" "i \<noteq> []"
  shows "node_in_step H (nodes F i)"
proof -
  have f: "nd_broker (nodes F i) = NewMemoryBroker" "NewRelay Alive i True = Inr (nd_relay (nodes F i))" "nd_calls (nodes F i) = []"
    using assms(2,3) by (simp_all add: started_def)
  note r = NewRelay_fresh [OF f(2)]
  have "in_step H (nd_broker (nodes F i), nd_relay (nodes F i))"
    using r assms(1) NewMemoryBroker_ok [of H] unfolding in_step_def f(1) by (simp add: live_def NewMemoryBroker_def)
  then show ?thesis using r(5) f(3) by (simp add: node_in_step_def)
qed

lemma serialised_steps: "(serialised H s)\<^sup>*\<^sup>* F G \<Longrightarrow> (fstep H s)\<^sup>*\<^sup>* F G"
  by (erule rtranclp_mono [THEN predicate2D, rotated]) (auto simp: serialised_def)

lemma fleet_reachable_in_step:
  assumes "hesape_documented H" "started F0" "(serialised H s)\<^sup>*\<^sup>* F0 F"
  shows "(\<forall>i. i \<noteq> [] \<longrightarrow> node_in_step H (nodes F i)) \<and> one_caller F"
  using assms(3)
proof (induction rule: rtranclp_induct)
  case base
  show ?case using started_in_step [OF assms(1,2)] assms(2) by (simp add: one_caller_def started_def)
next
  case (step G G')
  have "fleet_ok H G" using fleet_reachable_ok [OF assms(1,2) serialised_steps [OF step(1)]] .
  then show ?case using step(2,3) serialised_in_step [of H s G G'] by (simp add: serialised_def)
qed

lemma held_is_heard:
  assumes "hesape_documented H" "started F0" "(serialised H s)\<^sup>*\<^sup>* F0 F" "i \<noteq> []" "\<not> rl_closed (nd_relay (nodes F i))"
  shows "(t, ref) \<in> live (settled H (nd_broker (nodes F i)) (nd_calls (nodes F i)) (nd_relay (nodes F i))) \<longleftrightarrow>
    (\<exists>k. t = TopicPrefix @ k \<and> map_of (held (nd_broker (nodes F i))) k = Some ref)"
proof -
  let ?b = "nd_broker (nodes F i)" and ?r = "settled H (nd_broker (nodes F i)) (nd_calls (nodes F i)) (nd_relay (nodes F i))"
  have "node_in_step H (nodes F i)" using fleet_reachable_in_step [OF assms(1-3)] assms(4) by blast
  then have i: "in_step H (?b, ?r)" "has_bus ?r" using assms(5) by (simp_all add: node_in_step_def)
  then have "live ?r = set (joined ?r)" "distinct (map fst (joined ?r))" by (simp_all add: in_step_def)
  then have "(t, ref) \<in> live ?r \<longleftrightarrow> map_of (joined ?r) t = Some ref" by simp
  then show ?thesis using i(1) unfolding in_step_def prod.case by blast
qed

section \<open>Properties\<close>

text \<open>Property C4. What arrives was published, by another instance, for this very channel. Every document
  that reached an instance's channel is the event of one publication; the channel carries the
  event's own name, tenant included, so everybody on it is a socket of that tenant; the instance
  that published it writes nothing when its own document comes back; and any other instance sends
  one copy to everybody on the channel but the socket the event names.\<close>

theorem relayed_is_what_was_published:
  assumes "hesape_documented H" "started F0" "(fstep H s)\<^sup>*\<^sup>* F0 F" "a \<in> set (arrivals F)"
  shows "\<exists>i e. ar_tag a < length (sent F) \<and> sent F ! ar_tag a = (i, e) \<and> ch_name (ar_channel a) = ev_Channel e \<and>
    (\<forall>p \<in> set (subscribers (ar_channel a)). conn_Tenant H (sub_Conn (snd p)) = tenant (ev_Channel e)) \<and>
    (if i = ar_to a then ar_sends a = []
     else one_each (ar_sends a) (ids (ar_channel a) - {ev_Socket e}) (the_frame (arrives_as e)))"
proof -
  obtain i e where ie: "sent F ! ar_tag a = (i, e)" by force
  have "arrival_ok H F a" using fleet_reachable_ok [OF assms(1-3)] assms(4) by (simp add: fleet_ok_def)
  then have a: "ar_tag a < length (sent F)" "channel_ok H (ar_channel a)" "ch_name (ar_channel a) = ev_Channel e"
    "ar_sends a = (if i = ar_to a then [] else copies (gather (ar_channel a) (ev_Socket e)) (the_frame (arrives_as e)))"
    by (simp_all add: arrival_ok_def ie)
  then show ?thesis
    using ie copies_one_each [OF a(2)] channel_ok_tenants [OF a(2)] by (intro exI [of _ i] exI [of _ e]) auto
qed

text \<open>Nothing arrives twice. A publication is delivered to a channel of an instance at most
  once, however subscriptions are lost, opened again, left and joined in between.\<close>

theorem nothing_arrives_twice:
  assumes "hesape_documented H" "started F0" "(fstep H s)\<^sup>*\<^sup>* F0 F" "x < y" "y < length (arrivals F)"
  shows "(ar_to (arrivals F ! x), ar_ref (arrivals F ! x), ar_tag (arrivals F ! x)) \<noteq>
    (ar_to (arrivals F ! y), ar_ref (arrivals F ! y), ar_tag (arrivals F ! y))"
proof -
  have "distinct (map (\<lambda>a. (ar_to a, ar_ref a, ar_tag a)) (arrivals F))"
    using fleet_reachable_ok [OF assms(1-3)] by (simp add: fleet_ok_def keys_of_def)
  then show ?thesis using assms(4,5) nth_eq_iff_index_eq [of "map (\<lambda>a. (ar_to a, ar_ref a, ar_tag a)) (arrivals F)" x y] by simp
qed

text \<open>An outage is reported once, and so is its end. In every reachable state the lines about
  the bus in an instance's log alternate, beginning with an outage, and the instance says it is
  degraded exactly when the last of them reports one.\<close>

theorem outages_are_reported_once:
  assumes "hesape_documented H" "started F0" "(fstep H s)\<^sup>*\<^sup>* F0 F" "i \<noteq> []"
  shows "(let told = reports (lines (nd_relay (nodes F i))) in
    told = map even [0..<length told] \<and> degraded (nd_relay (nodes F i)) = odd (length told))"
  using fleet_reachable_ok [OF assms(1-3)] assms(4) by (simp add: fleet_ok_def node_ok_def reports_ok_def)

text \<open>Property C21. An instance hears what it holds. When the callers of an instance's broker come one at a time, as
  the protocol's do under its lock, then in every reachable state of the fleet an instance that was
  not closed has a goroutine listening on exactly the topics of the channels its broker holds, each
  for the very channel that is held under that name; the topic a call is about at that moment, which
  is between two of its steps, excepted.\<close>

theorem instance_hears_what_it_holds:
  assumes "hesape_documented H" "started F0" "(serialised H s)\<^sup>*\<^sup>* F0 F" "i \<noteq> []" "\<not> rl_closed (nd_relay (nodes F i))"
    and "\<forall>c \<in> set (nd_calls (nodes F i)). call_topic H (nd_broker (nodes F i)) c \<noteq> t"
  shows "(t, ref) \<in> live (nd_relay (nodes F i)) \<longleftrightarrow>
    (\<exists>k. t = TopicPrefix @ k \<and> map_of (held (nd_broker (nodes F i))) k = Some ref)"
  using held_is_heard [OF assms(1-5)] settled_elsewhere [OF assms(6)] by blast



text \<open>Property C31. A channel made again while its removal is under way can go deaf. The broker that relays is
  open to callers at the same time, and the topic of a channel is left after the channel was removed,
  outside the broker's lock; when another caller, whom the pusher protocol's own lock would hold back,
  makes the channel again in between, it finds the topic joined and joins nothing, and then the topic is left:
  the instance holds the channel and has no goroutine that listens for it. When the channel is made
  again before the removal looks, the goroutine that stays listens for the removed channel.\<close>

theorem removal_race_deafens_a_channel:
  assumes "in_step H (b, r)" "plain_name n" "broker_accepts H g n = None" "broker_accepts H g' n = None"
    and "map_of (held b) (name_String H n) = Some ref" "subscribers (heap b ! ref) = []"
    and "Remove H g n b = (None, b1)" "relayed_FindOrCreate H g' n (b1, r) = (Inr ref', b2, r2)" "relay_Leave H n r2 = (None, r3)"
  shows "Find H g n b1 = Inl ErrNoChannel \<and> Find H g' n b2 = Inr ref' \<and> ref' \<noteq> ref \<and>
    Topic H n \<notin> fst ` live r3 \<and> (has_bus r \<longrightarrow> (Topic H n, ref) \<in> live r2 \<and> (Topic H n, ref') \<notin> live r2)"
proof -
  have i: "broker_ok H b" "hesape_documented H" "\<not> rl_closed r" "distinct (map fst (joined r))" using assms(1) by (simp_all add: in_step_def)
  let ?t = "TopicPrefix @ name_String H n"
  have z: "\<not> IsZero n" and t: "Topic H n = ?t" using assms(2) by (simp_all add: plain_name_def Topic_key)
  have b1: "b1 = dropped H n b" using assms(7) Remove_eq [OF assms(3)] by simp
  then have gone: "map_of (held b1) (name_String H n) = None" using assms(5,6) by (simp add: dropped_held)
  have j: "map_of (joined r) ?t = Some ref" using in_step_joined [OF assms(1)] assms(5) by simp
  have b2: "ref' = ref_of H n b1" "b2 = created H n b1" "r2 = r"
  proof -
    have "ch_name (heap (created H n b1) ! ref_of H n b1) = n" using created_name [OF dropped_ok [OF i(1)] assms(2) i(2)] b1 by simp
    then show "ref' = ref_of H n b1" "b2 = created H n b1" "r2 = r"
      using assms(8) j by (auto simp: relayed_FindOrCreate_def FindOrCreate_eq [OF assms(2,4)] relay_Join_eq [OF assms(4) i(3)] now_joined_def)
  qed
  have "ref' = length (heap b)" using b2(1) gone b1 by (simp add: ref_of_def)
  then have ne: "ref' \<noteq> ref" using broker_ok_held(1) [OF i(1) assms(5)] by simp
  have r3: "r3 = now_left ?t r" using assms(9) relay_Leave_eq [OF z, of H r2] b2(3) by simp
  have "fst ` live r3 \<subseteq> - {?t}" unfolding r3 using live_left [of r ?t] j by auto
  moreover have "(?t, ref) \<in> live r \<and> (?t, ref') \<notin> live r" if "has_bus r"
  proof -
    have "live r = set (joined r)" using assms(1) that by (simp add: in_step_def)
    then show ?thesis using j ne i(4) by (metis map_of_eq_Some_iff option.inject)
  qed
  moreover have "Find H g n b1 = Inl ErrNoChannel" using assms(3) gone by (simp add: Find_def)
  moreover have "Find H g' n b2 = Inr ref'" using assms(4) created_held(1) [of H n b1] b2 by (simp add: Find_def)
  ultimately show ?thesis using ne b2(3) t by auto
qed

section \<open>Witnesses\<close>

text \<open>Two instances; the channel of three sockets is held by the second.\<close>

definition fresh_relay :: "InstanceID \<Rightarrow> relay" where
  "fresh_relay i = \<lparr>rl_id = i, has_bus = True, degraded = False, joined = [], listeners = [], rl_closed = False,
     attached = False, rl_wait = DefaultMetricsTimeout, pending = [], published = [], lines = []\<rparr>"

definition two_nodes :: "sample_grant fleet" where
  "two_nodes = \<lparr>nodes = (\<lambda>i. \<lparr>nd_relay = fresh_relay i, nd_broker = NewMemoryBroker, nd_out = [], nd_calls = []\<rparr>), wire = [], sent = [], arrivals = []\<rparr>"

lemma two_nodes_started: "started two_nodes"
  by (simp add: started_def two_nodes_def fresh_relay_def NewRelay_def)

definition room_topic :: string where "room_topic = ''joaju:acme:presence-room''"

definition just_joined :: relay where
  "just_joined = (fresh_relay ''b'')\<lparr>joined := [(room_topic, 0)],
     listeners := [\<lparr>ls_topic = room_topic, ls_channel = 0, ls_cancelled = False, ls_subscribed = False\<rparr>]\<rparr>"

definition hearing :: relay where
  "hearing = (fresh_relay ''b'')\<lparr>joined := [(room_topic, 0)],
     listeners := [\<lparr>ls_topic = room_topic, ls_channel = 0, ls_cancelled = False, ls_subscribed = True\<rparr>]\<rparr>"

definition meeting :: "sample_grant fleet" where
  "meeting = at_node ''b'' \<lparr>nd_relay = hearing, nd_broker = one_room, nd_out = [], nd_calls = []\<rparr> two_nodes"

lemma room_facts: "Topic sample_hesape (ch_name room) = room_topic" "TopicPrefix @ name_String sample_hesape (ch_name room) = room_topic"
  "name_String sample_hesape (ch_name room) = ''acme:presence-room''"
  "broker_accepts sample_hesape (join_grant ''acme'' u) (ch_name room) = None"
  by (simp_all add: Topic_def room_topic_def TopicPrefix_def name_String_def IsZero_def room_def sample_hesape_def
      broker_accepts_def tenantOf_def join_grant_def)

lemma meeting_serialised: "(serialised sample_hesape s)\<^sup>*\<^sup>* two_nodes meeting"
proof -
  let ?H = sample_hesape and ?n = "ch_name room" and ?g = "join_grant ''acme'' ''ana''"
  let ?c = "\<lparr>ch_name = ?n, subscribers = [], cached = None\<rparr> :: sample_grant channel"
  define b where "b = \<lparr>heap = [?c], held = [(''acme:presence-room'', 0)]\<rparr>"
  define at where "at r b' cs = at_node ''b'' \<lparr>nd_relay = r, nd_broker = b', nd_out = [], nd_calls = cs\<rparr> two_nodes" for r b' cs
  have x: "nodes (at r b' cs) ''b'' = \<lparr>nd_relay = r, nd_broker = b', nd_out = [], nd_calls = cs\<rparr>" "at_node ''b'' y (at r b' cs) = at_node ''b'' y two_nodes" for r b' cs y
    by (simp_all add: at_def at_node_def)
  have one: "one_caller (at r b' cs)" if "length cs \<le> 1" for r b' cs using that by (simp add: one_caller_def at_def at_node_def two_nodes_def)
  have node: "nodes two_nodes ''b'' = \<lparr>nd_relay = fresh_relay ''b'', nd_broker = NewMemoryBroker, nd_out = [], nd_calls = []\<rparr>" by (simp add: two_nodes_def)
  have "ref_of ?H ?n (NewMemoryBroker :: sample_grant broker) = 0" "created ?H ?n NewMemoryBroker = b"
    by (simp_all add: ref_of_def NewMemoryBroker_def created_def b_def room_facts(3))
  then have "at_node ''b'' (call_FindOrCreate ?H ?g ?n (nodes two_nodes ''b'')) two_nodes = at (fresh_relay ''b'') b [ToJoin ?g 0]"
    by (simp add: call_FindOrCreate_eq [OF one_room_facts(2)] room_facts(4) node at_def)
  then have 1: "serialised ?H s two_nodes (at (fresh_relay ''b'') b [ToJoin ?g 0])"
    using fstep.reached [of "''b''" ?n ?H s two_nodes ?g] one_room_facts(2) one by (simp add: serialised_def)
  have j: "snd (relay_Join ?H ?g (Some (0, ?n)) (fresh_relay ''b'')) = just_joined"
    using relay_Join_eq [of ?H ?g ?n "fresh_relay ''b''" 0, OF room_facts(4)]
    by (simp add: room_facts(2) [unfolded room_facts(3)] room_facts(3) now_joined_def fresh_relay_def just_joined_def)
  have "heap b ! 0 = ?c" by (simp add: b_def)
  then have cn: "call_next ?H (ToJoin ?g 0) (nodes (at (fresh_relay ''b'') b [ToJoin ?g 0]) ''b'') = \<lparr>nd_relay = just_joined, nd_broker = b, nd_out = [], nd_calls = []\<rparr>"
    by (simp add: call_next_def x(1) j)
  have "fstep ?H s (at (fresh_relay ''b'') b [ToJoin ?g 0]) (at_node ''b'' (call_next ?H (ToJoin ?g 0) (nodes (at (fresh_relay ''b'') b [ToJoin ?g 0]) ''b''))
      (at (fresh_relay ''b'') b [ToJoin ?g 0]))" by (rule fstep.went_on) (simp_all add: x(1))
  then have 2: "serialised ?H s (at (fresh_relay ''b'') b [ToJoin ?g 0]) (at just_joined b [])"
    using one [of "[]" just_joined b] unfolding cn x(2) at_def [of just_joined, symmetric] by (simp add: serialised_def)
  have h: "set_subscribed 0 True just_joined = hearing" by (simp add: set_subscribed_def just_joined_def hearing_def)
  have "fstep ?H s (at just_joined b []) (at_node ''b'' ((nodes (at just_joined b []) ''b'')\<lparr>nd_relay := set_subscribed 0 True (nd_relay (nodes (at just_joined b []) ''b''))\<rparr>)
      (at just_joined b []))" by (rule fstep.subscribed [OF _ refl]) (simp_all add: x(1) just_joined_def)
  then have 3: "serialised ?H s (at just_joined b []) (at hearing b [])"
    using one [of "[]" hearing b] unfolding x node.simps h at_def [of hearing, symmetric] by (simp add: serialised_def)
  have room: "b\<lparr>heap := (heap b)[0 := room]\<rparr> = one_room" by (simp add: b_def one_room_def)
  have "fstep ?H s (at hearing b []) (at_node ''b'' ((nodes (at hearing b []) ''b'')\<lparr>nd_broker := (nd_broker (nodes (at hearing b []) ''b''))
      \<lparr>heap := (heap (nd_broker (nodes (at hearing b []) ''b'')))[0 := room]\<rparr>, nd_out := []\<rparr>) (at hearing b []))"
    by (rule fstep.local [OF _ refl]) (simp_all add: x(1) sample_channels_ok, simp_all add: b_def)
  then have 4: "serialised ?H s (at hearing b []) (at hearing one_room [])"
    using one [of "[]" hearing one_room] unfolding x node.simps room at_def [of hearing, symmetric] by (simp add: serialised_def)
  have "(serialised ?H s)\<^sup>*\<^sup>* two_nodes (at (fresh_relay ''b'') b [ToJoin ?g 0])" using 1 by (rule r_into_rtranclp)
  then have "(serialised ?H s)\<^sup>*\<^sup>* two_nodes (at just_joined b [])" using 2 by (rule rtranclp.rtrancl_into_rtrancl)
  then have "(serialised ?H s)\<^sup>*\<^sup>* two_nodes (at hearing b [])" using 3 by (rule rtranclp.rtrancl_into_rtrancl)
  then have "(serialised ?H s)\<^sup>*\<^sup>* two_nodes (at hearing one_room [])" using 4 by (rule rtranclp.rtrancl_into_rtrancl)
  then show ?thesis unfolding at_def meeting_def .
qed

lemmas meeting_reachable = serialised_steps [OF meeting_serialised]

lemma meeting_b: "nd_relay (nodes meeting ''b'') = hearing" "nd_broker (nodes meeting ''b'') = one_room"
  "nd_relay (nodes meeting ''a'') = fresh_relay ''a''" "wire meeting = []" "sent meeting = []" "arrivals meeting = []"
  by (simp_all add: meeting_def at_node_def two_nodes_def)

definition news :: Event where
  "news = \<lparr>ev_Name = ''news'', ev_Channel = ch_name room, ev_Data = json_object [], ev_Socket = ''1.1'', ev_UserID = []\<rparr>"

lemma fits_value: "value_at d v \<Longrightarrow> fits d v"
proof -
  assume v: "value_at d v"
  then have "scan_value d (v @ []) = Some []" "v \<noteq> []" "\<not> is_space (hd v)" by (auto simp: value_at_def stops_def)
  then show ?thesis unfolding fits_def using skip_ws_id [of v] by (simp add: skip_ws_def)
qed

lemma news_sendable: "sendable_event ''a'' news" "plain_name (ev_Channel news)"
proof -
  have "utf8 ''a''" "utf8 ''news''" "utf8 ''presence-room''" "utf8 ''1.1''" "utf8 []"
    by (rule ascii_utf8; simp add: code_def of_char_def)+
  moreover have "value_at (Suc 9998) (json_object [])" by (rule value_object) simp
  then have "fits 9999 (json_object [])" using fits_value by simp
  ultimately show "sendable_event ''a'' news"
    by (simp add: sendable_event_def sendable_message_def message_of_def news_def room_def IsZero_def)
  show "plain_name (ev_Channel news)" using one_room_facts(2) by (simp add: news_def)
qed

definition deaf_bus :: bus where "deaf_bus h topic message = Inr 1"

definition under_way :: "sample_grant fleet" where
  "under_way = (at_node ''a'' ((nodes meeting ''a'')\<lparr>nd_relay := snd (relay_Publish sample_hesape deaf_bus news (fresh_relay ''a''))\<rparr>) meeting)
    \<lparr>wire := wire meeting @ flights (length (sent meeting)) (document_of ''a'' news) [(''b'', 0)], sent := sent meeting @ [(''a'', news)]\<rparr>"

lemma room_ears: "set [(''b'', 0)] \<subseteq> ears meeting (Topic sample_hesape (ev_Channel news))"
  by (auto simp: ears_def news_def room_facts(1) meeting_b hearing_def intro!: exI [of _ "''b''"])

lemma under_way_step: "fstep sample_hesape s meeting under_way"
  unfolding under_way_def
  by (rule fstep.published [OF _ refl news_sendable])
    (use room_ears in \<open>simp_all add: meeting_b fresh_relay_def prod_eq_iff\<close>)

lemma under_way_reachable: "(fstep sample_hesape s)\<^sup>*\<^sup>* two_nodes under_way"
  using meeting_reachable under_way_step by (rule rtranclp.rtrancl_into_rtrancl)

definition the_flight :: flight where
  "the_flight = \<lparr>fl_to = ''b'', fl_channel = 0, fl_tag = 0, fl_document = document_of ''a'' news\<rparr>"

lemma the_flight_wire: "the_flight \<in> set (wire under_way)"
  by (simp add: under_way_def flights_def meeting_b the_flight_def)

abbreviation all_arrived :: "sample_grant fleet" where
  "all_arrived \<equiv> receive sample_hesape all_writes_work the_flight under_way"

lemma all_arrived_reachable: "(fstep sample_hesape all_writes_work)\<^sup>*\<^sup>* two_nodes all_arrived"
  using under_way_reachable fstep.arrived [OF the_flight_wire] by (rule rtranclp.rtrancl_into_rtrancl)

lemma all_arrived_arrivals: "\<exists>a. arrivals all_arrived = [a] \<and> ar_to a = ''b'' \<and> ar_channel a = room \<and> ar_tag a = 0 \<and> ar_ref a = 0"
  by (simp add: receive_def at_node_def under_way_def the_flight_def meeting_b one_room_def Let_def split: prod.split)

theorem relayed_is_what_was_published_witness:
  "\<exists>a \<in> set (arrivals all_arrived). one_each (ar_sends a) {''1.2'', ''2.1''} (the_frame (arrives_as news))"
proof -
  obtain a where a: "arrivals all_arrived = [a]" "ar_to a = ''b''" "ar_channel a = room" "ar_tag a = 0" using all_arrived_arrivals by blast
  have s: "sent all_arrived ! 0 = (''a'', news)"
    by (simp add: receive_def at_node_def under_way_def meeting_b Let_def split: prod.split)
  have "ids room - {ev_Socket news} = {''1.2'', ''2.1''}" by (auto simp: ids_def room_def seat_of_def news_def)
  then show ?thesis
    using relayed_is_what_was_published [OF sample_documented two_nodes_started all_arrived_reachable, of a] a s by auto
qed

definition again :: "sample_grant fleet" where
  "again = (at_node ''a'' ((nodes all_arrived ''a'')\<lparr>nd_relay := snd (relay_Publish sample_hesape deaf_bus news (nd_relay (nodes all_arrived ''a'')))\<rparr>)
      all_arrived)
    \<lparr>wire := wire all_arrived @ flights (length (sent all_arrived)) (document_of ''a'' news) [(''b'', 0)],
     sent := sent all_arrived @ [(''a'', news)]\<rparr>"

lemma all_arrived_nodes: "nd_relay (nodes all_arrived ''a'') = snd (relay_Publish sample_hesape deaf_bus news (fresh_relay ''a''))"
  "listeners (nd_relay (nodes all_arrived ''b'')) = listeners hearing" "length (sent all_arrived) = 1" "wire all_arrived = []"
proof -
  show "nd_relay (nodes all_arrived ''a'') = snd (relay_Publish sample_hesape deaf_bus news (fresh_relay ''a''))"
    "length (sent all_arrived) = 1" "wire all_arrived = []"
    by (simp_all add: receive_def at_node_def under_way_def the_flight_def meeting_b flights_def Let_def split: prod.split)
  have "nd_relay (nodes all_arrived ''b'') =
      fst (relay_deliver sample_hesape all_writes_work (document_of ''a'' news) hearing (room, nd_out (nodes under_way ''b'')))"
    by (simp add: receive_def at_node_def under_way_def the_flight_def meeting_b one_room_def Let_def split: prod.split)
  then show "listeners (nd_relay (nodes all_arrived ''b'')) = listeners hearing"
    using relay_deliver_relay [of sample_hesape all_writes_work "document_of ''a'' news" hearing room "nd_out (nodes under_way ''b'')"] by auto
qed

lemma again_reachable: "(fstep sample_hesape all_writes_work)\<^sup>*\<^sup>* two_nodes again"
proof -
  have "set [(''b'', 0)] \<subseteq> ears all_arrived (Topic sample_hesape (ev_Channel news))"
    by (auto simp: ears_def news_def room_facts(1) all_arrived_nodes(2) hearing_def intro!: exI [of _ "''b''"])
  then have "fstep sample_hesape all_writes_work all_arrived again"
    unfolding again_def
    by (intro fstep.published [OF _ refl news_sendable]) (simp_all add: all_arrived_nodes(1) fresh_relay_def prod_eq_iff)
  with all_arrived_reachable show ?thesis by (rule rtranclp.rtrancl_into_rtrancl)
qed

theorem nothing_arrives_twice_witness:
  "\<exists>F. (fstep sample_hesape all_writes_work)\<^sup>*\<^sup>* two_nodes F \<and> length (arrivals F) = 2 \<and>
    ar_to (arrivals F ! 0) = ar_to (arrivals F ! 1) \<and> ar_ref (arrivals F ! 0) = ar_ref (arrivals F ! 1) \<and>
    ar_tag (arrivals F ! 0) \<noteq> ar_tag (arrivals F ! 1)"
proof -
  define f where "f = the_flight\<lparr>fl_tag := 1\<rparr>"
  let ?F = "receive sample_hesape all_writes_work f again"
  have "wire again = [\<lparr>fl_to = ''b'', fl_channel = 0, fl_tag = 1, fl_document = document_of ''a'' news\<rparr>]"
    by (simp add: again_def flights_def all_arrived_nodes)
  then have "f \<in> set (wire again)" by (simp add: f_def the_flight_def)
  from fstep.arrived [OF this] have r: "(fstep sample_hesape all_writes_work)\<^sup>*\<^sup>* two_nodes ?F"
    by (rule rtranclp.rtrancl_into_rtrancl [OF again_reachable])
  obtain a where a: "arrivals all_arrived = [a]" "ar_to a = ''b''" "ar_ref a = 0" using all_arrived_arrivals by blast
  have "arrivals again = [a]" using a(1) by (simp add: again_def at_node_def)
  moreover have "\<exists>b. arrivals ?F = arrivals again @ [b] \<and> ar_to b = fl_to f \<and> ar_ref b = fl_channel f"
    by (simp add: receive_def at_node_def Let_def split: prod.split)
  moreover have "fl_to f = ''b''" "fl_channel f = 0" by (simp_all add: f_def the_flight_def)
  ultimately have l: "length (arrivals ?F) = 2" "arrivals ?F ! 0 = a" "ar_to (arrivals ?F ! 1) = ''b''" "ar_ref (arrivals ?F ! 1) = 0" by auto
  show ?thesis
    using nothing_arrives_twice [OF sample_documented two_nodes_started r, of 0 1] r l a(2,3) by (intro exI [of _ ?F]) auto
qed

theorem outages_are_reported_once_witness:
  "\<exists>F. (fstep sample_hesape all_writes_work)\<^sup>*\<^sup>* two_nodes F \<and> degraded (nd_relay (nodes F ''b'')) \<and>
    reports (lines (nd_relay (nodes F ''b''))) = [True]"
proof -
  let ?x = "nodes meeting ''b''"
  let ?F = "at_node ''b'' (?x\<lparr>nd_relay := relay_fail ''subscribe'' (ch_name room) (set_subscribed 0 False (nd_relay ?x))\<rparr>) meeting"
  have "fstep sample_hesape all_writes_work meeting ?F"
    by (rule fstep.unsubscribed [OF _ refl]) (simp_all add: meeting_b hearing_def one_room_def)
  with meeting_reachable have r: "(fstep sample_hesape all_writes_work)\<^sup>*\<^sup>* two_nodes ?F" by (rule rtranclp.rtrancl_into_rtrancl)
  have l: "length (reports (lines (nd_relay (nodes ?F ''b'')))) = 1"
    by (simp add: at_node_def meeting_b relay_fail_def set_subscribed_def hearing_def fresh_relay_def reports_def)
  show ?thesis
    using outages_are_reported_once [OF sample_documented two_nodes_started r, of "''b''"] r l by (intro exI [of _ ?F]) (simp add: Let_def)
qed

theorem instance_hears_what_it_holds_witness:
  "(serialised sample_hesape all_writes_work)\<^sup>*\<^sup>* two_nodes meeting \<and>
   (room_topic, 0) \<in> live (nd_relay (nodes meeting ''b'')) \<and> map_of (held (nd_broker (nodes meeting ''b''))) ''acme:presence-room'' = Some 0"
proof -
  have "nd_calls (nodes meeting ''b'') = []" "\<not> rl_closed (nd_relay (nodes meeting ''b''))" by (simp_all add: meeting_def at_node_def hearing_def fresh_relay_def)
  moreover have "map_of (held (nd_broker (nodes meeting ''b''))) ''acme:presence-room'' = Some 0" by (simp add: meeting_b one_room_def)
  moreover have "room_topic = TopicPrefix @ ''acme:presence-room''" using room_facts(2,3) by simp
  ultimately show ?thesis
    using instance_hears_what_it_holds [OF sample_documented two_nodes_started meeting_serialised, of "''b''" room_topic 0] meeting_serialised by auto
qed


theorem removal_race_deafens_a_channel_witness:
  "\<exists>b1 b2 r2 r3. Remove sample_hesape (join_grant ''acme'' ''ana'') (ch_name room)
      (created sample_hesape (ch_name room) NewMemoryBroker) = (None, b1) \<and>
    relayed_FindOrCreate sample_hesape (join_grant ''acme'' ''bob'') (ch_name room) (b1, just_joined) = (Inr 1, b2, r2) \<and>
    relay_Leave sample_hesape (ch_name room) r2 = (None, r3) \<and> room_topic \<notin> fst ` live r3"
proof -
  let ?H = sample_hesape and ?n = "ch_name room" and ?b = "created sample_hesape (ch_name room) NewMemoryBroker :: sample_grant broker"
  have z: "\<not> IsZero ?n" using one_room_facts(2) by (simp add: plain_name_def)
  have b: "?b = \<lparr>heap = [\<lparr>ch_name = ?n, subscribers = [], cached = None\<rparr>], held = [(''acme:presence-room'', 0)]\<rparr>"
    by (simp add: created_def NewMemoryBroker_def room_facts(3))
  have "in_step ?H (NewMemoryBroker, fresh_relay ''b'')"
    using started_in_step [OF sample_documented two_nodes_started, of "''b''"] by (simp add: node_in_step_def fresh_relay_def two_nodes_def)
  from now_joined_step [OF this one_room_facts(2)] have step: "in_step ?H (?b, just_joined)"
    by (simp add: room_facts(2) [unfolded room_facts(3)] room_facts(3) ref_of_def NewMemoryBroker_def now_joined_def just_joined_def fresh_relay_def)
  define b1 where "b1 = dropped ?H ?n ?b"
  have r1: "Remove ?H (join_grant ''acme'' ''ana'') ?n ?b = (None, b1)" unfolding b1_def by (rule Remove_eq [OF room_facts(4)])
  have d: "b1 = \<lparr>heap = [\<lparr>ch_name = ?n, subscribers = [], cached = None\<rparr>], held = []\<rparr>"
    by (simp add: b1_def dropped_def b room_facts(3))
  have "FindOrCreate ?H (join_grant ''acme'' ''bob'') ?n b1 = (Inr 1, created ?H ?n b1)" "ch_name (heap (created ?H ?n b1) ! 1) = ?n"
    by (simp_all add: FindOrCreate_eq [OF one_room_facts(2) room_facts(4)] d ref_of_def created_def)
  then obtain b2 r2 where r2: "relayed_FindOrCreate ?H (join_grant ''acme'' ''bob'') ?n (b1, just_joined) = (Inr 1, b2, r2)"
    by (simp add: relayed_FindOrCreate_def relay_Join_eq [OF room_facts(4)] just_joined_def fresh_relay_def)
  obtain r3 where r3: "relay_Leave ?H ?n r2 = (None, r3)" using relay_Leave_eq [OF z] by blast
  have "map_of (held ?b) (name_String ?H ?n) = Some 0" "subscribers (heap ?b ! 0) = []" by (simp_all add: b room_facts(3))
  from removal_race_deafens_a_channel [OF step one_room_facts(2) room_facts(4) room_facts(4) this r1 r2 r3] r1 r2 r3
  show ?thesis by (auto simp: room_facts(1))
qed

end
