(* ===== verification/Pusher_Protocol.thy ===== *)
theory Pusher_Protocol
  imports Pusher_Broker
begin

text \<open>
  \<^verbatim>\<open>protocols/pusher/protocol.go\<close>: what a frame means once it was read, and which frame
  answers it. The state is the protocol's own record of who is on what and of which channels
  are reserved, the broker's registry behind it, and the record of everything said to the
  outside: the messages sent, the observer's announcements, the questions the policy was
  asked, and the events handed to the other instances.

  A socket's frames are handled in order and different sockets' are not, so the file has the
  handlers twice: as functions, the way the code runs them, and cut at the points where the
  code releases its lock, as a step relation in which sockets interleave. The functions are
  runs of the relation.
\<close>

section \<open>State\<close>

record 'g seat =
  seat_name :: ChannelName
  seat_channel :: nat
  seat_grant :: 'g

datatype announcement = ChannelCreated ChannelName | ChannelRemoved ChannelName

text \<open>
  The two maps of the code are functions: a socket that is not a key of \<open>seats\<close> has the empty
  map, and a name that is not a key of \<open>joining\<close> has the count zero, which is what reading
  them answers in Go.
\<close>

record 'g pusher =
  brk :: "'g broker"
  seats :: "SocketID \<Rightarrow> (string \<times> 'g seat) list"
  joining :: "string \<Rightarrow> nat"
  out :: outbox
  told :: "announcement list"
  asked :: "Subscription list"
  carried :: "Event list"

text \<open>
  What surrounds the protocol: the functions of hesape, the sockets' sinks, the policy, which
  may answer differently each time it is asked, whether the broker carries events to other
  instances, and the settings.
\<close>

type_synonym ('g, 's) policy = "Subscription list \<Rightarrow> 's \<Rightarrow> string \<Rightarrow> Subscription \<Rightarrow> jerr + 'g"

record PusherConfig =
  ActivityTimeout :: int
  ClientEvents :: bool
  MaxChannelsPerConnection :: int

record ('g, 's) pusher_env =
  hes :: "('g, 's) hesape"
  snk :: sink
  subscribe_policy :: "('g, 's) policy"
  is_carrier :: bool
  events :: bool
  timeout :: int
  maxChannels :: int

definition DefaultMaxChannelsPerConnection :: int where
  "DefaultMaxChannelsPerConnection = 100"

text \<open>A nil broker or policy panics; \<open>Inl\<close> is the panic.\<close>

definition NewPusher :: "('g, 's) hesape \<Rightarrow> sink \<Rightarrow> ('g broker \<times> bool) option \<Rightarrow> ('g, 's) policy option \<Rightarrow> PusherConfig \<Rightarrow>
    string + ('g, 's) pusher_env \<times> 'g pusher" where
  "NewPusher H s broker subscribe cfg =
    (case broker of
       None \<Rightarrow> Inl ''joaju: a Pusher protocol needs a Broker, which is the only way to a channel''
     | Some (b, carrier) \<Rightarrow>
       (case subscribe of
          None \<Rightarrow> Inl ''joaju: a Pusher protocol needs a SubscriptionPolicy, because subscribing to a channel is a read''
        | Some policy \<Rightarrow>
            Inr (\<lparr>hes = H, snk = s, subscribe_policy = policy, is_carrier = carrier, events = ClientEvents cfg,
                   timeout = ActivityTimeout cfg,
                   maxChannels = (if MaxChannelsPerConnection cfg = 0 then DefaultMaxChannelsPerConnection
                                  else MaxChannelsPerConnection cfg)\<rparr>,
                 \<lparr>brk = b, seats = (\<lambda>_. []), joining = (\<lambda>_. 0), out = [], told = [], asked = [], carried = []\<rparr>)))"

section \<open>The record of who is on what\<close>

definition atChannelLimit :: "('g, 's) pusher_env \<Rightarrow> SocketID \<Rightarrow> ChannelName \<Rightarrow> 'g pusher \<Rightarrow> bool" where
  "atChannelLimit E sid name p =
    (if maxChannels E < 0 then False
     else if map_of (seats p sid) (name_String (hes E) name) \<noteq> None then False
     else int (length (seats p sid)) \<ge> maxChannels E)"

definition finishJoining :: "('g, 's) pusher_env \<Rightarrow> ChannelName \<Rightarrow> 'g pusher \<Rightarrow> 'g pusher" where
  "finishJoining E name p =
    (let key = name_String (hes E) name in
     if joining p key \<le> 1 then p\<lparr>joining := (joining p)(key := 0)\<rparr>
     else p\<lparr>joining := (joining p)(key := joining p key - 1)\<rparr>)"

definition take_seat :: "('g, 's) pusher_env \<Rightarrow> SocketID \<Rightarrow> 'g seat \<Rightarrow> 'g pusher \<Rightarrow> 'g pusher" where
  "take_seat E sid s p =
    (let p1 = finishJoining E (seat_name s) p in
     p1\<lparr>seats := (seats p1)(sid := AList.update (name_String (hes E) (seat_name s)) s (seats p1 sid))\<rparr>)"

definition seatOf :: "('g, 's) pusher_env \<Rightarrow> SocketID \<Rightarrow> ChannelName \<Rightarrow> 'g pusher \<Rightarrow> 'g seat option" where
  "seatOf E sid name p = map_of (seats p sid) (name_String (hes E) name)"

definition forgetOne :: "('g, 's) pusher_env \<Rightarrow> SocketID \<Rightarrow> ChannelName \<Rightarrow> 'g pusher \<Rightarrow> 'g seat option \<times> 'g pusher" where
  "forgetOne E sid name p =
    (let key = name_String (hes E) name in
     case map_of (seats p sid) key of
       None \<Rightarrow> (None, p)
     | Some s \<Rightarrow> (Some s, p\<lparr>seats := (seats p)(sid := AList.delete key (seats p sid))\<rparr>))"

definition forget :: "SocketID \<Rightarrow> 'g pusher \<Rightarrow> 'g seat list \<times> 'g pusher" where
  "forget sid p = (map snd (seats p sid), p\<lparr>seats := (seats p)(sid := [])\<rparr>)"

section \<open>The two ends of a channel's life\<close>

definition reach :: "('g, 's) pusher_env \<Rightarrow> 'g \<Rightarrow> ChannelName \<Rightarrow> 'g pusher \<Rightarrow> (jerr + nat \<times> bool) \<times> 'g pusher" where
  "reach E g name p =
    (let found = Find (hes E) g name (brk p);
         missing = (case found of Inl err \<Rightarrow> is_no_channel err | Inr _ \<Rightarrow> False)
     in case (found, missing) of
          (Inl err, False) \<Rightarrow> (Inl err, p)
        | _ \<Rightarrow>
            (case FindOrCreate (hes E) g name (brk p) of
               (Inl err, b) \<Rightarrow> (Inl err, p\<lparr>brk := b\<rparr>)
             | (Inr r, b) \<Rightarrow>
                 let key = name_String (hes E) name in
                 (Inr (r, missing), p\<lparr>brk := b, joining := (joining p)(key := joining p key + 1)\<rparr>)))"

definition drop_channel :: "('g, 's) pusher_env \<Rightarrow> 'g seat \<Rightarrow> 'g pusher \<Rightarrow> (bool \<times> jerr option) \<times> 'g pusher" where
  "drop_channel E s p =
    (if joining p (name_String (hes E) (seat_name s)) > 0 then ((False, None), p)
     else if length (Connections (heap (brk p) ! seat_channel s)) > 0 then ((False, None), p)
     else case Remove (hes E) (seat_grant s) (seat_name s) (brk p) of
        (Some err, b) \<Rightarrow> ((False, Some err), p\<lparr>brk := b\<rparr>)
      | (None, b) \<Rightarrow>
          (((case Find (hes E) (seat_grant s) (seat_name s) b of Inl err \<Rightarrow> is_no_channel err | Inr _ \<Rightarrow> False), None),
           p\<lparr>brk := b\<rparr>))"

definition observe :: "announcement \<Rightarrow> 'g pusher \<Rightarrow> 'g pusher" where
  "observe a p = p\<lparr>told := told p @ [a]\<rparr>"

text \<open>An operation of the channel at a reference, the messages it sends included.\<close>

definition on_channel :: "nat \<Rightarrow> ('g channel \<times> outbox \<Rightarrow> jerr option \<times> 'g channel \<times> outbox) \<Rightarrow> 'g pusher \<Rightarrow>
    jerr option \<times> 'g pusher" where
  "on_channel r f p =
    (let (e, c, w) = f (heap (brk p) ! r, out p) in
     (e, p\<lparr>brk := (brk p)\<lparr>heap := (heap (brk p))[r := c]\<rparr>, out := w\<rparr>))"

definition unseat :: "('g, 's) pusher_env \<Rightarrow> 'g Connection \<Rightarrow> 'g seat \<Rightarrow> 'g pusher \<Rightarrow> jerr option \<times> 'g pusher" where
  "unseat E conn s p =
    (let (left, p1) = on_channel (seat_channel s) (Unsubscribe (hes E) (snk E) conn) p;
         ((gone, err), p2) = drop_channel E s p1;
         p3 = (if gone then observe (ChannelRemoved (seat_name s)) p2 else p2)
     in (errors_join [left, err], p3))"

section \<open>Answers\<close>

definition write_frame :: "('g, 's) pusher_env \<Rightarrow> 'g Connection \<Rightarrow> Frame \<Rightarrow> 'g pusher \<Rightarrow> jerr option \<times> 'g pusher" where
  "write_frame E conn f p =
    (case Encode f of
       Inl err \<Rightarrow> (Some err, p)
     | Inr message \<Rightarrow> (let (e, w) = conn_Send (snk E) (out p) conn message in (e, p\<lparr>out := w\<rparr>)))"

definition refuse :: "('g, 's) pusher_env \<Rightarrow> 'g Connection \<Rightarrow> jerr \<Rightarrow> 'g pusher \<Rightarrow> jerr option \<times> 'g pusher" where
  "refuse E conn cause p =
    (case write_frame E conn (ErrorFrame cause) p of
       (Some err, p') \<Rightarrow> (errors_join [Some cause, Some err], p')
     | (None, p') \<Rightarrow> (Some cause, p'))"

definition Authorize :: "('g, 's) pusher_env \<Rightarrow> 'g Connection \<Rightarrow> Subscription \<Rightarrow> 'g pusher \<Rightarrow> (jerr + 'g) \<times> 'g pusher" where
  "Authorize E conn sub p =
    (subscribe_policy E (asked p) (conn_Subject (hes E) conn) (ChannelJoin (hes E)) sub, p\<lparr>asked := asked p @ [sub]\<rparr>)"

section \<open>The handlers\<close>

definition Open :: "('g, 's) pusher_env \<Rightarrow> 'g Connection \<Rightarrow> 'g pusher \<Rightarrow> jerr option \<times> 'g pusher" where
  "Open E conn p = write_frame E conn (ConnectionEstablished (conn_id conn) (timeout E)) p"

text \<open>The second half of \<open>join\<close>, from the moment the policy has issued a grant.\<close>

definition join_granted :: "('g, 's) pusher_env \<Rightarrow> 'g Connection \<Rightarrow> ChannelName \<Rightarrow> Member \<Rightarrow> 'g \<Rightarrow> 'g pusher \<Rightarrow>
    jerr option \<times> 'g pusher" where
  "join_granted E conn name member grant p1 =
    (case reach E grant name p1 of
       (Inl err, p2) \<Rightarrow> (Some err, p2)
     | (Inr (r, made), p2) \<Rightarrow>
         let p3 = (if made then observe (ChannelCreated name) p2 else p2);
             mine = \<lparr>seat_name = name, seat_channel = r, seat_grant = grant\<rparr>
         in (case on_channel r (Subscribe (hes E) (snk E) grant conn member) p3 of
               (Some err, p4) \<Rightarrow> (Some err, snd (unseat E conn mine (finishJoining E name p4)))
             | (None, p4) \<Rightarrow>
                 let p5 = take_seat E (conn_id conn) mine p4
                 in (case SubscriptionSucceeded name (channel_Data (hes E) (heap (brk p5) ! r)) of
                       Inl err \<Rightarrow> (Some err, p5)
                     | Inr confirmation \<Rightarrow> write_frame E conn confirmation p5)))"

definition join :: "('g, 's) pusher_env \<Rightarrow> 'g Connection \<Rightarrow> Frame \<Rightarrow> 'g pusher \<Rightarrow> jerr option \<times> 'g pusher" where
  "join E conn f p =
    (case Subscribe_request f of Inl err \<Rightarrow> (Some err, p) | Inr request \<Rightarrow>
    (case Member_of request of Inl err \<Rightarrow> (Some err, p) | Inr member \<Rightarrow>
    (case NewChannelName (hes E) (conn_grant conn) (rq_Channel request) of Inl err \<Rightarrow> (Some err, p) | Inr name \<Rightarrow>
     if atChannelLimit E (conn_id conn) name p then (Some ErrChannelLimit, p)
     else
       case Authorize E conn \<lparr>subs_Channel = name, subs_Member = member, subs_Socket = conn_id conn,
              subs_Auth = rq_Auth request, subs_ChannelData = rq_ChannelData request\<rparr> p of
         (Inl err, p1) \<Rightarrow> (Some err, p1)
       | (Inr grant, p1) \<Rightarrow> join_granted E conn name member grant p1)))"

definition part :: "('g, 's) pusher_env \<Rightarrow> 'g Connection \<Rightarrow> Frame \<Rightarrow> 'g pusher \<Rightarrow> jerr option \<times> 'g pusher" where
  "part E conn f p =
    (case Unsubscribe_request f of Inl err \<Rightarrow> (Some err, p) | Inr req \<Rightarrow>
    (case NewChannelName (hes E) (conn_grant conn) req of Inl err \<Rightarrow> (Some err, p) | Inr name \<Rightarrow>
    (case forgetOne E (conn_id conn) name p of
       (None, p1) \<Rightarrow> (None, p1)
     | (Some mine, p1) \<Rightarrow> unseat E conn mine p1)))"

definition carry :: "('g, 's) pusher_env \<Rightarrow> Event \<Rightarrow> 'g pusher \<Rightarrow> 'g pusher" where
  "carry E e p = (if is_carrier E then p\<lparr>carried := carried p @ [e]\<rparr> else p)"

text \<open>
  A socket with no seat has no channel to look in: the sender is then nobody and not
  subscribed, and \<open>Accept\<close> has refused before the missing channel is used.
\<close>

definition whisper :: "('g, 's) pusher_env \<Rightarrow> 'g Connection \<Rightarrow> Frame \<Rightarrow> 'g pusher \<Rightarrow> jerr option \<times> 'g pusher" where
  "whisper E conn f p =
    (case NewChannelName (hes E) (conn_grant conn) (fr_Channel f) of Inl err \<Rightarrow> (Some err, p) | Inr name \<Rightarrow>
     let mine = seatOf E (conn_id conn) name p;
         found = (case mine of None \<Rightarrow> None | Some s \<Rightarrow> channel_Find (heap (brk p) ! seat_channel s) (conn_id conn));
         sender = (case found of None \<Rightarrow> no_member | Some s \<Rightarrow> sub_Member s)
     in case Accept (hes E) (events E) f name (conn_id conn) sender (found \<noteq> None) of
          Inl err \<Rightarrow> (Some err, p)
        | Inr event \<Rightarrow>
            (case mine of
               None \<Rightarrow> (None, p)
             | Some s \<Rightarrow>
                 (case on_channel (seat_channel s) (Broadcast (hes E) (snk E) event) p of
                    (Some err, p1) \<Rightarrow> (Some err, p1)
                  | (None, p1) \<Rightarrow> (None, carry E event p1))))"

text \<open>The switch of \<open>Message\<close>; nothing is owed to a pong, and the switch has no default case.\<close>

definition dispatch :: "('g, 's) pusher_env \<Rightarrow> 'g Connection \<Rightarrow> Frame \<Rightarrow> 'g pusher \<Rightarrow> jerr option \<times> 'g pusher" where
  "dispatch E conn f p =
    (if IsClientEvent f then whisper E conn f p
     else if fr_Event f = EventSubscribe then join E conn f p
     else if fr_Event f = EventUnsubscribe then part E conn f p
     else if fr_Event f = EventPing then write_frame E conn Pong p
     else (None, p))"

definition Message :: "('g, 's) pusher_env \<Rightarrow> 'g Connection \<Rightarrow> string \<Rightarrow> 'g pusher \<Rightarrow> jerr option \<times> 'g pusher" where
  "Message E conn message p =
    (case Decode message of
       Inl err \<Rightarrow> refuse E conn err p
     | Inr f \<Rightarrow>
       (case ClientMaySend f of
          Some err \<Rightarrow> refuse E conn err p
        | None \<Rightarrow>
            (case dispatch E conn f p of
               (Some cause, p1) \<Rightarrow> refuse E conn cause p1
             | (None, p1) \<Rightarrow> (None, p1))))"

fun unseat_all :: "('g, 's) pusher_env \<Rightarrow> 'g Connection \<Rightarrow> 'g seat list \<Rightarrow> 'g pusher \<Rightarrow> 'g pusher" where
  "unseat_all E conn [] p = p"
| "unseat_all E conn (s # ss) p = unseat_all E conn ss (snd (unseat E conn s p))"

definition Close :: "('g, 's) pusher_env \<Rightarrow> 'g Connection \<Rightarrow> 'g pusher \<Rightarrow> 'g pusher" where
  "Close E conn p = (let (ss, p1) = forget (conn_id conn) p in unseat_all E conn ss p1)"

datatype Refusal = RefusalOverQuota | RefusalRateLimited | RefusalUnreadable

definition encoded :: "jerr \<Rightarrow> string" where
  "encoded err = (case Encode (error_frame (pe_code err) (pe_message err)) of Inl _ \<Rightarrow> [] | Inr m \<Rightarrow> m)"

fun Refuse :: "Refusal \<Rightarrow> string" where
  "Refuse RefusalOverQuota = encoded ErrOverQuota"
| "Refuse RefusalRateLimited = encoded ErrRateLimited"
| "Refuse RefusalUnreadable = encoded ErrInvalidMessage"

end
