(* ===== verification/Pusher_Interleaving.thy ===== *)
theory Pusher_Interleaving
  imports Pusher_Protocol
begin

text \<open>
  The Pusher protocol with its sockets interleaved. Every rule of the step relation is one
  critical section of \<^verbatim>\<open>protocols/pusher/protocol.go\<close>, or one operation of a channel, which
  has a lock of its own; between two of them any other socket may run. The invariant says what
  the reservation in \<open>joining\<close> is for: a channel somebody is on is the one the broker hands
  out, and a channel nobody is on does not stay.
\<close>

section \<open>What a socket is in the middle of\<close>

datatype 'g task =
    Idle
  | Joining "'g Connection" Member "'g seat"
  | Seating "'g Connection" "'g seat"
  | Failing "'g Connection" "'g seat"
  | Leaving "'g Connection" "'g seat list"
  | Dropping "'g Connection" "'g seat" "'g seat list"

type_synonym 'g system = "'g pusher \<times> (SocketID \<Rightarrow> 'g task)"

inductive pstep :: "('g, 's) pusher_env \<Rightarrow> 'g system \<Rightarrow> 'g system \<Rightarrow> bool" for E where
  begin_join:
  "\<lbrakk>t sid = Idle; conn_id conn = sid; sid \<noteq> []; NewChannelName (hes E) (conn_grant conn) req = Inr name;
    \<not> atChannelLimit E sid name p; reach E g name p = (Inr (r, made), p')\<rbrakk> \<Longrightarrow>
   pstep E (p, t) (if made then observe (ChannelCreated name) p' else p',
     t(sid := Joining conn m \<lparr>seat_name = name, seat_channel = r, seat_grant = g\<rparr>))"
| subscribed:
  "\<lbrakk>t sid = Joining conn m s; on_channel (seat_channel s) (Subscribe (hes E) (snk E) (seat_grant s) conn m) p = (None, p')\<rbrakk> \<Longrightarrow>
   pstep E (p, t) (p', t(sid := Seating conn s))"
| not_subscribed:
  "\<lbrakk>t sid = Joining conn m s; on_channel (seat_channel s) (Subscribe (hes E) (snk E) (seat_grant s) conn m) p = (Some e, p')\<rbrakk> \<Longrightarrow>
   pstep E (p, t) (p', t(sid := Failing conn s))"
| taken:
  "t sid = Seating conn s \<Longrightarrow> pstep E (p, t) (take_seat E sid s p, t(sid := Idle))"
| finished:
  "t sid = Failing conn s \<Longrightarrow> pstep E (p, t) (finishJoining E (seat_name s) p, t(sid := Leaving conn [s]))"
| begin_part:
  "\<lbrakk>t sid = Idle; conn_id conn = sid; forgetOne E sid name p = (Some s, p')\<rbrakk> \<Longrightarrow>
   pstep E (p, t) (p', t(sid := Leaving conn [s]))"
| begin_close:
  "\<lbrakk>t sid = Idle; conn_id conn = sid; forget sid p = (ss, p')\<rbrakk> \<Longrightarrow> pstep E (p, t) (p', t(sid := Leaving conn ss))"
| leaves:
  "\<lbrakk>t sid = Leaving conn (s # ss); on_channel (seat_channel s) (Unsubscribe (hes E) (snk E) conn) p = (e, p')\<rbrakk> \<Longrightarrow>
   pstep E (p, t) (p', t(sid := Dropping conn s ss))"
| drops:
  "\<lbrakk>t sid = Dropping conn s ss; drop_channel E s p = ((gone, e), p')\<rbrakk> \<Longrightarrow>
   pstep E (p, t) (if gone then observe (ChannelRemoved (seat_name s)) p' else p', t(sid := Leaving conn ss))"
| has_left:
  "t sid = Leaving conn [] \<Longrightarrow> pstep E (p, t) (p, t(sid := Idle))"
| publishes:
  "\<lbrakk>r < length (heap (brk p)); on_channel r (channel_send (hes E) (snk E) ev skip) p = (e, p')\<rbrakk> \<Longrightarrow> pstep E (p, t) (p', t)"
| speaks:
  "pstep E (p, t) (p\<lparr>out := w, asked := a, carried := cs\<rparr>, t)"

definition fresh :: "'g system \<Rightarrow> bool" where
  "fresh = (\<lambda>(p, t). brk p = NewMemoryBroker \<and> (\<forall>sid. seats p sid = []) \<and> (\<forall>k. joining p k = 0) \<and> (\<forall>sid. t sid = Idle))"

section \<open>The invariant\<close>

fun joins :: "'g task \<Rightarrow> 'g seat option" where
  "joins (Joining conn m s) = Some s"
| "joins (Seating conn s) = Some s"
| "joins (Failing conn s) = Some s"
| "joins _ = None"

text \<open>The channels a socket may still be on without a record of it.\<close>

fun owed :: "'g task \<Rightarrow> 'g seat set" where
  "owed (Seating conn s) = {s}"
| "owed (Failing conn s) = {s}"
| "owed (Leaving conn ss) = set ss"
| "owed (Dropping conn s ss) = set ss"
| "owed _ = {}"

text \<open>The channels whose emptiness a socket has yet to look at.\<close>

fun pending :: "'g task \<Rightarrow> 'g seat set" where
  "pending (Leaving conn ss) = set ss"
| "pending (Dropping conn s ss) = insert s (set ss)"
| "pending _ = {}"

fun task_conn :: "'g task \<Rightarrow> 'g Connection option" where
  "task_conn Idle = None"
| "task_conn (Joining conn m s) = Some conn"
| "task_conn (Seating conn s) = Some conn"
| "task_conn (Failing conn s) = Some conn"
| "task_conn (Leaving conn ss) = Some conn"
| "task_conn (Dropping conn s ss) = Some conn"

definition seat_key :: "('g, 's) pusher_env \<Rightarrow> 'g seat \<Rightarrow> string" where
  "seat_key E s = name_String (hes E) (seat_name s)"

definition joiners :: "('g, 's) pusher_env \<Rightarrow> (SocketID \<Rightarrow> 'g task) \<Rightarrow> string \<Rightarrow> SocketID set" where
  "joiners E t k = {sid. \<exists>s. joins (t sid) = Some s \<and> seat_key E s = k}"

definition good_seat :: "('g, 's) pusher_env \<Rightarrow> 'g broker \<Rightarrow> 'g seat \<Rightarrow> bool" where
  "good_seat E b s \<longleftrightarrow> plain_name (seat_name s) \<and> seat_channel s < length (heap b) \<and>
    ch_name (heap b ! seat_channel s) = seat_name s \<and> broker_accepts (hes E) (seat_grant s) (seat_name s) = None"

text \<open>No orphans: a channel somebody is on is the one held under its name.\<close>

definition registered :: "('g, 's) pusher_env \<Rightarrow> 'g broker \<Rightarrow> bool" where
  "registered E b \<longleftrightarrow> (\<forall>r < length (heap b). ids (heap b ! r) \<noteq> {} \<longrightarrow>
    map_of (held b) (name_String (hes E) (ch_name (heap b ! r))) = Some r)"

text \<open>A reservation is one socket between reaching a channel and being recorded on it.\<close>

definition counted :: "('g, 's) pusher_env \<Rightarrow> (string \<Rightarrow> nat) \<Rightarrow> (SocketID \<Rightarrow> 'g task) \<Rightarrow> bool" where
  "counted E j t \<longleftrightarrow> finite {sid. joins (t sid) \<noteq> None} \<and> (\<forall>k. j k = card (joiners E t k))"

text \<open>What a socket is joining is what the broker hands out, and it is on it once it was seated.\<close>

definition reserved :: "('g, 's) pusher_env \<Rightarrow> 'g broker \<Rightarrow> (SocketID \<Rightarrow> 'g task) \<Rightarrow> bool" where
  "reserved E b t \<longleftrightarrow> (\<forall>sid.
    (\<forall>s. joins (t sid) = Some s \<longrightarrow> map_of (held b) (seat_key E s) = Some (seat_channel s)) \<and>
    (\<forall>conn s. t sid = Seating conn s \<longrightarrow> sid \<in> ids (heap b ! seat_channel s)))"

definition socket_ok :: "('g, 's) pusher_env \<Rightarrow> 'g broker \<Rightarrow> SocketID \<Rightarrow> (string \<times> 'g seat) list \<Rightarrow> 'g task \<Rightarrow> bool" where
  "socket_ok E b sid ss tk \<longleftrightarrow> distinct (map fst ss) \<and>
    (\<forall>(k, s) \<in> set ss. k = seat_key E s \<and> good_seat E b s) \<and>
    (\<forall>s \<in> set_option (joins tk) \<union> owed tk \<union> pending tk. good_seat E b s) \<and>
    (\<forall>conn \<in> set_option (task_conn tk). conn_id conn = sid) \<and> (joins tk \<noteq> None \<longrightarrow> sid \<noteq> [])"

definition well_seated :: "('g, 's) pusher_env \<Rightarrow> 'g pusher \<Rightarrow> (SocketID \<Rightarrow> 'g task) \<Rightarrow> bool" where
  "well_seated E p t \<longleftrightarrow> (\<forall>sid. socket_ok E (brk p) sid (seats p sid) (t sid))"

text \<open>Whoever is on a channel has a record of it or is about to make or to undo it.\<close>

definition accounted :: "'g pusher \<Rightarrow> (SocketID \<Rightarrow> 'g task) \<Rightarrow> bool" where
  "accounted p t \<longleftrightarrow> (\<forall>r < length (heap (brk p)). \<forall>sid \<in> ids (heap (brk p) ! r).
    r \<in> seat_channel ` (snd ` set (seats p sid) \<union> owed (t sid)))"

text \<open>A channel that is held has somebody on it, or somebody joining, or somebody about to look.\<close>

definition swept :: "('g, 's) pusher_env \<Rightarrow> 'g broker \<Rightarrow> (SocketID \<Rightarrow> 'g task) \<Rightarrow> bool" where
  "swept E b t \<longleftrightarrow> (\<forall>k r. map_of (held b) k = Some r \<longrightarrow> ids (heap b ! r) \<noteq> {} \<or>
    joiners E t k \<noteq> {} \<or> (\<exists>sid. \<exists>s \<in> pending (t sid). seat_key E s = k))"

definition within_limit :: "('g, 's) pusher_env \<Rightarrow> 'g pusher \<Rightarrow> (SocketID \<Rightarrow> 'g task) \<Rightarrow> bool" where
  "within_limit E p t \<longleftrightarrow> (0 \<le> maxChannels E \<longrightarrow> (\<forall>sid. int (length (seats p sid)) \<le> maxChannels E \<and>
    (\<forall>s. joins (t sid) = Some s \<longrightarrow> map_of (seats p sid) (seat_key E s) \<noteq> None \<or>
       int (length (seats p sid)) < maxChannels E)))"

definition sys_ok :: "('g, 's) pusher_env \<Rightarrow> 'g system \<Rightarrow> bool" where
  "sys_ok E = (\<lambda>(p, t). broker_ok (hes E) (brk p) \<and> registered E (brk p) \<and> counted E (joining p) t \<and>
    reserved E (brk p) t \<and> well_seated E p t \<and> accounted p t \<and> swept E (brk p) t \<and> within_limit E p t)"

section \<open>What the operations of a channel change\<close>

definition put_channel :: "nat \<Rightarrow> 'g channel \<Rightarrow> outbox \<Rightarrow> 'g pusher \<Rightarrow> 'g pusher" where
  "put_channel r c w p = p\<lparr>brk := (brk p)\<lparr>heap := (heap (brk p))[r := c]\<rparr>, out := w\<rparr>"

lemma put_channel_simps [simp]:
  "brk (put_channel r c w p) = (brk p)\<lparr>heap := (heap (brk p))[r := c]\<rparr>" "out (put_channel r c w p) = w"
  "seats (put_channel r c w p) = seats p" "joining (put_channel r c w p) = joining p"
  by (simp_all add: put_channel_def)

lemma on_channel_put:
  "on_channel r f p = (e, p') \<longleftrightarrow> (\<exists>c w. f (heap (brk p) ! r, out p) = (e, c, w) \<and> p' = put_channel r c w p)"
  by (auto simp: on_channel_def put_channel_def split: prod.splits)

lemma ids_seated: "channel_ok H c \<Longrightarrow> ids (seated H conn m c) = insert (conn_id conn) (ids c)"
  by (auto simp: ids_def seated_subscribers image_iff)

lemma ids_unseated: "ids (unseated conn c) = ids c - {conn_id conn}"
  by (auto simp: ids_def)

lemma ids_empty: "ids c = {} \<longleftrightarrow> subscribers c = []"
  by (simp add: ids_def)

lemma Subscribe_effect:
  assumes "channel_ok H c" "conn_id conn \<noteq> []" "Subscribe H s g conn m (c, w) = (e, c', w')"
  shows "channel_ok H c'" "ch_name c' = ch_name c"
    "ids c' = insert (conn_id conn) (ids c) \<or> c' = c \<and> e \<noteq> None"
proof -
  have "c' = seated H conn m c \<and> may_seat H g conn m c \<or> c' = c \<and> e \<noteq> None"
  proof (cases "may_seat H g conn m c")
    case True
    then show ?thesis using assms(3) Subscribe_new [OF True, of s w] Subscribe_again [OF True, of s w]
      by (cases "channel_Find c (conn_id conn) = None") auto
  next
    case False
    then show ?thesis using Subscribe_refused [OF False, of s w] assms(3) by auto
  qed
  then show "channel_ok H c'" "ch_name c' = ch_name c" "ids c' = insert (conn_id conn) (ids c) \<or> c' = c \<and> e \<noteq> None"
    using seated_ok_channel [OF assms(1) _ assms(2)] assms(1) ids_seated [OF assms(1)] by auto
qed

lemma Unsubscribe_effect:
  assumes "channel_ok H c" "Unsubscribe H s conn (c, w) = (e, c', w')"
  shows "channel_ok H c'" "ch_name c' = ch_name c" "ids c' = ids c - {conn_id conn}"
  using Unsubscribe_eq [of H s conn c w] assms(2) unseated_ok_channel [OF assms(1)] by (simp_all add: ids_unseated)

lemma send_effect:
  assumes "channel_ok H c" "channel_send H s ev skip (c, w) = (e, c', w')"
  shows "channel_ok H c'" "ch_name c' = ch_name c" "ids c' = ids c"
  using assms(2) channel_send_ok [OF assms(1), of ev s skip w] channel_send_refused [of c ev _ H s skip w]
    with_cached_ok [OF assms(1), of ev] assms(1)
  by (cases "channel_accepts c ev"; simp)+

section \<open>The invariant is kept\<close>

lemma sys_okD:
  assumes "sys_ok E (p, t)"
  shows "broker_ok (hes E) (brk p)" "registered E (brk p)" "counted E (joining p) t" "reserved E (brk p) t"
    "well_seated E p t" "accounted p t" "swept E (brk p) t" "within_limit E p t"
  using assms by (simp_all add: sys_ok_def)

lemma reservedD:
  assumes "reserved E b t"
  shows "joins (t sid) = Some s \<Longrightarrow> map_of (held b) (seat_key E s) = Some (seat_channel s)"
    "t sid = Seating conn s \<Longrightarrow> sid \<in> ids (heap b ! seat_channel s)"
  using assms unfolding reserved_def by blast+

lemma put_good_seat:
  assumes "r < length (heap b)" "ch_name c = ch_name (heap b ! r)"
  shows "good_seat E (b\<lparr>heap := (heap b)[r := c]\<rparr>) s = good_seat E b s"
  using assms by (cases "seat_channel s = r") (simp_all add: good_seat_def)

text \<open>A step of one socket that changes one channel, in nothing but whether that socket is on it.\<close>

lemma put_sys:
  assumes ok: "sys_ok E (p, t)" and r: "r < length (heap (brk p))"
    and c: "channel_ok (hes E) c" "ch_name c = ch_name (heap (brk p) ! r)"
    and only: "ids c - {sid} = ids (heap (brk p) ! r) - {sid}"
    and task: "joins t' = joins (t sid)" "task_conn t' = task_conn (t sid)" "pending (t sid) \<subseteq> pending t'"
      "owed t' \<union> pending t' \<subseteq> set_option (joins (t sid)) \<union> owed (t sid) \<union> pending (t sid)"
    and own: "sid \<in> ids c \<Longrightarrow> r \<in> seat_channel ` (snd ` set (seats p sid) \<union> owed t')"
      "\<And>s. s \<in> owed (t sid) \<Longrightarrow> s \<in> owed t' \<or> seat_channel s = r"
    and reg: "ids c \<noteq> {} \<Longrightarrow> map_of (held (brk p)) (name_String (hes E) (ch_name c)) = Some r"
    and swp: "ids c = {} \<Longrightarrow> ids (heap (brk p) ! r) = {} \<or>
      (\<exists>s \<in> pending t'. seat_key E s = name_String (hes E) (ch_name c))"
    and seating: "\<And>conn s. t' = Seating conn s \<Longrightarrow>
      (if seat_channel s = r then sid \<in> ids c else sid \<in> ids (heap (brk p) ! seat_channel s))"
  shows "sys_ok E (put_channel r c w p, t(sid := t'))"
proof -
  let ?b = "(brk p)\<lparr>heap := (heap (brk p))[r := c]\<rparr>" and ?t = "t(sid := t')"
  note ok' = sys_okD [OF ok]
  have joiners: "joiners E ?t = joiners E t" using task(1) by (auto simp: joiners_def fun_eq_iff)
  have nth: "heap ?b ! i = (if i = r then c else heap (brk p) ! i)" for i using r by simp
  have good: "good_seat E ?b s = good_seat E (brk p) s" for s by (rule put_good_seat [OF r c(2)])
  have keep: "x \<in> ids c \<longleftrightarrow> x \<in> ids (heap (brk p) ! r)" if "x \<noteq> sid" for x using only that by blast
  have "broker_ok (hes E) ?b" by (rule put_broker_ok [OF ok'(1) r c])
  moreover have "registered E ?b" using ok'(2) reg unfolding registered_def nth by (auto simp: c(2))
  moreover have "counted E (joining p) ?t"
  proof -
    have "{x. joins (?t x) \<noteq> None} = {x. joins (t x) \<noteq> None}" using task(1) by auto
    then show ?thesis using ok'(3) by (simp add: counted_def joiners)
  qed
  moreover have "reserved E ?b ?t"
    using ok'(4) task(1) seating keep unfolding reserved_def nth by (auto split: if_splits)
  moreover have "well_seated E (put_channel r c w p) ?t"
  proof -
    have "socket_ok E ?b x ss tk = socket_ok E (brk p) x ss tk" for x ss tk by (simp add: socket_ok_def good)
    moreover have "socket_ok E (brk p) sid (seats p sid) t'"
    proof -
      have old: "socket_ok E (brk p) sid (seats p sid) (t sid)" using ok'(5) by (simp add: well_seated_def)
      have "\<forall>s \<in> set_option (joins t') \<union> owed t' \<union> pending t'. good_seat E (brk p) s"
        using old task(1) subsetD [OF task(4)] unfolding socket_ok_def by auto
      then show ?thesis using old task(1,2) by (simp add: socket_ok_def)
    qed
    ultimately show ?thesis using ok'(5) by (simp add: well_seated_def)
  qed
  moreover have "accounted (put_channel r c w p) ?t"
    unfolding accounted_def put_channel_simps nth
  proof (intro allI impI ballI)
    fix i x
    assume i: "i < length (heap ?b)" and x: "x \<in> ids (if i = r then c else heap (brk p) ! i)"
    have old: "x \<in> ids (heap (brk p) ! i) \<Longrightarrow> i \<in> seat_channel ` (snd ` set (seats p x) \<union> owed (t x))"
      using ok'(6) i by (simp add: accounted_def)
    show "i \<in> seat_channel ` (snd ` set (seats p x) \<union> owed (?t x))"
    proof (cases "x = sid")
      case True
      show ?thesis
      proof (cases "i = r")
        case True then show ?thesis using own(1) x \<open>x = sid\<close> by simp
      next
        case False then show ?thesis using old own(2) x \<open>x = sid\<close> by auto
      qed
    next
      case False
      then show ?thesis using old x keep by (auto split: if_splits)
    qed
  qed
  moreover have "swept E ?b ?t"
    unfolding swept_def
  proof (intro allI impI)
    fix k i
    assume ki: "map_of (held ?b) k = Some i"
    then have k: "k = name_String (hes E) (ch_name (heap (brk p) ! i))"
      using broker_ok_held(2) [OF ok'(1)] by simp
    have pend: "\<exists>x. \<exists>s \<in> pending (?t x). seat_key E s = k" if "\<exists>x. \<exists>s \<in> pending (t x). seat_key E s = k"
    proof -
      from that obtain x s where "s \<in> pending (t x)" "seat_key E s = k" by blast
      then have "s \<in> pending (?t x)" using task(3) by (cases "x = sid") auto
      then show ?thesis using \<open>seat_key E s = k\<close> by blast
    qed
    have old: "ids (heap (brk p) ! i) \<noteq> {} \<or> joiners E t k \<noteq> {} \<or> (\<exists>x. \<exists>s \<in> pending (t x). seat_key E s = k)"
      using ok'(7) ki by (simp add: swept_def)
    have mine: "\<exists>x. \<exists>s \<in> pending (?t x). seat_key E s = k" if "\<exists>s \<in> pending t'. seat_key E s = k"
      using that by (intro exI [of _ sid]) simp
    have "ids c \<noteq> {} \<or> ids (heap (brk p) ! i) = {} \<or> (\<exists>s \<in> pending t'. seat_key E s = k)" if "i = r"
      using that swp k c(2) by auto
    then show "ids (heap ?b ! i) \<noteq> {} \<or> joiners E ?t k \<noteq> {} \<or> (\<exists>x. \<exists>s \<in> pending (?t x). seat_key E s = k)"
      unfolding joiners nth using old pend mine by (cases "i = r") (simp_all only: if_True if_False simp_thms, argo+)
  qed
  moreover have "within_limit E (put_channel r c w p) ?t"
    using ok'(8) task(1) by (auto simp: within_limit_def)
  ultimately show ?thesis by (simp add: sys_ok_def)
qed

lemma seat_of_task:
  assumes "sys_ok E (p, t)" "s \<in> set_option (joins (t sid)) \<union> owed (t sid) \<union> pending (t sid)"
  shows "plain_name (seat_name s)" "seat_channel s < length (heap (brk p))"
    "ch_name (heap (brk p) ! seat_channel s) = seat_name s"
    "broker_accepts (hes E) (seat_grant s) (seat_name s) = None"
    "channel_ok (hes E) (heap (brk p) ! seat_channel s)"
    "ids (heap (brk p) ! seat_channel s) \<noteq> {} \<Longrightarrow> map_of (held (brk p)) (seat_key E s) = Some (seat_channel s)"
proof -
  have "socket_ok E (brk p) sid (seats p sid) (t sid)" using sys_okD(5) [OF assms(1)] by (simp add: well_seated_def)
  then have "good_seat E (brk p) s" using assms(2) by (simp add: socket_ok_def)
  then show "plain_name (seat_name s)" "seat_channel s < length (heap (brk p))"
    "ch_name (heap (brk p) ! seat_channel s) = seat_name s"
    "broker_accepts (hes E) (seat_grant s) (seat_name s) = None"
    "channel_ok (hes E) (heap (brk p) ! seat_channel s)"
    "ids (heap (brk p) ! seat_channel s) \<noteq> {} \<Longrightarrow> map_of (held (brk p)) (seat_key E s) = Some (seat_channel s)"
    using sys_okD(1,2) [OF assms(1)] heap_channel_ok [OF sys_okD(1) [OF assms(1)]]
    by (auto simp: good_seat_def registered_def seat_key_def)
qed

lemma conn_of_task:
  assumes "sys_ok E (p, t)" "task_conn (t sid) = Some conn"
  shows "conn_id conn = sid" "joins (t sid) \<noteq> None \<Longrightarrow> sid \<noteq> []"
proof -
  have "socket_ok E (brk p) sid (seats p sid) (t sid)" using sys_okD(5) [OF assms(1)] by (simp add: well_seated_def)
  then show "conn_id conn = sid" "joins (t sid) \<noteq> None \<Longrightarrow> sid \<noteq> []" using assms(2) by (auto simp: socket_ok_def)
qed

lemma subscribe_sys:
  assumes ok: "sys_ok E (p, t)" and t: "t sid = Joining conn m s"
    and sub: "on_channel (seat_channel s) (Subscribe (hes E) (snk E) (seat_grant s) conn m) p = (e, p')"
    and t': "t' = (case e of None \<Rightarrow> Seating conn s | Some _ \<Rightarrow> Failing conn s)"
  shows "sys_ok E (p', t(sid := t'))"
proof -
  obtain c w where c: "Subscribe (hes E) (snk E) (seat_grant s) conn m (heap (brk p) ! seat_channel s, out p) = (e, c, w)"
    "p' = put_channel (seat_channel s) c w p" using sub by (auto simp: on_channel_put)
  note seat = seat_of_task [OF ok, of s sid] and conn = conn_of_task [OF ok, of sid conn]
  have s: "s \<in> set_option (joins (t sid)) \<union> owed (t sid) \<union> pending (t sid)" and j: "joins (t sid) = Some s" using t by simp_all
  have id: "conn_id conn = sid" "sid \<noteq> []" using conn t by simp_all
  note eff = Subscribe_effect [OF seat(5) [OF s] _ c(1)]
  have h: "map_of (held (brk p)) (seat_key E s) = Some (seat_channel s)"
    using sys_okD(4) [OF ok] j by (simp add: reserved_def)
  have ow: "owed t' = {s}" "joins t' = Some s" "pending t' = {}" "task_conn t' = Some conn"
    using t' by (auto split: option.splits)
  have st: "t' = Seating conn' s' \<Longrightarrow> s' = s \<and> e = None" for conn' s' using t' by (auto split: option.splits)
  show ?thesis unfolding c(2)
  proof (rule put_sys [OF ok seat(2) [OF s]])
    show "channel_ok (hes E) c" "ch_name c = ch_name (heap (brk p) ! seat_channel s)" using eff id by simp_all
    show "ids c - {sid} = ids (heap (brk p) ! seat_channel s) - {sid}" using eff(3) id by auto
    show "map_of (held (brk p)) (name_String (hes E) (ch_name c)) = Some (seat_channel s)"
      using h eff(2) id seat(3) [OF s] by (simp add: seat_key_def)
    show "ids (heap (brk p) ! seat_channel s) = {} \<or> (\<exists>s \<in> pending t'. seat_key E s = name_String (hes E) (ch_name c))" if "ids c = {}"
      using that eff(3) id by auto
    show "if seat_channel s' = seat_channel s then sid \<in> ids c else sid \<in> ids (heap (brk p) ! seat_channel s')"
      if "t' = Seating conn' s'" for conn' s' using st [OF that] eff(3) id by auto
  qed (use t ow in auto)
qed

lemma leave_sys:
  assumes ok: "sys_ok E (p, t)" and t: "t sid = Leaving conn (s # ss)"
    and uns: "on_channel (seat_channel s) (Unsubscribe (hes E) (snk E) conn) p = (e, p')"
  shows "sys_ok E (p', t(sid := Dropping conn s ss))"
proof -
  obtain c w where c: "Unsubscribe (hes E) (snk E) conn (heap (brk p) ! seat_channel s, out p) = (e, c, w)"
    "p' = put_channel (seat_channel s) c w p" using uns by (auto simp: on_channel_put)
  note seat = seat_of_task [OF ok, of s sid] and conn = conn_of_task [OF ok, of sid conn]
  have s: "s \<in> set_option (joins (t sid)) \<union> owed (t sid) \<union> pending (t sid)" using t by simp
  have id: "conn_id conn = sid" using conn t by simp
  note eff = Unsubscribe_effect [OF seat(5) [OF s] c(1)]
  have key: "name_String (hes E) (ch_name c) = seat_key E s" using eff(2) seat(3) [OF s] by (simp add: seat_key_def)
  show ?thesis unfolding c(2)
  proof (rule put_sys [OF ok seat(2) [OF s] eff(1,2)])
    show "ids c - {sid} = ids (heap (brk p) ! seat_channel s) - {sid}" using eff(3) id by auto
    show "map_of (held (brk p)) (name_String (hes E) (ch_name c)) = Some (seat_channel s)" if "ids c \<noteq> {}"
      using that seat(6) [OF s] eff(3) unfolding key by blast
  qed (use t eff(3) id key in auto)
qed

lemma publish_sys:
  assumes ok: "sys_ok E (p, t)" and r: "r < length (heap (brk p))"
    and snd: "on_channel r (channel_send (hes E) (snk E) ev skip) p = (e, p')"
  shows "sys_ok E (p', t)"
proof -
  obtain c w where c: "channel_send (hes E) (snk E) ev skip (heap (brk p) ! r, out p) = (e, c, w)"
    "p' = put_channel r c w p" using snd by (auto simp: on_channel_put)
  note ch = heap_channel_ok [OF sys_okD(1) [OF ok] r]
  note eff = send_effect [OF conjunct1 [OF ch] c(1)]
  have "sys_ok E (put_channel r c w p, t(sid := t sid))" for sid
  proof (rule put_sys [OF ok r eff(1,2)])
    show "r \<in> seat_channel ` (snd ` set (seats p sid) \<union> owed (t sid))" if "sid \<in> ids c"
      using that sys_okD(6) [OF ok] r eff(3) by (simp add: accounted_def)
    show "map_of (held (brk p)) (name_String (hes E) (ch_name c)) = Some r" if "ids c \<noteq> {}"
      using that sys_okD(2) [OF ok] r eff(2,3) by (simp add: registered_def)
    show "if seat_channel s = r then sid \<in> ids c else sid \<in> ids (heap (brk p) ! seat_channel s)"
      if "t sid = Seating conn s" for conn s using that sys_okD(4) [OF ok] eff(3) by (auto simp: reserved_def)
  qed (use eff(3) in auto)
  from this [of undefined] show ?thesis by (simp add: c(2))
qed

text \<open>Reservations.\<close>

lemma joiners_begin:
  assumes "joins (t sid) = None" "joins t' = Some s"
  shows "joiners E (t(sid := t')) k = (if k = seat_key E s then insert sid (joiners E t k) else joiners E t k)"
    "sid \<notin> joiners E t k"
  using assms by (auto simp: joiners_def)

lemma joiners_end:
  assumes "joins (t sid) = Some s" "joins t' = None"
  shows "joiners E (t(sid := t')) k = joiners E t k - {sid}" "sid \<in> joiners E t k \<longleftrightarrow> k = seat_key E s"
  using assms by (auto simp: joiners_def)

lemma finite_joiners: "counted E j t \<Longrightarrow> finite (joiners E t k)"
  unfolding counted_def joiners_def by (auto elim!: rev_finite_subset)

lemma finite_upd: "finite {x. joins (t x) \<noteq> None} \<Longrightarrow> finite {x. joins ((t(sid := t')) x) \<noteq> None}"
  by (rule finite_subset [of _ "insert sid {x. joins (t x) \<noteq> None}"]) auto

lemma counted_begin:
  assumes "counted E j t" "joins (t sid) = None" "joins t' = Some s"
  shows "counted E (j(seat_key E s := j (seat_key E s) + 1)) (t(sid := t'))"
proof -
  have "card (joiners E (t(sid := t')) k) = (if k = seat_key E s then card (joiners E t k) + 1 else card (joiners E t k))" for k
    unfolding joiners_begin(1) [of t sid t' s E, OF assms(2,3)]
    using finite_joiners [OF assms(1)] joiners_begin(2) [of t sid t' s E, OF assms(2,3)] by simp
  then show ?thesis using assms(1) finite_upd [of t sid t'] unfolding counted_def by simp
qed

lemma counted_end:
  assumes "counted E j t" "joins (t sid) = Some s" "joins t' = None"
  shows "counted E (j(seat_key E s := j (seat_key E s) - 1)) (t(sid := t'))"
proof -
  have "card (joiners E (t(sid := t')) k) = (if k = seat_key E s then card (joiners E t k) - 1 else card (joiners E t k))" for k
    unfolding joiners_end(1) [of t sid s t', OF assms(2,3)] card_Diff_singleton_if
      joiners_end(2) [of t sid s t', OF assms(2,3)] by (rule refl)
  then show ?thesis using assms(1) finite_upd [of t sid t'] unfolding counted_def by simp
qed

lemma counted_same:
  assumes "counted E j t" "joins (t sid) = None" "joins t' = None"
  shows "counted E j (t(sid := t'))"
proof -
  have "joiners E (t(sid := t')) k = joiners E t k" for k using assms(2,3) by (auto simp: joiners_def)
  then show ?thesis using assms(1) finite_upd [of t sid t'] by (simp add: counted_def)
qed

text \<open>A step that changes one socket's record and nothing of the channels.\<close>

lemma record_sys:
  assumes ok: "sys_ok E (p, t)" and b: "brk p' = brk p" and others: "\<And>x. x \<noteq> sid \<Longrightarrow> seats p' x = seats p x"
    and cnt: "counted E (joining p') (t(sid := t'))" and t': "joins t' = None"
    and sock: "socket_ok E (brk p) sid (seats p' sid) t'"
    and acc: "\<And>r. r < length (heap (brk p)) \<Longrightarrow> sid \<in> ids (heap (brk p) ! r) \<Longrightarrow>
      r \<in> seat_channel ` (snd ` set (seats p sid) \<union> owed (t sid)) \<Longrightarrow>
      r \<in> seat_channel ` (snd ` set (seats p' sid) \<union> owed t')"
    and pend: "pending (t sid) \<subseteq> pending t'"
    and swp: "\<And>s. joins (t sid) = Some s \<Longrightarrow> s \<in> pending t' \<or> ids (heap (brk p) ! seat_channel s) \<noteq> {}"
    and lim: "0 \<le> maxChannels E \<Longrightarrow> int (length (seats p' sid)) \<le> maxChannels E"
  shows "sys_ok E (p', t(sid := t'))"
proof -
  note ok' = sys_okD [OF ok]
  have "reserved E (brk p) (t(sid := t'))" using ok'(4) t' by (auto simp: reserved_def)
  moreover have "well_seated E p' (t(sid := t'))"
    using ok'(5) sock others by (simp add: well_seated_def b)
  moreover have "accounted p' (t(sid := t'))"
    using ok'(6) acc others unfolding accounted_def b by (metis fun_upd_other fun_upd_same)
  moreover have "swept E (brk p) (t(sid := t'))"
    unfolding swept_def
  proof (intro allI impI)
    fix k i
    assume ki: "map_of (held (brk p)) k = Some i"
    consider "ids (heap (brk p) ! i) \<noteq> {}" | x s where "joins (t x) = Some s" "seat_key E s = k"
      | x s where "s \<in> pending (t x)" "seat_key E s = k"
      using ok'(7) ki unfolding swept_def joiners_def by blast
    then show "ids (heap (brk p) ! i) \<noteq> {} \<or> joiners E (t(sid := t')) k \<noteq> {} \<or>
        (\<exists>x. \<exists>s \<in> pending ((t(sid := t')) x). seat_key E s = k)"
    proof cases
      case 1 then show ?thesis by blast
    next
      case (2 x s)
      show ?thesis
      proof (cases "x = sid")
        case True
        have "seat_channel s = i" using reservedD(1) [OF ok'(4) 2(1)] 2(2) ki by simp
        then show ?thesis using swp [of s] 2 True by (metis fun_upd_same)
      next
        case False
        then have "x \<in> joiners E (t(sid := t')) k" using 2 by (simp add: joiners_def)
        then show ?thesis by blast
      qed
    next
      case (3 x s)
      then have "s \<in> pending ((t(sid := t')) x)" using pend by (cases "x = sid") auto
      then show ?thesis using 3 by blast
    qed
  qed
  moreover have "within_limit E p' (t(sid := t'))"
    using ok'(8) lim t' others by (auto simp: within_limit_def)
  ultimately show ?thesis using ok'(1,2) cnt by (simp add: sys_ok_def b)
qed

lemma socket_of: "sys_ok E (p, t) \<Longrightarrow> socket_ok E (brk p) sid (seats p sid) (t sid)"
  using sys_okD(5) [of E p t] by (simp add: well_seated_def)

lemma length_update: "map_of al k \<noteq> None \<Longrightarrow> length (AList.update k v al) = length al"
  "map_of al k = None \<Longrightarrow> length (AList.update k v al) = Suc (length al)"
  by (induction al) (auto split: if_splits)

lemma finishJoining_simps:
  "brk (finishJoining E n p) = brk p" "seats (finishJoining E n p) = seats p"
  "joining (finishJoining E n p) = (joining p)(name_String (hes E) n := joining p (name_String (hes E) n) - 1)"
  by (auto simp: finishJoining_def Let_def fun_eq_iff)

lemma take_sys:
  assumes ok: "sys_ok E (p, t)" and t: "t sid = Seating conn s"
  shows "sys_ok E (take_seat E sid s p, t(sid := Idle))"
proof -
  let ?p = "take_seat E sid s p" and ?ss = "AList.update (seat_key E s) s (seats p sid)"
  note sock = socket_of [OF ok, of sid]
  have p: "brk ?p = brk p" "seats ?p = (seats p)(sid := ?ss)" "joining ?p = (joining p)(seat_key E s := joining p (seat_key E s) - 1)"
    by (simp_all add: take_seat_def Let_def finishJoining_simps seat_key_def)
  have d: "distinct (map fst (seats p sid))" using sock by (simp add: socket_ok_def)
  have set: "set ?ss = insert (seat_key E s, s) {q \<in> set (seats p sid). fst q \<noteq> seat_key E s}" by (rule set_update_new [OF d])
  have h: "map_of (held (brk p)) (seat_key E s) = Some (seat_channel s)" "sid \<in> ids (heap (brk p) ! seat_channel s)"
    using reservedD [OF sys_okD(4) [OF ok], of sid] t by simp_all
  show ?thesis
  proof (rule record_sys [OF ok p(1)])
    show "counted E (joining ?p) (t(sid := Idle))"
      unfolding p(3) using counted_end [OF sys_okD(3) [OF ok], of sid s Idle] t by simp
    show "socket_ok E (brk p) sid (seats ?p sid) Idle"
      using sock t set d by (auto simp: p(2) socket_ok_def distinct_update)
    show "r \<in> seat_channel ` (snd ` set (seats ?p sid) \<union> owed Idle)"
      if r: "r < length (heap (brk p))" "sid \<in> ids (heap (brk p) ! r)"
        "r \<in> seat_channel ` (snd ` set (seats p sid) \<union> owed (t sid))" for r
    proof -
      have rec: "r \<in> seat_channel ` snd ` set ?ss" if q: "(k, s') \<in> set (seats p sid)" "seat_channel s' = r" for k s'
      proof (cases "k = seat_key E s")
        case True
        have "k = seat_key E s'" "ch_name (heap (brk p) ! r) = seat_name s'"
          using sock q by (auto simp: socket_ok_def good_seat_def)
        then have "map_of (held (brk p)) (seat_key E s) = Some r"
          using sys_okD(2) [OF ok] r True by (auto simp: registered_def seat_key_def)
        then have "seat_channel s = r" using h(1) by simp
        then show ?thesis unfolding set by force
      next
        case False
        then show ?thesis using q unfolding set by force
      qed
      consider k s' where "(k, s') \<in> set (seats p sid)" "seat_channel s' = r" | "r = seat_channel s"
        using r(3) t by force
      then have "r \<in> seat_channel ` snd ` set ?ss"
      proof cases
        case (1 k s')
        then show ?thesis by (rule rec)
      qed (simp add: set)
      then show ?thesis by (simp add: p(2))
    qed
    show "int (length (seats ?p sid)) \<le> maxChannels E" if "0 \<le> maxChannels E"
    proof -
      have "joins (t sid) = Some s" using t by simp
      then have "int (length (seats p sid)) \<le> maxChannels E \<and>
          (map_of (seats p sid) (seat_key E s) \<noteq> None \<or> int (length (seats p sid)) < maxChannels E)"
        using that sys_okD(8) [OF ok] unfolding within_limit_def by blast
      then show ?thesis using length_update [of "seats p sid" "seat_key E s" s]
        by (cases "map_of (seats p sid) (seat_key E s) = None") (auto simp: p(2))
    qed
  qed (use t h in \<open>auto simp: p\<close>)
qed

lemma finish_sys:
  assumes ok: "sys_ok E (p, t)" and t: "t sid = Failing conn s"
  shows "sys_ok E (finishJoining E (seat_name s) p, t(sid := Leaving conn [s]))"
proof (rule record_sys [OF ok])
  show "counted E (joining (finishJoining E (seat_name s) p)) (t(sid := Leaving conn [s]))"
    using counted_end [OF sys_okD(3) [OF ok], of sid s "Leaving conn [s]"] t by (simp add: finishJoining_simps seat_key_def)
qed (use t socket_of [OF ok, of sid] sys_okD(8) [OF ok] in \<open>auto simp: finishJoining_simps socket_ok_def within_limit_def\<close>)

lemma forget_sys:
  assumes ok: "sys_ok E (p, t)" and t: "t sid = Idle" and conn: "conn_id conn = sid"
    and ss: "set ss \<subseteq> snd ` set (seats p sid)" and left: "set left \<subseteq> set (seats p sid)" "distinct (map fst left)"
      "length left \<le> length (seats p sid)" "snd ` set (seats p sid) \<subseteq> snd ` set left \<union> set ss"
  shows "sys_ok E (p\<lparr>seats := (seats p)(sid := left)\<rparr>, t(sid := Leaving conn ss))"
proof (rule record_sys [OF ok])
  show "counted E (joining (p\<lparr>seats := (seats p)(sid := left)\<rparr>)) (t(sid := Leaving conn ss))"
    using counted_same [OF sys_okD(3) [OF ok], of sid] t by simp
  have good: "\<forall>(k, s) \<in> set (seats p sid). k = seat_key E s \<and> good_seat E (brk p) s"
    using socket_of [OF ok, of sid] by (simp add: socket_ok_def)
  then have "\<forall>s \<in> set ss. good_seat E (brk p) s" using ss by fastforce
  moreover have "\<forall>(k, s) \<in> set left. k = seat_key E s \<and> good_seat E (brk p) s" using good left(1) by blast
  ultimately show "socket_ok E (brk p) sid (seats (p\<lparr>seats := (seats p)(sid := left)\<rparr>) sid) (Leaving conn ss)"
    using left(2) conn by (simp add: socket_ok_def)
  show "r \<in> seat_channel ` (snd ` set (seats (p\<lparr>seats := (seats p)(sid := left)\<rparr>) sid) \<union> owed (Leaving conn ss))"
    if "r \<in> seat_channel ` (snd ` set (seats p sid) \<union> owed (t sid))" for r
  proof -
    from that have "r \<in> seat_channel ` snd ` set (seats p sid)" using t by simp
    then have "r \<in> seat_channel ` (snd ` set left \<union> set ss)" using left(4) by (rule image_mono [THEN subsetD, rotated])
    then show ?thesis by simp
  qed
  show "int (length (seats (p\<lparr>seats := (seats p)(sid := left)\<rparr>) sid)) \<le> maxChannels E" if "0 \<le> maxChannels E"
  proof -
    have "int (length (seats p sid)) \<le> maxChannels E" using that sys_okD(8) [OF ok] by (simp add: within_limit_def)
    then show ?thesis using left(3) by simp
  qed
qed (use t in auto)

lemma forgetOne_sys:
  assumes ok: "sys_ok E (p, t)" and t: "t sid = Idle" and conn: "conn_id conn = sid"
    and f: "forgetOne E sid name p = (Some s, p')"
  shows "sys_ok E (p', t(sid := Leaving conn [s]))"
proof -
  let ?k = "name_String (hes E) name"
  have s: "map_of (seats p sid) ?k = Some s" "p' = p\<lparr>seats := (seats p)(sid := AList.delete ?k (seats p sid))\<rparr>"
    using f by (auto simp: forgetOne_def Let_def split: option.splits)
  have d: "distinct (map fst (seats p sid))" using socket_of [OF ok, of sid] by (simp add: socket_ok_def)
  have "snd ` set (seats p sid) \<subseteq> snd ` set (AList.delete ?k (seats p sid)) \<union> {s}"
  proof
    fix x assume "x \<in> snd ` set (seats p sid)"
    then obtain k where k: "(k, x) \<in> set (seats p sid)" by auto
    show "x \<in> snd ` set (AList.delete ?k (seats p sid)) \<union> {s}"
    proof (cases "k = ?k")
      case True
      then show ?thesis using k s(1) map_of_is_SomeI [OF d k] by simp
    next
      case False
      then show ?thesis using k by (force simp: set_delete)
    qed
  qed
  moreover have "{s} \<subseteq> snd ` set (seats p sid)" using map_of_SomeD [OF s(1)] by force
  ultimately show ?thesis unfolding s(2)
    by (intro forget_sys [OF ok t conn]) (simp_all add: set_delete distinct_delete [OF d] AList.length_delete_le)
qed

lemma dropping_done:
  assumes ok: "sys_ok E (p, t)" and t: "t sid = Dropping conn s ss"
    and why: "joining p (seat_key E s) > 0 \<or> (\<forall>r. map_of (held (brk p)) (seat_key E s) = Some r \<longrightarrow> ids (heap (brk p) ! r) \<noteq> {})"
  shows "sys_ok E (p, t(sid := Leaving conn ss))"
proof -
  note ok' = sys_okD [OF ok]
  let ?t = "t(sid := Leaving conn ss)" and ?k = "seat_key E s"
  have j: "joiners E ?t = joiners E t" using t by (auto simp: joiners_def fun_eq_iff)
  have "swept E (brk p) ?t"
    unfolding swept_def j
  proof (intro allI impI)
    fix k i assume ki: "map_of (held (brk p)) k = Some i"
    consider "ids (heap (brk p) ! i) \<noteq> {} \<or> joiners E t k \<noteq> {}" | x s' where "s' \<in> pending (t x)" "seat_key E s' = k"
      using ok'(7) ki unfolding swept_def by blast
    then show "ids (heap (brk p) ! i) \<noteq> {} \<or> joiners E t k \<noteq> {} \<or> (\<exists>x. \<exists>s \<in> pending (?t x). seat_key E s = k)"
    proof cases
      case (2 x s')
      show ?thesis
      proof (cases "k = ?k")
        case True
        then have "joiners E t k \<noteq> {} \<or> ids (heap (brk p) ! i) \<noteq> {}"
          using why ki ok'(3) by (auto simp: counted_def)
        then show ?thesis by blast
      next
        case False
        then have "s' \<in> pending (?t x)" using 2 t by (cases "x = sid") auto
        then show ?thesis using 2 by blast
      qed
    qed blast
  qed
  moreover have "reserved E (brk p) ?t" using ok'(4) by (auto simp: reserved_def)
  moreover have "well_seated E p ?t"
    using socket_of [OF ok] socket_of [OF ok, of sid] t by (auto simp: well_seated_def) (auto simp: socket_ok_def)
  moreover have "accounted p ?t" using ok'(6) t unfolding accounted_def by fastforce
  moreover have "within_limit E p ?t" using ok'(8) by (auto simp: within_limit_def)
  ultimately show ?thesis using ok'(1,2) counted_same [OF ok'(3), of sid] t by (simp add: sys_ok_def)
qed

lemma unhold_sys:
  assumes ok: "sys_ok E (p, t)" and nj: "joining p (name_String (hes E) n) = 0"
  shows "sys_ok E (p\<lparr>brk := dropped (hes E) n (brk p)\<rparr>, t)"
proof -
  note ok' = sys_okD [OF ok]
  let ?d = "dropped (hes E) n (brk p)" and ?k = "name_String (hes E) n"
  have h: "map_of (held ?d) k = (if k = ?k \<and> (\<exists>r. map_of (held (brk p)) k = Some r \<and> ids (heap (brk p) ! r) = {}) then None
      else map_of (held (brk p)) k)" for k
    unfolding dropped_held ids_empty by (rule refl)
  have j: "joiners E t ?k = {}" using nj ok'(3) finite_joiners [OF ok'(3)] by (auto simp: counted_def)
  have "registered E ?d" using ok'(2) unfolding registered_def h by (auto split: if_splits)
  moreover have "reserved E ?d t"
  proof -
    have "seat_key E s \<noteq> ?k" if "joins (t x) = Some s" for x s using that j by (auto simp: joiners_def)
    then show ?thesis using ok'(4) unfolding reserved_def h by (auto split: if_splits)
  qed
  moreover have "well_seated E (p\<lparr>brk := ?d\<rparr>) t"
    using ok'(5) by (simp add: well_seated_def socket_ok_def good_seat_def)
  moreover have "accounted (p\<lparr>brk := ?d\<rparr>) t" using ok'(6) by (simp add: accounted_def)
  moreover have "swept E ?d t" using ok'(7) unfolding swept_def h by (auto split: if_splits)
  moreover have "within_limit E (p\<lparr>brk := ?d\<rparr>) t" using ok'(8) by (simp add: within_limit_def)
  ultimately show ?thesis using dropped_ok [OF ok'(1)] ok'(3) by (simp add: sys_ok_def)
qed

lemma drop_sys:
  assumes ok: "sys_ok E (p, t)" and t: "t sid = Dropping conn s ss" and d: "drop_channel E s p = ((gone, e), p')"
  shows "sys_ok E (p', t(sid := Leaving conn ss))"
proof -
  have s: "s \<in> set_option (joins (t sid)) \<union> owed (t sid) \<union> pending (t sid)" using t by simp
  note seat = seat_of_task [OF ok s]
  let ?b = "brk p" and ?k = "seat_key E s"
  show ?thesis
  proof (cases "joining p ?k > 0 \<or> ids (heap ?b ! seat_channel s) \<noteq> {}")
    case True
    then have "p' = p" using d by (auto simp: drop_channel_def seat_key_def Connections_empty ids_empty split: if_splits)
    moreover have "joining p ?k > 0 \<or> (\<forall>r. map_of (held ?b) ?k = Some r \<longrightarrow> ids (heap ?b ! r) \<noteq> {})"
    proof (cases "joining p ?k > 0")
      case False
      then have "ids (heap ?b ! seat_channel s) \<noteq> {}" using True by argo
      then show ?thesis using seat(6) by simp
    qed simp
    ultimately show ?thesis using dropping_done [OF ok t] by simp
  next
    case False
    then have p': "p' = p\<lparr>brk := dropped (hes E) (seat_name s) ?b\<rparr>"
      using d Remove_eq [OF seat(4), of ?b] by (auto simp: drop_channel_def seat_key_def Connections_empty ids_empty)
    have "joining p (name_String (hes E) (seat_name s)) = 0" using False by (simp add: seat_key_def)
    from unhold_sys [OF ok this] have ok2: "sys_ok E (p', t)" by (simp add: p')
    have "\<forall>r. map_of (held (brk p')) ?k = Some r \<longrightarrow> ids (heap (brk p') ! r) \<noteq> {}"
      by (auto simp: p' dropped_held seat_key_def ids_empty split: if_splits)
    then show ?thesis using dropping_done [OF ok2 t] by blast
  qed
qed

text \<open>Reaching a channel.\<close>

lemma reach_cases:
  assumes "plain_name n"
  obtains e where "broker_accepts (hes E) g n = Some e" "reach E g n p = (Inl e, p)"
  | "broker_accepts (hes E) g n = None"
    "reach E g n p = (Inr (ref_of (hes E) n (brk p), map_of (held (brk p)) (name_String (hes E) n) = None),
      p\<lparr>brk := created (hes E) n (brk p),
        joining := (joining p)(name_String (hes E) n := joining p (name_String (hes E) n) + 1)\<rparr>)"
proof (cases "broker_accepts (hes E) g n")
  case None
  then show ?thesis
    by (intro that(2)) (auto simp: reach_def Let_def Find_def FindOrCreate_eq [OF assms None] split: option.splits)
next
  case (Some e)
  have "reach E g n p = (Inl e, p)"
    using Some by (cases "is_no_channel e") (simp_all add: reach_def Let_def Find_def FindOrCreate_def)
  then show ?thesis using Some that(1) by blast
qed

lemma reach_some:
  assumes "plain_name n" "reach E g n p = (Inr (r, made), p')"
  shows "broker_accepts (hes E) g n = None" "r = ref_of (hes E) n (brk p)" "brk p' = created (hes E) n (brk p)"
    "seats p' = seats p" "joining p' = (joining p)(name_String (hes E) n := joining p (name_String (hes E) n) + 1)"
  using assms(2) by (cases rule: reach_cases [OF assms(1), of E g p]; force)+

lemma created_ids:
  assumes "r < length (heap (created H n b))"
  shows "ids (heap (created H n b) ! r) = (if r < length (heap b) then ids (heap b ! r) else {})"
  using assms by (auto simp: created_def nth_append ids_def split: if_splits)

lemma begin_join_sys:
  assumes ok: "sys_ok E (p, t)" and H: "hesape_documented (hes E)" and t: "t sid = Idle" and conn: "conn_id conn = sid" "sid \<noteq> []"
    and n: "NewChannelName (hes E) (conn_grant conn) req = Inr name" and lim: "\<not> atChannelLimit E sid name p"
    and r: "reach E g name p = (Inr (r, made), p')"
  shows "sys_ok E (p', t(sid := Joining conn m \<lparr>seat_name = name, seat_channel = r, seat_grant = g\<rparr>))"
proof -
  note ok' = sys_okD [OF ok]
  let ?b = "created (hes E) name (brk p)" and ?k = "name_String (hes E) name"
    and ?s = "\<lparr>seat_name = name, seat_channel = r, seat_grant = g\<rparr>"
  let ?t = "t(sid := Joining conn m ?s)"
  have plain: "plain_name name" using NewChannelName_ok [OF n H] by (simp add: plain_name_def)
  from r have acc: "broker_accepts (hes E) g name = None" and r': "r = ref_of (hes E) name (brk p)"
    and p': "brk p' = ?b" "seats p' = seats p" "joining p' = (joining p)(?k := joining p ?k + 1)"
    using reach_some [OF plain r] by simp_all
  have key: "seat_key E ?s = ?k" by (simp add: seat_key_def)
  have held: "map_of (held ?b) ?k = Some r" "\<And>k i. map_of (held (brk p)) k = Some i \<Longrightarrow> map_of (held ?b) k = Some i"
    "\<And>k. k \<noteq> ?k \<Longrightarrow> map_of (held ?b) k = map_of (held (brk p)) k"
    using created_held [where H = "hes E" and n = name and b = "brk p"] r' by simp_all
  have len: "length (heap (brk p)) \<le> length (heap ?b)" by (rule created_heap)
  have good: "good_seat E ?b s" if "good_seat E (brk p) s" for s
    using that len created_heap(1) [of _ "brk p" "hes E" name] by (auto simp: good_seat_def intro: order_less_le_trans)
  have goods: "good_seat E ?b ?s"
    using plain acc ref_of_created [OF ok'(1)] created_name [OF ok'(1) plain H] r' by (simp add: good_seat_def)
  have bok: "broker_ok (hes E) ?b" by (rule created_ok [OF ok'(1) plain])
  moreover have "registered E ?b"
    unfolding registered_def
  proof (intro allI impI)
    fix i assume i: "i < length (heap ?b)" "ids (heap ?b ! i) \<noteq> {}"
    then have l: "i < length (heap (brk p))" using created_ids [OF i(1)] by (auto split: if_splits)
    then have "ids (heap (brk p) ! i) \<noteq> {}" using i created_ids [OF i(1)] by simp
    then show "map_of (held ?b) (name_String (hes E) (ch_name (heap ?b ! i))) = Some i"
      using ok'(2) l held(2) by (simp add: registered_def created_heap)
  qed
  moreover have "counted E (joining p') ?t"
    using counted_begin [OF ok'(3), of sid "Joining conn m ?s" ?s] t by (simp add: p' key)
  moreover have "reserved E ?b ?t"
  proof -
    have "sid' \<in> ids (heap ?b ! seat_channel s)" if "t sid' = Seating conn' s" for sid' conn' s
    proof -
      have "seat_channel s < length (heap (brk p))" using seat_of_task(2) [OF ok, of s sid'] that by simp
      then show ?thesis using reservedD(2) [OF ok'(4) that] by (simp add: created_heap)
    qed
    then show ?thesis using reservedD(1) [OF ok'(4)] held key by (auto simp: reserved_def split: if_splits)
  qed
  moreover have "well_seated E p' ?t"
  proof -
    have "socket_ok E ?b x (seats p x) (t x)" for x
      using socket_of [OF ok, of x] good by (fastforce simp: socket_ok_def)
    then show ?thesis using conn goods t by (auto simp: well_seated_def p' socket_ok_def)
  qed
  moreover have "accounted p' ?t"
    using ok'(6) created_ids [of _ "hes E" name "brk p"] t unfolding accounted_def p'
    by (metis (no_types, lifting) empty_iff fun_upd_other fun_upd_same owed.simps(5,6))
  moreover have "swept E ?b ?t"
    unfolding swept_def
  proof (intro allI impI)
    fix k i assume ki: "map_of (held ?b) k = Some i"
    have j: "joiners E ?t k = (if k = ?k then insert sid (joiners E t k) else joiners E t k)"
      using joiners_begin(1) [of t sid "Joining conn m ?s" ?s E k] t key by simp
    show "ids (heap ?b ! i) \<noteq> {} \<or> joiners E ?t k \<noteq> {} \<or> (\<exists>x. \<exists>s \<in> pending (?t x). seat_key E s = k)"
    proof (cases "k = ?k")
      case False
      then have ki': "map_of (held (brk p)) k = Some i" using ki held(3) by simp
      have "i < length (heap (brk p))" using broker_ok_held(1) [OF ok'(1) ki'] .
      moreover have "\<exists>x. \<exists>s \<in> pending (?t x). seat_key E s = k" if "s \<in> pending (t x)" "seat_key E s = k" for x s
        using that t by (intro exI [of _ x]) auto
      ultimately show ?thesis using ok'(7) ki' False unfolding swept_def j by (metis created_heap(1))
    next
      case True
      then have "sid \<in> joiners E ?t k" unfolding j by simp
      then show ?thesis by blast
    qed
  qed
  moreover have "within_limit E p' ?t"
    using ok'(8) lim by (auto simp: within_limit_def p' key atChannelLimit_def split: if_splits)
  ultimately show ?thesis by (simp add: sys_ok_def p')
qed

lemma observe_sys: "sys_ok E (observe a p, t) = sys_ok E (p, t)"
  by (simp add: sys_ok_def observe_def well_seated_def accounted_def within_limit_def)

lemma pstep_sys:
  assumes H: "hesape_documented (hes E)" and step: "pstep E s s'" and ok: "sys_ok E s"
  shows "sys_ok E s'"
  using step ok
proof (induction rule: pstep.induct)
  case (begin_join t sid conn req name p g r made p' m)
  then show ?case using begin_join_sys [OF _ H] by (simp add: observe_sys)
next
  case (subscribed t sid conn m s p p')
  then show ?case using subscribe_sys [of E p t sid conn m s None p' "Seating conn s"] by simp
next
  case (not_subscribed t sid conn m s p e p')
  then show ?case using subscribe_sys [of E p t sid conn m s "Some e" p' "Failing conn s"] by simp
next
  case (taken t sid conn s p)
  then show ?case by (intro take_sys)
next
  case (finished t sid conn s p)
  then show ?case by (intro finish_sys)
next
  case (begin_part t sid conn name p s p')
  then show ?case by (intro forgetOne_sys)
next
  case (begin_close t sid conn p ss p')
  then have "ss = map snd (seats p sid)" "p' = p\<lparr>seats := (seats p)(sid := [])\<rparr>" by (auto simp: forget_def)
  then show ?case using forget_sys [OF begin_close(4,1,2), of ss "[]"] by simp
next
  case (leaves t sid conn s ss p e p')
  then show ?case by (intro leave_sys)
next
  case (drops t sid conn s ss p gone e p')
  then show ?case using drop_sys by (simp add: observe_sys)
next
  case (has_left t sid conn p)
  then show ?case
    using socket_of [OF has_left(2), of sid] sys_okD(8) [OF has_left(2)] counted_same [OF sys_okD(3) [OF has_left(2)], of sid Idle]
    by (intro record_sys [OF has_left(2)]) (auto simp: socket_ok_def within_limit_def)
next
  case (publishes r p ev skip e p' t)
  then show ?case using publish_sys by blast
next
  case (speaks p t w a cs)
  then show ?case by (simp add: sys_ok_def well_seated_def accounted_def within_limit_def)
qed

lemma fresh_sys: "fresh s \<Longrightarrow> sys_ok E s"
  by (cases s) (auto simp: fresh_def sys_ok_def broker_ok_def registered_def NewMemoryBroker_def counted_def joiners_def
      reserved_def well_seated_def socket_ok_def accounted_def swept_def within_limit_def)

interpretation sockets: transitions "\<lambda>s. hesape_documented (hes E) \<and> fresh s" "pstep E"
  "\<lambda>s. hesape_documented (hes E) \<and> sys_ok E s" for E :: "('g, 's) pusher_env"
  by unfold_locales (auto simp: fresh_sys intro: pstep_sys)

section \<open>The handlers are runs\<close>

lemma runs_one: "pstep E s s' \<Longrightarrow> (pstep E)\<^sup>*\<^sup>* s s'"
  by (rule r_into_rtranclp)

lemmas runs_trans = rtranclp_trans [of "pstep E" for E]

lemma unseat_run:
  assumes "t sid = Leaving conn (s # ss)"
  shows "(pstep E)\<^sup>*\<^sup>* (p, t) (snd (unseat E conn s p), t(sid := Leaving conn ss))"
proof -
  obtain e p1 where u: "on_channel (seat_channel s) (Unsubscribe (hes E) (snk E) conn) p = (e, p1)" by force
  obtain gone e2 p2 where d: "drop_channel E s p1 = ((gone, e2), p2)" by (metis prod.exhaust)
  note one = pstep.leaves [where t = t and sid = sid, OF assms u]
  have "(t(sid := Dropping conn s ss)) sid = Dropping conn s ss" by simp
  from pstep.drops [where t = "t(sid := Dropping conn s ss)" and sid = sid, OF this d] have "pstep E (p1, t(sid := Dropping conn s ss))
      (snd (unseat E conn s p), t(sid := Leaving conn ss))" by (simp add: unseat_def u d)
  then show ?thesis using one by (meson runs_one runs_trans)
qed

lemma unseat_all_run:
  "t sid = Leaving conn ss \<Longrightarrow> (pstep E)\<^sup>*\<^sup>* (p, t) (unseat_all E conn ss p, t(sid := Idle))"
proof (induction ss arbitrary: p t)
  case Nil
  from pstep.has_left [where t = t and sid = sid, OF Nil] show ?case unfolding unseat_all.simps(1) by (rule runs_one)
next
  case (Cons s ss)
  have "(pstep E)\<^sup>*\<^sup>* (snd (unseat E conn s p), t(sid := Leaving conn ss)) (unseat_all E conn (s # ss) p, t(sid := Idle))"
    using Cons.IH [of "t(sid := Leaving conn ss)" "snd (unseat E conn s p)"]
    by (simp only: fun_upd_same fun_upd_upd unseat_all.simps True_implies_equals)
  then show ?case using unseat_run [where t = t and sid = sid, OF Cons.prems] by (rule rtranclp_trans [rotated])
qed

lemma Close_run:
  assumes "t sid = Idle" "conn_id conn = sid"
  shows "(pstep E)\<^sup>*\<^sup>* (p, t) (Close E conn p, t)"
proof -
  obtain ss p1 where f: "forget sid p = (ss, p1)" by force
  have "(pstep E)\<^sup>*\<^sup>* (p1, t(sid := Leaving conn ss)) (unseat_all E conn ss p1, t(sid := Idle))"
    using unseat_all_run [of "t(sid := Leaving conn ss)" sid conn ss E p1] by simp
  moreover have "t(sid := Idle) = t" using assms(1) by auto
  ultimately show ?thesis using pstep.begin_close [where t = t and sid = sid and E = E, OF assms f] f assms(2)
    by (simp add: Close_def converse_rtranclp_into_rtranclp)
qed

lemma speaks_to: "p' = p\<lparr>out := out p', asked := asked p', carried := carried p'\<rparr> \<Longrightarrow> (pstep E)\<^sup>*\<^sup>* (p, t) (p', t)"
  using pstep.speaks [where E = E and p = p and t = t and w = "out p'" and a = "asked p'" and cs = "carried p'"] by (metis runs_one)

lemma write_frame_run: "(pstep E)\<^sup>*\<^sup>* (p, t) (snd (write_frame E conn f p), t)"
  by (rule speaks_to) (simp add: write_frame_def conn_Send_def split: sum.splits)

lemma refuse_run: "(pstep E)\<^sup>*\<^sup>* (p, t) (snd (refuse E conn e p), t)"
  using write_frame_run [of E p t conn "ErrorFrame e"]
  by (cases "write_frame E conn (ErrorFrame e) p") (auto simp: refuse_def split: option.splits)

lemma part_run:
  assumes "t sid = Idle" "conn_id conn = sid"
  shows "(pstep E)\<^sup>*\<^sup>* (p, t) (snd (part E conn f p), t)"
proof -
  have "(pstep E)\<^sup>*\<^sup>* (p, t) (snd (unseat E conn s p1), t)" if "forgetOne E sid name p = (Some s, p1)" for name s p1
  proof -
    have "(pstep E)\<^sup>*\<^sup>* (p1, t(sid := Leaving conn [s])) (unseat_all E conn [s] p1, t(sid := Idle))"
      using unseat_all_run [of "t(sid := Leaving conn [s])" sid conn "[s]" E p1] by simp
    moreover have "t(sid := Idle) = t" using assms(1) by auto
    ultimately show ?thesis using pstep.begin_part [where t = t and sid = sid, OF assms that]
      by (simp add: converse_rtranclp_into_rtranclp)
  qed
  moreover have "(pstep E)\<^sup>*\<^sup>* (p, t) (p1, t)" if "forgetOne E sid name p = (None, p1)" for name p1
    using that by (auto simp: forgetOne_def Let_def split: option.splits)
  ultimately show ?thesis using assms(2) by (auto simp: part_def split: sum.splits prod.splits option.splits)
qed

lemma whisper_run:
  assumes "sys_ok E (p, t)"
  shows "(pstep E)\<^sup>*\<^sup>* (p, t) (snd (whisper E conn f p), t)"
proof -
  have "(pstep E)\<^sup>*\<^sup>* (p, t) (p1, t)" "(pstep E)\<^sup>*\<^sup>* (p, t) (carry E event p1, t)"
    if s: "seatOf E (conn_id conn) name p = Some s" "on_channel (seat_channel s) (Broadcast (hes E) (snk E) event) p = (e, p1)"
    for name s event e p1
  proof -
    have "(name_String (hes E) name, s) \<in> set (seats p (conn_id conn))" using s(1) by (auto simp: seatOf_def dest: map_of_SomeD)
    then have "good_seat E (brk p) s"
      using socket_of [OF assms, of "conn_id conn"] by (auto simp: socket_ok_def)
    then have "seat_channel s < length (heap (brk p))" by (simp add: good_seat_def)
    from pstep.publishes [OF this s(2) [unfolded Broadcast_def]] show one: "(pstep E)\<^sup>*\<^sup>* (p, t) (p1, t)" by (rule runs_one)
    have "(pstep E)\<^sup>*\<^sup>* (p1, t) (carry E event p1, t)" by (rule speaks_to) (simp add: carry_def)
    with one show "(pstep E)\<^sup>*\<^sup>* (p, t) (carry E event p1, t)" by (rule rtranclp_trans)
  qed
  then show ?thesis by (auto simp: whisper_def Let_def split: sum.splits option.splits prod.splits)
qed

text \<open>A subscription, from the moment the policy allowed it, on either outcome.\<close>

lemma join_tail_run:
  assumes H: "hesape_documented (hes E)" and t: "t sid = Idle" "conn_id conn = sid" "sid \<noteq> []"
    and n: "NewChannelName (hes E) (conn_grant conn) req = Inr name" "\<not> atChannelLimit E sid name p"
    and r: "reach E g name p = (Inr (r, made), p2)"
    and p3: "p3 = (if made then observe (ChannelCreated name) p2 else p2)"
    and s: "s = \<lparr>seat_name = name, seat_channel = r, seat_grant = g\<rparr>"
    and sub: "on_channel r (Subscribe (hes E) (snk E) g conn m) p3 = (e, p4)"
  shows "(pstep E)\<^sup>*\<^sup>* (p, t) (case e of Some _ \<Rightarrow> snd (unseat E conn s (finishJoining E name p4))
    | None \<Rightarrow> take_seat E sid s p4, t)"
proof -
  have one: "pstep E (p, t) (p3, t(sid := Joining conn m s))"
    using pstep.begin_join [where t = t and sid = sid, OF t n r] by (simp add: p3 s)
  have tk: "(t(sid := tk)) sid = tk" for tk by simp
  have upd: "t(sid := tk, sid := Idle) = t" for tk using t(1) by auto
  have sub': "on_channel (seat_channel s) (Subscribe (hes E) (snk E) (seat_grant s) conn m) p3 = (e, p4)"
    using sub by (simp add: s)
  show ?thesis
  proof (cases e)
    case None
    have "pstep E (p3, t(sid := Joining conn m s)) (p4, t(sid := Seating conn s))"
      using pstep.subscribed [where t = "t(sid := Joining conn m s)" and sid = sid, OF tk sub' [unfolded None]] by simp
    moreover have "pstep E (p4, t(sid := Seating conn s)) (take_seat E sid s p4, t)"
      using pstep.taken [where t = "t(sid := Seating conn s)" and sid = sid, OF tk] by (simp only: upd)
    ultimately show ?thesis using one None
      by (simp add: converse_rtranclp_into_rtranclp r_into_rtranclp)
  next
    case (Some err)
    have "pstep E (p3, t(sid := Joining conn m s)) (p4, t(sid := Failing conn s))"
      using pstep.not_subscribed [where t = "t(sid := Joining conn m s)" and sid = sid, OF tk sub' [unfolded Some]] by simp
    moreover have "pstep E (p4, t(sid := Failing conn s)) (finishJoining E name p4, t(sid := Leaving conn [s]))"
      using pstep.finished [where t = "t(sid := Failing conn s)" and sid = sid, OF tk, of E p4] by (simp add: s)
    moreover have "(pstep E)\<^sup>*\<^sup>* (finishJoining E name p4, t(sid := Leaving conn [s]))
        (snd (unseat E conn s (finishJoining E name p4)), t)"
      using unseat_all_run [where t = "t(sid := Leaving conn [s])" and sid = sid, OF tk, of E "finishJoining E name p4"]
      by (simp only: upd unseat_all.simps)
    ultimately show ?thesis using one Some by (simp add: converse_rtranclp_into_rtranclp)
  qed
qed

lemma Authorize_run: "(pstep E)\<^sup>*\<^sup>* (p, t) (snd (Authorize E conn sub p), t)"
  by (rule speaks_to) (simp add: Authorize_def)

lemma Authorize_limit: "atChannelLimit E sid name (snd (Authorize E conn sub p)) = atChannelLimit E sid name p"
  by (simp add: Authorize_def atChannelLimit_def)

lemma join_granted_run:
  assumes H: "hesape_documented (hes E)" and t: "t sid = Idle" "conn_id conn = sid" "sid \<noteq> []"
    and n: "NewChannelName (hes E) (conn_grant conn) req = Inr name" "\<not> atChannelLimit E sid name p"
  shows "(pstep E)\<^sup>*\<^sup>* (p, t) (snd (join_granted E conn name m g p), t)"
proof -
  have plain: "plain_name name" using NewChannelName_ok [OF n(1) H] by (simp add: plain_name_def)
  obtain res p2 where r: "reach E g name p = (res, p2)" by force
  show ?thesis
  proof (cases res)
    case (Inl err)
    then have "p2 = p" using r by (cases rule: reach_cases [OF plain, of E g p]) auto
    then show ?thesis by (simp add: join_granted_def r Inl)
  next
    case (Inr res)
    obtain r' made where res: "res = (r', made)" by force
    define p3 where "p3 = (if made then observe (ChannelCreated name) p2 else p2)"
    define s where "s = \<lparr>seat_name = name, seat_channel = r', seat_grant = g\<rparr>"
    obtain e p4 where sub: "on_channel r' (Subscribe (hes E) (snk E) g conn m) p3 = (e, p4)" by force
    note tail = join_tail_run [where t = t and sid = sid, OF H t n r [unfolded Inr res] p3_def s_def sub]
    show ?thesis
    proof (cases e)
      case None
      have "(pstep E)\<^sup>*\<^sup>* (p, t) (take_seat E sid s p4, t)" using tail None by simp
      moreover have "(pstep E)\<^sup>*\<^sup>* (take_seat E sid s p4, t) (snd (join_granted E conn name m g p), t)"
        using write_frame_run [of E "take_seat E sid s p4" t conn] t(2)
        by (auto simp: join_granted_def r Inr res Let_def p3_def [symmetric] s_def [symmetric] sub None split: sum.splits)
      ultimately show ?thesis by (rule rtranclp_trans)
    next
      case (Some err)
      then show ?thesis using tail
        by (simp add: join_granted_def r Inr res Let_def p3_def [symmetric] s_def [symmetric] sub)
    qed
  qed
qed

lemma join_run:
  assumes H: "hesape_documented (hes E)" and t: "t sid = Idle" "conn_id conn = sid" "sid \<noteq> []"
  shows "(pstep E)\<^sup>*\<^sup>* (p, t) (snd (join E conn f p), t)"
proof -
  have granted: "(pstep E)\<^sup>*\<^sup>* (p, t) (snd (join_granted E conn name m g p1), t)"
    if "NewChannelName (hes E) (conn_grant conn) req = Inr name" "\<not> atChannelLimit E (conn_id conn) name p"
      "Authorize E conn sub p = (res, p1)" for name req m g sub res p1
  proof -
    have "\<not> atChannelLimit E sid name p1" "(pstep E)\<^sup>*\<^sup>* (p, t) (p1, t)"
      using that(2,3) Authorize_limit [of E sid name conn sub p] Authorize_run [of E p t conn sub] t(2) by simp_all
    then show ?thesis using join_granted_run [where t = t and sid = sid, OF H t that(1), of p1] by (meson rtranclp_trans)
  qed
  have asks: "(pstep E)\<^sup>*\<^sup>* (p, t) (p1, t)" if "Authorize E conn sub p = (res, p1)" for sub res p1
    using that Authorize_run [of E p t conn sub] by simp
  show ?thesis using granted asks
    by (auto simp: join_def split: sum.splits prod.splits if_splits)
qed

lemma Message_run:
  assumes H: "hesape_documented (hes E)" and ok: "sys_ok E (p, t)" and t: "t sid = Idle" "conn_id conn = sid" "sid \<noteq> []"
  shows "(pstep E)\<^sup>*\<^sup>* (p, t) (snd (Message E conn message p), t)"
proof -
  have disp: "(pstep E)\<^sup>*\<^sup>* (p, t) (snd (dispatch E conn f p), t)" for f
    using whisper_run [OF ok, of conn] join_run [where t = t and sid = sid, OF H t, of p]
      part_run [where t = t and sid = sid, OF t(1,2), of E p] write_frame_run [of E p t conn]
    by (simp add: dispatch_def)
  have "(pstep E)\<^sup>*\<^sup>* (p, t) (snd (refuse E conn e p1), t)" if "dispatch E conn f p = (e', p1)" for e e' f p1
    using disp [of f] that refuse_run [of E p1 t conn e] by (simp add: rtranclp_trans)
  then show ?thesis using refuse_run [of E p t conn] disp
    by (auto simp: Message_def split: sum.splits option.splits prod.splits) (metis snd_conv)
qed

section \<open>Properties\<close>

text \<open>Property C1. No subscription ends up on an orphan. However the sockets interleave, a channel that
  somebody is on, or that somebody has reached and is about to be seated on, is the one the
  broker hands out: whoever reaches its name next, with a grant the broker accepts, reaches that
  very channel and is not told it was created.\<close>

theorem channel_in_use_is_handed_out:
  assumes "hesape_documented (hes E)" "fresh s0" "(pstep E)\<^sup>*\<^sup>* s0 (p, t)" "r < length (heap (brk p))"
    and "subscribers (heap (brk p) ! r) \<noteq> [] \<or> (\<exists>sid s. joins (t sid) = Some s \<and> seat_channel s = r)"
    and "broker_accepts (hes E) g (ch_name (heap (brk p) ! r)) = None"
  shows "fst (reach E g (ch_name (heap (brk p) ! r)) p) = Inr (r, False)"
proof -
  have ok: "sys_ok E (p, t)" using sockets.reachable_inv [of E s0 "(p, t)"] assms(1-3) by blast
  let ?n = "ch_name (heap (brk p) ! r)"
  have plain: "plain_name ?n" using heap_channel_ok [OF sys_okD(1) [OF ok] assms(4)] by simp
  have "map_of (held (brk p)) (name_String (hes E) ?n) = Some r"
  proof (cases "subscribers (heap (brk p) ! r) = []")
    case True
    then obtain sid s where s: "joins (t sid) = Some s" "seat_channel s = r" using assms(5) by blast
    have "seat_name s = ?n" using seat_of_task(3) [OF ok, of s sid] s by simp
    then show ?thesis using reservedD(1) [OF sys_okD(4) [OF ok] s(1)] s(2) by (simp add: seat_key_def)
  next
    case False
    then show ?thesis using sys_okD(2) [OF ok] assms(4) by (simp add: registered_def ids_empty)
  qed
  then show ?thesis using assms(6)
    by (cases rule: reach_cases [OF plain, of E g p]) (simp_all add: ref_of_def)
qed

text \<open>Property C20. Nothing is left behind. Whenever no socket is in the middle of subscribing or leaving,
  every channel the broker holds has somebody on it, no reservation is outstanding, and
  whoever is on a channel has a seat for it, so that closing the socket will find it.\<close>

theorem nothing_is_left_behind:
  assumes "hesape_documented (hes E)" "fresh s0" "(pstep E)\<^sup>*\<^sup>* s0 (p, t)" "\<forall>sid. t sid = Idle"
  shows "(\<forall>k r. map_of (held (brk p)) k = Some r \<longrightarrow> subscribers (heap (brk p) ! r) \<noteq> []) \<and>
    (\<forall>k. joining p k = 0) \<and>
    (\<forall>r < length (heap (brk p)). \<forall>sid \<in> ids (heap (brk p) ! r).
      \<exists>s. seatOf E sid (ch_name (heap (brk p) ! r)) p = Some s \<and> seat_channel s = r)"
proof (intro conjI allI impI ballI)
  have ok: "sys_ok E (p, t)" using sockets.reachable_inv [of E s0 "(p, t)"] assms(1-3) by blast
  have none: "joiners E t k = {}" for k using assms(4) by (simp add: joiners_def)
  show "joining p k = 0" for k using sys_okD(3) [OF ok] by (simp add: counted_def none)
  show "subscribers (heap (brk p) ! r) \<noteq> []" if "map_of (held (brk p)) k = Some r" for k r
    using that sys_okD(7) [OF ok] assms(4) by (simp add: swept_def none ids_empty)
  fix r sid
  assume r: "r < length (heap (brk p))" "sid \<in> ids (heap (brk p) ! r)"
  then obtain k s where s: "(k, s) \<in> set (seats p sid)" "seat_channel s = r"
    using sys_okD(6) [OF ok] assms(4) by (fastforce simp: accounted_def)
  have sock: "socket_ok E (brk p) sid (seats p sid) (t sid)" by (rule socket_of [OF ok])
  then have "k = seat_key E s" "seat_name s = ch_name (heap (brk p) ! r)" "distinct (map fst (seats p sid))"
    using s by (auto simp: socket_ok_def good_seat_def)
  then show "\<exists>s. seatOf E sid (ch_name (heap (brk p) ! r)) p = Some s \<and> seat_channel s = r"
    using s map_of_is_SomeI [of "seats p sid" k s] by (auto simp: seatOf_def seat_key_def)
qed

lemma unseat_seats: "seats (snd (unseat E conn s p)) = seats p"
proof -
  have "seats (snd (on_channel r f p)) = seats p" for r f p
    by (simp add: on_channel_def split: prod.splits)
  moreover have "seats (snd (drop_channel E s p)) = seats p" for s p
    by (simp add: drop_channel_def split: prod.splits option.splits)
  ultimately show ?thesis by (simp add: unseat_def observe_def split_def Let_def)
qed

lemma unseat_all_seats: "seats (unseat_all E conn ss p) = seats p"
  by (induction ss arbitrary: p) (simp_all add: unseat_seats)

lemma unrecorded_is_nowhere:
  assumes "sys_ok E (p, t)" "t sid = Idle" "seats p sid = []" "r < length (heap (brk p))"
  shows "sid \<notin> ids (heap (brk p) ! r)"
  using sys_okD(6) [OF assms(1)] assms(2-4) by (fastforce simp: accounted_def)

text \<open>Closing a socket takes it off everything. In every state the sockets can reach, whatever
  the others are in the middle of, closing an idle socket leaves it with no seat and on no
  channel at all, those the broker has let go of included, and takes no seat from another.\<close>

theorem close_takes_the_socket_off_everything:
  assumes "hesape_documented (hes E)" "fresh s0" "(pstep E)\<^sup>*\<^sup>* s0 (p, t)" "t (conn_id conn) = Idle"
  shows "seats (Close E conn p) = (seats p)(conn_id conn := []) \<and>
    (\<forall>r < length (heap (brk (Close E conn p))). conn_id conn \<notin> ids (heap (brk (Close E conn p)) ! r))"
proof -
  have ok: "sys_ok E (p, t)" using sockets.reachable_inv [of E s0 "(p, t)"] assms(1-3) by blast
  have run: "(pstep E)\<^sup>*\<^sup>* (p, t) (Close E conn p, t)" using Close_run [where t = t, OF assms(4) refl] .
  have ok': "sys_ok E (Close E conn p, t)" using sockets.kept [OF run] ok assms(1) by blast
  have s: "seats (Close E conn p) = (seats p)(conn_id conn := [])"
    by (simp add: Close_def forget_def unseat_all_seats)
  show ?thesis using s unrecorded_is_nowhere [OF ok' assms(4)] by simp
qed

text \<open>Property C29. One socket is on so many channels and no more. With a limit set, in every state the sockets
  can reach, a socket has at most that many seats, and while it is not in the middle of
  anything it is on at most that many channels.\<close>

theorem channel_limit_holds:
  assumes "hesape_documented (hes E)" "fresh s0" "(pstep E)\<^sup>*\<^sup>* s0 (p, t)" "0 \<le> maxChannels E"
  shows "int (length (seats p sid)) \<le> maxChannels E \<and>
    (t sid = Idle \<longrightarrow> int (card {r. r < length (heap (brk p)) \<and> sid \<in> ids (heap (brk p) ! r)}) \<le> maxChannels E)"
proof -
  have ok: "sys_ok E (p, t)" using sockets.reachable_inv [of E s0 "(p, t)"] assms(1-3) by blast
  have len: "int (length (seats p sid)) \<le> maxChannels E"
    using sys_okD(8) [OF ok] assms(4) by (simp add: within_limit_def)
  have "card {r. r < length (heap (brk p)) \<and> sid \<in> ids (heap (brk p) ! r)} \<le> length (seats p sid)" if "t sid = Idle"
  proof -
    have "{r. r < length (heap (brk p)) \<and> sid \<in> ids (heap (brk p) ! r)} \<subseteq> set (map (seat_channel \<circ> snd) (seats p sid))"
    proof
      fix r assume "r \<in> {r. r < length (heap (brk p)) \<and> sid \<in> ids (heap (brk p) ! r)}"
      then have "r \<in> seat_channel ` (snd ` set (seats p sid) \<union> owed (t sid))"
        using sys_okD(6) [OF ok] by (simp add: accounted_def)
      then show "r \<in> set (map (seat_channel \<circ> snd) (seats p sid))" using that by (simp add: image_image)
    qed
    from order_trans [OF card_mono [OF finite_set this] card_length] show ?thesis by (simp only: length_map)
  qed
  then show ?thesis using len by (intro conjI impI) linarith+
qed

text \<open>The handlers are runs of the interleaved steps. Handling a frame, or a close, of an idle
  socket in any state the sockets can reach is a sequence of those steps that ends with the
  socket idle again and leaves the others where they were; so what holds of every reachable
  state holds between frames.\<close>

theorem handlers_are_runs:
  assumes "hesape_documented (hes E)" "fresh s0" "(pstep E)\<^sup>*\<^sup>* s0 (p, t)" "t (conn_id conn) = Idle" "conn_id conn \<noteq> []"
  shows "(pstep E)\<^sup>*\<^sup>* s0 (snd (Message E conn message p), t) \<and> (pstep E)\<^sup>*\<^sup>* s0 (Close E conn p, t) \<and>
    (pstep E)\<^sup>*\<^sup>* s0 (snd (Open E conn p), t)"
proof -
  have ok: "sys_ok E (p, t)" using sockets.reachable_inv [of E s0 "(p, t)"] assms(1-3) by blast
  show ?thesis
    using assms(3) Message_run [where t = t, OF assms(1) ok assms(4) refl assms(5)]
      Close_run [where t = t, OF assms(4) refl] write_frame_run [of E p t conn]
    unfolding Open_def by (meson rtranclp_trans)
qed

section \<open>Witnesses\<close>

definition sample_env :: "(sample_grant, string) pusher_env" where
  "sample_env = \<lparr>hes = sample_hesape, snk = all_writes_work, subscribe_policy = (\<lambda>_ u _ sub. Inr (join_grant ''acme'' u)),
    is_carrier = False, events = True, timeout = 0, maxChannels = 2\<rparr>"

definition sample_pusher :: "sample_grant pusher" where
  "sample_pusher = \<lparr>brk = NewMemoryBroker, seats = (\<lambda>_. []), joining = (\<lambda>_. 0), out = [], told = [], asked = [], carried = []\<rparr>"

definition news :: ChannelName where
  "news = \<lparr>tenant = ''acme'', requested = ''news''\<rparr>"

definition ana :: "sample_grant Connection" where "ana = sample_conn ''acme'' ''ana'' ''1.1''"

definition news_seat :: "sample_grant seat" where
  "news_seat = \<lparr>seat_name = news, seat_channel = 0, seat_grant = join_grant ''acme'' ''ana''\<rparr>"

text \<open>Ana on the news: the state after her subscription.\<close>

definition on_news :: "sample_grant pusher" where
  "on_news = sample_pusher\<lparr>brk := \<lparr>heap = [\<lparr>ch_name = news, subscribers = [(''1.1'', \<lparr>sub_Conn = ana, sub_Member = no_member\<rparr>)],
      cached = None\<rparr>], held = [(''acme:news'', 0)]\<rparr>,
    seats := (\<lambda>_. [])(''1.1'' := [(''acme:news'', news_seat)]), told := [ChannelCreated news]\<rparr>"

lemma sample_fresh: "fresh (sample_pusher, \<lambda>_. Idle)" "hesape_documented (hes sample_env)"
  using sample_documented by (simp_all add: fresh_def sample_pusher_def sample_env_def)

lemma news_facts:
  "tenant news = ''acme''" "name_String sample_hesape news = ''acme:news''" "conn_id ana = ''1.1''" "\<not> IsZero news"
  by (simp_all add: news_def name_String_def IsZero_def ana_def sample_conn_def sample_hesape_def)

lemma sample_name: "NewChannelName (hes sample_env) (conn_grant ana) ''news'' = Inr news"
  by (auto simp: NewChannelName_def sample_env_def sample_hesape_def ana_def sample_conn_def news_def
      MaxChannelNameLength_def notChannelCharacter_def ChannelNameCharacters_def of_char_def)

text \<open>Ana's subscription to the news, from the state in which nobody is on anything.\<close>

definition reached_news :: "sample_grant pusher \<Rightarrow> sample_grant pusher" where
  "reached_news p = p\<lparr>brk := \<lparr>heap = [\<lparr>ch_name = news, subscribers = [], cached = None\<rparr>], held = [(''acme:news'', 0)]\<rparr>,
    joining := (\<lambda>_. 0)(''acme:news'' := 1)\<rparr>"

lemma sample_reach:
  assumes "brk p = NewMemoryBroker" "joining p = (\<lambda>_. 0)"
  shows "reach sample_env (join_grant ''acme'' ''ana'') news p = (Inr (0, True), reached_news p)"
  using assms by (simp add: reach_def reached_news_def Find_def FindOrCreate_def broker_accepts_def tenantOf_def sample_env_def
      NewMemoryBroker_def NewChannel_def news_def IsZero_def name_String_def sample_defs Let_def)

lemma sample_subscribe:
  "Subscribe sample_hesape all_writes_work (join_grant ''acme'' ''ana'') ana no_member
      (\<lparr>ch_name = news, subscribers = [], cached = None\<rparr>, w) =
    (None, \<lparr>ch_name = news, subscribers = [(''1.1'', \<lparr>sub_Conn = ana, sub_Member = no_member\<rparr>)], cached = None\<rparr>, w)"
proof -
  have "name_Type sample_hesape news = PublicChannel"
    by (simp add: name_Type_def news_def sample_hesape_def EncryptedPrivateCacheChannelPrefix_def
        PrivateCacheChannelPrefix_def PresenceCacheChannelPrefix_def CacheChannelPrefix_def Let_def)
  then show ?thesis by (simp add: Subscribe_def Presence_def Cache_def channel_Find_def errors_join_def sample_facts ana_def news_facts)
qed

lemma sample_run: "(pstep sample_env)\<^sup>*\<^sup>* (sample_pusher, \<lambda>_. Idle) (on_news, \<lambda>_. Idle)"
proof -
  let ?E = sample_env and ?p2 = "reached_news sample_pusher"
  let ?p4 = "(on_news\<lparr>seats := (\<lambda>_. []), joining := (\<lambda>_. 0)(''acme:news'' := 1)\<rparr>)"
  have lim: "\<not> atChannelLimit ?E ''1.1'' news sample_pusher"
    by (simp add: atChannelLimit_def sample_env_def sample_pusher_def)
  have r: "reach ?E (join_grant ''acme'' ''ana'') news sample_pusher = (Inr (0, True), ?p2)"
    by (rule sample_reach) (simp_all add: sample_pusher_def)
  have "on_channel 0 (Subscribe (hes ?E) (snk ?E) (join_grant ''acme'' ''ana'') ana no_member)
      (if True then observe (ChannelCreated news) ?p2 else ?p2) = (None, ?p4)"
    by (simp add: on_channel_def observe_def sample_env_def on_news_def sample_pusher_def reached_news_def sample_subscribe)
  from join_tail_run [where t = "\<lambda>_. Idle" and sid = "''1.1''" and conn = ana, OF sample_fresh(2) refl news_facts(3) _ sample_name
      lim r refl news_seat_def this]
  have "(pstep ?E)\<^sup>*\<^sup>* (sample_pusher, \<lambda>_. Idle) (take_seat ?E ''1.1'' news_seat ?p4, \<lambda>_. Idle)" by simp
  moreover have "take_seat ?E ''1.1'' news_seat ?p4 = on_news"
    by (simp add: take_seat_def finishJoining_def on_news_def sample_pusher_def news_facts news_seat_def sample_env_def Let_def fun_eq_iff)
  ultimately show ?thesis by simp
qed

theorem channel_in_use_is_handed_out_witness:
  "fst (reach sample_env (join_grant ''acme'' ''bob'') news on_news) = Inr (0, False)"
proof -
  have c: "ch_name (heap (brk on_news) ! 0) = news" "0 < length (heap (brk on_news))"
    "subscribers (heap (brk on_news) ! 0) \<noteq> []" by (simp_all add: on_news_def)
  have "broker_accepts (hes sample_env) (join_grant ''acme'' ''bob'') news = None"
    by (simp add: broker_accepts_def tenantOf_def sample_env_def sample_facts news_facts)
  then show ?thesis
    using channel_in_use_is_handed_out [OF sample_fresh(2,1) sample_run c(2), of "join_grant ''acme'' ''bob''"] c by simp
qed

theorem nothing_is_left_behind_witness:
  "\<exists>s. seatOf sample_env ''1.1'' news on_news = Some s \<and> seat_channel s = 0"
proof -
  have "ch_name (heap (brk on_news) ! 0) = news" "0 < length (heap (brk on_news))" "''1.1'' \<in> ids (heap (brk on_news) ! 0)"
    by (simp_all add: on_news_def ids_def)
  then show ?thesis using nothing_is_left_behind [OF sample_fresh(2,1) sample_run] by fastforce
qed

theorem close_takes_the_socket_off_everything_witness:
  "seats (Close sample_env ana on_news) ''1.1'' = [] \<and> seats on_news ''1.1'' \<noteq> []"
  using close_takes_the_socket_off_everything [OF sample_fresh(2,1) sample_run, of ana]
  by (simp add: news_facts on_news_def)

theorem channel_limit_holds_witness:
  "0 < length (seats on_news ''1.1'') \<and> int (length (seats on_news ''1.1'')) \<le> maxChannels sample_env"
  using channel_limit_holds [OF sample_fresh(2,1) sample_run, of "''1.1''"] by (simp add: sample_env_def on_news_def)

theorem handlers_are_runs_witness:
  "(pstep sample_env)\<^sup>*\<^sup>* (sample_pusher, \<lambda>_. Idle) (Close sample_env ana on_news, \<lambda>_. Idle)"
  using handlers_are_runs [OF sample_fresh(2,1) sample_run, of ana] by (simp add: news_facts)

end
