(* ===== verification/Pusher_Answers.thy ===== *)
theory Pusher_Answers
  imports Pusher_Interleaving Json_Facts
begin

text \<open>
  What a client is answered, and what its frames can bring about: which messages are obeyed
  at all, what a refusal says, that nothing of the channels changes before the policy was
  asked, and who a relayed client event is from.
\<close>

section \<open>What is written\<close>

definition said :: "'g Connection \<Rightarrow> Frame \<Rightarrow> outbox" where
  "said conn f = (case Encode f of Inl _ \<Rightarrow> [] | Inr m \<Rightarrow> [(conn_id conn, m)])"

lemma write_frame_said: "snd (write_frame E conn f p) = p\<lparr>out := out p @ said conn f\<rparr>"
  by (simp add: write_frame_def said_def conn_Send_def split: sum.splits)

lemma refuse_said: "snd (refuse E conn e p) = p\<lparr>out := out p @ said conn (ErrorFrame e)\<rparr>"
  using write_frame_said [of E conn "ErrorFrame e" p]
  by (cases "write_frame E conn (ErrorFrame e) p") (auto simp: refuse_def split: option.splits)

lemma refuse_answers: "\<exists>cause. fst (refuse E conn e p) = Some cause"
  by (auto simp: refuse_def errors_join_def split: prod.splits option.splits)

text \<open>The frame of an error says no more than this: its own code, or one of two sentences.\<close>

lemma ErrorFrame_unknown:
  assumes "as_protocol e = None"
  shows "ErrorFrame e = ErrorFrame (if is_forbidden e then ErrUnauthorized else ErrInvalidMessage)"
  using assms by (simp add: ErrorFrame_def protocol_errors)

section \<open>Properties\<close>

text \<open>What a client may say is a closed list. A message that cannot be read, or that is none of
  subscribe, unsubscribe, ping, pong and the client events, has one effect: one error frame with
  the code 4200 is written to the socket that sent it. In particular no event in the server's own
  namespace is ever obeyed.\<close>

theorem only_the_closed_list_is_obeyed:
  assumes "\<And>f. Decode message = Inr f \<Longrightarrow>
    \<not> prefix ClientEventPrefix (fr_Event f) \<and> fr_Event f \<notin> {EventSubscribe, EventUnsubscribe, EventPing, EventPong}"
  shows "\<exists>m. Encode (error_frame 4200 ''Invalid message format'') = Inr m \<and>
    snd (Message E conn message p) = p\<lparr>out := out p @ [(conn_id conn, m)]\<rparr>"
proof -
  have inv: "ErrorFrame ErrInvalidMessage = error_frame 4200 ''Invalid message format''"
    by (simp add: ErrorFrame_def protocol_errors)
  have "Message E conn message p = refuse E conn ErrInvalidMessage p"
  proof (cases "Decode message")
    case (Inl err)
    then have "err = ErrInvalidMessage" by (auto simp: Decode_def split: if_splits option.splits)
    then show ?thesis by (simp add: Message_def Inl)
  next
    case (Inr f)
    then have "ClientMaySend f = Some ErrInvalidMessage"
      using assms [OF Inr] by (auto simp: ClientMaySend_def IsClientEvent_def)
    then show ?thesis by (simp add: Message_def Inr)
  qed
  moreover have "utf8 ''Invalid message format''" by (rule ascii_utf8) (simp add: code_def of_char_def)
  from Encode_error [OF this, of 4200] obtain m where "Encode (error_frame 4200 ''Invalid message format'') = Inr m" by blast
  ultimately show ?thesis by (simp add: refuse_said inv said_def)
qed

text \<open>A refusal discloses nothing. Whenever handling a message answers an error, the last
  thing that happened is that the client was written the frame of that error: the code and the
  fixed sentence of a protocol error, and for every other cause, whatever it says, the
  unauthorized frame when the cause is a refusal of the authorization and the
  invalid-message frame otherwise.\<close>

theorem refusals_disclose_nothing:
  assumes "Message E conn message p = (Some e, p')"
  shows "\<exists>cause p1. p' = p1\<lparr>out := out p1 @ said conn (ErrorFrame cause)\<rparr> \<and>
    (case as_protocol cause of
       Some (c, m) \<Rightarrow> ErrorFrame cause = error_frame c m
     | None \<Rightarrow> ErrorFrame cause = (if is_forbidden cause then error_frame 4009 ''Connection is unauthorized''
         else error_frame 4200 ''Invalid message format''))"
proof -
  have "\<exists>cause p1. (Some e, p') = refuse E conn cause p1"
    using assms by (auto simp: Message_def split: sum.splits option.splits prod.splits) metis+
  then obtain cause p1 where r: "(Some e, p') = refuse E conn cause p1" by blast
  have "p' = p1\<lparr>out := out p1 @ said conn (ErrorFrame cause)\<rparr>" using refuse_said [of E conn cause p1] r by (metis snd_conv)
  moreover have "case as_protocol cause of
       Some (c, m) \<Rightarrow> ErrorFrame cause = error_frame c m
     | None \<Rightarrow> ErrorFrame cause = (if is_forbidden cause then error_frame 4009 ''Connection is unauthorized''
         else error_frame 4200 ''Invalid message format'')"
    by (simp add: ErrorFrame_def protocol_errors split: option.splits prod.splits)
  ultimately show ?thesis by blast
qed

text \<open>What of the state is about channels.\<close>

definition about_channels :: "'g pusher \<Rightarrow> 'g broker \<times> (SocketID \<Rightarrow> (string \<times> 'g seat) list) \<times> (string \<Rightarrow> nat) \<times> announcement list" where
  "about_channels p = (brk p, seats p, joining p, told p)"

lemma about_channels_out [simp]: "about_channels (p\<lparr>out := w\<rparr>) = about_channels p" "about_channels (p\<lparr>asked := a\<rparr>) = about_channels p"
  by (simp_all add: about_channels_def)

lemma seats_ops:
  "seats (snd (on_channel r f p)) = seats p" "asked (snd (on_channel r f p)) = asked p"
  "seats (snd (drop_channel E s p)) = seats p" "asked (snd (drop_channel E s p)) = asked p"
  "asked (finishJoining E n p) = asked p" "seats (observe a p) = seats p" "asked (observe a p) = asked p"
  "seats (snd (reach E g n p)) = seats p" "asked (snd (reach E g n p)) = asked p"
  by (auto simp: on_channel_def drop_channel_def finishJoining_def observe_def reach_def Let_def
      split: prod.splits option.splits sum.splits bool.splits)

lemma unseat_asked: "asked (snd (unseat E conn s p)) = asked p"
  by (simp add: unseat_def split_def Let_def seats_ops observe_def)

lemma set_update_only: "(k', v') \<in> set (AList.update k v al) \<Longrightarrow> (k', v') \<notin> set al \<Longrightarrow> k' = k \<and> v' = v"
  by (induction al) (auto split: if_splits)

lemma join_granted_effect:
  assumes "join_granted E conn name m g p = (e, p')"
  shows "asked p' = asked p" "\<And>x. x \<noteq> conn_id conn \<Longrightarrow> seats p' x = seats p x"
    "\<And>k s. (k, s) \<in> set (seats p' (conn_id conn)) \<Longrightarrow> (k, s) \<notin> set (seats p (conn_id conn)) \<Longrightarrow>
      seat_name s = name \<and> seat_grant s = g \<and> k = name_String (hes E) name"
proof -
  obtain res p2 where r: "reach E g name p = (res, p2)" by force
  have p2: "seats p2 = seats p" "asked p2 = asked p" using seats_ops(8,9) [of E g name p] r by simp_all
  have "asked p' = asked p \<and> (seats p' = seats p \<or>
     (\<exists>i. seats p' = (seats p)(conn_id conn := AList.update (name_String (hes E) name)
        \<lparr>seat_name = name, seat_channel = i, seat_grant = g\<rparr> (seats p (conn_id conn)))))"
  proof (cases res)
    case (Inl err)
    then show ?thesis using assms r p2 by (simp add: join_granted_def)
  next
    case (Inr res)
    obtain i made where i: "res = (i, made)" by force
    define p3 where "p3 = (if made then observe (ChannelCreated name) p2 else p2)"
    obtain e4 p4 where sub: "on_channel i (Subscribe (hes E) (snk E) g conn m) p3 = (e4, p4)" by force
    have p3: "seats p3 = seats p" "asked p3 = asked p" using p2 by (simp_all add: p3_def seats_ops)
    have p4: "seats p4 = seats p" "asked p4 = asked p"
      using seats_ops(1,2) [of i "Subscribe (hes E) (snk E) g conn m" p3] sub p3 by simp_all
    show ?thesis
    proof (cases e4)
      case None
      have "p' = take_seat E (conn_id conn) \<lparr>seat_name = name, seat_channel = i, seat_grant = g\<rparr> p4 \<or>
          (\<exists>f. p' = snd (write_frame E conn f (take_seat E (conn_id conn) \<lparr>seat_name = name, seat_channel = i, seat_grant = g\<rparr> p4)))"
        using assms by (auto simp: join_granted_def r Inr i Let_def p3_def [symmetric] sub None split: sum.splits) (metis snd_conv)
      then show ?thesis
        by (auto simp: write_frame_said take_seat_def Let_def finishJoining_simps seats_ops p4)
    next
      case (Some err)
      have "p' = snd (unseat E conn \<lparr>seat_name = name, seat_channel = i, seat_grant = g\<rparr> (finishJoining E name p4))"
        using assms by (auto simp: join_granted_def r Inr i Let_def p3_def [symmetric] sub Some)
      then show ?thesis by (simp add: unseat_seats unseat_asked finishJoining_simps seats_ops p4)
    qed
  qed
  then show "asked p' = asked p" "\<And>x. x \<noteq> conn_id conn \<Longrightarrow> seats p' x = seats p x"
    "\<And>k s. (k, s) \<in> set (seats p' (conn_id conn)) \<Longrightarrow> (k, s) \<notin> set (seats p (conn_id conn)) \<Longrightarrow>
      seat_name s = name \<and> seat_grant s = g \<and> k = name_String (hes E) name"
    using set_update_only by (fastforce split: if_splits)+
qed

text \<open>Property C5. No subscription happens without the policy. When handling a subscribe message changes
  anything about the channels, the policy was asked exactly once, about this socket's subject, this
  socket and a name in the subject's own tenant, and it issued a grant; no other socket's
  record changed, and what was added to this one's is that name under that grant.\<close>

theorem no_subscription_without_the_policy:
  assumes "hesape_documented (hes E)" "Decode message = Inr f" "fr_Event f = EventSubscribe"
    and "snd (Message E conn message p) = p'" "about_channels p' \<noteq> about_channels p"
  shows "\<exists>sub g. asked p' = asked p @ [sub] \<and> subs_Socket sub = conn_id conn \<and>
    tenant (subs_Channel sub) = conn_Tenant (hes E) conn \<and>
    subscribe_policy E (asked p) (conn_Subject (hes E) conn) (ChannelJoin (hes E)) sub = Inr g \<and>
    (\<forall>x. x \<noteq> conn_id conn \<longrightarrow> seats p' x = seats p x) \<and>
    (\<forall>(k, s) \<in> set (seats p' (conn_id conn)) - set (seats p (conn_id conn)).
       seat_name s = subs_Channel sub \<and> seat_grant s = g)"
proof -
  have ev: "ClientMaySend f = None" "\<not> IsClientEvent f"
    using assms(3) by (simp_all add: ClientMaySend_def IsClientEvent_def event_defs)
  obtain e p1 where j: "join E conn f p = (e, p1)" by force
  have p': "\<exists>w. p' = p1\<lparr>out := w\<rparr>"
  proof (cases e)
    case None
    then show ?thesis using assms(2-4) j ev by (auto simp: Message_def dispatch_def intro: exI [of _ "out p1"])
  next
    case (Some cause)
    then show ?thesis using assms(2-4) j ev refuse_said [of E conn cause p1] by (auto simp: Message_def dispatch_def)
  qed
  then have p1: "about_channels p1 \<noteq> about_channels p" "asked p' = asked p1" "seats p' = seats p1" using assms(5) by auto
  obtain request :: SubscribeRequest and name m g where r: "NewChannelName (hes E) (conn_grant conn) (rq_Channel request) = Inr name"
    and a: "subscribe_policy E (asked p) (conn_Subject (hes E) conn) (ChannelJoin (hes E))
        \<lparr>subs_Channel = name, subs_Member = m, subs_Socket = conn_id conn, subs_Auth = rq_Auth request,
          subs_ChannelData = rq_ChannelData request\<rparr> = Inr g"
    and jg: "join_granted E conn name m g (p\<lparr>asked := asked p @ [\<lparr>subs_Channel = name, subs_Member = m, subs_Socket = conn_id conn,
        subs_Auth = rq_Auth request, subs_ChannelData = rq_ChannelData request\<rparr>]\<rparr>) = (e, p1)"
    using j p1(1) by (auto simp: join_def Authorize_def split: sum.splits if_splits)
  have "tenant name = conn_Tenant (hes E) conn" using NewChannelName_ok(1) [OF r assms(1)] by (simp add: conn_Tenant_def)
  then show ?thesis using join_granted_effect [OF jg] a p1
    by (intro exI [of _ "\<lparr>subs_Channel = name, subs_Member = m, subs_Socket = conn_id conn, subs_Auth = rq_Auth request,
          subs_ChannelData = rq_ChannelData request\<rparr>"] exI [of _ g]) auto
qed

text \<open>Property C26. A client event names its sender, and the sender does not choose the name. When a client
  event is accepted, client events are switched on, the channel is the one the frame names, in the
  sender's tenant, and one a policy guards, and the sender is seated on it; what everybody else on the channel receives, each of them once, is
  the sender's event with the user id the channel recorded when the sender took the seat, and
  the other instances are handed the same event.\<close>

theorem client_event_names_its_sender:
  assumes "hesape_documented (hes E)" "Decode message = Inr f" "IsClientEvent f" "Message E conn message p = (None, p')"
    and "\<forall>c \<in> set (heap (brk p)). channel_ok (hes E) c"
    and "\<forall>(k, s) \<in> set (seats p (conn_id conn)). seat_channel s < length (heap (brk p))"
  shows "\<exists>name s sub ev new. events E \<and> NewChannelName (hes E) (conn_grant conn) (fr_Channel f) = Inr name \<and>
    Guarded (name_Type (hes E) name) \<and> requested name = fr_Channel f \<and> tenant name = conn_Tenant (hes E) conn \<and>
    seatOf E (conn_id conn) name p = Some s \<and>
    channel_Find (heap (brk p) ! seat_channel s) (conn_id conn) = Some sub \<and>
    ev = \<lparr>ev_Name = fr_Event f, ev_Channel = name, ev_Data = fr_Data f, ev_Socket = conn_id conn,
      ev_UserID = UserID (sub_Member sub)\<rparr> \<and>
    out p' = out p @ new \<and> one_each new (ids (heap (brk p) ! seat_channel s) - {conn_id conn}) (the_frame ev) \<and>
    seats p' = seats p \<and> joining p' = joining p \<and> told p' = told p \<and> asked p' = asked p \<and>
    carried p' = carried p @ (if is_carrier E then [ev] else [])"
proof -
  have cs: "ClientMaySend f = None" using assms(3) by (simp add: ClientMaySend_def)
  have w: "whisper E conn f p = (None, p')"
    using assms(2-4) cs refuse_answers [of E conn]
    by (auto simp: Message_def dispatch_def split: prod.splits option.splits) (metis fst_conv option.distinct(1))
  then obtain name where n: "NewChannelName (hes E) (conn_grant conn) (fr_Channel f) = Inr name"
    by (auto simp: whisper_def split: sum.splits)
  define found where "found = (case seatOf E (conn_id conn) name p of None \<Rightarrow> None
    | Some s \<Rightarrow> channel_Find (heap (brk p) ! seat_channel s) (conn_id conn))"
  obtain ev where acc: "Accept (hes E) (events E) f name (conn_id conn)
      (case found of None \<Rightarrow> no_member | Some s \<Rightarrow> sub_Member s) (found \<noteq> None) = Inr ev"
    using w n by (auto simp: whisper_def found_def Let_def split: sum.splits)
  then have a: "events E" "Guarded (name_Type (hes E) name)" "found \<noteq> None"
    by (auto simp: Accept_def split: if_splits)
  obtain sub s where s: "seatOf E (conn_id conn) name p = Some s" "channel_Find (heap (brk p) ! seat_channel s) (conn_id conn) = Some sub"
    "found = Some sub" using a(3) by (auto simp: found_def split: option.splits)
  have ev: "ev = \<lparr>ev_Name = fr_Event f, ev_Channel = name, ev_Data = fr_Data f, ev_Socket = conn_id conn, ev_UserID = UserID (sub_Member sub)\<rparr>"
    using acc s(3) by (auto simp: Accept_def split: if_splits)
  obtain p1 where b: "on_channel (seat_channel s) (Broadcast (hes E) (snk E) ev) p = (None, p1)" "p' = carry E ev p1"
    using w n acc s by (auto simp: whisper_def found_def Let_def split: prod.splits option.splits)
  obtain c wr where c: "Broadcast (hes E) (snk E) ev (heap (brk p) ! seat_channel s, out p) = (None, c, wr)" "p1 = put_channel (seat_channel s) c wr p"
    using b(1) by (auto simp: on_channel_put)
  have "seat_channel s < length (heap (brk p))" using s(1) assms(6) by (force simp: seatOf_def dest: map_of_SomeD)
  then have ok: "channel_ok (hes E) (heap (brk p) ! seat_channel s)" using assms(5) by simp
  have ca: "channel_accepts (heap (brk p) ! seat_channel s) ev = None"
    using c(1) by (cases "channel_accepts (heap (brk p) ! seat_channel s) ev") (simp_all add: Broadcast_def channel_send_refused)
  have "wr = out p @ copies (gather (heap (brk p) ! seat_channel s) (conn_id conn)) (the_frame ev)"
    using c(1) channel_send_ok [OF ok ca, of "snk E" "ev_Socket ev" "out p"] ev by (simp add: Broadcast_def)
  then have "out p' = out p @ copies (gather (heap (brk p) ! seat_channel s) (conn_id conn)) (the_frame ev) \<and>
    seats p' = seats p \<and> joining p' = joining p \<and> told p' = told p \<and> asked p' = asked p \<and>
    carried p' = carried p @ (if is_carrier E then [ev] else [])"
    using b(2) c(2) by (simp add: carry_def put_channel_def)
  then show ?thesis
    using a(1,2) s(1,2) ev copies_one_each [OF ok, of "conn_id conn" "the_frame ev"] NewChannelName_ok(1,2) [OF n assms(1)] n
    by (auto simp: conn_Tenant_def)
qed

text \<open>Property C30. A subscription that is refused takes away the one the socket had. When a socket that is
  on a channel subscribes to it again and the channel refuses, as a presence channel does when the
  second request names no member, the socket is taken off the channel it was on, while its seat
  stays on record and counts towards its limit.\<close>

theorem refused_resubscription_evicts:
  assumes "hesape_documented (hes E)" "fresh s0" "(pstep E)\<^sup>*\<^sup>* s0 (p, t)" "t (conn_id conn) = Idle"
    and "NewChannelName (hes E) (conn_grant conn) req = Inr name" "broker_accepts (hes E) g name = None"
    and "seatOf E (conn_id conn) name p = Some s" "conn_id conn \<in> ids (heap (brk p) ! seat_channel s)"
    and "\<not> may_seat (hes E) g conn m (heap (brk p) ! seat_channel s)"
  shows "\<exists>e p'. join_granted E conn name m g p = (Some e, p') \<and> seats p' = seats p \<and>
    conn_id conn \<notin> ids (heap (brk p') ! seat_channel s)"
proof -
  have ok: "sys_ok E (p, t)" using sockets.reachable_inv [of E s0 "(p, t)"] assms(1-3) by blast
  let ?r = "seat_channel s" and ?c = "heap (brk p) ! seat_channel s" and ?k = "name_String (hes E) name"
  have plain: "plain_name name" using NewChannelName_ok [OF assms(5,1)] by (simp add: plain_name_def)
  have "(?k, s) \<in> set (seats p (conn_id conn))" using assms(7) by (auto simp: seatOf_def dest: map_of_SomeD)
  then have s: "?k = seat_key E s" "good_seat E (brk p) s" using socket_of [OF ok, of "conn_id conn"] by (auto simp: socket_ok_def)
  then have r: "?r < length (heap (brk p))" "ch_name ?c = seat_name s" by (simp_all add: good_seat_def)
  have held: "map_of (held (brk p)) ?k = Some ?r"
    using sys_okD(2) [OF ok] r assms(8) s(1) by (auto simp: registered_def seat_key_def)
  obtain p2 where p2: "reach E g name p = (Inr (?r, False), p2)" "brk p2 = brk p" "seats p2 = seats p"
    using held assms(6) by (cases rule: reach_cases [OF plain, of E g p]) (auto simp: ref_of_def created_def)
  obtain e where e: "Subscribe (hes E) (snk E) g conn m (?c, out p2) = (Some e, ?c, out p2)"
    using Subscribe_refused [OF assms(9)] by blast
  define p4 where "p4 = snd (on_channel ?r (Subscribe (hes E) (snk E) g conn m) p2)"
  have p4: "on_channel ?r (Subscribe (hes E) (snk E) g conn m) p2 = (Some e, p4)" "seats p4 = seats p" "heap (brk p4) = heap (brk p)"
    using e p2 r(1) by (simp_all add: p4_def on_channel_def)
  define mine where "mine = \<lparr>seat_name = name, seat_channel = ?r, seat_grant = g\<rparr>"
  define p' where "p' = snd (unseat E conn mine (finishJoining E name p4))"
  have "join_granted E conn name m g p = (Some e, p')"
    by (simp add: join_granted_def p2(1) p4(1) p'_def mine_def)
  moreover have "seats p' = seats p" by (simp add: p'_def unseat_seats finishJoining_simps p4)
  moreover have "conn_id conn \<notin> ids (heap (brk p') ! ?r)"
  proof -
    have drop: "heap (brk (snd (drop_channel E x q))) = heap (brk q)" for x q
    proof -
      have "heap (snd (Remove (hes E) h n b)) = heap b" for h n b
        by (cases rule: Remove_cases [of "hes E" h n b]) simp_all
      then show ?thesis by (simp add: drop_channel_def split: prod.splits option.splits) (metis snd_conv)
    qed
    have "heap (brk p') = (heap (brk p))[?r := unseated conn ?c]"
      using Unsubscribe_eq [of "hes E" "snk E" conn ?c "out (finishJoining E name p4)"]
      by (simp add: p'_def unseat_def split_def Let_def observe_def drop on_channel_def mine_def finishJoining_simps p4)
    then show ?thesis using r(1) by (simp add: ids_unseated)
  qed
  ultimately show ?thesis by blast
qed

section \<open>Witnesses\<close>

definition forged :: Frame where
  "forged = ev_frame EventMemberAdded ''presence-room'' []"

definition asks_news :: Frame where
  "asks_news = ev_frame EventSubscribe [] (json_object [(''channel'', json_string ''news'')])"

definition typing :: Frame where
  "typing = ev_frame ''client-typing'' ''presence-room'' []"

lemma ascii_names:
  "utf8 EventMemberAdded" "utf8 ''presence-room''" "utf8 EventSubscribe" "utf8 ''channel''" "utf8 ''news''" "utf8 ''client-typing''"
  "utf8 []" "utf8 ''ana''"
  by (rule ascii_utf8; simp add: code_def of_char_def event_defs)+

lemma sample_frames:
  "Decode (json_object (frame_members forged)) = Inr forged"
  "Decode (json_object (frame_members typing)) = Inr typing"
  "Decode (json_object (frame_members asks_news)) = Inr asks_news"
  "Subscribe_request asks_news = Inr \<lparr>rq_Channel = ''news'', rq_Auth = [], rq_ChannelData = []\<rparr>"
proof -
  show "Decode (json_object (frame_members forged)) = Inr forged" "Decode (json_object (frame_members typing)) = Inr typing"
    by (rule Decode_written; use ascii_names in \<open>simp add: forged_def typing_def ev_frame_def utf8_frame_def event_defs\<close>)+
  have v: "\<forall>(k, v) \<in> set [(''channel'', json_string ''news'')]. utf8 k \<and> value_at 9999 v"
    using ascii_names value_string by simp
  from value_Compact(1) [OF value_object [OF v, folded depth(1)]] have c: "Compact (fr_Data asks_news) = Some (fr_Data asks_news)"
    by (simp add: asks_news_def ev_frame_def)
  have "utf8_frame asks_news"
    using ascii_names utf8_json_string utf8_object [of "[(''channel'', json_string ''news'')]"]
    by (simp add: asks_news_def ev_frame_def utf8_frame_def)
  then show "Decode (json_object (frame_members asks_news)) = Inr asks_news"
    using c by (intro Decode_written) (simp_all add: asks_news_def ev_frame_def event_defs)
  have "members (json_object [(''channel'', json_string ''news'')]) = Some [(''channel'', json_string ''news'')]"
    by (rule members_object [OF v])
  moreover have "unquote (json_string ''news'') = Some ''news''" by (rule unquote_json_string) (rule ascii_names)
  ultimately show "Subscribe_request asks_news = Inr \<lparr>rq_Channel = ''news'', rq_Auth = [], rq_ChannelData = []\<rparr>"
    by (simp add: Subscribe_request_def asks_news_def ev_frame_def field_of_def not_null json_object_text unwrapJSONString_def)
qed

text \<open>A client that forges the arrival of somebody is answered an error and nothing else.\<close>

theorem only_the_closed_list_is_obeyed_witness:
  "\<exists>m. snd (Message sample_env ana (json_object (frame_members forged)) on_news) = on_news\<lparr>out := out on_news @ [(''1.1'', m)]\<rparr>"
proof -
  have "\<not> prefix ClientEventPrefix (fr_Event forged) \<and> fr_Event forged \<notin> {EventSubscribe, EventUnsubscribe, EventPing, EventPong}"
    by (simp add: forged_def ev_frame_def event_defs)
  then show ?thesis
    using only_the_closed_list_is_obeyed [of "json_object (frame_members forged)" sample_env ana on_news] sample_frames(1)
    by (auto simp: news_facts)
qed

theorem refusals_disclose_nothing_witness:
  "\<exists>e p' cause p1. Message sample_env ana (json_object (frame_members forged)) on_news = (Some e, p') \<and>
    p' = p1\<lparr>out := out p1 @ said ana (ErrorFrame cause)\<rparr>"
proof -
  have "ClientMaySend forged = Some ErrInvalidMessage"
    by (simp add: ClientMaySend_def IsClientEvent_def forged_def ev_frame_def event_defs)
  then have "Message sample_env ana (json_object (frame_members forged)) on_news = refuse sample_env ana ErrInvalidMessage on_news"
    by (simp add: Message_def sample_frames(1))
  then obtain e p' where m: "Message sample_env ana (json_object (frame_members forged)) on_news = (Some e, p')"
    using refuse_answers [of sample_env ana ErrInvalidMessage on_news] by (metis prod.collapse)
  show ?thesis using refusals_disclose_nothing [OF m] m by blast
qed

theorem no_subscription_without_the_policy_witness:
  "\<exists>sub. asked (snd (Message sample_env ana (json_object (frame_members asks_news)) sample_pusher)) = [sub] \<and>
    subs_Socket sub = ''1.1'' \<and> tenant (subs_Channel sub) = ''acme''"
proof -
  let ?p1 = "sample_pusher\<lparr>asked := [\<lparr>subs_Channel = news, subs_Member = no_member, subs_Socket = ''1.1'', subs_Auth = [],
    subs_ChannelData = []\<rparr>]\<rparr>"
  let ?m = "json_object (frame_members asks_news)"
  have r: "reach sample_env (join_grant ''acme'' ''ana'') news ?p1 = (Inr (0, True), reached_news ?p1)"
    by (rule sample_reach) (simp_all add: sample_pusher_def)
  have "\<exists>e w. join_granted sample_env ana news no_member (join_grant ''acme'' ''ana'') ?p1 =
      (e, on_news\<lparr>asked := asked ?p1, out := w\<rparr>)"
  proof -
    let ?c = "\<lparr>ch_name = news, subscribers = [(''1.1'', \<lparr>sub_Conn = ana, sub_Member = no_member\<rparr>)], cached = None\<rparr>"
    define p4 where "p4 = (reached_news ?p1)\<lparr>brk := \<lparr>heap = [?c], held = [(''acme:news'', 0)]\<rparr>, told := [ChannelCreated news]\<rparr>"
    have "on_channel 0 (Subscribe (hes sample_env) (snk sample_env) (join_grant ''acme'' ''ana'') ana no_member)
        (observe (ChannelCreated news) (reached_news ?p1)) = (None, p4)"
      by (simp add: on_channel_def observe_def sample_env_def sample_pusher_def reached_news_def sample_subscribe p4_def)
    moreover have "take_seat sample_env ''1.1'' news_seat p4 = on_news\<lparr>asked := asked ?p1\<rparr>"
      by (simp add: take_seat_def finishJoining_def p4_def on_news_def sample_pusher_def news_facts news_seat_def sample_env_def
          reached_news_def Let_def fun_eq_iff)
    ultimately have jg: "join_granted sample_env ana news no_member (join_grant ''acme'' ''ana'') ?p1 =
      (case SubscriptionSucceeded news (channel_Data (hes sample_env) (heap (brk (on_news\<lparr>asked := asked ?p1\<rparr>)) ! 0)) of
         Inl err \<Rightarrow> (Some err, on_news\<lparr>asked := asked ?p1\<rparr>)
       | Inr f \<Rightarrow> write_frame sample_env ana f (on_news\<lparr>asked := asked ?p1\<rparr>))"
      by (simp add: join_granted_def r news_facts news_seat_def [symmetric] Let_def split: sum.split)
    define q where "q = on_news\<lparr>asked := asked ?p1\<rparr>"
    have "\<exists>e w. write_frame sample_env ana f q = (e, q\<lparr>out := w\<rparr>)" for f
      using write_frame_said [of sample_env ana f q] by (cases "write_frame sample_env ana f q") auto
    moreover have "\<exists>w. q = q\<lparr>out := w\<rparr>" by (rule exI [of _ "out q"]) simp
    ultimately have "\<exists>e w. join_granted sample_env ana news no_member (join_grant ''acme'' ''ana'') ?p1 = (e, q\<lparr>out := w\<rparr>)"
      unfolding jg q_def [symmetric] by (auto split: sum.split)
    then show ?thesis by (simp add: q_def)
  qed
  then obtain e w where j: "join_granted sample_env ana news no_member (join_grant ''acme'' ''ana'') ?p1 =
      (e, on_news\<lparr>asked := asked ?p1, out := w\<rparr>)" by blast
  have "join sample_env ana asks_news sample_pusher = (e, on_news\<lparr>asked := asked ?p1, out := w\<rparr>)"
    using j sample_name
    by (simp add: join_def sample_frames(4) Member_of_def news_facts Authorize_def atChannelLimit_def sample_env_def sample_pusher_def
        ana_def sample_facts)
  moreover have "fr_Event asks_news = EventSubscribe" "\<not> IsClientEvent asks_news"
    by (simp_all add: asks_news_def ev_frame_def IsClientEvent_def event_defs)
  ultimately have "about_channels (snd (Message sample_env ana ?m sample_pusher)) = about_channels on_news"
    using refuse_said [of sample_env ana]
    by (simp add: Message_def sample_frames(3) ClientMaySend_def dispatch_def split: option.splits)
  moreover have "about_channels on_news \<noteq> about_channels sample_pusher"
    by (simp add: about_channels_def on_news_def sample_pusher_def)
  moreover have "fr_Event asks_news = EventSubscribe" "asked sample_pusher = []" "conn_Tenant (hes sample_env) ana = ''acme''"
    by (simp_all add: asks_news_def ev_frame_def sample_pusher_def sample_env_def ana_def sample_facts)
  ultimately show ?thesis
    using no_subscription_without_the_policy [OF sample_fresh(2) sample_frames(3) _ refl, of ana sample_pusher]
    by (auto simp: news_facts)
qed

text \<open>A room with three sockets in it, as the broker holds it.\<close>

definition in_room :: "sample_grant pusher" where
  "in_room = sample_pusher\<lparr>brk := \<lparr>heap = [room], held = [(''acme:presence-room'', 0)]\<rparr>,
    seats := (\<lambda>_. [])(''1.1'' := [(''acme:presence-room'', \<lparr>seat_name = ch_name room, seat_channel = 0,
      seat_grant = join_grant ''acme'' ''ana''\<rparr>)])\<rparr>"

definition typed :: Event where
  "typed = \<lparr>ev_Name = ''client-typing'', ev_Channel = ch_name room, ev_Data = [], ev_Socket = ''1.1'', ev_UserID = ''ana''\<rparr>"

lemma sample_delivery: "Encode f = Inr m \<Longrightarrow> fst (deliver all_writes_work w to f) = None"
proof -
  have "fst (send_each all_writes_work w to m) = map (\<lambda>_. None) to" for w m
    by (induction to arbitrary: w) (auto simp: conn_Send_def all_writes_work_def split_def Let_def)
  moreover have "somes (map (\<lambda>_. None) (to :: 'a Subscriber list)) = ([] :: jerr list)" by (induction to) simp_all
  then have "errors_join (map (\<lambda>_. None) (to :: 'a Subscriber list)) = None" by (simp add: errors_join_def)
  ultimately show "Encode f = Inr m \<Longrightarrow> fst (deliver all_writes_work w to f) = None"
    by (simp add: deliver_def split: prod.splits) (metis fst_conv)
qed

theorem client_event_names_its_sender_witness:
  "\<exists>new f. out (snd (Message sample_env ana (json_object (frame_members typing)) in_room)) = new \<and>
    one_each new {''1.2'', ''2.1''} f \<and> fr_UserID f = ''ana''"
proof -
  have n: "NewChannelName sample_hesape (conn_grant ana) ''presence-room'' = Inr (ch_name room)"
    by (auto simp: NewChannelName_def sample_defs ana_def MaxChannelNameLength_def notChannelCharacter_def ChannelNameCharacters_def of_char_def)
  have k: "name_String sample_hesape (ch_name room) = ''acme:presence-room''"
    by (simp add: name_String_def IsZero_def sample_hesape_def room_def)
  have s: "seatOf sample_env ''1.1'' (ch_name room) in_room = Some \<lparr>seat_name = ch_name room, seat_channel = 0,
      seat_grant = join_grant ''acme'' ''ana''\<rparr>" by (simp add: seatOf_def sample_env_def k in_room_def)
  have fd: "channel_Find room ''1.1'' = Some (snd (seat_of ''ana'' ''1.1''))" by (simp add: channel_Find_def room_def seat_of_def)
  have g: "Guarded (name_Type sample_hesape (ch_name room))" by (simp add: type_properties [OF sample_documented] room_def)
  have acc: "Accept sample_hesape True typing (ch_name room) ''1.1'' \<lparr>UserID = ''ana'', Info = []\<rparr> True = Inr typed"
    using g by (simp add: Accept_def IsClientEvent_def typing_def ev_frame_def event_defs typed_def room_def IsZero_def)
  have ca: "channel_accepts room typed = None" by (simp add: channel_accepts_def typed_def)
  have enc: "Encode (the_frame typed) = Inr (json_object (frame_members (the_frame typed)))"
    using ascii_names by (intro Encode_text) (simp_all add: the_frame_def typed_def utf8_frame_def room_def)
  have b: "fst (Broadcast sample_hesape all_writes_work typed (room, [])) = None"
    by (simp add: Broadcast_def channel_send_def Let_def ca accepted_frame [OF sample_channels_ok(1) ca] sample_delivery [OF enc] split_def)
  have t: "IsClientEvent typing" by (simp add: IsClientEvent_def typing_def ev_frame_def event_defs)
  obtain p' where m: "Message sample_env ana (json_object (frame_members typing)) in_room = (None, p')"
  proof -
    obtain e p1 where oc: "on_channel 0 (Broadcast sample_hesape all_writes_work typed) in_room = (e, p1)" by force
    then have "e = None" using b by (simp add: on_channel_def in_room_def sample_pusher_def split: prod.splits)
    then have "whisper sample_env ana typing in_room = (None, carry sample_env typed p1)"
      using n s fd acc oc by (simp add: whisper_def sample_env_def typing_def ev_frame_def news_facts in_room_def seat_of_def)
    then show ?thesis using that t by (simp add: Message_def sample_frames(2) ClientMaySend_def dispatch_def)
  qed
  have "ids room - {''1.1''} = {''1.2'', ''2.1''}" by (auto simp: ids_def room_def seat_of_def)
  moreover have "s = \<lparr>seat_name = ch_name room, seat_channel = 0, seat_grant = join_grant ''acme'' ''ana''\<rparr>"
    if "seatOf sample_env ''1.1'' name in_room = Some s" for name s using that by (simp add: seatOf_def in_room_def split: if_splits)
  moreover have "heap (brk in_room) = [room]" "out in_room = []" "hes sample_env = sample_hesape"
    "\<forall>(k, s) \<in> set (seats in_room ''1.1''). seat_channel s = 0" by (simp_all add: in_room_def sample_pusher_def sample_env_def)
  ultimately show ?thesis
    using client_event_names_its_sender [OF sample_fresh(2) sample_frames(2) t m] sample_channels_ok(1) m fd
    by (fastforce simp: news_facts the_frame_def seat_of_def)
qed

theorem refused_resubscription_evicts_witness:
  "\<exists>e p'. join_granted sample_env ana news no_member (join_grant ''acme'' ''bob'') on_news = (Some e, p') \<and>
    seats p' ''1.1'' \<noteq> [] \<and> ''1.1'' \<notin> ids (heap (brk p') ! 0)"
proof -
  have s: "seatOf sample_env (conn_id ana) news on_news = Some news_seat"
    by (simp add: seatOf_def news_facts sample_env_def on_news_def)
  have "broker_accepts (hes sample_env) (join_grant ''acme'' ''bob'') news = None"
    by (simp add: broker_accepts_def tenantOf_def sample_env_def sample_facts news_facts)
  moreover have "conn_id ana \<in> ids (heap (brk on_news) ! seat_channel news_seat)"
    by (simp add: on_news_def ids_def news_facts news_seat_def)
  moreover have "\<not> may_seat (hes sample_env) (join_grant ''acme'' ''bob'') ana no_member (heap (brk on_news) ! seat_channel news_seat)"
    by (simp add: may_seat_def sample_env_def sample_facts ana_def)
  ultimately show ?thesis
    using refused_resubscription_evicts [OF sample_fresh(2,1) sample_run _ sample_name _ s, of "join_grant ''acme'' ''bob''" no_member]
    by (auto simp: on_news_def news_facts news_seat_def)
qed

end
