(* ===== verification/Joaju_Registry.thy ===== *)
theory Joaju_Registry
  imports Joaju_Types "HOL-Library.AList" "HOL-Library.Multiset"
begin

text \<open>
  The registry of \<^verbatim>\<open>server.go\<close>: which sockets the process holds, how many of them each tenant
  has, and why a socket that is going is going. Every operation runs under the server's lock, so
  an operation is one step; between the steps of one socket's goroutine those of the others may come.
  \<^verbatim>\<open>events.go\<close> and \<^verbatim>\<open>counter.go\<close> are here too: what the observer is told at these steps, and
  the observer that counts.
\<close>

section \<open>Reasons\<close>

definition ReasonClient :: string where "ReasonClient = ''client''"
definition ReasonTimeout :: string where "ReasonTimeout = ''timeout''"
definition ReasonTerminated :: string where "ReasonTerminated = ''terminated''"
definition ReasonShutdown :: string where "ReasonShutdown = ''shutdown''"
definition ReasonLimit :: string where "ReasonLimit = ''limit''"
definition ReasonError :: string where "ReasonError = ''error''"

lemmas reason_defs = ReasonClient_def ReasonTimeout_def ReasonTerminated_def ReasonShutdown_def ReasonLimit_def ReasonError_def

section \<open>The registry\<close>

text \<open>
  A name that is not a key of \<open>closeReasons\<close> reads as the empty string and a tenant that is not a
  key of \<open>perTenant\<close> as zero, so deleting an entry writes that value. \<open>ended\<close> records the sockets
  whose sinks were terminated, in order.
\<close>

record 'g registry =
  conns :: "(SocketID \<times> 'g Connection) list"
  closeReasons :: "SocketID \<Rightarrow> string"
  closed :: bool
  perTenant :: "string \<Rightarrow> nat"
  maxConnections :: int
  ended :: "SocketID list"

definition errServerClosed :: jerr where
  "errServerClosed = ErrOther ''joaju: the server is closed''"

definition new_registry :: "int \<Rightarrow> 'g registry" where
  "new_registry n = \<lparr>conns = [], closeReasons = (\<lambda>_. []), closed = False, perTenant = (\<lambda>_. 0), maxConnections = n, ended = []\<rparr>"

definition register :: "('g, 's) hesape \<Rightarrow> 'g Connection \<Rightarrow> 'g registry \<Rightarrow> jerr option \<times> 'g registry" where
  "register H conn s =
    (if closed s then (Some errServerClosed, s)
     else
       let t = conn_Tenant H conn in
       if maxConnections s > 0 \<and> int (perTenant s t) \<ge> maxConnections s then (Some ErrConnectionLimit, s)
       else (None, s\<lparr>conns := AList.update (conn_id conn) conn (conns s), perTenant := (perTenant s)(t := perTenant s t + 1)\<rparr>))"

definition unregister :: "('g, 's) hesape \<Rightarrow> 'g Connection \<Rightarrow> string \<Rightarrow> 'g registry \<Rightarrow> string \<times> 'g registry" where
  "unregister H conn fallback s =
    (let recorded = closeReasons s (conn_id conn);
         reason = (if recorded \<noteq> [] then recorded else fallback);
         s1 = s\<lparr>closeReasons := (closeReasons s)(conn_id conn := [])\<rparr>
     in if map_of (conns s1) (conn_id conn) = None then (reason, s1)
        else
          let s2 = s1\<lparr>conns := AList.delete (conn_id conn) (conns s1)\<rparr>;
              t = conn_Tenant H conn
          in if perTenant s2 t \<le> 1 then (reason, s2\<lparr>perTenant := (perTenant s2)(t := 0)\<rparr>)
             else (reason, s2\<lparr>perTenant := (perTenant s2)(t := perTenant s2 t - 1)\<rparr>))"

definition recordCloseReason :: "SocketID \<Rightarrow> string \<Rightarrow> 'g registry \<Rightarrow> 'g registry" where
  "recordCloseReason sid reason s =
    (if map_of (conns s) sid = None then s
     else if closeReasons s sid = [] then s\<lparr>closeReasons := (closeReasons s)(sid := reason)\<rparr>
     else s)"

definition recordReadCloseReason :: "SocketID \<Rightarrow> string \<Rightarrow> 'g registry \<Rightarrow> 'g registry" where
  "recordReadCloseReason sid reason s =
    (if closeReasons s sid = ReasonShutdown \<or> closeReasons s sid = ReasonTerminated then s
     else s\<lparr>closeReasons := (closeReasons s)(sid := reason)\<rparr>)"

definition registryTenant :: "('g, 's) hesape \<Rightarrow> 'g \<Rightarrow> jerr + string" where
  "registryTenant H g =
    (case Check H g Operate of
       Some err \<Rightarrow> Inl err
     | None \<Rightarrow> if auth_Tenant H g = [] then Inl ErrNoGrant else Inr (auth_Tenant H g))"

definition Connections :: "('g, 's) hesape \<Rightarrow> 'g \<Rightarrow> 'g registry \<Rightarrow> jerr + nat" where
  "Connections H g s =
    (case registryTenant H g of
       Inl err \<Rightarrow> Inl err
     | Inr t \<Rightarrow> Inr (length (filter (\<lambda>(_, c). conn_Tenant H c = t) (conns s))))"

text \<open>Recording a reason for every doomed socket, and terminating them in the order they were found.\<close>

definition doom :: "(SocketID \<times> 'g Connection) list \<Rightarrow> string \<Rightarrow> 'g registry \<Rightarrow> 'g registry" where
  "doom doomed reason s =
    s\<lparr>closeReasons := (\<lambda>sid. if sid \<in> (conn_id \<circ> snd) ` set doomed then reason else closeReasons s sid),
      ended := ended s @ map (conn_id \<circ> snd) doomed\<rparr>"

definition Terminate :: "('g, 's) hesape \<Rightarrow> 'g \<Rightarrow> string \<Rightarrow> 'g registry \<Rightarrow> (jerr + nat) \<times> 'g registry" where
  "Terminate H g subject s =
    (case registryTenant H g of
       Inl err \<Rightarrow> (Inl err, s)
     | Inr t \<Rightarrow>
         if subject = [] then (Inl (ErrOther ''terminating connections needs a subject to terminate them for''), s)
         else
           let doomed = filter (\<lambda>(_, c). conn_Tenant H c = t \<and> subject_ID H (conn_Subject H c) = subject) (conns s)
           in (Inr (length doomed), doom doomed ReasonTerminated s))"

definition server_Close :: "'g registry \<Rightarrow> 'g registry" where
  "server_Close s = doom (conns s) ReasonShutdown (s\<lparr>closed := True\<rparr>)"

section \<open>The observer that counts\<close>

datatype observation =
    ObsChannelCreated ChannelName
  | ObsChannelRemoved ChannelName
  | ObsConnectionOpened SocketID string
  | ObsConnectionClosed SocketID string string
  | ObsMessageReceived SocketID string
  | ObsMessageSent SocketID string

record TenantCount =
  tc_Connections :: nat
  tc_Channels :: nat
  tc_Received :: nat
  tc_Sent :: nat

type_synonym Counter = "(string \<times> TenantCount) list"

definition NewCounter :: Counter where "NewCounter = []"

definition no_count :: TenantCount where
  "no_count = \<lparr>tc_Connections = 0, tc_Channels = 0, tc_Received = 0, tc_Sent = 0\<rparr>"

definition counter_Read :: "Counter \<Rightarrow> string \<Rightarrow> TenantCount" where
  "counter_Read c t = (case map_of c t of Some n \<Rightarrow> n | None \<Rightarrow> no_count)"

definition Tenants :: "Counter \<Rightarrow> string list" where
  "Tenants c = map fst c"

definition bump :: "string \<Rightarrow> (TenantCount \<Rightarrow> TenantCount) \<Rightarrow> Counter \<Rightarrow> Counter" where
  "bump t f c = AList.update t (f (counter_Read c t)) c"

definition counterAllTenants :: string where "counterAllTenants = ''*''"

fun counter_observe :: "Counter \<Rightarrow> observation \<Rightarrow> Counter" where
  "counter_observe c (ObsChannelCreated n) = bump (tenant n) (\<lambda>t. t\<lparr>tc_Channels := tc_Channels t + 1\<rparr>) c"
| "counter_observe c (ObsChannelRemoved n) =
    bump (tenant n) (\<lambda>t. if tc_Channels t > 0 then t\<lparr>tc_Channels := tc_Channels t - 1\<rparr> else t) c"
| "counter_observe c (ObsConnectionOpened _ t) = bump t (\<lambda>t. t\<lparr>tc_Connections := tc_Connections t + 1\<rparr>) c"
| "counter_observe c (ObsConnectionClosed _ t _) =
    bump t (\<lambda>t. if tc_Connections t > 0 then t\<lparr>tc_Connections := tc_Connections t - 1\<rparr> else t) c"
| "counter_observe c (ObsMessageReceived _ _) = bump counterAllTenants (\<lambda>t. t\<lparr>tc_Received := tc_Received t + 1\<rparr>) c"
| "counter_observe c (ObsMessageSent _ _) = bump counterAllTenants (\<lambda>t. t\<lparr>tc_Sent := tc_Sent t + 1\<rparr>) c"

definition counted :: "observation list \<Rightarrow> Counter" where
  "counted obs = foldl counter_observe NewCounter obs"

section \<open>Sockets come and go\<close>

text \<open>
  Where a socket's goroutine stands in \<open>read\<close>: not there, admitted and not yet announced, being
  served, off the registry and not yet announced as closed. A socket id is eight random bytes,
  and the steps let one in only while no other socket has its id. A refused socket is announced
  as closed and nothing else happens to it.
\<close>

datatype 'g phase = Absent | Admitted "'g Connection" | Serving "'g Connection" | Leaving "'g Connection" string

type_synonym 'g serving = "'g registry \<times> (SocketID \<Rightarrow> 'g phase) \<times> observation list"

inductive rstep :: "('g, 's) hesape \<Rightarrow> 'g serving \<Rightarrow> 'g serving \<Rightarrow> bool" for H where
  admit: "ph (conn_id c) = Absent \<Longrightarrow> register H c s = (None, s') \<Longrightarrow>
    rstep H (s, ph, obs) (s', ph(conn_id c := Admitted c), obs)"
| turn_away: "ph (conn_id c) = Absent \<Longrightarrow> register H c s = (Some e, s') \<Longrightarrow>
    rstep H (s, ph, obs) (s', ph, obs @ [ObsConnectionClosed (conn_id c) (conn_Tenant H c)
      (if e = errServerClosed then ReasonShutdown else ReasonLimit)])"
| announce: "ph sid = Admitted c \<Longrightarrow>
    rstep H (s, ph, obs) (s, ph(sid := Serving c), obs @ [ObsConnectionOpened sid (conn_Tenant H c)])"
| write_failed: "rstep H (s, ph, obs) (recordCloseReason sid ReasonError s, ph, obs)"
| read_failed: "ph sid = Serving c \<Longrightarrow> reason \<in> {ReasonClient, ReasonTimeout, ReasonError} \<Longrightarrow>
    rstep H (s, ph, obs) (recordReadCloseReason sid reason s, ph, obs)"
| leave: "ph sid = Serving c \<Longrightarrow> fallback \<in> {ReasonClient, ReasonTimeout, ReasonError} \<Longrightarrow>
    unregister H c fallback s = (reason, s') \<Longrightarrow>
    rstep H (s, ph, obs) (s', ph(sid := Leaving c reason), obs)"
| announce_end: "ph sid = Leaving c reason \<Longrightarrow>
    rstep H (s, ph, obs) (s, ph(sid := Absent), obs @ [ObsConnectionClosed sid (conn_Tenant H c) reason])"
| operator: "Terminate H g subject s = (res, s') \<Longrightarrow> rstep H (s, ph, obs) (s', ph, obs)"
| shutdown: "rstep H (s, ph, obs) (server_Close s, ph, obs)"

section \<open>The invariant\<close>

definition held_by :: "('g, 's) hesape \<Rightarrow> string \<Rightarrow> (SocketID \<times> 'g Connection) list \<Rightarrow> nat" where
  "held_by H t cs = length (filter (\<lambda>(_, c). conn_Tenant H c = t) cs)"

lemma update_new: "map_of al k = None \<Longrightarrow> AList.update k v al = al @ [(k, v)]"
  by (induction al) (auto split: if_splits)

lemma held_by_snoc: "held_by H t (cs @ [(sid, c)]) = held_by H t cs + (if conn_Tenant H c = t then 1 else 0)"
  by (simp add: held_by_def)

lemma held_by_delete:
  assumes "distinct (map fst cs)" "map_of cs sid = Some c"
  shows "held_by H t cs = held_by H t (AList.delete sid cs) + (if conn_Tenant H c = t then 1 else 0)"
  using assms
proof (induction cs)
  case (Cons kv cs)
  obtain k v where kv: "kv = (k, v)" by force
  show ?case
  proof (cases "k = sid")
    case True
    then have "AList.delete sid cs = cs" using Cons.prems(1) kv by simp
    then show ?thesis using True Cons.prems(2) kv by (simp add: held_by_def)
  next
    case False
    then show ?thesis using Cons kv by (simp add: held_by_def)
  qed
qed simp

fun present :: "'g phase \<Rightarrow> 'g Connection option" where
  "present (Admitted c) = Some c"
| "present (Serving c) = Some c"
| "present _ = None"

definition registry_ok :: "('g, 's) hesape \<Rightarrow> 'g serving \<Rightarrow> bool" where
  "registry_ok H = (\<lambda>(s, ph, obs). distinct (map fst (conns s)) \<and> (\<forall>sid. map_of (conns s) sid = present (ph sid)) \<and>
    (\<forall>sid c. ph sid = Admitted c \<or> ph sid = Serving c \<longrightarrow> conn_id c = sid) \<and>
    (\<forall>t. perTenant s t = held_by H t (conns s)) \<and>
    (maxConnections s > 0 \<longrightarrow> (\<forall>t. int (perTenant s t) \<le> maxConnections s)) \<and> (\<forall>sid. closeReasons s sid \<noteq> ReasonLimit) \<and>
    (\<forall>sid c r. ph sid = Leaving c r \<longrightarrow> r \<noteq> ReasonLimit))"

lemma registry_okI:
  assumes "distinct (map fst (conns s))" "\<And>sid. map_of (conns s) sid = present (ph sid)"
    "\<And>sid c. ph sid = Admitted c \<or> ph sid = Serving c \<Longrightarrow> conn_id c = sid" "\<And>t. perTenant s t = held_by H t (conns s)"
    "\<And>t. maxConnections s > 0 \<Longrightarrow> int (perTenant s t) \<le> maxConnections s" "\<And>sid. closeReasons s sid \<noteq> ReasonLimit"
    "\<And>sid c r. ph sid = Leaving c r \<Longrightarrow> r \<noteq> ReasonLimit"
  shows "registry_ok H (s, ph, obs)"
  using assms by (simp add: registry_ok_def)

lemma registry_okD:
  assumes "registry_ok H (s, ph, obs)"
  shows "distinct (map fst (conns s))" "map_of (conns s) sid = present (ph sid)"
    "ph sid = Admitted c \<or> ph sid = Serving c \<Longrightarrow> conn_id c = sid" "perTenant s t = held_by H t (conns s)"
    "maxConnections s > 0 \<Longrightarrow> int (perTenant s t) \<le> maxConnections s" "closeReasons s sid \<noteq> ReasonLimit"
    "ph sid = Leaving c r \<Longrightarrow> r \<noteq> ReasonLimit"
  using assms by (auto simp: registry_ok_def)

text \<open>Steps that touch the reasons only.\<close>

lemma registry_ok_reasons:
  assumes "registry_ok H (s, ph, obs)" "conns s' = conns s" "perTenant s' = perTenant s" "maxConnections s' = maxConnections s"
    "\<And>sid. closeReasons s' sid \<noteq> ReasonLimit"
  shows "registry_ok H (s', ph, obs')"
  using assms by (auto simp: registry_ok_def)

lemma register_None:
  assumes "register H c s = (None, s')"
  shows "\<not> closed s" "s' = s\<lparr>conns := AList.update (conn_id c) c (conns s),
      perTenant := (perTenant s)(conn_Tenant H c := perTenant s (conn_Tenant H c) + 1)\<rparr>"
    "maxConnections s > 0 \<Longrightarrow> int (perTenant s (conn_Tenant H c)) < maxConnections s"
  using assms by (auto simp: register_def Let_def split: if_splits)

lemma register_Some: "register H c s = (Some e, s') \<Longrightarrow> s' = s \<and>
    (e = errServerClosed \<and> closed s \<or> e = ErrConnectionLimit \<and> \<not> closed s \<and> maxConnections s > 0 \<and>
      maxConnections s \<le> int (perTenant s (conn_Tenant H c)))"
  by (auto simp: register_def Let_def split: if_splits)

lemma unregister_held:
  assumes "unregister H c fb s = (r, s')" "map_of (conns s) (conn_id c) \<noteq> None" "perTenant s (conn_Tenant H c) > 0"
  shows "s' = s\<lparr>closeReasons := (closeReasons s)(conn_id c := []), conns := AList.delete (conn_id c) (conns s),
      perTenant := (perTenant s)(conn_Tenant H c := perTenant s (conn_Tenant H c) - 1)\<rparr>"
    "r = (if closeReasons s (conn_id c) \<noteq> [] then closeReasons s (conn_id c) else fb)"
  using assms by (auto simp: unregister_def Let_def split: if_splits)

lemma doom_keeps: "conns (doom d r s) = conns s" "perTenant (doom d r s) = perTenant s" "maxConnections (doom d r s) = maxConnections s"
  "closed (doom d r s) = closed s"
  by (simp_all add: doom_def)

lemma Terminate_keeps:
  assumes "Terminate H g subject s = (res, s')"
  shows "\<exists>d. s' = s \<or> s' = doom d ReasonTerminated s"
  using assms by (auto simp: Terminate_def Let_def split: sum.splits if_splits)

lemma not_limit: "ReasonClient \<noteq> ReasonLimit" "ReasonTimeout \<noteq> ReasonLimit" "ReasonTerminated \<noteq> ReasonLimit"
  "ReasonShutdown \<noteq> ReasonLimit" "ReasonError \<noteq> ReasonLimit" "ReasonLimit \<noteq> ReasonClient" "ReasonLimit \<noteq> ReasonTimeout"
  "ReasonLimit \<noteq> ReasonError" "ReasonLimit \<noteq> []" "ReasonTerminated \<noteq> []" "ReasonShutdown \<noteq> []" "[] \<noteq> ReasonLimit"
  by (simp_all add: reason_defs)

lemma rstep_keeps:
  assumes "rstep H x x'" "registry_ok H x"
  shows "registry_ok H x'"
  using assms
proof (induction rule: rstep.induct)
  case (admit ph c s s' obs)
  note D = registry_okD [OF admit(3)]
  have new: "map_of (conns s) (conn_id c) = None" using D(2) [of "conn_id c"] admit(1) by simp
  note r = register_None [OF admit(2)] and u = update_new [OF new, of c]
  have p: "perTenant s' t = held_by H t (conns s')" for t
    unfolding r(2) using D(4) [of t] by (auto simp: u held_by_snoc)
  show ?case
  proof (rule registry_okI)
    show "distinct (map fst (conns s'))" unfolding r(2) using D(1) new by (simp add: u map_of_eq_None_iff)
    show "map_of (conns s') sid = present ((ph(conn_id c := Admitted c)) sid)" for sid
      unfolding r(2) using D(2) [of sid] by (simp add: update_conv)
    show "conn_id c' = sid" if "(ph(conn_id c := Admitted c)) sid = Admitted c' \<or> (ph(conn_id c := Admitted c)) sid = Serving c'" for sid c'
      using that D(3) [of sid c'] by (auto split: if_splits)
    show "int (perTenant s' t) \<le> maxConnections s'" if "maxConnections s' > 0" for t
      unfolding r(2) using that D(5) [of t] r(3) by (simp add: r(2))
    show "r \<noteq> ReasonLimit" if "(ph(conn_id c := Admitted c)) sid = Leaving c' r" for sid c' r
      using that D(7) [of sid c' r] by (simp split: if_splits)
  qed (use p D(6) in \<open>simp_all add: r(2)\<close>)
next
  case (turn_away ph c s e s' obs)
  have "s' = s" using register_Some [OF turn_away(2)] by blast
  then show ?case using registry_okD(6) [OF turn_away(3)] by (intro registry_ok_reasons [OF turn_away(3)]) simp_all
next
  case (announce ph sid c s obs)
  then show ?case by (auto simp: registry_ok_def split: if_splits)
next
  case (write_failed s ph obs sid)
  then show ?case using registry_okD(6) [OF write_failed]
    by (intro registry_ok_reasons [OF write_failed]) (auto simp: recordCloseReason_def not_limit)
next
  case (read_failed ph sid c reason s obs)
  then show ?case using registry_okD(6) [OF read_failed(3)]
    by (intro registry_ok_reasons [OF read_failed(3)]) (auto simp: recordReadCloseReason_def not_limit)
next
  case (leave ph sid c fallback s reason s' obs)
  note D = registry_okD [OF leave(4)]
  have m: "map_of (conns s) sid = Some c" "conn_id c = sid" using D(2) [of sid] D(3) [of sid c] leave(1) by simp_all
  note hd = held_by_delete [OF D(1) m(1), of H]
  have "perTenant s (conn_Tenant H c) > 0" using D(4) [of "conn_Tenant H c"] hd [of "conn_Tenant H c"] by simp
  note u = unregister_held [OF leave(3) _ this] 
  have s': "s' = s\<lparr>closeReasons := (closeReasons s)(sid := []), conns := AList.delete sid (conns s),
      perTenant := (perTenant s)(conn_Tenant H c := perTenant s (conn_Tenant H c) - 1)\<rparr>" using u(1) m by simp
  have r: "reason \<noteq> ReasonLimit" using u(2) m leave(2) D(6) [of sid] by (auto simp: not_limit)
  have p: "perTenant s' t = held_by H t (conns s')" for t unfolding s' using D(4) [of t] hd [of t] by auto
  show ?case
  proof (rule registry_okI)
    show "distinct (map fst (conns s'))" unfolding s' using D(1) by (simp add: distinct_delete)
    show "map_of (conns s') i = present ((ph(sid := Leaving c reason)) i)" for i
      unfolding s' using D(2) [of i] by (simp add: delete_conv)
    show "conn_id c' = i" if "(ph(sid := Leaving c reason)) i = Admitted c' \<or> (ph(sid := Leaving c reason)) i = Serving c'" for i c'
      using that D(3) [of i c'] by (auto split: if_splits)
    show "int (perTenant s' t) \<le> maxConnections s'" if "maxConnections s' > 0" for t
      using that D(5) [of t] by (auto simp: s')
    show "r \<noteq> ReasonLimit" if "(ph(sid := Leaving c reason)) i = Leaving c' r" for i c' r
      using that D(7) [of i c' r] \<open>reason \<noteq> ReasonLimit\<close> by (auto split: if_splits)
  qed (use p D(6) in \<open>simp_all add: s' not_limit\<close>)
next
  case (announce_end ph sid c reason s obs)
  then show ?case by (auto simp: registry_ok_def split: if_splits)
next
  case (operator g subject s res s' ph obs)
  obtain d where "s' = s \<or> s' = doom d ReasonTerminated s" using Terminate_keeps [OF operator(1)] by blast
  then show ?case using registry_okD(6) [OF operator(2)]
    by (intro registry_ok_reasons [OF operator(2)]) (auto simp: doom_def not_limit split: if_splits)
next
  case (shutdown s ph obs)
  show ?case using registry_okD(6) [OF shutdown]
    by (intro registry_ok_reasons [OF shutdown]) (auto simp: server_Close_def doom_def not_limit split: if_splits)
qed

interpretation registry: transitions "\<lambda>x. \<exists>n. x = (new_registry n, (\<lambda>_. Absent), [])" "rstep H" "registry_ok H" for H
proof unfold_locales
  fix x :: "'a serving" assume "\<exists>n. x = (new_registry n, (\<lambda>_. Absent), [])"
  then show "registry_ok H x" by (auto simp: registry_ok_def new_registry_def held_by_def reason_defs)
qed (rule rstep_keeps)

section \<open>What the counter knows\<close>

lemma counter_Read_bump: "counter_Read (bump t f c) t' = (if t' = t then f (counter_Read c t) else counter_Read c t')"
  by (simp add: counter_Read_def bump_def update_conv)

lemma counted_snoc: "counted (obs @ [x]) = counter_observe (counted obs) x"
  by (simp add: counted_def)

definition seen_open :: "('g, 's) hesape \<Rightarrow> string \<Rightarrow> (SocketID \<Rightarrow> 'g phase) \<Rightarrow> SocketID set" where
  "seen_open H t ph = {sid. \<exists>c. conn_Tenant H c = t \<and> (ph sid = Serving c \<or> (\<exists>r. ph sid = Leaving c r))}"

definition nobody_refused :: "'g serving \<Rightarrow> bool" where
  "nobody_refused = (\<lambda>(s, ph, obs). \<not> closed s \<and> (\<forall>i t. ObsConnectionClosed i t ReasonLimit \<notin> set obs))"

definition counter_ok :: "('g, 's) hesape \<Rightarrow> 'g serving \<Rightarrow> bool" where
  "counter_ok H = (\<lambda>(s, ph, obs). finite {sid. ph sid \<noteq> Absent} \<and>
    (nobody_refused (s, ph, obs) \<longrightarrow> (\<forall>t. tc_Connections (counter_Read (counted obs) t) = card (seen_open H t ph))))"

lemma seen_open_upd:
  "seen_open H t (ph(sid := Absent)) = seen_open H t ph - {sid}"
  "seen_open H t (ph(sid := Admitted c)) = seen_open H t ph - {sid}"
  "seen_open H t (ph(sid := Serving c)) = (if conn_Tenant H c = t then insert sid (seen_open H t ph) else seen_open H t ph - {sid})"
  "seen_open H t (ph(sid := Leaving c r)) = (if conn_Tenant H c = t then insert sid (seen_open H t ph) else seen_open H t ph - {sid})"
  by (auto simp: seen_open_def)

lemma seen_open_finite: "finite {sid. ph sid \<noteq> Absent} \<Longrightarrow> finite (seen_open H t ph)"
  by (rule finite_subset [of _ "{sid. ph sid \<noteq> Absent}"]) (auto simp: seen_open_def)

lemma finite_phase: "finite {i. ph i \<noteq> Absent} \<Longrightarrow> finite {i. (ph(sid := p)) i \<noteq> Absent}"
  by (rule finite_subset [of _ "insert sid {i. ph i \<noteq> Absent}"]) auto

lemma unregister_closed: "unregister H c fb s = (r, s') \<Longrightarrow> closed s' = closed s"
  by (auto simp: unregister_def Let_def split: if_splits)

lemma Terminate_closed: "Terminate H g subject s = (res, s') \<Longrightarrow> closed s' = closed s"
  using Terminate_keeps [of H g subject s res s'] by (auto simp: doom_keeps)

text \<open>What was observed stays observed, and a server that is closed stays closed.\<close>

lemma rstep_grows:
  assumes "rstep H (s, ph, obs) (s', ph', obs')"
  shows "(closed s \<longrightarrow> closed s') \<and> (\<exists>new. obs' = obs @ new)"
  using assms
  by cases (auto simp: recordCloseReason_def recordReadCloseReason_def server_Close_def doom_keeps unregister_closed Terminate_closed
      dest: register_None(2) register_Some)

lemma rstep_closed: "rstep H (s, ph, obs) (s', ph', obs') \<Longrightarrow> nobody_refused (s', ph', obs') \<Longrightarrow> nobody_refused (s, ph, obs)"
  using rstep_grows [of H s ph obs s' ph' obs'] by (auto simp: nobody_refused_def)

lemma counter_ok_same:
  assumes "counter_ok H (s, ph, obs)" "rstep H (s, ph, obs) (s', ph', obs)" "\<And>t. seen_open H t ph' = seen_open H t ph"
    "finite {sid. ph' sid \<noteq> Absent}"
  shows "counter_ok H (s', ph', obs)"
  using assms rstep_closed [OF assms(2)] by (simp add: counter_ok_def)

lemma counter_step:
  assumes "rstep H x x'" "counter_ok H x" "registry_ok H x"
  shows "counter_ok H x'"
proof -
  obtain s ph obs where x: "x = (s, ph, obs)" by (cases x) auto
  obtain s' ph' obs' where x': "x' = (s', ph', obs')" by (cases x') auto
  have st: "rstep H (s, ph, obs) (s', ph', obs')" and ok: "counter_ok H (s, ph, obs)" and reg: "registry_ok H (s, ph, obs)"
    using assms x x' by simp_all
  have fin: "finite {sid. ph sid \<noteq> Absent}" using ok by (simp add: counter_ok_def)
  note sf = seen_open_finite [OF fin, of H]
  have "counter_ok H (s', ph', obs')"
    using st
  proof cases
    case (admit c)
    have "seen_open H t ph' = seen_open H t ph" for t using admit by (auto simp: seen_open_def)
    then show ?thesis using counter_ok_same [OF ok, of s' ph'] st admit finite_phase [OF fin, of "conn_id c" "Admitted c"] by simp
  next
    case (turn_away c e)
    have "\<not> nobody_refused (s', ph', obs')"
      using register_Some [OF turn_away(4)] turn_away by (auto simp: nobody_refused_def errServerClosed_def)
    then show ?thesis using fin turn_away by (simp add: counter_ok_def)
  next
    case (announce sid c)
    have "sid \<notin> seen_open H t ph" for t using announce by (auto simp: seen_open_def)
    then show ?thesis using ok rstep_closed [OF st] announce sf finite_phase [OF fin, of sid "Serving c"]
      by (auto simp: counter_ok_def counted_snoc counter_Read_bump seen_open_upd)
  next
    case (leave sid c fallback reason)
    have "seen_open H t ph' = seen_open H t ph" for t using leave by (auto simp: seen_open_def)
    then show ?thesis using counter_ok_same [OF ok, of s' ph'] st leave finite_phase [OF fin, of sid "Leaving c reason"] by simp
  next
    case (announce_end sid c reason)
    have "sid \<in> seen_open H t ph \<longleftrightarrow> t = conn_Tenant H c" for t using announce_end by (auto simp: seen_open_def)
    then show ?thesis using ok rstep_closed [OF st] announce_end sf finite_phase [OF fin, of sid Absent]
      by (auto simp: counter_ok_def counted_snoc counter_Read_bump seen_open_upd card_gt_0_iff)
  qed (use counter_ok_same [OF ok] st fin in auto)
  then show ?thesis by (simp add: x')
qed

interpretation counting: transitions "\<lambda>x. \<exists>n. x = (new_registry n, (\<lambda>_. Absent), [])" "rstep H"
  "\<lambda>x. registry_ok H x \<and> counter_ok H x" for H
proof unfold_locales
  fix x :: "'a serving" assume "\<exists>n. x = (new_registry n, (\<lambda>_. Absent), [])"
  then show "registry_ok H x \<and> counter_ok H x" using registry.start_inv [of x H]
    by (auto simp: counter_ok_def counted_def NewCounter_def counter_Read_def no_count_def seen_open_def)
qed (auto intro: rstep_keeps counter_step)

section \<open>Why a socket ended\<close>

fun end_of :: "SocketID \<Rightarrow> observation \<Rightarrow> string list" where
  "end_of sid (ObsConnectionClosed i t r) = (if i = sid then [r] else [])"
| "end_of sid _ = []"

definition ends :: "SocketID \<Rightarrow> observation list \<Rightarrow> string list" where
  "ends sid obs = concat (map (end_of sid) obs)"

lemma ends_append [simp]: "ends sid (a @ b) = ends sid a @ ends sid b" "ends sid [x] = end_of sid x" "ends sid [] = []"
  by (simp_all add: ends_def)

text \<open>A socket that an operator or a shutdown doomed: still there with that reason on record, on its way
  out with it, or announced with it first.\<close>

definition doomed :: "SocketID \<Rightarrow> 'g Connection \<Rightarrow> observation list \<Rightarrow> 'g serving \<Rightarrow> bool" where
  "doomed sid c obs0 = (\<lambda>(s, ph, obs). \<exists>new. obs = obs0 @ new \<and>
    (case ends sid new of
       [] \<Rightarrow> present (ph sid) = Some c \<and> closeReasons s sid \<in> {ReasonTerminated, ReasonShutdown} \<or>
         (\<exists>r \<in> {ReasonTerminated, ReasonShutdown}. ph sid = Leaving c r)
     | r # _ \<Rightarrow> r \<in> {ReasonTerminated, ReasonShutdown}))"

lemma doomed_late: "doomed sid c obs0 (s, ph, obs) \<Longrightarrow> obs = obs0 @ new \<Longrightarrow> ends sid new \<noteq> [] \<Longrightarrow> doomed sid c obs0 (s', ph', obs @ extra)"
  by (auto simp: doomed_def split: list.splits)

lemma reason_sticks:
  assumes "closeReasons s sid \<in> {ReasonTerminated, ReasonShutdown}"
  shows "closeReasons (recordCloseReason i r s) sid \<in> {ReasonTerminated, ReasonShutdown}"
    "closeReasons (recordReadCloseReason i r s) sid \<in> {ReasonTerminated, ReasonShutdown}"
    "closeReasons (doom d ReasonTerminated s) sid \<in> {ReasonTerminated, ReasonShutdown}"
    "closeReasons (server_Close s) sid \<in> {ReasonTerminated, ReasonShutdown}"
  using assms not_limit(10,11)
  by (auto simp: recordCloseReason_def recordReadCloseReason_def doom_def server_Close_def)

lemma doomed_step:
  assumes "rstep H x x'" "registry_ok H x" "doomed sid c obs0 x"
  shows "doomed sid c obs0 x'"
proof -
  obtain s ph obs where x: "x = (s, ph, obs)" by (cases x) auto
  obtain s' ph' obs' where x': "x' = (s', ph', obs')" by (cases x') auto
  have st: "rstep H (s, ph, obs) (s', ph', obs')" and reg: "registry_ok H (s, ph, obs)" and dm: "doomed sid c obs0 (s, ph, obs)"
    using assms x x' by simp_all
  obtain new where new: "obs = obs0 @ new" using dm by (auto simp: doomed_def)
  have grow: "\<exists>extra. obs' = obs @ extra" using rstep_grows [OF st] by blast
  show ?thesis
  proof (cases "ends sid new")
    case (Cons r rs)
    then show ?thesis using doomed_late [OF dm new] grow by (auto simp: x')
  next
    case Nil
    let ?T = "{ReasonTerminated, ReasonShutdown}"
    have now: "present (ph sid) = Some c \<and> closeReasons s sid \<in> ?T \<or> (\<exists>r \<in> ?T. ph sid = Leaving c r)"
      using dm Nil new by (auto simp: doomed_def)
    have stays: "doomed sid c obs0 (s', ph', obs @ extra)"
      if "ends sid extra = []" "present (ph' sid) = Some c \<and> closeReasons s' sid \<in> ?T \<or> (\<exists>r \<in> ?T. ph' sid = Leaving c r)" for extra
      using that new Nil by (auto simp: doomed_def)
    from st have "doomed sid c obs0 (s', ph', obs')"
    proof cases
      case (admit c')
      have "sid \<noteq> conn_id c'" using now admit(3) by auto
      then show ?thesis using now stays [of "[]"] admit(1,2) register_None(2) [OF admit(4)] by simp
    next
      case (turn_away c' e)
      have "sid \<noteq> conn_id c'" using now turn_away(3) by auto
      moreover have "s' = s" using register_Some [OF turn_away(4)] by blast
      ultimately show ?thesis using now stays [of "[_]"] turn_away(1,2) by simp
    next
      case (announce i c')
      then show ?thesis using now stays [of "[_]"] by (cases "i = sid") auto
    next
      case (write_failed i)
      then show ?thesis using now stays [of "[]"] reason_sticks(1) [of s sid i ReasonError] by auto
    next
      case (read_failed i c' reason)
      then show ?thesis using now stays [of "[]"] reason_sticks(2) [of s sid i reason] by auto
    next
      case (leave i c' fallback reason)
      have id: "conn_id c' = i" using registry_okD(3) [OF reg] leave(3) by blast
      have cr: "closeReasons s' sid = (if sid = i then [] else closeReasons s sid)" "reason = (if closeReasons s i \<noteq> [] then closeReasons s i else fallback)"
        using leave(5) id by (auto simp: unregister_def Let_def split: if_splits)
      show ?thesis
      proof (cases "i = sid")
        case True
        then have "c' = c" "closeReasons s sid \<in> ?T" using now leave(3) by auto
        then have "reason \<in> ?T" using cr(2) True not_limit(10,11) by auto
        then show ?thesis using leave True \<open>c' = c\<close> stays [of "[]"] by simp
      next
        case False
        then show ?thesis using now leave cr stays [of "[]"] by simp
      qed
    next
      case (announce_end i c' reason)
      show ?thesis
      proof (cases "i = sid")
        case True
        then show ?thesis using now announce_end new Nil by (auto simp: doomed_def)
      next
        case False
        then show ?thesis using now announce_end stays [of "[_]"] by simp
      qed
    next
      case (operator g subject res)
      obtain d where "s' = s \<or> s' = doom d ReasonTerminated s" using Terminate_keeps [OF operator(3)] by blast
      then show ?thesis using now stays [of "[]"] operator(1,2) reason_sticks(3) [of s sid d] by auto
    next
      case shutdown
      then show ?thesis using now stays [of "[]"] reason_sticks(4) [of s sid] by auto
    qed
    then show ?thesis by (simp add: x')
  qed
qed

lemma doomed_run:
  assumes "(rstep H)\<^sup>*\<^sup>* x x'" "registry_ok H x" "doomed sid c obs0 x"
  shows "doomed sid c obs0 x'"
proof -
  have "registry_ok H x' \<and> doomed sid c obs0 x'"
    using assms by (induction rule: rtranclp_induct) (auto intro: rstep_keeps doomed_step)
  then show ?thesis by simp
qed

section \<open>Properties\<close>

text \<open>Property C6. One tenant holds so many sockets and no more. However sockets are admitted, leave and are
  terminated, the number on record for a tenant is the number of its sockets in the registry, which is
  what Connections answers an operator of that tenant; it never exceeds the limit, and the next
  socket is admitted exactly when the server is open and the tenant is below it.\<close>

theorem tenant_limit_holds:
  assumes "(rstep H)\<^sup>*\<^sup>* (new_registry n, (\<lambda>_. Absent), []) (s, ph, obs)"
  shows "(maxConnections s > 0 \<longrightarrow> int (perTenant s t) \<le> maxConnections s) \<and>
    (\<forall>g. registryTenant H g = Inr t \<longrightarrow> Connections H g s = Inr (perTenant s t)) \<and>
    (\<forall>c. conn_Tenant H c = t \<longrightarrow>
      (fst (register H c s) = None \<longleftrightarrow> \<not> closed s \<and> (maxConnections s > 0 \<longrightarrow> int (perTenant s t) < maxConnections s)))"
proof -
  have ok: "registry_ok H (s, ph, obs)" using registry.reachable_inv [OF _ assms] by blast
  have "maxConnections s > 0 \<longrightarrow> int (perTenant s t) \<le> maxConnections s" using registry_okD(5) [OF ok] by simp
  moreover have "Connections H g s = Inr (perTenant s t)" if "registryTenant H g = Inr t" for g
    using that registry_okD(4) [OF ok] by (simp add: Connections_def held_by_def)
  moreover have "fst (register H c s) = None \<longleftrightarrow> \<not> closed s \<and> (maxConnections s > 0 \<longrightarrow> int (perTenant s t) < maxConnections s)"
    if "conn_Tenant H c = t" for c using that by (auto simp: register_def Let_def)
  ultimately show ?thesis by blast
qed

text \<open>A terminated socket is reported as terminated. When an operator terminates a subject,
  every socket of that subject and tenant has its sink closed, and whatever happens afterwards,
  errors on the way out included, the first end announced for it says terminated, or
  shutdown when the server was closed meanwhile; sockets of anybody else are not touched.\<close>

theorem terminated_is_reported:
  assumes "(rstep H)\<^sup>*\<^sup>* (new_registry n, (\<lambda>_. Absent), []) (s, ph, obs)"
    and "registryTenant H g = Inr t" "Terminate H g subject s = (Inr k, s1)" "map_of (conns s) sid = Some c"
    and "(rstep H)\<^sup>*\<^sup>* (s1, ph, obs) (s2, ph2, obs @ new)"
  shows "if conn_Tenant H c = t \<and> subject_ID H (conn_Subject H c) = subject
    then sid \<in> set (ended s1) \<and> (\<forall>r rs. ends sid new = r # rs \<longrightarrow> r \<in> {ReasonTerminated, ReasonShutdown})
    else (sid \<in> set (ended s1) \<longrightarrow> sid \<in> set (ended s)) \<and> closeReasons s1 sid = closeReasons s sid"
proof -
  have ok: "registry_ok H (s, ph, obs)" using registry.reachable_inv [OF _ assms(1)] by blast
  define hit where "hit = filter (\<lambda>(_, c). conn_Tenant H c = t \<and> subject_ID H (conn_Subject H c) = subject) (conns s)"
  have s1: "s1 = doom hit ReasonTerminated s" using assms(2,3) by (auto simp: Terminate_def Let_def hit_def split: if_splits)
  have ids: "conn_id c' = i" "map_of (conns s) i = Some c'" if "(i, c') \<in> set (conns s)" for i c'
  proof -
    show m: "map_of (conns s) i = Some c'" using that registry_okD(1) [OF ok] by simp
    then have "present (ph i) = Some c'" using registry_okD(2) [OF ok, of i] by simp
    then show "conn_id c' = i" using registry_okD(3) [OF ok, of i c'] by (cases "ph i") auto
  qed
  have mem: "sid \<in> (conn_id \<circ> snd) ` set hit \<longleftrightarrow> conn_Tenant H c = t \<and> subject_ID H (conn_Subject H c) = subject"
  proof
    assume "sid \<in> (conn_id \<circ> snd) ` set hit"
    then obtain i c' where i: "(i, c') \<in> set (conns s)" "conn_id c' = sid" "conn_Tenant H c' = t" "subject_ID H (conn_Subject H c') = subject"
      by (auto simp: hit_def)
    then show "conn_Tenant H c = t \<and> subject_ID H (conn_Subject H c) = subject" using ids [OF i(1)] assms(4) by auto
  next
    assume "conn_Tenant H c = t \<and> subject_ID H (conn_Subject H c) = subject"
    then have "(sid, c) \<in> set hit" using map_of_SomeD [OF assms(4)] by (simp add: hit_def)
    then show "sid \<in> (conn_id \<circ> snd) ` set hit" using ids(1) [OF map_of_SomeD [OF assms(4)]] by force
  qed
  show ?thesis
  proof (cases "conn_Tenant H c = t \<and> subject_ID H (conn_Subject H c) = subject")
    case True
    have "registry_ok H (s1, ph, obs)" using rstep_keeps [OF rstep.operator [OF assms(3)] ok] .
    moreover have "present (ph sid) = Some c" using registry_okD(2) [OF ok, of sid] assms(4) by simp
    then have "doomed sid c obs (s1, ph, obs)" using mem True by (simp add: doomed_def s1 doom_def)
    ultimately have "doomed sid c obs (s2, ph2, obs @ new)" using doomed_run [OF assms(5)] by blast
    then show ?thesis using True mem by (auto simp: doomed_def s1 doom_def split: list.splits)
  next
    case False
    then show ?thesis using mem by (auto simp: s1 doom_def)
  qed
qed

text \<open>The counter agrees with the registry, as long as nobody was refused. While the server is
  open and no socket was turned away at the limit, and no announcement is outstanding, the
  number of connections the counter reads for a tenant is the number the registry answers.\<close>

theorem counter_agrees_with_registry:
  assumes "(rstep H)\<^sup>*\<^sup>* (new_registry n, (\<lambda>_. Absent), []) (s, ph, obs)" "registryTenant H g = Inr t"
    and "\<not> closed s" "\<forall>i t. ObsConnectionClosed i t ReasonLimit \<notin> set obs" "\<forall>sid. ph sid = Absent \<or> (\<exists>c. ph sid = Serving c)"
  shows "Connections H g s = Inr (tc_Connections (counter_Read (counted obs) t))"
proof -
  have ok: "registry_ok H (s, ph, obs)" "counter_ok H (s, ph, obs)" using counting.reachable_inv [OF _ assms(1)] by blast+
  have "tc_Connections (counter_Read (counted obs) t) = card (seen_open H t ph)"
    using ok(2) assms(3,4) by (simp add: counter_ok_def nobody_refused_def)
  also have "seen_open H t ph = fst ` set (filter (\<lambda>(_, c). conn_Tenant H c = t) (conns s))"
  proof (intro set_eqI iffI)
    fix sid assume "sid \<in> seen_open H t ph"
    then obtain c where c: "conn_Tenant H c = t" "ph sid = Serving c" using assms(5) by (auto simp: seen_open_def) (metis phase.distinct(11) phase.distinct(5))
    then have "map_of (conns s) sid = Some c" using registry_okD(2) [OF ok(1), of sid] by simp
    then show "sid \<in> fst ` set (filter (\<lambda>(_, c). conn_Tenant H c = t) (conns s))" using c(1) by (force dest: map_of_SomeD)
  next
    fix sid assume "sid \<in> fst ` set (filter (\<lambda>(_, c). conn_Tenant H c = t) (conns s))"
    then obtain c where c: "(sid, c) \<in> set (conns s)" "conn_Tenant H c = t" by auto
    then have "present (ph sid) = Some c" using registry_okD(1,2) [OF ok(1)] by (metis map_of_is_SomeI)
    then show "sid \<in> seen_open H t ph" using c(2) assms(5) by (auto simp: seen_open_def) (metis option.inject present.simps(2,3) option.distinct(1))
  qed
  also have "card \<dots> = length (filter (\<lambda>(_, c). conn_Tenant H c = t) (conns s))"
  proof -
    have "distinct (map fst (filter (\<lambda>(_, c). conn_Tenant H c = t) (conns s)))" using registry_okD(1) [OF ok(1)] by (rule distinct_map_filter)
    then show ?thesis using distinct_card by fastforce
  qed
  finally show ?thesis using assms(2) by (simp add: Connections_def)
qed

section \<open>Two things the registry gets wrong\<close>

text \<open>A limit of one, one socket admitted and announced.\<close>

definition ana_socket :: "sample_grant Connection" where "ana_socket = sample_conn ''acme'' ''ana'' ''1.1''"
definition bob_socket :: "sample_grant Connection" where "bob_socket = sample_conn ''acme'' ''bob'' ''2.1''"
definition operate_grant :: sample_grant where
  "operate_grant = \<lparr>gr_subject = ''root'', gr_tenant = ''acme'', gr_action = Operate\<rparr>"

definition one_in :: "sample_grant registry" where
  "one_in = (new_registry 1)\<lparr>conns := [(''1.1'', ana_socket)], perTenant := (\<lambda>_. 0)(''acme'' := 1)\<rparr>"

lemma socket_facts:
  "conn_id ana_socket = ''1.1''" "conn_Tenant sample_hesape ana_socket = ''acme''" "conn_id bob_socket = ''2.1''"
  "conn_Tenant sample_hesape bob_socket = ''acme''" "subject_ID sample_hesape (conn_Subject sample_hesape ana_socket) = ''ana''"
  "registryTenant sample_hesape operate_grant = Inr ''acme''"
  by (simp_all add: ana_socket_def bob_socket_def sample_facts) (simp add: registryTenant_def operate_grant_def sample_hesape_def)

lemma sample_admission:
  "(rstep sample_hesape)\<^sup>*\<^sup>* (new_registry 1, (\<lambda>_. Absent), [])
    (one_in, (\<lambda>_. Absent)(''1.1'' := Serving ana_socket), [ObsConnectionOpened ''1.1'' ''acme''])"
proof -
  have "register sample_hesape ana_socket (new_registry 1) = (None, one_in)"
    by (simp add: register_def socket_facts new_registry_def one_in_def)
  from rstep.admit [OF _ this, of "\<lambda>_. Absent" "[]"]
  have "rstep sample_hesape (new_registry 1, (\<lambda>_. Absent), []) (one_in, (\<lambda>_. Absent)(''1.1'' := Admitted ana_socket), [])"
    by (simp add: socket_facts)
  moreover have "rstep sample_hesape (one_in, (\<lambda>_. Absent)(''1.1'' := Admitted ana_socket), [])
      (one_in, (\<lambda>_. Absent)(''1.1'' := Serving ana_socket), [ObsConnectionOpened ''1.1'' ''acme''])"
    using rstep.announce [of "(\<lambda>_. Absent)(''1.1'' := Admitted ana_socket)" "''1.1''" ana_socket sample_hesape one_in "[]"]
    by (simp add: socket_facts)
  ultimately show ?thesis by (simp add: converse_rtranclp_into_rtranclp)
qed

text \<open>A refusal lowers the count. A socket that is turned away is announced as closed and
  was never announced as opened, so the counter, which is to say how many are open right now,
  can read zero while the registry answers one.\<close>

theorem refusal_lowers_the_count:
  "\<exists>s ph obs. (rstep sample_hesape)\<^sup>*\<^sup>* (new_registry 1, (\<lambda>_. Absent), []) (s, ph, obs) \<and>
    Connections sample_hesape operate_grant s = Inr 1 \<and> tc_Connections (counter_Read (counted obs) ''acme'') = 0"
proof -
  have "register sample_hesape bob_socket one_in = (Some ErrConnectionLimit, one_in)"
    by (simp add: register_def socket_facts one_in_def new_registry_def)
  from rstep.turn_away [OF _ this, of "(\<lambda>_. Absent)(''1.1'' := Serving ana_socket)" "[ObsConnectionOpened ''1.1'' ''acme'']"]
  have "rstep sample_hesape (one_in, (\<lambda>_. Absent)(''1.1'' := Serving ana_socket), [ObsConnectionOpened ''1.1'' ''acme''])
      (one_in, (\<lambda>_. Absent)(''1.1'' := Serving ana_socket),
       [ObsConnectionOpened ''1.1'' ''acme'', ObsConnectionClosed ''2.1'' ''acme'' ReasonLimit])"
    by (simp add: socket_facts errServerClosed_def)
  with sample_admission have "(rstep sample_hesape)\<^sup>*\<^sup>* (new_registry 1, (\<lambda>_. Absent), [])
      (one_in, (\<lambda>_. Absent)(''1.1'' := Serving ana_socket),
       [ObsConnectionOpened ''1.1'' ''acme'', ObsConnectionClosed ''2.1'' ''acme'' ReasonLimit])"
    by (rule rtranclp.rtrancl_into_rtrancl)
  moreover have "Connections sample_hesape operate_grant one_in = Inr 1"
    by (simp add: Connections_def socket_facts one_in_def)
  moreover have "tc_Connections (counter_Read (counted
      [ObsConnectionOpened ''1.1'' ''acme'', ObsConnectionClosed ''2.1'' ''acme'' ReasonLimit]) ''acme'') = 0"
    by (simp add: counted_def NewCounter_def counter_Read_bump) (simp add: counter_Read_def no_count_def)
  ultimately show ?thesis by blast
qed

text \<open>
  Two sockets with one id take two slots and give back one: the second to leave is not found in
  the registry, and its slot is never given back.
\<close>

theorem duplicate_id_leaks_a_slot:
  assumes "\<not> closed s" "maxConnections s \<le> 0" "conn_id c' = conn_id c" "conn_Tenant H c' = conn_Tenant H c"
    and "map_of (conns s) (conn_id c) = None" "s2 = snd (register H c' (snd (register H c s)))"
    and "s4 = snd (unregister H c' r' (snd (unregister H c r s2)))"
  shows "map_of (conns s4) (conn_id c) = None \<and> perTenant s4 (conn_Tenant H c) = perTenant s (conn_Tenant H c) + 1"
  using assms by (auto simp: register_def unregister_def Let_def update_conv delete_conv)

section \<open>Witnesses\<close>

theorem tenant_limit_holds_witness:
  "Connections sample_hesape operate_grant one_in = Inr 1 \<and> fst (register sample_hesape bob_socket one_in) = Some ErrConnectionLimit"
proof -
  have "perTenant one_in ''acme'' = 1" "fst (register sample_hesape bob_socket one_in) = Some ErrConnectionLimit"
    by (simp_all add: register_def socket_facts one_in_def new_registry_def)
  then show ?thesis using tenant_limit_holds [OF sample_admission, of "''acme''"] socket_facts by metis
qed

theorem terminated_is_reported_witness:
  "\<exists>k s1. Terminate sample_hesape operate_grant ''ana'' one_in = (Inr k, s1) \<and> ''1.1'' \<in> set (ended s1)"
proof -
  obtain k s1 where t: "Terminate sample_hesape operate_grant ''ana'' one_in = (Inr k, s1)"
    by (simp add: Terminate_def socket_facts Let_def)
  have m: "map_of (conns one_in) ''1.1'' = Some ana_socket" by (simp add: one_in_def)
  show ?thesis
    using terminated_is_reported [OF sample_admission socket_facts(6) t m, of s1 "(\<lambda>_. Absent)(''1.1'' := Serving ana_socket)" "[]"] t
      socket_facts by simp
qed

theorem counter_agrees_with_registry_witness:
  "Connections sample_hesape operate_grant one_in =
    Inr (tc_Connections (counter_Read (counted [ObsConnectionOpened ''1.1'' ''acme'']) ''acme''))"
  by (rule counter_agrees_with_registry [OF sample_admission socket_facts(6)]) (simp_all add: one_in_def new_registry_def)

end
