(* ===== verification/Go_Net.thy ===== *)
theory Go_Net
  imports Json
begin

text \<open>
  What the binary uses of the standard library to tell addresses and header values apart:
  \<open>strings.TrimSpace\<close>, \<open>strings.Split\<close>, \<open>strings.EqualFold\<close> against an ASCII text,
  \<open>strconv.Atoi\<close>, \<open>net.SplitHostPort\<close> and, of \<open>net/netip\<close>, \<open>ParseAddr\<close>, \<open>ParsePrefix\<close>,
  \<open>Unmap\<close>, \<open>WithZone\<close>, \<open>Masked\<close> and \<open>Contains\<close>. The messages of parse errors are never looked
  at by the code, so a parse that fails is \<open>None\<close>.
\<close>

section \<open>Strings\<close>

text \<open>The white space of \<open>unicode.IsSpace\<close>, as the bytes each rune is encoded with.\<close>

definition spaces :: "string list" where
  "spaces = [[CHR 0x09], [CHR 0x0A], [CHR 0x0B], [CHR 0x0C], [CHR 0x0D], '' '', [CHR 0xC2, CHR 0x85], [CHR 0xC2, CHR 0xA0],
     [CHR 0xE1, CHR 0x9A, CHR 0x80]] @
     map (\<lambda>n. [CHR 0xE2, CHR 0x80, char_of (n::nat)]) [0x80 ..< 0x8B] @
     [[CHR 0xE2, CHR 0x80, CHR 0xA8], [CHR 0xE2, CHR 0x80, CHR 0xA9], [CHR 0xE2, CHR 0x80, CHR 0xAF],
      [CHR 0xE2, CHR 0x81, CHR 0x9F], [CHR 0xE3, CHR 0x80, CHR 0x80]]"

definition is_prefix :: "string \<Rightarrow> string \<Rightarrow> bool" where
  "is_prefix p s \<longleftrightarrow> take (length p) s = p"

lemma space_nonempty: "[] \<notin> set spaces"
  by (auto simp: spaces_def)

function trim_left :: "string \<Rightarrow> string" where
  "trim_left s =
    (case List.find (\<lambda>p. is_prefix p s) spaces of
       None \<Rightarrow> s
     | Some p \<Rightarrow> trim_left (drop (length p) s))"
  by pat_completeness auto
termination
proof (relation "measure length", goal_cases)
  case (2 s p)
  then have "p \<in> set spaces" "is_prefix p s" by (auto simp: find_Some_iff)
  then have "p \<noteq> []" "take (length p) s = p" using space_nonempty by (auto simp: is_prefix_def)
  then show ?case by (cases s) auto
qed simp

declare trim_left.simps [simp del]

text \<open>A rune of white space at the end is one whose bytes end the string: no encoding of a rune ends another's.\<close>

function trim_right :: "string \<Rightarrow> string" where
  "trim_right s =
    (case List.find (\<lambda>p. is_prefix (rev p) (rev s)) spaces of
       None \<Rightarrow> s
     | Some p \<Rightarrow> trim_right (take (length s - length p) s))"
  by pat_completeness auto
termination
proof (relation "measure length", goal_cases)
  case (2 s p)
  then have "p \<in> set spaces" "is_prefix (rev p) (rev s)" by (auto simp: find_Some_iff)
  then have "p \<noteq> []" "take (length p) (rev s) = rev p" using space_nonempty by (auto simp: is_prefix_def)
  then show ?case by (cases s) auto
qed simp

declare trim_right.simps [simp del]

definition TrimSpace :: "string \<Rightarrow> string" where
  "TrimSpace s = trim_right (trim_left s)"

text \<open>\<open>strings.Split\<close> with a separator of one character.\<close>

fun split_on :: "char \<Rightarrow> string \<Rightarrow> string list" where
  "split_on c [] = [[]]"
| "split_on c (x # s) =
    (if x = c then [] # split_on c s
     else case split_on c s of [] \<Rightarrow> [[x]] | p # ps \<Rightarrow> (x # p) # ps)"

lemma split_on_ne [simp]: "split_on c s \<noteq> []"
  by (induction s) (auto split: list.splits)

lemma split_on_append: "split_on c (a @ c # b) = split_on c a @ split_on c b"
  by (induction a) (auto split: list.splits)

lemma split_on_none: "c \<notin> set s \<Longrightarrow> split_on c s = [s]"
  by (induction s) auto

text \<open>\<open>strings.EqualFold\<close> of a string and a text of ASCII characters.\<close>

definition EqualFold :: "string \<Rightarrow> string \<Rightarrow> bool" where
  "EqualFold s t \<longleftrightarrow> fold_name s = fold_name t"

section \<open>Numbers\<close>

fun digits_value :: "nat \<Rightarrow> string \<Rightarrow> nat option" where
  "digits_value acc [] = Some acc"
| "digits_value acc (c # s) = (if is_digit c then digits_value (acc * 10 + (code c - 0x30)) s else None)"

text \<open>\<open>strconv.ParseInt (s, 10, 64)\<close>, and \<open>Atoi\<close> where an \<open>int\<close> has 64 bits.\<close>

definition ParseInt :: "string \<Rightarrow> int option" where
  "ParseInt s =
    (let (neg, d) = (case s of [] \<Rightarrow> (False, s)
        | c # r \<Rightarrow> if c = CHR ''-'' then (True, r) else if c = CHR ''+'' then (False, r) else (False, s))
     in if d = [] then None
        else case digits_value 0 d of
          None \<Rightarrow> None
        | Some n \<Rightarrow>
            let v = (if neg then - int n else int n) in
            if - (2 ^ 63) \<le> v \<and> v < 2 ^ 63 then Some v else None)"

lemma ParseInt_range: "ParseInt s = Some v \<Longrightarrow> - (2 ^ 63) \<le> v \<and> v < 2 ^ 63"
  by (auto simp: ParseInt_def Let_def split: list.splits if_splits option.splits)

section \<open>Host and port\<close>

definition last_index :: "char \<Rightarrow> string \<Rightarrow> nat option" where
  "last_index c s = (if c \<in> set s then Some (length s - 1 - length (takeWhile (\<lambda>x. x \<noteq> c) (rev s))) else None)"

definition index_of :: "char \<Rightarrow> string \<Rightarrow> nat option" where
  "index_of c s = (if c \<in> set s then Some (length (takeWhile (\<lambda>x. x \<noteq> c) s)) else None)"

definition SplitHostPort :: "string \<Rightarrow> (string \<times> string) option" where
  "SplitHostPort hostport =
    (case last_index (CHR '':'') hostport of
       None \<Rightarrow> None
     | Some i \<Rightarrow>
         let port = drop (i + 1) hostport in
         if take 1 hostport = ''['' then
           (case index_of (CHR '']'') hostport of
              None \<Rightarrow> None
            | Some end' \<Rightarrow>
                if end' + 1 \<noteq> i then None
                else if CHR ''['' \<in> set (drop 1 hostport) \<or> CHR '']'' \<in> set (drop (end' + 1) hostport) then None
                else Some (drop 1 (take end' hostport), port))
         else if CHR '':'' \<in> set (take i hostport) then None
         else if CHR ''['' \<in> set hostport \<or> CHR '']'' \<in> set hostport then None
         else Some (take i hostport, port))"

section \<open>Addresses\<close>

text \<open>The bytes of an address, in network order; an IPv6 address may carry a zone.\<close>

datatype Addr = Addr4 (addr_bytes: "byte list") | Addr6 (addr_bytes: "byte list") (addr_zone: string)

fun v4_fields :: "nat \<Rightarrow> nat \<Rightarrow> byte list \<Rightarrow> string \<Rightarrow> byte list option" where
  "v4_fields val digits fs [] = (if length fs < 3 then None else Some (fs @ [of_nat val]))"
| "v4_fields val digits fs (c # s) =
    (if is_digit c then
       (if digits = 1 \<and> val = 0 then None
        else let v = val * 10 + (code c - 0x30) in if v > 255 then None else v4_fields v (digits + 1) fs s)
     else if c = CHR ''.'' then
       (if digits = 0 \<or> s = [] then None
        else if length fs = 3 then None
        else v4_fields 0 0 (fs @ [of_nat val]) s)
     else None)"

definition parseIPv4 :: "string \<Rightarrow> Addr option" where
  "parseIPv4 s = map_option Addr4 (v4_fields 0 0 [] s)"

text \<open>A group of hexadecimal digits: its value, how many there were and what follows; a fifth digit fails.\<close>

fun v6_group :: "nat \<Rightarrow> nat \<Rightarrow> string \<Rightarrow> (nat \<times> nat \<times> string) option" where
  "v6_group acc off [] = Some (acc, off, [])"
| "v6_group acc off (c # s) =
    (case hex_value c of
       None \<Rightarrow> Some (acc, off, c # s)
     | Some d \<Rightarrow> if off > 3 then None else v6_group (acc * 16 + d) (off + 1) s)"

text \<open>
  The loop over the groups: how many may still follow, the bytes so far, where the ellipsis
  was, and the text. A dot after a group means the text from that group on is an IPv4 address.
\<close>

fun v6_loop :: "nat \<Rightarrow> byte list \<Rightarrow> nat option \<Rightarrow> string \<Rightarrow> (byte list \<times> nat option \<times> string) option" where
  "v6_loop 0 ip ell s = Some (ip, ell, s)"
| "v6_loop (Suc n) ip ell s =
    (case v6_group 0 0 s of
       None \<Rightarrow> None
     | Some (acc, off, r) \<Rightarrow>
         if off = 0 then None
         else if take 1 r = ''.'' then
           (if ell = None \<and> length ip \<noteq> 12 then None
            else if length ip + 4 > 16 then None
            else case v4_fields 0 0 [] s of None \<Rightarrow> None | Some fs \<Rightarrow> Some (ip @ fs, ell, []))
         else
           let ip' = ip @ [of_nat (acc div 256), of_nat (acc mod 256)] in
           (case r of
              [] \<Rightarrow> Some (ip', ell, [])
            | c # r1 \<Rightarrow>
                if c \<noteq> CHR '':'' then None
                else (case r1 of
                   [] \<Rightarrow> None
                 | d # r2 \<Rightarrow>
                     if d = CHR '':'' then
                       (if ell \<noteq> None then None
                        else if r2 = [] then Some (ip', Some (length ip'), [])
                        else v6_loop n ip' (Some (length ip')) r2)
                     else v6_loop n ip' ell r1)))"

definition parseIPv6 :: "string \<Rightarrow> Addr option" where
  "parseIPv6 text =
    (let (s, zone) = (case index_of (CHR ''%'') text of None \<Rightarrow> (text, None) | Some i \<Rightarrow> (take i text, Some (drop (i + 1) text)));
         z = (case zone of None \<Rightarrow> [] | Some z \<Rightarrow> z)
     in if zone = Some [] then None
        else if s = ''::'' then Some (Addr6 (replicate 16 0) z)
        else
          case (if take 2 s = ''::'' then v6_loop 8 [] (Some 0) (drop 2 s) else v6_loop 8 [] None s) of
            None \<Rightarrow> None
          | Some (ip, ell, r) \<Rightarrow>
              if r \<noteq> [] then None
              else if length ip < 16 then
                (case ell of
                   None \<Rightarrow> None
                 | Some e \<Rightarrow> Some (Addr6 (take e ip @ replicate (16 - length ip) 0 @ drop e ip) z))
              else if ell \<noteq> None then None
              else Some (Addr6 ip z))"

definition ParseAddr :: "string \<Rightarrow> Addr option" where
  "ParseAddr s =
    (case List.find (\<lambda>c. c = CHR ''.'' \<or> c = CHR '':'' \<or> c = CHR ''%'') s of
       None \<Rightarrow> None
     | Some c \<Rightarrow> if c = CHR ''.'' then parseIPv4 s else if c = CHR '':'' then parseIPv6 s else None)"

text \<open>\<open>Unmap\<close>: an IPv4 address written as an IPv6 one becomes the IPv4 address.\<close>

definition mapped_prefix :: "byte list" where
  "mapped_prefix = replicate 10 0 @ [0xff, 0xff]"

fun Unmap :: "Addr \<Rightarrow> Addr" where
  "Unmap (Addr4 b) = Addr4 b"
| "Unmap (Addr6 b z) = (if take 12 b = mapped_prefix then Addr4 (drop 12 b) else Addr6 b z)"

fun WithZone :: "Addr \<Rightarrow> string \<Rightarrow> Addr" where
  "WithZone (Addr4 b) z = Addr4 b"
| "WithZone (Addr6 b _) z = Addr6 b z"

fun BitLen :: "Addr \<Rightarrow> nat" where
  "BitLen (Addr4 _) = 32"
| "BitLen (Addr6 _ _) = 128"

fun hasZone :: "Addr \<Rightarrow> bool" where
  "hasZone (Addr4 _) = False"
| "hasZone (Addr6 _ z) = (z \<noteq> [])"

definition byte_bits :: "byte \<Rightarrow> bool list" where
  "byte_bits b = map (\<lambda>i. bit b (7 - i)) [0..<8]"

definition addr_bits :: "Addr \<Rightarrow> bool list" where
  "addr_bits a = concat (map byte_bits (addr_bytes a))"

section \<open>Prefixes\<close>

record Prefix =
  pf_addr :: Addr
  pf_bits :: nat

definition Contains :: "Prefix \<Rightarrow> Addr \<Rightarrow> bool" where
  "Contains p a \<longleftrightarrow> \<not> hasZone a \<and> BitLen (pf_addr p) = BitLen a \<and>
    take (pf_bits p) (addr_bits (pf_addr p)) = take (pf_bits p) (addr_bits a)"

definition ParsePrefix :: "string \<Rightarrow> Prefix option" where
  "ParsePrefix s =
    (case last_index (CHR ''/'') s of
       None \<Rightarrow> None
     | Some i \<Rightarrow>
         (case ParseAddr (take i s) of
            None \<Rightarrow> None
          | Some ip \<Rightarrow>
              if hasZone ip then None
              else let bits = drop (i + 1) s in
                if length bits > 1 \<and> (code (hd bits) < 0x31 \<or> code (hd bits) > 0x39) then None
                else case ParseInt bits of
                  None \<Rightarrow> None
                | Some n \<Rightarrow> if n < 0 \<or> n > int (BitLen ip) then None else Some \<lparr>pf_addr = ip, pf_bits = nat n\<rparr>))"

text \<open>\<open>Masked\<close>: the bits behind the prefix are cleared.\<close>

definition mask_byte :: "nat \<Rightarrow> byte \<Rightarrow> byte" where
  "mask_byte k b = (if k \<ge> 8 then b else push_bit (8 - k) (drop_bit (8 - k) b))"

definition mask_bytes :: "nat \<Rightarrow> byte list \<Rightarrow> byte list" where
  "mask_bytes n bs = map (\<lambda>i. mask_byte (n - 8 * i) (bs ! i)) [0..<length bs]"

definition Masked :: "Prefix \<Rightarrow> Prefix" where
  "Masked p = p\<lparr>pf_addr := (case pf_addr p of Addr4 b \<Rightarrow> Addr4 (mask_bytes (pf_bits p) b)
     | Addr6 b z \<Rightarrow> Addr6 (mask_bytes (pf_bits p) b) [])\<rparr>"

end
