(* ===== verification/Json_Values.thy ===== *)
theory Json_Values
  imports Json_Facts Go_Net
begin

text \<open>
  More of \<open>encoding/json\<close>: arrays read into slices, numbers read into integers and objects read
  into maps, the way \<open>Unmarshal\<close> reads them into a field that may already hold something, and that
  what \<open>Marshal\<close> writes of them is read back.
\<close>

section \<open>Arrays\<close>

primrec arr_values :: "(string \<Rightarrow> string option) \<Rightarrow> nat \<Rightarrow> string \<Rightarrow> (string list \<times> string) option" where
  "arr_values sc 0 s = None"
| "arr_values sc (Suc n) s =
    (case sc (skip_ws s) of None \<Rightarrow> None
     | Some r \<Rightarrow>
        (case skip_ws r of
           [] \<Rightarrow> None
         | c # r1 \<Rightarrow>
             if c = CHR '']'' then Some ([taken (skip_ws s) r], r1)
             else if c = CHR '','' then
               (case arr_values sc n r1 of None \<Rightarrow> None | Some (vs, r2) \<Rightarrow> Some (taken (skip_ws s) r # vs, r2))
             else None))"

text \<open>The elements of a text that is one array, each as the bytes it was written with.\<close>

definition elements :: "string \<Rightarrow> string list option" where
  "elements s =
    (if \<not> Valid s then None
     else case skip_ws s of
        c # r \<Rightarrow>
          if c = CHR ''['' then
            (if take 1 (skip_ws r) = '']'' then Some []
             else map_option fst (arr_values (scan_value (maxNestingDepth - 1)) (length r) r))
          else None
      | [] \<Rightarrow> None)"

lemma arr_values_items: "map_option snd (arr_values sc n s) = arr_items sc n s"
proof (induction n arbitrary: s)
  case (Suc n)
  show ?case by (auto simp: Suc.IH [symmetric] split: option.splits list.splits)
qed simp

lemma skip_brackets: "skip_ws (CHR ''['' # u) = CHR ''['' # u" "skip_ws (CHR '']'' # u) = CHR '']'' # u"
  by (simp_all add: skip_ws_def is_space_def)

lemma arr_values_text:
  assumes "vs \<noteq> []" "length vs \<le> n" "\<forall>v \<in> set vs. value_at d v"
  shows "arr_values (scan_value d) n (commas vs @ CHR '']'' # u) = Some (vs, u)"
  using assms
proof (induction vs arbitrary: n)
  case (Cons v vs)
  obtain n' where n: "n = Suc n'" using Cons.prems(2) by (cases n) auto
  have v: "v \<noteq> []" "\<not> is_space (hd v)" "\<And>w. stops w \<Longrightarrow> scan_value d (v @ w) = Some w"
    using Cons.prems(3) by (auto simp: value_at_def)
  let ?rest = "(if vs = [] then [] else CHR '','' # commas vs) @ CHR '']'' # u"
  have whole: "commas (v # vs) @ CHR '']'' # u = v @ ?rest" by (simp add: commas_Cons)
  have ws: "skip_ws (v @ ?rest) = v @ ?rest" using v(1,2) by (intro skip_ws_id) simp_all
  have "stops ?rest" by (simp add: stops_def)
  then have sc: "scan_value d (v @ ?rest) = Some ?rest" by (rule v(3))
  have step: "arr_values (scan_value d) n (commas (v # vs) @ CHR '']'' # u) =
    (case skip_ws ?rest of [] \<Rightarrow> None
     | c # r1 \<Rightarrow> if c = CHR '']'' then Some ([v], r1)
       else if c = CHR '','' then (case arr_values (scan_value d) n' r1 of None \<Rightarrow> None | Some (l, r2) \<Rightarrow> Some (v # l, r2))
       else None)"
    unfolding whole n arr_values.simps by (simp only: ws sc option.case taken_append)
  show ?case
  proof (cases "vs = []")
    case True
    then show ?thesis unfolding step by (simp add: skip_brackets)
  next
    case False
    then have "arr_values (scan_value d) n' (commas vs @ CHR '']'' # u) = Some (vs, u)" using Cons n by simp
    then show ?thesis unfolding step using False by (simp add: skip_chars)
  qed
qed simp

lemma length_commas_values: "\<forall>v \<in> set vs. v \<noteq> [] \<Longrightarrow> length vs \<le> length (commas vs)"
proof (induction vs)
  case (Cons v vs)
  then have "1 \<le> length v" by (cases v) auto
  then show ?case using Cons by (simp add: commas_Cons)
qed simp

lemma commas_through_values:
  assumes "\<forall>v \<in> set vs. \<forall>u. f (v @ u) = v @ f u" "\<And>u. f (CHR '','' # u) = CHR '','' # f u"
  shows "f (commas vs @ u) = commas vs @ f u"
  using assms(1) by (induction vs arbitrary: u) (simp_all add: commas_Cons assms(2))

lemma array_front:
  assumes "vs \<noteq> []" "\<forall>v \<in> set vs. value_at d v"
  shows "skip_ws (commas vs @ u) = commas vs @ u" "commas vs \<noteq> []" "hd (commas vs) \<noteq> CHR '']''"
proof -
  obtain v ws where vs: "vs = v # ws" using assms(1) by (cases vs) auto
  have v: "v \<noteq> []" "\<not> is_space (hd v)" "\<And>w. stops w \<Longrightarrow> scan_value d (v @ w) = Some w"
    using assms(2) vs by (auto simp: value_at_def)
  show "commas vs \<noteq> []" using v(1) by (simp add: vs commas_Cons)
  show "skip_ws (commas vs @ u) = commas vs @ u" using v(1,2) by (intro skip_ws_id) (simp_all add: vs commas_Cons)
  show "hd (commas vs) \<noteq> CHR '']''"
  proof
    assume "hd (commas vs) = CHR '']''"
    then obtain w where "v = CHR '']'' # w" using v(1) by (cases v) (auto simp: vs commas_Cons)
    moreover have "scan_value d (CHR '']'' # w) = None"
      by (cases d) (simp_all add: scan_scalar_def scan_number_def scan_digits1_def is_digit_def code_def of_char_def)
    ultimately show False using v(3) [of "[]"] by (simp add: stops_def)
  qed
qed

lemma value_array:
  assumes "\<forall>v \<in> set vs. value_at d v"
  shows "value_at (Suc d) (json_array vs)"
proof -
  have scan: "scan_value (Suc d) (json_array vs @ u) = Some u" for u
  proof (cases "vs = []")
    case True
    then show ?thesis by (simp add: json_array_def scan_array_def skip_brackets)
  next
    case False
    have len: "length vs \<le> length (commas vs @ CHR '']'' # u)"
      using length_commas_values [of vs] assms by (auto simp: value_at_def)
    note front = array_front [OF False assms]
    obtain c w where cw: "commas vs = c # w" "c \<noteq> CHR '']''" using front(2,3) by (cases "commas vs") auto
    have "arr_items (scan_value d) (length (commas vs @ CHR '']'' # u)) (commas vs @ CHR '']'' # u) = Some u"
      unfolding arr_values_items [symmetric] by (simp only: arr_values_text [OF False len assms] option.map snd_conv)
    then have "scan_array (scan_value d) (commas vs @ CHR '']'' # u) = Some u"
      unfolding scan_array_def front(1) by (simp add: cw)
    then show ?thesis by (simp add: json_array_def)
  qed
  have sq: "squeeze False (commas vs @ u) = commas vs @ squeeze False u" for u
    by (rule commas_through_values) (use assms in \<open>simp add: value_at_def\<close>, simp add: is_space_def)
  have es: "escape_html (commas vs @ u) = commas vs @ escape_html u" for u
    by (rule commas_through_values) (use assms in \<open>simp add: value_at_def\<close>, simp add: html_unsafe_def)
  show ?thesis unfolding value_at_def
    using scan by (simp add: json_array_def sq [simplified] es [simplified] is_space_def html_unsafe_def)
qed

lemma elements_array:
  assumes "\<forall>v \<in> set vs. value_at 9999 v"
  shows "elements (json_array vs) = Some vs"
proof -
  have v: "Valid (json_array vs)" using value_Valid value_array [OF assms] by (simp add: depth)
  show ?thesis
  proof (cases "vs = []")
    case True
    then show ?thesis using v by (simp add: elements_def json_array_def skip_brackets)
  next
    case False
    note front = array_front [OF False assms]
    obtain c w where cw: "commas vs = c # w" "c \<noteq> CHR '']''" using front(2,3) by (cases "commas vs") auto
    have len: "length vs \<le> length (commas vs @ CHR '']'' # [])"
      using length_commas_values [of vs] assms by (auto simp: value_at_def)
    have "arr_values (scan_value 9999) (length (commas vs @ CHR '']'' # [])) (commas vs @ CHR '']'' # []) = Some (vs, [])"
      by (rule arr_values_text [OF False len assms])
    moreover have "json_array vs = CHR ''['' # commas vs @ CHR '']'' # []" by (simp add: json_array_def)
    moreover have "take 1 (skip_ws (commas vs @ CHR '']'' # [])) \<noteq> '']''" unfolding front(1) by (simp add: cw)
    ultimately show ?thesis using v unfolding elements_def by (simp only: skip_brackets list.case depth(2) simp_thms if_True if_False option.map fst_conv)
  qed
qed

section \<open>Fields\<close>

text \<open>
  A field of each kind after the members were read in order: an integer takes a number written as
  one, a slice of strings takes an array of strings, and null keeps a number and empties a slice. A
  null element keeps what the slice held at its place.
\<close>

fun int_field :: "string list \<Rightarrow> string \<Rightarrow> (string \<times> string) list \<Rightarrow> int \<Rightarrow> int option" where
  "int_field fs f [] old = Some old"
| "int_field fs f ((k, v) # ms) old =
    (if field_of fs k \<noteq> Some f \<or> v = ''null'' then int_field fs f ms old
     else case ParseInt v of None \<Rightarrow> None | Some i \<Rightarrow> int_field fs f ms i)"

fun strings_into :: "string list \<Rightarrow> string list \<Rightarrow> string list option" where
  "strings_into old [] = Some []"
| "strings_into old (v # vs) =
    (case (if v = ''null'' then Some (case old of [] \<Rightarrow> [] | x # _ \<Rightarrow> x) else unquote v) of
       None \<Rightarrow> None
     | Some s \<Rightarrow> map_option ((#) s) (strings_into (drop 1 old) vs))"

fun strings_field :: "string list \<Rightarrow> string \<Rightarrow> (string \<times> string) list \<Rightarrow> string list \<Rightarrow> string list option" where
  "strings_field fs f [] old = Some old"
| "strings_field fs f ((k, v) # ms) old =
    (if field_of fs k \<noteq> Some f then strings_field fs f ms old
     else if v = ''null'' then strings_field fs f ms []
     else case elements v of
       None \<Rightarrow> None
     | Some vs \<Rightarrow> (case strings_into old vs of None \<Rightarrow> None | Some l \<Rightarrow> strings_field fs f ms l))"

lemma strings_into_texts: "\<forall>s \<in> set ss. utf8 s \<Longrightarrow> strings_into old (map json_string ss) = Some ss"
  by (induction ss arbitrary: old) (auto simp: not_null unquote_json_string)

section \<open>Numbers\<close>

lemma digits_value_append: "digits_value acc (ds @ es) = Option.bind (digits_value acc ds) (\<lambda>a. digits_value a es)"
  by (induction acc ds rule: digits_value.induct) auto

lemma hex_digit_number: "k < 10 \<Longrightarrow> is_digit (hex_digit k) \<and> code (hex_digit k) - 0x30 = k"
  using digit_facts [of k] hex_digit_value [of k] by (simp add: hex_value_def is_digit_def Let_def)

lemma nat_string_value: "digits_value 0 (nat_string n) = Some n"
proof (induction n rule: nat_string.induct)
  case (1 n)
  show ?case
  proof (cases "n < 10")
    case True
    then show ?thesis using hex_digit_number [of n] by (simp add: nat_string.simps [of n])
  next
    case False
    then show ?thesis
      using 1 hex_digit_number [of "n mod 10"] by (simp add: nat_string.simps [of n] digits_value_append)
  qed
qed

lemma ParseInt_string:
  assumes "- (2 ^ 63) \<le> i" "i < 2 ^ 63"
  shows "ParseInt (int_string i) = Some i"
proof -
  have d: "nat_string n \<noteq> []" "hd (nat_string n) \<noteq> CHR ''-''" "hd (nat_string n) \<noteq> CHR ''+''" for n
  proof -
    note x = nat_string_digits [of n]
    then show "nat_string n \<noteq> []" by blast
    then have "is_digit (hd (nat_string n))" using x by (cases "nat_string n") auto
    then show "hd (nat_string n) \<noteq> CHR ''-''" "hd (nat_string n) \<noteq> CHR ''+''" by (auto simp: is_digit_def code_def of_char_def)
  qed
  show ?thesis
  proof (cases "i < 0")
    case True
    then show ?thesis using assms d(1) [of "nat (- i)"] by (simp add: ParseInt_def int_string_def nat_string_value)
  next
    case False
    obtain c w where c: "nat_string (nat i) = c # w" using d(1) by (cases "nat_string (nat i)") auto
    then have "c \<noteq> CHR ''-''" "c \<noteq> CHR ''+''" using d(2,3) [of "nat i"] by simp_all
    then show ?thesis using False assms c nat_string_value [of "nat i"] by (simp add: ParseInt_def int_string_def)
  qed
qed

lemma int_string_not_null: "int_string i \<noteq> ''null''"
proof
  assume e: "int_string i = ''null''"
  have "\<not> is_digit (CHR ''n'')" by (simp add: char_tests)
  then show False using e nat_string_digits [of "nat i"] by (auto simp: int_string_def split: if_splits)
qed

end
