(* ===== verification/Joaju_Metrics.thy ===== *)
theory Joaju_Metrics
  imports Joaju_Relay Joaju_Registry Json_Values
begin

text \<open>
  The other half of \<^verbatim>\<open>scaling.go\<close>: how an instance learns what the others hold. \<open>ask\<close> registers a
  question under an id of its own, publishes it, and adds up the answers until as many came as the
  bus said heard it, or time is up; \<open>answer\<close> replies to a question with what this instance holds of
  the tenant it names; \<open>collect\<close> hands an answer to the question that waits for it. The goroutine
  that asks and the one that collects run at the same time, so the wait is a list of what happens
  during it: a payload arrives, the loop takes an answer, time is up.

  Shown: the tally is the sum of the counts and the union of the people the other instances answered
  about the grant's tenant; an answer says exactly what is held of the tenant it was asked about; the
  two together give the fleet's true numbers when everybody answers; and a question always comes back
  and leaves nothing behind.
\<close>

section \<open>Tallies\<close>

text \<open>A set of user ids is the list of its elements.\<close>

record ChannelTally =
  ct_Subscriptions :: int
  ct_Users :: "string list"

record FleetTally =
  ft_Connections :: int
  ft_Channels :: "(string \<times> ChannelTally) list"

definition no_channel_tally :: ChannelTally where
  "no_channel_tally = \<lparr>ct_Subscriptions = 0, ct_Users = []\<rparr>"

definition no_tally :: FleetTally where
  "no_tally = \<lparr>ft_Connections = 0, ft_Channels = []\<rparr>"

definition tally_Channel :: "FleetTally \<Rightarrow> string \<Rightarrow> ChannelTally" where
  "tally_Channel t req = (case map_of (ft_Channels t) req of None \<Rightarrow> no_channel_tally | Some c \<Rightarrow> c)"

definition Members :: "ChannelTally \<Rightarrow> string list" where
  "Members t = sort (ct_Users t)"

definition add_channel :: "string \<times> channelAnswer \<Rightarrow> FleetTally \<Rightarrow> FleetTally" where
  "add_channel = (\<lambda>(req, one) t.
    (let held = tally_Channel t req;
         held1 = held\<lparr>ct_Subscriptions := go_int (ct_Subscriptions held + ca_Subscriptions one)\<rparr>;
         held2 = held1\<lparr>ct_Users := fold List.insert (filter (\<lambda>u. u \<noteq> []) (ca_Users one)) (ct_Users held1)\<rparr>
     in t\<lparr>ft_Channels := AList.update req held2 (ft_Channels t)\<rparr>))"

definition tally_add :: "InstanceID \<Rightarrow> string \<Rightarrow> fleetAnswer \<Rightarrow> FleetTally \<times> relay \<Rightarrow> FleetTally \<times> relay" where
  "tally_add mine T a = (\<lambda>(t, r).
    (if fa_Origin a = mine then (t, r)
     else if fa_Tenant a \<noteq> T then (t, warn ''joaju: the relay dropped a fleet answer about another tenant'' r)
     else (fold add_channel (fa_Channels a) (t\<lparr>ft_Connections := go_int (ft_Connections t + fa_Connections a)\<rparr>), r)))"

section \<open>What travels\<close>

definition question_fields :: "string list" where
  "question_fields = [''origin'', ''request'', ''tenant'', ''channel'']"

definition marshal_question :: "fleetQuestion \<Rightarrow> string" where
  "marshal_question q = json_object ([(''origin'', json_string (fq_Origin q)), (''request'', json_string (fq_Request q)),
     (''tenant'', json_string (fq_Tenant q))] @ omitempty ''channel'' (fq_Channel q))"

definition unmarshal_question :: "string \<Rightarrow> fleetQuestion option" where
  "unmarshal_question payload =
    (case members payload of None \<Rightarrow> None
     | Some ms \<Rightarrow>
        let str = (\<lambda>f. string_field question_fields f ms []) in
        (case (str ''origin'', str ''request'', str ''tenant'', str ''channel'') of
           (Some og, Some rq, Some t, Some ch) \<Rightarrow> Some \<lparr>fq_Origin = og, fq_Request = rq, fq_Tenant = t, fq_Channel = ch\<rparr>
         | _ \<Rightarrow> None))"

definition answer_fields :: "string list" where
  "answer_fields = [''origin'', ''request'', ''tenant'', ''connections'', ''channels'']"

definition part_fields :: "string list" where
  "part_fields = [''subscriptions'', ''users'']"

definition marshal_part :: "channelAnswer \<Rightarrow> string" where
  "marshal_part c = json_object ([(''subscriptions'', int_string (ca_Subscriptions c))] @
     (if ca_Users c = [] then [] else [(''users'', json_array (map json_string (ca_Users c)))]))"

text \<open>A map is written in the order of its keys.\<close>

definition marshal_answer :: "fleetAnswer \<Rightarrow> string" where
  "marshal_answer a = json_object ([(''origin'', json_string (fa_Origin a)), (''request'', json_string (fa_Request a)),
     (''tenant'', json_string (fa_Tenant a)), (''connections'', int_string (fa_Connections a))] @
     (if fa_Channels a = [] then [] else
       [(''channels'', json_object (map (\<lambda>k. (k, marshal_part (the (map_of (fa_Channels a) k)))) (sort (map fst (fa_Channels a)))))]))"

definition unmarshal_part :: "string \<Rightarrow> channelAnswer option" where
  "unmarshal_part v =
    (case members v of None \<Rightarrow> None
     | Some ms \<Rightarrow>
        (case (int_field part_fields ''subscriptions'' ms 0, strings_field part_fields ''users'' ms []) of
           (Some n, Some us) \<Rightarrow> Some \<lparr>ca_Subscriptions = n, ca_Users = us\<rparr>
         | _ \<Rightarrow> None))"

fun parts_into :: "(string \<times> channelAnswer) list \<Rightarrow> (string \<times> string) list \<Rightarrow> (string \<times> channelAnswer) list option" where
  "parts_into old [] = Some old"
| "parts_into old ((k, v) # ms) =
    (case unmarshal_part v of None \<Rightarrow> None | Some p \<Rightarrow> parts_into (AList.update k p old) ms)"

fun channels_field :: "(string \<times> string) list \<Rightarrow> (string \<times> channelAnswer) list \<Rightarrow> (string \<times> channelAnswer) list option" where
  "channels_field [] old = Some old"
| "channels_field ((k, v) # ms) old =
    (if field_of answer_fields k \<noteq> Some ''channels'' then channels_field ms old
     else if v = ''null'' then channels_field ms []
     else case members v of None \<Rightarrow> None
       | Some ps \<Rightarrow> (case parts_into old ps of None \<Rightarrow> None | Some l \<Rightarrow> channels_field ms l))"

definition unmarshal_answer :: "string \<Rightarrow> fleetAnswer option" where
  "unmarshal_answer payload =
    (case members payload of None \<Rightarrow> None
     | Some ms \<Rightarrow>
        let str = (\<lambda>f. string_field answer_fields f ms []) in
        (case (str ''origin'', str ''request'', str ''tenant'', int_field answer_fields ''connections'' ms 0, channels_field ms []) of
           (Some og, Some rq, Some t, Some n, Some cs) \<Rightarrow>
             Some \<lparr>fa_Origin = og, fa_Request = rq, fa_Tenant = t, fa_Connections = n, fa_Channels = cs\<rparr>
         | _ \<Rightarrow> None))"

section \<open>Answering\<close>

definition fleetBacklog :: nat where "fleetBacklog = 64"

text \<open>\<open>serve\<close>, up to the two goroutines it starts; a nil server is \<open>False\<close>.\<close>

definition relay_serve :: "bool \<Rightarrow> int \<Rightarrow> relay \<Rightarrow> jerr option \<times> relay" where
  "relay_serve has_local wait r =
    (if \<not> has_local then (Some (ErrOther ''joaju: the relay was given no server to answer the fleet's questions from''), r)
     else if rl_closed r then (Some ErrRelayClosed, r)
     else if attached r then (Some (ErrOther ''joaju: this relay already answers for a server, and one process is one server''), r)
     else (None, r\<lparr>attached := True, rl_wait := (if wait \<le> 0 then DefaultMetricsTimeout else wait)\<rparr>))"

definition tenantConnections :: "'g registry \<Rightarrow> string \<Rightarrow> nat" where
  "tenantConnections s T = (if T = [] then 0 else perTenant s T)"

definition relay_channels :: "'g broker \<Rightarrow> relay \<Rightarrow> 'g channel list" where
  "relay_channels b r = map (\<lambda>(_, ref). heap b ! ref) (joined r)"

definition channel_part :: "('g, 's) hesape \<Rightarrow> 'g channel \<Rightarrow> channelAnswer" where
  "channel_part H c =
    (let subscribers = Pusher_Channel.Connections c in
     \<lparr>ca_Subscriptions = int (length subscribers),
      ca_Users = (if Presence (name_Type H (ch_name c)) then filter (\<lambda>u. u \<noteq> []) (map (\<lambda>s. UserID (sub_Member s)) subscribers) else [])\<rparr>)"

definition asked_about :: "fleetQuestion \<Rightarrow> 'g channel \<Rightarrow> bool" where
  "asked_about q c \<longleftrightarrow> tenant (ch_name c) = fq_Tenant q \<and> (fq_Channel q = [] \<or> requested (ch_name c) = fq_Channel q)"

definition answer_of :: "('g, 's) hesape \<Rightarrow> 'g registry \<Rightarrow> 'g broker \<Rightarrow> relay \<Rightarrow> fleetQuestion \<Rightarrow> fleetAnswer" where
  "answer_of H s b r q =
    \<lparr>fa_Origin = rl_id r, fa_Request = fq_Request q, fa_Tenant = fq_Tenant q,
     fa_Connections = int (tenantConnections s (fq_Tenant q)),
     fa_Channels = fold (\<lambda>c. AList.update (requested (ch_name c)) (channel_part H c))
       (filter (asked_about q) (relay_channels b r)) []\<rparr>"

text \<open>The relay's own context has ended, or it has not.\<close>

definition relay_answer :: "('g, 's) hesape \<Rightarrow> bus \<Rightarrow> 'g registry \<Rightarrow> 'g broker \<Rightarrow> bool \<Rightarrow> string \<Rightarrow> relay \<Rightarrow> relay" where
  "relay_answer H B s b over payload r0 =
    (let r = recovered r0 in
     case unmarshal_question payload of
       None \<Rightarrow> warn ''joaju: the relay dropped a fleet question it could not decode'' r
     | Some q \<Rightarrow>
         if fq_Origin q = rl_id r then r
         else if fq_Origin q = [] \<or> fq_Request q = [] \<or> fq_Tenant q = [] then
           warn ''joaju: the relay dropped a fleet question that named no instance, no request or no tenant'' r
         else
           (case bus_Publish B (MetricsReplyTopic (fq_Origin q)) (marshal_answer (answer_of H s b r q)) r of
              (Inl err, r1) \<Rightarrow> if over then r1 else relay_fail ''answer the fleet'' zero_name r1
            | (Inr _, r1) \<Rightarrow> recovered r1))"

section \<open>Asking\<close>

definition relay_collect :: "string \<Rightarrow> relay \<Rightarrow> relay" where
  "relay_collect payload r0 =
    (let r = recovered r0 in
     case unmarshal_answer payload of
       None \<Rightarrow> warn ''joaju: the relay dropped a fleet answer it could not decode'' r
     | Some a \<Rightarrow>
         if fa_Request a = [] then warn ''joaju: the relay dropped a fleet answer that names no question'' r
         else case map_of (pending r) (fa_Request a) of
           None \<Rightarrow> r
         | Some waiting \<Rightarrow>
             if length waiting < fleetBacklog then r\<lparr>pending := AList.update (fa_Request a) (waiting @ [a]) (pending r)\<rparr>
             else warn ''joaju: the relay dropped a fleet answer it had no room for'' r)"

definition newRequestID :: "string \<Rightarrow> relay \<Rightarrow> string" where
  "newRequestID random r = rl_id r @ ''.'' @ random"

definition no_longer_waiting :: "string \<Rightarrow> relay \<Rightarrow> relay" where
  "no_longer_waiting request r = r\<lparr>pending := AList.delete request (pending r)\<rparr>"

text \<open>Up to the wait: the answer when there is nothing to wait for, or the request and how many answers to expect.\<close>

definition ask_start :: "('g, 's) hesape \<Rightarrow> bus \<Rightarrow> 'g \<Rightarrow> string \<Rightarrow> string \<Rightarrow> relay \<Rightarrow> (FleetTally + string \<times> nat) \<times> relay" where
  "ask_start H B g channel random r =
    (let T = auth_Tenant H g in
     if T = [] \<or> \<not> has_bus r \<or> degraded r then (Inl no_tally, r)
     else if rl_closed r then (Inl no_tally, r)
     else
       let request = newRequestID random r;
           r1 = r\<lparr>pending := AList.update request [] (pending r)\<rparr>;
           document = marshal_question \<lparr>fq_Origin = rl_id r, fq_Request = request, fq_Tenant = T, fq_Channel = channel\<rparr>
       in (case bus_Publish B MetricsTopic document r1 of
             (Inl err, r2) \<Rightarrow> (Inl no_tally, no_longer_waiting request (relay_fail ''ask the fleet'' zero_name r2))
           | (Inr heard, r2) \<Rightarrow>
               let r3 = recovered r2; expected = heard - 1 in
               if expected \<le> 0 then (Inl no_tally, no_longer_waiting request r3)
               else (Inr (request, nat expected), r3)))"

datatype wake = Heard string | Took | TimeUp

fun ask_loop :: "string \<Rightarrow> string \<Rightarrow> nat \<Rightarrow> wake list \<Rightarrow> FleetTally \<times> relay \<Rightarrow> FleetTally option \<times> relay" where
  "ask_loop T request 0 ws (t, r) = (Some t, no_longer_waiting request r)"
| "ask_loop T request (Suc n) [] (t, r) = (None, r)"
| "ask_loop T request (Suc n) (Heard payload # ws) (t, r) = ask_loop T request (Suc n) ws (t, relay_collect payload r)"
| "ask_loop T request (Suc n) (Took # ws) (t, r) =
    (case map_of (pending r) request of
       Some (a # waiting) \<Rightarrow>
         ask_loop T request n ws (tally_add (rl_id r) T a (t, r\<lparr>pending := AList.update request waiting (pending r)\<rparr>))
     | _ \<Rightarrow> ask_loop T request (Suc n) ws (t, r))"
| "ask_loop T request (Suc n) (TimeUp # ws) (t, r) = (Some t, no_longer_waiting request r)"

definition relay_ask :: "('g, 's) hesape \<Rightarrow> bus \<Rightarrow> 'g \<Rightarrow> string \<Rightarrow> string \<Rightarrow> wake list \<Rightarrow> relay \<Rightarrow> FleetTally option \<times> relay" where
  "relay_ask H B g channel random ws r =
    (case ask_start H B g channel random r of
       (Inl t, r1) \<Rightarrow> (Some t, r1)
     | (Inr (request, expected), r1) \<Rightarrow> ask_loop (auth_Tenant H g) request expected ws (no_tally, r1))"

text \<open>\<open>Server.Fleet\<close>: a server without a relay answers for itself alone.\<close>

definition Fleet :: "('g, 's) hesape \<Rightarrow> bus \<Rightarrow> 'g \<Rightarrow> string \<Rightarrow> string \<Rightarrow> wake list \<Rightarrow> relay option \<Rightarrow> FleetTally option \<times> relay option" where
  "Fleet H B g channel random ws rly =
    (case rly of
       None \<Rightarrow> (Some no_tally, None)
     | Some r \<Rightarrow> (case relay_ask H B g channel random ws r of (t, r1) \<Rightarrow> (t, Some r1)))"

section \<open>Adding up\<close>

definition counts :: "InstanceID \<Rightarrow> string \<Rightarrow> fleetAnswer \<Rightarrow> bool" where
  "counts mine T a \<longleftrightarrow> fa_Origin a \<noteq> mine \<and> fa_Tenant a = T"

definition part_of :: "fleetAnswer \<Rightarrow> string \<Rightarrow> channelAnswer" where
  "part_of a c = (case map_of (fa_Channels a) c of None \<Rightarrow> \<lparr>ca_Subscriptions = 0, ca_Users = []\<rparr> | Some p \<Rightarrow> p)"

definition answer_ok :: "fleetAnswer \<Rightarrow> bool" where
  "answer_ok a \<longleftrightarrow> distinct (map fst (fa_Channels a))"

lemma fold_insert: "set (fold List.insert xs ys) = set xs \<union> set ys" "distinct ys \<Longrightarrow> distinct (fold List.insert xs ys)"
  by (induction xs arbitrary: ys) auto

lemma add_channel_at:
  "tally_Channel (add_channel (k, one) t) c = (if c = k then
      \<lparr>ct_Subscriptions = go_int (ct_Subscriptions (tally_Channel t k) + ca_Subscriptions one),
       ct_Users = fold List.insert (filter (\<lambda>u. u \<noteq> []) (ca_Users one)) (ct_Users (tally_Channel t k))\<rparr> else tally_Channel t c)"
  "ft_Connections (add_channel (k, one) t) = ft_Connections t"
  by (simp_all add: add_channel_def tally_Channel_def Let_def update_conv')

lemma fold_add_channel_all:
  "distinct (map fst cs) \<Longrightarrow> ft_Connections (fold add_channel cs t) = ft_Connections t \<and>
    ct_Subscriptions (tally_Channel (fold add_channel cs t) c) =
      (case map_of cs c of None \<Rightarrow> ct_Subscriptions (tally_Channel t c) | Some p \<Rightarrow> go_int (ct_Subscriptions (tally_Channel t c) + ca_Subscriptions p)) \<and>
    set (ct_Users (tally_Channel (fold add_channel cs t) c)) =
      set (ct_Users (tally_Channel t c)) \<union> (case map_of cs c of None \<Rightarrow> {} | Some p \<Rightarrow> set (ca_Users p) - {[]}) \<and>
    (distinct (ct_Users (tally_Channel t c)) \<longrightarrow> distinct (ct_Users (tally_Channel (fold add_channel cs t) c)))"
proof (induction cs arbitrary: t)
  case (Cons p cs)
  obtain k one where p: "p = (k, one)" by force
  have m: "map_of cs k = None" using Cons.prems p by (simp add: map_of_eq_None_iff)
  show ?case
    using Cons.IH [of "add_channel (k, one) t"] Cons.prems p m
    by (auto simp: add_channel_at fold_insert split: option.splits if_splits)
qed simp

lemmas fold_add_channel = fold_add_channel_all [THEN conjunct1] fold_add_channel_all [THEN conjunct2, THEN conjunct1]
  fold_add_channel_all [THEN conjunct2, THEN conjunct2, THEN conjunct1] fold_add_channel_all [THEN conjunct2, THEN conjunct2, THEN conjunct2, rule_format]

lemma tally_add_at:
  assumes "answer_ok a"
  shows "ft_Connections (fst (tally_add mine T a (t, r))) = (if counts mine T a then go_int (ft_Connections t + fa_Connections a) else ft_Connections t)"
    "go_int (ct_Subscriptions (tally_Channel t c)) = ct_Subscriptions (tally_Channel t c) \<Longrightarrow>
      ct_Subscriptions (tally_Channel (fst (tally_add mine T a (t, r))) c) =
      (if counts mine T a then go_int (ct_Subscriptions (tally_Channel t c) + ca_Subscriptions (part_of a c)) else ct_Subscriptions (tally_Channel t c))"
    "set (ct_Users (tally_Channel (fst (tally_add mine T a (t, r))) c)) =
      set (ct_Users (tally_Channel t c)) \<union> (if counts mine T a then set (ca_Users (part_of a c)) - {[]} else {})"
    "distinct (ct_Users (tally_Channel t c)) \<Longrightarrow> distinct (ct_Users (tally_Channel (fst (tally_add mine T a (t, r))) c))"
  using assms fold_add_channel [of "fa_Channels a" "t\<lparr>ft_Connections := go_int (ft_Connections t + fa_Connections a)\<rparr>"]
  by (auto simp: tally_add_def counts_def answer_ok_def part_of_def tally_Channel_def split: option.splits)

lemma tally_sum_all:
  "\<forall>a \<in> set as. answer_ok a \<Longrightarrow> go_int (ft_Connections t) = ft_Connections t \<Longrightarrow>
    go_int (ct_Subscriptions (tally_Channel t c)) = ct_Subscriptions (tally_Channel t c) \<Longrightarrow>
    ft_Connections (fst (fold (tally_add mine T) as (t, r))) = go_int (ft_Connections t + sum_list (map fa_Connections (filter (counts mine T) as))) \<and>
    ct_Subscriptions (tally_Channel (fst (fold (tally_add mine T) as (t, r))) c) =
      go_int (ct_Subscriptions (tally_Channel t c) + sum_list (map (\<lambda>a. ca_Subscriptions (part_of a c)) (filter (counts mine T) as))) \<and>
    set (ct_Users (tally_Channel (fst (fold (tally_add mine T) as (t, r))) c)) =
      set (ct_Users (tally_Channel t c)) \<union> (\<Union>a \<in> set (filter (counts mine T) as). set (ca_Users (part_of a c)) - {[]}) \<and>
    (distinct (ct_Users (tally_Channel t c)) \<longrightarrow> distinct (ct_Users (tally_Channel (fst (fold (tally_add mine T) as (t, r))) c)))"
proof (induction as arbitrary: t r)
  case (Cons a as)
  obtain t1 r1 where x: "tally_add mine T a (t, r) = (t1, r1)" by force
  have one: "ft_Connections t1 = (if counts mine T a then go_int (ft_Connections t + fa_Connections a) else ft_Connections t)"
    "ct_Subscriptions (tally_Channel t1 c) =
      (if counts mine T a then go_int (ct_Subscriptions (tally_Channel t c) + ca_Subscriptions (part_of a c)) else ct_Subscriptions (tally_Channel t c))"
    "set (ct_Users (tally_Channel t1 c)) = set (ct_Users (tally_Channel t c)) \<union> (if counts mine T a then set (ca_Users (part_of a c)) - {[]} else {})"
    "distinct (ct_Users (tally_Channel t c)) \<Longrightarrow> distinct (ct_Users (tally_Channel t1 c))"
    using tally_add_at [where a = a and mine = mine and T = T and t = t and r = r] Cons.prems x by simp_all
  have "\<forall>a \<in> set as. answer_ok a" "go_int (ft_Connections t1) = ft_Connections t1"
    "go_int (ct_Subscriptions (tally_Channel t1 c)) = ct_Subscriptions (tally_Channel t1 c)" using Cons.prems one(1,2) by simp_all
  note IH = Cons.IH [OF this, of r1]
  have "fold (tally_add mine T) (a # as) (t, r) = fold (tally_add mine T) as (t1, r1)" using x by simp
  then show ?case using IH one by (simp only: filter.simps list.map sum_list.Cons set_simps) (auto simp: go_int_add add.assoc split: if_splits)
qed simp

lemmas tally_sum = tally_sum_all [THEN conjunct1] tally_sum_all [THEN conjunct2, THEN conjunct1]
  tally_sum_all [THEN conjunct2, THEN conjunct2, THEN conjunct1] tally_sum_all [THEN conjunct2, THEN conjunct2, THEN conjunct2, rule_format]

section \<open>What is written is read back\<close>

definition sendable_question :: "fleetQuestion \<Rightarrow> bool" where
  "sendable_question q \<longleftrightarrow> utf8 (fq_Origin q) \<and> utf8 (fq_Request q) \<and> utf8 (fq_Tenant q) \<and> utf8 (fq_Channel q)"

lemma field_names: "utf8 ''origin''" "utf8 ''request''" "utf8 ''tenant''" "utf8 ''channel''" "utf8 ''connections''" "utf8 ''channels''"
  "utf8 ''subscriptions''" "utf8 ''users''"
  by (auto intro!: ascii_utf8 simp: code_def of_char_def)

lemma field_of_same [simp]: "List.member fs k \<Longrightarrow> field_of fs k = Some k"
  by (simp add: field_of_def)

lemma question_roundtrip:
  assumes "sendable_question q"
  shows "unmarshal_question (marshal_question q) = Some q"
proof -
  let ?ms = "[(''origin'', json_string (fq_Origin q)), (''request'', json_string (fq_Request q)),
     (''tenant'', json_string (fq_Tenant q))] @ omitempty ''channel'' (fq_Channel q)"
  have v: "\<forall>(k, v) \<in> set ?ms. utf8 k \<and> value_at 9999 v"
    using assms field_names value_string by (auto simp: sendable_question_def omitempty_def)
  have "unquote (json_string (fq_Origin q)) = Some (fq_Origin q)" "unquote (json_string (fq_Request q)) = Some (fq_Request q)"
    "unquote (json_string (fq_Tenant q)) = Some (fq_Tenant q)" "unquote (json_string (fq_Channel q)) = Some (fq_Channel q)"
    using assms by (simp_all add: sendable_question_def unquote_json_string)
  then show ?thesis
    unfolding unmarshal_question_def marshal_question_def members_object [OF v]
    by (simp add: question_fields_def omitempty_def not_null)
qed

definition sendable_part :: "channelAnswer \<Rightarrow> bool" where
  "sendable_part p \<longleftrightarrow> - (2 ^ 63) \<le> ca_Subscriptions p \<and> ca_Subscriptions p < 2 ^ 63 \<and> (\<forall>u \<in> set (ca_Users p). utf8 u)"

definition sendable_answer :: "fleetAnswer \<Rightarrow> bool" where
  "sendable_answer a \<longleftrightarrow> utf8 (fa_Origin a) \<and> utf8 (fa_Request a) \<and> utf8 (fa_Tenant a) \<and> - (2 ^ 63) \<le> fa_Connections a \<and>
    fa_Connections a < 2 ^ 63 \<and> answer_ok a \<and> (\<forall>(k, p) \<in> set (fa_Channels a). utf8 k \<and> sendable_part p)"

lemma part_value:
  assumes "sendable_part p"
  shows "value_at (Suc (Suc d)) (marshal_part p)" "unmarshal_part (marshal_part p) = Some p"
proof -
  let ?ms = "[(''subscriptions'', int_string (ca_Subscriptions p))] @
     (if ca_Users p = [] then [] else [(''users'', json_array (map json_string (ca_Users p)))])"
  have arr: "value_at (Suc d) (json_array (map json_string (ca_Users p)))" for d
    by (rule value_array) (use assms in \<open>auto simp: sendable_part_def value_string\<close>)
  have v: "\<forall>(k, v) \<in> set ?ms. utf8 k \<and> value_at (Suc d) v" for d
    using field_names arr value_int by auto
  show "value_at (Suc (Suc d)) (marshal_part p)" unfolding marshal_part_def by (rule value_object [OF v])
  have nine: "Suc 9998 = 9999" by simp
  have v9: "\<forall>(k, v) \<in> set ?ms. utf8 k \<and> value_at 9999 v" using v [of 9998] unfolding nine .
  have el: "elements (json_array (map json_string (ca_Users p))) = Some (map json_string (ca_Users p))"
    by (rule elements_array) (use assms in \<open>auto simp: sendable_part_def value_string\<close>)
  have nn: "json_array (map json_string (ca_Users p)) \<noteq> ''null''" by (simp add: json_array_def)
  have "int_field part_fields ''subscriptions'' ?ms 0 = Some (ca_Subscriptions p)"
    using assms by (simp add: part_fields_def int_string_not_null ParseInt_string sendable_part_def)
  moreover have "strings_field part_fields ''users'' ?ms [] = Some (ca_Users p)"
    using assms by (simp add: part_fields_def el nn strings_into_texts sendable_part_def)
  ultimately show "unmarshal_part (marshal_part p) = Some p"
    unfolding unmarshal_part_def marshal_part_def members_object [OF v9] by simp
qed

lemma parts_into_map:
  assumes "\<forall>(k, p) \<in> set ps. sendable_part p"
  shows "parts_into old (map (\<lambda>(k, p). (k, marshal_part p)) ps) = Some (fold (\<lambda>(k, p). AList.update k p) ps old)"
  using assms by (induction ps arbitrary: old) (auto simp: part_value(2))

lemma map_of_fold_update: "map_of (fold (\<lambda>(k, p). AList.update k p) ps old) = map_of old ++ map_of (rev ps)"
  by (induction ps arbitrary: old) (auto simp: update_conv' fun_eq_iff map_add_def split: option.splits)

lemma distinct_fold_update: "distinct (map fst old) \<Longrightarrow> distinct (map fst (fold (\<lambda>(k, p). AList.update k p) ps old))"
  by (induction ps arbitrary: old) (auto simp: distinct_update)

lemma answer_roundtrip:
  assumes "sendable_answer a"
  obtains a' where "unmarshal_answer (marshal_answer a) = Some a'" "fa_Origin a' = fa_Origin a" "fa_Request a' = fa_Request a"
    "fa_Tenant a' = fa_Tenant a" "fa_Connections a' = fa_Connections a" "map_of (fa_Channels a') = map_of (fa_Channels a)" "answer_ok a'"
proof -
  define ps where "ps = map (\<lambda>k. (k, the (map_of (fa_Channels a) k))) (sort (map fst (fa_Channels a)))"
  have dist: "distinct (map fst (fa_Channels a))" using assms by (simp add: sendable_answer_def answer_ok_def)
  have names: "map fst ps = sort (map fst (fa_Channels a))" by (simp add: ps_def comp_def)
  have set: "set ps = set (fa_Channels a)"
  proof -
    have "(k, p) \<in> set ps \<longleftrightarrow> (k, p) \<in> set (fa_Channels a)" for k p
      using dist by (auto simp: ps_def dest: map_of_is_SomeI) (force dest: map_of_is_SomeI)
    then show ?thesis by auto
  qed
  have mo: "map_of ps = map_of (fa_Channels a)"
    using dist set names by (intro map_of_eqI) (auto simp: distinct_sort map_of_inject_set)
  have parts: "\<forall>(k, p) \<in> set ps. utf8 k \<and> sendable_part p" using assms set by (auto simp: sendable_answer_def)
  let ?cs = "map (\<lambda>(k, p). (k, marshal_part p)) ps"
  have cs: "map (\<lambda>k. (k, marshal_part (the (map_of (fa_Channels a) k)))) (sort (map fst (fa_Channels a))) = ?cs"
    by (simp add: ps_def comp_def)
  let ?ms = "[(''origin'', json_string (fa_Origin a)), (''request'', json_string (fa_Request a)),
     (''tenant'', json_string (fa_Tenant a)), (''connections'', int_string (fa_Connections a))] @
     (if fa_Channels a = [] then [] else [(''channels'', json_object ?cs)])"
  have vcs: "\<forall>(k, v) \<in> set ?cs. utf8 k \<and> value_at (Suc (Suc d)) v" for d using parts part_value(1) by auto
  have nines: "Suc (Suc (Suc 9996)) = 9999" "Suc (Suc 9997) = 9999" by simp_all
  have vo: "value_at 9999 (json_object ?cs)" using value_object [OF vcs [of 9996]] unfolding nines .
  have vc: "\<forall>(k, v) \<in> set ?cs. utf8 k \<and> value_at 9999 v" using vcs [of 9997] unfolding nines .
  have v: "\<forall>(k, v) \<in> set ?ms. utf8 k \<and> value_at 9999 v"
    using assms field_names value_string value_int vo by (auto simp: sendable_answer_def)
  let ?l = "if fa_Channels a = [] then [] else fold (\<lambda>(k, p). AList.update k p) ps []"
  have nn: "json_object ?cs \<noteq> ''null''" by (simp add: json_object_def)
  have pi: "parts_into [] ?cs = Some (fold (\<lambda>(k, p). AList.update k p) ps [])"
    by (rule parts_into_map) (use parts in auto)
  have "channels_field ?ms [] = Some ?l"
    using pi by (simp add: answer_fields_def nn members_object [OF vc])
  moreover have "string_field answer_fields ''origin'' ?ms [] = Some (fa_Origin a)" "string_field answer_fields ''request'' ?ms [] = Some (fa_Request a)"
    "string_field answer_fields ''tenant'' ?ms [] = Some (fa_Tenant a)" "int_field answer_fields ''connections'' ?ms 0 = Some (fa_Connections a)"
    using assms by (simp_all add: answer_fields_def not_null unquote_json_string ParseInt_string sendable_answer_def int_string_not_null)
  ultimately have "unmarshal_answer (marshal_answer a) = Some \<lparr>fa_Origin = fa_Origin a, fa_Request = fa_Request a, fa_Tenant = fa_Tenant a,
      fa_Connections = fa_Connections a, fa_Channels = ?l\<rparr>"
    unfolding unmarshal_answer_def marshal_answer_def cs members_object [OF v] by simp
  moreover have "map_of ?l = map_of (fa_Channels a)"
  proof -
    have "map_of (rev ps) = map_of ps"
      using names dist by (subst map_of_inject_set) (simp_all add: rev_map [symmetric])
    then show ?thesis using mo by (simp add: map_of_fold_update)
  qed
  moreover have "answer_ok \<lparr>fa_Origin = fa_Origin a, fa_Request = fa_Request a, fa_Tenant = fa_Tenant a, fa_Connections = fa_Connections a, fa_Channels = ?l\<rparr>"
    using distinct_fold_update [of "[]" ps] by (simp add: answer_ok_def)
  ultimately show ?thesis using that by simp
qed

section \<open>What an instance says\<close>

lemma fold_updates:
  "fold (\<lambda>c. AList.update (f c) (g c)) cs old = fold (\<lambda>(k, p). AList.update k p) (map (\<lambda>c. (f c, g c)) cs) old"
  by (induction cs arbitrary: old) simp_all

lemma answer_of_ok: "answer_ok (answer_of H s b r q)"
  using distinct_fold_update [of "[]"] by (simp add: answer_ok_def answer_of_def fold_updates)

lemma held_channels:
  assumes "in_step H (b, r)"
  shows "c \<in> set (relay_channels b r) \<longleftrightarrow> (\<exists>k ref. map_of (held b) k = Some ref \<and> c = heap b ! ref)"
proof -
  have "distinct (map fst (joined r))" and j: "\<And>t ref. map_of (joined r) t = Some ref \<longleftrightarrow> (\<exists>k. t = TopicPrefix @ k \<and> map_of (held b) k = Some ref)"
    using assms by (simp_all add: in_step_def)
  then have "(t, ref) \<in> set (joined r) \<longleftrightarrow> (\<exists>k. t = TopicPrefix @ k \<and> map_of (held b) k = Some ref)" for t ref
    by (metis map_of_eq_Some_iff)
  then show ?thesis by (force simp: relay_channels_def)
qed

lemma held_key:
  assumes "in_step H (b, r)" "plain_name n"
  shows "(\<exists>k ref. map_of (held b) k = Some ref \<and> ch_name (heap b ! ref) = n \<and> P ref) \<longleftrightarrow>
    (\<exists>ref. map_of (held b) (name_String H n) = Some ref \<and> P ref)"
proof -
  have ok: "broker_ok H b" "hesape_documented H" using assms(1) by (simp_all add: in_step_def)
  show ?thesis using broker_ok_held [OF ok(1)] key_plain [OF ok(2) assms(2)] by metis
qed

lemma answer_channels:
  assumes "in_step H (b, r)" "plain_name \<lparr>tenant = fq_Tenant q, requested = c\<rparr>"
  shows "map_of (fa_Channels (answer_of H s b r q)) c =
    (if fq_Channel q = [] \<or> fq_Channel q = c then
       map_option (\<lambda>ref. channel_part H (heap b ! ref)) (map_of (held b) (name_String H \<lparr>tenant = fq_Tenant q, requested = c\<rparr>))
     else None)"
proof -
  let ?n = "\<lparr>tenant = fq_Tenant q, requested = c\<rparr>"
  let ?cs = "filter (asked_about q) (relay_channels b r)"
  have ok: "broker_ok H b" "hesape_documented H" using assms(1) by (simp_all add: in_step_def)
  have m: "map_of (fa_Channels (answer_of H s b r q)) = map_of (rev (map (\<lambda>c. (requested (ch_name c), channel_part H c)) ?cs))"
    by (simp add: answer_of_def fold_updates map_of_fold_update)
  have nm: "ch_name y = ?n \<longleftrightarrow> tenant (ch_name y) = fq_Tenant q \<and> requested (ch_name y) = c" for y :: "'a channel"
    by (auto intro: name_eqI)
  have mem: "x \<in> set ?cs \<and> requested (ch_name x) = c \<longleftrightarrow> (fq_Channel q = [] \<or> fq_Channel q = c) \<and>
      (\<exists>ref. map_of (held b) (name_String H ?n) = Some ref \<and> x = heap b ! ref)" for x
  proof -
    have "x \<in> set ?cs \<and> requested (ch_name x) = c \<longleftrightarrow> (fq_Channel q = [] \<or> fq_Channel q = c) \<and>
        (\<exists>k ref. map_of (held b) k = Some ref \<and> ch_name (heap b ! ref) = ?n \<and> x = heap b ! ref)"
      using held_channels [OF assms(1)] by (auto simp: asked_about_def nm)
    then show ?thesis unfolding held_key [OF assms, of "\<lambda>ref. x = heap b ! ref"] .
  qed
  show ?thesis
  proof (cases "(fq_Channel q = [] \<or> fq_Channel q = c) \<and> map_of (held b) (name_String H ?n) \<noteq> None")
    case False
    then have "\<nexists>x. x \<in> set ?cs \<and> requested (ch_name x) = c" using mem by auto
    then have "c \<notin> fst ` set (rev (map (\<lambda>c. (requested (ch_name c), channel_part H c)) ?cs))" by auto
    then have "map_of (rev (map (\<lambda>c. (requested (ch_name c), channel_part H c)) ?cs)) c = None" by (simp add: map_of_eq_None_iff)
    then show ?thesis using False m by auto
  next
    case True
    then obtain ref where ref: "map_of (held b) (name_String H ?n) = Some ref" by auto
    then have in_cs: "heap b ! ref \<in> set ?cs \<and> requested (ch_name (heap b ! ref)) = c" using True mem by blast
    have only: "p = channel_part H (heap b ! ref)" if m_in: "(c, p) \<in> set (rev (map (\<lambda>c. (requested (ch_name c), channel_part H c)) ?cs))" for p
    proof -
      obtain x where x: "x \<in> set ?cs" "requested (ch_name x) = c" "p = channel_part H x" using m_in by auto
      then have "x = heap b ! ref" using mem [of x] ref by (metis option.inject)
      then show ?thesis using x(3) by simp
    qed
    have "c \<in> fst ` set (rev (map (\<lambda>c. (requested (ch_name c), channel_part H c)) ?cs))" using in_cs by force
    then obtain p where p: "map_of (rev (map (\<lambda>c. (requested (ch_name c), channel_part H c)) ?cs)) c = Some p"
      by (metis map_of_eq_None_iff option.exhaust)
    then have "p = channel_part H (heap b ! ref)" using only map_of_SomeD by metis
    then show ?thesis using True ref m p by simp
  qed
qed

text \<open>What a channel of its own says: its sockets and, on a presence channel, its people.\<close>

lemma channel_part_facts:
  assumes "channel_ok H c"
  shows "ca_Subscriptions (channel_part H c) = int (length (subscribers c))"
    "set (ca_Users (channel_part H c)) = (if Presence (name_Type H (ch_name c)) then people c else {})"
proof -
  have s: "set (Pusher_Channel.Connections c) = snd ` set (subscribers c)" "length (Pusher_Channel.Connections c) = length (subscribers c)"
    by (simp_all add: Pusher_Channel.Connections_def)
  show "ca_Subscriptions (channel_part H c) = int (length (subscribers c))" by (simp add: channel_part_def s Let_def)
  have "UserID (sub_Member x) \<noteq> []" if "Presence (name_Type H (ch_name c))" "x \<in> snd ` set (subscribers c)" for x
    using assms that by (auto simp: channel_ok_def seated_ok_def)
  then show "set (ca_Users (channel_part H c)) = (if Presence (name_Type H (ch_name c)) then people c else {})"
    by (auto simp: channel_part_def s people_def Let_def)
qed

text \<open>What may travel: every name the instance holds and every user id on it is UTF-8, and no count overflows.\<close>

definition telling :: "('g, 's) hesape \<Rightarrow> 'g registry \<Rightarrow> 'g broker \<Rightarrow> relay \<Rightarrow> fleetQuestion \<Rightarrow> bool" where
  "telling H s b r q \<longleftrightarrow> sendable_answer (answer_of H s b r q)"

lemma relay_answer_published:
  assumes "unmarshal_question payload = Some q" "fq_Origin q \<noteq> rl_id r" "fq_Origin q \<noteq> []" "fq_Request q \<noteq> []" "fq_Tenant q \<noteq> []"
  shows "published (relay_answer H B s b over payload r) =
    published r @ [(MetricsReplyTopic (fq_Origin q), marshal_answer (answer_of H s b r q))]"
proof -
  have "answer_of H s b (recovered r) q = answer_of H s b r q" by (simp add: answer_of_def relay_channels_def)
  then show ?thesis using assms by (auto simp: relay_answer_def bus_Publish_def Let_def split: sum.splits)
qed

section \<open>What a wait does\<close>

lemma relay_collect_fields [simp]: "rl_id (relay_collect payload r) = rl_id r"
  by (auto simp: relay_collect_def Let_def split: option.splits)

lemma tally_add_relay [simp]: "rl_id (snd (tally_add mine T a (t, r))) = rl_id r" "pending (snd (tally_add mine T a (t, r))) = pending r"
  by (auto simp: tally_add_def warn_def)

lemma collect_waiting:
  assumes "unmarshal_answer payload = Some a" "fa_Request a = request" "request \<noteq> []" "map_of (pending r) request = Some waiting" "length waiting < fleetBacklog"
  shows "relay_collect payload r = (recovered r)\<lparr>pending := AList.update request (waiting @ [a]) (pending r)\<rparr>"
  using assms by (simp add: relay_collect_def Let_def)

text \<open>One answer arrives and is taken.\<close>

lemma ask_one:
  assumes "unmarshal_answer payload = Some a" "fa_Request a = request" "request \<noteq> []" "map_of (pending r) request = Some []"
  shows "\<exists>r'. ask_loop T request (Suc n) (Heard payload # Took # ws) (t, r) =
      ask_loop T request n ws (fst (tally_add (rl_id r) T a (t, r)), r') \<and> rl_id r' = rl_id r \<and> map_of (pending r') request = Some []"
proof -
  let ?r1 = "(recovered r)\<lparr>pending := AList.update request [a] (pending r)\<rparr>"
  let ?r2 = "?r1\<lparr>pending := AList.update request [] (pending ?r1)\<rparr>"
  have c: "relay_collect payload r = ?r1" using collect_waiting [OF assms(1-4)] by (simp add: fleetBacklog_def)
  have f: "fst (tally_add (rl_id r) T a (t, ?r2)) = fst (tally_add (rl_id r) T a (t, r))" by (simp add: tally_add_def)
  have "ask_loop T request (Suc n) (Heard payload # Took # ws) (t, r) = ask_loop T request n ws (tally_add (rl_id r) T a (t, ?r2))"
    using c by (simp add: update_conv')
  also have "\<dots> = ask_loop T request n ws (fst (tally_add (rl_id r) T a (t, r)), snd (tally_add (rl_id r) T a (t, ?r2)))"
    using f by (metis prod.collapse)
  finally show ?thesis by (intro exI [of _ "snd (tally_add (rl_id r) T a (t, ?r2))"]) (simp add: update_conv')
qed

lemma ask_all:
  assumes "length ps = length as" "\<forall>i < length as. unmarshal_answer (ps ! i) = Some (as ! i) \<and> fa_Request (as ! i) = request"
    "request \<noteq> []" "map_of (pending r) request = Some []"
  shows "\<exists>r'. ask_loop T request (length as) (concat (map (\<lambda>p. [Heard p, Took]) ps)) (t, r) =
      (Some (fst (fold (tally_add (rl_id r) T) as (t, r))), no_longer_waiting request r')"
  using assms
proof (induction as arbitrary: ps t r)
  case Nil
  then show ?case by auto
next
  case (Cons a as)
  obtain p ps' where p: "ps = p # ps'" using Cons.prems(1) by (cases ps) auto
  have a: "unmarshal_answer p = Some a" "fa_Request a = request" using Cons.prems(2) p by (auto dest: spec [of _ 0])
  obtain r1 where one: "ask_loop T request (Suc (length as)) (Heard p # Took # concat (map (\<lambda>p. [Heard p, Took]) ps')) (t, r) =
      ask_loop T request (length as) (concat (map (\<lambda>p. [Heard p, Took]) ps')) (fst (tally_add (rl_id r) T a (t, r)), r1)"
    "rl_id r1 = rl_id r" "map_of (pending r1) request = Some []"
    using ask_one [OF a Cons.prems(3,4)] by blast
  have "length ps' = length as" "\<forall>i < length as. unmarshal_answer (ps' ! i) = Some (as ! i) \<and> fa_Request (as ! i) = request"
    using Cons.prems(1,2) p by (auto dest: spec [of _ "Suc _"])
  from Cons.IH [OF this Cons.prems(3) one(3), of "fst (tally_add (rl_id r) T a (t, r))"]
  obtain r2 where "ask_loop T request (length as) (concat (map (\<lambda>p. [Heard p, Took]) ps')) (fst (tally_add (rl_id r) T a (t, r)), r1) =
      (Some (fst (fold (tally_add (rl_id r) T) as (fst (tally_add (rl_id r) T a (t, r)), r1))), no_longer_waiting request r2)"
    using one(2) by auto
  moreover have "fst (fold (tally_add (rl_id r) T) as (x, y)) = fst (fold (tally_add (rl_id r) T) as (x, z))" for x y z
    by (induction as arbitrary: x y z) (auto simp: tally_add_def)
  ultimately show ?case using one(1) p by (metis (no_types, lifting) append_Cons append_Nil concat.simps(2) fold_simps(2) length_Cons list.simps(9) prod.collapse)
qed

section \<open>Properties\<close>

text \<open>Property C16. The tally is a sum and a union, of one tenant and of the others. Whatever answers arrive, the
  connections and the subscriptions of a channel are the sums over the answers that are about the
  grant's tenant and from another instance, as 64-bit integers add, so the sums themselves while they
  fit, and the members of a channel are the people those answers name, each once and in order; every
  other answer adds nothing.\<close>

theorem tally_is_sum_and_union:
  assumes "\<forall>a \<in> set as. answer_ok a"
  shows "(let t = fst (fold (tally_add mine T) as (no_tally, r)); told = filter (\<lambda>a. fa_Origin a \<noteq> mine \<and> fa_Tenant a = T) as;
      connections = sum_list (map fa_Connections told); subscriptions = sum_list (map (\<lambda>a. ca_Subscriptions (part_of a c)) told) in
    ft_Connections t = go_int connections \<and> (connections \<in> {- (2 ^ 63)..<2 ^ 63} \<longrightarrow> ft_Connections t = connections) \<and>
    ct_Subscriptions (tally_Channel t c) = go_int subscriptions \<and>
    (subscriptions \<in> {- (2 ^ 63)..<2 ^ 63} \<longrightarrow> ct_Subscriptions (tally_Channel t c) = subscriptions) \<and>
    set (Members (tally_Channel t c)) = (\<Union>a \<in> set told. set (ca_Users (part_of a c))) - {[]} \<and>
    sorted (Members (tally_Channel t c)) \<and> distinct (Members (tally_Channel t c)))"
proof -
  have f: "filter (\<lambda>a. fa_Origin a \<noteq> mine \<and> fa_Tenant a = T) as = filter (counts mine T) as" by (rule filter_cong) (simp_all add: counts_def)
  have t: "tally_Channel no_tally c = no_channel_tally" "ft_Connections no_tally = 0" by (simp_all add: tally_Channel_def no_tally_def)
  note s = tally_sum_all [OF assms, where mine = mine and T = T and t = no_tally and r = r and c = c, unfolded t no_channel_tally_def ChannelTally.simps]
  show ?thesis unfolding Let_def f using s go_int_fits by (auto simp: Members_def)
qed

text \<open>An instance says what it holds of the tenant it was asked about, and nothing else. While the
  relay is in step with the broker, a question of another instance is answered by one document, on
  the asker's own topic; it reads back as the number of sockets registered for that tenant and, for
  every name, the sockets and the people of the channel held under that tenant and that name, when
  the question was about every channel or about this one.\<close>

theorem instance_answers_what_it_holds:
  assumes "in_step H (b, r)" "registry_ok H (s, ph, obs)"
    and "sendable_question q" "fq_Origin q \<noteq> rl_id r" "fq_Origin q \<noteq> []" "fq_Request q \<noteq> []" "fq_Tenant q \<noteq> []"
    and "sendable_answer (answer_of H s b r q)"
    and "plain_name \<lparr>tenant = fq_Tenant q, requested = c\<rparr>"
  shows "\<exists>document a. published (relay_answer H B s b over (marshal_question q) r) = published r @ [(MetricsReplyTopic (fq_Origin q), document)] \<and>
    unmarshal_answer document = Some a \<and> fa_Origin a = rl_id r \<and> fa_Request a = fq_Request q \<and> fa_Tenant a = fq_Tenant q \<and>
    fa_Connections a = int (held_by H (fq_Tenant q) (conns s)) \<and>
    (case map_of (fa_Channels a) c of
       None \<Rightarrow> map_of (held b) (name_String H \<lparr>tenant = fq_Tenant q, requested = c\<rparr>) = None \<or> fq_Channel q \<notin> {[], c}
     | Some p \<Rightarrow> fq_Channel q \<in> {[], c} \<and> (\<exists>ref. map_of (held b) (name_String H \<lparr>tenant = fq_Tenant q, requested = c\<rparr>) = Some ref \<and>
         ca_Subscriptions p = int (length (subscribers (heap b ! ref))) \<and>
         set (ca_Users p) = (if Presence (name_Type H (ch_name (heap b ! ref))) then people (heap b ! ref) else {})))"
proof -
  let ?n = "\<lparr>tenant = fq_Tenant q, requested = c\<rparr>" and ?a = "answer_of H s b r q"
  obtain a where a: "unmarshal_answer (marshal_answer ?a) = Some a" "fa_Origin a = fa_Origin ?a" "fa_Request a = fa_Request ?a"
    "fa_Tenant a = fa_Tenant ?a" "fa_Connections a = fa_Connections ?a" "map_of (fa_Channels a) = map_of (fa_Channels ?a)"
    using answer_roundtrip [OF assms(8)] by metis
  have p: "published (relay_answer H B s b over (marshal_question q) r) = published r @ [(MetricsReplyTopic (fq_Origin q), marshal_answer ?a)]"
    by (rule relay_answer_published [OF question_roundtrip [OF assms(3)] assms(4-7)])
  have ok: "broker_ok H b" using assms(1) by (simp add: in_step_def)
  have "fa_Connections a = int (held_by H (fq_Tenant q) (conns s))"
    using a(5) registry_okD(4) [OF assms(2)] assms(7) by (simp add: answer_of_def tenantConnections_def)
  moreover have "case map_of (fa_Channels a) c of
       None \<Rightarrow> map_of (held b) (name_String H ?n) = None \<or> fq_Channel q \<notin> {[], c}
     | Some p \<Rightarrow> fq_Channel q \<in> {[], c} \<and> (\<exists>ref. map_of (held b) (name_String H ?n) = Some ref \<and>
         ca_Subscriptions p = int (length (subscribers (heap b ! ref))) \<and>
         set (ca_Users p) = (if Presence (name_Type H (ch_name (heap b ! ref))) then people (heap b ! ref) else {}))"
  proof (cases "map_of (held b) (name_String H ?n)")
    case None
    then show ?thesis using answer_channels [OF assms(1,9), of s] a(6) by simp
  next
    case (Some ref)
    note facts = channel_part_facts [OF broker_ok_held(3) [OF ok Some]]
    show ?thesis using answer_channels [OF assms(1,9), of s] a(6) Some facts by (simp split: if_split)
  qed
  ultimately show ?thesis using p a by (intro exI [of _ "marshal_answer ?a"] exI [of _ a]) (simp add: answer_of_def)
qed

text \<open>When everybody answers, the count is the fleet's. A question that reached some other instances
  comes back, once each of them has answered, with the sum of the sockets their registries hold for the
  grant's tenant, and with the question no longer pending.\<close>

theorem everybody_answers_gives_the_fleet:
  assumes "ask_start H B g [] random r = (Inr (request, length fleet), r1)" "request \<noteq> []"
    and "\<forall>(s, b, r') \<in> set fleet. rl_id r' \<noteq> rl_id r \<and>
      sendable_answer (answer_of H s b r' \<lparr>fq_Origin = rl_id r, fq_Request = request, fq_Tenant = auth_Tenant H g, fq_Channel = []\<rparr>)"
  shows "\<exists>t r2. relay_ask H B g [] random (concat (map (\<lambda>(s, b, r'). [Heard (marshal_answer (answer_of H s b r'
        \<lparr>fq_Origin = rl_id r, fq_Request = request, fq_Tenant = auth_Tenant H g, fq_Channel = []\<rparr>)), Took]) fleet)) r = (Some t, r2) \<and>
    ft_Connections t = go_int (\<Sum>(s, b, r') \<leftarrow> fleet. int (tenantConnections s (auth_Tenant H g))) \<and> map_of (pending r2) request = None"
proof -
  let ?q = "\<lparr>fq_Origin = rl_id r, fq_Request = request, fq_Tenant = auth_Tenant H g, fq_Channel = []\<rparr>"
  let ?A = "\<lambda>(s, b, r'). answer_of H s b r' ?q"
  have req: "rl_id r1 = rl_id r" "map_of (pending r1) request = Some []"
    using assms(1) by (auto simp: ask_start_def bus_Publish_def Let_def update_conv' split: if_splits sum.splits)
  have "\<exists>a. unmarshal_answer (marshal_answer (?A x)) = Some a \<and> fa_Request a = request \<and> fa_Origin a \<noteq> rl_id r \<and>
      fa_Tenant a = auth_Tenant H g \<and> fa_Connections a = fa_Connections (?A x) \<and> answer_ok a" if "x \<in> set fleet" for x
  proof -
    have x: "sendable_answer (?A x)" "fa_Origin (?A x) \<noteq> rl_id r" "fa_Request (?A x) = request" "fa_Tenant (?A x) = auth_Tenant H g"
      using assms(3) that by (auto simp: answer_of_def split: prod.splits)
    obtain a where "unmarshal_answer (marshal_answer (?A x)) = Some a" "fa_Origin a = fa_Origin (?A x)" "fa_Request a = fa_Request (?A x)"
      "fa_Tenant a = fa_Tenant (?A x)" "fa_Connections a = fa_Connections (?A x)" "answer_ok a"
      using answer_roundtrip [OF x(1)] by metis
    then show ?thesis using x by (intro exI [of _ a]) simp
  qed
  then obtain R where R: "\<forall>x \<in> set fleet. unmarshal_answer (marshal_answer (?A x)) = Some (R x) \<and> fa_Request (R x) = request \<and>
      fa_Origin (R x) \<noteq> rl_id r \<and> fa_Tenant (R x) = auth_Tenant H g \<and> fa_Connections (R x) = fa_Connections (?A x) \<and> answer_ok (R x)"
    by metis
  let ?as = "map R fleet" and ?ps = "map (\<lambda>x. marshal_answer (?A x)) fleet"
  have loop: "\<exists>r'. ask_loop (auth_Tenant H g) request (length ?as) (concat (map (\<lambda>p. [Heard p, Took]) ?ps)) (no_tally, r1) =
      (Some (fst (fold (tally_add (rl_id r1) (auth_Tenant H g)) ?as (no_tally, r1))), no_longer_waiting request r')"
    by (rule ask_all) (use R req assms(2) in auto)
  then obtain r' where r': "ask_loop (auth_Tenant H g) request (length fleet) (concat (map (\<lambda>p. [Heard p, Took]) ?ps)) (no_tally, r1) =
      (Some (fst (fold (tally_add (rl_id r) (auth_Tenant H g)) ?as (no_tally, r1))), no_longer_waiting request r')"
    using req(1) by auto
  have "filter (counts (rl_id r) (auth_Tenant H g)) ?as = ?as" using R by (auto simp: filter_id_conv counts_def)
  then have sum: "ft_Connections (fst (fold (tally_add (rl_id r) (auth_Tenant H g)) ?as (no_tally, r1))) = go_int (sum_list (map fa_Connections ?as))"
    using tally_sum(1) [of ?as no_tally "[]" "rl_id r" "auth_Tenant H g" r1] R by (simp add: no_tally_def tally_Channel_def no_channel_tally_def)
  have "map fa_Connections ?as = map (\<lambda>(s, b, r'). int (tenantConnections s (auth_Tenant H g))) fleet"
    using R by (auto simp: answer_of_def)
  moreover have ask: "relay_ask H B g [] random (concat (map (\<lambda>p. [Heard p, Took]) ?ps)) r =
      (Some (fst (fold (tally_add (rl_id r) (auth_Tenant H g)) ?as (no_tally, r1))), no_longer_waiting request r')"
    using assms(1) r' by (simp add: relay_ask_def)
  moreover have ps: "map (\<lambda>p. [Heard p, Took]) ?ps = map (\<lambda>(s, b, r'). [Heard (marshal_answer (answer_of H s b r' ?q)), Took]) fleet"
    by (auto simp: comp_def split_def)
  moreover have "map_of (pending (no_longer_waiting request r')) request = None" by (simp add: no_longer_waiting_def delete_conv')
  ultimately show ?thesis using sum by metis
qed

text \<open>A wait keeps the buffers within their bound, and touches the questions of nobody else.\<close>

definition waiting_ok :: "relay \<Rightarrow> bool" where
  "waiting_ok r \<longleftrightarrow> (\<forall>k waiting. map_of (pending r) k = Some waiting \<longrightarrow> length waiting \<le> fleetBacklog)"

lemma collect_keeps:
  assumes "waiting_ok r"
  shows "waiting_ok (relay_collect payload r)" "dom (map_of (pending (relay_collect payload r))) = dom (map_of (pending r))"
proof -
  have p: "pending (warn x (recovered r)) = pending r" for x by (simp add: warn_def)
  show "waiting_ok (relay_collect payload r)"
    using assms unfolding waiting_ok_def relay_collect_def Let_def by (auto simp: p update_conv' split: option.splits if_splits)
  show "dom (map_of (pending (relay_collect payload r))) = dom (map_of (pending r))"
    unfolding relay_collect_def Let_def by (auto simp: p update_conv' split: option.splits if_splits)
qed

lemma ask_loop_returns:
  assumes "TimeUp \<in> set ws" "waiting_ok r" "request \<in> dom (map_of (pending r))"
  shows "\<exists>t' r'. ask_loop T request n ws (t, r) = (Some t', no_longer_waiting request r') \<and> waiting_ok r' \<and>
    dom (map_of (pending r')) = dom (map_of (pending r))"
  using assms
proof (induction ws arbitrary: n t r)
  case (Cons w ws)
  note IH = Cons.IH and prems = Cons.prems
  show ?case
  proof (cases n)
    case 0
    then show ?thesis using Cons.prems by auto
  next
    case (Suc m)
    show ?thesis
    proof (cases w)
      case (Heard payload)
      then show ?thesis using Cons.IH [of "relay_collect payload r" "Suc m" t] Cons.prems Suc collect_keeps [OF Cons.prems(2)] by auto
    next
      case Took
      then have tu: "TimeUp \<in> set ws" using Cons.prems(1) by simp
      obtain waiting where w: "map_of (pending r) request = Some waiting" using Cons.prems(3) by auto
      show ?thesis
      proof (cases waiting)
        case Nil
        then show ?thesis using Cons.IH [OF tu Cons.prems(2,3), of "Suc m" t] Took Suc w by simp
      next
        case (Cons a rest)
        let ?r1 = "r\<lparr>pending := AList.update request rest (pending r)\<rparr>"
        let ?r2 = "snd (tally_add (rl_id r) T a (t, ?r1))"
        have "length rest \<le> fleetBacklog" using prems(2) w Cons unfolding waiting_ok_def by (auto dest!: spec [of _ request])
        then have k: "waiting_ok ?r2" "dom (map_of (pending ?r2)) = dom (map_of (pending r))"
          using prems(2) w by (auto simp: waiting_ok_def update_conv')
        have "ask_loop T request n (Took # ws) (t, r) = ask_loop T request m ws (fst (tally_add (rl_id r) T a (t, ?r1)), ?r2)"
          using Suc w Cons by simp
        then show ?thesis
          using IH [OF tu k(1), of m "fst (tally_add (rl_id r) T a (t, ?r1))"] k(2) Took prems(3) by simp
      qed
    next
      case TimeUp
      then show ?thesis using Suc Cons.prems by auto
    qed
  qed
qed simp

text \<open>Property C17. A question comes back. Whatever the fleet answers, and however the answers interleave with the
  reading of them, a question whose time runs out has returned by then; it is no longer pending, no
  buffer holds more answers than it may, and the questions of others are as they were.\<close>

theorem a_question_comes_back:
  assumes "TimeUp \<in> set ws" "waiting_ok r" "map_of (pending r) (newRequestID random r) = None"
  shows "\<exists>t r'. relay_ask H B g channel random ws r = (Some t, r') \<and> waiting_ok r' \<and>
    dom (map_of (pending r')) = dom (map_of (pending r))"
proof (cases "ask_start H B g channel random r")
  case (Pair x r1)
  let ?q = "newRequestID random r"
  have del: "waiting_ok (no_longer_waiting k y)" if "waiting_ok y" for k y
    using that by (auto simp: waiting_ok_def no_longer_waiting_def delete_conv')
  show ?thesis
  proof (cases x)
    case (Inl t)
    have "waiting_ok r1 \<and> dom (map_of (pending r1)) = dom (map_of (pending r))"
      using Pair Inl assms(2,3)
      by (auto simp: ask_start_def bus_Publish_def Let_def no_longer_waiting_def waiting_ok_def update_conv' delete_conv'
          split: if_splits sum.splits)
    then show ?thesis using Pair Inl by (auto simp: relay_ask_def)
  next
    case (Inr y)
    then obtain n where y: "x = Inr (?q, n)" "pending r1 = AList.update ?q [] (pending r)"
      using Pair by (auto simp: ask_start_def bus_Publish_def Let_def split: if_splits sum.splits)
    then have "waiting_ok r1" "?q \<in> dom (map_of (pending r1))" "dom (map_of (pending r1)) = insert ?q (dom (map_of (pending r)))"
      using assms(2) by (auto simp: waiting_ok_def update_conv')
    from ask_loop_returns [OF assms(1) this(1,2), of "auth_Tenant H g" n no_tally] this(3)
    obtain t r' where "ask_loop (auth_Tenant H g) ?q n ws (no_tally, r1) = (Some t, no_longer_waiting ?q r')" "waiting_ok r'"
      "dom (map_of (pending r')) = insert ?q (dom (map_of (pending r)))" by auto
    then show ?thesis
      using Pair y(1) assms(3) del by (auto simp: relay_ask_def no_longer_waiting_def delete_conv')
  qed
qed

section \<open>Two instances\<close>

definition lone :: "InstanceID \<Rightarrow> relay" where
  "lone i = \<lparr>rl_id = i, has_bus = True, degraded = False, joined = [], listeners = [], rl_closed = False, attached = True,
     rl_wait = DefaultMetricsTimeout, pending = [], published = [], lines = []\<rparr>"

lemma lone_in_step: "in_step sample_hesape (NewMemoryBroker, lone i)"
  using NewMemoryBroker_ok [of sample_hesape] sample_documented by (simp add: in_step_def lone_def live_def NewMemoryBroker_def)

definition the_question :: fleetQuestion where
  "the_question = \<lparr>fq_Origin = ''a'', fq_Request = ''a.x'', fq_Tenant = ''acme'', fq_Channel = []\<rparr>"

lemma small_names: "utf8 ''a''" "utf8 ''a.x''" "utf8 ''acme''" "utf8 ''b''" "utf8 []"
  by (rule ascii_utf8, simp add: code_def of_char_def)+

lemma lone_answer: "sendable_answer (answer_of sample_hesape (new_registry 5) NewMemoryBroker (lone ''b'') the_question)"
  using small_names answer_of_ok [of sample_hesape "new_registry 5" NewMemoryBroker "lone ''b''" the_question]
  by (simp add: sendable_answer_def answer_of_def lone_def the_question_def relay_channels_def tenantConnections_def new_registry_def)

theorem tally_is_sum_and_union_witness:
  "\<exists>a a'. answer_ok a \<and> answer_ok a' \<and> fa_Tenant a \<noteq> fa_Tenant a' \<and>
    ft_Connections (fst (fold (tally_add ''b'' ''acme'') [a, a'] (no_tally, lone ''b''))) = 3"
proof -
  let ?a = "\<lparr>fa_Origin = ''a'', fa_Request = ''b.x'', fa_Tenant = ''acme'', fa_Connections = 3, fa_Channels = []\<rparr>"
  let ?b = "\<lparr>fa_Origin = ''c'', fa_Request = ''b.x'', fa_Tenant = ''globex'', fa_Connections = 9, fa_Channels = []\<rparr>"
  have "answer_ok ?a" "answer_ok ?b" by (simp_all add: answer_ok_def)
  then show ?thesis
    using tally_is_sum_and_union [of "[?a, ?b]" "''b''" "''acme''" "lone ''b''" "[]"]
    by (intro exI [of _ ?a] exI [of _ ?b]) (simp add: Let_def)
qed

theorem instance_answers_what_it_holds_witness:
  "\<exists>document a. unmarshal_answer document = Some a \<and> fa_Tenant a = ''acme'' \<and> fa_Connections a = 0"
proof -
  have q: "sendable_question the_question" "fq_Origin the_question \<noteq> rl_id (lone ''b'')" "fq_Origin the_question \<noteq> []"
    "fq_Request the_question \<noteq> []" "fq_Tenant the_question \<noteq> []" "fq_Tenant the_question = ''acme''"
    using small_names by (simp_all add: sendable_question_def the_question_def lone_def)
  have r: "registry_ok sample_hesape (new_registry 5, (\<lambda>_. Absent), [])"
    by (simp add: registry_ok_def new_registry_def held_by_def reason_defs)
  have n: "plain_name \<lparr>tenant = fq_Tenant the_question, requested = ''room''\<rparr>" by (simp add: plain_name_def IsZero_def q(6))
  have "held_by sample_hesape ''acme'' (conns (new_registry 5)) = 0" by (simp add: held_by_def new_registry_def)
  with instance_answers_what_it_holds [OF lone_in_step r q(1-5) lone_answer n, of "\<lambda>_ _ _. Inr 1" False] q(6)
  show ?thesis by auto
qed

theorem everybody_answers_gives_the_fleet_witness:
  "\<exists>t r2 ws. relay_ask sample_hesape (\<lambda>_ _ _. Inr 2) (join_grant ''acme'' ''ana'') [] ''x'' ws (lone ''a'') = (Some t, r2) \<and> ft_Connections t = 0"
proof -
  let ?fleet = "[(new_registry 5 :: sample_grant registry, NewMemoryBroker :: sample_grant broker, lone ''b'')]"
  have T: "auth_Tenant sample_hesape (join_grant ''acme'' ''ana'') = ''acme''" by (simp add: sample_facts)
  obtain r1 where s: "ask_start sample_hesape (\<lambda>_ _ _. Inr 2) (join_grant ''acme'' ''ana'') [] ''x'' (lone ''a'') = (Inr (''a.x'', length ?fleet), r1)"
    by (simp add: ask_start_def T lone_def newRequestID_def bus_Publish_def Let_def)
  from everybody_answers_gives_the_fleet [where fleet = ?fleet and request = "''a.x''", OF s] lone_answer
  show ?thesis by (fastforce simp: T lone_def the_question_def tenantConnections_def new_registry_def)
qed

theorem a_question_comes_back_witness:
  "\<exists>t r'. relay_ask sample_hesape (\<lambda>_ _ _. Inr 2) (join_grant ''acme'' ''ana'') [] ''x'' [Heard ''{}'', Took, TimeUp] (lone ''a'') = (Some t, r') \<and>
    dom (map_of (pending r')) = {}"
  using a_question_comes_back [of "[Heard ''{}'', Took, TimeUp]" "lone ''a''" "''x''" sample_hesape "\<lambda>_ _ _. Inr 2" "join_grant ''acme'' ''ana''" "[]"]
  by (auto simp: waiting_ok_def lone_def)

end
