(* ===== verification/Go_Http.thy ===== *)
theory Go_Http
  imports Json_Values "HOL-Library.AList"
begin

text \<open>
  What the routes use of the standard library to read a request: the media type of a header, as
  \<open>mime.ParseMediaType\<close> reads it, and the first value of a body, as \<open>json.Decoder\<close> reads it behind
  \<open>http.MaxBytesReader\<close>.
\<close>

section \<open>Media types\<close>

definition is_tspecial :: "char \<Rightarrow> bool" where
  "is_tspecial c \<longleftrightarrow> c \<in> set ''()<>@,;:/[]?='' \<or> c = quot \<or> c = bslash"

definition is_token_char :: "char \<Rightarrow> bool" where
  "is_token_char c \<longleftrightarrow> 0x20 < code c \<and> code c < 0x7f \<and> \<not> is_tspecial c"

definition consumeToken :: "string \<Rightarrow> string \<times> string" where
  "consumeToken v = (takeWhile is_token_char v, dropWhile is_token_char v)"

text \<open>
  \<open>strings.ToLower\<close>: the ASCII letters, and the two letters outside ASCII whose lower case is an
  ASCII letter. Any other letter outside ASCII stays outside, which is all the callers ask about.
\<close>

fun ToLower :: "string \<Rightarrow> string" where
  "ToLower [] = []"
| "ToLower (c # s) =
    (if 0x41 \<le> code c \<and> code c \<le> 0x5a then char_of (code c + 32) # ToLower s
     else if c = CHR 0xC4 \<and> take 1 s = [CHR 0xB0] then CHR ''i'' # ToLower (drop 1 s)
     else if c = CHR 0xE2 \<and> take 2 s = [CHR 0x84, CHR 0xAA] then CHR ''k'' # ToLower (drop 2 s)
     else c # ToLower s)"

text \<open>The rest of a quoted string: its contents and what follows the closing quote.\<close>

fun quoted_value :: "string \<Rightarrow> (string \<times> string) option" where
  "quoted_value [] = None"
| "quoted_value (c # s) =
    (if c = quot then Some ([], s)
     else if c = bslash \<and> (case s of e # _ \<Rightarrow> is_tspecial e | [] \<Rightarrow> False) then
       map_option (\<lambda>(v, r). (hd s # v, r)) (quoted_value (tl s))
     else if c = CHR 0x0D \<or> c = CHR 0x0A then None
     else map_option (\<lambda>(v, r). (c # v, r)) (quoted_value s))"

definition consumeValue :: "string \<Rightarrow> string \<times> string" where
  "consumeValue v =
    (case v of
       [] \<Rightarrow> ([], [])
     | c # s \<Rightarrow>
         if c \<noteq> quot then consumeToken v
         else case quoted_value s of None \<Rightarrow> ([], v) | Some p \<Rightarrow> p)"

text \<open>A parameter, its value and the rest; \<open>None\<close> when the text does not begin with one.\<close>

definition consumeMediaParam :: "string \<Rightarrow> (string \<times> string \<times> string) option" where
  "consumeMediaParam v =
    (case trim_left v of
       c # r \<Rightarrow>
         if c \<noteq> CHR '';'' then None
         else
           let (param, r1) = consumeToken (trim_left r) in
           if param = [] then None
           else (case trim_left r1 of
             e # r2 \<Rightarrow>
               if e \<noteq> CHR ''='' then None
               else
                 let r3 = trim_left r2; (value, r4) = consumeValue r3 in
                 if value = [] \<and> r4 = r3 then None else Some (ToLower param, value, r4)
           | [] \<Rightarrow> None)
     | [] \<Rightarrow> None)"

lemma quoted_value_rest: "quoted_value s = Some (v, r) \<Longrightarrow> length r < length s"
proof (induction s arbitrary: v r rule: quoted_value.induct)
  case (2 c s)
  then show ?case by (fastforce split: if_splits list.splits)
qed simp

lemma consumeValue_rest: "length (snd (consumeValue v)) \<le> length v"
proof (cases v)
  case (Cons c s)
  show ?thesis
  proof (cases "quoted_value s")
    case None
    then show ?thesis using Cons by (simp add: consumeValue_def consumeToken_def length_dropWhile_le le_SucI)
  next
    case (Some p)
    then have "length (snd p) < length s" using quoted_value_rest [of s "fst p" "snd p"] by simp
    then show ?thesis using Cons Some by (simp add: consumeValue_def consumeToken_def length_dropWhile_le le_SucI)
  qed
qed (simp add: consumeValue_def)

lemma trim_left_le: "length (trim_left s) \<le> length s"
proof (induction s rule: trim_left.induct)
  case (1 s)
  show ?case
  proof (cases "List.find (\<lambda>p. is_prefix p s) spaces")
    case None
    then show ?thesis by (simp add: trim_left.simps [of s])
  next
    case (Some p)
    then show ?thesis using 1 [OF Some] by (simp add: trim_left.simps [of s])
  qed
qed

lemma consumeMediaParam_rest:
  assumes "consumeMediaParam v = Some (k, x, r)"
  shows "length r < length v"
proof -
  obtain c r0 e r2 where l: "trim_left v = c # r0" "trim_left (snd (consumeToken (trim_left r0))) = e # r2"
    "r = snd (consumeValue (trim_left r2))"
    using assms by (auto simp: consumeMediaParam_def Let_def split: list.splits if_splits prod.splits)
  have "length r \<le> length r2" using consumeValue_rest [of "trim_left r2"] trim_left_le [of r2] l(3) by simp
  also have "\<dots> < length (e # r2)" by simp
  also have "\<dots> \<le> length (snd (consumeToken (trim_left r0)))" using trim_left_le [of "snd (consumeToken (trim_left r0))"] l(2) by simp
  also have "\<dots> \<le> length r0" using trim_left_le [of r0] length_dropWhile_le [of is_token_char "trim_left r0"] by (simp add: consumeToken_def)
  also have "\<dots> < length v" using trim_left_le [of v] l(1) by simp
  finally show ?thesis by simp
qed

text \<open>
  The parameters have to be well formed, and one given twice has to be given the same value. A
  parameter that is continued over several keeps its parts apart by their whole names.
\<close>

function media_params :: "(string \<times> string) list \<Rightarrow> string \<Rightarrow> bool" where
  "media_params seen v =
    (let v1 = trim_left v in
     if v1 = [] then True
     else case consumeMediaParam v1 of
       None \<Rightarrow> TrimSpace v1 = '';''
     | Some (k, x, r) \<Rightarrow>
         if map_of seen k \<noteq> None \<and> map_of seen k \<noteq> Some x then False
         else media_params (AList.update k x seen) r)"
  by pat_completeness auto
termination
proof (relation "measure (length \<circ> snd)", goal_cases)
  case (2 seen v v1 a k x' x r)
  then show ?case using consumeMediaParam_rest [of v1 k x r] trim_left_le [of v] by simp
qed simp

declare media_params.simps [simp del]

definition checkMediaTypeDisposition :: "string \<Rightarrow> bool" where
  "checkMediaTypeDisposition s =
    (let (typ, r) = consumeToken s in
     typ \<noteq> [] \<and>
     (r = [] \<or> (hd r = CHR ''/'' \<and> (let (sub, r1) = consumeToken (tl r) in sub \<noteq> [] \<and> r1 = []))))"

text \<open>The media type of a header that reads without an error.\<close>

definition ParseMediaType :: "string \<Rightarrow> string option" where
  "ParseMediaType v =
    (let base = takeWhile (\<lambda>c. c \<noteq> CHR '';'') v;
         mediatype = TrimSpace (ToLower base)
     in if checkMediaTypeDisposition mediatype \<and> media_params [] (drop (length base) v) then Some mediatype else None)"

section \<open>Bodies\<close>

text \<open>
  A body is what arrives before the sender ends it, or before the connection breaks. The reader in
  front of it hands out at most so many bytes and then an error, unless the body ends there. The
  decoder takes the first value: it sees the end of an object or an array at its closing bracket,
  and the end of any other value only by the byte or the end of input that follows it.
\<close>

datatype body = Whole string | Cut string

definition limited :: "int \<Rightarrow> body \<Rightarrow> string \<times> bool" where
  "limited n b =
    (case b of
       Whole s \<Rightarrow> (if int (length s) \<le> max 0 n then (s, True) else (take (nat n) s, False))
     | Cut s \<Rightarrow> (take (nat n) s, False))"

definition first_value :: "string \<times> bool \<Rightarrow> string option" where
  "first_value = (\<lambda>(s, ends).
    (case scan_value maxNestingDepth (skip_ws s) of
       None \<Rightarrow> None
     | Some r \<Rightarrow>
         if r = [] \<and> \<not> ends \<and> hd (skip_ws s) \<notin> {CHR ''{'', CHR ''[''} then None
         else Some (taken (skip_ws s) r)))"

end
