(* ===== verification/Pusher_Routes.thy ===== *)
theory Pusher_Routes
  imports Pusher_Answers Joaju_Metrics Go_Http
begin

text \<open>
  \<^verbatim>\<open>protocols/pusher/routes.go\<close>: the HTTP half of the protocol. Every route asks who may operate
  the server before it reads anything, every channel a route touches is asked about on its own, and
  every name is built under the grant of the operator. A handler is a function of the request and of
  the state behind the API: the protocol's broker with what was sent and carried, the registry of
  sockets, the questions the two policies and the other instances were asked, and the log. Which
  pattern a request matched and the values of its path are \<open>net/http\<close>'s and part of the request;
  what the other instances answer is a parameter, the function \<open>Fleet\<close> of the server.
\<close>

section \<open>Requests and answers\<close>

definition RouteEvents :: string where "RouteEvents = ''POST /apps/{appId}/events''"
definition RouteBatchEvents :: string where "RouteBatchEvents = ''POST /apps/{appId}/batch_events''"
definition RouteConnections :: string where "RouteConnections = ''GET /apps/{appId}/connections''"
definition RouteChannels :: string where "RouteChannels = ''GET /apps/{appId}/channels''"
definition RouteChannel :: string where "RouteChannel = ''GET /apps/{appId}/channels/{channel}''"
definition RouteChannelUsers :: string where "RouteChannelUsers = ''GET /apps/{appId}/channels/{channel}/users''"
definition RouteTerminateConnections :: string where
  "RouteTerminateConnections = ''POST /apps/{appId}/users/{userId}/terminate_connections''"

lemmas route_defs = RouteEvents_def RouteBatchEvents_def RouteConnections_def RouteChannels_def RouteChannel_def
  RouteChannelUsers_def RouteTerminateConnections_def

text \<open>The subject is the one the context carries, if it carries one.\<close>

record 's api_request =
  hr_appId :: string
  hr_channel :: string
  hr_userId :: string
  hr_subject :: "'s option"
  hr_Origin :: string
  hr_ContentType :: string
  hr_Body :: body

record api_response =
  rs_ContentType :: string
  rs_Status :: int
  rs_Body :: string

record ('g, 's) API =
  api_env :: "('g, 's) pusher_env"
  api_AppID :: string
  api_Operate :: "(Operation list \<Rightarrow> 's \<Rightarrow> string \<Rightarrow> Operation \<Rightarrow> jerr + 'g) option"
  api_Subscribe :: "('g, 's) policy"
  api_Fleet :: "('g \<times> string) list \<Rightarrow> 'g \<Rightarrow> string \<Rightarrow> FleetTally"
  api_MaxBodySize :: int

record 'g api_state =
  st_pusher :: "'g pusher"
  st_registry :: "'g registry"
  st_operated :: "Operation list"
  st_fleet :: "('g \<times> string) list"
  st_log :: "(int \<times> jerr) list"

abbreviation api_hes :: "('g, 's) API \<Rightarrow> ('g, 's) hesape" where
  "api_hes A \<equiv> hes (api_env A)"

text \<open>The encoder ends what it writes with a newline.\<close>

definition writeJSON :: "int \<Rightarrow> string \<Rightarrow> api_response" where
  "writeJSON status b = \<lparr>rs_ContentType = ''application/json; charset=utf-8'', rs_Status = status, rs_Body = b @ [CHR 0x0A]\<rparr>"

definition json_bool :: "bool \<Rightarrow> string" where
  "json_bool b = (if b then ''true'' else ''false'')"

definition api_refuse :: "int \<Rightarrow> string \<Rightarrow> jerr option \<Rightarrow> 'g api_state \<Rightarrow> api_response \<times> 'g api_state" where
  "api_refuse status message err st =
    (writeJSON status (json_object [(''message'', json_string message)]),
     case err of None \<Rightarrow> st | Some e \<Rightarrow> st\<lparr>st_log := st_log st @ [(status, e)]\<rparr>)"

definition api_fail :: "jerr \<Rightarrow> 'g api_state \<Rightarrow> api_response \<times> 'g api_state" where
  "api_fail err st =
    (if is_forbidden err then api_refuse 403 ''Forbidden.'' (Some err) st
     else if is_no_channel err then api_refuse 404 ''Unknown channel.'' (Some err) st
     else api_refuse 400 ''The request could not be served.'' (Some err) st)"

section \<open>Who may call, and which channel\<close>

definition enter :: "('g, 's) API \<Rightarrow> 's api_request \<Rightarrow> string \<Rightarrow> 'g api_state \<Rightarrow> (api_response + 'g) \<times> 'g api_state" where
  "enter A r route st =
    (if hr_appId r \<noteq> api_AppID A then map_prod Inl id (api_refuse 404 ''Unknown app.'' None st)
     else case hr_subject r of
       None \<Rightarrow> map_prod Inl id (api_refuse 401 ''Unauthenticated.'' None st)
     | Some s \<Rightarrow>
         (case api_Operate A of
            None \<Rightarrow> map_prod Inl id (api_fail ErrForbidden st)
          | Some policy \<Rightarrow>
              let question = \<lparr>op_Route = route, op_Origin = hr_Origin r\<rparr>;
                  st1 = st\<lparr>st_operated := st_operated st @ [question]\<rparr>
              in (case policy (st_operated st) s Operate question of
                    Inl err \<Rightarrow> map_prod Inl id (api_fail err st1)
                  | Inr g \<Rightarrow> (Inr g, st1))))"

text \<open>A subscription nobody's socket asks for: the channel and nothing else.\<close>

definition about :: "ChannelName \<Rightarrow> Subscription" where
  "about n = \<lparr>subs_Channel = n, subs_Member = no_member, subs_Socket = [], subs_Auth = [], subs_ChannelData = []\<rparr>"

definition route_reach :: "('g, 's) API \<Rightarrow> 's \<Rightarrow> ChannelName \<Rightarrow> 'g pusher \<Rightarrow> (jerr + 'g) \<times> 'g pusher" where
  "route_reach A s name p =
    (api_Subscribe A (asked p) s (ChannelJoin (api_hes A)) (about name), p\<lparr>asked := asked p @ [about name]\<rparr>)"

definition route_find :: "('g, 's) API \<Rightarrow> 's api_request \<Rightarrow> string \<Rightarrow> 'g api_state \<Rightarrow>
    (api_response + nat \<times> 'g) \<times> 'g api_state" where
  "route_find A r route st =
    (case enter A r route st of
       (Inl resp, st1) \<Rightarrow> (Inl resp, st1)
     | (Inr connected, st1) \<Rightarrow>
         (case NewChannelName (api_hes A) connected (hr_channel r) of
            Inl err \<Rightarrow> map_prod Inl id (api_fail err st1)
          | Inr name \<Rightarrow>
              (case route_reach A (Subject (api_hes A) connected) name (st_pusher st1) of
                 (Inl err, p) \<Rightarrow> map_prod Inl id (api_fail err (st1\<lparr>st_pusher := p\<rparr>))
               | (Inr grant, p) \<Rightarrow>
                   (case Find (api_hes A) grant name (brk p) of
                      Inl err \<Rightarrow> map_prod Inl id (api_fail err (st1\<lparr>st_pusher := p\<rparr>))
                    | Inr chan \<Rightarrow> (Inr (chan, grant), st1\<lparr>st_pusher := p\<rparr>)))))"

text \<open>One question to the other instances.\<close>

definition ask_fleet :: "('g, 's) API \<Rightarrow> 'g \<Rightarrow> string \<Rightarrow> 'g api_state \<Rightarrow> FleetTally \<times> 'g api_state" where
  "ask_fleet A g channel st = (api_Fleet A (st_fleet st) g channel, st\<lparr>st_fleet := st_fleet st @ [(g, channel)]\<rparr>)"

section \<open>Reading a body\<close>

definition declaresJSON :: "'s api_request \<Rightarrow> bool" where
  "declaresJSON r \<longleftrightarrow> ParseMediaType (hr_ContentType r) = Some ''application/json''"

text \<open>The first value of the body, of a request that says it is JSON, read into what the route reads.\<close>

definition decode :: "('g, 's) API \<Rightarrow> (string \<Rightarrow> 'b option) \<Rightarrow> 's api_request \<Rightarrow> 'g api_state \<Rightarrow> (api_response + 'b) \<times> 'g api_state" where
  "decode A into r st =
    (if \<not> declaresJSON r then
       map_prod Inl id (api_refuse 415 ''The body has to be application/json.'' (Some (ErrOther ''joaju: the Content-Type is not one this route reads'')) st)
     else case Option.bind (first_value (limited (api_MaxBodySize A) (hr_Body r))) into of
       None \<Rightarrow> map_prod Inl id (api_refuse 400 ''The body is not the JSON this route reads.'' (Some (ErrOther ''json'')) st)
     | Some b \<Rightarrow> (Inr b, st))"

record publishRequest =
  pb_Name :: string
  pb_Data :: string
  pb_Channel :: string
  pb_Channels :: "string list"
  pb_SocketID :: string

definition publish_fields :: "string list" where
  "publish_fields = [''name'', ''data'', ''channel'', ''channels'', ''socket_id'']"

definition no_request :: publishRequest where
  "no_request = \<lparr>pb_Name = [], pb_Data = [], pb_Channel = [], pb_Channels = [], pb_SocketID = []\<rparr>"

definition request_into :: "publishRequest \<Rightarrow> string \<Rightarrow> publishRequest option" where
  "request_into old v =
    (case members v of None \<Rightarrow> None
     | Some ms \<Rightarrow>
        let str = (\<lambda>f x. string_field publish_fields f ms x) in
        (case (str ''name'' (pb_Name old), str ''data'' (pb_Data old), str ''channel'' (pb_Channel old),
               strings_field publish_fields ''channels'' ms (pb_Channels old), str ''socket_id'' (pb_SocketID old)) of
           (Some n, Some d, Some c, Some cs, Some sid) \<Rightarrow>
             Some \<lparr>pb_Name = n, pb_Data = d, pb_Channel = c, pb_Channels = cs, pb_SocketID = sid\<rparr>
         | _ \<Rightarrow> None))"

text \<open>The batch, element by element over what the slice already holds.\<close>

fun requests_into :: "publishRequest list \<Rightarrow> string list \<Rightarrow> publishRequest list option" where
  "requests_into old [] = Some []"
| "requests_into old (v # vs) =
    (case request_into (case old of [] \<Rightarrow> no_request | x # _ \<Rightarrow> x) v of
       None \<Rightarrow> None
     | Some b \<Rightarrow> map_option ((#) b) (requests_into (drop 1 old) vs))"

fun batch_field :: "(string \<times> string) list \<Rightarrow> publishRequest list \<Rightarrow> publishRequest list option" where
  "batch_field [] old = Some old"
| "batch_field ((k, v) # ms) old =
    (if field_of [''batch''] k \<noteq> Some ''batch'' then batch_field ms old
     else if v = ''null'' then batch_field ms []
     else case elements v of
       None \<Rightarrow> None
     | Some vs \<Rightarrow> (case requests_into old vs of None \<Rightarrow> None | Some l \<Rightarrow> batch_field ms l))"

definition batch_into :: "string \<Rightarrow> publishRequest list option" where
  "batch_into v = (case members v of None \<Rightarrow> None | Some ms \<Rightarrow> batch_field ms [])"

section \<open>Publishing\<close>

definition event_of :: "publishRequest \<Rightarrow> ChannelName \<Rightarrow> Event" where
  "event_of b n = \<lparr>ev_Name = pb_Name b, ev_Channel = n, ev_Data = pb_Data b, ev_Socket = pb_SocketID b, ev_UserID = []\<rparr>"

definition publish_one :: "('g, 's) API \<Rightarrow> 'g \<Rightarrow> publishRequest \<Rightarrow> string \<Rightarrow> 'g pusher \<Rightarrow> jerr option \<times> 'g pusher" where
  "publish_one A connected b one p =
    (case NewChannelName (api_hes A) connected one of
       Inl err \<Rightarrow> (Some err, p)
     | Inr name \<Rightarrow>
         (case route_reach A (Subject (api_hes A) connected) name p of
            (Inl err, p1) \<Rightarrow> (Some err, p1)
          | (Inr grant, p1) \<Rightarrow>
              let event = event_of b name in
              (case Find (api_hes A) grant name (brk p1) of
                 Inl err \<Rightarrow> if is_no_channel err then (None, carry (api_env A) event p1) else (Some err, p1)
               | Inr r \<Rightarrow>
                   (case on_channel r (Broadcast (api_hes A) (snk (api_env A)) event) p1 of
                      (Some err, p2) \<Rightarrow> (Some err, p2)
                    | (None, p2) \<Rightarrow> (None, carry (api_env A) event p2)))))"

fun publish_each :: "('g, 's) API \<Rightarrow> 'g \<Rightarrow> publishRequest \<Rightarrow> string list \<Rightarrow> 'g pusher \<Rightarrow> jerr option \<times> 'g pusher" where
  "publish_each A connected b [] p = (None, p)"
| "publish_each A connected b (one # rest) p =
    (case publish_one A connected b one p of
       (Some err, p1) \<Rightarrow> (Some err, p1)
     | (None, p1) \<Rightarrow> publish_each A connected b rest p1)"

definition channels_of :: "publishRequest \<Rightarrow> string list" where
  "channels_of b = (if pb_Channel b \<noteq> [] then pb_Channel b # pb_Channels b else pb_Channels b)"

definition publish :: "('g, 's) API \<Rightarrow> 'g \<Rightarrow> publishRequest \<Rightarrow> 'g pusher \<Rightarrow> jerr option \<times> 'g pusher" where
  "publish A connected b p =
    (if pb_Name b = [] then (Some (ErrOther ''joaju: an event needs a name''), p)
     else if prefix ProtocolPrefix (pb_Name b) \<or> prefix InternalPrefix (pb_Name b) then
       (Some (ErrOther ''joaju: a reserved event name, and only the server may send one''), p)
     else if \<not> Valid (pb_Data b) then (Some (ErrOther ''joaju: the data of an event has to be JSON''), p)
     else if channels_of b = [] then (Some (ErrOther ''joaju: an event needs a channel''), p)
     else publish_each A connected b (channels_of b) p)"

fun publish_batch :: "('g, 's) API \<Rightarrow> 'g \<Rightarrow> publishRequest list \<Rightarrow> 'g pusher \<Rightarrow> jerr option \<times> 'g pusher" where
  "publish_batch A connected [] p = (None, p)"
| "publish_batch A connected (b # bs) p =
    (case publish A connected b p of
       (Some err, p1) \<Rightarrow> (Some err, p1)
     | (None, p1) \<Rightarrow> publish_batch A connected bs p1)"

text \<open>What follows a publication, which is the same for one and for many.\<close>

definition published_answer :: "jerr option \<times> 'g pusher \<Rightarrow> 'g api_state \<Rightarrow> api_response \<times> 'g api_state" where
  "published_answer = (\<lambda>(e, p) st.
    (let st1 = st\<lparr>st_pusher := p\<rparr> in
     case e of Some err \<Rightarrow> api_fail err st1 | None \<Rightarrow> (writeJSON 200 (json_object []), st1)))"

definition api_events :: "('g, 's) API \<Rightarrow> 's api_request \<Rightarrow> 'g api_state \<Rightarrow> api_response \<times> 'g api_state" where
  "api_events A r st =
    (case enter A r RouteEvents st of
       (Inl resp, st1) \<Rightarrow> (resp, st1)
     | (Inr g, st1) \<Rightarrow>
         (case decode A (request_into no_request) r st1 of
            (Inl resp, st2) \<Rightarrow> (resp, st2)
          | (Inr b, st2) \<Rightarrow> published_answer (publish A g b (st_pusher st2)) st2))"

definition api_batchEvents :: "('g, 's) API \<Rightarrow> 's api_request \<Rightarrow> 'g api_state \<Rightarrow> api_response \<times> 'g api_state" where
  "api_batchEvents A r st =
    (case enter A r RouteBatchEvents st of
       (Inl resp, st1) \<Rightarrow> (resp, st1)
     | (Inr g, st1) \<Rightarrow>
         (case decode A batch_into r st1 of
            (Inl resp, st2) \<Rightarrow> (resp, st2)
          | (Inr bs, st2) \<Rightarrow> published_answer (publish_batch A g bs (st_pusher st2)) st2))"

section \<open>Reading\<close>

definition api_connections :: "('g, 's) API \<Rightarrow> 's api_request \<Rightarrow> 'g api_state \<Rightarrow> api_response \<times> 'g api_state" where
  "api_connections A r st =
    (case enter A r RouteConnections st of
       (Inl resp, st1) \<Rightarrow> (resp, st1)
     | (Inr g, st1) \<Rightarrow>
         (case Joaju_Registry.Connections (api_hes A) g (st_registry st1) of
            Inl err \<Rightarrow> api_fail err st1
          | Inr here \<Rightarrow>
              let (fleet, st2) = ask_fleet A g [] st1 in
              (writeJSON 200 (json_object [(''connections'', int_string (go_int (int here + ft_Connections fleet)))]), st2)))"

definition member_ids :: "'g channel \<Rightarrow> string list" where
  "member_ids c = filter (\<lambda>u. u \<noteq> []) (map (\<lambda>s. UserID (sub_Member s)) (Pusher_Channel.Connections c))"

definition countMembers :: "'g channel \<Rightarrow> string list \<Rightarrow> nat" where
  "countMembers chan fleet = length (fold List.insert (member_ids chan) fleet)"

definition fleetPresence :: "('g, 's) hesape \<Rightarrow> 'g \<Rightarrow> string \<Rightarrow> bool" where
  "fleetPresence H g req = (case NewChannelName H g req of Inl _ \<Rightarrow> False | Inr name \<Rightarrow> Presence (name_Type H name))"

text \<open>One entry of the list: whether anybody is on the channel, and on a presence channel how many people.\<close>

definition entry_text :: "bool \<Rightarrow> nat option \<Rightarrow> string" where
  "entry_text busy n =
    json_object ((''occupied'', json_bool busy) # (case n of None \<Rightarrow> [] | Some k \<Rightarrow> [(''user_count'', int_string (int k))]))"

definition held_entry :: "('g, 's) hesape \<Rightarrow> FleetTally \<Rightarrow> 'g channel \<Rightarrow> string" where
  "held_entry H elsewhere c =
    (let fleet = tally_Channel elsewhere (requested (ch_name c)) in
     entry_text (go_int (int (length (Pusher_Channel.Connections c)) + ct_Subscriptions fleet) > 0)
       (if Presence (name_Type H (ch_name c)) then Some (countMembers c (ct_Users fleet)) else None))"

definition elsewhere_entry :: "('g, 's) hesape \<Rightarrow> 'g \<Rightarrow> string \<Rightarrow> ChannelTally \<Rightarrow> string" where
  "elsewhere_entry H g req fleet =
    entry_text (ct_Subscriptions fleet > 0) (if fleetPresence H g req then Some (length (ct_Users fleet)) else None)"

definition listing :: "('g, 's) hesape \<Rightarrow> 'g \<Rightarrow> 'g channel list \<Rightarrow> FleetTally \<Rightarrow> (string \<times> string) list" where
  "listing H g cs elsewhere =
    (let mine = fold (\<lambda>c. AList.update (requested (ch_name c)) (held_entry H elsewhere c)) cs [] in
     fold (\<lambda>(req, fleet) listed. if map_of listed req \<noteq> None then listed else AList.update req (elsewhere_entry H g req fleet) listed)
       (ft_Channels elsewhere) mine)"

text \<open>A map is written in the order of its keys.\<close>

definition json_map :: "(string \<times> string) list \<Rightarrow> string" where
  "json_map al = json_object (map (\<lambda>k. (k, the (map_of al k))) (sort (map fst al)))"

definition api_channels :: "('g, 's) API \<Rightarrow> 's api_request \<Rightarrow> 'g api_state \<Rightarrow> api_response \<times> 'g api_state" where
  "api_channels A r st =
    (case enter A r RouteChannels st of
       (Inl resp, st1) \<Rightarrow> (resp, st1)
     | (Inr connected, st1) \<Rightarrow>
         (case route_reach A (Subject (api_hes A) connected) zero_name (st_pusher st1) of
            (Inl err, p) \<Rightarrow> api_fail err (st1\<lparr>st_pusher := p\<rparr>)
          | (Inr grant, p) \<Rightarrow>
              let st2 = st1\<lparr>st_pusher := p\<rparr> in
              (case All (api_hes A) grant (brk p) of
                 Inl err \<Rightarrow> api_fail err st2
               | Inr refs \<Rightarrow>
                   let (elsewhere, st3) = ask_fleet A grant [] st2;
                       cs = map (\<lambda>ref. heap (brk p) ! ref) refs
                   in (writeJSON 200 (json_object [(''channels'', json_map (listing (api_hes A) grant cs elsewhere))]), st3))))"

definition api_channel :: "('g, 's) API \<Rightarrow> 's api_request \<Rightarrow> 'g api_state \<Rightarrow> api_response \<times> 'g api_state" where
  "api_channel A r st =
    (case route_find A r RouteChannel st of
       (Inl resp, st1) \<Rightarrow> (resp, st1)
     | (Inr (ref, grant), st1) \<Rightarrow>
         let chan = heap (brk (st_pusher st1)) ! ref;
             name = ch_name chan;
             (tally, st2) = ask_fleet A grant (requested name) st1;
             fleet = tally_Channel tally (requested name);
             subscribers = go_int (int (length (Pusher_Channel.Connections chan)) + ct_Subscriptions fleet)
         in (writeJSON 200 (json_object ([(''occupied'', json_bool (subscribers > 0)), (''subscription_count'', int_string subscribers)] @
               (if Presence (name_Type (api_hes A) name) then [(''user_count'', int_string (int (countMembers chan (ct_Users fleet))))] else []))),
             st2))"

definition user_list :: "'g channel \<Rightarrow> ChannelTally \<Rightarrow> string list" where
  "user_list chan fleet = fold (\<lambda>u seen. if u \<in> set seen then seen else seen @ [u]) (member_ids chan @ Members fleet) []"

definition api_channelUsers :: "('g, 's) API \<Rightarrow> 's api_request \<Rightarrow> 'g api_state \<Rightarrow> api_response \<times> 'g api_state" where
  "api_channelUsers A r st =
    (case route_find A r RouteChannelUsers st of
       (Inl resp, st1) \<Rightarrow> (resp, st1)
     | (Inr (ref, grant), st1) \<Rightarrow>
         let chan = heap (brk (st_pusher st1)) ! ref in
         if \<not> Presence (name_Type (api_hes A) (ch_name chan)) then
           api_refuse 400 ''Only a presence channel has users.'' None st1
         else
           let req = requested (ch_name chan);
               (tally, st2) = ask_fleet A grant req st1
           in (writeJSON 200 (json_object [(''users'', json_array (map (\<lambda>u. json_object [(''id'', json_string u)])
                 (user_list chan (tally_Channel tally req))))]), st2))"

definition api_terminate :: "('g, 's) API \<Rightarrow> 's api_request \<Rightarrow> 'g api_state \<Rightarrow> api_response \<times> 'g api_state" where
  "api_terminate A r st =
    (case enter A r RouteTerminateConnections st of
       (Inl resp, st1) \<Rightarrow> (resp, st1)
     | (Inr g, st1) \<Rightarrow>
         if \<not> declaresJSON r then
           api_refuse 415 ''The body has to be application/json.'' (Some (ErrOther ''joaju: the Content-Type is not one this route reads'')) st1
         else case Terminate (api_hes A) g (hr_userId r) (st_registry st1) of
           (Inl err, reg) \<Rightarrow> api_fail err (st1\<lparr>st_registry := reg\<rparr>)
         | (Inr _, reg) \<Rightarrow> (writeJSON 200 (json_object []), st1\<lparr>st_registry := reg\<rparr>))"

definition up :: api_response where
  "up = \<lparr>rs_ContentType = ''text/plain; charset=utf-8'', rs_Status = 200, rs_Body = ''OK''\<rparr>"

text \<open>The handler of each pattern.\<close>

definition mux :: "('g, 's) API \<Rightarrow> string \<Rightarrow> 's api_request \<Rightarrow> 'g api_state \<Rightarrow> (api_response \<times> 'g api_state) option" where
  "mux A pat r st =
    (if pat = RouteEvents then Some (api_events A r st)
     else if pat = RouteBatchEvents then Some (api_batchEvents A r st)
     else if pat = RouteConnections then Some (api_connections A r st)
     else if pat = RouteChannels then Some (api_channels A r st)
     else if pat = RouteChannel then Some (api_channel A r st)
     else if pat = RouteChannelUsers then Some (api_channelUsers A r st)
     else if pat = RouteTerminateConnections then Some (api_terminate A r st)
     else if pat = ''GET /up'' then Some (up, st)
     else None)"

section \<open>Entering\<close>

lemma fail_keeps [simp]: "st_pusher (snd (api_fail err st)) = st_pusher st" "st_registry (snd (api_fail err st)) = st_registry st"
  "st_fleet (snd (api_fail err st)) = st_fleet st" "st_operated (snd (api_fail err st)) = st_operated st"
  by (simp_all add: api_fail_def api_refuse_def)

lemma fail_status: "rs_Status (fst (api_fail err st)) \<in> {400, 401, 403, 404}"
  by (simp add: api_fail_def api_refuse_def writeJSON_def)

lemma refuse_keeps [simp]: "st_pusher (snd (api_refuse n m err st)) = st_pusher st" "st_registry (snd (api_refuse n m err st)) = st_registry st"
  "st_fleet (snd (api_refuse n m err st)) = st_fleet st" "st_operated (snd (api_refuse n m err st)) = st_operated st"
  "rs_Status (fst (api_refuse n m err st)) = n"
  by (simp_all add: api_refuse_def writeJSON_def split: option.splits)

text \<open>What a request is allowed by: the app, a subject, and the answer of the policy to this very question.\<close>

definition operator :: "('g, 's) API \<Rightarrow> 's api_request \<Rightarrow> string \<Rightarrow> 'g api_state \<Rightarrow> 'g \<Rightarrow> bool" where
  "operator A r route st g \<longleftrightarrow> hr_appId r = api_AppID A \<and>
    (\<exists>s policy. hr_subject r = Some s \<and> api_Operate A = Some policy \<and>
      policy (st_operated st) s Operate \<lparr>op_Route = route, op_Origin = hr_Origin r\<rparr> = Inr g)"

lemma enter_granted:
  "enter A r route st = (Inr g, st1) \<longleftrightarrow>
    operator A r route st g \<and> st1 = st\<lparr>st_operated := st_operated st @ [\<lparr>op_Route = route, op_Origin = hr_Origin r\<rparr>]\<rparr>"
  by (auto simp: enter_def operator_def Let_def map_prod_def split_def split: option.splits sum.splits)

lemma enter_refused:
  assumes "enter A r route st = (Inl resp, st1)"
  shows "rs_Status resp \<in> {400, 401, 403, 404} \<and> st_pusher st1 = st_pusher st \<and> st_registry st1 = st_registry st \<and> st_fleet st1 = st_fleet st"
  using assms by (auto simp: enter_def Let_def api_fail_def api_refuse_def writeJSON_def split: option.splits sum.splits if_splits)

lemma find_enters:
  assumes "route_find A r route st = (x, st1)"
  shows "(\<exists>resp. x = Inl resp \<and> enter A r route st = (Inl resp, st1)) \<or>
    (\<exists>g st0. enter A r route st = (Inr g, st0) \<and> st_operated st1 = st_operated st0 \<and> st_registry st1 = st_registry st0 \<and>
       brk (st_pusher st1) = brk (st_pusher st0) \<and> out (st_pusher st1) = out (st_pusher st0) \<and> carried (st_pusher st1) = carried (st_pusher st0))"
proof (cases "enter A r route st")
  case (Pair y st0)
  show ?thesis
  proof (cases y)
    case (Inl resp)
    then show ?thesis using assms Pair by (simp add: route_find_def)
  next
    case (Inr g)
    then show ?thesis using assms Pair
      by (auto simp: route_find_def route_reach_def map_prod_def split_def split: sum.splits)
  qed
qed

section \<open>Within a tenant\<close>

text \<open>Nothing joined or left: what a publication may do to the broker.\<close>

definition same_members :: "'g broker \<Rightarrow> 'g broker \<Rightarrow> bool" where
  "same_members b b' \<longleftrightarrow> held b' = held b \<and> map ch_name (heap b') = map ch_name (heap b) \<and>
    map subscribers (heap b') = map subscribers (heap b)"

lemma same_members_at:
  assumes "same_members b b'" "r < length (heap b)"
  shows "ids (heap b' ! r) = ids (heap b ! r)" "gather (heap b' ! r) skip = gather (heap b ! r) skip" "ch_name (heap b' ! r) = ch_name (heap b ! r)"
proof -
  have "length (heap b') = length (heap b)" using assms(1) unfolding same_members_def by (metis length_map)
  then have "subscribers (heap b' ! r) = subscribers (heap b ! r)" "ch_name (heap b' ! r) = ch_name (heap b ! r)"
    using assms unfolding same_members_def by (metis nth_map)+
  then show "ids (heap b' ! r) = ids (heap b ! r)" "gather (heap b' ! r) skip = gather (heap b ! r) skip" "ch_name (heap b' ! r) = ch_name (heap b ! r)"
    by (simp_all add: ids_def gather_def)
qed

text \<open>The copies of an event for the sockets this instance has on a channel.\<close>

definition local_copies :: "('g, 's) hesape \<Rightarrow> 'g broker \<Rightarrow> publishRequest \<Rightarrow> ChannelName \<Rightarrow> outbox" where
  "local_copies H bk b n =
    (case map_of (held bk) (name_String H n) of None \<Rightarrow> []
     | Some r \<Rightarrow> copies (gather (heap bk ! r) (pb_SocketID b)) (the_frame (event_of b n)))"

lemma local_copies_same:
  assumes "broker_ok H bk" "same_members bk bk'"
  shows "local_copies H bk' b n = local_copies H bk b n"
  using assms(2) same_members_at(2) [OF assms(2)] broker_ok_held(1) [OF assms(1)]
  by (auto simp: local_copies_def same_members_def split: option.splits)

text \<open>A grant that is refused is refused for itself, and not because a channel is missing.\<close>

definition check_forbids :: "('g, 's) hesape \<Rightarrow> bool" where
  "check_forbids H \<longleftrightarrow> (\<forall>g a e. Check H g a = Some e \<longrightarrow> \<not> is_no_channel e)"

lemma missing_channel:
  assumes "check_forbids H" "Find H g n b = Inl e" "is_no_channel e"
  shows "map_of (held b) (name_String H n) = None"
  using assms unfolding check_forbids_def
  by (auto simp: Find_def broker_accepts_def tenantOf_def split: option.splits sum.splits if_splits)

lemma Find_held: "Find H g n b = Inr r \<Longrightarrow> map_of (held b) (name_String H n) = Some r"
  by (auto simp: Find_def split: option.splits)

lemma broadcast_here:
  assumes "hesape_documented H" "broker_ok H (brk p)" "plain_name n" "map_of (held (brk p)) (name_String H n) = Some r" "pb_Name b \<noteq> []"
    and "on_channel r (Broadcast H s (event_of b n)) p = (e, p')"
  shows "out p' = out p @ local_copies H (brk p) b n" "broker_ok H (brk p')" "same_members (brk p) (brk p')"
    "asked p' = asked p" "carried p' = carried p"
proof -
  note h = broker_ok_held [OF assms(2,4)]
  have n: "ch_name (heap (brk p) ! r) = n" using key_plain [OF assms(1) assms(3) h(4)] h(2) by simp
  have acc: "channel_accepts (heap (brk p) ! r) (event_of b n) = None" using n assms(5) by (simp add: channel_accepts_def event_of_def)
  have p': "p' = p\<lparr>brk := (brk p)\<lparr>heap := (heap (brk p))[r := with_cached H (event_of b n) (heap (brk p) ! r)]\<rparr>,
      out := out p @ copies (gather (heap (brk p) ! r) (pb_SocketID b)) (the_frame (event_of b n))\<rparr>"
    using assms(6) channel_send_ok [OF h(3) acc, of s "pb_SocketID b" "out p"]
    by (auto simp: on_channel_def Broadcast_def event_of_def split: prod.splits)
  show "out p' = out p @ local_copies H (brk p) b n" "asked p' = asked p" "carried p' = carried p"
    using p' assms(4) by (simp_all add: local_copies_def)
  have f: "ch_name (with_cached H (event_of b n) c) = ch_name c" "subscribers (with_cached H (event_of b n) c) = subscribers c" for c :: "'a channel"
    by (simp_all add: with_cached_def Let_def)
  show "broker_ok H (brk p')" using p' put_broker_ok [OF assms(2) h(1) with_cached_ok [OF h(3) acc]] f(1) by simp
  show "same_members (brk p) (brk p')" using p' f h(1) by (auto simp: same_members_def map_update list_update_same_conv)
qed

lemma publish_one_effect:
  assumes "hesape_documented (api_hes A)" "check_forbids (api_hes A)" "broker_ok (api_hes A) (brk p)" "pb_Name b \<noteq> []"
    and "publish_one A g b one p = (e, p')"
  shows "broker_ok (api_hes A) (brk p') \<and> same_members (brk p) (brk p') \<and>
    (case e of
       None \<Rightarrow> \<exists>n grant. NewChannelName (api_hes A) g one = Inr n \<and>
         api_Subscribe A (asked p) (Subject (api_hes A) g) (ChannelJoin (api_hes A)) (about n) = Inr grant \<and>
         asked p' = asked p @ [about n] \<and> carried p' = carried p @ (if is_carrier (api_env A) then [event_of b n] else []) \<and>
         out p' = out p @ local_copies (api_hes A) (brk p) b n
     | Some _ \<Rightarrow> carried p' = carried p \<and>
         (out p' = out p \<or> (\<exists>n. NewChannelName (api_hes A) g one = Inr n \<and> out p' = out p @ local_copies (api_hes A) (brk p) b n)))"
proof (cases "NewChannelName (api_hes A) g one")
  case (Inl err)
  then show ?thesis using assms(3,5) by (auto simp: publish_one_def same_members_def)
next
  case (Inr n)
  let ?H = "api_hes A" and ?p1 = "p\<lparr>asked := asked p @ [about n]\<rparr>"
  have pl: "plain_name n" using NewChannelName_ok [OF Inr assms(1)] by (simp add: plain_name_def)
  have refl: "same_members b b" for b :: "'a broker" by (simp add: same_members_def)
  show ?thesis
  proof (cases "api_Subscribe A (asked p) (Subject ?H g) (ChannelJoin ?H) (about n)")
    case (Inl err)
    then show ?thesis using assms(3,5) Inr refl by (auto simp: publish_one_def route_reach_def)
  next
    case (Inr grant)
    note N = \<open>NewChannelName (api_hes A) g one = Inr n\<close>
    show ?thesis
    proof (cases "Find ?H grant n (brk p)")
      case (Inl err)
      then show ?thesis
        using assms(3,5) N Inr refl missing_channel [OF assms(2) Inl]
        by (auto simp: publish_one_def route_reach_def carry_def local_copies_def Let_def split: if_splits)
    next
      case (Inr r)
      obtain e2 p2 where p2: "on_channel r (Broadcast ?H (snk (api_env A)) (event_of b n)) ?p1 = (e2, p2)" by force
      have "broker_ok ?H (brk ?p1)" "map_of (held (brk ?p1)) (name_String ?H n) = Some r" using assms(3) Find_held [OF Inr] by simp_all
      note bh = broadcast_here [OF assms(1) this(1) pl this(2) assms(4) p2]
      show ?thesis
        using assms(5) N \<open>api_Subscribe A _ _ _ _ = Inr grant\<close> Inr p2 bh
        by (auto simp: publish_one_def route_reach_def carry_def Let_def split: option.splits)
    qed
  qed
qed

text \<open>Two states of the protocol between which somebody published for a tenant: what was sent went to sockets
  on channels of the tenant, what was handed to the fleet is for channels of the tenant and not in
  the server's own voice, and nobody joined or left.\<close>

definition published_within :: "('g, 's) hesape \<Rightarrow> string \<Rightarrow> 'g pusher \<Rightarrow> 'g pusher \<Rightarrow> bool" where
  "published_within H T p p' \<longleftrightarrow> broker_ok H (brk p') \<and> same_members (brk p) (brk p') \<and>
    (\<exists>new evs. out p' = out p @ new \<and> carried p' = carried p @ evs \<and>
      (\<forall>sid \<in> fst ` set new. \<exists>n r. tenant n = T \<and> map_of (held (brk p)) (name_String H n) = Some r \<and> sid \<in> ids (heap (brk p) ! r)) \<and>
      (\<forall>ev \<in> set evs. tenant (ev_Channel ev) = T \<and> \<not> prefix ProtocolPrefix (ev_Name ev) \<and> \<not> prefix InternalPrefix (ev_Name ev)))"

lemma published_within_refl: "broker_ok H (brk p) \<Longrightarrow> published_within H T p p"
  by (simp add: published_within_def same_members_def)

lemma published_within_trans:
  assumes "broker_ok H (brk p)" "published_within H T p q" "published_within H T q u"
  shows "published_within H T p u"
proof -
  obtain n1 e1 where a: "out q = out p @ n1" "carried q = carried p @ e1" "same_members (brk p) (brk q)"
    "\<forall>sid \<in> fst ` set n1. \<exists>n r. tenant n = T \<and> map_of (held (brk p)) (name_String H n) = Some r \<and> sid \<in> ids (heap (brk p) ! r)"
    "\<forall>ev \<in> set e1. tenant (ev_Channel ev) = T \<and> \<not> prefix ProtocolPrefix (ev_Name ev) \<and> \<not> prefix InternalPrefix (ev_Name ev)"
    using assms(2) unfolding published_within_def by blast
  obtain n2 e2 where b: "out u = out q @ n2" "carried u = carried q @ e2" "same_members (brk q) (brk u)" "broker_ok H (brk u)"
    "\<forall>sid \<in> fst ` set n2. \<exists>n r. tenant n = T \<and> map_of (held (brk q)) (name_String H n) = Some r \<and> sid \<in> ids (heap (brk q) ! r)"
    "\<forall>ev \<in> set e2. tenant (ev_Channel ev) = T \<and> \<not> prefix ProtocolPrefix (ev_Name ev) \<and> \<not> prefix InternalPrefix (ev_Name ev)"
    using assms(3) unfolding published_within_def by blast
  have "\<exists>n r. tenant n = T \<and> map_of (held (brk p)) (name_String H n) = Some r \<and> sid \<in> ids (heap (brk p) ! r)" if "sid \<in> fst ` set n2" for sid
  proof -
    obtain n r where "tenant n = T" "map_of (held (brk q)) (name_String H n) = Some r" "sid \<in> ids (heap (brk q) ! r)" using b(5) \<open>sid \<in> fst ` set n2\<close> by blast
    moreover from this(2) have "map_of (held (brk p)) (name_String H n) = Some r" using a(3) by (simp add: same_members_def)
    ultimately show ?thesis using same_members_at(1) [OF a(3)] broker_ok_held(1) [OF assms(1)] by metis
  qed
  moreover have "same_members (brk p) (brk u)" using a(3) b(3) by (simp add: same_members_def)
  ultimately show ?thesis unfolding published_within_def using a b
    by (intro conjI exI [where x = "n1 @ n2"] exI [where x = "e1 @ e2"]) auto
qed

lemma local_copies_within:
  assumes "broker_ok H bk"
  shows "\<forall>sid \<in> fst ` set (local_copies H bk b n). \<exists>r. map_of (held bk) (name_String H n) = Some r \<and> sid \<in> ids (heap bk ! r)"
proof -
  have "fst ` set (copies (gather c skip) f) \<subseteq> ids c" if "channel_ok H c" for c :: "'a channel" and skip f
    using gather_ids(2) [OF that, of skip] by (auto simp: copies_def split: sum.splits)
  note sub = this
  show ?thesis
  proof (cases "map_of (held bk) (name_String H n)")
    case None
    then show ?thesis by (simp add: local_copies_def)
  next
    case (Some r)
    then show ?thesis using sub [OF broker_ok_held(3) [OF assms Some], of "pb_SocketID b" "the_frame (event_of b n)"] by (auto simp: local_copies_def)
  qed
qed

lemma publish_one_within:
  assumes "hesape_documented (api_hes A)" "check_forbids (api_hes A)" "broker_ok (api_hes A) (brk p)" "pb_Name b \<noteq> []"
    "\<not> prefix ProtocolPrefix (pb_Name b)" "\<not> prefix InternalPrefix (pb_Name b)" "publish_one A g b one p = (e, p')"
  shows "published_within (api_hes A) (auth_Tenant (api_hes A) g) p p'"
proof -
  note x = publish_one_effect [OF assms(1-4,7)] and l = local_copies_within [OF assms(3), of b]
  have t: "tenant n = auth_Tenant (api_hes A) g" if "NewChannelName (api_hes A) g one = Inr n" for n
    using NewChannelName_ok(1) [OF that assms(1)] .
  obtain new evs where ne: "out p' = out p @ new" "carried p' = carried p @ evs"
    "new = [] \<or> (\<exists>n. NewChannelName (api_hes A) g one = Inr n \<and> new = local_copies (api_hes A) (brk p) b n)"
    "\<forall>ev \<in> set evs. \<exists>n. NewChannelName (api_hes A) g one = Inr n \<and> ev = event_of b n"
    using x by (cases e) (auto split: if_splits)
  have "\<forall>sid \<in> fst ` set new. \<exists>n r. tenant n = auth_Tenant (api_hes A) g \<and>
      map_of (held (brk p)) (name_String (api_hes A) n) = Some r \<and> sid \<in> ids (heap (brk p) ! r)"
    using ne(3) t l by (elim disjE exE) (simp, blast)
  moreover have "\<forall>ev \<in> set evs. tenant (ev_Channel ev) = auth_Tenant (api_hes A) g \<and> \<not> prefix ProtocolPrefix (ev_Name ev) \<and> \<not> prefix InternalPrefix (ev_Name ev)"
    using ne(4) t assms(5,6) by (fastforce simp: event_of_def)
  ultimately show ?thesis unfolding published_within_def using x ne(1,2) by blast
qed

lemma publish_within:
  assumes "hesape_documented (api_hes A)" "check_forbids (api_hes A)" "broker_ok (api_hes A) (brk p)" "publish A g b p = (e, p')"
  shows "published_within (api_hes A) (auth_Tenant (api_hes A) g) p p'"
proof -
  have each: "published_within (api_hes A) (auth_Tenant (api_hes A) g) q q'"
    if "pb_Name b \<noteq> []" "\<not> prefix ProtocolPrefix (pb_Name b)" "\<not> prefix InternalPrefix (pb_Name b)"
      "publish_each A g b l q = (e', q')" "broker_ok (api_hes A) (brk q)" for l q q' e'
    using that(4,5)
  proof (induction l arbitrary: q)
    case Nil
    then show ?case by (simp add: published_within_refl)
  next
    case (Cons one l)
    obtain e1 q1 where one: "publish_one A g b one q = (e1, q1)" by force
    have w: "published_within (api_hes A) (auth_Tenant (api_hes A) g) q q1"
      using publish_one_within [OF assms(1,2) Cons.prems(2) that(1-3) one] .
    show ?case
    proof (cases e1)
      case None
      have "broker_ok (api_hes A) (brk q1)" using w by (simp add: published_within_def)
      then show ?thesis using published_within_trans [OF Cons.prems(2) w] Cons.IH [of q1] Cons.prems(1) one None by simp
    next
      case (Some err)
      then show ?thesis using w Cons.prems(1) one by simp
    qed
  qed
  show ?thesis using assms(3,4) each [of "channels_of b" p] published_within_refl
    by (auto simp: publish_def split: if_splits)
qed

lemma batch_within:
  assumes "hesape_documented (api_hes A)" "check_forbids (api_hes A)" "broker_ok (api_hes A) (brk p)" "publish_batch A g bs p = (e, p')"
  shows "published_within (api_hes A) (auth_Tenant (api_hes A) g) p p'"
  using assms(3,4)
proof (induction bs arbitrary: p)
  case Nil
  then show ?case by (simp add: published_within_refl)
next
  case (Cons b bs)
  obtain e1 q where one: "publish A g b p = (e1, q)" by force
  have w: "published_within (api_hes A) (auth_Tenant (api_hes A) g) p q" using publish_within [OF assms(1,2) Cons.prems(1) one] .
  show ?case
  proof (cases e1)
    case None
    have "broker_ok (api_hes A) (brk q)" using w by (simp add: published_within_def)
    then show ?thesis using published_within_trans [OF Cons.prems(1) w] Cons.IH [of q] Cons.prems(2) one None by simp
  next
    case (Some err)
    then show ?thesis using w Cons.prems(2) one by simp
  qed
qed

lemma published_answer_pusher: "published_answer x st = (resp, st') \<Longrightarrow> st_pusher st' = snd x \<and> st_operated st' = st_operated st"
  by (cases x) (auto simp: published_answer_def Let_def api_fail_def api_refuse_def split: option.splits if_splits)

lemma decode_keeps: "decode A into r st = (x, st1) \<Longrightarrow> st_pusher st1 = st_pusher st \<and> st_operated st1 = st_operated st"
  by (auto simp: decode_def api_refuse_def split: if_splits option.splits)

text \<open>What a route does once it was let in: it publishes, or it leaves the channels as they are.\<close>

definition left_alone :: "'g pusher \<Rightarrow> 'g pusher \<Rightarrow> bool" where
  "left_alone p p' \<longleftrightarrow> brk p' = brk p \<and> out p' = out p \<and> carried p' = carried p"

lemma fail_answer: "api_fail err st = (resp, st') \<Longrightarrow> st_pusher st' = st_pusher st \<and> st_operated st' = st_operated st"
  by (metis fail_keeps(1,4) snd_conv)

lemma refuse_answer: "api_refuse n m err st = (resp, st') \<Longrightarrow> st_pusher st' = st_pusher st \<and> st_operated st' = st_operated st"
  by (metis refuse_keeps(1,4) snd_conv)

lemma find_quiet:
  assumes "enter A r route st = (Inr g, st1)" "route_find A r route st = (x, st2)"
  shows "left_alone (st_pusher st1) (st_pusher st2) \<and> st_operated st2 = st_operated st1"
  using find_enters [OF assms(2)] assms(1) by (auto simp: left_alone_def)

lemma reading_is_quiet:
  assumes "enter A r pat st = (Inr g, st1)" "pat \<in> {RouteConnections, RouteChannels, RouteChannel, RouteChannelUsers, RouteTerminateConnections}"
    and "mux A pat r st = Some (resp, st')"
  shows "left_alone (st_pusher st1) (st_pusher st') \<and> st_operated st' = st_operated st1"
proof -
  consider "pat = RouteConnections" | "pat = RouteChannels" | "pat = RouteChannel" | "pat = RouteChannelUsers" | "pat = RouteTerminateConnections"
    using assms(2) by auto
  then show ?thesis
  proof cases
    case 1
    then have "api_connections A r st = (resp, st')" using assms(3) by (simp add: mux_def route_defs)
    then show ?thesis using assms(1) 1
      by (auto simp: api_connections_def left_alone_def ask_fleet_def dest!: fail_answer split: sum.splits)
  next
    case 2
    then have "api_channels A r st = (resp, st')" using assms(3) by (simp add: mux_def route_defs)
    then show ?thesis using assms(1) 2
      by (auto simp: api_channels_def route_reach_def left_alone_def ask_fleet_def Let_def dest!: fail_answer split: sum.splits)
  next
    case 3
    then have h: "api_channel A r st = (resp, st')" using assms(3) by (simp add: mux_def route_defs)
    obtain x st2 where x: "route_find A r RouteChannel st = (x, st2)" by force
    then show ?thesis using h find_quiet [of A r RouteChannel st g st1 x st2] assms(1) 3
      by (auto simp: api_channel_def ask_fleet_def Let_def split: sum.splits prod.splits)
  next
    case 4
    then have h: "api_channelUsers A r st = (resp, st')" using assms(3) by (simp add: mux_def route_defs)
    obtain x st2 where x: "route_find A r RouteChannelUsers st = (x, st2)" by force
    then show ?thesis using h find_quiet [of A r RouteChannelUsers st g st1 x st2] assms(1) 4
      by (auto simp: api_channelUsers_def ask_fleet_def Let_def dest!: refuse_answer split: sum.splits prod.splits if_splits)
  next
    case 5
    then have "api_terminate A r st = (resp, st')" using assms(3) by (simp add: mux_def route_defs)
    then show ?thesis using assms(1) 5
      by (auto simp: api_terminate_def left_alone_def dest!: fail_answer refuse_answer split: sum.splits prod.splits if_splits)
  qed
qed

lemma publishing_publishes:
  assumes "enter A r pat st = (Inr g, st1)" "pat = RouteEvents \<or> pat = RouteBatchEvents" "mux A pat r st = Some (resp, st')"
  shows "st_operated st' = st_operated st1 \<and> (st_pusher st' = st_pusher st1 \<or>
    (\<exists>b e. publish A g b (st_pusher st1) = (e, st_pusher st')) \<or> (\<exists>bs e. publish_batch A g bs (st_pusher st1) = (e, st_pusher st')))"
proof (cases "pat = RouteEvents")
  case True
  then have "api_events A r st = (resp, st')" using assms(3) by (simp add: mux_def)
  then show ?thesis using assms(1) True
    by (auto simp: api_events_def split: sum.splits prod.splits dest!: decode_keeps published_answer_pusher) (metis prod.collapse)
next
  case False
  then have p: "pat = RouteBatchEvents" using assms(2) by simp
  then have "api_batchEvents A r st = (resp, st')" using assms(3) by (simp add: mux_def route_defs)
  then show ?thesis using assms(1) p
    by (auto simp: api_batchEvents_def split: sum.splits prod.splits dest!: decode_keeps published_answer_pusher) (metis prod.collapse)
qed

lemma mux_patterns:
  "mux A pat r st = Some (resp, st') \<Longrightarrow> pat \<noteq> ''GET /up'' \<Longrightarrow>
    pat \<in> {RouteConnections, RouteChannels, RouteChannel, RouteChannelUsers, RouteTerminateConnections} \<or> pat = RouteEvents \<or> pat = RouteBatchEvents"
  by (auto simp: mux_def split: if_splits)

lemma mux_refused:
  assumes "enter A r pat st = (Inl resp1, st1)" "mux A pat r st = Some (resp, st')" "pat \<noteq> ''GET /up''"
  shows "resp = resp1 \<and> st' = st1"
  using assms
  by (auto simp: mux_def api_events_def api_batchEvents_def api_connections_def api_channels_def api_channel_def
      api_channelUsers_def api_terminate_def route_find_def split: if_splits)

section \<open>Properties\<close>

text \<open>No route is served without the operator's policy. Whatever a request asks of the API, the health
  check apart, it names this app, carries a subject, and the operation policy, asked once about this
  route and this origin, allowed that subject; or it is answered by a refusal, and neither the
  channels nor the sockets were touched and no other instance was asked anything.\<close>

theorem no_route_without_the_policy:
  assumes "mux A pat r st = Some (resp, st')" "pat \<noteq> ''GET /up''"
  shows "(\<exists>s policy g. hr_appId r = api_AppID A \<and> hr_subject r = Some s \<and> api_Operate A = Some policy \<and>
      policy (st_operated st) s Operate \<lparr>op_Route = pat, op_Origin = hr_Origin r\<rparr> = Inr g \<and>
      st_operated st' = st_operated st @ [\<lparr>op_Route = pat, op_Origin = hr_Origin r\<rparr>]) \<or>
    rs_Status resp \<in> {400, 401, 403, 404} \<and> st_pusher st' = st_pusher st \<and> st_registry st' = st_registry st \<and> st_fleet st' = st_fleet st"
proof (cases "enter A r pat st")
  case (Pair x st1)
  show ?thesis
  proof (cases x)
    case (Inl resp1)
    then show ?thesis using mux_refused [of A r pat st resp1 st1] assms enter_refused [of A r pat st resp1 st1] Pair Inl by simp
  next
    case (Inr g)
    then have e: "operator A r pat st g" "st_operated st1 = st_operated st @ [\<lparr>op_Route = pat, op_Origin = hr_Origin r\<rparr>]"
      using Pair by (simp_all add: enter_granted)
    have "st_operated st' = st_operated st1" 
      using mux_patterns [OF assms] reading_is_quiet [of A r pat st g st1 resp st'] publishing_publishes [of A r pat st g st1 resp st'] assms(1) Pair Inr
      by blast
    then show ?thesis using e unfolding operator_def by auto
  qed
qed

text \<open>Property C18. A request stays within its tenant. Whatever it asks and however it ends, what a request
  makes the server send goes to sockets that are on channels of the tenant of the grant the operation
  policy issued, what it hands to the other instances is for channels of that tenant and never in the
  server's own voice, and it takes nobody off a channel and puts nobody on one.\<close>

theorem a_request_stays_in_its_tenant:
  assumes "hesape_documented (api_hes A)" "check_forbids (api_hes A)" "broker_ok (api_hes A) (brk (st_pusher st))"
    and "mux A pat r st = Some (resp, st')"
  shows "left_alone (st_pusher st) (st_pusher st') \<or>
    (\<exists>g. operator A r pat st g \<and> published_within (api_hes A) (auth_Tenant (api_hes A) g) (st_pusher st) (st_pusher st'))"
proof (cases "pat = ''GET /up''")
  case True
  then show ?thesis using assms(4) by (auto simp: mux_def route_defs left_alone_def)
next
  case False
  show ?thesis
  proof (cases "enter A r pat st")
    case (Pair x st1)
    show ?thesis
    proof (cases x)
      case (Inl resp1)
      then show ?thesis
        using mux_refused [of A r pat st resp1 st1 resp st'] assms(4) False enter_refused [of A r pat st resp1 st1] Pair by (simp add: left_alone_def)
    next
      case (Inr g)
      have e: "operator A r pat st g" "st_pusher st1 = st_pusher st" using Pair Inr by (simp_all add: enter_granted)
      then have ok: "broker_ok (api_hes A) (brk (st_pusher st1))" using assms(3) by simp
      have "left_alone (st_pusher st1) (st_pusher st') \<or> published_within (api_hes A) (auth_Tenant (api_hes A) g) (st_pusher st1) (st_pusher st')"
        using mux_patterns [OF assms(4) False] reading_is_quiet [of A r pat st g st1 resp st'] publishing_publishes [of A r pat st g st1 resp st']
          publish_within [OF assms(1,2) ok] batch_within [OF assms(1,2) ok] published_within_refl [OF ok] assms(4) Pair Inr
        by metis
      then show ?thesis using e by auto
    qed
  qed
qed

lemma publish_each_done:
  assumes "hesape_documented (api_hes A)" "check_forbids (api_hes A)" "pb_Name b \<noteq> []"
    and "broker_ok (api_hes A) (brk p)" "publish_each A g b l p = (None, p')"
  shows "\<exists>names. map (NewChannelName (api_hes A) g) l = map Inr names \<and>
    (\<forall>i < length names. \<exists>grant. api_Subscribe A (asked p @ map about (take i names)) (Subject (api_hes A) g) (ChannelJoin (api_hes A)) (about (names ! i)) = Inr grant) \<and>
    asked p' = asked p @ map about names \<and>
    carried p' = carried p @ (if is_carrier (api_env A) then map (event_of b) names else []) \<and>
    out p' = out p @ concat (map (local_copies (api_hes A) (brk p) b) names)"
  using assms(4,5)
proof (induction l arbitrary: p)
  case Nil
  then show ?case by simp
next
  case (Cons one l)
  obtain e q where one: "publish_one A g b one p = (e, q)" by force
  then have e: "e = None" "publish_each A g b l q = (None, p')" using Cons.prems(2) by (simp_all split: option.splits)
  obtain n grant where n: "NewChannelName (api_hes A) g one = Inr n"
    "api_Subscribe A (asked p) (Subject (api_hes A) g) (ChannelJoin (api_hes A)) (about n) = Inr grant"
    "asked q = asked p @ [about n]" "carried q = carried p @ (if is_carrier (api_env A) then [event_of b n] else [])"
    "out q = out p @ local_copies (api_hes A) (brk p) b n" "broker_ok (api_hes A) (brk q)" "same_members (brk p) (brk q)"
    using publish_one_effect [OF assms(1,2) Cons.prems(1) assms(3) one] e(1) by auto
  obtain names where ns: "map (NewChannelName (api_hes A) g) l = map Inr names"
    "\<forall>i < length names. \<exists>grant. api_Subscribe A (asked q @ map about (take i names)) (Subject (api_hes A) g) (ChannelJoin (api_hes A)) (about (names ! i)) = Inr grant"
    "asked p' = asked q @ map about names" "carried p' = carried q @ (if is_carrier (api_env A) then map (event_of b) names else [])"
    "out p' = out q @ concat (map (local_copies (api_hes A) (brk q) b) names)"
    using Cons.IH [OF n(6) e(2)] by blast
  have lc: "local_copies (api_hes A) (brk q) b = local_copies (api_hes A) (brk p) b"
    using local_copies_same [OF Cons.prems(1) n(7)] by blast
  have "\<exists>grant. api_Subscribe A (asked p @ map about (take i (n # names))) (Subject (api_hes A) g) (ChannelJoin (api_hes A)) (about ((n # names) ! i)) = Inr grant"
    if "i < length (n # names)" for i
  proof (cases i)
    case 0
    then show ?thesis using n(2) by simp
  next
    case (Suc k)
    then show ?thesis using ns(2) that n(3) by simp
  qed
  then show ?case using n ns lc by (intro exI [of _ "n # names"]) simp
qed

text \<open>Property C19. A published event reaches every channel it names. When a publication is accepted, its name is
  not the server's own and its data is JSON; the subscription policy was asked about each of the
  channels in turn, for the operator's subject and without a socket, and allowed each; everybody on
  each of these channels here, the excluded socket apart, is sent one copy, in the order the channels
  are named, whether or not somebody here is on a channel; and the other instances are handed one
  event for each.\<close>

theorem published_event_reaches_its_channels:
  assumes "hesape_documented (api_hes A)" "check_forbids (api_hes A)" "broker_ok (api_hes A) (brk p)"
    and "publish A g b p = (None, p')"
  shows "pb_Name b \<noteq> [] \<and> \<not> prefix ProtocolPrefix (pb_Name b) \<and> \<not> prefix InternalPrefix (pb_Name b) \<and> Valid (pb_Data b) \<and>
    (\<exists>names. names \<noteq> [] \<and> map requested names = channels_of b \<and> (\<forall>n \<in> set names. tenant n = auth_Tenant (api_hes A) g) \<and>
      (\<forall>i < length names. \<exists>grant. api_Subscribe A (asked p @ map about (take i names)) (Subject (api_hes A) g) (ChannelJoin (api_hes A)) (about (names ! i)) = Inr grant) \<and>
      asked p' = asked p @ map about names \<and>
      carried p' = carried p @ (if is_carrier (api_env A) then map (event_of b) names else []) \<and>
      out p' = out p @ concat (map (\<lambda>n. case map_of (held (brk p)) (name_String (api_hes A) n) of None \<Rightarrow> []
        | Some r \<Rightarrow> copies (gather (heap (brk p) ! r) (pb_SocketID b)) (the_frame (event_of b n))) names))"
proof -
  have p: "pb_Name b \<noteq> []" "\<not> prefix ProtocolPrefix (pb_Name b)" "\<not> prefix InternalPrefix (pb_Name b)" "Valid (pb_Data b)"
    "channels_of b \<noteq> []" "publish_each A g b (channels_of b) p = (None, p')"
    using assms(4) by (auto simp: publish_def split: if_splits)
  obtain names where ns: "map (NewChannelName (api_hes A) g) (channels_of b) = map Inr names"
    "\<forall>i < length names. \<exists>grant. api_Subscribe A (asked p @ map about (take i names)) (Subject (api_hes A) g) (ChannelJoin (api_hes A)) (about (names ! i)) = Inr grant"
    "asked p' = asked p @ map about names" "carried p' = carried p @ (if is_carrier (api_env A) then map (event_of b) names else [])"
    "out p' = out p @ concat (map (local_copies (api_hes A) (brk p) b) names)"
    using publish_each_done [OF assms(1,2) p(1) assms(3) p(6)] by blast
  have len: "length names = length (channels_of b)" using ns(1) by (metis length_map)
  have each: "NewChannelName (api_hes A) g (channels_of b ! i) = Inr (names ! i)" if "i < length names" for i
    using ns(1) that len by (metis nth_map)
  have "map requested names = channels_of b"
    using len NewChannelName_ok(2) [OF each assms(1)] by (intro nth_equalityI) simp_all
  moreover have "\<forall>n \<in> set names. tenant n = auth_Tenant (api_hes A) g"
    using NewChannelName_ok(1) [OF each assms(1)] by (metis in_set_conv_nth)
  moreover have "names \<noteq> []" using len p(5) by auto
  moreover have "local_copies (api_hes A) (brk p) b = (\<lambda>n. case map_of (held (brk p)) (name_String (api_hes A) n) of None \<Rightarrow> []
        | Some r \<Rightarrow> copies (gather (heap (brk p) ! r) (pb_SocketID b)) (the_frame (event_of b n)))"
    by (rule ext) (simp add: local_copies_def)
  ultimately show ?thesis using p(1-4) ns(2-5) by auto
qed

lemma member_ids_people: "channel_ok H c \<Longrightarrow> Presence (name_Type H (ch_name c)) \<Longrightarrow> set (member_ids c) = people c"
  by (auto simp: member_ids_def Pusher_Channel.Connections_def people_def channel_ok_def seated_ok_def image_image)

lemma insert_all: "distinct acc \<Longrightarrow> distinct (fold List.insert us acc) \<and> set (fold List.insert us acc) = set us \<union> set acc"
  by (induction us arbitrary: acc) auto

lemma append_unseen:
  "distinct acc \<Longrightarrow> distinct (fold (\<lambda>u seen. if u \<in> set seen then seen else seen @ [u]) us acc) \<and>
    set (fold (\<lambda>u seen. if u \<in> set seen then seen else seen @ [u]) us acc) = set us \<union> set acc"
  by (induction us arbitrary: acc) auto

lemma find_facts:
  assumes "route_find A r route st = (Inr (ref, g), st1)"
  shows "brk (st_pusher st1) = brk (st_pusher st) \<and> st_fleet st1 = st_fleet st \<and> (\<exists>k. map_of (held (brk (st_pusher st))) k = Some ref)"
proof (cases "enter A r route st")
  case (Pair y st0)
  show ?thesis
  proof (cases y)
    case (Inl resp)
    then show ?thesis using assms Pair by (simp add: route_find_def)
  next
    case (Inr g0)
    then have "st_pusher st0 = st_pusher st \<and> st_fleet st0 = st_fleet st" using Pair by (simp add: enter_granted)
    then show ?thesis using assms Pair Inr Find_held [of "api_hes A" _ _ "brk (st_pusher st)" ref]
      by (auto simp: route_find_def route_reach_def map_prod_def split_def split: sum.splits)
  qed
qed

lemma connections_card: "channel_ok H c \<Longrightarrow> length (Pusher_Channel.Connections c) = card (ids c)"
  using distinct_card [of "map fst (subscribers c)"] by (simp add: Pusher_Channel.Connections_def channel_ok_def ids_def)

lemma both_count:
  assumes "channel_ok H c" "Presence (name_Type H (ch_name c))" "distinct (ct_Users fleet)"
  shows "distinct (user_list c fleet)" "set (user_list c fleet) = people c \<union> set (ct_Users fleet)"
    "countMembers c (ct_Users fleet) = length (user_list c fleet)"
proof -
  note u = append_unseen [of "[]" "member_ids c @ Members fleet"] and m = insert_all [OF assms(3), of "member_ids c"]
  show d: "distinct (user_list c fleet)" using u by (simp add: user_list_def)
  show e: "set (user_list c fleet) = people c \<union> set (ct_Users fleet)"
    using u member_ids_people [OF assms(1,2)] by (simp add: user_list_def Members_def)
  have "set (fold List.insert (member_ids c) (ct_Users fleet)) = set (user_list c fleet)" using m e member_ids_people [OF assms(1,2)] by simp
  then show "countMembers c (ct_Users fleet) = length (user_list c fleet)"
    unfolding countMembers_def using m d by (metis distinct_card)
qed

text \<open>People are counted once over the whole fleet. On a presence channel the member count is the
  number of distinct people who are on it here or, as the other instances answered, elsewhere, and
  the list of users names exactly those, each once: the two routes agree, however many sockets and
  instances a person is on.\<close>

theorem people_are_counted_once:
  assumes "broker_ok (api_hes A) (brk (st_pusher st))"
    and "route_find A r RouteChannel st = (Inr (ref, g), st1)" "route_find A r RouteChannelUsers st = (Inr (ref, g), st2)"
    and "c = heap (brk (st_pusher st)) ! ref" "Presence (name_Type (api_hes A) (ch_name c))"
    and "fleet = tally_Channel (api_Fleet A (st_fleet st) g (requested (ch_name c))) (requested (ch_name c))" "distinct (ct_Users fleet)"
  shows "\<exists>us. distinct us \<and> set us = people c \<union> set (ct_Users fleet) \<and>
    fst (api_channelUsers A r st) = writeJSON 200 (json_object [(''users'', json_array (map (\<lambda>u. json_object [(''id'', json_string u)]) us))]) \<and>
    fst (api_channel A r st) = (let n = go_int (int (card (ids c)) + ct_Subscriptions fleet) in
      writeJSON 200 (json_object [(''occupied'', json_bool (n > 0)), (''subscription_count'', int_string n), (''user_count'', int_string (int (length us)))]))"
proof -
  note f1 = find_facts [OF assms(2)] and f2 = find_facts [OF assms(3)]
  then have ok: "channel_ok (api_hes A) c" using broker_ok_held(3) [OF assms(1)] assms(4) by blast
  note b = both_count [OF ok assms(5,7)]
  have "fst (api_channelUsers A r st) = writeJSON 200 (json_object [(''users'', json_array (map (\<lambda>u. json_object [(''id'', json_string u)]) (user_list c fleet)))])"
    using assms(3-6) f2 by (simp add: api_channelUsers_def ask_fleet_def Let_def)
  moreover have "fst (api_channel A r st) = (let n = go_int (int (card (ids c)) + ct_Subscriptions fleet) in
      writeJSON 200 (json_object [(''occupied'', json_bool (n > 0)), (''subscription_count'', int_string n), (''user_count'', int_string (int (length (user_list c fleet))))]))"
    using assms(2,4-6) f1 b(3) connections_card [OF ok] by (simp add: api_channel_def ask_fleet_def Let_def)
  ultimately show ?thesis using b(1,2) by blast
qed

section \<open>An operator\<close>

text \<open>A policy that lets everybody operate the tenant acme and read its channels, over one room with people in it.\<close>

definition api_grant :: "string \<Rightarrow> sample_grant" where
  "api_grant u = \<lparr>gr_subject = u, gr_tenant = ''acme'', gr_action = Operate\<rparr>"

definition sample_api :: "(sample_grant, string) API" where
  "sample_api = \<lparr>api_env = sample_env\<lparr>is_carrier := True\<rparr>, api_AppID = ''1'', api_Operate = Some (\<lambda>_ s _ _. Inr (api_grant s)),
     api_Subscribe = (\<lambda>_ s _ _. Inr (join_grant ''acme'' s)), api_Fleet = (\<lambda>_ _ _. no_tally), api_MaxBodySize = 1000\<rparr>"

definition sample_state :: "sample_grant api_state" where
  "sample_state = \<lparr>st_pusher = \<lparr>brk = one_room, seats = (\<lambda>_. []), joining = (\<lambda>_. 0), out = [], told = [], asked = [], carried = []\<rparr>,
     st_registry = new_registry 5, st_operated = [], st_fleet = [], st_log = []\<rparr>"

definition sample_request :: "string option \<Rightarrow> string api_request" where
  "sample_request s = \<lparr>hr_appId = ''1'', hr_channel = ''presence-room'', hr_userId = ''bob'', hr_subject = s, hr_Origin = [],
     hr_ContentType = [], hr_Body = Whole []\<rparr>"

definition sample_publication :: publishRequest where
  "sample_publication = \<lparr>pb_Name = ''news'', pb_Data = json_object [], pb_Channel = ''presence-room'', pb_Channels = [], pb_SocketID = ''1.1''\<rparr>"

lemma sample_api_facts: "api_hes sample_api = sample_hesape" "snk (api_env sample_api) = all_writes_work" "check_forbids sample_hesape"
  "auth_Tenant sample_hesape (api_grant u) = ''acme''" "Subject sample_hesape (api_grant u) = u"
  "api_Subscribe sample_api = (\<lambda>_ s _ _. Inr (join_grant ''acme'' s))" "is_carrier (api_env sample_api)"
  by (simp_all add: sample_api_def sample_env_def check_forbids_def sample_hesape_def api_grant_def)

lemma room_name: "NewChannelName sample_hesape (api_grant u) ''presence-room'' = Inr (ch_name room)"
  by (auto simp: NewChannelName_def sample_defs api_grant_def MaxChannelNameLength_def notChannelCharacter_def ChannelNameCharacters_def of_char_def)

lemma room_key: "name_String sample_hesape (ch_name room) = ''acme:presence-room''"
  by (simp add: name_String_def IsZero_def sample_hesape_def room_def)

lemma room_found: "Find sample_hesape (join_grant ''acme'' u) (ch_name room) one_room = Inr 0"
proof -
  have "broker_accepts sample_hesape (join_grant ''acme'' u) (ch_name room) = None"
    by (simp add: broker_accepts_def tenantOf_def sample_facts) (simp add: room_def IsZero_def)
  then show ?thesis by (simp add: Find_def one_room_def room_key)
qed

lemma empty_object: "Valid (json_object [])" "Compact (json_object []) = Some (json_object [])" "utf8 (json_object [])"
proof -
  show "utf8 (json_object [])" by (rule ascii_utf8) (simp add: json_object_def code_def of_char_def)
  show v: "Valid (json_object [])" using value_Valid value_object [of "[]" 9999] by (simp add: depth)
  show "Compact (json_object []) = Some (json_object [])" using v by (simp add: Compact_def json_object_def is_space_def)
qed

lemma sample_broadcast: "\<exists>c w. Broadcast sample_hesape all_writes_work (event_of sample_publication (ch_name room)) (room, []) = (None, c, w)"
proof -
  let ?e = "event_of sample_publication (ch_name room)"
  have ca: "channel_accepts room ?e = None" by (simp add: channel_accepts_def event_of_def sample_publication_def)
  have enc: "Encode (the_frame ?e) = Inr (json_object (frame_members (the_frame ?e)))"
    using ascii_names empty_object by (intro Encode_text) (simp_all add: the_frame_def event_of_def sample_publication_def utf8_frame_def room_def)
  have "fst (Broadcast sample_hesape all_writes_work ?e (room, [])) = None"
    by (simp add: Broadcast_def channel_send_def Let_def ca accepted_frame [OF sample_channels_ok(1) ca] sample_delivery [OF enc] split_def)
  then show ?thesis by (metis prod.collapse)
qed

lemma sample_publishes: "\<exists>p'. publish sample_api (api_grant ''op'') sample_publication (st_pusher sample_state) = (None, p')"
proof -
  obtain c w where b: "Broadcast sample_hesape all_writes_work (event_of sample_publication (ch_name room)) (room, []) = (None, c, w)"
    using sample_broadcast by blast
  have "\<exists>p'. publish_one sample_api (api_grant ''op'') sample_publication ''presence-room'' (st_pusher sample_state) = (None, p')"
    using b room_found [of "''op''"]
    by (simp add: publish_one_def sample_api_facts room_name route_reach_def on_channel_def sample_state_def Let_def)
      (simp add: one_room_def)
  then show ?thesis using empty_object(1)
    by (auto simp: publish_def sample_publication_def channels_of_def ProtocolPrefix_def InternalPrefix_def)
qed

theorem no_route_without_the_policy_witness:
  "st_pusher (snd (the (mux sample_api RouteTerminateConnections (sample_request None) sample_state))) = st_pusher sample_state \<and>
   rs_Status (fst (the (mux sample_api RouteTerminateConnections (sample_request None) sample_state))) = 401"
proof -
  obtain resp st' where m: "mux sample_api RouteTerminateConnections (sample_request None) sample_state = Some (resp, st')"
    by (cases "api_terminate sample_api (sample_request None) sample_state") (simp add: mux_def route_defs)
  have "enter sample_api (sample_request None) RouteTerminateConnections sample_state =
      map_prod Inl id (api_refuse 401 ''Unauthenticated.'' None sample_state)"
    by (simp add: enter_def sample_api_def sample_request_def)
  then have "rs_Status resp = 401" using m by (auto simp: mux_def route_defs api_terminate_def api_refuse_def writeJSON_def)
  then show ?thesis
    using no_route_without_the_policy [OF m] m by (simp add: route_defs sample_request_def)
qed

text \<open>A publication as it comes over the wire.\<close>

definition news_members :: "(string \<times> string) list" where
  "news_members = [(''name'', json_string ''news''), (''data'', json_string (json_object [])), (''channel'', json_string ''presence-room''),
    (''socket_id'', json_string ''1.1'')]"

definition news_request :: "string api_request" where
  "news_request = (sample_request (Some ''op''))\<lparr>hr_ContentType := ''application/json'', hr_Body := Whole (json_object news_members)\<rparr>"

lemma news_type: "declaresJSON news_request"
  unfolding declaresJSON_def news_request_def by code_simp

lemma news_length: "length (json_object news_members) \<le> 1000"
  by code_simp

lemma news_fields: "field_of publish_fields ''name'' = Some ''name''" "field_of publish_fields ''data'' = Some ''data''"
  "field_of publish_fields ''channel'' = Some ''channel''" "field_of publish_fields ''socket_id'' = Some ''socket_id''"
  by code_simp+

lemma news_utf8: "utf8 ''name''" "utf8 ''data''" "utf8 ''channel''" "utf8 ''socket_id''" "utf8 ''1.1''" "utf8 ''news''" "utf8 ''presence-room''"
  by (rule ascii_utf8; simp add: code_def of_char_def)+

lemma news_decoded: "decode sample_api (request_into no_request) news_request st = (Inr sample_publication, st)"
proof -
  let ?b = "json_object news_members"
  have ms: "\<forall>(k, v) \<in> set news_members. utf8 k \<and> value_at 9999 v"
    by (simp add: news_members_def news_utf8 empty_object(3) value_string)
  have "value_at maxNestingDepth ?b" using value_object [OF ms] by (simp add: depth)
  then have "scan_value maxNestingDepth (?b @ []) = Some []" "?b \<noteq> []" "\<not> is_space (hd ?b)" unfolding value_at_def by (auto simp: stops_def)
  then have "first_value (limited 1000 (Whole ?b)) = Some ?b"
    using news_length by (simp add: limited_def first_value_def skip_ws_id taken_def)
  moreover have "json_string s \<noteq> ''null''" for s by (simp add: json_string_def)
  then have "request_into no_request ?b = Some sample_publication"
    unfolding request_into_def members_object [OF ms]
    by (simp add: news_members_def news_fields no_request_def sample_publication_def unquote_json_string news_utf8 empty_object(3))
  ultimately show ?thesis using news_type by (simp add: decode_def sample_api_def) (simp add: news_request_def)
qed

lemma sample_carried:
  assumes "publish sample_api (api_grant ''op'') sample_publication (st_pusher sample_state) = (None, p')"
  shows "carried p' = [event_of sample_publication (ch_name room)]"
proof -
  have e: "pb_Name sample_publication \<noteq> []" "channels_of sample_publication = [''presence-room'']"
    "publish_each sample_api (api_grant ''op'') sample_publication [''presence-room''] (st_pusher sample_state) = (None, p')"
    using assms by (auto simp: publish_def channels_of_def sample_publication_def split: if_splits)
  have ok: "broker_ok (api_hes sample_api) (brk (st_pusher sample_state))" using one_room_facts(1) by (simp add: sample_api_facts sample_state_def)
  from publish_each_done [OF sample_documented [folded sample_api_facts(1)] sample_api_facts(3) [folded sample_api_facts(1)] e(1) ok e(3)]
  show ?thesis using sample_api_facts(7) by (auto simp: sample_api_facts room_name sample_state_def)
qed

theorem a_request_stays_in_its_tenant_witness:
  "\<exists>resp st'. mux sample_api RouteEvents news_request sample_state = Some (resp, st') \<and> rs_Status resp = 200 \<and>
    carried (st_pusher st') = [event_of sample_publication (ch_name room)] \<and>
    published_within sample_hesape ''acme'' (st_pusher sample_state) (st_pusher st')"
proof -
  obtain st1 where e: "enter sample_api news_request RouteEvents sample_state = (Inr (api_grant ''op''), st1)"
    by (simp add: enter_def sample_api_def news_request_def sample_request_def Let_def)
  then have st1: "st_pusher st1 = st_pusher sample_state" by (simp add: enter_granted)
  obtain p' where p: "publish sample_api (api_grant ''op'') sample_publication (st_pusher sample_state) = (None, p')" using sample_publishes by blast
  obtain resp st' where m: "mux sample_api RouteEvents news_request sample_state = Some (resp, st')" "rs_Status resp = 200" "st_pusher st' = p'"
    using e st1 p by (simp add: mux_def api_events_def news_decoded published_answer_def writeJSON_def)
  have ok: "broker_ok (api_hes sample_api) (brk (st_pusher sample_state))" using one_room_facts(1) by (simp add: sample_api_facts sample_state_def)
  note c = sample_carried [OF p]
  then have "\<not> left_alone (st_pusher sample_state) (st_pusher st')" using m(3) by (simp add: left_alone_def sample_state_def)
  moreover have "auth_Tenant sample_hesape g = ''acme''" if "operator sample_api news_request RouteEvents sample_state g" for g
    using that by (auto simp: operator_def sample_api_def news_request_def sample_request_def sample_hesape_def api_grant_def)
  ultimately have "published_within sample_hesape ''acme'' (st_pusher sample_state) (st_pusher st')"
    using a_request_stays_in_its_tenant [OF _ _ ok m(1)] sample_documented by (auto simp: sample_api_facts)
  then show ?thesis using m c by blast
qed

theorem published_event_reaches_its_channels_witness:
  "\<exists>p'. publish sample_api (api_grant ''op'') sample_publication (st_pusher sample_state) = (None, p') \<and>
    carried p' = [event_of sample_publication (ch_name room)] \<and> map fst (out p') = [''1.2'', ''2.1'']"
proof -
  let ?g = "api_grant ''op''" and ?b = sample_publication and ?p = "st_pusher sample_state"
  obtain p' where p: "publish sample_api ?g ?b ?p = (None, p')" using sample_publishes by blast
  have ok: "broker_ok (api_hes sample_api) (brk ?p)" using one_room_facts(1) by (simp add: sample_api_facts sample_state_def)
  have state: "brk ?p = one_room" "out ?p = []" "carried ?p = []" "asked ?p = []" by (simp_all add: sample_state_def)
  have channels: "channels_of ?b = [''presence-room'']" "pb_SocketID ?b = ''1.1''" by (simp_all add: channels_of_def sample_publication_def)
  note r = published_event_reaches_its_channels [OF sample_documented [folded sample_api_facts(1)] sample_api_facts(3) [folded sample_api_facts(1)] ok p,
      unfolded sample_api_facts state channels]
  from r obtain names where n: "map requested names = [''presence-room'']" "\<forall>n \<in> set names. tenant n = ''acme''"
    "carried p' = [] @ (if is_carrier (api_env sample_api) then map (event_of ?b) names else [])"
    "out p' = [] @ concat (map (\<lambda>n. case map_of (held one_room) (name_String sample_hesape n) of None \<Rightarrow> []
        | Some r \<Rightarrow> copies (gather (heap one_room ! r) ''1.1'') (the_frame (event_of ?b n))) names)"
    by (elim conjE exE) (rule that)
  then have names: "names = [ch_name room]"
    by (auto simp: room_def intro!: name_eqI)
  have enc: "Encode (the_frame (event_of ?b (ch_name room))) = Inr (json_object (frame_members (the_frame (event_of ?b (ch_name room)))))"
    using ascii_names empty_object by (intro Encode_text) (simp_all add: the_frame_def event_of_def sample_publication_def utf8_frame_def room_def)
  have "heap one_room ! 0 = room" "gather room ''1.1'' = [snd (seat_of ''ana'' ''1.2''), snd (seat_of ''bob'' ''2.1'')]"
    by (simp_all add: one_room_def room_def seat_of_def gather_def)
  then have "map fst (out p') = [''1.2'', ''2.1'']"
    using n(4) names enc room_key by (simp add: one_room_def copies_def) (simp add: seat_of_def sample_conn_def)
  then show ?thesis using p n(3) names sample_api_facts(7) by auto
qed

theorem people_are_counted_once_witness:
  "\<exists>us. distinct us \<and> set us = {''ana'', ''bob''} \<and>
    fst (api_channel sample_api (sample_request (Some ''op'')) sample_state) = writeJSON 200 (json_object
      [(''occupied'', json_bool True), (''subscription_count'', int_string 3), (''user_count'', int_string (int (length us)))])"
proof -
  let ?r = "sample_request (Some ''op'')"
  have ok: "broker_ok (api_hes sample_api) (brk (st_pusher sample_state))" using one_room_facts(1) by (simp add: sample_api_facts sample_state_def)
  have f: "\<exists>st1. route_find sample_api ?r route sample_state = (Inr (0, join_grant ''acme'' ''op''), st1)" for route
  proof -
    obtain st0 where e: "enter sample_api ?r route sample_state = (Inr (api_grant ''op''), st0)"
      by (simp add: enter_def sample_api_def sample_request_def Let_def)
    then have "st_pusher st0 = st_pusher sample_state" by (simp add: enter_granted)
    moreover have st: "hr_channel ?r = ''presence-room''" "brk (st_pusher sample_state) = one_room"
      by (simp_all add: sample_request_def sample_state_def)
    ultimately show ?thesis using e room_found [of "''op''"] room_name [of "''op''"]
        st by (simp add: route_find_def sample_api_facts route_reach_def)
  qed
  obtain st1 st2 where st: "route_find sample_api ?r RouteChannel sample_state = (Inr (0, join_grant ''acme'' ''op''), st1)"
    "route_find sample_api ?r RouteChannelUsers sample_state = (Inr (0, join_grant ''acme'' ''op''), st2)" using f by blast
  have c: "heap (brk (st_pusher sample_state)) ! 0 = room" by (simp add: sample_state_def one_room_def)
  have pr: "Presence (name_Type (api_hes sample_api) (ch_name room))" by (simp add: sample_api_facts type_properties [OF sample_documented] room_def)
  have t: "tally_Channel (api_Fleet sample_api (st_fleet sample_state) (join_grant ''acme'' ''op'') x) x = no_channel_tally" for x
    by (simp add: sample_api_def tally_Channel_def no_tally_def)
  have k: "people room = {''ana'', ''bob''}" "card (ids room) = 3"
    by (auto simp: people_def ids_def room_def seat_of_def)
  have n: "go_int (int (card (ids room)) + ct_Subscriptions no_channel_tally) = 3" "distinct (ct_Users no_channel_tally)" "ct_Users no_channel_tally = []"
    "json_bool (0 < (3::int)) = json_bool True"
    by (simp_all add: k no_channel_tally_def go_int_fits)
  from people_are_counted_once [OF ok st c [symmetric] pr t [symmetric] n(2)] obtain us where
    us: "distinct us" "set us = people room \<union> set (ct_Users no_channel_tally)"
      "fst (api_channel sample_api ?r sample_state) = writeJSON 200 (json_object
        [(''occupied'', json_bool (0 < (3::int))), (''subscription_count'', int_string 3), (''user_count'', int_string (int (length us)))])"
    unfolding Let_def n(1) by blast
  have "set us = {''ana'', ''bob''}" using us(2) by (simp add: k(1) n(3))
  then show ?thesis using us(1) us(3) [unfolded n(4)] by blast
qed

end
