(* ===== verification/Joaju_Broadcaster.thy ===== *)
theory Joaju_Broadcaster
  imports Pusher_Routes
begin

text \<open>
  \<^verbatim>\<open>broadcaster.go\<close>: the driver that delivers what an application broadcasts through hesape by the
  channels the server holds. Authentication stays with the broadcaster it was given, which is an
  argument; delivery goes through the broker, and to the other instances where the broker carries.
\<close>

section \<open>The driver\<close>

text \<open>
  What hesape's broadcaster answers about a channel, and the response it makes of it, of any type.
  \<open>hb_env\<close> is the broker's side: whether it carries, and the sinks it writes to.
\<close>

record ('g, 's, 'a) HesapeBroadcaster =
  hb_authorization :: "(string \<Rightarrow> 'g \<times> 'a \<times> jerr option) \<times> ('g \<Rightarrow> string \<Rightarrow> 'a \<Rightarrow> 'a \<times> jerr option)"
  hb_env :: "('g, 's) pusher_env"

definition NewHesapeBroadcaster :: "((string \<Rightarrow> 'g \<times> 'a \<times> jerr option) \<times> ('g \<Rightarrow> string \<Rightarrow> 'a \<Rightarrow> 'a \<times> jerr option)) option \<Rightarrow> ('g, 's) pusher_env option \<Rightarrow>
    string + ('g, 's, 'a) HesapeBroadcaster" where
  "NewHesapeBroadcaster authorization broker =
    (case authorization of
       None \<Rightarrow> Inl ''joaju: a Hesape broadcaster needs the application's broadcasting authenticator''
     | Some au \<Rightarrow>
         (case broker of
            None \<Rightarrow> Inl ''joaju: a Hesape broadcaster needs the Broker that holds the server's channels''
          | Some E \<Rightarrow> Inr \<lparr>hb_authorization = au, hb_env = E\<rparr>))"

definition hb_Auth :: "('g, 's, 'a) HesapeBroadcaster \<Rightarrow> string \<Rightarrow> 'g \<times> 'a \<times> jerr option" where
  "hb_Auth b channel = fst (hb_authorization b) channel"

definition hb_ValidAuthenticationResponse :: "('g, 's, 'a) HesapeBroadcaster \<Rightarrow> 'g \<Rightarrow> string \<Rightarrow> 'a \<Rightarrow> 'a \<times> jerr option" where
  "hb_ValidAuthenticationResponse b g channel result = snd (hb_authorization b) g channel result"

section \<open>What is broadcast\<close>

text \<open>
  A value of the payload is a string, or something else with what encoding it gives. The map is
  encoded in the order of its keys.
\<close>

datatype payload_value = PText string | POther "string option"

type_synonym payload = "(string \<times> payload_value) list"

fun value_text :: "payload_value \<Rightarrow> string option" where
  "value_text (PText s) = Some (json_string s)"
| "value_text (POther e) = e"

definition encode_payload :: "payload \<Rightarrow> string option" where
  "encode_payload data =
    (let ms = map (\<lambda>(k, v). (k, value_text v)) (sort_key fst data)
     in if list_all (\<lambda>(_, v). v \<noteq> None) ms then Some (json_object (map (\<lambda>(k, v). (k, the v)) ms)) else None)"

definition payload_socket :: "payload \<Rightarrow> SocketID" where
  "payload_socket data = (case map_of data ''socket'' of Some (PText s) \<Rightarrow> s | _ \<Rightarrow> [])"

fun broadcast_each :: "('g, 's) pusher_env \<Rightarrow> 'g \<Rightarrow> string \<Rightarrow> string \<Rightarrow> SocketID \<Rightarrow> string list \<Rightarrow> 'g pusher \<Rightarrow> jerr option \<times> 'g pusher" where
  "broadcast_each E g event enc socket [] p = (None, p)"
| "broadcast_each E g event enc socket (one # rest) p =
    (case NewChannelName (hes E) g one of
       Inl err \<Rightarrow> (Some err, p)
     | Inr name \<Rightarrow>
         let message = \<lparr>ev_Name = event, ev_Channel = name, ev_Data = enc, ev_Socket = socket, ev_UserID = []\<rparr> in
         (case Find (hes E) g name (brk p) of
            Inl err \<Rightarrow>
              if is_no_channel err then broadcast_each E g event enc socket rest (carry E message p)
              else (Some err, p)
          | Inr r \<Rightarrow>
              (case on_channel r (Broadcast (hes E) (snk E) message) p of
                 (Some err, p1) \<Rightarrow> (Some err, p1)
               | (None, p1) \<Rightarrow> broadcast_each E g event enc socket rest (carry E message p1))))"

definition hb_Broadcast :: "('g, 's, 'a) HesapeBroadcaster \<Rightarrow> 'g \<Rightarrow> string list \<Rightarrow> string \<Rightarrow> payload \<Rightarrow> 'g pusher \<Rightarrow> jerr option \<times> 'g pusher" where
  "hb_Broadcast b g channels event payload p =
    (if channels = [] then (None, p)
     else if event = [] then (Some (ErrOther ''joaju: a broadcast needs an event name''), p)
     else if prefix ProtocolPrefix event \<or> prefix InternalPrefix event then
       (Some (ErrOther ''joaju: a reserved event name, and only the protocol may send one''), p)
     else
       let socket = payload_socket payload;
           data = AList.delete ''socket'' payload
       in case encode_payload data of
         None \<Rightarrow> (Some (ErrOther ''broadcasting: encoding the payload''), p)
       | Some enc \<Rightarrow> broadcast_each (hb_env b) g event enc socket channels p)"

section \<open>Broadcasting is publishing\<close>

text \<open>
  The publication that says the same over the API, and an API whose subscription policy hands out
  the grant of the broadcast for every channel.
\<close>

definition publication :: "string list \<Rightarrow> string \<Rightarrow> string \<Rightarrow> SocketID \<Rightarrow> publishRequest" where
  "publication channels event data socket = \<lparr>pb_Name = event, pb_Data = data, pb_Channel = [], pb_Channels = channels, pb_SocketID = socket\<rparr>"

definition trusting :: "('g, 's) pusher_env \<Rightarrow> 'g \<Rightarrow> ('g, 's) API" where
  "trusting E g = \<lparr>api_env = E, api_AppID = [], api_Operate = None, api_Subscribe = (\<lambda>_ _ _ _. Inr g),
    api_Fleet = (\<lambda>_ _ _. \<lparr>ft_Connections = 0, ft_Channels = []\<rparr>), api_MaxBodySize = 0\<rparr>"

lemma on_channel_asked: "on_channel r f (p\<lparr>asked := a\<rparr>) = map_prod id (\<lambda>q. q\<lparr>asked := a\<rparr>) (on_channel r f p)"
  by (simp add: on_channel_def split_def Let_def)

lemma carry_asked: "carry E m (p\<lparr>asked := a\<rparr>) = (carry E m p)\<lparr>asked := a\<rparr>"
  by (simp add: carry_def)

lemma trusting_reach: "route_reach (trusting E g) s n p = (Inr g, p\<lparr>asked := asked p @ [about n]\<rparr>)" "api_hes (trusting E g) = hes E" "api_env (trusting E g) = E"
  by (simp_all add: route_reach_def trusting_def)

lemma broadcast_each_publish:
  "broadcast_each E g event data socket l (p\<lparr>asked := a\<rparr>) =
    map_prod id (\<lambda>q. q\<lparr>asked := a\<rparr>) (publish_each (trusting E g) g (publication channels event data socket) l p)"
proof (induction l arbitrary: p)
  case (Cons one l)
  let ?b = "publication channels event data socket"
  show ?case
  proof (cases "NewChannelName (hes E) g one")
    case (Inl err)
    then show ?thesis by (simp add: publish_one_def trusting_reach)
  next
    case (Inr name)
    let ?m = "\<lparr>ev_Name = event, ev_Channel = name, ev_Data = data, ev_Socket = socket, ev_UserID = []\<rparr>"
    have m: "event_of ?b name = ?m" by (simp add: event_of_def publication_def)
    let ?p = "p\<lparr>asked := asked p @ [about name]\<rparr>"
    have again: "broadcast_each E g event data socket l ((carry E ?m q)\<lparr>asked := a\<rparr>) =
        map_prod id (\<lambda>q. q\<lparr>asked := a\<rparr>) (publish_each (trusting E g) g ?b l (carry E ?m q))" for q by (rule Cons.IH)
    have same: "(carry E ?m ?p)\<lparr>asked := a\<rparr> = carry E ?m (p\<lparr>asked := a\<rparr>)" by (simp add: carry_asked)
    show ?thesis
    proof (cases "Find (hes E) g name (brk p)")
      case (Inl err)
      then show ?thesis using Inr m again [of ?p, unfolded same]
        by (cases "is_no_channel err") (simp_all add: publish_one_def trusting_reach Let_def id_def)
    next
      case (Inr r)
      obtain e q where o: "on_channel r (Broadcast (hes E) (snk E) ?m) p = (e, q)" by force
      have oa: "on_channel r (Broadcast (hes E) (snk E) ?m) (p\<lparr>asked := x\<rparr>) = (e, q\<lparr>asked := x\<rparr>)" for x by (simp add: on_channel_asked o)
      have "(carry E ?m (q\<lparr>asked := asked p @ [about name]\<rparr>))\<lparr>asked := a\<rparr> = carry E ?m (q\<lparr>asked := a\<rparr>)" by (simp add: carry_asked)
      then show ?thesis using Inr \<open>NewChannelName (hes E) g one = Inr name\<close> m again [of "q\<lparr>asked := asked p @ [about name]\<rparr>"]
        by (cases e) (simp_all add: publish_one_def trusting_reach oa Let_def id_def)
    qed
  qed
qed simp

lemma broadcast_publish:
  "broadcast_each E g event data socket l p =
    map_prod id (\<lambda>q. q\<lparr>asked := asked p\<rparr>) (publish_each (trusting E g) g (publication channels event data socket) l p)"
  using broadcast_each_publish [where p = p and a = "asked p"] by simp

text \<open>Property C39. A broadcast is a publication without a policy. When an application broadcasts to channels a payload
  that can be encoded, it is refused exactly when the publication of the same event over the API is,
  by an operator every channel is granted to; the channels, what was sent and what the other
  instances were handed end up the same, and no policy was asked anything. The socket the payload
  names is left out of the delivery, and its name out of the data.\<close>

theorem broadcasting_is_publishing:
  assumes "channels \<noteq> []" "encode_payload (AList.delete ''socket'' payload) = Some data" "Valid data"
    and "hb_Broadcast b g channels event payload p = (e, p')"
    and "publish (trusting (hb_env b) g) g (publication channels event data (payload_socket payload)) p = (e', q)"
  shows "(e = None \<longleftrightarrow> e' = None) \<and> p' = q\<lparr>asked := asked p\<rparr>"
proof -
  let ?b = "publication channels event data (payload_socket payload)"
  have c: "channels_of ?b = channels" "pb_Name ?b = event" "pb_Data ?b = data" by (simp_all add: channels_of_def publication_def)
  show ?thesis using assms broadcast_publish [of "hb_env b" g event data "payload_socket payload" channels p channels]
    by (auto simp: hb_Broadcast_def publish_def c Let_def split: if_splits)
qed

section \<open>What a broadcast reaches\<close>

lemma broadcast_reaches:
  assumes "hesape_documented (hes (hb_env b))" "check_forbids (hes (hb_env b))" "broker_ok (hes (hb_env b)) (brk p)"
    and "channels \<noteq> []" "encode_payload (AList.delete ''socket'' payload) = Some data" "hb_Broadcast b g channels event payload p = (None, p')"
  shows "\<exists>names. map (NewChannelName (hes (hb_env b)) g) channels = map Inr names \<and> asked p' = asked p \<and>
    out p' = out p @ concat (map (local_copies (hes (hb_env b)) (brk p) (publication channels event data (payload_socket payload))) names)"
proof -
  let ?b = "publication channels event data (payload_socket payload)"
  have e: "event \<noteq> []" "broadcast_each (hb_env b) g event data (payload_socket payload) channels p = (None, p')"
    using assms(4-6) by (auto simp: hb_Broadcast_def Let_def split: if_splits)
  obtain e' q where q: "publish_each (trusting (hb_env b) g) g ?b channels p = (e', q)" by force
  then have "e' = None" "p' = q\<lparr>asked := asked p\<rparr>"
    using e(2) broadcast_publish [of "hb_env b" g event data "payload_socket payload" channels p channels] by simp_all
  then show ?thesis
    using publish_each_done [of "trusting (hb_env b) g" ?b p g channels q] assms(1-3) e(1) q by (auto simp: trusting_reach publication_def)
qed

section \<open>Witness\<close>

definition sample_broadcaster :: "(sample_grant, string, unit) HesapeBroadcaster" where
  "sample_broadcaster = \<lparr>hb_authorization = ((\<lambda>_. (join_grant ''acme'' ''app'', (), None)), (\<lambda>_ _ r. (r, None))), hb_env = api_env sample_api\<rparr>"

lemma sample_broadcast_publishes:
  "\<exists>q. publish (trusting (hb_env sample_broadcaster) (join_grant ''acme'' ''app'')) (join_grant ''acme'' ''app'')
      (publication [''presence-room''] ''news'' (json_object []) ''1.1'') (st_pusher sample_state) = (None, q) \<and>
    carried q = [event_of sample_publication (ch_name room)]"
proof -
  let ?g = "join_grant ''acme'' ''app''" and ?b = "publication [''presence-room''] ''news'' (json_object []) ''1.1''"
  let ?A = "trusting (hb_env sample_broadcaster) ?g"
  obtain c w where b: "Broadcast sample_hesape all_writes_work (event_of sample_publication (ch_name room)) (room, []) = (None, c, w)"
    using sample_broadcast by blast
  have n: "NewChannelName sample_hesape ?g ''presence-room'' = Inr (ch_name room)"
    by (auto simp: NewChannelName_def sample_defs MaxChannelNameLength_def notChannelCharacter_def ChannelNameCharacters_def of_char_def)
  have ev: "event_of ?b = event_of sample_publication" by (simp add: event_of_def publication_def sample_publication_def fun_eq_iff)
  have env: "hes (hb_env sample_broadcaster) = sample_hesape" "snk (hb_env sample_broadcaster) = all_writes_work" "is_carrier (hb_env sample_broadcaster)"
    using sample_api_facts by (simp_all add: sample_broadcaster_def)
  have "\<exists>q. publish_one ?A ?g ?b ''presence-room'' (st_pusher sample_state) = (None, q) \<and> carried q = [event_of sample_publication (ch_name room)]"
    using b room_found [of "''app''"]
    by (simp add: publish_one_def trusting_reach env n ev on_channel_def sample_state_def Let_def) (simp add: one_room_def carry_def trusting_reach env)
  then show ?thesis using empty_object(1)
    by (auto simp: publish_def publication_def channels_of_def ProtocolPrefix_def InternalPrefix_def)
qed

theorem broadcasting_is_publishing_witness:
  "\<exists>p'. hb_Broadcast sample_broadcaster (join_grant ''acme'' ''app'') [''presence-room''] ''news'' [(''socket'', PText ''1.1'')] (st_pusher sample_state) = (None, p') \<and>
    carried p' = [event_of sample_publication (ch_name room)] \<and> asked p' = []"
proof -
  let ?g = "join_grant ''acme'' ''app''" and ?p = "st_pusher sample_state" and ?pay = "[(''socket'', PText ''1.1'')]"
  obtain e p' where h: "hb_Broadcast sample_broadcaster ?g [''presence-room''] ''news'' ?pay ?p = (e, p')" by force
  have s: "payload_socket ?pay = ''1.1''" by (simp add: payload_socket_def)
  obtain q where u: "publish (trusting (hb_env sample_broadcaster) ?g) ?g (publication [''presence-room''] ''news'' (json_object []) (payload_socket ?pay)) ?p = (None, q)"
    "carried q = [event_of sample_publication (ch_name room)]" using sample_broadcast_publishes s by auto
  have "encode_payload (AList.delete ''socket'' ?pay) = Some (json_object [])" by (simp add: encode_payload_def)
  then have "e = None" "p' = q\<lparr>asked := asked ?p\<rparr>" using broadcasting_is_publishing [OF _ _ empty_object(1) h u(1)] by simp_all
  then show ?thesis using h u(2) by (simp add: sample_state_def)
qed

end
