(* ===== verification/Joaju_Redis.thy ===== *)
theory Joaju_Redis
  imports Joaju_Metrics
begin

text \<open>
  \<^verbatim>\<open>redis/redis.go\<close>: the bus of the relay over a connection that publishes and subscribes. The
  connection is the driver's, an argument; here are the three arguments the bus refuses, and that the
  relay never gives it one of them.
\<close>

section \<open>The bus\<close>

text \<open>
  A connection: what publishing answers, which may depend on everything that was published before,
  and what subscribing to channels with a callback answers when it returns.
\<close>

record 'c redis_conn =
  rc_Publish :: bus
  rc_Subscribe :: "string list \<Rightarrow> 'c \<Rightarrow> string"

definition NewBus :: "'c redis_conn option \<Rightarrow> string + 'c redis_conn" where
  "NewBus conn =
    (case conn of
       None \<Rightarrow> Inl ''joaju/redis: a bus needs an open connection; an instance with no Redis passes a nil Bus to joaju.NewRelay instead''
     | Some c \<Rightarrow> Inr c)"

definition redis_Publish :: "'c redis_conn \<Rightarrow> bus" where
  "redis_Publish b = (\<lambda>before channel message.
    if channel = [] then Inl ''joaju/redis: publish was given no channel'' else rc_Publish b before channel message)"

definition redis_Subscribe :: "'c redis_conn \<Rightarrow> string list \<Rightarrow> 'c option \<Rightarrow> string" where
  "redis_Subscribe b channels callback =
    (if channels = [] then ''joaju/redis: subscribe was given no channels; it would block forever and deliver nothing''
     else case callback of
       None \<Rightarrow> ''joaju/redis: subscribe was given no callback; the first message would panic the goroutine it arrived on''
     | Some f \<Rightarrow> rc_Subscribe b channels f)"

section \<open>What the relay asks of it\<close>

lemma redis_Publish_topic: "t \<noteq> [] \<Longrightarrow> bus_Publish (redis_Publish b) t m r = bus_Publish (rc_Publish b) t m r"
  by (simp add: bus_Publish_def redis_Publish_def)

lemma topics_are_names: "\<not> IsZero n \<Longrightarrow> Topic H n \<noteq> []" "MetricsTopic \<noteq> []" "MetricsReplyTopic i \<noteq> []"
  by (simp_all add: Topic_def TopicPrefix_def MetricsTopic_def MetricsReplyTopic_def)

lemma publish_over_bus: "relay_Publish H (redis_Publish b) e r = relay_Publish H (rc_Publish b) e r"
  by (cases "IsZero (ev_Channel e)") (simp_all add: relay_Publish_def redis_Publish_topic topics_are_names split: option.splits)

lemma answer_over_bus: "relay_answer H (redis_Publish b) s bk over payload r = relay_answer H (rc_Publish b) s bk over payload r"
  unfolding relay_answer_def redis_Publish_topic [OF topics_are_names(3)] by (rule refl)

lemma ask_over_bus: "relay_ask H (redis_Publish b) g channel random ws r = relay_ask H (rc_Publish b) g channel random ws r"
  unfolding relay_ask_def ask_start_def redis_Publish_topic [OF topics_are_names(2)] by (rule refl)

text \<open>The relay cannot tell the bus from the connection. Publishing an event, asking the fleet,
  answering a question and listening on one topic do over the bus exactly what they do over the connection underneath it, in
  every state: the relay never publishes to no channel, so nothing it says is refused on the way.\<close>

lemma the_bus_changes_nothing:
  "relay_Publish H (redis_Publish b) e r = relay_Publish H (rc_Publish b) e r \<and>
   relay_answer H (redis_Publish b) s bk over payload r = relay_answer H (rc_Publish b) s bk over payload r \<and>
   relay_ask H (redis_Publish b) g channel random ws r = relay_ask H (rc_Publish b) g channel random ws r \<and>
   redis_Subscribe b [topic] (Some f) = rc_Subscribe b [topic] f"
  by (simp add: publish_over_bus answer_over_bus ask_over_bus redis_Subscribe_def)

end
