(* ===== verification/Go_Crypto.thy ===== *)
theory Go_Crypto
  imports Json
begin

text \<open>
  What the program uses of the standard library's hash functions and encodings: \<open>crypto/sha1\<close> and
  \<open>encoding/base64\<close> in the handshake, \<open>crypto/sha256\<close> under \<open>crypto/hmac\<close> in the signatures,
  \<open>crypto/md5\<close> in the digest of a body, and \<open>encoding/hex\<close>. A Go \<open>[]byte\<close> is a list of bytes. The
  functions are the published algorithms and compute; no theorem about the program assumes that they
  have no collisions.
\<close>

section \<open>Blocks and words\<close>

fun chunks :: "nat \<Rightarrow> nat \<Rightarrow> 'a list \<Rightarrow> 'a list list" where
  "chunks 0 n xs = []"
| "chunks (Suc k) n xs = (if xs = [] then [] else take n xs # chunks k n (drop n xs))"

definition blocks :: "nat \<Rightarrow> 'a list \<Rightarrow> 'a list list" where
  "blocks n xs = chunks (length xs) n xs"

definition word_be :: "byte list \<Rightarrow> 32 word" where
  "word_be bs = foldl (\<lambda>w b. push_bit 8 w OR ucast b) 0 bs"

definition bytes_be :: "32 word \<Rightarrow> byte list" where
  "bytes_be w = map (\<lambda>i. ucast (drop_bit (24 - 8 * i) w)) [0..<4]"

text \<open>The message, a one bit, zeros up to eight bytes short of a block, and the length in bits.\<close>

definition length_be :: "nat \<Rightarrow> byte list" where
  "length_be n = map (\<lambda>i. of_nat (n div 256 ^ (7 - i))) [0..<8]"

definition padded :: "(byte list \<Rightarrow> byte list) \<Rightarrow> byte list \<Rightarrow> byte list" where
  "padded order m = m @ [0x80] @ replicate ((119 - length m mod 64) mod 64) 0 @ order (length_be (8 * length m))"

definition block_words :: "(byte list \<Rightarrow> byte list) \<Rightarrow> byte list \<Rightarrow> 32 word list" where
  "block_words order b = map (word_be \<circ> order) (blocks 4 b)"

section \<open>SHA-1\<close>

fun sha1_extend :: "nat \<Rightarrow> 32 word list \<Rightarrow> 32 word list" where
  "sha1_extend 0 w = w"
| "sha1_extend (Suc n) w =
    (let t = length w in sha1_extend n (w @ [word_rotl 1 (w ! (t - 3) XOR w ! (t - 8) XOR w ! (t - 14) XOR w ! (t - 16))]))"

definition sha1_round :: "32 word list \<Rightarrow> nat \<times> 32 word \<Rightarrow> 32 word list" where
  "sha1_round s = (\<lambda>(t, w).
    (let a = s ! 0; b = s ! 1; c = s ! 2; d = s ! 3; e = s ! 4;
         (f, k) = (if t < 20 then ((b AND c) OR (NOT b AND d), 0x5a827999)
                   else if t < 40 then (b XOR c XOR d, 0x6ed9eba1)
                   else if t < 60 then ((b AND c) OR (b AND d) OR (c AND d), 0x8f1bbcdc)
                   else (b XOR c XOR d, 0xca62c1d6))
     in [word_rotl 5 a + f + e + k + w, a, word_rotl 30 b, c, d]))"

definition sha1_block :: "32 word list \<Rightarrow> byte list \<Rightarrow> 32 word list" where
  "sha1_block h b = map2 (+) h (foldl sha1_round h (zip [0..<80] (sha1_extend 64 (block_words id b))))"

definition Sha1 :: "byte list \<Rightarrow> byte list" where
  "Sha1 m = concat (map bytes_be (foldl sha1_block [0x67452301, 0xefcdab89, 0x98badcfe, 0x10325476, 0xc3d2e1f0]
     (blocks 64 (padded id m))))"

section \<open>SHA-256\<close>

definition sha256_k :: "32 word list" where
  "sha256_k =
    [1116352408, 1899447441, 3049323471, 3921009573, 961987163, 1508970993, 2453635748, 2870763221,
     3624381080, 310598401, 607225278, 1426881987, 1925078388, 2162078206, 2614888103, 3248222580,
     3835390401, 4022224774, 264347078, 604807628, 770255983, 1249150122, 1555081692, 1996064986,
     2554220882, 2821834349, 2952996808, 3210313671, 3336571891, 3584528711, 113926993, 338241895,
     666307205, 773529912, 1294757372, 1396182291, 1695183700, 1986661051, 2177026350, 2456956037,
     2730485921, 2820302411, 3259730800, 3345764771, 3516065817, 3600352804, 4094571909, 275423344,
     430227734, 506948616, 659060556, 883997877, 958139571, 1322822218, 1537002063, 1747873779,
     1955562222, 2024104815, 2227730452, 2361852424, 2428436474, 2756734187, 3204031479, 3329325298]"

fun sha256_extend :: "nat \<Rightarrow> 32 word list \<Rightarrow> 32 word list" where
  "sha256_extend 0 w = w"
| "sha256_extend (Suc n) w =
    (let t = length w; x = w ! (t - 15); y = w ! (t - 2);
         s0 = word_rotr 7 x XOR word_rotr 18 x XOR drop_bit 3 x;
         s1 = word_rotr 17 y XOR word_rotr 19 y XOR drop_bit 10 y
     in sha256_extend n (w @ [w ! (t - 16) + s0 + w ! (t - 7) + s1]))"

definition sha256_round :: "32 word list \<Rightarrow> 32 word \<times> 32 word \<Rightarrow> 32 word list" where
  "sha256_round s = (\<lambda>(k, w).
    (let a = s ! 0; b = s ! 1; c = s ! 2; d = s ! 3; e = s ! 4; f = s ! 5; g = s ! 6; h = s ! 7;
         t1 = h + (word_rotr 6 e XOR word_rotr 11 e XOR word_rotr 25 e) + ((e AND f) XOR (NOT e AND g)) + k + w;
         t2 = (word_rotr 2 a XOR word_rotr 13 a XOR word_rotr 22 a) + ((a AND b) XOR (a AND c) XOR (b AND c))
     in [t1 + t2, a, b, c, d + t1, e, f, g]))"

definition sha256_block :: "32 word list \<Rightarrow> byte list \<Rightarrow> 32 word list" where
  "sha256_block h b = map2 (+) h (foldl sha256_round h (zip sha256_k (sha256_extend 48 (block_words id b))))"

definition Sha256 :: "byte list \<Rightarrow> byte list" where
  "Sha256 m = concat (map bytes_be (foldl sha256_block
    [0x6a09e667, 0xbb67ae85, 0x3c6ef372, 0xa54ff53a, 0x510e527f, 0x9b05688c, 0x1f83d9ab, 0x5be0cd19]
    (blocks 64 (padded id m))))"

text \<open>\<open>crypto/hmac\<close> over SHA-256.\<close>

definition Hmac :: "byte list \<Rightarrow> byte list \<Rightarrow> byte list" where
  "Hmac key m =
    (let k0 = (if length key > 64 then Sha256 key else key);
         k = k0 @ replicate (64 - length k0) 0
     in Sha256 (map (\<lambda>b. b XOR 0x5c) k @ Sha256 (map (\<lambda>b. b XOR 0x36) k @ m)))"

section \<open>MD5\<close>

definition md5_k :: "32 word list" where
  "md5_k =
    [0xd76aa478, 0xe8c7b756, 0x242070db, 0xc1bdceee, 0xf57c0faf, 0x4787c62a, 0xa8304613, 0xfd469501,
     0x698098d8, 0x8b44f7af, 0xffff5bb1, 0x895cd7be, 0x6b901122, 0xfd987193, 0xa679438e, 0x49b40821,
     0xf61e2562, 0xc040b340, 0x265e5a51, 0xe9b6c7aa, 0xd62f105d, 0x02441453, 0xd8a1e681, 0xe7d3fbc8,
     0x21e1cde6, 0xc33707d6, 0xf4d50d87, 0x455a14ed, 0xa9e3e905, 0xfcefa3f8, 0x676f02d9, 0x8d2a4c8a,
     0xfffa3942, 0x8771f681, 0x6d9d6122, 0xfde5380c, 0xa4beea44, 0x4bdecfa9, 0xf6bb4b60, 0xbebfbc70,
     0x289b7ec6, 0xeaa127fa, 0xd4ef3085, 0x04881d05, 0xd9d4d039, 0xe6db99e5, 0x1fa27cf8, 0xc4ac5665,
     0xf4292244, 0x432aff97, 0xab9423a7, 0xfc93a039, 0x655b59c3, 0x8f0ccc92, 0xffeff47d, 0x85845dd1,
     0x6fa87e4f, 0xfe2ce6e0, 0xa3014314, 0x4e0811a1, 0xf7537e82, 0xbd3af235, 0x2ad7d2bb, 0xeb86d391]"

definition md5_s :: "nat list" where
  "md5_s = concat (map (\<lambda>r. concat (replicate 4 r)) [[7, 12, 17, 22], [5, 9, 14, 20], [4, 11, 16, 23], [6, 10, 15, 21]])"

definition md5_round :: "32 word list \<Rightarrow> 32 word list \<Rightarrow> nat \<Rightarrow> 32 word list" where
  "md5_round m s i =
    (let a = s ! 0; b = s ! 1; c = s ! 2; d = s ! 3;
         (f, g) = (if i < 16 then ((b AND c) OR (NOT b AND d), i)
                   else if i < 32 then ((d AND b) OR (NOT d AND c), (5 * i + 1) mod 16)
                   else if i < 48 then (b XOR c XOR d, (3 * i + 5) mod 16)
                   else (c XOR (b OR NOT d), (7 * i) mod 16))
     in [d, b + word_rotl (md5_s ! i) (f + a + md5_k ! i + m ! g), b, c])"

definition md5_block :: "32 word list \<Rightarrow> byte list \<Rightarrow> 32 word list" where
  "md5_block h b = map2 (+) h (foldl (md5_round (block_words rev b)) h [0..<64])"

definition Md5 :: "byte list \<Rightarrow> byte list" where
  "Md5 m = concat (map (rev \<circ> bytes_be) (foldl md5_block [0x67452301, 0xefcdab89, 0x98badcfe, 0x10325476]
     (blocks 64 (padded rev m))))"

section \<open>Encodings\<close>

definition hex_encode :: "byte list \<Rightarrow> string" where
  "hex_encode bs = concat (map (\<lambda>b. [hex_digit (unat b div 16), hex_digit (unat b mod 16)]) bs)"

definition b64_alphabet :: string where
  "b64_alphabet = ''ABCDEFGHIJKLMNOPQRSTUVWXYZabcdefghijklmnopqrstuvwxyz0123456789+/''"

fun b64_encode :: "byte list \<Rightarrow> string" where
  "b64_encode [] = []"
| "b64_encode [x] =
    (let a = unat x in [b64_alphabet ! (a div 4), b64_alphabet ! (a mod 4 * 16), CHR ''='', CHR ''=''])"
| "b64_encode [x, y] =
    (let a = unat x; b = unat y in
     [b64_alphabet ! (a div 4), b64_alphabet ! (a mod 4 * 16 + b div 16), b64_alphabet ! (b mod 16 * 4), CHR ''=''])"
| "b64_encode (x # y # z # bs) =
    (let a = unat x; b = unat y; c = unat z in
     [b64_alphabet ! (a div 4), b64_alphabet ! (a mod 4 * 16 + b div 16), b64_alphabet ! (b mod 16 * 4 + c div 64),
      b64_alphabet ! (c mod 64)] @ b64_encode bs)"

definition b64_value :: "char \<Rightarrow> nat option" where
  "b64_value c =
    (let n = code c in
     if 0x41 \<le> n \<and> n \<le> 0x5a then Some (n - 0x41)
     else if 0x61 \<le> n \<and> n \<le> 0x7a then Some (n - 0x61 + 26)
     else if 0x30 \<le> n \<and> n \<le> 0x39 then Some (n - 0x30 + 52)
     else if c = CHR ''+'' then Some 62
     else if c = CHR ''/'' then Some 63
     else None)"

text \<open>
  \<open>StdEncoding.DecodeString\<close>: line breaks are skipped wherever they stand, the text is groups of four
  and only the last may be padded. The encoding is not strict: the bits a padded group leaves over
  are not looked at.
\<close>

fun b64_groups :: "string \<Rightarrow> byte list option" where
  "b64_groups [] = Some []"
| "b64_groups (p # q # r # s # rest) =
    (case (b64_value p, b64_value q) of
       (Some a, Some b) \<Rightarrow>
         (let x = of_nat (a * 4 + b div 16) in
          if r = CHR ''='' then (if s = CHR ''='' \<and> rest = [] then Some [x] else None)
          else case b64_value r of
            None \<Rightarrow> None
          | Some c \<Rightarrow>
              let y = of_nat (b mod 16 * 16 + c div 4) in
              if s = CHR ''='' then (if rest = [] then Some [x, y] else None)
              else case b64_value s of
                None \<Rightarrow> None
              | Some d \<Rightarrow> map_option (\<lambda>bs. x # y # of_nat (c mod 4 * 64 + d) # bs) (b64_groups rest))
     | _ \<Rightarrow> None)"
| "b64_groups _ = None"

definition b64_decode :: "string \<Rightarrow> byte list option" where
  "b64_decode s = b64_groups (filter (\<lambda>c. c \<noteq> CHR 0x0D \<and> c \<noteq> CHR 0x0A) s)"

section \<open>Base64 reads what it wrote\<close>

lemma b64_values: "map b64_value b64_alphabet = map Some [0..<64]"
  by (simp add: b64_alphabet_def b64_value_def code_def of_char_def upt_conv_Cons)

lemma b64_alphabet_length [simp]: "length b64_alphabet = 64"
  by (simp add: b64_alphabet_def)

lemma b64_specials: "CHR ''='' \<notin> set b64_alphabet" "CHR 0x0D \<notin> set b64_alphabet" "CHR 0x0A \<notin> set b64_alphabet"
  by (simp_all add: b64_alphabet_def)

lemma b64_alphabet_value [simp]:
  assumes "n < 64"
  shows "b64_value (b64_alphabet ! n) = Some n" "b64_alphabet ! n \<noteq> CHR ''=''"
proof -
  have "map b64_value b64_alphabet ! n = map Some [0..<64] ! n" by (simp only: b64_values)
  then show "b64_value (b64_alphabet ! n) = Some n" using assms by simp
  show "b64_alphabet ! n \<noteq> CHR ''=''" using assms b64_specials(1) by (metis b64_alphabet_length nth_mem)
qed

lemma sextets:
  assumes "a < 256" "b < 256" "c < (256::nat)"
  shows "a div 4 < 64" "a mod 4 * 16 + b div 16 < 64" "a mod 4 * 16 < 64" "b mod 16 * 4 + c div 64 < 64" "b mod 16 * 4 < 64" "c mod 64 < 64"
    "a div 4 * 4 + (a mod 4 * 16 + b div 16) div 16 = a" "a div 4 * 4 + a mod 4 * 16 div 16 = a"
    "(a mod 4 * 16 + b div 16) mod 16 * 16 + (b mod 16 * 4 + c div 64) div 4 = b"
    "(a mod 4 * 16 + b div 16) mod 16 * 16 + b mod 16 * 4 div 4 = b"
    "(b mod 16 * 4 + c div 64) mod 4 * 64 + c mod 64 = c"
proof -
  have q: "b div 16 < 16" "c div 64 < 4" "a div 4 < 64" using assms by auto
  have "a mod 4 \<le> 3" "b mod 16 \<le> 15" by auto
  then show "a mod 4 * 16 + b div 16 < 64" "a mod 4 * 16 < 64" "b mod 16 * 4 + c div 64 < 64" "b mod 16 * 4 < 64"
    using q by linarith+
  show "a div 4 < 64" "c mod 64 < 64" using q by auto
  have "(a mod 4 * 16 + b div 16) div 16 = a mod 4" "(b mod 16 * 4 + c div 64) div 4 = b mod 16"
    "(a mod 4 * 16 + b div 16) mod 16 = b div 16" "(b mod 16 * 4 + c div 64) mod 4 = c div 64" using q by auto
  then show "a div 4 * 4 + (a mod 4 * 16 + b div 16) div 16 = a" "a div 4 * 4 + a mod 4 * 16 div 16 = a"
    "(a mod 4 * 16 + b div 16) mod 16 * 16 + (b mod 16 * 4 + c div 64) div 4 = b"
    "(a mod 4 * 16 + b div 16) mod 16 * 16 + b mod 16 * 4 div 4 = b"
    "(b mod 16 * 4 + c div 64) mod 4 * 64 + c mod 64 = c"
    by (simp_all only: div_mult_mod_eq nonzero_mult_div_cancel_right)
qed

lemma b64_encode_groups: "b64_groups (b64_encode bs) = Some bs"
proof (induction bs rule: b64_encode.induct)
  case (2 x)
  show ?case using sextets [of "unat x" 0 0] by (simp add: Let_def)
next
  case (3 x y)
  show ?case using sextets [of "unat x" "unat y" 0] by (simp add: Let_def)
next
  case (4 x y z bs)
  then show ?case using sextets [of "unat x" "unat y" "unat z"] by (simp add: Let_def)
qed simp

lemma b64_encode_alphabet: "set (b64_encode bs) \<subseteq> insert (CHR ''='') (set b64_alphabet)"
proof (induction bs rule: b64_encode.induct)
  case (2 x)
  show ?case using sextets(1-6) [of "unat x" 0 0] by (simp add: Let_def)
next
  case (3 x y)
  show ?case using sextets(1-6) [of "unat x" "unat y" 0] by (simp add: Let_def)
next
  case (4 x y z bs)
  then show ?case using sextets(1-6) [of "unat x" "unat y" "unat z"] by (simp add: Let_def)
qed simp

lemma b64_roundtrip: "b64_decode (b64_encode bs) = Some bs"
proof -
  have "filter (\<lambda>c. c \<noteq> CHR 0x0D \<and> c \<noteq> CHR 0x0A) (b64_encode bs) = b64_encode bs"
    using b64_encode_alphabet [of bs] b64_specials by (force simp: filter_id_conv)
  then show ?thesis by (simp add: b64_decode_def b64_encode_groups)
qed

end
