(* ===== verification/Joaju_Client.thy ===== *)
theory Joaju_Client
  imports Go_Crypto
begin

text \<open>
  \<^verbatim>\<open>client/client.go\<close>: serving the browser's half of the protocol, a script that is part of the
  binary, under a URL that carries its hash. The bytes of the script are an argument.
\<close>

section \<open>Serving the script\<close>

definition client_Name :: string where "client_Name = ''joaju.js''"
definition ContentType :: string where "ContentType = ''application/javascript; charset=utf-8''"
definition client_Path :: string where "client_Path = ''/_arandu/joaju/''"
definition immutable :: string where "immutable = ''public, max-age=31536000, immutable''"
definition revalidate :: string where "revalidate = ''no-cache''"

definition Script :: "byte list \<Rightarrow> byte list" where
  "Script script = script"

definition client_Hash :: "byte list \<Rightarrow> string" where
  "client_Hash script = take 12 (hex_encode (Sha256 script))"

definition client_URL :: "byte list \<Rightarrow> string" where
  "client_URL script = client_Path @ client_Hash script @ ''/'' @ client_Name"

text \<open>\<open>strings.TrimPrefix\<close>, and \<open>strings.Cut\<close> at a character.\<close>

definition TrimPrefix :: "string \<Rightarrow> string \<Rightarrow> string" where
  "TrimPrefix s p = (if take (length p) s = p then drop (length p) s else s)"

definition Cut :: "string \<Rightarrow> char \<Rightarrow> (string \<times> string) option" where
  "Cut s c = (if c \<in> set s then Some (takeWhile (\<lambda>x. x \<noteq> c) s, tl (dropWhile (\<lambda>x. x \<noteq> c) s)) else None)"

record client_response =
  cr_Status :: int
  cr_Header :: "(string \<times> string) list"
  cr_Body :: "byte list"

definition NotFound :: client_response where
  "NotFound = \<lparr>cr_Status = 404, cr_Header = [(''Content-Type'', ''text/plain; charset=utf-8''), (''X-Content-Type-Options'', ''nosniff'')],
    cr_Body = bytes_of_string (''404 page not found'' @ [CHR 0x0A])\<rparr>"

definition Handler :: "byte list \<Rightarrow> string \<Rightarrow> client_response" where
  "Handler script path =
    (case Cut (TrimPrefix path client_Path) (CHR ''/'') of
       None \<Rightarrow> NotFound
     | Some (hash, name) \<Rightarrow>
         if name \<noteq> client_Name then NotFound
         else \<lparr>cr_Status = 200, cr_Header = [(''Content-Type'', ContentType),
             (''Cache-Control'', if hash = client_Hash script then immutable else revalidate), (''X-Content-Type-Options'', ''nosniff'')],
           cr_Body = script\<rparr>)"

section \<open>What may be cached\<close>

lemma Cut_Some: "Cut s c = Some (a, b) \<longleftrightarrow> s = a @ c # b \<and> c \<notin> set a"
proof
  assume "Cut s c = Some (a, b)"
  then have ab: "c \<in> set s" "a = takeWhile (\<lambda>x. x \<noteq> c) s" "b = tl (dropWhile (\<lambda>x. x \<noteq> c) s)" by (auto simp: Cut_def split: if_splits)
  then have d: "dropWhile (\<lambda>x. x \<noteq> c) s \<noteq> []" by (simp add: dropWhile_eq_Nil_conv)
  then have "hd (dropWhile (\<lambda>x. x \<noteq> c) s) = c" using hd_dropWhile by blast
  then have "dropWhile (\<lambda>x. x \<noteq> c) s = c # b" using d ab(3) by (metis list.collapse)
  then show "s = a @ c # b \<and> c \<notin> set a" using ab(2) takeWhile_dropWhile_id [of "\<lambda>x. x \<noteq> c" s] by (auto dest: set_takeWhileD)
next
  assume s: "s = a @ c # b \<and> c \<notin> set a"
  then have "c \<notin> set a" by blast
  then have "takeWhile (\<lambda>x. x \<noteq> c) (a @ c # b) = a \<and> dropWhile (\<lambda>x. x \<noteq> c) (a @ c # b) = c # b" by (induction a) auto
  then show "Cut s c = Some (a, b)" using s by (simp add: Cut_def)
qed

lemma hash_no_slash: "CHR ''/'' \<notin> set (client_Hash script)"
proof
  assume "CHR ''/'' \<in> set (client_Hash script)"
  then have "CHR ''/'' \<in> set (hex_encode (Sha256 script))" unfolding client_Hash_def by (rule in_set_takeD)
  then obtain b :: byte where b: "CHR ''/'' = hex_digit (unat b div 16) \<or> CHR ''/'' = hex_digit (unat b mod 16)" by (auto simp: hex_encode_def)
  have d: "hex_digit n \<in> set ''0123456789abcdef''" if "n < 16" for n unfolding hex_digit_def using that by (intro nth_mem) simp
  have "unat b div 16 < 16" "unat b mod 16 < 16" using byte_lt_256 [of b] by (simp_all add: less_mult_imp_div_less)
  from d [OF this(1)] d [OF this(2)] b have "CHR ''/'' \<in> set ''0123456789abcdef''" by metis
  then show False by simp
qed

text \<open>Only the current script is cached for good. Under the handler's path, a request is answered with the
  script exactly when what follows is one segment and the script's name, and with 404 otherwise; the
  answer may be kept forever exactly when the path is the URL of this very script, and has to be asked
  for again when it is the URL of any script with another hash.\<close>

theorem cached_forever_is_current:
  "(cr_Status (Handler script (client_Path @ rest)) = 200 \<longleftrightarrow> (\<exists>hash. rest = hash @ ''/'' @ client_Name \<and> CHR ''/'' \<notin> set hash)) \<and>
   (cr_Status (Handler script (client_Path @ rest)) \<noteq> 200 \<longrightarrow> Handler script (client_Path @ rest) = NotFound) \<and>
   (cr_Status (Handler script (client_Path @ rest)) = 200 \<longrightarrow> cr_Body (Handler script (client_Path @ rest)) = Script script) \<and>
   (map_of (cr_Header (Handler script (client_Path @ rest))) ''Cache-Control'' = Some immutable \<longleftrightarrow> client_Path @ rest = client_URL script) \<and>
   (client_Hash old \<noteq> client_Hash script \<longrightarrow> map_of (cr_Header (Handler script (client_URL old))) ''Cache-Control'' = Some revalidate)"
proof -
  have trim: "TrimPrefix (client_Path @ s) client_Path = s" for s by (simp add: TrimPrefix_def)
  have h: "Handler script (client_Path @ s) = (case Cut s (CHR ''/'') of None \<Rightarrow> NotFound
     | Some (hash, name) \<Rightarrow> if name \<noteq> client_Name then NotFound
         else \<lparr>cr_Status = 200, cr_Header = [(''Content-Type'', ContentType),
             (''Cache-Control'', if hash = client_Hash script then immutable else revalidate), (''X-Content-Type-Options'', ''nosniff'')],
           cr_Body = script\<rparr>)" for s by (simp add: Handler_def trim)
  have cut: "Cut (hash @ CHR ''/'' # client_Name) (CHR ''/'') = Some (hash, client_Name)" if "CHR ''/'' \<notin> set hash" for hash
    using that by (simp add: Cut_Some)
  have ne: "immutable \<noteq> revalidate" by (simp add: immutable_def revalidate_def)
  show ?thesis
  proof (cases "\<exists>hash. rest = hash @ ''/'' @ client_Name \<and> CHR ''/'' \<notin> set hash")
    case True
    then obtain hash where r: "rest = hash @ CHR ''/'' # client_Name" "CHR ''/'' \<notin> set hash" by auto
    have "client_Path @ rest = client_URL script \<longleftrightarrow> hash = client_Hash script" using r by (simp add: client_URL_def)
    then show ?thesis using True r cut [OF r(2)] cut [OF hash_no_slash, of old] ne by (auto simp: h client_URL_def Script_def)
  next
    case False
    then have nf: "Handler script (client_Path @ rest) = NotFound" by (auto simp: h Cut_Some split: option.splits)
    have "client_Path @ rest \<noteq> client_URL script" using False hash_no_slash [of script] by (auto simp: client_URL_def)
    then show ?thesis using False nf cut [OF hash_no_slash, of old] ne by (auto simp: h client_URL_def NotFound_def)
  qed
qed

theorem cached_forever_is_current_witness:
  "\<not> (cr_Status (Handler [] (client_Path @ ''joaju.js'')) = 200) \<and> Handler [] (client_Path @ ''joaju.js'') = NotFound \<and>
   map_of (cr_Header (Handler [] (client_Path @ ''joaju.js''))) ''Cache-Control'' \<noteq> Some immutable"
proof -
  have no: "\<nexists>hash. ''joaju.js'' = hash @ ''/'' @ client_Name \<and> CHR ''/'' \<notin> set hash"
  proof
    assume "\<exists>hash. ''joaju.js'' = hash @ ''/'' @ client_Name \<and> CHR ''/'' \<notin> set hash"
    then obtain hash where "''joaju.js'' = hash @ ''/'' @ client_Name" by blast
    then have "length ''joaju.js'' = length (hash @ ''/'' @ client_Name)" by (rule arg_cong)
    then show False by (simp add: client_Name_def)
  qed
  have url: "client_Path @ ''joaju.js'' \<noteq> client_URL []" using no hash_no_slash [of "[]"] unfolding client_URL_def by auto
  show ?thesis using cached_forever_is_current [of "[]" "''joaju.js''" "[]"] no url by blast
qed

end
