(* ===== verification/Joaju_Outage.thy ===== *)
theory Joaju_Outage
  imports Joaju_Metrics
begin

text \<open>
  \<^verbatim>\<open>scaling.go\<close>: how an instance reports that it lost the bus. The goroutine that holds one of the two
  subscriptions of the fleet, \<open>attend\<close>, and the invariant that ties the flag \<open>Degraded\<close> answers to
  the lines of the log, whatever the goroutines of the relay do and in whatever order.
\<close>

section \<open>Holding a subscription\<close>

text \<open>
  A turn of the goroutine: a message arrives, the subscription is lost while the context is alive
  and opened again after the wait, or the context is over, which it notices when the subscription
  returns and during the wait. The result says whether the goroutine has returned.
\<close>

datatype turn = Arrived string | Lost | Over

fun attend :: "string \<Rightarrow> (string \<Rightarrow> relay \<Rightarrow> relay) \<Rightarrow> turn list \<Rightarrow> relay \<Rightarrow> bool \<times> relay" where
  "attend operation handle [] r = (False, r)"
| "attend operation handle (Arrived message # ts) r = attend operation handle ts (handle message r)"
| "attend operation handle (Lost # ts) r = attend operation handle ts (relay_fail operation zero_name r)"
| "attend operation handle (Over # ts) r = (True, r)"

text \<open>\<open>Relay.ID\<close> and \<open>Relay.Degraded\<close>.\<close>

definition relay_ID :: "relay \<Rightarrow> InstanceID" where
  "relay_ID r = rl_id r"

definition Degraded :: "relay \<Rightarrow> bool" where
  "Degraded r = degraded r"

text \<open>The two goroutines \<open>serve\<close> starts: the questions of the fleet, and its answers.\<close>

definition attend_questions :: "('g, 's) hesape \<Rightarrow> bus \<Rightarrow> 'g registry \<Rightarrow> 'g broker \<Rightarrow> bool \<Rightarrow> turn list \<Rightarrow> relay \<Rightarrow> bool \<times> relay" where
  "attend_questions H B s b over = attend ''subscribe to the fleet's questions'' (relay_answer H B s b over)"

definition attend_answers :: "turn list \<Rightarrow> relay \<Rightarrow> bool \<times> relay" where
  "attend_answers = attend ''subscribe to the fleet's answers'' relay_collect"

section \<open>What the log says\<close>

text \<open>
  Reading the log: a line that the bus is unreachable starts an outage, a line that it was reached
  ends one, and a second start or end of the same outage is not a log of this relay. The first
  argument is whether the relay started out without a bus.
\<close>

fun outages :: "bool \<Rightarrow> relay_line list \<Rightarrow> bool option" where
  "outages d [] = Some d"
| "outages d (LineUnreachable operation name # ls) = (if d then None else outages True ls)"
| "outages d (LineReached # ls) = (if d then outages False ls else None)"
| "outages d (LineWarn what # ls) = outages d ls"
| "outages d (LineError what # ls) = outages d ls"

definition reported :: "bool \<Rightarrow> relay \<Rightarrow> bool" where
  "reported d r \<longleftrightarrow> outages d (lines r) = Some (Degraded r)"

named_theorems reports \<open>operations that keep the log true\<close>

lemma outages_append: "outages d (k @ l) = Option.bind (outages d k) (\<lambda>e. outages e l)"
  by (induction d k rule: outages.induct) auto

lemma reported_lines [reports]:
  "reported d r \<Longrightarrow> reported d (relay_fail operation name r)" "reported d r \<Longrightarrow> reported d (recovered r)"
  "reported d r \<Longrightarrow> reported d (warn what r)" "reported d r \<Longrightarrow> reported d (log_error what r)"
  by (auto simp: reported_def Degraded_def relay_fail_def recovered_def warn_def log_error_def outages_append)

lemma reported_kept [reports]:
  "reported d r \<Longrightarrow> reported d (r\<lparr>published := ps\<rparr>)" "reported d r \<Longrightarrow> reported d (r\<lparr>pending := q\<rparr>)"
  "reported d r \<Longrightarrow> reported d (no_longer_waiting request r)" "reported d r \<Longrightarrow> reported d (relay_close r)"
  "reported d r \<Longrightarrow> reported d (snd (relay_serve l w r))" "reported d r \<Longrightarrow> reported d (snd (relay_Leave H name r))"
  by (simp_all add: no_longer_waiting_def relay_close_def relay_serve_def relay_Leave_def Let_def reported_def Degraded_def)

lemma reported_Join [reports]: "reported d r \<Longrightarrow> reported d (snd (relay_Join H g ch r))"
  by (auto simp: relay_Join_def Let_def reported_def Degraded_def split: option.splits prod.splits)

lemma reported_Publish [reports]: "reported d r \<Longrightarrow> reported d (snd (relay_Publish H B e r))"
  by (auto simp: relay_Publish_def bus_Publish_def reports split: option.splits prod.splits sum.splits)

lemma reported_carry [reports]: "reported d r \<Longrightarrow> reported d (relay_carry H B e r)"
  using reported_Publish [of d r H B e] by (auto simp: relay_carry_def reported_lines split: prod.splits option.splits)

lemma reported_deliver [reports]: "reported d r \<Longrightarrow> reported d (fst (relay_deliver H s payload r cw))"
  by (cases cw) (auto simp: relay_deliver_def Let_def reports split: option.splits prod.splits)

lemma reported_answer [reports]: "reported d r \<Longrightarrow> reported d (relay_answer H B s b over payload r)"
  by (auto simp: relay_answer_def bus_Publish_def Let_def reports split: option.splits prod.splits sum.splits)

lemma reported_collect [reports]: "reported d r \<Longrightarrow> reported d (relay_collect payload r)"
  by (auto simp: relay_collect_def Let_def reports split: option.splits)

lemma reported_ask_start [reports]: "reported d r \<Longrightarrow> reported d (snd (ask_start H B g channel random r))"
  by (auto simp: ask_start_def bus_Publish_def Let_def reports split: prod.splits sum.splits)

lemma reported_tally [reports]: "reported d r \<Longrightarrow> reported d (snd (tally_add mine T a (t, r)))"
  by (simp add: tally_add_def reports)

section \<open>Whatever the goroutines do\<close>

text \<open>
  A handler of messages that keeps the log true lets the goroutine that calls it keep it true, and
  the two handlers of the fleet do.
\<close>

locale reporting_handler =
  fixes handle :: "string \<Rightarrow> relay \<Rightarrow> relay"
  assumes keeps: "reported d r \<Longrightarrow> reported d (handle message r)"
begin

lemma attend_reports: "reported d r \<Longrightarrow> reported d (snd (attend operation handle ts r))"
proof (induction ts arbitrary: r)
  case (Cons x ts)
  then show ?case by (cases x) (simp_all add: keeps reported_lines)
qed simp

end

interpretation questions: reporting_handler "relay_answer H B s b over" for H B s b over
  by unfold_locales (rule reported_answer)

interpretation answers: reporting_handler relay_collect
  by unfold_locales (rule reported_collect)

text \<open>
  The steps of the goroutines around a relay, each at once as far as the flag and the log go: the
  mutex of the transition is held over the line and the flag.
\<close>

inductive relay_step :: "('g, 's) hesape \<Rightarrow> bus \<Rightarrow> relay \<Rightarrow> relay \<Rightarrow> bool" for H :: "('g, 's) hesape" and B :: bus where
  publishing: "relay_step H B r (relay_carry H B e r)"
| joining: "relay_step H B r (snd (relay_Join H g ch r))"
| leaving: "relay_step H B r (snd (relay_Leave H name r))"
| delivering: "relay_step H B r (fst (relay_deliver H k payload r (c :: 'g channel, w)))"
| losing: "relay_step H B r (relay_fail operation name r)"
| serving: "relay_step H B r (snd (relay_serve l w r))"
| questioned: "relay_step H B r (snd (attend_questions H B s b over ts r))"
| answered: "relay_step H B r (snd (attend_answers ts r))"
| asking: "relay_step H B r (snd (ask_start H B g channel random r))"
| taking: "relay_step H B r (snd (tally_add (rl_id r) T a (t, r\<lparr>pending := q\<rparr>)))"
| giving_up: "relay_step H B r (no_longer_waiting request r)"
| closing: "relay_step H B r (relay_close r)"

inductive_cases relay_stepE: "relay_step H B r r'"

lemma step_reports: "relay_step H B r r' \<Longrightarrow> reported d r \<Longrightarrow> reported d r'"
  by (induction rule: relay_step.induct)
    (simp_all add: reports attend_questions_def attend_answers_def questions.attend_reports answers.attend_reports)

lemma steps_report: "(relay_step H B)\<^sup>*\<^sup>* r r' \<Longrightarrow> reported d r \<Longrightarrow> reported d r'"
  by (induction rule: rtranclp_induct) (auto intro: step_reports)

lemma new_relay_reported: "NewRelay ctx iid bus = Inr r \<Longrightarrow> reported (\<not> bus) r"
  by (auto simp: NewRelay_def reported_def Degraded_def split: context_arg.splits if_splits)

definition unreachable :: "relay_line \<Rightarrow> bool" where
  "unreachable l = (case l of LineUnreachable _ _ \<Rightarrow> True | _ \<Rightarrow> False)"

lemma outages_count:
  "outages d l = Some e \<Longrightarrow> length (filter unreachable l) + (if d then 1 else 0) = length (filter (\<lambda>x. x = LineReached) l) + (if e then 1 else 0)"
  by (induction d l rule: outages.induct) (auto simp: unreachable_def split: if_splits)

lemma heard_is_reached: "\<not> Degraded (relay_collect payload r)" "\<not> Degraded (fst (relay_deliver H k payload r cw))"
  by (cases cw; auto simp: relay_collect_def relay_deliver_def Degraded_def recovered_def warn_def log_error_def Let_def split: option.splits prod.splits)+

text \<open>Property C40. An outage is two lines. Whatever the goroutines of a relay with a bus do, and in whatever order, the
  log says that the bus is unreachable once when an outage starts and that it was reached once when
  it ends, never twice in a row; \<open>Degraded\<close> answers whether the last of these lines started one, and an
  event that is heard ends it, whatever it says, as does an answer of another instance.\<close>

theorem an_outage_is_two_lines:
  assumes "NewRelay ctx iid True = Inr r0" "(relay_step H B)\<^sup>*\<^sup>* r0 r"
  shows "outages False (lines r) = Some (Degraded r) \<and>
    length (filter unreachable (lines r)) = length (filter (\<lambda>l. l = LineReached) (lines r)) + (if Degraded r then 1 else 0) \<and>
    \<not> Degraded (fst (relay_deliver H' k payload r cw)) \<and> \<not> Degraded (snd (attend_answers [Lost, Arrived payload] r))"
proof -
  have "reported False r" using steps_report [OF assms(2)] new_relay_reported [OF assms(1)] by simp
  then show ?thesis using outages_count [of False "lines r" "Degraded r"] heard_is_reached(1) heard_is_reached(2) [of H' k payload r cw] by (auto simp: reported_def attend_answers_def)
qed

theorem an_outage_is_two_lines_witness:
  "\<exists>r0 r. NewRelay Alive ''a'' True = Inr r0 \<and> (relay_step sample_hesape (\<lambda>_ _ _. Inr 0))\<^sup>*\<^sup>* r0 r \<and>
    lines r = [LineUnreachable ''subscribe'' zero_name] \<and> Degraded r"
proof -
  obtain r0 where n: "NewRelay Alive ''a'' True = Inr r0" by (simp add: NewRelay_def)
  then have z: "lines r0 = []" "\<not> degraded r0" by (auto simp: NewRelay_def)
  let ?r = "relay_fail ''subscribe'' zero_name r0"
  have s: "(relay_step sample_hesape (\<lambda>_ _ _. Inr 0))\<^sup>*\<^sup>* r0 ?r" by (intro r_into_rtranclp relay_step.losing)
  have "lines ?r = [LineUnreachable ''subscribe'' zero_name]" using z by (simp add: relay_fail_def)
  moreover have "outages False (lines ?r) = Some (Degraded ?r)" using an_outage_is_two_lines [OF n s] by blast
  ultimately show ?thesis using n s by (auto split: if_splits)
qed

end
