(* ===== verification/Joaju_Limiter.thy ===== *)
theory Joaju_Limiter
  imports Joaju_Prelude
begin

text \<open>
  The \<open>rateLimiter\<close> of \<^verbatim>\<open>server.go\<close>: the token bucket that meters one socket's frames.
  An instant is its distance in nanoseconds from some origin. \<open>time.Time.Sub\<close> saturates at the
  ends of an int64, which is written out; every other duration here is at most a second. The
  lemmas account for the credit the bucket holds, which is the tokens at the price of one frame
  each plus the time since they were earned.
\<close>

section \<open>The bucket\<close>

record rateLimiter =
  limit :: int
  cost :: int
  tokens :: int
  filled :: int

definition time_Sub :: "int \<Rightarrow> int \<Rightarrow> int" where
  "time_Sub t u = max (- (2 ^ 63)) (min (2 ^ 63 - 1) (t - u))"

definition Second :: int where "Second = 1000000000"

text \<open>A limit of zero or less is not divided by: the condition is decided from the left.\<close>

definition newRateLimiter :: "int \<Rightarrow> int \<Rightarrow> rateLimiter" where
  "newRateLimiter n now =
    (if n \<le> 0 \<or> Second div n = 0 then \<lparr>limit = 0, cost = 0, tokens = 0, filled = 0\<rparr>
     else \<lparr>limit = n, cost = Second div n, tokens = n, filled = now\<rparr>)"

definition refill :: "int \<Rightarrow> rateLimiter \<Rightarrow> rateLimiter" where
  "refill now l =
    (let elapsed = time_Sub now (filled l) in
     if elapsed \<ge> cost l then
       let room = limit l - tokens l;
           earned = elapsed div cost l
       in if earned < room then l\<lparr>tokens := tokens l + earned, filled := filled l + earned * cost l\<rparr>
          else l\<lparr>tokens := limit l, filled := now\<rparr>
     else l)"

definition allow :: "int \<Rightarrow> rateLimiter \<Rightarrow> bool \<times> rateLimiter" where
  "allow now l =
    (if limit l \<le> 0 then (True, l)
     else let l = refill now l in
       if tokens l = 0 then (False, l) else (True, l\<lparr>tokens := tokens l - 1\<rparr>))"

text \<open>A socket's frames, as the instants they arrived at: what each was answered, and the bucket after them.\<close>

fun allow_all :: "rateLimiter \<Rightarrow> int list \<Rightarrow> bool list \<times> rateLimiter" where
  "allow_all l [] = ([], l)"
| "allow_all l (t # ts) = (let (b, l1) = allow t l; (bs, l2) = allow_all l1 ts in (b # bs, l2))"

section \<open>What the bucket keeps\<close>

definition bucket_ok :: "rateLimiter \<Rightarrow> bool" where
  "bucket_ok l \<longleftrightarrow> 0 < limit l \<and> 0 < cost l \<and> limit l * cost l \<le> Second \<and> 0 \<le> tokens l \<and> tokens l \<le> limit l"

definition credit :: "int \<Rightarrow> rateLimiter \<Rightarrow> int" where
  "credit now l = tokens l * cost l + (now - filled l)"

lemma new_bucket_ok:
  assumes "0 < n" "n \<le> Second"
  shows "bucket_ok (newRateLimiter n now)" "limit (newRateLimiter n now) = n" "cost (newRateLimiter n now) = Second div n"
    "filled (newRateLimiter n now) = now" "tokens (newRateLimiter n now) = n"
proof -
  have pos: "0 < Second div n" using assms by (simp add: pos_imp_zdiv_pos_iff)
  have "n * (Second div n) \<le> Second" using mult_div_mod_eq [of n Second] pos_mod_sign [OF assms(1), of Second] by linarith
  then show "bucket_ok (newRateLimiter n now)" "limit (newRateLimiter n now) = n" "cost (newRateLimiter n now) = Second div n"
    "filled (newRateLimiter n now) = now" "tokens (newRateLimiter n now) = n"
    using assms pos by (simp_all add: newRateLimiter_def bucket_ok_def)
qed

lemma div_bounds: "0 < c \<Longrightarrow> x div c * c \<le> x \<and> x < x div c * c + (c::int)"
proof -
  assume "0 < c"
  then have "x div c * c + x mod c = x" "0 \<le> x mod c" "x mod c < c" by (simp_all add: div_mult_mod_eq)
  then show "x div c * c \<le> x \<and> x < x div c * c + c" by linarith
qed

text \<open>The two ways a refill ends: the credit is what it was, or the bucket is full as of now.\<close>

lemma refill_cases:
  assumes "bucket_ok l" "filled l \<le> now"
  obtains (kept) "credit now (refill now l) = credit now l" "now - filled (refill now l) < cost l" "filled (refill now l) \<le> now"
      "bucket_ok (refill now l)" "limit (refill now l) = limit l" "cost (refill now l) = cost l"
    | (full) "tokens (refill now l) = limit l" "filled (refill now l) = now" "bucket_ok (refill now l)"
      "limit (refill now l) = limit l" "cost (refill now l) = cost l" "limit l * cost l \<le> credit now l"
proof -
  define elapsed where "elapsed = time_Sub now (filled l)"
  have l: "0 < limit l" "0 < cost l" "limit l * cost l \<le> Second" "0 \<le> tokens l" "tokens l \<le> limit l"
    using assms(1) by (simp_all add: bucket_ok_def)
  have e: "elapsed \<le> now - filled l" "0 \<le> elapsed" "elapsed < now - filled l \<Longrightarrow> elapsed = 2 ^ 63 - 1"
    using assms(2) by (auto simp: elapsed_def time_Sub_def)
  have big: "Second < 2 ^ 63 - 1" by (simp add: Second_def)
  consider (young) "elapsed < cost l" | (part) "cost l \<le> elapsed" "elapsed div cost l < limit l - tokens l"
    | (over) "cost l \<le> elapsed" "limit l - tokens l \<le> elapsed div cost l" by linarith
  then show ?thesis
  proof cases
    case young
    have "refill now l = l" using young by (simp add: refill_def elapsed_def)
    have "1 * cost l \<le> limit l * cost l" using l by (intro mult_right_mono) simp_all
    then have "elapsed = now - filled l" using young e big l(3) by linarith
    then show ?thesis using young assms \<open>refill now l = l\<close> by (intro kept) simp_all
  next
    case part
    define k where "k = elapsed div cost l"
    have k: "k * cost l \<le> elapsed" "elapsed < k * cost l + cost l"
      using div_bounds [OF l(2), of elapsed] by (simp_all add: k_def)
    have kl: "k + 1 \<le> limit l" "0 \<le> k" "k < limit l - tokens l"
      using part(2) l(2,4) e(2) by (simp_all add: k_def pos_imp_zdiv_nonneg_iff)
    have "elapsed < (k + 1) * cost l" using k(2) by (simp add: algebra_simps)
    also have "\<dots> \<le> limit l * cost l" using kl(1) l(2) by (intro mult_right_mono) simp_all
    finally have exact: "elapsed = now - filled l" using e big l(3) by linarith
    have r: "refill now l = l\<lparr>tokens := tokens l + k, filled := filled l + k * cost l\<rparr>"
      using part by (simp add: refill_def elapsed_def [symmetric] k_def Let_def)
    show ?thesis using k kl exact l by (intro kept) (simp_all add: r credit_def bucket_ok_def algebra_simps)
  next
    case over
    have r: "refill now l = l\<lparr>tokens := limit l, filled := now\<rparr>"
      using over by (simp add: refill_def elapsed_def [symmetric] Let_def)
    have "(limit l - tokens l) * cost l \<le> elapsed div cost l * cost l" using over(2) l(2) by (intro mult_right_mono) simp_all
    also have "\<dots> \<le> elapsed" using div_bounds [OF l(2), of elapsed] by simp
    finally have "limit l * cost l \<le> credit now l" using e(1) by (simp add: credit_def algebra_simps)
    then show ?thesis using l by (intro full) (simp_all add: r bucket_ok_def)
  qed
qed

lemma allow_keeps:
  assumes "bucket_ok l" "filled l \<le> now" "allow now l = (b, l')"
  shows "bucket_ok l'" "limit l' = limit l" "cost l' = cost l" "filled l' \<le> now"
    "credit now l' = credit now (refill now l) - (if b then cost l else 0)" "b \<longleftrightarrow> tokens (refill now l) \<noteq> 0"
proof -
  have l: "\<not> limit l \<le> 0" using assms(1) by (simp add: bucket_ok_def)
  have r: "bucket_ok (refill now l)" "limit (refill now l) = limit l" "cost (refill now l) = cost l" "filled (refill now l) \<le> now"
    using assms(1,2) by (cases rule: refill_cases; simp)+
  show "bucket_ok l'" "limit l' = limit l" "cost l' = cost l" "filled l' \<le> now"
    "credit now l' = credit now (refill now l) - (if b then cost l else 0)" "b \<longleftrightarrow> tokens (refill now l) \<noteq> 0"
    using assms(3) l r by (auto simp: allow_def Let_def bucket_ok_def credit_def algebra_simps split: if_splits)
qed

lemma credit_later: "credit t' l = credit t l + (t' - t)"
  by (simp add: credit_def)

lemma credit_refilled:
  assumes "bucket_ok l" "filled l \<le> now"
  shows "credit now (refill now l) \<le> credit now l" "credit now (refill now l) < (limit l + 1) * cost l"
proof -
  have "credit now (refill now l) \<le> credit now l \<and> credit now (refill now l) < (limit l + 1) * cost l"
    using assms
  proof (cases rule: refill_cases)
    case kept
    have "tokens (refill now l) * cost l \<le> limit l * cost l"
      using kept(4,5) assms(1) by (intro mult_right_mono) (simp_all add: bucket_ok_def)
    then have "credit now (refill now l) < limit l * cost l + cost l" using kept(2,6) unfolding credit_def by simp
    then show ?thesis using kept(1) by (simp add: distrib_right)
  next
    case full
    then show ?thesis using assms(1) by (simp add: credit_def bucket_ok_def algebra_simps)
  qed
  then show "credit now (refill now l) \<le> credit now l" "credit now (refill now l) < (limit l + 1) * cost l" by simp_all
qed

lemma credit_nonneg: "bucket_ok l \<Longrightarrow> filled l \<le> now \<Longrightarrow> 0 \<le> credit now l"
  by (simp add: bucket_ok_def credit_def)

definition allowed :: "bool list \<Rightarrow> int" where
  "allowed bs = int (length (filter (\<lambda>b. b) bs))"

lemma spending_all:
  assumes "bucket_ok l" "filled l \<le> now" "sorted (now # ts)" "allow_all l ts = (bs, l')"
  shows "bucket_ok l' \<and> filled l' \<le> last (now # ts) \<and> cost l' = cost l \<and> limit l' = limit l \<and>
    allowed bs * cost l + credit (last (now # ts)) l' \<le> credit now l + (last (now # ts) - now)"
  using assms
proof (induction ts arbitrary: l now bs)
  case (Cons t ts)
  obtain b l1 where a: "allow t l = (b, l1)" by force
  obtain bs' where r: "allow_all l1 ts = (bs', l')" "bs = b # bs'" using Cons.prems(4) a by (auto split: prod.splits)
  have t: "filled l \<le> t" "sorted (t # ts)" using Cons.prems(2,3) by auto
  note k = allow_keeps [OF Cons.prems(1) t(1) a]
  note IH = Cons.IH [OF k(1) k(4) t(2) r(1)]
  have "allowed bs = allowed bs' + (if b then 1 else 0)" by (simp add: allowed_def r(2))
  then have "allowed bs * cost l = allowed bs' * cost l + (if b then cost l else 0)" by (simp add: algebra_simps)
  then show ?case
    using IH k(2,3,5) credit_refilled(1) [OF Cons.prems(1) t(1)] credit_later [of t l now] by (simp split: if_splits)
qed (simp add: allowed_def)

lemmas spending = spending_all [THEN conjunct1] spending_all [THEN conjunct2, THEN conjunct1]
  spending_all [THEN conjunct2, THEN conjunct2, THEN conjunct1]
  spending_all [THEN conjunct2, THEN conjunct2, THEN conjunct2, THEN conjunct1]
  spending_all [THEN conjunct2, THEN conjunct2, THEN conjunct2, THEN conjunct2]

lemma allow_all_append:
  "allow_all l (us @ vs) = (let (bs, l1) = allow_all l us; (cs, l2) = allow_all l1 vs in (bs @ cs, l2))"
  by (induction us arbitrary: l) (auto simp: Let_def split: prod.splits)

lemma allow_all_length: "length (fst (allow_all l ts)) = length ts"
  by (induction ts arbitrary: l) (auto simp: split_def Let_def)

section \<open>Properties\<close>

text \<open>Property C9. The rate of a socket is bounded over every window. Whatever a socket sent before,
  among frames that arrive within a span of time, at most the limit are let through and one more
  for each started multiple of a frame's price in that span; the allowance of an idle
  socket is never more than the limit.\<close>

theorem rate_is_bounded:
  assumes "0 < n" "n \<le> Second" "sorted (now # us @ vs)" "vs \<noteq> []"
    and "allow_all (newRateLimiter n now) (us @ vs) = (bs, l)"
  shows "(allowed (drop (length us) bs) - n - 1) * (Second div n) < last vs - hd vs"
proof -
  let ?l = "newRateLimiter n now"
  obtain cs l1 where c: "allow_all ?l us = (cs, l1)" by force
  obtain v ws where v: "vs = v # ws" using assms(4) by (cases vs) auto
  obtain b l2 where a: "allow v l1 = (b, l2)" by force
  obtain ds l3 where d: "allow_all l2 ws = (ds, l3)" by force
  have bs: "drop (length us) bs = b # ds"
    using assms(5) c a d allow_all_length [of ?l us] by (auto simp: allow_all_append v)
  have so: "sorted (now # us)" "last (now # us) \<le> v" "sorted (v # ws)" using assms(3) by (auto simp: v sorted_append)
  note u = spending [OF new_bucket_ok(1) [OF assms(1,2)] _ so(1) c]
  have f1: "filled l1 \<le> v" "bucket_ok l1" using u(1,2) so(2) new_bucket_ok(4) [OF assms(1,2), of now] by simp_all
  have l1: "cost l1 = Second div n" "limit l1 = n"
    using u(3,4) new_bucket_ok(2,3,4) [OF assms(1,2), of now] by simp_all
  note k = allow_keeps [OF f1(2,1) a]
  note w = spending [OF k(1) k(4) so(3) d]
  have al: "allowed (b # ds) * (Second div n) = allowed ds * cost l2 + (if b then cost l1 else 0)"
    using k(3) l1 by (simp add: allowed_def algebra_simps)
  have "0 \<le> credit (last (v # ws)) l3" by (rule credit_nonneg [OF w(1,2)])
  then have "allowed (b # ds) * (Second div n) < (n + 1) * (Second div n) + (last (v # ws) - v)"
    using al w(5) k(5) credit_refilled(2) [OF f1(2,1)] l1 by (simp split: if_splits)
  then show ?thesis by (simp add: bs v algebra_simps)
qed

text \<open>What the frames let through since some instant have cost, with what is left, is never less than the
  time since then has earned, up to a full bucket.\<close>

definition since :: "int \<Rightarrow> (int \<times> bool) list \<Rightarrow> int" where
  "since c h = int (length (filter (\<lambda>(t, b). b \<and> c \<le> t) h))"

definition paid :: "int \<Rightarrow> rateLimiter \<Rightarrow> (int \<times> bool) list \<Rightarrow> bool" where
  "paid now l h \<longleftrightarrow> (\<forall>c \<le> now. min (limit l * cost l) (now - c) \<le> credit now l + since c h * cost l)"

lemma paid_step:
  assumes "bucket_ok l" "filled l \<le> now" "now \<le> t" "paid now l h" "allow t l = (b, l')"
  shows "paid t l' (h @ [(t, b)])"
  unfolding paid_def
proof (intro allI impI)
  fix c assume c: "c \<le> t"
  have ft: "filled l \<le> t" using assms(2,3) by simp
  note k = allow_keeps [OF assms(1) ft assms(5)]
  have sn: "since c (h @ [(t, b)]) = since c h + (if b then 1 else 0)" using c by (simp add: since_def)
  have pos: "0 \<le> since c h * cost l" using assms(1) by (simp add: since_def bucket_ok_def)
  have before: "min (limit l * cost l) (t - c) \<le> credit t l + since c h * cost l"
  proof (cases "c \<le> now")
    case True
    then have "min (limit l * cost l) (now - c) \<le> credit now l + since c h * cost l" using assms(4) by (simp add: paid_def)
    then show ?thesis using credit_later [of t l now] assms(3) by linarith
  next
    case False
    have "0 \<le> tokens l * cost l" using assms(1) by (simp add: bucket_ok_def)
    then have "t - c \<le> credit t l" using False assms(2) by (simp add: credit_def)
    then show ?thesis using pos by linarith
  qed
  have "min (limit l * cost l) (t - c) \<le> credit t (refill t l) + since c h * cost l"
    using assms(1) ft
  proof (cases rule: refill_cases)
    case kept
    then show ?thesis using before by simp
  next
    case full
    then show ?thesis using pos by (simp add: credit_def)
  qed
  then show "min (limit l' * cost l') (t - c) \<le> credit t l' + since c (h @ [(t, b)]) * cost l'"
    using k(2,3,5) by (simp add: sn distrib_right)
qed

lemma paid_run:
  assumes "bucket_ok l" "filled l \<le> now" "sorted (now # ts)" "paid now l h" "allow_all l ts = (bs, l')"
  shows "paid (last (now # ts)) l' (h @ zip ts bs)"
  using assms
proof (induction ts arbitrary: l now bs h)
  case (Cons t ts)
  obtain b l1 where a: "allow t l = (b, l1)" by force
  obtain bs' where r: "allow_all l1 ts = (bs', l')" "bs = b # bs'" using Cons.prems(5) a by (auto split: prod.splits)
  have t: "filled l \<le> t" "now \<le> t" "sorted (t # ts)" using Cons.prems(2,3) by auto
  note k = allow_keeps [OF Cons.prems(1) t(1) a]
  have "paid t l1 (h @ [(t, b)])" by (rule paid_step [OF Cons.prems(1,2) t(2) Cons.prems(4) a])
  from Cons.IH [OF k(1) k(4) t(3) this r(1)] show ?case by (simp add: r(2))
qed simp

text \<open>Only a frame past the limit is refused. When a frame is refused, at least as many frames as
  the limit says were let through in the second before it, so a socket that sends no more than
  the limit in any second is never refused anything.\<close>

theorem refusal_is_earned:
  assumes "0 < n" "n \<le> Second" "sorted (now # ts @ [t])"
    and "allow_all (newRateLimiter n now) (ts @ [t]) = (bs @ [False], l)"
  shows "n \<le> int (length (filter (\<lambda>(x, b). b \<and> t - Second \<le> x) (zip ts bs)))"
proof -
  let ?l = "newRateLimiter n now"
  note new = new_bucket_ok [OF assms(1,2), of now]
  obtain cs l1 where c: "allow_all ?l ts = (cs, l1)" by force
  obtain l2 where a: "allow t l1 = (False, l2)" "cs = bs"
    using assms(4) c by (auto simp: allow_all_append split: prod.splits)
  have so: "sorted (now # ts)" "last (now # ts) \<le> t" using assms(3) by (auto simp: sorted_append)
  have "paid now ?l []" using new by (auto simp: paid_def credit_def since_def min_def)
  from paid_run [OF new(1) _ so(1) this c] have p: "paid (last (now # ts)) l1 (zip ts bs)" using new(4) a(2) by simp
  note u = spending [OF new(1) _ so(1) c]
  have ok: "bucket_ok l1" "filled l1 \<le> last (now # ts)" "cost l1 = Second div n" "limit l1 = n" using u new by simp_all
  have ft: "filled l1 \<le> t" using ok(2) so(2) by simp
  note k = allow_keeps [OF ok(1) ft a(1)]
  have "paid t l2 (zip ts bs @ [(t, False)])" by (rule paid_step [OF ok(1,2) so(2) p a(1)])
  moreover have "0 \<le> n * cost l1" using ok by (simp add: bucket_ok_def)
  ultimately have "n * cost l1 \<le> credit t l2 + since (t - n * cost l1) (zip ts bs) * cost l1"
    using k(2,3) ok(4) by (auto simp: paid_def since_def dest!: spec [of _ "t - n * cost l1"])
  moreover have "credit t l2 < cost l1"
    using ok(1) ft
  proof (cases rule: refill_cases)
    case kept
    then show ?thesis using k(5,6) by (simp add: credit_def)
  next
    case full
    then show ?thesis using k(6) ok(1) by (simp add: bucket_ok_def)
  qed
  ultimately have "(n - 1) * cost l1 < since (t - n * cost l1) (zip ts bs) * cost l1" by (simp add: algebra_simps)
  then have "n - 1 < since (t - n * cost l1) (zip ts bs)" using ok(1) by (simp add: bucket_ok_def mult_less_cancel_right)
  moreover have "since (t - n * cost l1) (zip ts bs) \<le> since (t - Second) (zip ts bs)"
  proof -
    have "n * cost l1 \<le> Second" using ok by (simp add: bucket_ok_def)
    then have "length (filter (\<lambda>(x, b). b \<and> t - n * cost l1 \<le> x) h) \<le> length (filter (\<lambda>(x, b). b \<and> t - Second \<le> x) h)" for h
      by (induction h) auto
    then show ?thesis by (simp add: since_def)
  qed
  ultimately show ?thesis by (simp add: since_def)
qed

section \<open>Witnesses\<close>

text \<open>A limit of two a second: the third frame of a burst is refused, and the one half a second later is not.\<close>

lemma sample_burst:
  "allow_all (newRateLimiter 2 0) [10, 20, 30] = ([True, True, False], \<lparr>limit = 2, cost = 500000000, tokens = 0, filled = 0\<rparr>)"
  "allow_all (newRateLimiter 2 0) [10, 20, 500000000] = ([True, True, True], \<lparr>limit = 2, cost = 500000000, tokens = 0, filled = 500000000\<rparr>)"
  by (simp_all add: newRateLimiter_def allow_def refill_def time_Sub_def Second_def Let_def)

theorem rate_is_bounded_witness:
  "\<exists>l. allow_all (newRateLimiter 2 0) ([] @ [10, 20, 500000000]) = ([True, True, True], l) \<and>
    (allowed [True, True, True] - 2 - 1) * (Second div 2) < 500000000 - 10 \<and>
    (\<exists>l. allow_all (newRateLimiter 2 0) ([10, 20] @ [30, 40, 500000000]) = ([True, True, False, False, True], l) \<and>
      (allowed [False, False, True] - 2 - 1) * (Second div 2) < 500000000 - 30)"
proof -
  let ?l = "newRateLimiter 2 0"
  have b: "allow_all ?l ([] @ [10, 20, 500000000]) = ([True, True, True], \<lparr>limit = 2, cost = 500000000, tokens = 0, filled = 500000000\<rparr>)"
    "allow_all ?l ([10, 20] @ [30, 40, 500000000]) = ([True, True, False, False, True], \<lparr>limit = 2, cost = 500000000, tokens = 0, filled = 500000000\<rparr>)"
    by (simp_all add: newRateLimiter_def allow_def refill_def time_Sub_def Second_def Let_def)
  have "(allowed [True, True, True] - 2 - 1) * (Second div 2) < 500000000 - 10"
    using rate_is_bounded [OF _ _ _ _ b(1)] by (simp add: Second_def)
  moreover have "(allowed [False, False, True] - 2 - 1) * (Second div 2) < 500000000 - 30"
    using rate_is_bounded [OF _ _ _ _ b(2)] by (simp add: Second_def)
  ultimately show ?thesis using b by blast
qed

theorem refusal_is_earned_witness:
  "2 \<le> int (length (filter (\<lambda>(x, b). b \<and> 30 - Second \<le> x) (zip [10, 20] [True, True])))"
  using refusal_is_earned [of 2 0 "[10, 20]" 30 "[True, True]"] sample_burst(1) by (simp add: Second_def)

end
