(* ===== verification/Ws_Io.thy ===== *)
theory Ws_Io
  imports Joaju_Prelude
begin

text \<open>
  What the transport uses of the standard library's \<open>io\<close>, \<open>bufio\<close>, \<open>net\<close> and
  \<open>encoding/binary\<close>: a byte stream that ends in an error, \<open>io.ReadFull\<close> on it, a connection
  that may fail in the middle of a write, the buffered writer in front of it, and the
  big-endian integers of a frame header. The errors of the transport are the constructors of
  \<open>ws_err\<close>; the text a wrapped error adds is not kept, since only \<open>errors.Is\<close> and
  \<open>errors.As\<close> look at them.
\<close>

section \<open>Errors\<close>

datatype ws_err =
    ErrControlTooLong
  | ErrReservedBits
  | ErrUnmaskedClient
  | ErrMaskedServer
  | ErrBadOpcode
  | errNonMinimalLength
  | ErrBadCloseCode
  | ErrBadUTF8
  | ErrTooLarge
  | ErrBadFragment
  | ErrCloseSent
  | CloseError int string
  | EOF
  | ErrUnexpectedEOF
  | NetClosed
  | NetTimeout
  | NetOther string

section \<open>Reading\<close>

text \<open>
  What is still to come from the peer, and the error the stream ends in: \<open>EOF\<close> for an
  orderly end, a network error for a reset or a deadline.
\<close>

record reader =
  avail :: "byte list"
  stop :: ws_err

type_synonym 'a reading = "reader \<Rightarrow> (ws_err + 'a) \<times> reader"

definition rbind :: "'a reading \<Rightarrow> ('a \<Rightarrow> 'b reading) \<Rightarrow> 'b reading" where
  "rbind m f r = (case m r of (Inl e, r') \<Rightarrow> (Inl e, r') | (Inr x, r') \<Rightarrow> f x r')"

definition rpure :: "'a \<Rightarrow> 'a reading" where
  "rpure x r = (Inr x, r)"

definition rfail :: "ws_err \<Rightarrow> 'a reading" where
  "rfail e r = (Inl e, r)"

text \<open>
  \<open>io.ReadFull\<close>: all of the bytes asked for, or the stream's error, which is
  \<open>ErrUnexpectedEOF\<close> when an orderly end came after some of them.
\<close>

definition ReadFull :: "nat \<Rightarrow> byte list reading" where
  "ReadFull n r =
    (if n \<le> length (avail r) then (Inr (take n (avail r)), r\<lparr>avail := drop n (avail r)\<rparr>)
     else (Inl (if stop r = EOF \<and> avail r \<noteq> [] then ErrUnexpectedEOF else stop r),
           r\<lparr>avail := []\<rparr>))"

lemma rbind_pure [reader_simps]: "rbind (rpure x) f r = f x r"
  by (simp add: rbind_def rpure_def)

lemma rbind_fail [reader_simps]: "rbind (rfail e) f r = (Inl e, r)"
  by (simp add: rbind_def rfail_def)

lemma rbind_InrE:
  assumes "rbind m f r = (Inr y, r')"
  obtains x r1 where "m r = (Inr x, r1)" "f x r1 = (Inr y, r')"
  using assms by (auto simp: rbind_def split: prod.splits sum.splits)

lemma rbind_Inr: "m r = (Inr x, r1) \<Longrightarrow> rbind m f r = f x r1"
  by (simp add: rbind_def)

lemma rbind_Inl: "m r = (Inl e, r1) \<Longrightarrow> rbind m f r = (Inl e, r1)"
  by (simp add: rbind_def)

lemma ReadFull_append [reader_simps]:
  "length a = n \<Longrightarrow> ReadFull n \<lparr>avail = a @ b, stop = e\<rparr> = (Inr a, \<lparr>avail = b, stop = e\<rparr>)"
  by (simp add: ReadFull_def)

lemma rbind_ReadFull [reader_simps]:
  "length a = n \<Longrightarrow> rbind (ReadFull n) f \<lparr>avail = a @ b, stop = e\<rparr> = f a \<lparr>avail = b, stop = e\<rparr>"
  by (simp add: rbind_def ReadFull_append)

lemma ReadFull_InrE:
  assumes "ReadFull n r = (Inr x, r')"
  shows "avail r = x @ avail r'" "length x = n" "stop r' = stop r"
  using assms by (auto simp: ReadFull_def split: if_splits)

lemma ReadFull_short:
  "ReadFull n r = (Inl e, r') \<Longrightarrow> avail r' = [] \<and> length (avail r) < n \<and> stop r' = stop r \<and>
    e = (if stop r = EOF \<and> avail r \<noteq> [] then ErrUnexpectedEOF else stop r)"
  by (auto simp: ReadFull_def split: if_splits)

section \<open>Big-endian integers\<close>

definition be_nat :: "byte list \<Rightarrow> nat" where
  "be_nat bs = foldl (\<lambda>a b. a * 256 + unat b) 0 bs"

fun be_bytes :: "nat \<Rightarrow> nat \<Rightarrow> byte list" where
  "be_bytes 0 n = []"
| "be_bytes (Suc k) n = be_bytes k (n div 256) @ [word_of_nat (n mod 256)]"

lemma length_be_bytes [simp]: "length (be_bytes k n) = k"
  by (induction k arbitrary: n) auto

lemma be_nat_snoc: "be_nat (bs @ [b]) = be_nat bs * 256 + unat b"
  by (simp add: be_nat_def)

lemma be_nat_bytes: "n < 256 ^ k \<Longrightarrow> be_nat (be_bytes k n) = n"
proof (induction k arbitrary: n)
  case 0
  then show ?case by (simp add: be_nat_def)
next
  case (Suc k)
  then have "n div 256 < 256 ^ k" by (simp add: less_mult_imp_div_less)
  then have "be_nat (be_bytes k (n div 256)) = n div 256" by (rule Suc.IH)
  moreover have "unat (word_of_nat (n mod 256) :: byte) = n mod 256"
    by (simp add: unat_of_nat)
  ultimately show ?case by (simp only: be_bytes.simps be_nat_snoc) presburger
qed

lemma be_bytes_nat: "be_bytes (length bs) (be_nat bs) = bs"
proof (induction bs rule: rev_induct)
  case Nil
  show ?case by simp
next
  case (snoc b bs)
  have "(be_nat bs * 256 + unat b) div 256 = be_nat bs" by (simp add: div_add1_eq)
  moreover have "(be_nat bs * 256 + unat b) mod 256 = unat b" by simp
  ultimately show ?case using snoc by (simp add: be_nat_snoc)
qed

lemma be_nat_lt: "be_nat bs < 256 ^ length bs"
proof (induction bs rule: rev_induct)
  case Nil
  show ?case by (simp add: be_nat_def)
next
  case (snoc b bs)
  have "be_nat bs * 256 + 256 \<le> 256 ^ length bs * 256"
    using snoc by (metis Suc_leI mult_Suc add.commute mult_le_mono1)
  moreover have "be_nat bs * 256 + unat b < be_nat bs * 256 + 256" by simp
  ultimately show ?case by (simp only: be_nat_snoc length_append_singleton power_Suc2)
qed

section \<open>Writing\<close>

text \<open>
  The connection: what went out on it, how many more bytes it takes before a write on it
  fails (\<open>None\<close>: it never does), and whether it was closed.
\<close>

record net_conn =
  sent :: "byte list"
  room :: "nat option"
  shut :: bool

definition net_write :: "net_conn \<Rightarrow> byte list \<Rightarrow> nat \<times> ws_err option \<times> net_conn" where
  "net_write c p =
    (if shut c then (0, Some NetClosed, c)
     else case room c of
        None \<Rightarrow> (length p, None, c\<lparr>sent := sent c @ p\<rparr>)
      | Some k \<Rightarrow>
          if length p \<le> k then (length p, None, c\<lparr>sent := sent c @ p, room := Some (k - length p)\<rparr>)
          else (k, Some NetTimeout, c\<lparr>sent := sent c @ take k p, room := Some 0\<rparr>))"

definition net_close :: "net_conn \<Rightarrow> net_conn" where
  "net_close c = c\<lparr>shut := True\<rparr>"

text \<open>\<open>bufio.Writer\<close>: a buffer of a fixed size whose first failure stays.\<close>

record bufw =
  buf :: "byte list"
  buf_size :: nat
  buf_err :: "ws_err option"
  wr :: net_conn

definition buf_flush :: "bufw \<Rightarrow> ws_err option \<times> bufw" where
  "buf_flush b =
    (if buf_err b \<noteq> None then (buf_err b, b)
     else if buf b = [] then (None, b)
     else case net_write (wr b) (buf b) of
        (n, None, c) \<Rightarrow> (None, b\<lparr>buf := [], wr := c\<rparr>)
      | (n, Some e, c) \<Rightarrow> (Some e, b\<lparr>buf := drop n (buf b), buf_err := Some e, wr := c\<rparr>))"

function buf_write :: "bufw \<Rightarrow> byte list \<Rightarrow> ws_err option \<times> bufw" where
  "buf_write b p =
    (if buf_size b - length (buf b) < length p \<and> buf_err b = None then
       (if buf b = [] then
          (case net_write (wr b) p of (n, e, c) \<Rightarrow> buf_write (b\<lparr>buf_err := e, wr := c\<rparr>) (drop n p))
        else
          (let n = buf_size b - length (buf b) in
             buf_write (snd (buf_flush (b\<lparr>buf := buf b @ take n p\<rparr>))) (drop n p)))
     else if buf_err b \<noteq> None then (buf_err b, b)
     else (None, b\<lparr>buf := buf b @ p\<rparr>))"
  by pat_completeness auto
termination
  by (relation "measure (\<lambda>(b, p). (if buf_err b \<noteq> None then 0 else 1 + 2 * length p + (if buf b = [] then 0 else 1)))")
    (auto simp: net_write_def buf_flush_def split: option.splits if_splits prod.splits)

declare buf_write.simps [simp del]

text \<open>What the writer still owes the connection, with what has gone out already.\<close>

definition stream :: "bufw \<Rightarrow> byte list" where
  "stream b = sent (wr b) @ buf b"

text \<open>A connection that takes everything.\<close>

definition healthy :: "bufw \<Rightarrow> bool" where
  "healthy b \<longleftrightarrow> \<not> shut (wr b) \<and> room (wr b) = None \<and> buf_err b = None"

lemma flush_healthy:
  "healthy b \<Longrightarrow> buf_flush b = (None, b\<lparr>buf := [], wr := (wr b)\<lparr>sent := stream b\<rparr>\<rparr>)"
  by (cases "buf b") (auto simp: healthy_def buf_flush_def net_write_def stream_def)

lemma write_healthy:
  "healthy b \<Longrightarrow> \<exists>b'. buf_write b p = (None, b') \<and> healthy b' \<and> stream b' = stream b @ p \<and>
    buf_size b' = buf_size b"
proof (induction b p rule: buf_write.induct)
  case (1 b p)
  let ?n = "buf_size b - length (buf b)"
  consider (big) "?n < length p" "buf b = []" | (fill) "?n < length p" "buf b \<noteq> []"
    | (fits) "\<not> ?n < length p" by blast
  then show ?case
  proof cases
    case big
    let ?b = "b\<lparr>buf_err := None, wr := (wr b)\<lparr>sent := sent (wr b) @ p\<rparr>\<rparr>"
    have nw: "net_write (wr b) p = (length p, None, (wr b)\<lparr>sent := sent (wr b) @ p\<rparr>)"
      using 1(3) by (simp add: healthy_def net_write_def)
    have "buf_write b p = buf_write ?b []"
      using 1(3) big nw by (subst buf_write.simps) (simp add: healthy_def)
    also have "\<dots> = (None, ?b)" using big by (subst buf_write.simps) simp
    finally show ?thesis using 1(3) big by (simp add: healthy_def stream_def)
  next
    case fill
    let ?f = "b\<lparr>buf := buf b @ take ?n p\<rparr>"
    have h: "healthy ?f" using 1(3) by (simp add: healthy_def)
    let ?b = "snd (buf_flush ?f)"
    have b: "?b = ?f\<lparr>buf := [], wr := (wr ?f)\<lparr>sent := stream ?f\<rparr>\<rparr>"
      by (simp only: flush_healthy [OF h] snd_conv)
    have "buf_write b p = buf_write ?b (drop ?n p)"
      using 1(3) fill by (subst buf_write.simps) (simp add: healthy_def Let_def)
    moreover have "healthy ?b" using h by (simp add: b healthy_def)
    moreover have "stream ?b = stream b @ take ?n p" by (simp add: b stream_def)
    moreover have "buf_size ?b = buf_size b" by (simp add: b)
    ultimately show ?thesis using 1(2) [OF _ fill(2) refl] 1(3) fill(1)
      by (auto simp: healthy_def)
  next
    case fits
    then show ?thesis using 1(3)
      by (subst buf_write.simps) (auto simp: healthy_def stream_def)
  qed
qed

text \<open>Whatever fails, what went out is a prefix of what was to go out.\<close>

lemma net_write_grows:
  "net_write c p = (n, e, c') \<Longrightarrow> sent c' = sent c @ take n p \<and> n \<le> length p \<and> shut c' = shut c \<and>
    (e = None \<longrightarrow> n = length p)"
  by (auto simp: net_write_def split: if_splits option.splits)

lemma flush_sends:
  "buf_flush b = (e, b') \<Longrightarrow> \<exists>q. sent (wr b') = sent (wr b) @ q \<and> stream b' = stream b \<and> shut (wr b') = shut (wr b) \<and> e = buf_err b' \<and> (e = None \<longrightarrow> buf b' = [])"
  by (auto simp: buf_flush_def stream_def split: if_splits prod.splits option.splits
      dest!: net_write_grows)

lemma drop_split: "drop n p = q @ r \<Longrightarrow> p = (take n p @ q) @ r"
  by (metis append_assoc append_take_drop_id)

lemma buf_err_write: "buf_err b \<noteq> None \<Longrightarrow> buf_write b p = (buf_err b, b)"
  by (subst buf_write.simps) auto

lemma write_sends:
  "buf_write b p = (e, b') \<Longrightarrow> \<exists>q r. stream b' = stream b @ q \<and> p = q @ r \<and>
     (\<exists>s. sent (wr b') = sent (wr b) @ s) \<and> shut (wr b') = shut (wr b) \<and> e = buf_err b' \<and>
     (e = None \<longrightarrow> r = [])"
proof (induction b p arbitrary: e b' rule: buf_write.induct)
  case (1 b p)
  let ?n = "buf_size b - length (buf b)"
  consider (big) "?n < length p" "buf_err b = None" "buf b = []"
    | (fill) "?n < length p" "buf_err b = None" "buf b \<noteq> []"
    | (stay) "\<not> (?n < length p \<and> buf_err b = None)" by argo
  then show ?case
  proof cases
    case big
    obtain n e1 c where nw: "net_write (wr b) p = (n, e1, c)" by (metis prod_cases3)
    have "buf_write (b\<lparr>buf_err := e1, wr := c\<rparr>) (drop n p) = (e, b')"
      using 1(3) big nw by (subst (asm) buf_write.simps) simp
    from 1(1) [OF _ big(3) nw [symmetric] _ this] big(1,2)
    obtain q r where "stream b' = stream (b\<lparr>buf_err := e1, wr := c\<rparr>) @ q" "drop n p = q @ r"
      "\<exists>s. sent (wr b') = sent c @ s" "shut (wr b') = shut c" "e = buf_err b'" "e = None \<longrightarrow> r = []"
      by auto
    moreover from this(2) have "p = (take n p @ q) @ r" by (rule drop_split)
    ultimately show ?thesis using net_write_grows [OF nw] big(3)
      by - (rule exI [of _ "take n p @ q"], rule exI [of _ r], auto simp: stream_def)
  next
    case fill
    let ?f = "b\<lparr>buf := buf b @ take ?n p\<rparr>"
    obtain e1 g where g: "buf_flush ?f = (e1, g)" by force
    have "buf_write g (drop ?n p) = (e, b')"
      using 1(3) fill g by (subst (asm) buf_write.simps) (simp add: Let_def)
    from 1(2) [OF _ fill(3) refl, of e b'] this g fill(1,2)
    obtain q r where "stream b' = stream g @ q" "drop ?n p = q @ r"
      "\<exists>s. sent (wr b') = sent (wr g) @ s" "shut (wr b') = shut (wr g)" "e = buf_err b'"
      "e = None \<longrightarrow> r = []"
      by auto
    moreover from this(2) have "p = (take ?n p @ q) @ r" by (rule drop_split)
    ultimately show ?thesis using flush_sends [OF g]
      by - (rule exI [of _ "take ?n p @ q"], rule exI [of _ r], auto simp: stream_def)
  next
    case stay
    then show ?thesis using 1(3)
      by (subst (asm) buf_write.simps) (auto simp: stream_def split: if_splits)
  qed
qed

end
