(* ===== verification/Ws_Frame.thy ===== *)
theory Ws_Frame
  imports Ws_Io Ws_Utf8
begin

text \<open>
  \<^verbatim>\<open>ws/frame.go\<close>: the wire unit of RFC 6455. A frame, reading one from a byte stream
  with every check the code makes and in its order, writing one, the masking of a client's
  payload, the chunked read of a payload nobody vouched for, and the payload of a close
  frame. \<open>ReadFrame\<close> and \<open>WriteFrame\<close> are shown to be the two halves of one canonical codec,
  stated as the locale \<open>frame_codec\<close> and interpreted on them.
\<close>

section \<open>Frames\<close>

definition ContinuationFrame :: int where "ContinuationFrame = 0"
definition TextMessage :: int where "TextMessage = 1"
definition BinaryMessage :: int where "BinaryMessage = 2"
definition CloseMessage :: int where "CloseMessage = 8"
definition PingMessage :: int where "PingMessage = 9"
definition PongMessage :: int where "PongMessage = 10"

lemmas opcode_defs = ContinuationFrame_def TextMessage_def BinaryMessage_def CloseMessage_def
  PingMessage_def PongMessage_def

definition CloseNormalClosure :: int where "CloseNormalClosure = 1000"
definition CloseGoingAway :: int where "CloseGoingAway = 1001"
definition CloseProtocolError :: int where "CloseProtocolError = 1002"
definition CloseNoStatusReceived :: int where "CloseNoStatusReceived = 1005"
definition CloseAbnormalClosure :: int where "CloseAbnormalClosure = 1006"
definition CloseInvalidFramePayloadData :: int where "CloseInvalidFramePayloadData = 1007"
definition ClosePolicyViolation :: int where "ClosePolicyViolation = 1008"
definition CloseMessageTooBig :: int where "CloseMessageTooBig = 1009"
definition CloseTLSHandshake :: int where "CloseTLSHandshake = 1015"

lemmas close_code_defs = CloseNormalClosure_def CloseGoingAway_def CloseProtocolError_def
  CloseNoStatusReceived_def CloseAbnormalClosure_def CloseInvalidFramePayloadData_def
  ClosePolicyViolation_def CloseMessageTooBig_def CloseTLSHandshake_def

definition maxControlPayload :: nat where "maxControlPayload = 125"

record Frame =
  Final :: bool
  Opcode :: int
  Payload :: "byte list"

definition Control :: "Frame \<Rightarrow> bool" where
  "Control f \<longleftrightarrow> Opcode f \<ge> CloseMessage"

section \<open>Masking\<close>

text \<open>\<open>Mask\<close>: the byte at index \<open>i\<close> is combined with byte \<open>i & 3\<close> of the key.\<close>

fun mask_from :: "nat \<Rightarrow> byte list \<Rightarrow> byte list \<Rightarrow> byte list" where
  "mask_from i [] key = []"
| "mask_from i (b # bs) key = (b XOR key ! (i AND 3)) # mask_from (Suc i) bs key"

definition Mask :: "byte list \<Rightarrow> byte list \<Rightarrow> byte list" where
  "Mask b key = mask_from 0 b key"

section \<open>Reading a frame\<close>

definition payloadChunk :: nat where "payloadChunk = 32 * 2 ^ 10"

text \<open>The loop that assembles a payload as its bytes arrive.\<close>

function chunk_loop :: "nat \<Rightarrow> byte list \<Rightarrow> byte list reading" where
  "chunk_loop n payload r =
    (if length payload < n then
       (let want = (if n - length payload > payloadChunk then payloadChunk else n - length payload)
        in case ReadFull want r of
             (Inl err, r') \<Rightarrow>
               (Inl (if payload \<noteq> [] \<and> err = EOF then ErrUnexpectedEOF else err), r')
           | (Inr chunk, r') \<Rightarrow> chunk_loop n (payload @ chunk) r')
     else (Inr payload, r))"
  by pat_completeness auto
termination
  by (relation "measure (\<lambda>(n, payload, r). n - length payload)")
    (auto simp: ReadFull_def payloadChunk_def Let_def split: if_splits)

declare chunk_loop.simps [simp del]

definition readPayload :: "nat \<Rightarrow> bool \<Rightarrow> byte list reading" where
  "readPayload n vouched =
    (if vouched \<or> n \<le> payloadChunk then ReadFull n else chunk_loop n [])"

text \<open>The length of the payload: the seven bits of the second byte, or two or eight more.\<close>

definition read_length :: "byte \<Rightarrow> nat reading" where
  "read_length b =
    (let len = unat (b AND 0x7f) in
     if len = 126 then
       rbind (ReadFull 2) (\<lambda>ext.
         let len = be_nat ext in if len < 126 then rfail errNonMinimalLength else rpure len)
     else if len = 127 then
       rbind (ReadFull 8) (\<lambda>ext.
         let n = be_nat ext in
         if n \<le> 0xffff then rfail errNonMinimalLength
         else if n > 2 ^ 62 then rfail ErrTooLarge
         else rpure n)
     else rpure len)"

definition ReadFrame :: "bool \<Rightarrow> int \<Rightarrow> Frame reading" where
  "ReadFrame fromClient limit =
    rbind (ReadFull 2) (\<lambda>head.
      let final = (head ! 0 AND 0x80 \<noteq> 0) in
      if head ! 0 AND 0x70 \<noteq> 0 then rfail ErrReservedBits
      else let opcode = uint (head ! 0 AND 0x0f) in
      if opcode \<notin> {ContinuationFrame, TextMessage, BinaryMessage, CloseMessage, PingMessage,
          PongMessage} then rfail ErrBadOpcode
      else let masked = (head ! 1 AND 0x80 \<noteq> 0) in
      if fromClient \<and> \<not> masked then rfail ErrUnmaskedClient
      else if \<not> fromClient \<and> masked then rfail ErrMaskedServer
      else rbind (read_length (head ! 1)) (\<lambda>len.
        if opcode \<ge> CloseMessage \<and> (len > maxControlPayload \<or> \<not> final) then rfail ErrControlTooLong
        else if \<not> opcode \<ge> CloseMessage \<and> limit > 0 \<and> int len > limit then rfail ErrTooLarge
        else rbind (if masked then ReadFull 4 else rpure [0, 0, 0, 0]) (\<lambda>key.
          rbind (readPayload len (limit > 0)) (\<lambda>payload.
            rpure \<lparr>Final = final, Opcode = opcode,
              Payload = (if masked then Mask payload key else payload)\<rparr>))))"

section \<open>Writing a frame\<close>

text \<open>The four bytes of a fresh key, from the generator's 32-bit word, little-endian.\<close>

definition mask_key :: "32 word \<Rightarrow> byte list" where
  "mask_key x = [ucast x, ucast (drop_bit 8 x), ucast (drop_bit 16 x), ucast (drop_bit 24 x)]"

definition frame_header :: "Frame \<Rightarrow> bool \<Rightarrow> byte list" where
  "frame_header f fromClient =
    (let first = (if Final f then word_of_int (Opcode f) OR 0x80 else word_of_int (Opcode f));
         n = length (Payload f);
         lengthByte = (if n \<le> 125 then word_of_nat n else if n \<le> 0xffff then 126 else 127);
         lengthByte = (if fromClient then lengthByte OR 0x80 else lengthByte)
     in [first, lengthByte] @
        (if n > 0xffff then be_bytes 8 n else if n > 125 then be_bytes 2 n else []))"

text \<open>
  \<open>WriteFrame\<close> takes an \<open>io.Writer\<close>: a state and a \<open>Write\<close> that answers an error or nothing.
  The random word of a client's key is an argument.
\<close>

definition WriteFrame ::
  "('w \<Rightarrow> byte list \<Rightarrow> ws_err option \<times> 'w) \<Rightarrow> 32 word \<Rightarrow> 'w \<Rightarrow> Frame \<Rightarrow> bool \<Rightarrow> ws_err option \<times> 'w"
where
  "WriteFrame Write rnd w f fromClient =
    (if Control f \<and> (length (Payload f) > maxControlPayload \<or> \<not> Final f) then
       (Some ErrControlTooLong, w)
     else
       let header = frame_header f fromClient in
       if \<not> fromClient then
         (case Write w header of
            (Some err, w') \<Rightarrow> (Some err, w')
          | (None, w') \<Rightarrow> Write w' (Payload f))
       else
         let mask = mask_key rnd; header = header @ mask; masked = Mask (Payload f) mask in
         (case Write w header of
            (Some err, w') \<Rightarrow> (Some err, w')
          | (None, w') \<Rightarrow> Write w' masked))"

section \<open>The close payload\<close>

definition CloseCodeValid :: "int \<Rightarrow> bool" where
  "CloseCodeValid code =
    (if code = CloseNoStatusReceived \<or> code = CloseAbnormalClosure \<or> code = CloseTLSHandshake \<or>
        code = 1004 then False
     else if code \<ge> 1000 \<and> code \<le> 1011 then True
     else if code \<ge> 3000 \<and> code \<le> 4999 then True
     else False)"

definition ParseClose :: "byte list \<Rightarrow> ws_err + int \<times> string" where
  "ParseClose payload =
    (if length payload = 0 then Inr (CloseNoStatusReceived, '''')
     else if length payload = 1 then Inl ErrBadCloseCode
     else let code = int (be_nat (take 2 payload)) in
       if \<not> CloseCodeValid code then Inl ErrBadCloseCode
       else if \<not> ValidUTF8 (drop 2 payload) then Inl ErrBadUTF8
       else Inr (code, string_of_bytes (drop 2 payload)))"

text \<open>
  \<open>utf8.DecodeLastRuneInString\<close>, as far as the caller looks at it: whether the text ends in
  a rune that decodes. The search for its first byte goes back at most four bytes.
\<close>

function seek_start :: "byte list \<Rightarrow> int \<Rightarrow> int \<Rightarrow> int" where
  "seek_start s start lim =
    (if start \<ge> lim then
       (if RuneStart (s ! nat start) then start else seek_start s (start - 1) lim)
     else start)"
  by pat_completeness auto
termination
  by (relation "measure (\<lambda>(s, start, lim). nat (start - lim + 1))") auto

declare seek_start.simps [simp del]

definition ends_in_rune :: "byte list \<Rightarrow> bool" where
  "ends_in_rune s =
    (let end = int (length s) in
     if s = [] then False
     else if last s < 0x80 then True
     else let lim = max (end - 4) 0;
              start = max (seek_start s (end - 2) lim) 0
          in (case rune_len (drop (nat start) s) of
                None \<Rightarrow> False
              | Some n \<Rightarrow> start + int n = end))"

text \<open>The loop of \<open>FormatClose\<close>: drop bytes from the end until the last rune is whole.\<close>

function trim_rune :: "byte list \<Rightarrow> byte list" where
  "trim_rune s =
    (if s \<noteq> [] then (if ends_in_rune s then s else trim_rune (butlast s)) else s)"
  by pat_completeness auto
termination
  by (relation "measure length") auto

declare trim_rune.simps [simp del]

definition FormatClose :: "int \<Rightarrow> string \<Rightarrow> byte list" where
  "FormatClose code reason =
    (if code = CloseNoStatusReceived then []
     else
       let room = maxControlPayload - 2;
           text = bytes_of_string reason;
           text = (if length text > room then trim_rune (take room text) else text)
       in be_bytes 2 (nat (code mod 2 ^ 16)) @ text)"

section \<open>Masking twice is not masking\<close>

lemma length_mask_from [simp]: "length (mask_from i b key) = length b"
  by (induction b arbitrary: i) auto

lemma length_Mask [simp]: "length (Mask b key) = length b"
  by (simp add: Mask_def)

lemma mask_from_twice: "mask_from i (mask_from i b key) key = b"
  by (induction b arbitrary: i) (auto simp: xor.assoc)

lemma Mask_Mask [simp]: "Mask (Mask b key) key = b"
  by (simp add: Mask_def mask_from_twice)

lemma length_mask_key [simp]: "length (mask_key x) = 4"
  by (simp add: mask_key_def)

section \<open>A payload in chunks is the payload\<close>

lemma chunk_loop_short:
  assumes "length payload + length (avail r) < n"
  shows "chunk_loop n payload r =
    (Inl (if stop r = EOF \<and> payload @ avail r \<noteq> [] then ErrUnexpectedEOF else stop r), r\<lparr>avail := []\<rparr>)"
  using assms
proof (induction n payload r rule: chunk_loop.induct)
  case (1 n payload r)
  let ?want = "if n - length payload > payloadChunk then payloadChunk else n - length payload"
  have lt: "length payload < n" using 1(2) by simp
  show ?case
  proof (cases "?want \<le> length (avail r)")
    case True
    let ?a = "take ?want (avail r)" and ?r = "r\<lparr>avail := drop ?want (avail r)\<rparr>"
    have rf: "ReadFull ?want r = (Inr ?a, ?r)" using True by (simp only: ReadFull_def if_True)
    have step: "chunk_loop n payload r = chunk_loop n (payload @ ?a) ?r"
      using lt rf by (subst chunk_loop.simps) (simp only: Let_def if_True prod.case sum.case)
    have "length (payload @ ?a) + length (avail ?r) < n" using 1(2) True by simp
    from 1(1) [OF lt refl rf [symmetric] refl this] show ?thesis unfolding step by simp
  next
    case False
    then show ?thesis using lt by (subst chunk_loop.simps) (auto simp: ReadFull_def Let_def)
  qed
qed

lemma chunk_loop_full:
  assumes "length payload \<le> n" "n \<le> length payload + length (avail r)"
  shows "chunk_loop n payload r =
    (Inr (payload @ take (n - length payload) (avail r)),
     r\<lparr>avail := drop (n - length payload) (avail r)\<rparr>)"
  using assms
proof (induction n payload r rule: chunk_loop.induct)
  case (1 n payload r)
  let ?want = "if n - length payload > payloadChunk then payloadChunk else n - length payload"
  show ?case
  proof (cases "length payload < n")
    case True
    let ?a = "take ?want (avail r)" and ?r = "r\<lparr>avail := drop ?want (avail r)\<rparr>"
    have rf: "ReadFull ?want r = (Inr ?a, ?r)" using True 1(3) by (auto simp: ReadFull_def)
    have step: "chunk_loop n payload r = chunk_loop n (payload @ ?a) ?r"
      using True rf by (subst chunk_loop.simps) (simp only: Let_def if_True prod.case sum.case)
    have "length (payload @ ?a) \<le> n" "n \<le> length (payload @ ?a) + length (avail ?r)"
      using 1(2,3) by auto
    from 1(1) [OF True refl rf [symmetric] refl this] 1(2,3) show ?thesis
      unfolding step by (auto simp: take_add [symmetric] min_def)
  next
    case False
    then show ?thesis using 1(2) by (subst chunk_loop.simps) simp
  qed
qed

lemma readPayload_eq: "readPayload n vouched r = ReadFull n r"
  by (cases "n \<le> length (avail r)")
    (auto simp: readPayload_def ReadFull_def chunk_loop_full chunk_loop_short)

section \<open>The two header bytes\<close>

text \<open>What a frame that may be on the wire looks like.\<close>

definition wire_frame :: "Frame \<Rightarrow> bool" where
  "wire_frame f \<longleftrightarrow>
    Opcode f \<in> {ContinuationFrame, TextMessage, BinaryMessage, CloseMessage, PingMessage, PongMessage} \<and>
    (Control f \<longrightarrow> Final f \<and> length (Payload f) \<le> maxControlPayload) \<and>
    length (Payload f) \<le> 2 ^ 62"

text \<open>The bytes of a frame masked with \<open>key\<close>, or not masked at all.\<close>

definition frame_bytes :: "Frame \<Rightarrow> byte list option \<Rightarrow> byte list" where
  "frame_bytes f key = frame_header f (key \<noteq> None) @
    (case key of None \<Rightarrow> Payload f | Some k \<Rightarrow> k @ Mask (Payload f) k)"

definition within_limit :: "Frame \<Rightarrow> int \<Rightarrow> bool" where
  "within_limit f limit \<longleftrightarrow> Control f \<or> limit \<le> 0 \<or> int (length (Payload f)) \<le> limit"

lemma byte_split:
  "(b::byte) = (b AND 0x80) OR (b AND 0x7f)"
  "(b::byte) = (b AND 0x80) OR (b AND 0x70) OR (b AND 0x0f)"
proof -
  have all: "b AND 0xff = b" using unat_and_mask [of b 8] by (simp add: byte_eq_unat mask_eq_exp_minus_1)
  have "(b AND 0x80) OR (b AND 0x7f) = b AND (0x80 OR 0x7f)"
    by (simp only: bit.conj_disj_distrib)
  then show "b = (b AND 0x80) OR (b AND 0x7f)" by (simp add: all)
  have "(b AND 0x80) OR (b AND 0x70) OR (b AND 0x0f) = b AND (0x80 OR 0x70 OR 0x0f)"
    by (simp only: bit.conj_disj_distrib)
  then show "b = (b AND 0x80) OR (b AND 0x70) OR (b AND 0x0f)" by (simp add: all)
qed

lemma high_bit_cases: "(b::byte) AND 0x80 = 0 \<or> b AND 0x80 = 0x80"
proof (cases "unat b < 128")
  case True
  then show ?thesis by (simp add: byte_lead)
next
  case False
  then have "unat b mod 128 = unat b - 128" using block_mod [of 128 1 "unat b"] by simp
  with False show ?thesis by (simp add: byte_eq_unat byte_and_simps)
qed

lemma high_bit_set [simp]:
  "((b::byte) OR 0x80) AND 0x80 = 0x80" "((b::byte) OR 0x80) AND 0x7f = b AND 0x7f"
  by (simp_all add: bit.conj_disj_distrib2)

lemma length_bits:
  assumes "n < 128"
  shows "unat (word_of_nat n AND (0x7f::byte)) = n" "word_of_nat n AND (0x80::byte) = 0"
  using assms by (simp_all add: byte_and_simps byte_lead unat_of_nat)

lemma opcode_bits:
  assumes "o' \<in> {ContinuationFrame, TextMessage, BinaryMessage, CloseMessage, PingMessage, PongMessage}"
  shows "(word_of_int o' :: byte) AND 0x80 = 0" "(word_of_int o' :: byte) AND 0x70 = 0"
    "(word_of_int o' OR 0x80 :: byte) AND 0x80 \<noteq> 0" "(word_of_int o' OR 0x80 :: byte) AND 0x70 = 0"
    "uint ((word_of_int o' :: byte) AND 0x0f) = o'" "uint ((word_of_int o' OR 0x80 :: byte) AND 0x0f) = o'"
  using assms by (auto simp: opcode_defs)

lemma read_length_bytes:
  assumes "n \<le> 2 ^ 62" "b AND 0x7f = (if n \<le> 125 then word_of_nat n else if n \<le> 0xffff then 126 else 127)"
  shows "read_length b \<lparr>avail = (if n > 0xffff then be_bytes 8 n else if n > 125 then be_bytes 2 n
      else []) @ rest, stop = e\<rparr> = (Inr n, \<lparr>avail = rest, stop = e\<rparr>)"
proof -
  consider "n \<le> 125" | "125 < n" "n \<le> 0xffff" | "0xffff < n" by linarith
  then show ?thesis
  proof cases
    case 1
    then have "unat (b AND 0x7f) = n" using assms(2) by (simp add: unat_of_nat)
    with 1 show ?thesis by (simp add: read_length_def rpure_def)
  next
    case 2
    then have u: "unat (b AND 0x7f) = 126" using assms(2) by simp
    have "be_nat (be_bytes 2 n) = n" by (rule be_nat_bytes) (use 2 in simp)
    with 2 u show ?thesis
      by (simp add: read_length_def rbind_ReadFull rpure_def Let_def)
  next
    case 3
    then have u: "unat (b AND 0x7f) = 127" using assms(2) by simp
    have "be_nat (be_bytes 8 n) = n" by (rule be_nat_bytes) (use assms(1) in simp)
    with 3 u assms(1) show ?thesis
      by (simp add: read_length_def rbind_ReadFull rpure_def Let_def)
  qed
qed

section \<open>One canonical codec\<close>

definition length_byte :: "nat \<Rightarrow> bool \<Rightarrow> byte" where
  "length_byte n fromClient =
    (let b = (if n \<le> 125 then word_of_nat n else if n \<le> 0xffff then 126 else 127)
     in if fromClient then b OR 0x80 else b)"

definition length_ext :: "nat \<Rightarrow> byte list" where
  "length_ext n = (if n > 0xffff then be_bytes 8 n else if n > 125 then be_bytes 2 n else [])"

definition first_byte :: "Frame \<Rightarrow> byte" where
  "first_byte f = (if Final f then word_of_int (Opcode f) OR 0x80 else word_of_int (Opcode f))"

lemma frame_header_eq:
  "frame_header f c = [first_byte f, length_byte (length (Payload f)) c] @ length_ext (length (Payload f))"
  by (simp add: frame_header_def first_byte_def length_byte_def length_ext_def Let_def)

lemma length_byte_bits:
  "length_byte n c AND 0x7f = (if n \<le> 125 then word_of_nat n else if n \<le> 0xffff then 126 else 127)"
  "(length_byte n c AND 0x80 \<noteq> 0) = c"
proof -
  have "word_of_nat n AND (0x7f::byte) = word_of_nat n" if "n \<le> 125"
    using length_bits(1) [of n] that by (simp add: byte_eq_unat unat_of_nat)
  then show "length_byte n c AND 0x7f = (if n \<le> 125 then word_of_nat n else if n \<le> 0xffff then 126 else 127)"
    by (simp add: length_byte_def Let_def)
  show "(length_byte n c AND 0x80 \<noteq> 0) = c"
    by (auto simp: length_byte_def Let_def length_bits)
qed

lemma read_length_ext:
  "n \<le> 2 ^ 62 \<Longrightarrow> read_length (length_byte n c) \<lparr>avail = length_ext n @ rest, stop = e\<rparr> =
    (Inr n, \<lparr>avail = rest, stop = e\<rparr>)"
  unfolding length_ext_def by (rule read_length_bytes) (simp_all only: length_byte_bits)

lemma read_frame_bytes:
  assumes f: "wire_frame f" and lim: "within_limit f limit"
    and key: "\<And>k. key = Some k \<Longrightarrow> length k = 4" and c: "fromClient = (key \<noteq> None)"
  shows "ReadFrame fromClient limit \<lparr>avail = frame_bytes f key @ rest, stop = e\<rparr> =
    (Inr f, \<lparr>avail = rest, stop = e\<rparr>)"
proof -
  let ?n = "length (Payload f)"
  define t where "t = (case key of None \<Rightarrow> Payload f | Some k \<Rightarrow> k @ Mask (Payload f) k) @ rest"
  have op: "Opcode f \<in> {ContinuationFrame, TextMessage, BinaryMessage, CloseMessage, PingMessage,
      PongMessage}" using f by (simp add: wire_frame_def)
  have bytes: "frame_bytes f key @ rest =
      [first_byte f, length_byte ?n fromClient] @ length_ext ?n @ t"
    by (simp add: frame_bytes_def frame_header_eq c t_def)
  have bits: "first_byte f AND 0x70 = 0" "uint (first_byte f AND 0x0f) = Opcode f"
    "(first_byte f AND 0x80 \<noteq> 0) = Final f"
    using opcode_bits [OF op] by (simp_all add: first_byte_def)
  have len: "rbind (read_length (length_byte ?n fromClient)) g \<lparr>avail = length_ext ?n @ t, stop = e\<rparr> =
      g ?n \<lparr>avail = t, stop = e\<rparr>" for g :: "nat \<Rightarrow> Frame reading"
    using f by (simp add: rbind_def wire_frame_def read_length_ext)
  have ctl: "\<not> (Opcode f \<ge> CloseMessage \<and> (?n > maxControlPayload \<or> \<not> Final f))"
    "\<not> (\<not> Opcode f \<ge> CloseMessage \<and> limit > 0 \<and> int ?n > limit)"
    using f lim by (auto simp: wire_frame_def within_limit_def Control_def)
  have "rbind (if fromClient then ReadFull 4 else rpure [0, 0, 0, 0])
      (\<lambda>k. rbind (readPayload ?n (limit > 0)) (\<lambda>payload.
        rpure \<lparr>Final = Final f, Opcode = Opcode f,
          Payload = (if fromClient then Mask payload k else payload)\<rparr>))
      \<lparr>avail = t, stop = e\<rparr> = (Inr f, \<lparr>avail = rest, stop = e\<rparr>)"
    using key c unfolding t_def
    by (cases key) (simp_all add: reader_simps rbind_def readPayload_eq rpure_def)
  moreover have "\<not> (fromClient \<and> \<not> fromClient)" "\<not> (\<not> fromClient \<and> fromClient)" by simp_all
  ultimately show ?thesis
    unfolding bytes ReadFrame_def
    by (subst rbind_ReadFull, simp)
      (simp only: nth_Cons_0 nth_Cons_Suc One_nat_def Let_def bits length_byte_bits len op ctl
        not_not simp_thms if_False)
qed

lemma read_length_back:
  assumes "read_length b r = (Inr n, r')"
  shows "n \<le> 2 ^ 62" "avail r = length_ext n @ avail r'" "stop r' = stop r"
    "b AND 0x7f = (if n \<le> 125 then word_of_nat n else if n \<le> 0xffff then 126 else 127)"
proof -
  consider (two) ext where "unat (b AND 0x7f) = 126" "ReadFull 2 r = (Inr ext, r')" "n = be_nat ext" "126 \<le> n"
    | (eight) ext where "unat (b AND 0x7f) = 127" "ReadFull 8 r = (Inr ext, r')" "n = be_nat ext"
        "0xffff < n" "n \<le> 2 ^ 62"
    | (seven) "unat (b AND 0x7f) = n" "n \<noteq> 126" "n \<noteq> 127" "r' = r"
    using assms unfolding read_length_def Let_def
    by (auto simp: rpure_def rfail_def not_less not_le split: if_splits elim!: rbind_InrE)
  then have "n \<le> 2 ^ 62 \<and> avail r = length_ext n @ avail r' \<and> stop r' = stop r \<and>
    b AND 0x7f = (if n \<le> 125 then word_of_nat n else if n \<le> 0xffff then 126 else 127)"
  proof cases
    case two
    note rf = ReadFull_InrE [OF two(2)]
    have "n < 256 ^ 2" using be_nat_lt [of ext] two(3) rf(2) by simp
    moreover have "be_bytes 2 n = ext" using be_bytes_nat [of ext] two(3) rf(2) by simp
    ultimately show ?thesis using two(1,4) rf by (simp add: length_ext_def byte_eq_unat)
  next
    case eight
    note rf = ReadFull_InrE [OF eight(2)]
    have "be_bytes 8 n = ext" using be_bytes_nat [of ext] eight(3) rf(2) by simp
    then show ?thesis using eight(1,4,5) rf by (simp add: length_ext_def byte_eq_unat)
  next
    case seven
    have "n < 128" using seven(1) by (simp add: byte_and_simps flip: seven(1))
    then have "n \<le> 125" using seven(2,3) by linarith
    then show ?thesis using seven(1,4)
      by (simp add: length_ext_def byte_eq_unat unat_of_nat)
  qed
  then show "n \<le> 2 ^ 62" "avail r = length_ext n @ avail r'" "stop r' = stop r"
    "b AND 0x7f = (if n \<le> 125 then word_of_nat n else if n \<le> 0xffff then 126 else 127)" by blast+
qed

lemma length_byte_back:
  assumes "b AND 0x7f = (if n \<le> 125 then word_of_nat n else if n \<le> 0xffff then 126 else 127)"
  shows "b = length_byte n (b AND 0x80 \<noteq> 0)"
proof -
  have "b = (b AND 0x80) OR (b AND 0x7f)" by (rule byte_split(1))
  then show ?thesis using high_bit_cases [of b]
    by (auto simp: length_byte_def Let_def assms or.commute)
qed

lemma first_byte_back:
  assumes "b AND 0x70 = 0"
  shows "b = first_byte \<lparr>Final = (b AND 0x80 \<noteq> 0), Opcode = uint (b AND 0x0f), Payload = p\<rparr>"
proof -
  have "b = (b AND 0x80) OR (b AND 0x0f)" using byte_split(2) [of b] assms by simp
  then show ?thesis using high_bit_cases [of b]
    by (auto simp: first_byte_def or.commute)
qed

lemma ReadFrame_back:
  assumes "ReadFrame fromClient limit r = (Inr f, r')"
  shows "wire_frame f \<and> within_limit f limit \<and> stop r' = stop r \<and>
    (\<exists>key. (key \<noteq> None) = fromClient \<and> (\<forall>k. key = Some k \<longrightarrow> length k = 4) \<and>
       avail r = frame_bytes f key @ avail r')"
proof -
  obtain head r1 where h: "ReadFull 2 r = (Inr head, r1)"
    using assms unfolding ReadFrame_def by (elim rbind_InrE)
  obtain h0 h1 where head: "head = [h0, h1]"
    using ReadFull_InrE(2) [OF h] by (auto simp: numeral_2_eq_2 length_Suc_conv)
  let ?op = "uint (h0 AND 0x0f)" and ?fin = "h0 AND 0x80 \<noteq> 0" and ?m = "h1 AND 0x80 \<noteq> 0"
  obtain n r2 key r3 payload where bits: "h0 AND 0x70 = 0"
      "?op \<in> {ContinuationFrame, TextMessage, BinaryMessage, CloseMessage, PingMessage, PongMessage}"
      "?m = fromClient"
    and len: "read_length h1 r1 = (Inr n, r2)"
    and ctl: "\<not> (?op \<ge> CloseMessage \<and> (n > maxControlPayload \<or> \<not> ?fin))"
      "\<not> (\<not> ?op \<ge> CloseMessage \<and> limit > 0 \<and> int n > limit)"
    and key: "(if ?m then ReadFull 4 else rpure [0, 0, 0, 0]) r2 = (Inr key, r3)"
    and pay: "ReadFull n r3 = (Inr payload, r')"
    and f: "f = \<lparr>Final = ?fin, Opcode = ?op, Payload = (if ?m then Mask payload key else payload)\<rparr>"
    using assms unfolding ReadFrame_def rbind_Inr [where m = "ReadFull 2", OF h] head Let_def
    by (auto simp: rpure_def rfail_def readPayload_eq simp del: insert_iff split: if_splits
        elim!: rbind_InrE)
  note lb = read_length_back [OF len] and rp = ReadFull_InrE [OF pay] and rh = ReadFull_InrE [OF h]
  have plen: "length (Payload f) = n" using rp(2) by (simp add: f)
  have hdr: "frame_header f fromClient = [h0, h1] @ length_ext n"
    using first_byte_back [OF bits(1)] length_byte_back [OF lb(4)] bits(3)
    by (simp only: frame_header_eq plen) (simp add: f)
  have "avail r = frame_bytes f (if fromClient then Some key else None) @ avail r' \<and>
      (fromClient \<longrightarrow> length key = 4) \<and> stop r' = stop r"
  proof (cases fromClient)
    case True
    then have "ReadFull 4 r2 = (Inr key, r3)" using key bits(3) by simp
    note rk = ReadFull_InrE [OF this]
    show ?thesis using True bits(3) rk rp lb rh hdr by (simp add: frame_bytes_def head) (simp add: f)
  next
    case False
    then have "r3 = r2" using key bits(3) by (simp add: rpure_def)
    then show ?thesis using False bits(3) rp lb rh hdr by (simp add: frame_bytes_def head) (simp add: f)
  qed
  moreover have "wire_frame f"
    using bits(2) ctl(1) lb(1) plen unfolding wire_frame_def Control_def f
    by (simp only: Frame.simps simp_thms de_Morgan_conj de_Morgan_disj not_less) blast
  moreover have "within_limit f limit"
    using ctl(2) plen unfolding within_limit_def Control_def by (simp add: f) linarith
  ultimately show ?thesis
    by (intro conjI exI [of _ "if fromClient then Some key else None"]) auto
qed

text \<open>What a peer's frames promise the reader, and the reader the peer.\<close>

locale frame_codec =
  fixes read :: "'f reading"
    and bytes :: "'f \<Rightarrow> 'k \<Rightarrow> byte list"
    and ok :: "'f \<Rightarrow> bool"
    and key_ok :: "'k \<Rightarrow> bool"
  assumes read_bytes: "ok f \<Longrightarrow> key_ok k \<Longrightarrow>
      read \<lparr>avail = bytes f k @ rest, stop = e\<rparr> = (Inr f, \<lparr>avail = rest, stop = e\<rparr>)"
    and read_back: "read r = (Inr f, r') \<Longrightarrow>
      ok f \<and> stop r' = stop r \<and> (\<exists>k. key_ok k \<and> avail r = bytes f k @ avail r')"
begin

lemma unambiguous:
  assumes "ok f" "key_ok k" "ok g" "key_ok l" "bytes f k @ x = bytes g l @ y"
  shows "f = g \<and> x = y"
  using read_bytes [OF assms(1,2), of x EOF] read_bytes [OF assms(3,4), of y EOF] assms(5) by simp

lemma accepts_iff:
  "(\<exists>f r'. read r = (Inr f, r')) \<longleftrightarrow>
    (\<exists>f k rest. ok f \<and> key_ok k \<and> avail r = bytes f k @ rest)"
proof
  assume "\<exists>f r'. read r = (Inr f, r')"
  then show "\<exists>f k rest. ok f \<and> key_ok k \<and> avail r = bytes f k @ rest" using read_back by blast
next
  assume "\<exists>f k rest. ok f \<and> key_ok k \<and> avail r = bytes f k @ rest"
  then obtain f k rest where f: "ok f" "key_ok k" "avail r = bytes f k @ rest" by blast
  then have "r = \<lparr>avail = bytes f k @ rest, stop = stop r\<rparr>" by simp
  then show "\<exists>f r'. read r = (Inr f, r')" using read_bytes [OF f(1,2), of rest "stop r"] by metis
qed

end

definition key_ok :: "bool \<Rightarrow> byte list option \<Rightarrow> bool" where
  "key_ok fromClient key \<longleftrightarrow> (key \<noteq> None) = fromClient \<and> (\<forall>k. key = Some k \<longrightarrow> length k = 4)"

interpretation wire: frame_codec "ReadFrame fromClient limit" frame_bytes
  "\<lambda>f. wire_frame f \<and> within_limit f limit" "key_ok fromClient" for fromClient limit
proof unfold_locales
  show "ReadFrame fromClient limit \<lparr>avail = frame_bytes f k @ rest, stop = e\<rparr> =
      (Inr f, \<lparr>avail = rest, stop = e\<rparr>)"
    if "wire_frame f \<and> within_limit f limit" "key_ok fromClient k" for f k rest e
    using that by (intro read_frame_bytes) (auto simp: key_ok_def)
  show "(wire_frame f \<and> within_limit f limit) \<and> stop r' = stop r \<and>
      (\<exists>k. key_ok fromClient k \<and> avail r = frame_bytes f k @ avail r')"
    if "ReadFrame fromClient limit r = (Inr f, r')" for r f r'
    using ReadFrame_back [OF that] unfolding key_ok_def by metis
qed

section \<open>Refusals\<close>

text \<open>
  A refused frame costs its header: unless the stream itself ended, at most ten bytes were
  taken from it, and the payload was not touched.
\<close>

definition stream_over :: "ws_err \<Rightarrow> reader \<Rightarrow> bool" where
  "stream_over e r \<longleftrightarrow> e = stop r \<or> e = ErrUnexpectedEOF \<and> stop r = EOF"

definition costs :: "nat \<Rightarrow> 'a reading \<Rightarrow> bool" where
  "costs n m \<longleftrightarrow> (\<forall>r e r'. m r = (Inl e, r') \<longrightarrow> stop r' = stop r \<and>
    (stream_over e r \<and> avail r' = [] \<or> (\<exists>h. avail r = h @ avail r' \<and> length h \<le> n)))"

definition drained :: "'a reading \<Rightarrow> bool" where
  "drained m \<longleftrightarrow> (\<forall>r e r'. m r = (Inl e, r') \<longrightarrow> stop r' = stop r \<and> stream_over e r \<and> avail r' = [])"

definition takes :: "nat \<Rightarrow> 'a reading \<Rightarrow> bool" where
  "takes k m \<longleftrightarrow> (\<forall>r x r'. m r = (Inr x, r') \<longrightarrow> stop r' = stop r \<and>
    (\<exists>h. avail r = h @ avail r' \<and> length h \<le> k))"

lemma costs_bind:
  assumes m: "costs n m" "takes k m" and f: "\<And>x. costs j (f x)" and n: "k + j \<le> n"
  shows "costs n (rbind m f)"
  unfolding costs_def
proof (intro allI impI)
  fix r e r' assume run: "rbind m f r = (Inl e, r')"
  show "stop r' = stop r \<and> (stream_over e r \<and> avail r' = [] \<or>
      (\<exists>h. avail r = h @ avail r' \<and> length h \<le> n))"
  proof (cases "m r")
    case (Pair res r1)
    show ?thesis
    proof (cases res)
      case (Inl e1)
      then show ?thesis using run Pair m(1) by (simp add: rbind_def costs_def)
    next
      case (Inr x)
      then have step: "f x r1 = (Inl e, r')" using run Pair by (simp add: rbind_def)
      obtain h where h: "avail r = h @ avail r1" "length h \<le> k" "stop r1 = stop r"
        using m(2) Pair Inr by (force simp: takes_def)
      from f [of x] step have "stop r' = stop r1 \<and> (stream_over e r1 \<and> avail r' = [] \<or>
          (\<exists>h. avail r1 = h @ avail r' \<and> length h \<le> j))" by (simp add: costs_def)
      then show ?thesis
      proof (elim conjE disjE exE)
        fix g assume g: "stop r' = stop r1" "avail r1 = g @ avail r'" "length g \<le> j"
        with h n have "avail r = (h @ g) @ avail r' \<and> length (h @ g) \<le> n" by simp
        with g h show ?thesis by metis
      qed (simp add: h(3) stream_over_def)
    qed
  qed
qed

lemma drained_bind: "drained m \<Longrightarrow> takes k m \<Longrightarrow> (\<And>x. drained (f x)) \<Longrightarrow> drained (rbind m f)"
  unfolding drained_def takes_def
  by (auto simp: rbind_def stream_over_def split: prod.splits sum.splits) metis+

lemma costs_drained: "drained m \<Longrightarrow> costs n m"
  by (auto simp: drained_def costs_def)

lemma costs_basic: "costs n (rfail e)" "costs n (rpure x)"
  "costs n m \<Longrightarrow> costs n m2 \<Longrightarrow> costs n (if b then m else m2)"
  by (auto simp: costs_def rfail_def rpure_def)

lemma takes_basic: "takes n (ReadFull n)" "takes n (rpure x)" "takes n (rfail e)"
  "takes n m \<Longrightarrow> takes n m2 \<Longrightarrow> takes n (if b then m else m2)"
  by (auto simp: takes_def rfail_def rpure_def dest: ReadFull_InrE)

lemma drained_basic: "drained (ReadFull n)" "drained (rpure x)"
  "drained m \<Longrightarrow> drained m2 \<Longrightarrow> drained (if b then m else m2)"
  by (auto simp: drained_def stream_over_def rpure_def ReadFull_def split: if_splits)

lemma costs_ReadFull_bind: "(\<And>x. costs j (f x)) \<Longrightarrow> k + j \<le> n \<Longrightarrow> costs n (rbind (ReadFull k) f)"
  by (rule costs_bind) (auto intro: costs_drained drained_basic takes_basic)

lemma read_length_costs: "costs 8 (read_length b)"
  unfolding read_length_def Let_def
  by (intro costs_basic costs_ReadFull_bind [where j = 0]) auto

lemma read_length_takes: "takes 8 (read_length b)"
  unfolding takes_def using read_length_back(2,3) by (fastforce simp: length_ext_def)

lemma payload_drained:
  "drained (rbind (if m then ReadFull 4 else rpure [0, 0, 0, 0]) (\<lambda>key.
      rbind (readPayload len v) (\<lambda>payload. rpure (g key payload))))"
proof -
  have rp: "readPayload len v = ReadFull len" by (simp add: fun_eq_iff readPayload_eq)
  show ?thesis unfolding rp
    by (rule drained_bind [of _ 4] drained_bind [of _ len] | intro drained_basic takes_basic)+
qed

lemma ReadFrame_costs: "costs 10 (ReadFrame fromClient limit)"
  unfolding ReadFrame_def Let_def
  by (intro costs_ReadFull_bind [where j = 8] costs_basic costs_drained [OF payload_drained]
      costs_bind [OF read_length_costs read_length_takes, of 0]) simp_all

section \<open>Where the text of a close may be cut\<close>

lemma seek_start_found:
  assumes "lim \<le> j" "j \<le> start" "RuneStart (s ! nat j)" "\<And>i. j < i \<Longrightarrow> i \<le> start \<Longrightarrow> \<not> RuneStart (s ! nat i)"
  shows "seek_start s start lim = j"
  using assms
proof (induction s start lim rule: seek_start.induct)
  case (1 s start lim)
  show ?case
  proof (cases "start = j")
    case True
    then show ?thesis using "1.prems" by (simp add: seek_start.simps)
  next
    case False
    have "lim \<le> start" "\<not> RuneStart (s ! nat start)" using False "1.prems"(1,2,4) by auto
    moreover have "seek_start s (start - 1) lim = j"
      using 1(1) [OF calculation "1.prems"(1) _ "1.prems"(3)] "1.prems"(2,4) False by simp
    ultimately show ?thesis by (simp add: seek_start.simps [of s start])
  qed
qed

lemma last_cont: "cs \<noteq> [] \<Longrightarrow> \<forall>b \<in> set cs. cont b \<Longrightarrow> \<not> last (v @ c # cs) < 0x80"
  by (cases cs rule: rev_cases) (auto simp: cont_def byte_lead)

lemma ends_in_rune_encode:
  assumes "scalar_value m"
  shows "ends_in_rune (v @ utf8_encode m)"
proof -
  obtain c cs where s: "utf8_encode m = c # cs" "\<not> cont c" "\<forall>b \<in> set cs. cont b" "length cs \<le> 3"
    "unat c < 128 \<longleftrightarrow> cs = []" using assms by (rule encode_shape)
  show ?thesis
  proof (cases "cs = []")
    case True
    then show ?thesis using s(1,5) by (simp add: ends_in_rune_def byte_lead)
  next
    case False
    let ?s = "v @ c # cs" and ?e = "int (length v + Suc (length cs))"
    have start: "seek_start ?s (?e - 2) (max (?e - 4) 0) = int (length v)"
    proof (rule seek_start_found)
      show "max (?e - 4) 0 \<le> int (length v)" using s(4) by simp
      show "int (length v) \<le> ?e - 2" using False by (cases cs) simp_all
      show "RuneStart (?s ! nat (int (length v)))" using s(2) by (simp add: RuneStart_cont)
      fix i assume i: "int (length v) < i" "i \<le> ?e - 2"
      define j where "j = nat i - Suc (length v)"
      have "nat i = length v + Suc j" "j < length cs" using i by (auto simp: j_def)
      then show "\<not> RuneStart (?s ! nat i)" using s(3) by (simp add: RuneStart_cont nth_append)
    qed
    have "rune_len (c # cs) = Some (Suc (length cs))"
      using rune_len_of_encode [OF assms, of "[]"] s(1) by simp
    with start last_cont [OF False s(3), of v c] show ?thesis
      by (simp add: ends_in_rune_def s(1) Let_def)
  qed
qed

lemma ends_in_rune_iff: "ends_in_rune s \<longleftrightarrow> (\<exists>v m. scalar_value m \<and> s = v @ utf8_encode m)"
proof
  assume e: "ends_in_rune s"
  then have ne: "s \<noteq> []" by (auto simp: ends_in_rune_def)
  show "\<exists>v m. scalar_value m \<and> s = v @ utf8_encode m"
  proof (cases "last s < 0x80")
    case True
    then have "s = butlast s @ utf8_encode (unat (last s))" "scalar_value (unat (last s))"
      using ne by (simp_all add: byte_lead utf8_encode_digits scalar_value_def)
    then show ?thesis by blast
  next
    case False
    define start where "start = max (seek_start s (int (length s) - 2) (max (int (length s) - 4) 0)) 0"
    obtain n where n: "0 \<le> start" "rune_len (drop (nat start) s) = Some n"
      "start + int n = int (length s)"
      using e ne False by (auto simp: ends_in_rune_def Let_def start_def split: option.splits)
    obtain m r where m: "scalar_value m" "drop (nat start) s = utf8_encode m @ r"
      "length (utf8_encode m) = n" using n(2) by (rule rune_len_encode)
    have "length (drop (nat start) s) = n" using n(1,3) by simp
    then have "r = []" using m(2,3) by simp
    then have "s = take (nat start) s @ utf8_encode m" using m(2) by (metis append_Nil2 append_take_drop_id)
    with m(1) show ?thesis by blast
  qed
qed (auto intro: ends_in_rune_encode)

lemma last_lead_unique:
  assumes "v @ c # cs = w @ d # ds" "\<not> cont c" "\<forall>b \<in> set cs. cont b" "\<not> cont d" "\<forall>b \<in> set ds. cont b"
  shows "c # cs = d # ds"
proof -
  have tw: "takeWhile cont (rev (u @ a # as)) = rev as" if "\<not> cont a" "\<forall>b \<in> set as. cont b" for u a as
    using that by (simp add: takeWhile_append)
  have "cs = ds" using tw [OF assms(2,3), of v] tw [OF assms(4,5), of w] assms(1) by simp
  then show ?thesis using assms(1) by simp
qed

lemma not_ends_in_part:
  assumes m: "scalar_value m" "utf8_encode m = p @ q" "p \<noteq> []" "q \<noteq> []"
  shows "\<not> ends_in_rune (v @ p)"
proof
  assume "ends_in_rune (v @ p)"
  then obtain w k where k: "scalar_value k" "v @ p = w @ utf8_encode k" by (auto simp: ends_in_rune_iff)
  obtain c cs where c: "utf8_encode m = c # cs" "\<not> cont c" "\<forall>b \<in> set cs. cont b"
    using encode_shape [OF m(1)] by metis
  obtain d ds where d: "utf8_encode k = d # ds" "\<not> cont d" "\<forall>b \<in> set ds. cont b"
    using encode_shape [OF k(1)] by metis
  obtain ps where p: "p = c # ps" "cs = ps @ q" using m(2,3) c(1) by (cases p) auto
  have "p = utf8_encode k" using last_lead_unique [of v c ps w d ds] k(2) p c d by simp
  then have "utf8_encode m = utf8_encode k @ q" using m(2) by simp
  then have "utf8_encode m = utf8_encode k"
    using encode_prefix_free [OF m(1) k(1), of "[]" q] by simp
  with \<open>p = utf8_encode k\<close> m(2,4) show False by simp
qed

lemma trim_rune_part:
  assumes "scalar_value m" "utf8_encode m = p @ q" "q \<noteq> []" "v = [] \<or> ends_in_rune v"
  shows "trim_rune (v @ p) = v"
  using assms(2,3)
proof (induction p arbitrary: q rule: rev_induct)
  case Nil
  then show ?case using assms(4) by (subst trim_rune.simps) auto
next
  case (snoc b p)
  then have "trim_rune (v @ p @ [b]) = trim_rune (v @ p)"
    using not_ends_in_part [OF assms(1), of "p @ [b]" q v]
    by (subst trim_rune.simps) (simp add: butlast_append)
  then show ?case using snoc.IH [of "b # q"] snoc.prems by simp
qed

lemma take_concat_encode:
  assumes "\<forall>n \<in> set ns. scalar_value n"
  shows "\<exists>ms p. (\<forall>n \<in> set ms. scalar_value n) \<and> take k (concat (map utf8_encode ns)) = concat (map utf8_encode ms) @ p \<and>
    (p = [] \<or> (\<exists>m q. scalar_value m \<and> utf8_encode m = p @ q \<and> q \<noteq> []))"
  using assms
proof (induction ns arbitrary: k)
  case Nil
  show ?case by (intro exI [of _ "[]"]) simp
next
  case (Cons n ns)
  show ?case
  proof (cases "length (utf8_encode n) \<le> k")
    case True
    obtain ms p where "\<forall>n \<in> set ms. scalar_value n"
      "take (k - length (utf8_encode n)) (concat (map utf8_encode ns)) = concat (map utf8_encode ms) @ p"
      "p = [] \<or> (\<exists>m q. scalar_value m \<and> utf8_encode m = p @ q \<and> q \<noteq> [])"
      using Cons.IH [of "k - length (utf8_encode n)"] Cons.prems by auto
    with True Cons.prems show ?thesis by (intro exI [of _ "n # ms"] exI [of _ p]) simp
  next
    case False
    then have "\<exists>m q. scalar_value m \<and> utf8_encode m = take k (utf8_encode n) @ q \<and> q \<noteq> []"
      using Cons.prems by (intro exI [of _ n] exI [of _ "drop k (utf8_encode n)"]) simp
    moreover have "take k (concat (map utf8_encode (n # ns))) = concat (map utf8_encode []) @ take k (utf8_encode n)"
      using False by simp
    moreover have "\<forall>n \<in> set []. scalar_value n" by simp
    ultimately show ?thesis by blast
  qed
qed

text \<open>What is left of a reason cut at \<open>k\<close> bytes is a valid text, at most three bytes shorter.\<close>

lemma trim_rune_take:
  assumes "ValidUTF8 t"
  shows "ValidUTF8 (trim_rune (take k t)) \<and> (\<exists>r. t = trim_rune (take k t) @ r) \<and>
    length (trim_rune (take k t)) \<le> k \<and> min k (length t) \<le> length (trim_rune (take k t)) + 3"
proof -
  obtain ns where ns: "\<forall>n \<in> set ns. scalar_value n" "t = concat (map utf8_encode ns)"
    using assms by (auto simp: ValidUTF8_well_formed well_formed_def)
  obtain ms p where ms: "\<forall>n \<in> set ms. scalar_value n" "take k t = concat (map utf8_encode ms) @ p"
    and p: "p = [] \<or> (\<exists>m q. scalar_value m \<and> utf8_encode m = p @ q \<and> q \<noteq> [])"
    using take_concat_encode [OF ns(1), of k] ns(2) by auto
  let ?v = "concat (map utf8_encode ms)"
  have v: "?v = [] \<or> ends_in_rune ?v" using ms(1) ends_in_rune_encode
    by (cases ms rule: rev_cases) auto
  have trim: "trim_rune (take k t) = ?v" using p
  proof
    assume "p = []"
    then show ?thesis using v ms(2) by (subst trim_rune.simps) auto
  next
    assume "\<exists>m q. scalar_value m \<and> utf8_encode m = p @ q \<and> q \<noteq> []"
    then show ?thesis using trim_rune_part [OF _ _ _ v] ms(2) by auto
  qed
  have "length p \<le> 3" using p
  proof (elim disjE exE conjE)
    fix m q assume "scalar_value m" "utf8_encode m = p @ q" "q \<noteq> []"
    then show ?thesis using encode_shape [of m] by (cases p; cases q) force+
  qed simp
  moreover have "min k (length t) = length ?v + length p"
    using arg_cong [OF ms(2), of length] by (simp add: min.commute)
  moreover have "ValidUTF8 ?v" using ms(1) by (auto simp: ValidUTF8_well_formed well_formed_def)
  moreover have "t = ?v @ (p @ drop k t)" using ms(2) by (metis append_assoc append_take_drop_id)
  ultimately show ?thesis unfolding trim by (intro conjI exI [of _ "p @ drop k t"]) simp_all
qed

lemma close_code_bytes: "CloseCodeValid code \<Longrightarrow> int (be_nat (be_bytes 2 (nat (code mod 2 ^ 16)))) = code"
proof -
  assume v: "CloseCodeValid code"
  then have "0 \<le> code" "code < 2 ^ 16" by (auto simp: CloseCodeValid_def split: if_splits)
  then have "code mod 2 ^ 16 = code" by simp
  moreover have "nat code < 256 ^ 2" using \<open>code < 2 ^ 16\<close> by simp
  ultimately show ?thesis using \<open>0 \<le> code\<close> by (simp only: be_nat_bytes int_nat_eq if_True)
qed

lemma ParseClose_bytes:
  assumes "CloseCodeValid code" "ValidUTF8 t"
  shows "ParseClose (be_bytes 2 (nat (code mod 2 ^ 16)) @ t) = Inr (code, string_of_bytes t)"
proof -
  define h where "h = be_bytes 2 (nat (code mod 2 ^ 16))"
  have "length h = 2" "int (be_nat h) = code"
    using close_code_bytes [OF assms(1)] by (simp_all add: h_def)
  then show ?thesis unfolding h_def [symmetric] using assms by (simp add: ParseClose_def)
qed

section \<open>What a written frame puts on the wire\<close>

definition wire_key :: "bool \<Rightarrow> 32 word \<Rightarrow> byte list option" where
  "wire_key fromClient rnd = (if fromClient then Some (mask_key rnd) else None)"

lemma key_ok_wire_key: "key_ok c (wire_key c rnd)"
  by (simp add: key_ok_def wire_key_def)

lemma WriteFrame_healthy:
  assumes "healthy b" "Control f \<Longrightarrow> Final f \<and> length (Payload f) \<le> maxControlPayload"
  shows "\<exists>b'. WriteFrame buf_write rnd b f c = (None, b') \<and> healthy b' \<and> buf_size b' = buf_size b \<and>
    stream b' = stream b @ frame_bytes f (wire_key c rnd)"
proof -
  define hdr where "hdr = frame_header f c @ (if c then mask_key rnd else [])"
  define body where "body = (if c then Mask (Payload f) (mask_key rnd) else Payload f)"
  obtain b1 where b1: "buf_write b hdr = (None, b1)" "healthy b1" "stream b1 = stream b @ hdr"
      "buf_size b1 = buf_size b" using write_healthy [OF assms(1)] by blast
  obtain b2 where b2: "buf_write b1 body = (None, b2)" "healthy b2" "stream b2 = stream b1 @ body"
      "buf_size b2 = buf_size b1" using write_healthy [OF b1(2)] by blast
  have "WriteFrame buf_write rnd b f c = (None, b2)"
    using assms(2) b1(1) b2(1) by (cases c) (auto simp: WriteFrame_def Let_def hdr_def body_def)
  moreover have "hdr @ body = frame_bytes f (wire_key c rnd)"
    by (simp add: frame_bytes_def wire_key_def hdr_def body_def)
  ultimately show ?thesis using b1 b2 by auto
qed

lemma WriteFrame_too_long:
  "Control f \<Longrightarrow> \<not> (Final f \<and> length (Payload f) \<le> maxControlPayload) \<Longrightarrow>
    WriteFrame W rnd b f c = (Some ErrControlTooLong, b)"
  by (auto simp: WriteFrame_def)

section \<open>Properties\<close>

text \<open>Property C8. A frame that may be on the wire, written by one side through the buffered
  writer of an open connection, puts bytes in the stream that the other side's reader turns
  back into exactly that frame, whatever the masking key was and whatever follows, provided
  its limit admits the frame.\<close>

theorem frame_roundtrip:
  assumes "wire_frame f" "within_limit f limit" "healthy b"
  shows "\<exists>b' bytes. WriteFrame buf_write rnd b f fromClient = (None, b') \<and>
    stream b' = stream b @ bytes \<and>
    (\<forall>rest e. ReadFrame fromClient limit \<lparr>avail = bytes @ rest, stop = e\<rparr> =
       (Inr f, \<lparr>avail = rest, stop = e\<rparr>))"
proof -
  have "Control f \<Longrightarrow> Final f \<and> length (Payload f) \<le> maxControlPayload"
    using assms(1) by (simp add: wire_frame_def)
  then show ?thesis
    using WriteFrame_healthy [OF assms(3), of f rnd fromClient] assms(1,2)
    by (metis key_ok_wire_key wire.read_bytes)
qed

theorem frame_roundtrip_witness:
  "\<exists>b' bytes. WriteFrame buf_write 0x01020304
      \<lparr>buf = [], buf_size = 4096, buf_err = None, wr = \<lparr>sent = [], room = None, shut = False\<rparr>\<rparr>
      \<lparr>Final = True, Opcode = 1, Payload = bytes_of_string ''hola''\<rparr> True = (None, b') \<and>
    stream b' = bytes \<and>
    ReadFrame True 10 \<lparr>avail = bytes, stop = EOF\<rparr> =
      (Inr \<lparr>Final = True, Opcode = 1, Payload = bytes_of_string ''hola''\<rparr>, \<lparr>avail = [], stop = EOF\<rparr>)"
  using frame_roundtrip [of "\<lparr>Final = True, Opcode = 1, Payload = bytes_of_string ''hola''\<rparr>" 10
      "\<lparr>buf = [], buf_size = 4096, buf_err = None, wr = \<lparr>sent = [], room = None, shut = False\<rparr>\<rparr>"
      "0x01020304" True]
  by (auto simp: wire_frame_def within_limit_def healthy_def Control_def opcode_defs stream_def
      maxControlPayload_def dest: spec [of _ "[]"])

text \<open>Property C25. The reader accepts exactly the canonical encodings: it answers a frame
  precisely when the stream starts with the bytes the writer produces for that frame under
  some key (masked for a client, unmasked for a server), the frame obeys section 5 of the RFC
  and the limit admits it; and it leaves the stream right after the frame.\<close>

theorem read_frame_canonical:
  "ReadFrame fromClient limit r = (Inr f, r') \<longleftrightarrow>
    wire_frame f \<and> within_limit f limit \<and> stop r' = stop r \<and>
    (\<exists>key. key_ok fromClient key \<and> avail r = frame_bytes f key @ avail r')"
proof
  assume "ReadFrame fromClient limit r = (Inr f, r')"
  then show "wire_frame f \<and> within_limit f limit \<and> stop r' = stop r \<and>
    (\<exists>key. key_ok fromClient key \<and> avail r = frame_bytes f key @ avail r')"
    using wire.read_back by blast
next
  assume *: "wire_frame f \<and> within_limit f limit \<and> stop r' = stop r \<and>
    (\<exists>key. key_ok fromClient key \<and> avail r = frame_bytes f key @ avail r')"
  then obtain key where "key_ok fromClient key" "avail r = frame_bytes f key @ avail r'" by blast
  with * show "ReadFrame fromClient limit r = (Inr f, r')"
    using wire.read_bytes [of f limit fromClient key "avail r'" "stop r"] by (cases r; cases r') simp
qed

text \<open>A refused frame costs its header. When \<open>ReadFrame\<close> fails, either the stream
  itself is over and its error is the answer, or at most ten bytes were taken from it: no
  payload byte is read for a frame that is refused, whatever length the header declares.\<close>

theorem refusal_costs_header:
  assumes "ReadFrame fromClient limit r = (Inl e, r')"
  shows "stream_over e r \<and> avail r' = [] \<or> (\<exists>h. avail r = h @ avail r' \<and> length h \<le> 10)"
  using ReadFrame_costs [of fromClient limit] assms by (simp add: costs_def)

theorem refusal_costs_header_witness:
  "ReadFrame False 100 \<lparr>avail = [0x82, 127, 0x40, 0, 0, 0, 0, 0, 0, 0], stop = EOF\<rparr> =
      (Inl ErrTooLarge, \<lparr>avail = [], stop = EOF\<rparr>) \<and>
    (stream_over ErrTooLarge \<lparr>avail = [0x82, 127, 0x40, 0, 0, 0, 0, 0, 0, 0], stop = EOF\<rparr> \<or>
     (\<exists>h. [0x82, 127, 0x40, 0, 0, 0, 0, 0, 0, 0] = h \<and> length h \<le> 10))"
proof -
  have run: "ReadFrame False 100 \<lparr>avail = [0x82, 127, 0x40, 0, 0, 0, 0, 0, 0, 0], stop = EOF\<rparr> =
      (Inl ErrTooLarge, \<lparr>avail = [], stop = EOF\<rparr>)"
    by (simp add: ReadFrame_def rbind_def ReadFull_def rfail_def rpure_def read_length_def be_nat_def
        opcode_defs)
  show ?thesis using run refusal_costs_header [OF run] by auto
qed

text \<open>Assembling a payload chunk by chunk, which is what is done with a length no
  limit vouched for, is reading it in one call: the same bytes, the same stream position, and
  the same error when the stream ends short, between two chunks or inside one.\<close>

theorem payload_in_chunks: "readPayload n vouched r = ReadFull n r"
  by (rule readPayload_eq)

text \<open>A close payload is always one a peer accepts: it fits a control frame, and a
  sendable code with a valid reason parses back to that code and to a prefix of the reason
  which is valid UTF-8 itself, the whole of it when it fits and at most three bytes short of
  the 123 available when it does not.\<close>

theorem close_payload_roundtrip:
  assumes "CloseCodeValid code" "ValidUTF8 (bytes_of_string reason)"
  shows "length (FormatClose code reason) \<le> maxControlPayload \<and>
    (\<exists>reason' cut. ParseClose (FormatClose code reason) = Inr (code, reason') \<and> reason = reason' @ cut \<and>
       (length reason \<le> 123 \<longrightarrow> cut = []) \<and> (123 < length reason \<longrightarrow> 120 \<le> length reason'))"
proof -
  have code: "code \<noteq> CloseNoStatusReceived" using assms(1) by (auto simp: CloseCodeValid_def)
  let ?t = "bytes_of_string reason" and ?u = "trim_rune (take 123 (bytes_of_string reason))"
  note trim = trim_rune_take [OF assms(2), of 123]
  show ?thesis
  proof (cases "length reason \<le> 123")
    case True
    then show ?thesis using code ParseClose_bytes [OF assms]
      by (simp add: FormatClose_def maxControlPayload_def)
  next
    case False
    then have f: "FormatClose code reason = be_bytes 2 (nat (code mod 2 ^ 16)) @ ?u"
      using code by (simp add: FormatClose_def maxControlPayload_def)
    obtain r where r: "?t = ?u @ r" using trim by blast
    have "reason = string_of_bytes ?u @ string_of_bytes r"
      using arg_cong [OF r, of string_of_bytes] by (simp only: string_of_bytes_append string_of_bytes_of_string)
    moreover have "length (string_of_bytes ?u) = length ?u" by (rule length_string_of_bytes)
    ultimately show ?thesis using f trim False ParseClose_bytes [OF assms(1), of ?u]
      by (intro conjI exI [of _ "string_of_bytes ?u"] exI [of _ "string_of_bytes r"])
        (simp_all add: maxControlPayload_def)
  qed
qed

theorem close_payload_roundtrip_witness:
  "CloseCodeValid 1000 \<and> (\<exists>reason' cut. ParseClose (FormatClose 1000 ''bye'') = Inr (1000, reason') \<and>
    ''bye'' = reason' @ cut)"
proof -
  have v: "CloseCodeValid 1000" "ValidUTF8 (bytes_of_string ''bye'')"
    by (simp_all add: CloseCodeValid_def close_code_defs bytes_of_string_def ValidUTF8.simps of_char_def)
  show ?thesis using v(1) close_payload_roundtrip [OF v] by blast
qed

end
