(* ===== verification/Ws_Conn.thy ===== *)
theory Ws_Conn
  imports Ws_Frame
begin

text \<open>
  \<^verbatim>\<open>ws/conn.go\<close>: one connection. The read half joins the fragments of a message, checks
  its size and its encoding as they arrive and handles the control frames in between; the
  write half is the one path to the socket. The lemmas say what a caller may rely on: a
  message that is returned was within the limit and, if text, valid UTF-8; the fragments of a
  message are joined whatever control frames came between them, and every ping among them is
  answered; a failure is final and the peer is told why; nothing follows a close frame.
\<close>

section \<open>The connection\<close>

text \<open>
  \<open>br\<close> is the buffered reader, \<open>bw\<close> the buffered writer with the connection below it. The
  random generator behind a client's masking keys is a sequence of words and a position.
\<close>

record Conn =
  br :: reader
  bw :: bufw
  isClient :: bool
  readLimit :: int
  fragOpcode :: int
  validator :: utf8Validator
  readErr :: "ws_err option"
  pong :: "(string \<Rightarrow> ws_err option) option"
  closeSent :: bool
  keys :: "nat \<Rightarrow> 32 word"
  drawn :: nat

definition defaultBufferSize :: int where "defaultBufferSize = 4096"

definition newConn :: "net_conn \<Rightarrow> reader \<Rightarrow> int \<Rightarrow> bool \<Rightarrow> (nat \<Rightarrow> 32 word) \<Rightarrow> Conn" where
  "newConn conn r writeBuffer client ks =
    (let size = (if writeBuffer \<le> 0 then defaultBufferSize else writeBuffer) in
     \<lparr>br = r, bw = \<lparr>buf = [], buf_size = nat size, buf_err = None, wr = conn\<rparr>, isClient = client,
      readLimit = 0, fragOpcode = 0, validator = utf8_reset, readErr = None, pong = None,
      closeSent = False, keys = ks, drawn = 0\<rparr>)"

definition SetReadLimit :: "int \<Rightarrow> Conn \<Rightarrow> Conn" where
  "SetReadLimit n c = c\<lparr>readLimit := n\<rparr>"

definition SetPongHandler :: "(string \<Rightarrow> ws_err option) \<Rightarrow> Conn \<Rightarrow> Conn" where
  "SetPongHandler h c = c\<lparr>pong := Some h\<rparr>"

text \<open>Closing the socket, as the connection does it on its way out.\<close>

definition hang_up :: "Conn \<Rightarrow> Conn" where
  "hang_up c = c\<lparr>bw := (bw c)\<lparr>wr := net_close (wr (bw c))\<rparr>\<rparr>"

text \<open>
  \<open>Close\<close>, from any goroutine: the socket is gone, and a reader gets what its buffer already
  held (\<open>buffered\<close> bytes) and then the error of a closed connection.
\<close>

definition Close :: "nat \<Rightarrow> Conn \<Rightarrow> Conn" where
  "Close buffered c = hang_up (c\<lparr>br := \<lparr>avail = take buffered (avail (br c)), stop = NetClosed\<rparr>\<rparr>)"

section \<open>Errors\<close>

definition isTransport :: "ws_err \<Rightarrow> bool" where
  "isTransport err \<longleftrightarrow> err \<notin> {ErrReservedBits, ErrUnmaskedClient, ErrMaskedServer, ErrBadOpcode,
     errNonMinimalLength, ErrBadCloseCode, ErrBadUTF8, ErrTooLarge, ErrBadFragment,
     ErrControlTooLong}"

definition IsProtocolError :: "ws_err \<Rightarrow> bool" where
  "IsProtocolError err = (\<not> isTransport err)"

definition IsUnexpectedClose :: "ws_err \<Rightarrow> int list \<Rightarrow> bool" where
  "IsUnexpectedClose err expected =
    (case err of CloseError code _ \<Rightarrow> \<not> List.member expected code | _ \<Rightarrow> False)"

section \<open>Writing\<close>

definition conn_write :: "Conn \<Rightarrow> Frame \<Rightarrow> ws_err option \<times> Conn" where
  "conn_write c frame =
    (if closeSent c then (Some ErrCloseSent, c)
     else
       let c = (if Opcode frame = CloseMessage then c\<lparr>closeSent := True\<rparr> else c) in
       (case WriteFrame buf_write (keys c (drawn c)) (bw c) frame (isClient c) of
          (Some err, b) \<Rightarrow> (Some err, c\<lparr>bw := b, drawn := Suc (drawn c)\<rparr>)
        | (None, b) \<Rightarrow>
            (case buf_flush b of (err, b') \<Rightarrow> (err, c\<lparr>bw := b', drawn := Suc (drawn c)\<rparr>))))"

definition WriteMessage :: "Conn \<Rightarrow> int \<Rightarrow> byte list \<Rightarrow> ws_err option \<times> Conn" where
  "WriteMessage c messageType data =
    (if messageType \<notin> {TextMessage, BinaryMessage, CloseMessage, PingMessage, PongMessage} then
       (Some ErrBadOpcode, c)
     else conn_write c \<lparr>Final = True, Opcode = messageType, Payload = data\<rparr>)"

section \<open>Reading\<close>

definition failRead :: "Conn \<Rightarrow> ws_err \<Rightarrow> ws_err \<times> Conn" where
  "failRead c err =
    (let closing = (\<lambda>code.
           let c1 = snd (conn_write c \<lparr>Final = True, Opcode = CloseMessage, Payload = FormatClose code ''''\<rparr>);
               c2 = hang_up c1
           in (err, c2\<lparr>readErr := Some err\<rparr>))
     in if err = ErrBadUTF8 then closing CloseInvalidFramePayloadData
        else if err = ErrTooLarge then closing CloseMessageTooBig
        else if isTransport err then (err, hang_up (c\<lparr>readErr := Some err\<rparr>))
        else closing CloseProtocolError)"

definition control :: "Conn \<Rightarrow> Frame \<Rightarrow> ws_err option \<times> Conn" where
  "control c frame =
    (if Opcode frame = PingMessage then
       (None, snd (conn_write c \<lparr>Final = True, Opcode = PongMessage, Payload = Payload frame\<rparr>))
     else if Opcode frame = PongMessage then
       (case pong c of
          None \<Rightarrow> (None, c)
        | Some h \<Rightarrow>
            (case h (string_of_bytes (Payload frame)) of
               Some err \<Rightarrow> (Some err, c\<lparr>readErr := Some err\<rparr>)
             | None \<Rightarrow> (None, c)))
     else
       (case ParseClose (Payload frame) of
          Inl err \<Rightarrow> (case failRead c err of (err, c') \<Rightarrow> (Some err, c'))
        | Inr (code, reason) \<Rightarrow>
            let echo = (if code = CloseNoStatusReceived then CloseNormalClosure else code);
                c1 = snd (conn_write c \<lparr>Final = True, Opcode = CloseMessage, Payload = FormatClose echo ''''\<rparr>);
                c2 = hang_up c1;
                err = CloseError code reason
            in (Some err, c2\<lparr>readErr := Some err\<rparr>)))"

text \<open>
  One turn of the loop of \<open>ReadMessage\<close>, which answers the call or goes round with the part of
  the message it has. Both ways the code extends \<open>message\<close> (handing over the payload of a
  message in one frame, appending otherwise) are the concatenation.
\<close>

datatype turn = Return "ws_err + int \<times> byte list" | Continue "byte list"

definition refuse_read :: "Conn \<Rightarrow> ws_err \<Rightarrow> turn \<times> Conn" where
  "refuse_read c err = (case failRead c err of (err, c') \<Rightarrow> (Return (Inl err), c'))"

definition data_frame :: "Conn \<Rightarrow> byte list \<Rightarrow> Frame \<Rightarrow> turn \<times> Conn" where
  "data_frame c message frame =
    (if readLimit c > 0 \<and> int (length message) + int (length (Payload frame)) > readLimit c then
       refuse_read c ErrTooLarge
     else if Opcode frame = ContinuationFrame \<and> fragOpcode c = 0 then refuse_read c ErrBadFragment
     else if Opcode frame \<noteq> ContinuationFrame \<and> fragOpcode c \<noteq> 0 then refuse_read c ErrBadFragment
     else
       let opcode = (if Opcode frame = ContinuationFrame then fragOpcode c else Opcode frame);
           v = (if Opcode frame = ContinuationFrame then validator c else utf8_reset);
           (v, ok) = (if opcode = TextMessage then utf8_write v (Payload frame) else (v, True));
           c = c\<lparr>validator := v\<rparr>
       in if \<not> ok then refuse_read c ErrBadUTF8
          else
            let message = message @ Payload frame in
            if \<not> Final frame then (Continue message, c\<lparr>fragOpcode := opcode\<rparr>)
            else
              let c = c\<lparr>fragOpcode := 0\<rparr> in
              if opcode = TextMessage \<and> \<not> utf8_complete (validator c) then refuse_read c ErrBadUTF8
              else (Return (Inr (opcode, message)), c))"

definition next_frame :: "Conn \<Rightarrow> byte list \<Rightarrow> int \<Rightarrow> turn \<times> Conn" where
  "next_frame c message frameLimit =
    (case ReadFrame (\<not> isClient c) frameLimit (br c) of
       (Inl err, r) \<Rightarrow> refuse_read (c\<lparr>br := r\<rparr>) err
     | (Inr frame, r) \<Rightarrow>
         let c = c\<lparr>br := r\<rparr> in
         if Control frame then
           (case control c frame of
              (Some err, c') \<Rightarrow> (Return (Inl err), c')
            | (None, c') \<Rightarrow> (Continue message, c'))
         else data_frame c message frame)"

definition read_turn :: "Conn \<Rightarrow> byte list \<Rightarrow> turn \<times> Conn" where
  "read_turn c message =
    (let limit = (if readLimit c > 0 then readLimit c - int (length message) else readLimit c) in
     if readLimit c > 0 \<and> limit < 0 then refuse_read c ErrTooLarge
     else
       let frameLimit = (if readLimit c > 0 \<and> limit < int maxControlPayload then int maxControlPayload
                         else limit)
       in next_frame c message frameLimit)"

lemma write_frame_conditions [simp]:
  "br (snd (conn_write c f)) = br c" "isClient (snd (conn_write c f)) = isClient c"
  "readLimit (snd (conn_write c f)) = readLimit c" "fragOpcode (snd (conn_write c f)) = fragOpcode c"
  "validator (snd (conn_write c f)) = validator c" "readErr (snd (conn_write c f)) = readErr c"
  "pong (snd (conn_write c f)) = pong c" "keys (snd (conn_write c f)) = keys c"
  by (auto simp: conn_write_def Let_def split: prod.splits option.splits)

lemma hang_up_simps [simp]:
  "br (hang_up c) = br c" "isClient (hang_up c) = isClient c" "readLimit (hang_up c) = readLimit c"
  "fragOpcode (hang_up c) = fragOpcode c" "readErr (hang_up c) = readErr c"
  "closeSent (hang_up c) = closeSent c" "pong (hang_up c) = pong c" "shut (wr (bw (hang_up c)))"
  "sent (wr (bw (hang_up c))) = sent (wr (bw c))"
  by (simp_all add: hang_up_def net_close_def)

lemma control_br: "control c f = (e, c') \<Longrightarrow> br c' = br c"
  by (auto simp: control_def failRead_def Let_def split: if_splits option.splits sum.splits prod.splits)

lemma frame_taken:
  assumes "ReadFrame fromClient limit r = (Inr f, r')"
  shows "length (avail r') < length (avail r)"
  using ReadFrame_back [OF assms] by (auto simp: frame_bytes_def frame_header_eq)

lemma read_turn_progress:
  assumes "read_turn c message = (Continue m, c')"
  shows "length (avail (br c')) < length (avail (br c))"
  using assms
  by (auto simp: read_turn_def next_frame_def refuse_read_def data_frame_def Let_def
      split: if_splits sum.splits prod.splits option.splits dest!: frame_taken control_br)

text \<open>\<open>ReadMessage\<close> goes round as long as the turn says so; a turn that does took a frame.\<close>

function read_loop :: "Conn \<Rightarrow> byte list \<Rightarrow> (ws_err + int \<times> byte list) \<times> Conn" where
  "read_loop c message =
    (case read_turn c message of
       (Return res, c') \<Rightarrow> (res, c')
     | (Continue message', c') \<Rightarrow> read_loop c' message')"
  by pat_completeness auto
termination
  by (relation "measure (\<lambda>(c, m). length (avail (br c)))") (auto dest!: read_turn_progress [OF sym])

declare read_loop.simps [simp del]

definition ReadMessage :: "Conn \<Rightarrow> (ws_err + int \<times> byte list) \<times> Conn" where
  "ReadMessage c = (case readErr c of Some err \<Rightarrow> (Inl err, c) | None \<Rightarrow> read_loop c [])"

text \<open>A message that is returned took at least a frame, so a caller's loop over the messages ends.\<close>

lemma read_turn_took:
  assumes "read_turn c message = (Return (Inr x), c')"
  shows "length (avail (br c')) < length (avail (br c))"
  using assms
  by (auto simp: read_turn_def next_frame_def refuse_read_def data_frame_def Let_def
      split: if_splits sum.splits prod.splits option.splits dest!: frame_taken control_br)

lemma read_loop_took: "read_loop c m = (Inr x, c') \<Longrightarrow> length (avail (br c')) < length (avail (br c))"
proof (induction c m rule: read_loop.induct)
  case (1 c m)
  obtain t c1 where turn: "read_turn c m = (t, c1)" by force
  show ?case
  proof (cases t)
    case (Return res)
    then show ?thesis using "1.prems" turn read_turn_took by (auto simp: read_loop.simps [of c m])
  next
    case (Continue m')
    then show ?thesis using 1 turn read_turn_progress [of c m m' c1] by (fastforce simp: read_loop.simps [of c m])
  qed
qed

lemma ReadMessage_took: "ReadMessage c = (Inr x, c') \<Longrightarrow> length (avail (br c')) < length (avail (br c))"
  using read_loop_took by (auto simp: ReadMessage_def split: option.splits)

section \<open>A failure is final\<close>

lemma failRead_simps:
  "fst (failRead c e) = e" "readErr (snd (failRead c e)) = Some e" "shut (wr (bw (snd (failRead c e))))"
  by (simp_all add: failRead_def Let_def)

lemma failRead_case: "(case failRead c e of (x, c') \<Rightarrow> g x c') = g e (snd (failRead c e))"
  using failRead_simps(1) [of c e] by (cases "failRead c e") simp

lemma refuse_read_eq: "refuse_read c e = (Return (Inl e), snd (failRead c e))"
  by (simp add: refuse_read_def failRead_case)

lemma control_error: "control c f = (Some e, c') \<Longrightarrow> readErr c' = Some e"
  using failRead_simps [of c]
  by (auto simp: control_def Let_def split: if_splits option.splits sum.splits prod.splits) (metis fst_conv snd_conv)+

lemma data_frame_error: "data_frame c message f = (Return (Inl e), c') \<Longrightarrow> readErr c' = Some e"
  by (auto simp: data_frame_def refuse_read_eq failRead_simps Let_def split: if_splits prod.splits)

lemma read_turn_error: "read_turn c message = (Return (Inl e), c') \<Longrightarrow> readErr c' = Some e"
  by (auto simp: read_turn_def next_frame_def refuse_read_eq failRead_simps Let_def
      split: if_splits prod.splits option.splits sum.splits dest: control_error data_frame_error)

lemma read_loop_error: "read_loop c message = (Inl e, c') \<Longrightarrow> readErr c' = Some e"
proof (induction c message rule: read_loop.induct)
  case (1 c message)
  show ?case
  proof (cases "read_turn c message")
    case (Pair t c1)
    then show ?thesis using 1(1) [OF Pair [symmetric]] "1.prems"
      by (cases t) (auto simp: read_loop.simps [of c message] intro: read_turn_error)
  qed
qed

lemma ReadMessage_error: "ReadMessage c = (Inl e, c') \<Longrightarrow> readErr c' = Some e"
  by (auto simp: ReadMessage_def split: option.splits dest: read_loop_error)

section \<open>What a message that is returned satisfies\<close>

text \<open>Between calls no message is open.\<close>

definition conn_ok :: "Conn \<Rightarrow> bool" where
  "conn_ok c \<longleftrightarrow> (readErr c = None \<longrightarrow> fragOpcode c = 0)"

text \<open>Inside a call, what has been joined so far is within the limit and has been checked.\<close>

definition joining :: "Conn \<Rightarrow> byte list \<Rightarrow> bool" where
  "joining c message \<longleftrightarrow>
    fragOpcode c \<in> {0, TextMessage, BinaryMessage} \<and>
    (fragOpcode c = 0 \<longrightarrow> message = []) \<and>
    (readLimit c > 0 \<longrightarrow> int (length message) \<le> readLimit c) \<and>
    (fragOpcode c = TextMessage \<longrightarrow> utf8_write utf8_reset message = (validator c, True))"

definition acceptable :: "int \<Rightarrow> int \<Rightarrow> byte list \<Rightarrow> bool" where
  "acceptable limit t m \<longleftrightarrow> t \<in> {TextMessage, BinaryMessage} \<and>
    (limit > 0 \<longrightarrow> int (length m) \<le> limit) \<and> (t = TextMessage \<longrightarrow> ValidUTF8 m)"

lemma control_continue:
  assumes "control c f = (None, c')"
  shows "fragOpcode c' = fragOpcode c \<and> readLimit c' = readLimit c \<and> validator c' = validator c \<and>
    readErr c' = readErr c \<and> isClient c' = isClient c \<and> pong c' = pong c"
  using assms by (auto simp: control_def Let_def split: if_splits option.splits sum.splits prod.splits)

lemma utf8_write_more:
  assumes "utf8_write utf8_reset m = (v, True)" "utf8_write v p = (v', True)"
  shows "utf8_write utf8_reset (m @ p) = (v', True)"
  using assms by (simp add: utf8.feed_append)

lemma data_frame_joining:
  assumes "joining c message" "wire_frame f" "\<not> Control f" "data_frame c message f = (t, c')"
  shows "(case t of Continue m \<Rightarrow> joining c' m \<and> readLimit c' = readLimit c \<and> readErr c' = readErr c
    | Return (Inr (opcode, m)) \<Rightarrow> acceptable (readLimit c) opcode m \<and> fragOpcode c' = 0 \<and> readErr c' = readErr c
    | Return (Inl e) \<Rightarrow> True)"
proof -
  have op: "Opcode f \<in> {ContinuationFrame, TextMessage, BinaryMessage}"
    using assms(2,3) by (auto simp: wire_frame_def Control_def opcode_defs)
  have whole: "utf8_complete v \<Longrightarrow> utf8_write utf8_reset m = (v, True) \<Longrightarrow> ValidUTF8 m" for m v
    using utf8.whole by blast
  have more: "utf8_write utf8_reset m = (v, True) \<Longrightarrow> utf8_write v p = (v', True) \<Longrightarrow> utf8_complete v' \<Longrightarrow>
      ValidUTF8 (m @ p)" for m v p v'
    using whole utf8_write_more by blast
  show ?thesis using assms(1,4) op
    by (auto simp: data_frame_def joining_def acceptable_def refuse_read_eq Let_def opcode_defs
        split: if_splits prod.splits intro: whole more utf8_write_more)
qed

lemma read_turn_joining:
  assumes "joining c message" "read_turn c message = (t, c')"
  shows "(case t of Continue m \<Rightarrow> joining c' m \<and> readLimit c' = readLimit c \<and> readErr c' = readErr c
    | Return (Inr (opcode, m)) \<Rightarrow> acceptable (readLimit c) opcode m \<and> fragOpcode c' = 0 \<and> readErr c' = readErr c
    | Return (Inl e) \<Rightarrow> True)"
proof -
  define limit where "limit = (if readLimit c > 0 then readLimit c - int (length message) else readLimit c)"
  define fl where "fl = (if readLimit c > 0 \<and> limit < int maxControlPayload then int maxControlPayload else limit)"
  have nneg: "\<not> (readLimit c > 0 \<and> limit < 0)" using assms(1) by (auto simp: joining_def limit_def)
  obtain res r where rf: "ReadFrame (\<not> isClient c) fl (br c) = (res, r)" by force
  show ?thesis
  proof (cases res)
    case (Inl err)
    then show ?thesis using assms(2) rf nneg
      by (auto simp: read_turn_def next_frame_def Let_def limit_def [symmetric] fl_def [symmetric] refuse_read_eq)
  next
    case (Inr f)
    have f: "wire_frame f" using ReadFrame_back rf Inr by blast
    have j: "joining (c\<lparr>br := r\<rparr>) message" using assms(1) by (simp add: joining_def)
    show ?thesis
    proof (cases "Control f")
      case True
      then have "t = (case fst (control (c\<lparr>br := r\<rparr>) f) of Some e \<Rightarrow> Return (Inl e) | None \<Rightarrow> Continue message)"
        "c' = snd (control (c\<lparr>br := r\<rparr>) f)"
        using assms(2) rf Inr nneg
        by (auto simp: read_turn_def next_frame_def Let_def limit_def [symmetric] fl_def [symmetric] split: prod.splits option.splits)
      then show ?thesis using j control_continue [of "c\<lparr>br := r\<rparr>" f c']
        by (cases "control (c\<lparr>br := r\<rparr>) f") (auto simp: joining_def split: option.splits)
    next
      case False
      then have "data_frame (c\<lparr>br := r\<rparr>) message f = (t, c')"
        using assms(2) rf Inr nneg
        by (auto simp: read_turn_def next_frame_def Let_def limit_def [symmetric] fl_def [symmetric])
      from data_frame_joining [OF j f False this] show ?thesis by (auto split: turn.splits sum.splits)
    qed
  qed
qed

lemma read_loop_acceptable:
  assumes "joining c message" "read_loop c message = (Inr (t, m), c')"
  shows "acceptable (readLimit c) t m \<and> fragOpcode c' = 0 \<and> readErr c' = readErr c"
  using assms
proof (induction c message rule: read_loop.induct)
  case (1 c message)
  obtain u c1 where turn: "read_turn c message = (u, c1)" by force
  note j = read_turn_joining [OF "1.prems"(1) turn]
  show ?case
  proof (cases u)
    case (Return res)
    then show ?thesis using j turn "1.prems"(2) by (auto simp: read_loop.simps [of c message])
  next
    case (Continue m1)
    have "read_loop c1 m1 = (Inr (t, m), c')"
      using turn Continue "1.prems"(2) by (simp add: read_loop.simps [of c message])
    with 1(1) [OF turn [symmetric] Continue] j Continue show ?thesis by auto
  qed
qed

lemma ReadMessage_acceptable:
  assumes "conn_ok c" "ReadMessage c = (Inr (t, m), c')"
  shows "acceptable (readLimit c) t m \<and> conn_ok c'"
proof -
  have n: "readErr c = None" using assms(2) by (auto simp: ReadMessage_def split: option.splits)
  then have "joining c []" using assms(1) by (auto simp: conn_ok_def joining_def utf8.feed_Nil TextMessage_def)
  from read_loop_acceptable [OF this] assms(2) n show ?thesis
    by (auto simp: ReadMessage_def conn_ok_def)
qed

section \<open>Joining fragments\<close>

text \<open>
  The frames of one message as a peer may send them: the first data frame carries the opcode,
  the others are continuations, only the last is final, and pings and pongs may stand
  anywhere before it.
\<close>

fun is_message :: "int \<Rightarrow> Frame list \<Rightarrow> bool" where
  "is_message op [] = False"
| "is_message op (f # fs) =
    (if Control f then Opcode f \<noteq> CloseMessage \<and> is_message op fs
     else Opcode f = op \<and> (if Final f then fs = [] else is_message ContinuationFrame fs))"

definition data_of :: "Frame list \<Rightarrow> byte list" where
  "data_of fs = concat (map Payload (filter (\<lambda>f. \<not> Control f) fs))"

lemma data_of_simps [simp]:
  "data_of [] = []" "data_of (f # fs) = (if Control f then data_of fs else Payload f @ data_of fs)"
  by (simp_all add: data_of_def)

text \<open>The pongs a sequence of frames asks for, each with the key that is next.\<close>

fun pongs :: "bool \<Rightarrow> (nat \<Rightarrow> 32 word) \<Rightarrow> nat \<Rightarrow> Frame list \<Rightarrow> byte list" where
  "pongs client ks n [] = []"
| "pongs client ks n (f # fs) =
    (if Opcode f = PingMessage then
       frame_bytes \<lparr>Final = True, Opcode = PongMessage, Payload = Payload f\<rparr> (wire_key client (ks n)) @
         pongs client ks (Suc n) fs
     else pongs client ks n fs)"

definition on_wire :: "Frame list \<Rightarrow> byte list option list \<Rightarrow> byte list" where
  "on_wire fs ks = concat (map2 frame_bytes fs ks)"

lemma on_wire_Cons [simp]: "on_wire (f # fs) (k # ks) = frame_bytes f k @ on_wire fs ks"
  by (simp add: on_wire_def)

lemma on_wire_Nil [simp]: "on_wire [] ks = []"
  by (simp add: on_wire_def)

text \<open>Writing to a connection that works and has not said goodbye.\<close>

definition open_conn :: "Conn \<Rightarrow> bool" where
  "open_conn c \<longleftrightarrow> healthy (bw c) \<and> buf (bw c) = [] \<and> \<not> closeSent c"

lemma write_open:
  assumes "open_conn c" "Control f \<Longrightarrow> Final f \<and> length (Payload f) \<le> maxControlPayload"
  shows "\<exists>b. conn_write c f = (None, c\<lparr>bw := b, drawn := Suc (drawn c), closeSent := (Opcode f = CloseMessage)\<rparr>) \<and>
    healthy b \<and> buf b = [] \<and>
    sent (wr b) = sent (wr (bw c)) @ frame_bytes f (wire_key (isClient c) (keys c (drawn c)))"
proof -
  have h: "healthy (bw c)" using assms(1) by (simp add: open_conn_def)
  obtain b1 where b1: "WriteFrame buf_write (keys c (drawn c)) (bw c) f (isClient c) = (None, b1)"
    "healthy b1" "stream b1 = stream (bw c) @ frame_bytes f (wire_key (isClient c) (keys c (drawn c)))"
    using WriteFrame_healthy [OF h assms(2)] by blast
  have st: "stream (bw c) = sent (wr (bw c))" using assms(1) by (simp add: open_conn_def stream_def)
  have nc: "\<not> closeSent c" using assms(1) by (simp add: open_conn_def)
  show ?thesis
    using b1 st nc flush_healthy [OF b1(2)]
    by (intro exI [of _ "b1\<lparr>buf := [], wr := (wr b1)\<lparr>sent := stream b1\<rparr>\<rparr>"])
      (auto simp: conn_write_def Let_def healthy_def)
qed

lemma read_turn_frame:
  assumes "br c = \<lparr>avail = frame_bytes f k @ rest, stop = e\<rparr>" "wire_frame f" "key_ok (\<not> isClient c) k"
    and lim: "readLimit c > 0 \<Longrightarrow>
      int (length message) + (if Control f then 0 else int (length (Payload f))) \<le> readLimit c"
  shows "read_turn c message =
    (let c = c\<lparr>br := \<lparr>avail = rest, stop = e\<rparr>\<rparr> in
     if Control f then
       (case control c f of (Some err, c') \<Rightarrow> (Return (Inl err), c') | (None, c') \<Rightarrow> (Continue message, c'))
     else data_frame c message f)"
proof -
  define limit where "limit = (if readLimit c > 0 then readLimit c - int (length message) else readLimit c)"
  define fl where "fl = (if readLimit c > 0 \<and> limit < int maxControlPayload then int maxControlPayload else limit)"
  have nneg: "\<not> (readLimit c > 0 \<and> limit < 0)" using lim by (auto simp: limit_def split: if_splits)
  have "within_limit f fl" using lim by (auto simp: within_limit_def fl_def limit_def split: if_splits)
  then have "ReadFrame (\<not> isClient c) fl (br c) = (Inr f, \<lparr>avail = rest, stop = e\<rparr>)"
    using assms(1-3) by (simp add: wire.read_bytes)
  then show ?thesis using nneg
    by (auto simp: read_turn_def next_frame_def Let_def limit_def [symmetric] fl_def [symmetric])
qed

lemma ping_turn:
  assumes "wire_frame f" "Opcode f = PingMessage" "open_conn c"
  shows "\<exists>b. control c f = (None, c\<lparr>bw := b, drawn := Suc (drawn c)\<rparr>) \<and> healthy b \<and> buf b = [] \<and>
    sent (wr b) = sent (wr (bw c)) @
      frame_bytes \<lparr>Final = True, Opcode = PongMessage, Payload = Payload f\<rparr> (wire_key (isClient c) (keys c (drawn c)))"
proof -
  let ?p = "\<lparr>Final = True, Opcode = PongMessage, Payload = Payload f\<rparr>"
  have "Control ?p \<Longrightarrow> Final ?p \<and> length (Payload ?p) \<le> maxControlPayload"
    using assms(1,2) by (simp add: wire_frame_def Control_def opcode_defs)
  from write_open [OF assms(3) this] obtain b where b:
    "conn_write c ?p = (None, c\<lparr>bw := b, drawn := Suc (drawn c), closeSent := False\<rparr>)"
    "healthy b" "buf b = []"
    "sent (wr b) = sent (wr (bw c)) @ frame_bytes ?p (wire_key (isClient c) (keys c (drawn c)))"
    by (auto simp: opcode_defs)
  moreover have "c\<lparr>bw := b, drawn := Suc (drawn c), closeSent := False\<rparr> = c\<lparr>bw := b, drawn := Suc (drawn c)\<rparr>"
    using assms(3) by (simp add: open_conn_def)
  ultimately show ?thesis using assms(2) by (auto simp: control_def)
qed

text \<open>A data frame of a message that is within the limit and whose text is valid.\<close>

definition text_so_far :: "Conn \<Rightarrow> int \<Rightarrow> byte list \<Rightarrow> bool" where
  "text_so_far c t m \<longleftrightarrow>
    (if fragOpcode c = 0 then m = [] else
       fragOpcode c = t \<and> (t = TextMessage \<longrightarrow> utf8_write utf8_reset m = (validator c, True)))"

lemma valid_prefix_fed: "ValidUTF8 (a @ b) \<Longrightarrow> \<exists>v. utf8_write utf8_reset a = (v, True)"
  using utf8.refused_for_good [of a b] by (metis (full_types) prod.collapse)

lemma data_turn:
  assumes t: "t \<in> {TextMessage, BinaryMessage}" and sofar: "text_so_far c t m"
    and op: "Opcode f = (if fragOpcode c = 0 then t else ContinuationFrame)"
    and lim: "readLimit c > 0 \<longrightarrow> int (length m) + int (length (Payload f)) \<le> readLimit c"
    and valid: "t = TextMessage \<Longrightarrow> \<exists>r. ValidUTF8 (m @ Payload f @ r) \<and> (Final f \<longrightarrow> r = [])"
  shows "\<exists>v. data_frame c m f =
    (if Final f then (Return (Inr (t, m @ Payload f)), c\<lparr>validator := v, fragOpcode := 0\<rparr>)
     else (Continue (m @ Payload f), c\<lparr>validator := v, fragOpcode := t\<rparr>)) \<and>
    (t = TextMessage \<longrightarrow> utf8_write utf8_reset (m @ Payload f) = (v, True))"
proof (cases "t = TextMessage")
  case True
  obtain r where r: "ValidUTF8 ((m @ Payload f) @ r)" "Final f \<longrightarrow> r = []" using valid True by auto
  obtain v where v: "utf8_write utf8_reset (m @ Payload f) = (v, True)" using valid_prefix_fed [OF r(1)] by blast
  define v0 where "v0 = (if Opcode f = ContinuationFrame then validator c else utf8_reset)"
  have v0: "utf8_write utf8_reset m = (v0, True)"
    using sofar op t True by (auto simp: text_so_far_def v0_def utf8.feed_Nil opcode_defs split: if_splits)
  have "utf8_write v0 (Payload f) = (v, True)" using v v0 by (simp add: utf8.feed_append)
  then have step: "Opcode f = 0 \<Longrightarrow> utf8_write (validator c) (Payload f) = (v, True)"
    "Opcode f \<noteq> 0 \<Longrightarrow> utf8_write utf8_reset (Payload f) = (v, True)"
    by (simp_all add: v0_def ContinuationFrame_def)
  have fin: "Final f \<Longrightarrow> utf8_complete v" using utf8.whole [OF v] r by auto
  show ?thesis using t op lim step v fin True sofar
    by (intro exI [of _ v]) (auto simp: data_frame_def Let_def text_so_far_def opcode_defs
        split: if_splits)
next
  case False
  then show ?thesis using t op lim sofar
    by (intro exI [of _ "if Opcode f = ContinuationFrame then validator c else utf8_reset"])
      (auto simp: data_frame_def Let_def text_so_far_def opcode_defs split: if_splits)
qed

lemma control_turn:
  assumes f: "wire_frame f" "Control f" "Opcode f \<noteq> CloseMessage" and c: "open_conn c"
    and h: "\<And>h s. pong c = Some h \<Longrightarrow> h s = None"
  shows "\<exists>b d. control c f = (None, c\<lparr>bw := b, drawn := d\<rparr>) \<and> open_conn (c\<lparr>bw := b, drawn := d\<rparr>) \<and>
    (\<forall>fs. sent (wr b) @ pongs (isClient c) (keys c) d fs =
       sent (wr (bw c)) @ pongs (isClient c) (keys c) (drawn c) (f # fs))"
proof (cases "Opcode f = PingMessage")
  case True
  obtain b where "control c f = (None, c\<lparr>bw := b, drawn := Suc (drawn c)\<rparr>)" "healthy b" "buf b = []"
    "sent (wr b) = sent (wr (bw c)) @
      frame_bytes \<lparr>Final = True, Opcode = PongMessage, Payload = Payload f\<rparr> (wire_key (isClient c) (keys c (drawn c)))"
    using ping_turn [OF f(1) True c] by blast
  then show ?thesis using True c
    by (intro exI [of _ b] exI [of _ "Suc (drawn c)"]) (auto simp: open_conn_def)
next
  case False
  then have "Opcode f = PongMessage" using f by (auto simp: wire_frame_def Control_def opcode_defs)
  then have "control c f = (None, c)" using h [of _ "string_of_bytes (Payload f)"]
    by (cases "pong c") (auto simp: control_def opcode_defs)
  then show ?thesis using False c
    by (intro exI [of _ "bw c"] exI [of _ "drawn c"]) (auto simp: open_conn_def)
qed

lemma read_loop_joins:
  assumes t: "t \<in> {TextMessage, BinaryMessage}"
    and "is_message (if fragOpcode c = 0 then t else ContinuationFrame) fs"
    and "\<forall>f \<in> set fs. wire_frame f" and "length ks = length fs"
    and "\<forall>k \<in> set ks. key_ok (\<not> isClient c) k"
    and "br c = \<lparr>avail = on_wire fs ks @ rest, stop = e\<rparr>"
    and "text_so_far c t m"
    and "readLimit c > 0 \<longrightarrow> int (length (m @ data_of fs)) \<le> readLimit c"
    and "t = TextMessage \<longrightarrow> ValidUTF8 (m @ data_of fs)"
    and "open_conn c" and "\<And>h s. pong c = Some h \<Longrightarrow> h s = None"
  shows "\<exists>c'. read_loop c m = (Inr (t, m @ data_of fs), c') \<and> br c' = \<lparr>avail = rest, stop = e\<rparr> \<and>
    readErr c' = readErr c \<and> fragOpcode c' = 0 \<and> open_conn c' \<and>
    sent (wr (bw c')) = sent (wr (bw c)) @ pongs (isClient c) (keys c) (drawn c) fs"
  using assms(2-)
proof (induction fs arbitrary: c m ks)
  case Nil
  then show ?case by simp
next
  case (Cons f fs)
  obtain k ks' where ks: "ks = k # ks'" using Cons.prems(3) by (cases ks) auto
  let ?c = "c\<lparr>br := \<lparr>avail = on_wire fs ks' @ rest, stop = e\<rparr>\<rparr>"
  have turn: "read_turn c m = (if Control f then
       (case control ?c f of (Some err, c') \<Rightarrow> (Return (Inl err), c') | (None, c') \<Rightarrow> (Continue m, c'))
     else data_frame ?c m f)"
    using read_turn_frame [of c f k "on_wire fs ks' @ rest" e m] Cons.prems(2,4,5,7) ks
    by (auto simp: Let_def split: if_splits)
  have open': "open_conn ?c" using Cons.prems(9) by (simp add: open_conn_def)
  show ?case
  proof (cases "Control f")
    case True
    obtain b d where b: "control ?c f = (None, ?c\<lparr>bw := b, drawn := d\<rparr>)"
      "open_conn (?c\<lparr>bw := b, drawn := d\<rparr>)"
      "sent (wr b) @ pongs (isClient c) (keys c) d fs =
        sent (wr (bw c)) @ pongs (isClient c) (keys c) (drawn c) (f # fs)"
      using control_turn [of f ?c] True Cons.prems(1,2,10) open' by auto
    have "read_loop c m = read_loop (?c\<lparr>bw := b, drawn := d\<rparr>) m"
      using turn True b(1) by (simp add: read_loop.simps [of c])
    moreover have "text_so_far (?c\<lparr>bw := b, drawn := d\<rparr>) t m" using Cons.prems(6) by (simp add: text_so_far_def)
    ultimately show ?thesis
      using Cons.IH [of "?c\<lparr>bw := b, drawn := d\<rparr>" ks' m] Cons.prems True b(2,3) ks by auto
  next
    case False
    have "\<exists>v. data_frame ?c m f =
      (if Final f then (Return (Inr (t, m @ Payload f)), ?c\<lparr>validator := v, fragOpcode := 0\<rparr>)
       else (Continue (m @ Payload f), ?c\<lparr>validator := v, fragOpcode := t\<rparr>)) \<and>
      (t = TextMessage \<longrightarrow> utf8_write utf8_reset (m @ Payload f) = (v, True))"
      using Cons.prems(1,6-8) False
      by (intro data_turn [OF t]) (auto simp: text_so_far_def split: if_splits)
    then obtain v where v: "data_frame ?c m f =
      (if Final f then (Return (Inr (t, m @ Payload f)), ?c\<lparr>validator := v, fragOpcode := 0\<rparr>)
       else (Continue (m @ Payload f), ?c\<lparr>validator := v, fragOpcode := t\<rparr>))"
      "t = TextMessage \<longrightarrow> utf8_write utf8_reset (m @ Payload f) = (v, True)" by blast
    have np: "Opcode f \<noteq> PingMessage" using False by (auto simp: Control_def opcode_defs)
    show ?thesis
    proof (cases "Final f")
      case True
      then have "fs = []" using Cons.prems(1) False by simp
      then show ?thesis using True turn False v(1) open' np
        by (simp add: read_loop.simps [of c] open_conn_def)
    next
      case nf: False
      let ?d = "?c\<lparr>validator := v, fragOpcode := t\<rparr>"
      have t0: "t \<noteq> 0" using t by (auto simp: opcode_defs)
      have "read_loop c m = read_loop ?d (m @ Payload f)"
        using turn False nf v(1) by (simp add: read_loop.simps [of c])
      moreover have "text_so_far ?d t (m @ Payload f)" using t0 v(2) by (simp add: text_so_far_def)
      moreover have "open_conn ?d" using open' by (simp add: open_conn_def)
      ultimately show ?thesis
        using Cons.IH [of ?d ks' "m @ Payload f"] Cons.prems False nf ks t0 np by auto
    qed
  qed
qed

section \<open>What everything a connection does keeps\<close>

text \<open>
  The read half changes the write half only by writing control frames and by closing the
  socket. A property that those two keep, and that does not look at the read half, survives
  every read; one that every write keeps survives whatever a connection is asked to do.
\<close>

datatype conn_op =
    Op_Write int "byte list"
  | Op_Read
  | Op_Limit int
  | Op_Arrive "byte list"
  | Op_Close nat

fun conn_step :: "Conn \<Rightarrow> conn_op \<Rightarrow> Conn" where
  "conn_step c (Op_Write t data) = snd (WriteMessage c t data)"
| "conn_step c Op_Read = snd (ReadMessage c)"
| "conn_step c (Op_Limit n) = SetReadLimit n c"
| "conn_step c (Op_Arrive bs) = c\<lparr>br := (br c)\<lparr>avail := avail (br c) @ bs\<rparr>\<rparr>"
| "conn_step c (Op_Close n) = Close n c"

locale read_side =
  fixes P :: "Conn \<Rightarrow> bool"
  assumes control_write_keeps: "P c \<Longrightarrow> Control f \<Longrightarrow> P (snd (conn_write c f))"
    and hang_up_keeps: "P c \<Longrightarrow> P (hang_up c)"
    and read_half: "P (c\<lparr>br := r\<rparr>) = P c" "P (c\<lparr>validator := v\<rparr>) = P c" "P (c\<lparr>fragOpcode := op\<rparr>) = P c"
      "P (c\<lparr>readErr := e\<rparr>) = P c" "P (c\<lparr>readLimit := n\<rparr>) = P c"
begin

lemma answer_keeps:
  assumes "P c"
  shows "P (snd (conn_write c \<lparr>Final = fin, Opcode = CloseMessage, Payload = p\<rparr>))"
    "P (snd (conn_write c \<lparr>Final = fin, Opcode = PongMessage, Payload = p\<rparr>))"
    "P (snd (conn_write c \<lparr>Final = fin, Opcode = PingMessage, Payload = p\<rparr>))"
  using assms by (auto intro!: control_write_keeps simp: Control_def opcode_defs)

lemma failRead_keeps: "P c \<Longrightarrow> P (snd (failRead c e))"
  by (auto simp: failRead_def Let_def read_half intro!: hang_up_keeps answer_keeps)

lemma control_keeps: "P c \<Longrightarrow> P (snd (control c f))"
  by (auto simp: control_def Let_def read_half failRead_case split: option.splits sum.splits
      intro!: hang_up_keeps answer_keeps failRead_keeps)

lemma data_frame_keeps: "P c \<Longrightarrow> P (snd (data_frame c m f))"
  by (auto simp: data_frame_def refuse_read_eq Let_def read_half split: prod.splits
      intro!: failRead_keeps)

lemma next_frame_keeps:
  assumes "P c"
  shows "P (snd (next_frame c m fl))"
proof -
  have p: "P (c\<lparr>br := r\<rparr>)" for r using assms by (simp add: read_half)
  show ?thesis
    using control_keeps [OF p] data_frame_keeps [OF p] failRead_keeps [OF p]
    by (auto simp: next_frame_def refuse_read_eq Let_def split_def split: sum.splits option.splits)
qed

lemma turn_keeps: "P c \<Longrightarrow> P (snd (read_turn c m))"
  by (simp add: read_turn_def Let_def refuse_read_eq next_frame_keeps failRead_keeps)

lemma loop_keeps: "P c \<Longrightarrow> P (snd (read_loop c m))"
proof (induction c m rule: read_loop.induct)
  case (1 c m)
  obtain t c1 where turn: "read_turn c m = (t, c1)" by force
  then have "P c1" using turn_keeps [OF "1.prems", of m] by simp
  then show ?case using 1(1) [OF turn [symmetric]] turn
    by (cases t) (auto simp: read_loop.simps [of c m])
qed

lemma ReadMessage_keeps: "P c \<Longrightarrow> P (snd (ReadMessage c))"
  using loop_keeps by (auto simp: ReadMessage_def split: option.splits)

lemma read_step_keeps: "P c \<Longrightarrow> (\<And>t b. op \<noteq> Op_Write t b) \<Longrightarrow> P (conn_step c op)"
  by (cases op) (auto simp: SetReadLimit_def Close_def read_half intro!: ReadMessage_keeps hang_up_keeps)

end

locale write_side = read_side +
  assumes write_keeps: "P c \<Longrightarrow> P (snd (conn_write c f))"
begin

lemma step_keeps: "P c \<Longrightarrow> P (conn_step c op)"
  by (cases op) (auto simp: WriteMessage_def SetReadLimit_def Close_def read_half
      intro!: write_keeps ReadMessage_keeps hang_up_keeps)

end

sublocale write_side \<subseteq> total_stepper conn_step P
  by unfold_locales (rule step_keeps)

section \<open>Nothing follows a close\<close>

text \<open>
  What the write half has put out after \<open>base\<close> (the answer to the handshake) is a sequence of
  whole frames, cut short only by a failure of the connection, in which a close frame comes
  last and only after \<open>closeSent\<close> says so.
\<close>

definition sendable :: "Frame \<Rightarrow> bool" where
  "sendable f \<longleftrightarrow> (Control f \<longrightarrow> Final f \<and> length (Payload f) \<le> maxControlPayload)"

definition orderly :: "byte list \<Rightarrow> Conn \<Rightarrow> bool" where
  "orderly base c \<longleftrightarrow>
    (\<exists>fs ks lost. length ks = length fs \<and> base @ on_wire fs ks = stream (bw c) @ lost \<and>
       (buf_err (bw c) = None \<longrightarrow> lost = []) \<and> (\<forall>f \<in> set fs. sendable f) \<and>
       (\<forall>k \<in> set ks. key_ok (isClient c) k) \<and>
       (\<forall>f \<in> set (butlast fs). Opcode f \<noteq> CloseMessage) \<and>
       (\<not> closeSent c \<longrightarrow> (\<forall>f \<in> set fs. Opcode f \<noteq> CloseMessage)))"

lemma on_wire_snoc: "length ks = length fs \<Longrightarrow> on_wire (fs @ [f]) (ks @ [k]) = on_wire fs ks @ frame_bytes f k"
  by (simp add: on_wire_def)

lemma WriteFrame_sends:
  assumes "WriteFrame buf_write rnd b f c = (e, b')" "sendable f"
  shows "\<exists>lost. stream b @ frame_bytes f (wire_key c rnd) = stream b' @ lost \<and> e = buf_err b' \<and>
    (buf_err b' = None \<longrightarrow> lost = []) \<and> (buf_err b \<noteq> None \<longrightarrow> b' = b)"
proof -
  define hdr where "hdr = frame_header f c @ (if c then mask_key rnd else [])"
  define body where "body = (if c then Mask (Payload f) (mask_key rnd) else Payload f)"
  have bytes: "frame_bytes f (wire_key c rnd) = hdr @ body"
    by (simp add: frame_bytes_def wire_key_def hdr_def body_def)
  obtain e1 b1 where w1: "buf_write b hdr = (e1, b1)" by force
  obtain q r where q: "stream b1 = stream b @ q" "hdr = q @ r" "e1 = buf_err b1" "e1 = None \<longrightarrow> r = []"
    using write_sends [OF w1] by (elim exE conjE) (rule that)
  have run: "(e, b') = (case e1 of Some err \<Rightarrow> (Some err, b1) | None \<Rightarrow> buf_write b1 body)"
    using assms w1 unfolding hdr_def body_def
    by (cases c) (auto simp: WriteFrame_def sendable_def Let_def split: option.splits)
  show ?thesis
  proof (cases e1)
    case None
    then obtain q2 r2 where q2: "stream b' = stream b1 @ q2" "body = q2 @ r2" "e = buf_err b'" "e = None \<longrightarrow> r2 = []"
      using run write_sends [of b1 body e b'] by auto
    moreover have "buf_err b = None" using None w1 buf_err_write [of b hdr] by force
    ultimately show ?thesis using q None bytes by (intro exI [of _ r2]) auto
  next
    case (Some err)
    then have "e = Some err" "b' = b1" using run by simp_all
    moreover have "buf_err b \<noteq> None \<Longrightarrow> b1 = b" using w1 buf_err_write [of b hdr] by simp
    ultimately show ?thesis using q Some bytes by (intro exI [of _ "r @ body"]) auto
  qed
qed

lemma orderly_flag:
  assumes "orderly base c" "\<not> closeSent c"
  shows "orderly base (c\<lparr>closeSent := x, drawn := d\<rparr>)"
proof -
  obtain fs ks lost where "length ks = length fs" "base @ on_wire fs ks = stream (bw c) @ lost"
    "buf_err (bw c) = None \<longrightarrow> lost = []" "\<forall>f \<in> set fs. sendable f" "\<forall>k \<in> set ks. key_ok (isClient c) k"
    "\<forall>f \<in> set fs. Opcode f \<noteq> CloseMessage"
    using assms by (auto simp: orderly_def)
  then show ?thesis unfolding orderly_def
    by (intro exI [of _ fs] exI [of _ ks] exI [of _ lost]) (simp add: in_set_butlastD)
qed

lemma orderly_write:
  assumes "orderly base c"
  shows "orderly base (snd (conn_write c f))"
proof (cases "closeSent c \<or> \<not> sendable f")
  case True
  then have "snd (conn_write c f) = (if closeSent c then c
      else c\<lparr>closeSent := (Opcode f = CloseMessage), drawn := Suc (drawn c)\<rparr>)"
    by (cases c) (auto simp: conn_write_def Let_def sendable_def WriteFrame_too_long)
  then show ?thesis using assms orderly_flag by simp
next
  case False
  obtain fs ks lost where o: "length ks = length fs" "base @ on_wire fs ks = stream (bw c) @ lost"
    "buf_err (bw c) = None \<longrightarrow> lost = []" "\<forall>f \<in> set fs. sendable f" "\<forall>k \<in> set ks. key_ok (isClient c) k"
    "\<forall>f \<in> set fs. Opcode f \<noteq> CloseMessage"
    using assms False by (auto simp: orderly_def)
  let ?k = "wire_key (isClient c) (keys c (drawn c))"
  obtain e b where w: "WriteFrame buf_write (keys c (drawn c)) (bw c) f (isClient c) = (e, b)" by force
  obtain l where l: "stream (bw c) @ frame_bytes f ?k = stream b @ l" "e = buf_err b"
    "buf_err b = None \<longrightarrow> l = []" "buf_err (bw c) \<noteq> None \<longrightarrow> b = bw c"
    using WriteFrame_sends [OF w] False by metis
  obtain e' b' where fl: "(if e = None then buf_flush b else (e, b)) = (e', b')" by force
  have b': "stream b' = stream b" "buf_err b' = None \<longrightarrow> buf_err b = None" "buf_err b \<noteq> None \<longrightarrow> b' = b"
    using fl flush_sends [of b e' b'] l(2) by (auto simp: buf_flush_def split: if_splits prod.splits option.splits)
  have c': "snd (conn_write c f) = (c\<lparr>closeSent := (Opcode f = CloseMessage), bw := b', drawn := Suc (drawn c)\<rparr>)"
    using False w fl by (auto simp: conn_write_def Let_def split: if_splits option.splits prod.splits)
  show ?thesis
  proof (cases "buf_err (bw c) = None")
    case True
    then have "base @ on_wire (fs @ [f]) (ks @ [?k]) = stream b' @ l"
      using o(1-3) l(1) b'(1) by (simp add: on_wire_snoc) (metis append_assoc)
    then show ?thesis unfolding orderly_def c' using o False l(3) b' key_ok_wire_key
      by (intro exI [of _ "fs @ [f]"] exI [of _ "ks @ [?k]"] exI [of _ l]) auto
  next
    case False
    then have "b' = bw c" using l(4) b'(3) by auto
    then show ?thesis unfolding orderly_def c' using o False
      by (intro exI [of _ fs] exI [of _ ks] exI [of _ lost]) (auto dest: in_set_butlastD)
  qed
qed

lemma orderly_hang_up: "orderly base c \<Longrightarrow> orderly base (hang_up c)"
  by (auto simp: orderly_def hang_up_def net_close_def stream_def)

interpretation wire_order: write_side "orderly base" for base
  by unfold_locales (erule orderly_write orderly_hang_up | simp add: orderly_def)+

section \<open>The peer is told why\<close>

definition close_code :: "ws_err \<Rightarrow> int" where
  "close_code e = (if e = ErrBadUTF8 then CloseInvalidFramePayloadData
    else if e = ErrTooLarge then CloseMessageTooBig else CloseProtocolError)"

definition close_frame :: "int \<Rightarrow> Frame" where
  "close_frame code = \<lparr>Final = True, Opcode = CloseMessage, Payload = FormatClose code ''''\<rparr>"

text \<open>The last thing on the wire is a close frame with this code, and the socket is closed.\<close>

definition closed_with :: "Conn \<Rightarrow> int \<Rightarrow> bool" where
  "closed_with c code \<longleftrightarrow> closeSent c \<and> shut (wr (bw c)) \<and>
    (\<exists>before key. key_ok (isClient c) key \<and>
       sent (wr (bw c)) = before @ frame_bytes (close_frame code) key)"

definition told :: "Conn \<Rightarrow> ws_err \<Rightarrow> bool" where
  "told c e \<longleftrightarrow> (\<not> isTransport e \<longrightarrow> closed_with c (close_code e)) \<and>
    (\<forall>code reason. e = CloseError code reason \<longrightarrow>
       closed_with c (if code = CloseNoStatusReceived then CloseNormalClosure else code))"

definition net_error :: "ws_err \<Rightarrow> bool" where
  "net_error e = (case e of EOF \<Rightarrow> True | ErrUnexpectedEOF \<Rightarrow> True | NetClosed \<Rightarrow> True
    | NetTimeout \<Rightarrow> True | NetOther _ \<Rightarrow> True | _ \<Rightarrow> False)"

lemma net_error_told: "net_error e \<Longrightarrow> told c e"
  by (auto simp: told_def isTransport_def net_error_def split: ws_err.splits)

lemma closing_write:
  assumes "open_conn c"
  shows "closed_with (hang_up (snd (conn_write c (close_frame code)))\<lparr>readErr := e\<rparr>) code"
proof -
  have "Control (close_frame code) \<Longrightarrow> Final (close_frame code) \<and> length (Payload (close_frame code)) \<le> maxControlPayload"
    by (simp add: close_frame_def FormatClose_def maxControlPayload_def)
  from write_open [OF assms this] obtain b where b:
    "conn_write c (close_frame code) = (None, c\<lparr>bw := b, drawn := Suc (drawn c), closeSent := True\<rparr>)"
    "sent (wr b) = sent (wr (bw c)) @ frame_bytes (close_frame code) (wire_key (isClient c) (keys c (drawn c)))"
    by (auto simp: close_frame_def)
  then show ?thesis using key_ok_wire_key
    by (auto simp: closed_with_def hang_up_def net_close_def)
qed

lemma failRead_told:
  assumes "open_conn c"
  shows "\<not> isTransport e \<Longrightarrow> closed_with (snd (failRead c e)) (close_code e)"
  using closing_write [OF assms] unfolding failRead_def close_frame_def [symmetric] Let_def
  by (auto simp: close_code_def)

lemma isTransport_CloseError [simp]: "isTransport (CloseError code reason)"
  by (simp add: isTransport_def)

lemma ParseClose_error: "ParseClose p = Inl e \<Longrightarrow> \<not> isTransport e"
  by (auto simp: ParseClose_def isTransport_def Let_def split: if_splits)

lemma failRead_told': "open_conn c \<Longrightarrow> (\<And>a b. e \<noteq> CloseError a b) \<Longrightarrow> told (snd (failRead c e)) e"
  using failRead_told by (auto simp: told_def)

lemma control_told:
  assumes "open_conn c" "control c f = (Some e, c')" "\<And>h s err. pong c = Some h \<Longrightarrow> h s = Some err \<Longrightarrow> net_error err"
  shows "told c' e"
proof -
  consider h where "pong c = Some h" "h (string_of_bytes (Payload f)) = Some e"
    | "ParseClose (Payload f) = Inl e" "c' = snd (failRead c e)"
    | code reason where "e = CloseError code reason"
        "c' = hang_up (snd (conn_write c (close_frame (if code = CloseNoStatusReceived then CloseNormalClosure else code))))\<lparr>readErr := Some e\<rparr>"
    using assms(2) unfolding control_def close_frame_def [symmetric] Let_def
    by (auto simp: failRead_case split: if_splits option.splits sum.splits)
  then show ?thesis
  proof cases
    case 1
    then show ?thesis using assms(3) by (intro net_error_told) blast
  next
    case 2
    then have "e \<noteq> CloseError a b" for a b using ParseClose_error by fastforce
    with 2 show ?thesis using failRead_told' [OF assms(1)] by simp
  next
    case 3
    then show ?thesis using closing_write [OF assms(1)] by (simp add: told_def)
  qed
qed

lemma control_open: "open_conn c \<Longrightarrow> wire_frame f \<Longrightarrow> Control f \<Longrightarrow> control c f = (None, c') \<Longrightarrow> open_conn c'"
  using ping_turn [of f c]
  by (cases "Opcode f = PingMessage")
    (auto simp: open_conn_def control_def Let_def split: if_splits option.splits sum.splits prod.splits)

lemma data_frame_told:
  assumes "open_conn c" "data_frame c m f = (t, c')"
  shows "(case t of Return (Inl e) \<Rightarrow> told c' e | Return (Inr _) \<Rightarrow> open_conn c' | Continue _ \<Rightarrow> open_conn c' \<and> pong c' = pong c)"
proof -
  have o: "open_conn (c\<lparr>validator := v\<rparr>)" "open_conn (c\<lparr>validator := v, fragOpcode := n\<rparr>)"
    "open_conn (c\<lparr>fragOpcode := n\<rparr>)" for v n
    using assms(1) by (simp_all add: open_conn_def)
  show ?thesis using assms o
    by (auto simp: data_frame_def refuse_read_eq Let_def intro!: failRead_told' split: if_splits prod.splits)
qed

lemma ReadFrame_not_close:
  "ReadFrame fc fl r = (Inl (CloseError a b), r') \<Longrightarrow> stop r = CloseError a b"
  by (auto simp: ReadFrame_def rbind_def rfail_def rpure_def read_length_def readPayload_eq ReadFull_def Let_def
      split: if_splits prod.splits sum.splits)

lemma data_frame_br: "data_frame c m f = (t, c') \<Longrightarrow> br c' = br c"
  by (auto simp: data_frame_def refuse_read_eq failRead_def Let_def split: if_splits prod.splits)

lemma read_turn_told:
  assumes "open_conn c" "read_turn c m = (t, c')" "net_error (stop (br c))"
    "\<And>h s err. pong c = Some h \<Longrightarrow> h s = Some err \<Longrightarrow> net_error err"
  shows "(case t of Return (Inl e) \<Rightarrow> told c' e | Return (Inr _) \<Rightarrow> True
    | Continue _ \<Rightarrow> open_conn c' \<and> pong c' = pong c \<and> stop (br c') = stop (br c))"
proof (cases "t = Return (Inl ErrTooLarge) \<and> c' = snd (failRead c ErrTooLarge)")
  case True
  then show ?thesis using failRead_told' [OF assms(1)] by simp
next
  case False
  then obtain fl where nf: "next_frame c m fl = (t, c')"
    using assms(2) by (auto simp: read_turn_def Let_def refuse_read_eq split: if_splits)
  have o: "open_conn (c\<lparr>br := r\<rparr>)" for r using assms(1) by (simp add: open_conn_def)
  obtain res r where rf: "ReadFrame (\<not> isClient c) fl (br c) = (res, r)" by force
  show ?thesis
  proof (cases res)
    case (Inl err)
    then have eq: "t = Return (Inl err)" "c' = snd (failRead (c\<lparr>br := r\<rparr>) err)"
      using nf rf by (simp_all add: next_frame_def refuse_read_eq)
    have "err \<noteq> CloseError a b" for a b
      using ReadFrame_not_close [of "\<not> isClient c" fl "br c" a b r] rf Inl assms(3) by (auto simp: net_error_def)
    then show ?thesis using eq failRead_told' [OF o] by simp
  next
    case (Inr f)
    have f: "wire_frame f" "stop r = stop (br c)" using ReadFrame_back rf Inr by blast+
    show ?thesis
    proof (cases "Control f")
      case True
      obtain e1 c1 where ctl: "control (c\<lparr>br := r\<rparr>) f = (e1, c1)" by force
      have t: "t = (case e1 of Some e \<Rightarrow> Return (Inl e) | None \<Rightarrow> Continue m)" "c' = c1"
        using nf rf Inr True ctl by (auto simp: next_frame_def Let_def split: option.splits)
      show ?thesis
      proof (cases e1)
        case None
        then have n: "control (c\<lparr>br := r\<rparr>) f = (None, c1)" using ctl by simp
        show ?thesis
          using t None control_open [OF o f(1) True n] control_continue [OF n] control_br [OF n] f(2) by simp
      next
        case (Some e)
        then have "told c1 e" using control_told [OF o, of r f e c1] ctl assms(4) by simp
        then show ?thesis using t Some by simp
      qed
    next
      case nc: False
      then have "data_frame (c\<lparr>br := r\<rparr>) m f = (t, c')"
        using nf rf Inr by (simp add: next_frame_def Let_def)
      from data_frame_told [OF o this] data_frame_br [OF this] f(2) show ?thesis
        by (auto split: turn.splits sum.splits)
    qed
  qed
qed

lemma read_loop_told:
  assumes "open_conn c" "net_error (stop (br c))" "read_loop c m = (Inl e, c')"
    "\<And>h s err. pong c = Some h \<Longrightarrow> h s = Some err \<Longrightarrow> net_error err"
  shows "told c' e"
  using assms
proof (induction c m rule: read_loop.induct)
  case (1 c m)
  obtain t c1 where turn: "read_turn c m = (t, c1)" by force
  note j = read_turn_told [OF "1.prems"(1) turn "1.prems"(2,4)]
  show ?case
  proof (cases t)
    case (Return res)
    then show ?thesis using j turn "1.prems"(3) by (auto simp: read_loop.simps [of c m])
  next
    case (Continue m1)
    then have "read_loop c1 m1 = (Inl e, c')"
      using turn "1.prems"(3) by (simp add: read_loop.simps [of c m])
    with 1(1) [OF turn [symmetric] Continue] j Continue "1.prems"(2,4) show ?thesis by auto
  qed
qed

section \<open>Properties\<close>

text \<open>A failed read is final: once \<open>ReadMessage\<close> answers an error, every later call
  answers that same error and changes nothing, whatever the peer sends in between.\<close>

theorem read_error_is_final:
  assumes "ReadMessage c = (Inl e, c')"
  shows "ReadMessage (c'\<lparr>br := r\<rparr>) = (Inl e, c'\<lparr>br := r\<rparr>)"
  using ReadMessage_error [OF assms] by (simp add: ReadMessage_def)

text \<open>What \<open>ReadMessage\<close> returns is a text or a binary message, no larger than the
  limit when one is set, and valid UTF-8 when it is text; and the connection is left with no
  message open, ready for the next call.\<close>

theorem message_is_acceptable:
  assumes "conn_ok c" "ReadMessage c = (Inr (t, m), c')"
  shows "t \<in> {TextMessage, BinaryMessage} \<and> (readLimit c > 0 \<longrightarrow> int (length m) \<le> readLimit c) \<and>
    (t = TextMessage \<longrightarrow> well_formed m) \<and> conn_ok c'"
  using ReadMessage_acceptable [OF assms] by (simp add: acceptable_def ValidUTF8_well_formed)

text \<open>Property C10. Fragments are joined. When the stream holds the frames of one message, cut into
  any number of fragments with pings and pongs anywhere between them, within the limit and
  valid if text, \<open>ReadMessage\<close> returns exactly the concatenation of the fragments under the
  opcode of the first, stops right after the last frame, and has answered every ping, in
  order, with a pong carrying the same payload and with nothing else.\<close>

theorem fragments_are_joined:
  assumes "t \<in> {TextMessage, BinaryMessage}" "is_message t fs" "\<forall>f \<in> set fs. wire_frame f"
    and "length ks = length fs" "\<forall>k \<in> set ks. key_ok (\<not> isClient c) k"
    and "br c = \<lparr>avail = on_wire fs ks @ rest, stop = e\<rparr>"
    and "readLimit c > 0 \<longrightarrow> int (length (data_of fs)) \<le> readLimit c"
    and "t = TextMessage \<longrightarrow> ValidUTF8 (data_of fs)"
    and "open_conn c" "readErr c = None" "fragOpcode c = 0" "pong c = None \<or> (\<exists>h. pong c = Some h \<and> (\<forall>s. h s = None))"
  shows "\<exists>c'. ReadMessage c = (Inr (t, data_of fs), c') \<and> br c' = \<lparr>avail = rest, stop = e\<rparr> \<and>
    readErr c' = None \<and> fragOpcode c' = 0 \<and> open_conn c' \<and>
    sent (wr (bw c')) = sent (wr (bw c)) @ pongs (isClient c) (keys c) (drawn c) fs"
proof -
  have "\<exists>c'. read_loop c [] = (Inr (t, [] @ data_of fs), c') \<and> br c' = \<lparr>avail = rest, stop = e\<rparr> \<and>
    readErr c' = readErr c \<and> fragOpcode c' = 0 \<and> open_conn c' \<and>
    sent (wr (bw c')) = sent (wr (bw c)) @ pongs (isClient c) (keys c) (drawn c) fs"
    by (rule read_loop_joins) (use assms in \<open>auto simp: text_so_far_def\<close>)
  then show ?thesis using assms(10) by (simp add: ReadMessage_def)
qed

text \<open>The peer is told why. When a read on a working connection fails on a violation
  of the protocol, the last thing sent is a close frame with 1007 for text that is not UTF-8,
  1009 for a message over the limit and 1002 for everything else, and the socket is closed;
  when the peer closed, its code is echoed (1000 when it gave none).\<close>

theorem peer_is_told_why:
  assumes "open_conn c" "readErr c = None" "net_error (stop (br c))"
    and "pong c = None \<or> (\<exists>h. pong c = Some h \<and> (\<forall>s err. h s = Some err \<longrightarrow> net_error err))"
    and "ReadMessage c = (Inl e, c')"
  shows "(IsProtocolError e \<longrightarrow> closed_with c' (close_code e)) \<and>
    (\<forall>code reason. e = CloseError code reason \<longrightarrow>
       closed_with c' (if code = CloseNoStatusReceived then CloseNormalClosure else code))"
proof -
  have "told c' e"
    using assms by (intro read_loop_told [of c "[]"]) (auto simp: ReadMessage_def)
  then show ?thesis by (simp add: told_def IsProtocolError_def)
qed

text \<open>Property C28. Nothing follows a close. Whatever a connection is asked to do, in whatever order
  (messages written, reads that answer pings and closes, failures of the network, the socket
  closed), what it has put on the wire after the handshake is a sequence of whole frames, cut
  short only if the network failed, in which a close frame can only be the last one.\<close>

theorem nothing_follows_a_close:
  "orderly (sent conn) (foldl conn_step (newConn conn r writeBuffer client ks) ops)"
proof -
  have "orderly (sent conn) (newConn conn r writeBuffer client ks)" unfolding orderly_def newConn_def
    by (intro exI [of _ "[]"]) (simp add: Let_def stream_def)
  then show ?thesis by (rule wire_order.always_inv)
qed

section \<open>Witnesses\<close>

text \<open>A server's connection with nothing written yet and these bytes to read.\<close>

definition fresh :: "byte list \<Rightarrow> Conn" where
  "fresh bs = newConn \<lparr>sent = [], room = None, shut = False\<rparr> \<lparr>avail = bs, stop = EOF\<rparr> 0 False (\<lambda>_. 0)"

lemmas fresh_simps = fresh_def newConn_def defaultBufferSize_def Let_def

lemma fresh_facts: "open_conn (fresh bs)" "conn_ok (fresh bs)" "readErr (fresh bs) = None"
  "fragOpcode (fresh bs) = 0" "pong (fresh bs) = None" "br (fresh bs) = \<lparr>avail = bs, stop = EOF\<rparr>"
  "isClient (fresh bs) = False" "readLimit (fresh bs) = 0"
  by (simp_all add: fresh_simps open_conn_def conn_ok_def healthy_def)

lemmas read_eval = ReadMessage_def read_loop.simps read_turn_def next_frame_def data_frame_def refuse_read_eq
  ReadFrame_def read_length_def rbind_def rpure_def rfail_def readPayload_eq ReadFull_def fresh_facts
  opcode_defs maxControlPayload_def Control_def

lemma fresh_eof: "ReadMessage (fresh []) = (Inl EOF, snd (failRead (fresh []\<lparr>br := \<lparr>avail = [], stop = EOF\<rparr>\<rparr>) EOF))"
  by (simp add: read_eval)

theorem read_error_is_final_witness:
  "\<exists>c'. ReadMessage (fresh []) = (Inl EOF, c') \<and>
    ReadMessage (c'\<lparr>br := \<lparr>avail = [0x81, 0x00], stop = EOF\<rparr>\<rparr>) =
      (Inl EOF, c'\<lparr>br := \<lparr>avail = [0x81, 0x00], stop = EOF\<rparr>\<rparr>)"
  using fresh_eof read_error_is_final [OF fresh_eof] by blast

lemma fresh_unmasked: "fst (ReadMessage (fresh [0x81, 0x00])) = Inl ErrUnmaskedClient"
  by (simp add: read_eval)

lemma fresh_empty_text:
  "\<exists>c'. ReadMessage (fresh [0x81, 0x80, 1, 2, 3, 4]) = (Inr (1, []), c')"
  by (simp add: read_eval Mask_def utf8.feed_Nil) (simp add: utf8_complete_def utf8_reset_def)

theorem message_is_acceptable_witness:
  "\<exists>c'. ReadMessage (fresh [0x81, 0x80, 1, 2, 3, 4]) = (Inr (1, []), c') \<and> well_formed [] \<and> conn_ok c'"
  using fresh_empty_text message_is_acceptable [OF fresh_facts(2)] by (fastforce simp: opcode_defs)

theorem fragments_are_joined_witness:
  "\<exists>bs c'. ReadMessage (fresh bs) = (Inr (2, [7, 9]), c') \<and>
    sent (wr (bw c')) = frame_bytes \<lparr>Final = True, Opcode = 10, Payload = [5]\<rparr> None"
proof -
  let ?fs = "[\<lparr>Final = False, Opcode = 2, Payload = [7]\<rparr>, \<lparr>Final = True, Opcode = 9, Payload = [5]\<rparr>,
    \<lparr>Final = True, Opcode = 0, Payload = [9]\<rparr>] :: Frame list"
  let ?ks = "[Some [1, 2, 3, 4], Some [0, 0, 0, 0], Some [9, 8, 7, 6]] :: byte list option list"
  let ?c = "fresh (on_wire ?fs ?ks)"
  have "sent (wr (bw ?c)) = []" by (simp add: fresh_simps)
  then show ?thesis
    using fragments_are_joined [of 2 ?fs ?ks ?c "[]" EOF]
    by (auto simp: fresh_facts opcode_defs Control_def wire_frame_def maxControlPayload_def key_ok_def wire_key_def)
qed

theorem peer_is_told_why_witness:
  "\<exists>c'. ReadMessage (fresh [0x81, 0x00]) = (Inl ErrUnmaskedClient, c') \<and> closed_with c' 1002"
proof -
  obtain c' where c': "ReadMessage (fresh [0x81, 0x00]) = (Inl ErrUnmaskedClient, c')"
    using fresh_unmasked by (metis prod.collapse)
  have "net_error (stop (br (fresh [0x81, 0x00])))" by (simp add: fresh_facts net_error_def)
  from peer_is_told_why [OF fresh_facts(1) fresh_facts(3) this _ c']
  have "closed_with c' 1002"
    by (simp add: fresh_facts IsProtocolError_def isTransport_def close_code_def close_code_defs)
  with c' show ?thesis by blast
qed

end
