(* ===== verification/Joaju_Sink.thy ===== *)
theory Joaju_Sink
  imports Ws_Conn Joaju_Types
begin

text \<open>
  The \<open>sink\<close> of \<^verbatim>\<open>server.go\<close>: the writing half of one socket, a bounded queue in front of
  the one goroutine that writes. The operations are functions on its state; callers of \<open>Send\<close>,
  whoever terminates the socket, the writer and the goroutine that reads the same connection
  are the steps of a relation, cut where the code can be overtaken: between the two questions
  \<open>Send\<close> asks, and between two turns of the writer. The lemmas follow a message from the call that
  accepted it to the wire.
\<close>

section \<open>State\<close>

datatype writer = Looping | Flushing nat | Finished

text \<open>
  \<open>gone\<close> is the closed channel \<open>done\<close>. \<open>callers\<close> are the calls of \<open>Send\<close> that were told the
  socket is open and have yet to offer their message. What was accepted, what the observer
  was told was sent, and how often \<open>failure\<close> was called are on record.
\<close>

record sink_state =
  wconn :: Conn
  queue :: "string list"
  capacity :: nat
  gone :: bool
  writer :: writer
  callers :: "nat \<Rightarrow> string option"
  accepted :: "string list"
  observed :: "string list"
  failures :: nat

definition ErrSocketClosed :: jerr where
  "ErrSocketClosed = ErrOther ''joaju: the socket is closed''"

definition newSink :: "nat \<Rightarrow> Conn \<Rightarrow> sink_state" where
  "newSink outboundQueue c = \<lparr>wconn = c, queue = [], capacity = outboundQueue, gone = False, writer = Looping,
     callers = (\<lambda>_. None), accepted = [], observed = [], failures = 0\<rparr>"

section \<open>Operations\<close>

definition sink_close :: "sink_state \<Rightarrow> sink_state" where
  "sink_close k = k\<lparr>gone := True\<rparr>"

definition sink_Terminate :: "sink_state \<Rightarrow> jerr option \<times> sink_state" where
  "sink_Terminate k = (None, sink_close k)"

definition sink_fail :: "sink_state \<Rightarrow> sink_state" where
  "sink_fail k = sink_close (k\<lparr>failures := Suc (failures k)\<rparr>)"

definition enqueue :: "string \<Rightarrow> sink_state \<Rightarrow> sink_state" where
  "enqueue message k = k\<lparr>queue := queue k @ [message], accepted := accepted k @ [message]\<rparr>"

text \<open>\<open>Send\<close> when nothing happens in between; \<open>ctx\<close> is what the context answers.\<close>

definition sink_Send :: "jerr option \<Rightarrow> string \<Rightarrow> sink_state \<Rightarrow> jerr option \<times> sink_state" where
  "sink_Send ctx message k =
    (case ctx of
       Some err \<Rightarrow> (Some err, k)
     | None \<Rightarrow>
         if gone k then (Some ErrSocketClosed, k)
         else if length (queue k) < capacity k then (None, enqueue message k)
         else (Some ErrSocketClosed, sink_fail k))"

text \<open>The writer leaves: the deferred \<open>Close\<close> of the connection, of whose input \<open>n\<close> bytes were buffered.\<close>

definition leave :: "nat \<Rightarrow> sink_state \<Rightarrow> sink_state" where
  "leave n k = k\<lparr>wconn := Close n (wconn k), writer := Finished\<rparr>"

definition write_queued :: "nat \<Rightarrow> string \<Rightarrow> string list \<Rightarrow> sink_state \<Rightarrow> sink_state" where
  "write_queued n message rest k =
    (case WriteMessage (wconn k) TextMessage (bytes_of_string message) of
       (Some err, c) \<Rightarrow> leave n (sink_fail (k\<lparr>wconn := c, queue := rest\<rparr>))
     | (None, c) \<Rightarrow> k\<lparr>wconn := c, queue := rest, observed := observed k @ [message]\<rparr>)"

definition write_ping :: "nat \<Rightarrow> sink_state \<Rightarrow> sink_state" where
  "write_ping n k =
    (case WriteMessage (wconn k) PingMessage [] of
       (Some err, c) \<Rightarrow> leave n (sink_fail (k\<lparr>wconn := c\<rparr>))
     | (None, c) \<Rightarrow> k\<lparr>wconn := c\<rparr>)"

text \<open>One turn of \<open>flush\<close>: whether it goes on, and the sink after it.\<close>

definition flush_one :: "string \<Rightarrow> string list \<Rightarrow> sink_state \<Rightarrow> bool \<times> sink_state" where
  "flush_one message rest k =
    (case WriteMessage (wconn k) TextMessage (bytes_of_string message) of
       (Some err, c) \<Rightarrow> (False, k\<lparr>wconn := c, queue := rest\<rparr>)
     | (None, c) \<Rightarrow> (True, k\<lparr>wconn := c, queue := rest, observed := observed k @ [message]\<rparr>))"

definition say_goodbye :: "nat \<Rightarrow> sink_state \<Rightarrow> sink_state" where
  "say_goodbye n k =
    leave n (k\<lparr>wconn := snd (WriteMessage (wconn k) CloseMessage (FormatClose CloseNormalClosure ''''))\<rparr>)"

fun flush :: "nat \<Rightarrow> sink_state \<Rightarrow> sink_state" where
  "flush 0 k = k"
| "flush (Suc i) k =
    (case queue k of
       [] \<Rightarrow> k
     | m # rest \<Rightarrow> (case flush_one m rest k of (False, k') \<Rightarrow> k' | (True, k') \<Rightarrow> flush i k'))"

text \<open>The branch of \<open>write\<close> that sees the socket closed, to its end.\<close>

definition write_done :: "nat \<Rightarrow> sink_state \<Rightarrow> sink_state" where
  "write_done n k = say_goodbye n (flush (capacity k) k)"

section \<open>Steps\<close>

text \<open>
  A caller that finds the queue full and the socket open calls \<open>fail\<close> a moment later, when the
  socket may have been closed by another; \<open>reading\<close> is the other goroutine at the same
  connection, which writes pongs and close frames but no messages.
\<close>

inductive sstep :: "sink_state \<Rightarrow> sink_state \<Rightarrow> bool" where
  send_ask: "\<not> gone k \<Longrightarrow> callers k i = None \<Longrightarrow> sstep k (k\<lparr>callers := (callers k)(i := Some m)\<rparr>)"
| send_queue: "callers k i = Some m \<Longrightarrow> length (queue k) < capacity k \<Longrightarrow>
    sstep k (enqueue m (k\<lparr>callers := (callers k)(i := None)\<rparr>))"
| send_gone: "callers k i = Some m \<Longrightarrow> gone k \<Longrightarrow> sstep k (k\<lparr>callers := (callers k)(i := None)\<rparr>)"
| send_behind: "callers k i = Some m \<Longrightarrow> capacity k \<le> length (queue k) \<Longrightarrow>
    sstep k (sink_fail (k\<lparr>callers := (callers k)(i := None)\<rparr>))"
| terminate: "sstep k (sink_close k)"
| take_message: "writer k = Looping \<Longrightarrow> queue k = m # rest \<Longrightarrow> sstep k (write_queued n m rest k)"
| tick: "writer k = Looping \<Longrightarrow> sstep k (write_ping n k)"
| see_done: "writer k = Looping \<Longrightarrow> gone k \<Longrightarrow> sstep k (k\<lparr>writer := Flushing (capacity k)\<rparr>)"
| flush_turn: "writer k = Flushing (Suc i) \<Longrightarrow> queue k = m # rest \<Longrightarrow> flush_one m rest k = (go_on, k') \<Longrightarrow>
    sstep k (k'\<lparr>writer := Flushing (if go_on then i else 0)\<rparr>)"
| flush_end: "writer k = Flushing i \<Longrightarrow> i = 0 \<or> queue k = [] \<Longrightarrow> sstep k (say_goodbye n k)"
| reading: "(\<And>t b. op \<noteq> Op_Write t b) \<Longrightarrow> sstep k (k\<lparr>wconn := conn_step (wconn k) op\<rparr>)"

section \<open>The frames on the wire\<close>

text \<open>
  The frames that were handed to a connection, the last of them possibly cut short by a
  failure, and the text messages among them.
\<close>

definition framed :: "byte list \<Rightarrow> Frame list \<Rightarrow> Conn \<Rightarrow> bool" where
  "framed base fs c \<longleftrightarrow> (\<exists>ks lost. length ks = length fs \<and> base @ on_wire fs ks = stream (bw c) @ lost \<and>
     (buf_err (bw c) = None \<longrightarrow> lost = []))"

definition texts :: "Frame list \<Rightarrow> string list" where
  "texts fs = map (\<lambda>f. string_of_bytes (Payload f)) (filter (\<lambda>f. Opcode f = TextMessage) fs)"

lemma texts_snoc: "texts (fs @ [f]) = texts fs @ (if Opcode f = TextMessage then [string_of_bytes (Payload f)] else [])"
  by (simp add: texts_def)

lemma framed_write:
  assumes "framed base fs c" "conn_write c f = (e, c')"
  shows "framed base (fs @ [f]) c' \<or> e \<noteq> None \<and> framed base fs c'"
proof (cases "closeSent c \<or> \<not> sendable f")
  case True
  then have "e \<noteq> None \<and> bw c' = bw c"
  proof (cases "closeSent c")
    case False
    then have "WriteFrame buf_write rnd b f cl = (Some ErrControlTooLong, b)" for rnd b cl
      using True by (intro WriteFrame_too_long) (simp_all add: sendable_def)
    then show ?thesis using False assms(2) by (auto simp: conn_write_def Let_def)
  qed (use assms(2) in \<open>auto simp: conn_write_def\<close>)
  then show ?thesis using assms(1) by (simp add: framed_def)
next
  case False
  obtain ks lost where o: "length ks = length fs" "base @ on_wire fs ks = stream (bw c) @ lost"
    "buf_err (bw c) = None \<longrightarrow> lost = []" using assms(1) by (auto simp: framed_def)
  let ?k = "wire_key (isClient c) (keys c (drawn c))"
  obtain e1 b where w: "WriteFrame buf_write (keys c (drawn c)) (bw c) f (isClient c) = (e1, b)" by force
  obtain l where l: "stream (bw c) @ frame_bytes f ?k = stream b @ l" "e1 = buf_err b"
    "buf_err b = None \<longrightarrow> l = []" "buf_err (bw c) \<noteq> None \<longrightarrow> b = bw c"
    using WriteFrame_sends [OF w] False by metis
  obtain e' b' where fl: "(if e1 = None then buf_flush b else (e1, b)) = (e', b')" by force
  have b': "stream b' = stream b" "buf_err b' = None \<longrightarrow> buf_err b = None" "buf_err b \<noteq> None \<longrightarrow> b' = b"
    using fl flush_sends [of b e' b'] l(2) by (auto simp: buf_flush_def split: if_splits prod.splits option.splits)
  have c': "e = e'" "bw c' = b'"
    using False w fl assms(2) by (auto simp: conn_write_def Let_def split: if_splits option.splits prod.splits)
  show ?thesis
  proof (cases "buf_err (bw c) = None")
    case True
    then have "base @ on_wire (fs @ [f]) (ks @ [?k]) = stream b' @ l"
      using o(2,3) l(1) b'(1) on_wire_snoc [OF o(1)] by (simp add: append_assoc [symmetric] del: append_assoc)
    then show ?thesis unfolding framed_def c' using o(1) l(3) b'(2)
      by (intro disjI1 exI [of _ "ks @ [?k]"] exI [of _ l]) auto
  next
    case False
    then have "b' = bw c" "e \<noteq> None" using l(2,4) b'(3) fl c'(1) by auto
    then show ?thesis using assms(1) c'(2) by (simp add: framed_def)
  qed
qed

text \<open>What the reading goroutine does to the connection adds no text message to the wire.\<close>

definition carries :: "byte list \<Rightarrow> string list \<Rightarrow> Conn \<Rightarrow> bool" where
  "carries base ms c \<longleftrightarrow> (\<exists>fs. framed base fs c \<and> texts fs = ms)"

lemma carries_write:
  assumes "carries base ms c" "conn_write c f = (e, c')"
  shows "Opcode f = TextMessage \<Longrightarrow> e = None \<Longrightarrow> carries base (ms @ [string_of_bytes (Payload f)]) c'"
    "Opcode f = TextMessage \<Longrightarrow> carries base ms c' \<or> carries base (ms @ [string_of_bytes (Payload f)]) c'"
    "Opcode f \<noteq> TextMessage \<Longrightarrow> carries base ms c'"
proof -
  obtain fs where fs: "framed base fs c" "texts fs = ms" using assms(1) by (auto simp: carries_def)
  show "carries base (ms @ [string_of_bytes (Payload f)]) c'" if "Opcode f = TextMessage" "e = None"
    using framed_write [OF fs(1) assms(2)] fs(2) that unfolding carries_def by (metis texts_snoc)
  show "carries base ms c' \<or> carries base (ms @ [string_of_bytes (Payload f)]) c'" if "Opcode f = TextMessage"
    using framed_write [OF fs(1) assms(2)] fs(2) that unfolding carries_def by (metis texts_snoc)
  show "carries base ms c'" if "Opcode f \<noteq> TextMessage"
    using framed_write [OF fs(1) assms(2)] fs(2) that unfolding carries_def by (metis texts_snoc append_Nil2)
qed

lemma Control_not_text: "Control f \<Longrightarrow> Opcode f \<noteq> TextMessage"
  by (simp add: Control_def opcode_defs)

lemma carries_control: "carries base ms c \<Longrightarrow> Control f \<Longrightarrow> carries base ms (snd (conn_write c f))"
  using carries_write(3) [of base ms c f] Control_not_text [of f] by (metis prod.collapse)

lemma carries_hang_up: "carries base ms c \<Longrightarrow> carries base ms (hang_up c)"
  by (auto simp: carries_def framed_def hang_up_def net_close_def stream_def)

interpretation wire_texts: read_side "carries base ms" for base ms
  by unfold_locales (erule (1) carries_control | erule carries_hang_up | simp add: carries_def framed_def)+

section \<open>The invariant\<close>

text \<open>
  While the writer has not left, what was accepted is what was sent and what waits; afterwards
  what was sent is the beginning of it. On the wire are the messages that were sent, and
  possibly the one whose write failed.
\<close>

definition sink_ok :: "byte list \<Rightarrow> sink_state \<Rightarrow> bool" where
  "sink_ok base k \<longleftrightarrow> length (queue k) \<le> capacity k \<and>
    (writer k = Looping \<longrightarrow> accepted k = observed k @ queue k \<and> carries base (observed k) (wconn k)) \<and>
    (\<exists>ms. carries base ms (wconn k) \<and> prefix (observed k) ms \<and> prefix ms (accepted k)) \<and>
    (\<forall>i. writer k = Flushing (Suc i) \<longrightarrow> accepted k = observed k @ queue k \<and> carries base (observed k) (wconn k)) \<and>
    (writer k \<noteq> Looping \<longrightarrow> gone k)"

lemma sink_okI_live:
  assumes "length (queue k) \<le> capacity k" "accepted k = observed k @ queue k" "carries base (observed k) (wconn k)"
    "writer k \<noteq> Looping \<longrightarrow> gone k"
  shows "sink_ok base k"
  unfolding sink_ok_def using assms by (auto intro!: exI [of _ "observed k"])

lemma sink_okD_live: "sink_ok base k \<Longrightarrow> writer k = Looping \<or> writer k = Flushing (Suc i) \<Longrightarrow>
    accepted k = observed k @ queue k \<and> carries base (observed k) (wconn k) \<and> length (queue k) \<le> capacity k"
  by (auto simp: sink_ok_def)

lemma prefix_snoc_left: "prefix a b \<Longrightarrow> prefix a (b @ c)"
  by simp

text \<open>A message leaves the queue: it is on the wire and observed, or its write failed.\<close>

lemma text_written:
  assumes "carries base (observed k) (wconn k)" "WriteMessage (wconn k) TextMessage (bytes_of_string m) = (e, c)"
  shows "e = None \<Longrightarrow> carries base (observed k @ [m]) c"
    "\<exists>ms. carries base ms c \<and> prefix (observed k) ms \<and> prefix ms (observed k @ m # rest)"
proof -
  have w: "conn_write (wconn k) \<lparr>Final = True, Opcode = TextMessage, Payload = bytes_of_string m\<rparr> = (e, c)"
    using assms(2) by (simp add: WriteMessage_def)
  note cw = carries_write [OF assms(1) w, simplified]
  show "e = None \<Longrightarrow> carries base (observed k @ [m]) c" using cw(1) by simp
  show "\<exists>ms. carries base ms c \<and> prefix (observed k) ms \<and> prefix ms (observed k @ m # rest)"
    using cw(2) by (elim disjE) (rule exI [of _ "observed k"], simp, rule exI [of _ "observed k @ [m]"], simp)
qed

lemma control_written:
  assumes "carries base ms c" "op \<in> {CloseMessage, PingMessage}"
  shows "carries base ms (snd (WriteMessage c op p))"
proof -
  have "carries base ms (snd (conn_write c \<lparr>Final = True, Opcode = op, Payload = p\<rparr>))"
    by (rule carries_control [OF assms(1)]) (use assms(2) in \<open>auto simp: Control_def opcode_defs\<close>)
  then show ?thesis using assms by (simp add: WriteMessage_def)
qed

lemma carries_Close: "carries base ms c \<Longrightarrow> carries base ms (Close n c)"
  using wire_texts.read_step_keeps [of base ms c "Op_Close n"] by simp

text \<open>A change of the connection that leaves the messages on the wire alone, and the writer leaving.\<close>

lemma sink_ok_wire:
  assumes "sink_ok base k" "\<And>ms. carries base ms (wconn k) \<Longrightarrow> carries base ms c"
  shows "sink_ok base (k\<lparr>wconn := c\<rparr>)"
  using assms by (simp add: sink_ok_def) blast

lemma sink_ok_leave: "sink_ok base k \<Longrightarrow> gone k \<Longrightarrow> sink_ok base (leave n k)"
  using carries_Close by (simp add: sink_ok_def leave_def) blast

lemma sink_ok_fail: "sink_ok base k \<Longrightarrow> sink_ok base (sink_fail k)" "gone (sink_fail k)"
  by (simp_all add: sink_ok_def sink_fail_def sink_close_def)

lemma sstep_keeps:
  assumes "sstep k k'" "sink_ok base k"
  shows "sink_ok base k'"
  using assms
proof (induction rule: sstep.induct)
  case (take_message k m rest n)
  have live: "accepted k = observed k @ m # rest" "carries base (observed k) (wconn k)" "Suc (length rest) \<le> capacity k"
    using sink_okD_live [OF take_message(3)] take_message(1,2) by auto
  obtain e c where w: "WriteMessage (wconn k) TextMessage (bytes_of_string m) = (e, c)" by force
  note t = text_written [OF live(2) w]
  show ?case
  proof (cases e)
    case None
    then show ?thesis using live t(1) w take_message(1) by (intro sink_okI_live) (simp_all add: write_queued_def)
  next
    case (Some err)
    then show ?thesis using live t(2) [of rest] w
      by (auto simp: write_queued_def sink_ok_def leave_def sink_fail_def sink_close_def intro: carries_Close)
  qed
next
  case (tick k n)
  obtain e c where w: "WriteMessage (wconn k) PingMessage [] = (e, c)" by force
  have c: "carries base ms c" if "carries base ms (wconn k)" for ms
    using control_written [OF that, of PingMessage "[]"] w by simp
  have "sink_ok base (k\<lparr>wconn := c\<rparr>)" by (rule sink_ok_wire [OF tick(2) c])
  then show ?case using w sink_ok_fail sink_ok_leave by (auto simp: write_ping_def split: option.splits)
next
  case (flush_turn k i m rest go_on k')
  have live: "accepted k = observed k @ m # rest" "carries base (observed k) (wconn k)" "Suc (length rest) \<le> capacity k"
    using sink_okD_live [OF flush_turn(4)] flush_turn(1,2) by auto
  have g: "gone k" using flush_turn(1,4) by (auto simp: sink_ok_def)
  obtain e c where w: "WriteMessage (wconn k) TextMessage (bytes_of_string m) = (e, c)" by force
  note t = text_written [OF live(2) w]
  show ?case
  proof (cases e)
    case None
    then show ?thesis using live t(1) w flush_turn(3) g by (intro sink_okI_live) (auto simp: flush_one_def)
  next
    case (Some err)
    then show ?thesis using live t(2) [of rest] w flush_turn(3) g by (auto simp: flush_one_def sink_ok_def)
  qed
next
  case (flush_end k i n)
  have c: "carries base ms (snd (WriteMessage (wconn k) CloseMessage p))" if "carries base ms (wconn k)" for ms p
    using control_written [OF that, of CloseMessage p] by simp
  have "gone k" using flush_end(1,3) by (auto simp: sink_ok_def)
  then show ?case using sink_ok_leave [OF sink_ok_wire [OF flush_end(3) c]] by (simp add: say_goodbye_def)
next
  case (reading op k)
  show ?case by (rule sink_ok_wire [OF reading(2)]) (rule wire_texts.read_step_keeps [OF _ reading(1)])
qed (auto simp: sink_ok_def sink_fail_def sink_close_def enqueue_def prefix_snoc_left)

interpretation sinks: transitions "\<lambda>k. \<exists>n c. k = newSink n c \<and> framed base [] c" sstep "sink_ok base" for base
proof unfold_locales
  fix k assume "\<exists>n c. k = newSink n c \<and> framed base [] c"
  then show "sink_ok base k" by (auto simp: newSink_def carries_def texts_def intro!: sink_okI_live exI [of _ "[]"])
qed (rule sstep_keeps)

lemma framed_new: "framed (sent conn) [] (newConn conn r wb client ks)"
  by (simp add: framed_def newConn_def stream_def Let_def)

lemma reachable_sink: "sstep\<^sup>*\<^sup>* (newSink n (newConn conn r wb client ks)) k \<Longrightarrow> sink_ok (sent conn) k"
  using sinks.reachable_inv [of _ "sent conn"] framed_new by blast

section \<open>What the end of a socket sends\<close>

definition text_frame :: "string \<Rightarrow> Frame" where
  "text_frame m = \<lparr>Final = True, Opcode = TextMessage, Payload = bytes_of_string m\<rparr>"

lemma text_goes_out:
  assumes "open_conn c"
  obtains c' key where "WriteMessage c TextMessage (bytes_of_string m) = (None, c')" "open_conn c'"
    "sent (wr (bw c')) = sent (wr (bw c)) @ frame_bytes (text_frame m) key"
proof -
  obtain b where b: "conn_write c (text_frame m) = (None, c\<lparr>bw := b, drawn := Suc (drawn c), closeSent := (Opcode (text_frame m) = CloseMessage)\<rparr>)"
      "healthy b" "buf b = []" "sent (wr b) = sent (wr (bw c)) @ frame_bytes (text_frame m) (wire_key (isClient c) (keys c (drawn c)))"
    using write_open [OF assms, of "text_frame m"] by (auto simp: text_frame_def Control_def opcode_defs)
  show ?thesis using b by (intro that) (auto simp: WriteMessage_def text_frame_def open_conn_def opcode_defs)
qed

lemma flush_all:
  assumes "open_conn (wconn k)" "length (queue k) \<le> i"
  shows "\<exists>c ks. flush i k = k\<lparr>wconn := c, queue := [], observed := observed k @ queue k\<rparr> \<and> open_conn c \<and>
    length ks = length (queue k) \<and> sent (wr (bw c)) = sent (wr (bw (wconn k))) @ on_wire (map text_frame (queue k)) ks"
  using assms
proof (induction i arbitrary: k)
  case 0
  then show ?case by (auto intro!: exI [of _ "wconn k"])
next
  case (Suc i)
  show ?case
  proof (cases "queue k")
    case Nil
    then show ?thesis using Suc.prems(1) by (auto intro!: exI [of _ "wconn k"])
  next
    case (Cons m rest)
    obtain c1 key where c1: "WriteMessage (wconn k) TextMessage (bytes_of_string m) = (None, c1)" "open_conn c1"
      "sent (wr (bw c1)) = sent (wr (bw (wconn k))) @ frame_bytes (text_frame m) key"
      using text_goes_out [OF Suc.prems(1)] by metis
    let ?k = "k\<lparr>wconn := c1, queue := rest, observed := observed k @ [m]\<rparr>"
    obtain c ks where c: "flush i ?k = ?k\<lparr>wconn := c, queue := [], observed := observed ?k @ rest\<rparr>" "open_conn c" "length ks = length rest"
      "sent (wr (bw c)) = sent (wr (bw c1)) @ on_wire (map text_frame rest) ks"
      using Suc.IH [of ?k] Suc.prems(2) Cons c1(2) by auto
    then show ?thesis using Cons c1 by (auto simp: flush_one_def intro!: exI [of _ c] exI [of _ "key # ks"])
  qed
qed

lemma same_writer: "writer k = w \<Longrightarrow> k\<lparr>writer := w\<rparr> = k"
  by (cases k) simp

lemma flush_one_writer: "flush_one m rest (q\<lparr>writer := w\<rparr>) = (fst (flush_one m rest q), (snd (flush_one m rest q))\<lparr>writer := w\<rparr>)"
  by (cases q) (simp add: flush_one_def split: prod.splits option.splits)

lemma flush_writer: "flush i (q\<lparr>writer := w\<rparr>) = (flush i q)\<lparr>writer := w\<rparr>"
  by (induction i arbitrary: q) (auto simp: flush_one_writer split: list.splits prod.splits bool.splits)

lemma flush_run:
  assumes "writer k = Flushing i" "length (queue k) \<le> i" "open_conn (wconn k)"
  shows "\<exists>j. sstep\<^sup>*\<^sup>* k ((flush i k)\<lparr>writer := Flushing j\<rparr>)"
  using assms
proof (induction i arbitrary: k)
  case 0
  then show ?case by (auto simp: same_writer intro!: exI [of _ 0])
next
  case (Suc i)
  show ?case
  proof (cases "queue k")
    case Nil
    then show ?thesis using Suc.prems(1) by (auto simp: same_writer intro!: exI [of _ "Suc i"])
  next
    case (Cons m rest)
    obtain c1 where c1: "WriteMessage (wconn k) TextMessage (bytes_of_string m) = (None, c1)" "open_conn c1"
      using text_goes_out [OF Suc.prems(3)] by metis
    let ?k = "k\<lparr>wconn := c1, queue := rest, observed := observed k @ [m]\<rparr>"
    have f: "flush_one m rest k = (True, ?k)" using c1(1) by (simp add: flush_one_def)
    have st: "sstep k (?k\<lparr>writer := Flushing i\<rparr>)" using sstep.flush_turn [OF Suc.prems(1) Cons f] by simp
    obtain j where "sstep\<^sup>*\<^sup>* (?k\<lparr>writer := Flushing i\<rparr>) ((flush i (?k\<lparr>writer := Flushing i\<rparr>))\<lparr>writer := Flushing j\<rparr>)"
      using Suc.IH [of "?k\<lparr>writer := Flushing i\<rparr>"] Suc.prems(2) Cons c1(2) by auto
    moreover have "(flush i (?k\<lparr>writer := Flushing i\<rparr>))\<lparr>writer := Flushing j\<rparr> = (flush (Suc i) k)\<lparr>writer := Flushing j\<rparr>"
      using Cons f by (simp add: flush_writer)
    ultimately show ?thesis using st by (metis converse_rtranclp_into_rtranclp)
  qed
qed

lemma goodbye_goes_out:
  assumes "open_conn c"
  shows "\<exists>key. sent (wr (bw (snd (WriteMessage c CloseMessage (FormatClose CloseNormalClosure ''''))))) =
    sent (wr (bw c)) @ frame_bytes (close_frame CloseNormalClosure) key"
proof -
  have "length (FormatClose CloseNormalClosure '''') \<le> maxControlPayload"
    by (simp add: FormatClose_def maxControlPayload_def)
  then obtain b where "conn_write c (close_frame CloseNormalClosure) = (None, c\<lparr>bw := b, drawn := Suc (drawn c), closeSent := True\<rparr>)"
      "sent (wr b) = sent (wr (bw c)) @ frame_bytes (close_frame CloseNormalClosure) (wire_key (isClient c) (keys c (drawn c)))"
    using write_open [OF assms, of "close_frame CloseNormalClosure"] by (auto simp: close_frame_def)
  then show ?thesis by (auto simp: WriteMessage_def close_frame_def)
qed

section \<open>Properties\<close>

text \<open>Property C7. Messages leave a socket in the order they were accepted. However the callers of Send,
  whoever terminates the socket, the writer and the reader interleave, the text messages on the
  wire are the first of those Send accepted, in that order and each once, every message the
  observer was told of is among them, and no more than the queue's capacity are
  waiting.\<close>

theorem messages_leave_in_order:
  assumes "sstep\<^sup>*\<^sup>* (newSink n (newConn conn r wb client ks)) k"
  shows "length (queue k) \<le> capacity k \<and>
    (\<exists>fs. framed (sent conn) fs (wconn k) \<and> prefix (observed k) (texts fs) \<and> prefix (texts fs) (accepted k))"
  using reachable_sink [OF assms] by (auto simp: sink_ok_def carries_def)

text \<open>What was queued before a close goes out before the socket does. Once the socket is
  closed and the writer has seen it, and as long as the connection takes writes, the writer's
  last steps put every message still queued on the wire, in order, then a normal close frame, and
  hang up; everything that was ever accepted has then been sent.\<close>

theorem close_sends_what_was_queued:
  assumes "sstep\<^sup>*\<^sup>* (newSink cap (newConn conn r wb client rnd)) k" "gone k" "writer k = Looping" "open_conn (wconn k)"
  shows "sstep\<^sup>*\<^sup>* k (write_done n k) \<and> writer (write_done n k) = Finished \<and> observed (write_done n k) = accepted k \<and>
    shut (wr (bw (wconn (write_done n k)))) \<and>
    (\<exists>ks. sent (wr (bw (wconn (write_done n k)))) =
       sent (wr (bw (wconn k))) @ on_wire (map text_frame (queue k) @ [close_frame CloseNormalClosure]) ks)"
proof -
  have ok: "accepted k = observed k @ queue k" "length (queue k) \<le> capacity k"
    using reachable_sink [OF assms(1)] assms(3) by (auto simp: sink_ok_def)
  obtain c ks where c: "flush (capacity k) k = k\<lparr>wconn := c, queue := [], observed := observed k @ queue k\<rparr>" "open_conn c"
      "length ks = length (queue k)" "sent (wr (bw c)) = sent (wr (bw (wconn k))) @ on_wire (map text_frame (queue k)) ks"
    using flush_all [OF assms(4) ok(2)] by blast
  define k' where "k' = k\<lparr>writer := Flushing (capacity k)\<rparr>"
  obtain c2 where c2: "flush (capacity k) k' = k'\<lparr>wconn := c2, queue := [], observed := observed k @ queue k\<rparr>"
    using flush_all [of k' "capacity k"] assms(4) ok(2) by (auto simp: k'_def)
  have "sstep k k'" using sstep.see_done [OF assms(3,2)] by (simp add: k'_def)
  moreover obtain j where "sstep\<^sup>*\<^sup>* k' ((flush (capacity k) k')\<lparr>writer := Flushing j\<rparr>)"
    using flush_run [of k' "capacity k"] assms(4) ok(2) by (auto simp: k'_def)
  moreover have "sstep ((flush (capacity k) k')\<lparr>writer := Flushing j\<rparr>) (say_goodbye n ((flush (capacity k) k')\<lparr>writer := Flushing j\<rparr>))"
    by (rule sstep.flush_end) (simp_all add: c2)
  moreover have "say_goodbye n ((flush (capacity k) k')\<lparr>writer := Flushing j\<rparr>) = write_done n k"
    by (simp add: k'_def flush_writer write_done_def say_goodbye_def leave_def)
  ultimately have run: "sstep\<^sup>*\<^sup>* k (write_done n k)"
    by (metis converse_rtranclp_into_rtranclp rtranclp.rtrancl_into_rtrancl)
  obtain key where key: "sent (wr (bw (snd (WriteMessage c CloseMessage (FormatClose CloseNormalClosure ''''))))) =
      sent (wr (bw c)) @ frame_bytes (close_frame CloseNormalClosure) key"
    using goodbye_goes_out [OF c(2)] by blast
  have "sent (wr (bw (wconn (write_done n k)))) =
      sent (wr (bw (wconn k))) @ on_wire (map text_frame (queue k) @ [close_frame CloseNormalClosure]) (ks @ [key])"
    using c(1,3,4) key on_wire_snoc [of ks "map text_frame (queue k)"]
    by (simp add: write_done_def say_goodbye_def leave_def Close_def)
  then show ?thesis using run c(1) ok(1)
    by (auto simp: write_done_def say_goodbye_def leave_def Close_def)
qed

section \<open>Witnesses\<close>

definition idle_sink :: sink_state where
  "idle_sink = newSink 2 (fresh [])"

lemma sample_sink_run: "sstep\<^sup>*\<^sup>* idle_sink (sink_close (enqueue ''hello'' idle_sink))"
proof -
  let ?k = "idle_sink\<lparr>callers := (callers idle_sink)(0 := Some ''hello'')\<rparr>"
  have "sstep idle_sink ?k" by (rule sstep.send_ask) (simp_all add: idle_sink_def newSink_def)
  moreover have "sstep ?k (enqueue ''hello'' (?k\<lparr>callers := (callers ?k)(0 := None)\<rparr>))"
    by (rule sstep.send_queue) (simp_all add: idle_sink_def newSink_def)
  moreover have "?k\<lparr>callers := (callers ?k)(0 := None)\<rparr> = idle_sink" by (simp add: idle_sink_def newSink_def fun_eq_iff)
  ultimately have st: "sstep idle_sink ?k" "sstep ?k (enqueue ''hello'' idle_sink)" by simp_all
  show ?thesis
    by (rule converse_rtranclp_into_rtranclp [where r = sstep, OF st(1)],
        rule converse_rtranclp_into_rtranclp [where r = sstep, OF st(2)], rule r_into_rtranclp, rule sstep.terminate)
qed

text \<open>A message is queued, the socket is closed, the writer flushes and hangs up: one text message is on the wire.\<close>

lemma flush_accepted: "accepted (flush i k) = accepted k"
  by (induction i arbitrary: k) (auto simp: flush_one_def split: list.splits prod.splits bool.splits option.splits)

lemma sample_sink_facts:
  "gone (sink_close (enqueue ''hello'' idle_sink))" "writer (sink_close (enqueue ''hello'' idle_sink)) = Looping"
  "open_conn (wconn (sink_close (enqueue ''hello'' idle_sink)))" "accepted (sink_close (enqueue ''hello'' idle_sink)) = [''hello'']"
  "queue (sink_close (enqueue ''hello'' idle_sink)) = [''hello'']" "sent (wr (bw (wconn (sink_close (enqueue ''hello'' idle_sink))))) = []"
  using fresh_facts(1) [of "[]"] by (simp_all add: sink_close_def enqueue_def idle_sink_def newSink_def) (simp add: fresh_simps)

theorem messages_leave_in_order_witness:
  "\<exists>k fs. sstep\<^sup>*\<^sup>* (newSink 2 (newConn \<lparr>sent = [], room = None, shut = False\<rparr> \<lparr>avail = [], stop = EOF\<rparr> 0 False (\<lambda>_. 0))) k \<and>
    accepted k = [''hello''] \<and> framed [] fs (wconn k) \<and> texts fs = [''hello''] \<and> writer k = Finished"
proof -
  let ?k = "sink_close (enqueue ''hello'' idle_sink)"
  have run: "sstep\<^sup>*\<^sup>* (newSink 2 (newConn \<lparr>sent = [], room = None, shut = False\<rparr> \<lparr>avail = [], stop = EOF\<rparr> 0 False (\<lambda>_. 0))) ?k"
    unfolding fresh_def [symmetric] idle_sink_def [symmetric] by (rule sample_sink_run)
  note d = close_sends_what_was_queued [OF run sample_sink_facts(1-3), of 0]
  then have r: "sstep\<^sup>*\<^sup>* (newSink 2 (newConn \<lparr>sent = [], room = None, shut = False\<rparr> \<lparr>avail = [], stop = EOF\<rparr> 0 False (\<lambda>_. 0))) (write_done 0 ?k)"
    using run by (meson rtranclp_trans)
  have k: "observed (write_done 0 ?k) = [''hello'']" "writer (write_done 0 ?k) = Finished" using d sample_sink_facts(4) by simp_all
  have a: "accepted (write_done 0 ?k) = [''hello'']"
    using sample_sink_facts(4) by (simp add: write_done_def say_goodbye_def leave_def flush_accepted)
  obtain fs where fs: "framed [] fs (wconn (write_done 0 ?k))" "prefix [''hello''] (texts fs)" "prefix (texts fs) [''hello'']"
    using messages_leave_in_order [OF r] a k(1) by auto
  then have "texts fs = [''hello'']" by (simp add: prefix_order.antisym)
  then show ?thesis using r a fs(1) k(2) by blast
qed

theorem close_sends_what_was_queued_witness:
  "\<exists>ks. sent (wr (bw (wconn (write_done 0 (sink_close (enqueue ''hello'' idle_sink)))))) =
    on_wire [text_frame ''hello'', close_frame CloseNormalClosure] ks"
proof -
  let ?k = "sink_close (enqueue ''hello'' idle_sink)"
  have "gone ?k" "writer ?k = Looping" "open_conn (wconn ?k)" "queue ?k = [''hello'']" "sent (wr (bw (wconn ?k))) = []"
    using fresh_facts(1) [of "[]"] by (simp_all add: sink_close_def enqueue_def idle_sink_def newSink_def) (simp add: fresh_simps)
  moreover have run: "sstep\<^sup>*\<^sup>* (newSink 2 (newConn \<lparr>sent = [], room = None, shut = False\<rparr> \<lparr>avail = [], stop = EOF\<rparr> 0 False (\<lambda>_. 0))) ?k"
    unfolding fresh_def [symmetric] idle_sink_def [symmetric] by (rule sample_sink_run)
  ultimately show ?thesis using close_sends_what_was_queued [OF run, of 0] by simp
qed

end
