(* ===== verification/Joaju_Server.thy ===== *)
theory Joaju_Server
  imports Joaju_Registry Joaju_Limiter Joaju_Sink Pusher_Answers
begin

text \<open>
  \<^verbatim>\<open>server.go\<close>: what a server is built from and what is refused, the ids it gives its sockets,
  and the life of a socket, which is registered, opened, read until it ends, and taken off
  everything. The registry, the rate limiter, the writing half and the protocol are the
  theories this one imports; here they are put together the way \<open>read\<close> does it. \<open>server_read\<close> is one
  socket by itself, from its registration to its end: other sockets come in between in
  \<open>Joaju_Registry\<close>, \<open>Pusher_Interleaving\<close> and \<open>Joaju_Socket\<close>. What it says the observer is told is what the
  reading goroutine tells; the writer's \<open>MessageSent\<close>, which may come after the end was announced, is
  recorded by the sink (\<open>observed\<close> of \<open>Joaju_Sink\<close>).
\<close>

section \<open>Building a server\<close>

definition DefaultMaxMessageSize :: int where "DefaultMaxMessageSize = 10 * 1024"
definition DefaultMaxBodySize :: int where "DefaultMaxBodySize = 1024 * 1024"
definition DefaultOutboundQueue :: int where "DefaultOutboundQueue = 64"
definition DefaultMaxConnections :: int where "DefaultMaxConnections = 10000"
definition DefaultWriteTimeout :: int where "DefaultWriteTimeout = 10 * Second"
definition DefaultPingInterval :: int where "DefaultPingInterval = 30 * Second"
definition DefaultPongTimeout :: int where "DefaultPongTimeout = 70 * Second"

lemmas server_defaults = DefaultMaxMessageSize_def DefaultMaxBodySize_def DefaultOutboundQueue_def DefaultMaxConnections_def
  DefaultWriteTimeout_def DefaultPingInterval_def DefaultPongTimeout_def Second_def

text \<open>
  Of the parts that are interfaces only their presence is looked at here. A relay is present
  together with whether the broker carries it and with what starting to serve the fleet
  answered, which is the last thing done.
\<close>

record ServerConfig =
  cfg_AppID :: string
  cfg_AppKey :: string
  cfg_Broker :: bool
  cfg_Connect :: bool
  cfg_Operate :: bool
  cfg_Subscribe :: bool
  cfg_Protocol :: bool
  cfg_Relay :: "(bool \<times> jerr option) option"
  cfg_MetricsTimeout :: int
  cfg_MaxMessageSize :: int
  cfg_MaxBodySize :: int
  cfg_MaxConnections :: int
  cfg_MaxMessagesPerSecond :: int
  cfg_OutboundQueue :: int
  cfg_WriteTimeout :: int
  cfg_PingInterval :: int
  cfg_PongTimeout :: int

record Server =
  appID :: string
  appKey :: string
  operates :: bool
  relayed :: bool
  maxMessageSize :: int
  maxBodySize :: int
  outboundQueue :: int
  writeTimeout :: int
  pingInterval :: int
  pongTimeout :: int
  srv_maxConnections :: int
  maxMessagesPerSecond :: int

definition config_error :: "ServerConfig \<Rightarrow> string option" where
  "config_error c =
    (if cfg_AppID c = [] then Some ''a server needs an app id''
     else if cfg_AppKey c = [] then Some ''a server needs an app key''
     else if \<not> cfg_Broker c then Some ''a server needs a Broker''
     else if \<not> cfg_Connect c then Some ''a server needs a ConnectPolicy''
     else if \<not> cfg_Subscribe c then Some ''a server needs a SubscriptionPolicy''
     else if \<not> cfg_Protocol c then Some ''a server needs a Protocol''
     else if cfg_MaxMessageSize c < 0 then Some ''MaxMessageSize cannot be negative''
     else if cfg_MaxBodySize c < 0 then Some ''MaxBodySize cannot be negative''
     else if cfg_OutboundQueue c < 0 then Some ''OutboundQueue cannot be negative''
     else if cfg_MaxMessagesPerSecond c < 0 then Some ''MaxMessagesPerSecond cannot be negative''
     else if cfg_MetricsTimeout c < 0 then Some ''MetricsTimeout cannot be negative''
     else if cfg_WriteTimeout c < 0 then Some ''WriteTimeout cannot be negative''
     else if cfg_PingInterval c < 0 then Some ''PingInterval cannot be negative''
     else if cfg_PongTimeout c < 0 then Some ''PongTimeout cannot be negative''
     else case cfg_Relay c of
        Some (False, _) \<Rightarrow> Some ''a server with a Relay needs a Broker from RelayedBroker''
      | _ \<Rightarrow> None)"

definition or_default :: "int \<Rightarrow> int \<Rightarrow> int" where
  "or_default v d = (if v = 0 then d else v)"

definition NewServer :: "ServerConfig \<Rightarrow> string + Server" where
  "NewServer c =
    (case config_error c of
       Some err \<Rightarrow> Inl err
     | None \<Rightarrow>
         let s = \<lparr>appID = cfg_AppID c, appKey = cfg_AppKey c, operates = cfg_Operate c, relayed = False,
                  maxMessageSize = or_default (cfg_MaxMessageSize c) DefaultMaxMessageSize,
                  maxBodySize = or_default (cfg_MaxBodySize c) DefaultMaxBodySize,
                  outboundQueue = or_default (cfg_OutboundQueue c) DefaultOutboundQueue,
                  writeTimeout = or_default (cfg_WriteTimeout c) DefaultWriteTimeout,
                  pingInterval = or_default (cfg_PingInterval c) DefaultPingInterval,
                  pongTimeout = or_default (cfg_PongTimeout c) DefaultPongTimeout,
                  srv_maxConnections = or_default (cfg_MaxConnections c) DefaultMaxConnections,
                  maxMessagesPerSecond = cfg_MaxMessagesPerSecond c\<rparr>
         in if pongTimeout s \<le> pingInterval s then Inl ''PongTimeout has to be longer than PingInterval''
            else case cfg_Relay c of
               None \<Rightarrow> Inr s
             | Some (_, Some err) \<Rightarrow> Inl ''this server cannot answer the fleet through its relay''
             | Some (_, None) \<Rightarrow> Inr (s\<lparr>relayed := True\<rparr>))"

section \<open>Socket ids\<close>

text \<open>Eight random bytes, or the failure to draw them.\<close>

definition newSocketID :: "byte list option \<Rightarrow> string + SocketID" where
  "newSocketID rnd =
    (case rnd of
       None \<Rightarrow> Inl ''could not mint a socket id''
     | Some b \<Rightarrow> Inr (nat_string (be_nat (take 4 b)) @ ''.'' @ nat_string (be_nat (take 4 (drop 4 b)))))"

section \<open>The life of a socket\<close>

definition tell :: "('g, 's) pusher_env \<Rightarrow> 'g Connection \<Rightarrow> Refusal \<Rightarrow> 'g pusher \<Rightarrow> jerr option \<times> 'g pusher" where
  "tell E conn r p =
    (let message = Refuse r in
     if message = [] then (None, p)
     else let (e, w) = conn_Send (snk E) (out p) conn message in (e, p\<lparr>out := w\<rparr>))"

text \<open>A message that was read: metered, then looked at, then handed to the protocol.\<close>

definition serve_frame :: "('g, 's) pusher_env \<Rightarrow> 'g Connection \<Rightarrow> int \<Rightarrow> int \<times> byte list \<Rightarrow> rateLimiter \<times> 'g pusher \<Rightarrow>
    rateLimiter \<times> 'g pusher" where
  "serve_frame E conn now = (\<lambda>(kind, message) (l, p).
    (case allow now l of
       (False, l1) \<Rightarrow> (l1, snd (tell E conn RefusalRateLimited p))
     | (True, l1) \<Rightarrow>
         if kind \<noteq> TextMessage then (l1, snd (tell E conn RefusalUnreadable p))
         else (l1, snd (Message E conn (string_of_bytes message) p))))"

text \<open>
  The loop of \<open>read\<close>: \<open>clock n\<close> is the time at its \<open>n\<close>-th message. It ends with the error the
  connection ends with, which every connection does, since a message takes bytes of the
  stream; a deadline that passes is the stream's error.
\<close>

function read_messages :: "('g, 's) pusher_env \<Rightarrow> 'g Connection \<Rightarrow> (nat \<Rightarrow> int) \<Rightarrow> nat \<Rightarrow> Conn \<Rightarrow> rateLimiter \<times> 'g pusher \<Rightarrow>
    observation list \<Rightarrow> ws_err \<times> (rateLimiter \<times> 'g pusher) \<times> observation list" where
  "read_messages E conn clock n socket lp obs =
    (case ReadMessage socket of
       (Inl err, _) \<Rightarrow> (err, lp, obs)
     | (Inr (kind, message), socket1) \<Rightarrow>
         read_messages E conn clock (Suc n) socket1 (serve_frame E conn (clock n) (kind, message) lp)
           (obs @ [ObsMessageReceived (conn_id conn) (string_of_bytes message)]))"
  by pat_completeness auto
termination
  by (relation "measure (\<lambda>(E, conn, clock, n, socket, lp, obs). length (avail (br socket)))")
    (auto dest!: ReadMessage_took [OF sym])

declare read_messages.simps [simp del]

text \<open>The reason a read error gives, and whether it is put on record.\<close>

definition read_reason :: "ws_err \<Rightarrow> string \<times> bool" where
  "read_reason err =
    (if err = NetTimeout then (ReasonTimeout, True)
     else if IsUnexpectedClose err [CloseNormalClosure, CloseGoingAway] then (ReasonError, True)
     else if IsProtocolError err then (ReasonError, True)
     else (ReasonClient, case err of CloseError _ _ \<Rightarrow> True | _ \<Rightarrow> False))"

text \<open>
  \<open>read\<close>, from the handler to the deferred end: the registry, the protocol, and what the observer
  is told. The sink of the socket is terminated whichever way it ends. \<open>deadline\<close> is what moving
  the read deadline answers when a pong arrives.
\<close>

definition end_socket :: "('g, 's) pusher_env \<Rightarrow> 'g Connection \<Rightarrow> string \<Rightarrow> 'g registry \<times> 'g pusher \<times> observation list \<Rightarrow>
    'g registry \<times> 'g pusher \<times> observation list" where
  "end_socket E conn fallback = (\<lambda>(s, p, obs).
    (let (reason, s1) = unregister (hes E) conn fallback s
     in (s1\<lparr>ended := ended s1 @ [conn_id conn]\<rparr>, Pusher_Protocol.Close E conn p,
         obs @ [ObsConnectionClosed (conn_id conn) (conn_Tenant (hes E) conn) reason])))"

definition server_read :: "('g, 's) pusher_env \<Rightarrow> Server \<Rightarrow> (nat \<Rightarrow> int) \<Rightarrow> int \<Rightarrow> (string \<Rightarrow> ws_err option) \<Rightarrow> 'g Connection \<Rightarrow> Conn \<Rightarrow>
    'g registry \<times> 'g pusher \<times> observation list \<Rightarrow> 'g registry \<times> 'g pusher \<times> observation list" where
  "server_read E srv clock opened deadline conn socket = (\<lambda>(s, p, obs).
    (let H = hes E; sid = conn_id conn; t = conn_Tenant H conn in
     case register H conn s of
       (Some e, s1) \<Rightarrow>
         if e = errServerClosed then
           (s1\<lparr>ended := ended s1 @ [sid]\<rparr>, p, obs @ [ObsConnectionClosed sid t ReasonShutdown])
         else
           (s1\<lparr>ended := ended s1 @ [sid]\<rparr>, snd (tell E conn RefusalOverQuota p), obs @ [ObsConnectionClosed sid t ReasonLimit])
     | (None, s1) \<Rightarrow>
         let obs1 = obs @ [ObsConnectionOpened sid t] in
         (case Open E conn p of
            (Some err, p1) \<Rightarrow> end_socket E conn ReasonError (s1, p1, obs1)
          | (None, p1) \<Rightarrow>
              let socket1 = SetPongHandler deadline (SetReadLimit (maxMessageSize srv) socket);
                  l = newRateLimiter (maxMessagesPerSecond srv) opened;
                  (err, (_, p2), obs2) = read_messages E conn clock 0 socket1 (l, p1) obs1;
                  (reason, known) = read_reason err;
                  s2 = (if known then recordReadCloseReason sid reason s1 else s1)
              in end_socket E conn reason (s2, p2, obs2))))"

section \<open>Socket ids are as different as the bytes they are made from\<close>

lemma hex_digit_inj:
  assumes "a < 10" "b < 10" "hex_digit a = hex_digit b"
  shows "a = b"
proof -
  have "a < 16" "b < 16" using assms(1,2) by linarith+
  then have "Some a = hex_value (hex_digit a)" "hex_value (hex_digit b) = Some b"
    using hex_digit_value [OF \<open>a < 16\<close>] hex_digit_value [OF \<open>b < 16\<close>] by argo+
  with assms(3) have "Some a = Some b" by argo
  then show ?thesis by (rule option.inject [THEN iffD1])
qed

lemma nat_string_inj: "nat_string m = nat_string n \<Longrightarrow> m = n"
proof (induction m arbitrary: n rule: less_induct)
  case (less m)
  have split: "nat_string k = (if k < 10 then [] else nat_string (k div 10)) @ [hex_digit (k mod 10)]" for k
    by (simp add: nat_string.simps [of k])
  have "hex_digit (m mod 10) = hex_digit (n mod 10)"
    and front: "(if m < 10 then [] else nat_string (m div 10)) = (if n < 10 then [] else nat_string (n div 10))"
    using less.prems split [of m] split [of n] by simp_all
  then have mod: "m mod 10 = n mod 10" using hex_digit_inj [of "m mod 10" "n mod 10"] by simp
  have ne: "nat_string k \<noteq> []" for k using nat_string_digits [of k] by simp
  show ?case
  proof (cases "m < 10 \<or> n < 10")
    case True
    then have "m < 10" "n < 10" using front ne by (metis, metis)
    then show ?thesis using mod by simp
  next
    case False
    then have "m div 10 = n div 10" using less.IH [of "m div 10" "n div 10"] front by simp
    then show ?thesis using mod by (metis div_mult_mod_eq)
  qed
qed

lemma no_dot: "CHR ''.'' \<notin> set (nat_string n)"
proof -
  have "\<not> is_digit (CHR ''.'')" by (simp add: is_digit_def code_def of_char_def)
  then show ?thesis using nat_string_digits [of n] by (auto simp: list_all_iff)
qed

lemma separated: "x \<notin> set xs \<Longrightarrow> x \<notin> set ys \<Longrightarrow> xs @ x # us = ys @ x # vs \<Longrightarrow> xs = ys \<and> us = vs"
proof (induction xs arbitrary: ys)
  case (Cons a xs)
  then show ?case by (cases ys) auto
qed (auto simp: append_eq_Cons_conv Cons_eq_append_conv)

lemma socket_id_inj:
  assumes "length a = 8" "length b = 8" "newSocketID (Some a) = newSocketID (Some b)"
  shows "a = b"
proof -
  have "nat_string (be_nat (take 4 a)) @ CHR ''.'' # nat_string (be_nat (take 4 (drop 4 a))) =
      nat_string (be_nat (take 4 b)) @ CHR ''.'' # nat_string (be_nat (take 4 (drop 4 b)))"
    using assms(3) by (simp add: newSocketID_def)
  from separated [OF no_dot no_dot this] have "be_nat (take 4 a) = be_nat (take 4 b)" "be_nat (take 4 (drop 4 a)) = be_nat (take 4 (drop 4 b))"
    using nat_string_inj by blast+
  then have "take 4 a = take 4 b" "take 4 (drop 4 a) = take 4 (drop 4 b)"
    using be_bytes_nat [of "take 4 a"] be_bytes_nat [of "take 4 b"] be_bytes_nat [of "take 4 (drop 4 a)"]
      be_bytes_nat [of "take 4 (drop 4 b)"] assms(1,2) by simp_all
  moreover have "a = take 4 a @ take 4 (drop 4 a)" "b = take 4 b @ take 4 (drop 4 b)" using assms(1,2) by simp_all
  ultimately show ?thesis by metis
qed

section \<open>Reading\<close>

lemma SetReadLimit_simps [simp]: "readLimit (SetReadLimit n c) = n" "conn_ok (SetReadLimit n c) = conn_ok c"
  "readErr (SetReadLimit n c) = readErr c"
  by (simp_all add: SetReadLimit_def conn_ok_def)

lemma SetPongHandler_simps [simp]: "readLimit (SetPongHandler h c) = readLimit c" "conn_ok (SetPongHandler h c) = conn_ok c"
  by (simp_all add: SetPongHandler_def conn_ok_def)

lemma failRead_limit: "readLimit (snd (failRead c e)) = readLimit c"
  by (simp add: failRead_def Let_def)

lemma control_limit: "readLimit (snd (control c f)) = readLimit c"
  by (auto simp: control_def Let_def failRead_case failRead_limit split: option.splits sum.splits)

lemma read_turn_limit: "readLimit (snd (read_turn c m)) = readLimit c"
proof -
  have "readLimit (snd (data_frame c m f)) = readLimit c" for c f
    by (auto simp: data_frame_def refuse_read_eq Let_def failRead_limit split: prod.splits)
  moreover have "readLimit (snd (control (c\<lparr>br := r\<rparr>) f)) = readLimit c" for c r f using control_limit [of "c\<lparr>br := r\<rparr>" f] by simp
  ultimately have "readLimit (snd (next_frame c m fl)) = readLimit c" for c fl
    by (auto simp: next_frame_def refuse_read_eq Let_def failRead_limit split_def split: sum.splits option.splits)
  then show ?thesis by (simp add: read_turn_def refuse_read_eq Let_def failRead_limit)
qed

lemma read_loop_limit: "readLimit (snd (read_loop c m)) = readLimit c"
proof (induction c m rule: read_loop.induct)
  case (1 c m)
  obtain t c1 where turn: "read_turn c m = (t, c1)" by force
  then have "readLimit c1 = readLimit c" using read_turn_limit [of c m] by simp
  then show ?case using 1 turn by (cases t) (auto simp: read_loop.simps [of c m])
qed

lemma ReadMessage_limit: "readLimit (snd (ReadMessage c)) = readLimit c"
  using read_loop_limit by (auto simp: ReadMessage_def split: option.splits)

lemma read_messages_fold:
  assumes "read_messages E conn clock n socket lp obs = (err, lp', obs')" "conn_ok socket"
  shows "\<exists>ms. lp' = foldl (\<lambda>lp (t, m). serve_frame E conn t m lp) lp (zip (map clock [n..<n + length ms]) ms) \<and>
    obs' = obs @ map (\<lambda>(k, m). ObsMessageReceived (conn_id conn) (string_of_bytes m)) ms \<and>
    (\<forall>(k, m) \<in> set ms. acceptable (readLimit socket) k m)"
  using assms
proof (induction E conn clock n socket lp obs rule: read_messages.induct)
  case (1 E conn clock n socket lp obs)
  show ?case
  proof (cases "ReadMessage socket")
    case (Pair res socket1)
    show ?thesis
    proof (cases res)
      case (Inl e)
      then show ?thesis using 1(2) Pair by (intro exI [of _ "[]"]) (simp add: read_messages.simps [of E conn clock n socket])
    next
      case (Inr km)
      obtain k m where km: "km = (k, m)" by force
      have r: "ReadMessage socket = (Inr (k, m), socket1)" using Pair Inr km by simp
      note a = ReadMessage_acceptable [OF 1(3) r]
      have lim: "readLimit socket1 = readLimit socket" using ReadMessage_limit [of socket] r by simp
      obtain ms where ms: "lp' = foldl (\<lambda>lp (t, m). serve_frame E conn t m lp) (serve_frame E conn (clock n) (k, m) lp)
            (zip (map clock [Suc n..<Suc n + length ms]) ms)"
          "obs' = (obs @ [ObsMessageReceived (conn_id conn) (string_of_bytes m)]) @
            map (\<lambda>(k, m). ObsMessageReceived (conn_id conn) (string_of_bytes m)) ms"
          "\<forall>(k, m) \<in> set ms. acceptable (readLimit socket) k m"
        using 1(1) [OF r [symmetric] refl refl] 1(2) a lim r by (auto simp: read_messages.simps [of E conn clock n socket])
      have "[n..<n + length ((k, m) # ms)] = n # [Suc n..<Suc n + length ms]"
        using upt_conv_Cons [of n "n + Suc (length ms)"] by simp
      then show ?thesis using ms a by (intro exI [of _ "(k, m) # ms"]) simp
    qed
  qed
qed

lemma tell_run: "(pstep E)\<^sup>*\<^sup>* (p, t) (snd (tell E conn r p), t)"
  by (rule speaks_to) (simp add: tell_def conn_Send_def Let_def)

lemma serve_frame_run:
  assumes "hesape_documented (hes E)" "sys_ok E (p, t)" "t (conn_id conn) = Idle" "conn_id conn \<noteq> []"
  shows "(pstep E)\<^sup>*\<^sup>* (p, t) (snd (serve_frame E conn now km (l, p)), t)"
  using tell_run [of E p t conn] Message_run [where t = t, OF assms(1-3) refl assms(4)]
  by (cases km) (auto simp: serve_frame_def split: prod.splits bool.splits)

lemma serve_frames_run:
  assumes "hesape_documented (hes E)" "sys_ok E (p, t)" "t (conn_id conn) = Idle" "conn_id conn \<noteq> []"
    "foldl (\<lambda>lp (t, m). serve_frame E conn t m lp) (l, p) tms = (l', p')"
  shows "(pstep E)\<^sup>*\<^sup>* (p, t) (p', t) \<and> sys_ok E (p', t)"
  using assms
proof (induction tms arbitrary: l p)
  case (Cons tm tms)
  obtain now km where tm: "tm = (now, km)" by (cases tm)
  obtain l1 p1 where s: "serve_frame E conn now km (l, p) = (l1, p1)" by force
  have run: "(pstep E)\<^sup>*\<^sup>* (p, t) (p1, t)" using serve_frame_run [OF Cons.prems(1-4), of now km l] s by simp
  have ok: "sys_ok E (p1, t)" using sockets.kept [OF run] Cons.prems(1,2) by blast
  have "(pstep E)\<^sup>*\<^sup>* (p1, t) (p', t) \<and> sys_ok E (p', t)"
    using Cons.IH [OF Cons.prems(1) ok Cons.prems(3,4), of l1] Cons.prems(5) tm s by simp
  then show ?case using run by (meson rtranclp_trans)
qed simp


text \<open>Registering and unregistering a socket nobody else has the id of leaves the registry as it was.\<close>

lemma unregister_undoes:
  assumes "register H conn s = (None, s1)" "map_of (conns s) (conn_id conn) = None" "conns s2 = conns s1" "perTenant s2 = perTenant s1"
    "unregister H conn fb s2 = (reason, s3)"
  shows "conns s3 = conns s" "perTenant s3 = perTenant s" "ended s3 = ended s2" "closeReasons s3 = (closeReasons s2)(conn_id conn := [])"
    "reason = (if closeReasons s2 (conn_id conn) \<noteq> [] then closeReasons s2 (conn_id conn) else fb)"
proof -
  have s1: "conns s1 = conns s @ [(conn_id conn, conn)]"
    "perTenant s1 = (perTenant s)(conn_Tenant H conn := perTenant s (conn_Tenant H conn) + 1)"
    using register_None(2) [OF assms(1)] by (simp_all add: update_new [OF assms(2)])
  have del: "AList.delete (conn_id conn) (conns s @ [(conn_id conn, conn)]) = conns s"
    using assms(2) by (simp add: AList.delete_eq map_of_eq_None_iff image_iff filter_id_conv split_def)
  have held: "map_of (conns s2) (conn_id conn) \<noteq> None" "perTenant s2 (conn_Tenant H conn) > 0" using s1 assms(3,4) by simp_all
  note u = unregister_held [OF assms(5) held]
  have "(perTenant s2)(conn_Tenant H conn := perTenant s2 (conn_Tenant H conn) - 1) = perTenant s" using s1(2) assms(4) by simp
  then show "conns s3 = conns s" "perTenant s3 = perTenant s" "ended s3 = ended s2" "closeReasons s3 = (closeReasons s2)(conn_id conn := [])"
    "reason = (if closeReasons s2 (conn_id conn) \<noteq> [] then closeReasons s2 (conn_id conn) else fb)"
    using u s1(1) assms(3) del by simp_all
qed

text \<open>The last thing a socket does, in a state its protocol can be in.\<close>

lemma Close_clears:
  assumes "hesape_documented (hes E)" "sys_ok E (p, t)" "t (conn_id conn) = Idle"
  shows "(pstep E)\<^sup>*\<^sup>* (p, t) (Pusher_Protocol.Close E conn p, t)" "seats (Pusher_Protocol.Close E conn p) (conn_id conn) = []"
    "r < length (heap (brk (Pusher_Protocol.Close E conn p))) \<Longrightarrow> conn_id conn \<notin> ids (heap (brk (Pusher_Protocol.Close E conn p)) ! r)"
proof -
  show run: "(pstep E)\<^sup>*\<^sup>* (p, t) (Pusher_Protocol.Close E conn p, t)" using Close_run [where t = t, OF assms(3) refl] .
  show s: "seats (Pusher_Protocol.Close E conn p) (conn_id conn) = []"
    by (simp add: Pusher_Protocol.Close_def forget_def unseat_all_seats)
  have "sys_ok E (Pusher_Protocol.Close E conn p, t)" using sockets.kept [OF run] assms(1,2) by blast
  then show "r < length (heap (brk (Pusher_Protocol.Close E conn p))) \<Longrightarrow> conn_id conn \<notin> ids (heap (brk (Pusher_Protocol.Close E conn p)) ! r)"
    using unrecorded_is_nowhere assms(3) s by blast
qed

text \<open>What \<open>read\<close> does with an admitted socket before its deferred end.\<close>

lemma server_read_cases:
  assumes "hesape_documented (hes E)" "sys_ok E (p, t)" "t (conn_id conn) = Idle" "conn_id conn \<noteq> []" "conn_ok socket"
    and "register (hes E) conn s = (None, s1)" "closeReasons s (conn_id conn) = []"
  obtains fb s2 p2 ms where "server_read E srv clock opened deadline conn socket (s, p, obs) =
      end_socket E conn fb (s2, p2, obs @ ObsConnectionOpened (conn_id conn) (conn_Tenant (hes E) conn) # ms)"
    "(pstep E)\<^sup>*\<^sup>* (p, t) (p2, t)" "sys_ok E (p2, t)" "conns s2 = conns s1" "perTenant s2 = perTenant s1" "ended s2 = ended s1"
    "fb \<in> {ReasonClient, ReasonTimeout, ReasonError}" "closeReasons s2 (conn_id conn) \<in> {[], fb}"
    "\<And>i. i \<noteq> conn_id conn \<Longrightarrow> closeReasons s2 i = closeReasons s i"
    "\<forall>x \<in> set ms. \<exists>m. x = ObsMessageReceived (conn_id conn) m"
proof -
  have cr: "closeReasons s1 = closeReasons s" using register_None(2) [OF assms(6)] by simp
  obtain e p1 where op: "Open E conn p = (e, p1)" by force
  have run1: "(pstep E)\<^sup>*\<^sup>* (p, t) (p1, t)" using write_frame_run [of E p t conn] op by (metis Open_def snd_conv)
  have ok1: "sys_ok E (p1, t)" using sockets.kept [OF run1] assms(1,2) by blast
  show ?thesis
  proof (cases e)
    case (Some err)
    show ?thesis by (rule that [of ReasonError s1 p1 "[]"])
      (use Some op assms(6,7) run1 ok1 cr in \<open>simp_all add: server_read_def Let_def\<close>)
  next
    case None
    let ?socket = "SetPongHandler deadline (SetReadLimit (maxMessageSize srv) socket)"
    let ?obs = "obs @ [ObsConnectionOpened (conn_id conn) (conn_Tenant (hes E) conn)]"
    obtain err l2 p2 obs2 where rd: "read_messages E conn clock 0 ?socket (newRateLimiter (maxMessagesPerSecond srv) opened, p1) ?obs
        = (err, (l2, p2), obs2)" by (metis prod_cases3 prod.collapse)
    obtain reason known where rr: "read_reason err = (reason, known)" by force
    obtain ms where ms: "(l2, p2) = foldl (\<lambda>lp (t, m). serve_frame E conn t m lp) (newRateLimiter (maxMessagesPerSecond srv) opened, p1)
        (zip (map clock [0..<0 + length ms]) ms)"
      "obs2 = ?obs @ map (\<lambda>(k, m). ObsMessageReceived (conn_id conn) (string_of_bytes m)) ms"
      using read_messages_fold [OF rd] assms(5) by auto
    have run2: "(pstep E)\<^sup>*\<^sup>* (p1, t) (p2, t) \<and> sys_ok E (p2, t)"
      by (rule serve_frames_run [OF assms(1) ok1 assms(3,4) ms(1) [symmetric]])
    have rs: "reason \<in> {ReasonClient, ReasonTimeout, ReasonError}" using rr by (auto simp: read_reason_def split: if_splits)
    show ?thesis
      by (rule that [of reason "if known then recordReadCloseReason (conn_id conn) reason s1 else s1" p2
            "map (\<lambda>(k, m). ObsMessageReceived (conn_id conn) (string_of_bytes m)) ms"])
        (use None op assms(6,7) rd rr ms(2) run1 run2 rs cr in
          \<open>auto simp: server_read_def Let_def recordReadCloseReason_def intro: rtranclp_trans\<close>)
  qed
qed

section \<open>Properties\<close>

text \<open>Every server that is built is one that can serve. A configuration with a part missing, a
  negative setting, a relay its broker does not carry or a pong timeout not longer than the ping
  interval is refused, and a server that is built has positive sizes and timeouts, a
  connection limit that is not zero, and every setting that was given.\<close>

theorem server_is_well_formed:
  assumes "NewServer c = Inr s"
  shows "appID s \<noteq> [] \<and> appKey s \<noteq> [] \<and> 0 < maxMessageSize s \<and> 0 < maxBodySize s \<and> 0 < outboundQueue s \<and> 0 < writeTimeout s \<and>
    0 < pingInterval s \<and> pingInterval s < pongTimeout s \<and> srv_maxConnections s \<noteq> 0 \<and> 0 \<le> maxMessagesPerSecond s \<and>
    (relayed s \<longleftrightarrow> cfg_Relay c = Some (True, None)) \<and>
    (cfg_MaxMessageSize c \<noteq> 0 \<longrightarrow> maxMessageSize s = cfg_MaxMessageSize c) \<and>
    (cfg_MaxConnections c \<noteq> 0 \<longrightarrow> srv_maxConnections s = cfg_MaxConnections c) \<and>
    (cfg_OutboundQueue c \<noteq> 0 \<longrightarrow> outboundQueue s = cfg_OutboundQueue c)"
proof -
  have "config_error c = None" using assms by (simp add: NewServer_def split: option.splits)
  then have nn: "cfg_AppID c \<noteq> []" "cfg_AppKey c \<noteq> []" "0 \<le> cfg_MaxMessageSize c" "0 \<le> cfg_MaxBodySize c" "0 \<le> cfg_OutboundQueue c"
      "0 \<le> cfg_MaxMessagesPerSecond c" "0 \<le> cfg_WriteTimeout c" "0 \<le> cfg_PingInterval c" "0 \<le> cfg_PongTimeout c"
      "\<And>x. cfg_Relay c \<noteq> Some (False, x)"
    by (auto simp: config_error_def split: if_splits option.splits)
  have pos: "0 \<le> v \<Longrightarrow> 0 < d \<Longrightarrow> 0 < or_default v d" "v \<noteq> 0 \<Longrightarrow> or_default v d = v" "0 < d \<Longrightarrow> or_default v d \<noteq> 0" for v d
    by (auto simp: or_default_def)
  show ?thesis using assms \<open>config_error c = None\<close> nn
    by (auto simp: NewServer_def Let_def pos server_defaults split: if_splits option.splits)
qed

text \<open>What reaches the protocol was metered, is text, and is sound. The messages a socket sends
  are answered in the order they arrive, each by the rate limiter's refusal, by the refusal of
  what is not text, or by the protocol; every one of them is within the server's message size, and
  those that are text are UTF-8. The observer hears of each.\<close>

theorem messages_are_served_in_order:
  assumes "conn_ok socket"
    and "read_messages E conn clock 0 (SetPongHandler h (SetReadLimit n socket)) (l, p) [] = (err, (l', p'), obs)"
  shows "\<exists>ms. (l', p') = foldl (\<lambda>lp (t, m). serve_frame E conn t m lp) (l, p) (zip (map clock [0..<length ms]) ms) \<and>
    obs = map (\<lambda>(k, m). ObsMessageReceived (conn_id conn) (string_of_bytes m)) ms \<and>
    (\<forall>(k, m) \<in> set ms. k \<in> {TextMessage, BinaryMessage} \<and> (n > 0 \<longrightarrow> int (length m) \<le> n) \<and> (k = TextMessage \<longrightarrow> ValidUTF8 m))"
  using read_messages_fold [OF assms(2)] assms(1) by (simp add: acceptable_def)

text \<open>Property C12. A socket that ends leaves nothing behind. A new socket is served from its registration to its
  end, whether it is refused, fails to open, or is read until the stream ends; afterwards, and
  whatever it sent, its tenant has its slot back, it is on no channel and has no seat, its sink is
  closed, and the observer was told of its end exactly once, after everything else about it.\<close>

theorem socket_leaves_nothing_behind:
  assumes "hesape_documented (hes E)" "Pusher_Interleaving.fresh s0" "(pstep E)\<^sup>*\<^sup>* s0 (p, t)" "t (conn_id conn) = Idle"
    and "conn_id conn \<noteq> []" "seats p (conn_id conn) = []" "conn_ok socket"
    and "map_of (conns s) (conn_id conn) = None" "closeReasons s (conn_id conn) = []"
    and "server_read E srv clock opened deadline conn socket (s, p, obs) = (s', p', obs')"
  shows "conns s' = conns s \<and> perTenant s' = perTenant s \<and> closeReasons s' = closeReasons s \<and> ended s' = ended s @ [conn_id conn] \<and>
    (pstep E)\<^sup>*\<^sup>* s0 (p', t) \<and> seats p' (conn_id conn) = [] \<and>
    (\<forall>r < length (heap (brk p')). conn_id conn \<notin> ids (heap (brk p') ! r)) \<and>
    (\<exists>ms reason. obs' = obs @ ms @ [ObsConnectionClosed (conn_id conn) (conn_Tenant (hes E) conn) reason] \<and> ends (conn_id conn) ms = [])"
proof -
  let ?H = "hes E" and ?sid = "conn_id conn"
  have ok: "sys_ok E (p, t)" using sockets.reachable_inv [of E s0 "(p, t)"] assms(1-3) by blast
  obtain e s1 where reg: "register ?H conn s = (e, s1)" by force
  show ?thesis
  proof (cases e)
    case (Some err)
    then have s1: "s1 = s" using register_Some [of ?H conn s err s1] reg by blast
    have here: "?sid \<notin> ids (heap (brk p) ! r)" if "r < length (heap (brk p))" for r
      by (rule unrecorded_is_nowhere [OF ok assms(4,6) that])
    have told: "brk (snd (tell E conn RefusalOverQuota p)) = brk p" "seats (snd (tell E conn RefusalOverQuota p)) = seats p"
      by (simp_all add: tell_def conn_Send_def Let_def)
    have run: "(pstep E)\<^sup>*\<^sup>* s0 (snd (tell E conn RefusalOverQuota p), t)"
      using assms(3) tell_run [of E p t conn RefusalOverQuota] by (rule rtranclp_trans)
    show ?thesis using assms(3,6,10) reg Some s1 here told run
      by (auto simp: server_read_def Let_def split: if_splits)
  next
    case None
    obtain fb s2 p2 ms where r: "server_read E srv clock opened deadline conn socket (s, p, obs) =
        end_socket E conn fb (s2, p2, obs @ ObsConnectionOpened ?sid (conn_Tenant ?H conn) # ms)"
      "(pstep E)\<^sup>*\<^sup>* (p, t) (p2, t)" "sys_ok E (p2, t)" "conns s2 = conns s1" "perTenant s2 = perTenant s1" "ended s2 = ended s1"
      "\<And>i. i \<noteq> ?sid \<Longrightarrow> closeReasons s2 i = closeReasons s i" "\<forall>x \<in> set ms. \<exists>m. x = ObsMessageReceived ?sid m"
      using server_read_cases [OF assms(1) ok assms(4,5,7) reg [unfolded None] assms(9), of srv clock opened deadline obs] by metis
    obtain reason s3 where u: "unregister ?H conn fb s2 = (reason, s3)" by force
    note un = unregister_undoes [OF reg [unfolded None] assms(8) r(4,5) u]
    have out: "s' = s3\<lparr>ended := ended s3 @ [?sid]\<rparr>" "p' = Pusher_Protocol.Close E conn p2"
      "obs' = obs @ (ObsConnectionOpened ?sid (conn_Tenant ?H conn) # ms) @ [ObsConnectionClosed ?sid (conn_Tenant ?H conn) reason]"
      using assms(10) r(1) u by (auto simp: end_socket_def)
    have "(pstep E)\<^sup>*\<^sup>* s0 (p', t)" using assms(3) r(2) Close_clears(1) [OF assms(1) r(3) assms(4)] out(2) by (metis rtranclp_trans)
    moreover have "ends ?sid ms = []" using r(8) by (induction ms) (auto simp: ends_def)
    then have "ends ?sid (ObsConnectionOpened ?sid (conn_Tenant ?H conn) # ms) = []" by (simp add: ends_def)
    moreover have "closeReasons s' = closeReasons s" using un(4) r(7) assms(9) out(1) by auto
    ultimately show ?thesis
      using un(1-3) r(6) out register_None(2) [OF reg [unfolded None]] Close_clears(2,3) [OF assms(1) r(3) assms(4)] by auto
  qed
qed

section \<open>Witnesses\<close>

definition sample_config :: ServerConfig where
  "sample_config = \<lparr>cfg_AppID = ''app'', cfg_AppKey = ''key'', cfg_Broker = True, cfg_Connect = True, cfg_Operate = False,
    cfg_Subscribe = True, cfg_Protocol = True, cfg_Relay = None, cfg_MetricsTimeout = 0, cfg_MaxMessageSize = 0, cfg_MaxBodySize = 0,
    cfg_MaxConnections = 2, cfg_MaxMessagesPerSecond = 0, cfg_OutboundQueue = 0, cfg_WriteTimeout = 0, cfg_PingInterval = 0,
    cfg_PongTimeout = 0\<rparr>"

theorem server_is_well_formed_witness: "\<exists>s. NewServer sample_config = Inr s \<and> pingInterval s < pongTimeout s \<and> srv_maxConnections s = 2"
proof -
  obtain s where s: "NewServer sample_config = Inr s"
    by (simp add: NewServer_def config_error_def sample_config_def or_default_def server_defaults Let_def)
  show ?thesis using server_is_well_formed [OF s] s by (simp add: sample_config_def)
qed

text \<open>A socket whose peer sends one empty text message and goes.\<close>

definition sample_socket :: Conn where
  "sample_socket = Ws_Conn.fresh [0x81, 0x80, 0, 0, 0, 0]"

theorem messages_are_served_in_order_witness:
  "\<exists>err l p obs. read_messages sample_env ana (\<lambda>_. 0) 0 (SetPongHandler (\<lambda>_. None) (SetReadLimit 100 sample_socket))
      (newRateLimiter 2 0, sample_pusher) [] = (err, (l, p), obs) \<and>
    (\<forall>x \<in> set obs. \<exists>m. x = ObsMessageReceived ''1.1'' m \<and> length m \<le> 100)"
proof -
  obtain err l p obs where rd: "read_messages sample_env ana (\<lambda>_. 0) 0 (SetPongHandler (\<lambda>_. None) (SetReadLimit 100 sample_socket))
      (newRateLimiter 2 0, sample_pusher) [] = (err, (l, p), obs)" by (metis prod_cases3 prod.collapse)
  have "conn_ok sample_socket" by (simp add: sample_socket_def fresh_facts)
  from messages_are_served_in_order [OF this rd] have "\<forall>x \<in> set obs. \<exists>m. x = ObsMessageReceived ''1.1'' m \<and> length m \<le> 100"
    by (fastforce simp: news_facts)
  then show ?thesis using rd by blast
qed

theorem socket_leaves_nothing_behind_witness:
  "\<exists>s' p' obs' ms reason. server_read sample_env (\<lparr>appID = ''app'', appKey = ''key'', operates = False, relayed = False, maxMessageSize = 100,
      maxBodySize = 100, outboundQueue = 2, writeTimeout = 1, pingInterval = 1, pongTimeout = 2, srv_maxConnections = 2,
      maxMessagesPerSecond = 2\<rparr>) (\<lambda>_. 0) 0 (\<lambda>_. None) ana sample_socket (new_registry 2, sample_pusher, []) = (s', p', obs') \<and>
    perTenant s' ''acme'' = 0 \<and> seats p' ''1.1'' = [] \<and> obs' = ms @ [ObsConnectionClosed ''1.1'' ''acme'' reason]"
proof -
  let ?srv = "\<lparr>appID = ''app'', appKey = ''key'', operates = False, relayed = False, maxMessageSize = 100,
      maxBodySize = 100, outboundQueue = 2, writeTimeout = 1, pingInterval = 1, pongTimeout = 2, srv_maxConnections = 2,
      maxMessagesPerSecond = 2\<rparr>"
  obtain s' p' obs' where rd: "server_read sample_env ?srv (\<lambda>_. 0) 0 (\<lambda>_. None) ana sample_socket (new_registry 2, sample_pusher, []) =
      (s', p', obs')" by (metis prod_cases3)
  have "conn_ok sample_socket" by (simp add: sample_socket_def fresh_facts)
  moreover have "seats sample_pusher (conn_id ana) = []" "map_of (conns (new_registry 2)) (conn_id ana) = None"
      "closeReasons (new_registry 2) (conn_id ana) = []" "conn_id ana \<noteq> []" "conn_Tenant (hes sample_env) ana = ''acme''"
    by (simp_all add: sample_pusher_def new_registry_def news_facts sample_env_def ana_def sample_facts)
  ultimately show ?thesis
    using socket_leaves_nothing_behind [OF sample_fresh(2,1) rtranclp.rtrancl_refl _ _ _ _ _ _ rd] rd
    by (simp add: news_facts new_registry_def) blast
qed

end
