(* ===== verification/Go_Header.thy ===== *)
theory Go_Header
  imports Go_Net "HOL-Library.AList"
begin

text \<open>
  What the handshake uses of \<open>net/http\<close>: header names and the map they are keys of, and the head of
  a response read from a connection, line by line, with what \<open>net/http\<close> then makes of the headers that
  say how a body is framed. The body itself is not read here, and nobody reads one: a dialer takes the
  connection over behind the head.
\<close>

section \<open>Names\<close>

definition header_byte :: "char \<Rightarrow> bool" where
  "header_byte c \<longleftrightarrow> is_digit c \<or> (0x41 \<le> code c \<and> code c \<le> 0x5a) \<or> (0x61 \<le> code c \<and> code c \<le> 0x7a) \<or>
    c \<in> set ''!#$%&*+-.^_`|~'' \<or> c = CHR 0x27"

definition upper_char :: "char \<Rightarrow> char" where
  "upper_char c = (if 0x61 \<le> code c \<and> code c \<le> 0x7a then char_of (code c - 32) else c)"

definition lower_char :: "char \<Rightarrow> char" where
  "lower_char c = (if 0x41 \<le> code c \<and> code c \<le> 0x5a then char_of (code c + 32) else c)"

fun canonical :: "bool \<Rightarrow> string \<Rightarrow> string" where
  "canonical up [] = []"
| "canonical up (c # s) = (if up then upper_char c else lower_char c) # canonical (c = CHR ''-'') s"

definition CanonicalHeaderKey :: "string \<Rightarrow> string" where
  "CanonicalHeaderKey s = (if list_all header_byte s then canonical True s else s)"

section \<open>Headers\<close>

text \<open>A header is a map from names to the values each was given with, in order.\<close>

type_synonym Header = "(string \<times> string list) list"

definition header_Values :: "Header \<Rightarrow> string \<Rightarrow> string list" where
  "header_Values h name = (case map_of h (CanonicalHeaderKey name) of None \<Rightarrow> [] | Some vs \<Rightarrow> vs)"

definition header_Get :: "Header \<Rightarrow> string \<Rightarrow> string" where
  "header_Get h name = (case header_Values h name of [] \<Rightarrow> [] | v # _ \<Rightarrow> v)"

definition header_Set :: "string \<Rightarrow> string \<Rightarrow> Header \<Rightarrow> Header" where
  "header_Set name value h = AList.update (CanonicalHeaderKey name) [value] h"

definition header_Add :: "string \<Rightarrow> string \<Rightarrow> Header \<Rightarrow> Header" where
  "header_Add key value h = AList.update key (case map_of h key of None \<Rightarrow> [value] | Some vs \<Rightarrow> vs @ [value]) h"

section \<open>The head of a response\<close>

text \<open>One line, up to a newline, without it and without a carriage return before it.\<close>

definition read_line :: "string \<Rightarrow> (string \<times> string) option" where
  "read_line s =
    (if CHR 0x0A \<notin> set s then None
     else
       let l = takeWhile (\<lambda>c. c \<noteq> CHR 0x0A) s; r = drop (length l + 1) s in
       Some (if l \<noteq> [] \<and> last l = CHR 0x0D then butlast l else l, r))"

definition is_blank :: "char \<Rightarrow> bool" where
  "is_blank c \<longleftrightarrow> c = CHR '' '' \<or> c = CHR 0x09"

definition trim_blank :: "string \<Rightarrow> string" where
  "trim_blank s = rev (dropWhile is_blank (rev (dropWhile is_blank s)))"

definition header_value_byte :: "char \<Rightarrow> bool" where
  "header_value_byte c \<longleftrightarrow> c = CHR 0x09 \<or> (0x20 \<le> code c \<and> code c \<noteq> 0x7f)"

text \<open>A name with a space before the colon is taken as it is; any other byte a name may not hold is an error.\<close>

definition header_key :: "string \<Rightarrow> string option" where
  "header_key k =
    (if k = [] \<or> \<not> list_all (\<lambda>c. header_byte c \<or> c = CHR '' '') k then None else Some (CanonicalHeaderKey k))"

lemma read_line_rest: "read_line s = Some (l, r) \<Longrightarrow> length r < length s"
  by (cases s) (auto simp: read_line_def Let_def split: if_splits)

text \<open>A line that begins with a blank continues the one before it.\<close>

function continued :: "string \<Rightarrow> string \<Rightarrow> (string \<times> string) option" where
  "continued l s =
    (if s \<noteq> [] \<and> is_blank (hd s) then
       (case read_line s of None \<Rightarrow> None | Some (l1, r) \<Rightarrow> continued (l @ '' '' @ trim_blank l1) r)
     else Some (l, s))"
  by pat_completeness auto
termination
  by (relation "measure (length \<circ> snd)") (auto dest: read_line_rest)

declare continued.simps [simp del]

lemma continued_rest: "continued l s = Some (l', r) \<Longrightarrow> length r \<le> length s"
proof (induction l s rule: continued.induct)
  case (1 l s)
  show ?case
  proof (cases "s \<noteq> [] \<and> is_blank (hd s)")
    case True
    obtain l1 r1 where r1: "read_line s = Some (l1, r1)" "continued (l @ '' '' @ trim_blank l1) r1 = Some (l', r)"
      using "1.prems" True by (auto simp: continued.simps [of l s] split: option.splits)
    then show ?thesis using "1.IH" [OF True r1(1)] read_line_rest [OF r1(1)] by simp
  next
    case False
    then show ?thesis using "1.prems" by (auto simp: continued.simps [of l s] split: if_splits)
  qed
qed

function header_lines :: "Header \<Rightarrow> string \<Rightarrow> (Header \<times> string) option" where
  "header_lines h s =
    (case read_line s of
       None \<Rightarrow> None
     | Some (l0, r0) \<Rightarrow>
         if l0 = [] then Some (h, r0)
         else case continued (trim_blank l0) r0 of
           None \<Rightarrow> None
         | Some (l, r) \<Rightarrow>
             if l = [] then Some (h, r)
             else if CHR '':'' \<notin> set l then None
             else
               let k = takeWhile (\<lambda>c. c \<noteq> CHR '':'') l; v = drop (length k + 1) l in
               case header_key k of
                 None \<Rightarrow> None
               | Some key \<Rightarrow>
                   if \<not> list_all header_value_byte v then None
                   else header_lines (header_Add key (dropWhile is_blank v) h) r)"
  by pat_completeness auto
termination
  by (relation "measure (length \<circ> snd)") (auto dest!: read_line_rest continued_rest)

declare header_lines.simps [simp del]

definition is_version :: "string \<Rightarrow> bool" where
  "is_version p \<longleftrightarrow> length p = 8 \<and> take 5 p = ''HTTP/'' \<and> is_digit (p ! 5) \<and> p ! 6 = CHR ''.'' \<and> is_digit (p ! 7)"

record http_response =
  re_StatusCode :: int
  re_Header :: Header

text \<open>A response that says it is not to be cached in the old way says so in the new way too.\<close>

definition fixPragmaCacheControl :: "Header \<Rightarrow> Header" where
  "fixPragmaCacheControl h =
    (case map_of h ''Pragma'' of
       Some (v # _) \<Rightarrow>
         if v = ''no-cache'' \<and> map_of h ''Cache-Control'' = None then AList.update ''Cache-Control'' [''no-cache''] h else h
     | _ \<Rightarrow> h)"

text \<open>
  How the body is framed. The transfer encoding is taken out of the header, and only the one that
  chunks is known; before version 1.1 it is not looked at. A value holds no line break, so the space
  that may surround it is blanks.
\<close>

definition parseTransferEncoding :: "bool \<Rightarrow> Header \<Rightarrow> (bool \<times> Header) option" where
  "parseTransferEncoding at_least_1_1 h =
    (case map_of h ''Transfer-Encoding'' of
       None \<Rightarrow> Some (False, h)
     | Some raw \<Rightarrow>
         let h1 = AList.delete ''Transfer-Encoding'' h in
         if \<not> at_least_1_1 then Some (False, h1)
         else case raw of
           [one] \<Rightarrow> if map lower_char one = ''chunked'' then Some (True, h1) else None
         | _ \<Rightarrow> None)"

definition parseContentLength :: "string \<Rightarrow> nat option" where
  "parseContentLength v =
    (let cl = trim_blank v in
     if cl = [] then None
     else case digits_value 0 cl of None \<Rightarrow> None | Some n \<Rightarrow> if n < 2 ^ 63 then Some n else None)"

text \<open>The length of a response to a GET; a status without a body has none, whatever the header says.\<close>

definition fixLength :: "int \<Rightarrow> bool \<Rightarrow> Header \<Rightarrow> Header option" where
  "fixLength status chunked h =
    (case map_of h ''Content-Length'' of
       None \<Rightarrow> Some h
     | Some [] \<Rightarrow> Some h
     | Some (first # others) \<Rightarrow>
         if \<exists>v \<in> set others. trim_blank v \<noteq> trim_blank first then None
         else
           let h1 = (if others = [] then h else AList.update ''Content-Length'' [trim_blank first] h) in
           if parseContentLength first = None then None
           else if status div 100 = 1 \<or> status = 204 \<or> status = 304 then Some h1
           else if chunked then Some (AList.delete ''Content-Length'' h1)
           else Some h1)"

definition trailer_keys :: "string \<Rightarrow> string list" where
  "trailer_keys v = map CanonicalHeaderKey (filter (\<lambda>k. k \<noteq> []) (map trim_blank (split_on (CHR '','') v)))"

definition fixTrailer :: "bool \<Rightarrow> Header \<Rightarrow> Header option" where
  "fixTrailer chunked h =
    (case map_of h ''Trailer'' of
       None \<Rightarrow> Some h
     | Some vs \<Rightarrow>
         if \<not> chunked then Some h
         else if \<exists>v \<in> set vs. \<exists>k \<in> set (trailer_keys v). k \<in> {''Transfer-Encoding'', ''Trailer'', ''Content-Length''} then None
         else Some (AList.delete ''Trailer'' h))"

definition readTransfer :: "bool \<Rightarrow> int \<Rightarrow> Header \<Rightarrow> Header option" where
  "readTransfer at_least_1_1 status h =
    (case parseTransferEncoding at_least_1_1 h of
       None \<Rightarrow> None
     | Some (chunked, h1) \<Rightarrow> Option.bind (fixLength status chunked h1) (fixTrailer chunked))"

text \<open>Version 0.0 stands for none and is read as 1.1.\<close>

definition version_at_least_1_1 :: "string \<Rightarrow> bool" where
  "version_at_least_1_1 p =
    (let major = code (p ! 5) - 0x30; minor = code (p ! 7) - 0x30 in
     (major = 0 \<and> minor = 0) \<or> major > 1 \<or> (major = 1 \<and> minor \<ge> 1))"

definition ReadResponse :: "string \<Rightarrow> (http_response \<times> string) option" where
  "ReadResponse s =
    (case read_line s of
       None \<Rightarrow> None
     | Some (l, r) \<Rightarrow>
         if CHR '' '' \<notin> set l then None
         else
           let proto = takeWhile (\<lambda>c. c \<noteq> CHR '' '') l;
               status = dropWhile (\<lambda>c. c = CHR '' '') (drop (length proto + 1) l);
               digits = takeWhile (\<lambda>c. c \<noteq> CHR '' '') status
           in if length digits \<noteq> 3 then None
              else case ParseInt digits of
                None \<Rightarrow> None
              | Some n \<Rightarrow>
                  if n < 0 \<or> \<not> is_version proto then None
                  else if r \<noteq> [] \<and> is_blank (hd r) then None
                  else case header_lines [] r of
                    None \<Rightarrow> None
                  | Some (h, r1) \<Rightarrow>
                      map_option (\<lambda>h1. (\<lparr>re_StatusCode = n, re_Header = h1\<rparr>, r1))
                        (readTransfer (version_at_least_1_1 proto) n (fixPragmaCacheControl h)))"

end
