(* ===== verification/Ws_Handshake.thy ===== *)
theory Ws_Handshake
  imports Ws_Conn Go_Header Go_Crypto
begin

text \<open>
  \<^verbatim>\<open>ws/handshake.go\<close>, \<^verbatim>\<open>ws/server.go\<close> and \<^verbatim>\<open>ws/client.go\<close>: how an HTTP request becomes a connection, on
  both ends. The server checks the request, takes the connection over and writes the answer by hand;
  the client builds the request, reads the answer and checks that it answers the key it sent. A
  request is its method, its host and its header, as \<open>net/http\<close> hands it over; what \<open>net/url\<close> reads
  out of an address is an argument. The network is what it does: the connection that was taken over
  or dialed, and the errors setting its deadlines gives.
\<close>

section \<open>Keys and headers\<close>

definition acceptGUID :: string where
  "acceptGUID = ''258EAFA5-E914-47DA-95CA-C5AB0DC85B11''"

definition acceptKey :: "string \<Rightarrow> string" where
  "acceptKey key = b64_encode (Sha1 (bytes_of_string (key @ acceptGUID)))"

text \<open>The sixteen bytes are the random source's; \<open>None\<close> when it fails.\<close>

definition challengeKey :: "byte list option \<Rightarrow> string option" where
  "challengeKey random = map_option b64_encode random"

definition headerContainsToken :: "Header \<Rightarrow> string \<Rightarrow> string \<Rightarrow> bool" where
  "headerContainsToken h name token =
    list_ex (\<lambda>value. list_ex (\<lambda>one. EqualFold (TrimSpace one) token) (split_on (CHR '','') value)) (header_Values h name)"

record url =
  url_Scheme :: string
  url_Host :: string

record handshake_request =
  hq_Method :: string
  hq_Header :: Header
  hq_Host :: string

text \<open>A Host header is ASCII, since \<open>net/http\<close> serves no other.\<close>

definition sameOrigin :: "(string \<Rightarrow> url option) \<Rightarrow> handshake_request \<Rightarrow> bool" where
  "sameOrigin parse r =
    (let origin = header_Get (hq_Header r) ''Origin'' in
     if origin = [] then True
     else case parse origin of None \<Rightarrow> False | Some u \<Rightarrow> EqualFold (url_Host u) (hq_Host r))"

section \<open>The server's side\<close>

record Upgrader =
  up_HandshakeTimeout :: int
  up_ReadBufferSize :: int
  up_WriteBufferSize :: int

text \<open>Taking the connection over: it cannot be, it fails, or here it is, with so many bytes already read from it.\<close>

datatype hijack = NotSupported | HijackFailed | Hijacked net_conn reader nat

text \<open>The answers: refused over HTTP with a status, a sentence and headers; dropped without one; switched.\<close>

datatype upgrade_outcome = Refused Header int string | Dropped string net_conn | Switched Conn

definition crlf :: string where "crlf = [CHR 0x0D, CHR 0x0A]"

definition own_header :: "string \<Rightarrow> bool" where
  "own_header name \<longleftrightarrow> CanonicalHeaderKey name \<in> {''Upgrade'', ''Connection'', ''Sec-Websocket-Accept'', ''Sec-Websocket-Extensions''}"

definition one_line :: "string \<Rightarrow> string" where
  "one_line v = filter (\<lambda>c. c \<noteq> CHR 0x0D \<and> c \<noteq> CHR 0x0A) v"

definition extra_lines :: "Header \<Rightarrow> string" where
  "extra_lines extra = concat (map (\<lambda>(name, values). if own_header name then []
     else concat (map (\<lambda>v. name @ '': '' @ one_line v @ crlf) values)) extra)"

definition accept_text :: "string \<Rightarrow> Header \<Rightarrow> string" where
  "accept_text key extra = ''HTTP/1.1 101 Switching Protocols'' @ crlf @ ''Upgrade: websocket'' @ crlf @ ''Connection: Upgrade'' @ crlf @
     ''Sec-WebSocket-Accept: '' @ acceptKey key @ crlf @ extra_lines extra @ crlf"

definition writeAccept :: "net_conn \<Rightarrow> string \<Rightarrow> Header \<Rightarrow> ws_err option \<times> net_conn" where
  "writeAccept conn key extra = (case net_write conn (bytes_of_string (accept_text key extra)) of (_, e, c) \<Rightarrow> (e, c))"

definition ws_refuse :: "int \<Rightarrow> string \<Rightarrow> upgrade_outcome" where
  "ws_refuse status reason = Refused [] status reason"

text \<open>The deadlines' errors are those of setting and of clearing one; the keys are those a client would mask with.\<close>

definition Upgrade :: "Upgrader \<Rightarrow> (string \<Rightarrow> url option) \<Rightarrow> hijack \<Rightarrow> ws_err option \<Rightarrow> ws_err option \<Rightarrow> (nat \<Rightarrow> 32 word) \<Rightarrow>
    handshake_request \<Rightarrow> Header \<Rightarrow> upgrade_outcome" where
  "Upgrade u parse hj setting clearing ks r responseHeader =
    (if hq_Method r \<noteq> ''GET'' then ws_refuse 405 ''the handshake must be a GET''
     else if \<not> headerContainsToken (hq_Header r) ''Connection'' ''Upgrade'' then ws_refuse 400 ''the Connection header must list Upgrade''
     else if \<not> EqualFold (header_Get (hq_Header r) ''Upgrade'') ''websocket'' then ws_refuse 400 ''the Upgrade header must be websocket''
     else if header_Get (hq_Header r) ''Sec-Websocket-Version'' \<noteq> ''13'' then
       Refused [(''Sec-Websocket-Version'', [''13''])] 426 ''only websocket version 13 is supported''
     else if \<not> sameOrigin parse r then ws_refuse 403 ''the Origin header names another host''
     else
       let key = header_Get (hq_Header r) ''Sec-Websocket-Key'' in
       if key = [] then ws_refuse 400 ''the Sec-WebSocket-Key header is missing''
       else if (case b64_decode key of None \<Rightarrow> True | Some bs \<Rightarrow> length bs \<noteq> 16) then
         ws_refuse 400 ''the Sec-WebSocket-Key header must be base64 for 16 bytes''
       else case hj of
         NotSupported \<Rightarrow> ws_refuse 500 ''this connection cannot be upgraded''
       | HijackFailed \<Rightarrow> ws_refuse 500 ''the connection could not be taken over''
       | Hijacked conn rd buffered \<Rightarrow>
           if buffered > 0 then Dropped ''the client sent data before the handshake finished'' (net_close conn)
           else if up_HandshakeTimeout u > 0 \<and> setting \<noteq> None then Dropped ''deadline'' (net_close conn)
           else (case writeAccept conn key responseHeader of
             (Some e, c) \<Rightarrow> Dropped ''write'' (net_close c)
           | (None, c) \<Rightarrow>
               if up_HandshakeTimeout u > 0 \<and> clearing \<noteq> None then Dropped ''deadline'' (net_close c)
               else Switched (newConn c rd (up_WriteBufferSize u) False ks)))"

section \<open>The client's side\<close>

record Dialer =
  di_HandshakeTimeout :: int
  di_ReadBufferSize :: int
  di_WriteBufferSize :: int

definition DefaultDialer :: Dialer where
  "DefaultDialer = \<lparr>di_HandshakeTimeout = 45 * 1000000000, di_ReadBufferSize = 0, di_WriteBufferSize = 0\<rparr>"

definition dial_header :: "string \<Rightarrow> Header \<Rightarrow> Header" where
  "dial_header key requestHeader =
    header_Set ''Sec-WebSocket-Version'' ''13'' (header_Set ''Sec-WebSocket-Key'' key (header_Set ''Connection'' ''Upgrade''
      (header_Set ''Upgrade'' ''websocket''
        (fold (\<lambda>(name, values) h. if CanonicalHeaderKey name \<in> {''Upgrade'', ''Connection'', ''Sec-Websocket-Key'', ''Sec-Websocket-Version''} then h
           else AList.update (CanonicalHeaderKey name) values h) requestHeader []))))"

text \<open>\<open>URL.Port\<close>: the digits after the last colon of the host, if that is what follows it.\<close>

definition validOptionalPort :: "string \<Rightarrow> bool" where
  "validOptionalPort p = (case p of [] \<Rightarrow> True | c # ds \<Rightarrow> c = CHR '':'' \<and> list_all is_digit ds)"

definition url_Port :: "url \<Rightarrow> string" where
  "url_Port u =
    (case last_index (CHR '':'') (url_Host u) of
       None \<Rightarrow> []
     | Some i \<Rightarrow> if validOptionalPort (drop i (url_Host u)) then drop (i + 1) (url_Host u) else [])"

definition JoinHostPort :: "string \<Rightarrow> string \<Rightarrow> string" where
  "JoinHostPort host port = (if CHR '':'' \<in> set host then ''['' @ host @ '']:'' @ port else host @ '':'' @ port)"

text \<open>\<open>connect\<close>: the address that is dialed, over TLS or not.\<close>

definition connect_address :: "url \<Rightarrow> bool \<Rightarrow> string" where
  "connect_address u secure =
    (if url_Port u = [] then JoinHostPort (url_Host u) (if secure then ''443'' else ''80'') else url_Host u)"

definition verifyAccept :: "http_response \<Rightarrow> string \<Rightarrow> string option" where
  "verifyAccept response key =
    (if \<not> EqualFold (header_Get (re_Header response) ''Upgrade'') ''websocket'' then Some ''the response does not upgrade to websocket''
     else if \<not> headerContainsToken (re_Header response) ''Connection'' ''Upgrade'' then Some ''the response does not carry Connection: Upgrade''
     else if header_Get (re_Header response) ''Sec-Websocket-Accept'' \<noteq> acceptKey key then
       Some ''the accept header does not answer the key that was sent''
     else if header_Get (re_Header response) ''Sec-Websocket-Extensions'' \<noteq> [] then
       Some ''the server claims an extension that was not requested''
     else None)"

text \<open>
  What a dial comes to: an error, with the connection closed when there was one, an answer that is
  not the one that was asked for, or a connection. The network answers an address with a connection
  and with what the peer sends once it has the request, which is nothing when writing it fails.
\<close>

datatype dial_outcome = DialError string | BadHandshake http_response | Dialed Conn http_response

definition Dial :: "Dialer \<Rightarrow> (string \<Rightarrow> url option) \<Rightarrow> (string \<Rightarrow> bool \<Rightarrow> (net_conn \<times> (handshake_request \<Rightarrow> reader option)) option) \<Rightarrow>
    ws_err option \<Rightarrow> ws_err option \<Rightarrow> (nat \<Rightarrow> 32 word) \<Rightarrow> byte list option \<Rightarrow> string \<Rightarrow> Header \<Rightarrow> dial_outcome" where
  "Dial d parse net setting clearing ks random rawURL requestHeader =
    (case parse rawURL of
       None \<Rightarrow> DialError ''url''
     | Some u \<Rightarrow>
         if url_Scheme u \<noteq> ''ws'' \<and> url_Scheme u \<noteq> ''wss'' then DialError ''not a websocket scheme''
         else
           let secure = (url_Scheme u = ''wss'') in
           case challengeKey random of
             None \<Rightarrow> DialError ''random''
           | Some key \<Rightarrow>
               let request = \<lparr>hq_Method = ''GET'', hq_Header = dial_header key requestHeader, hq_Host = url_Host u\<rparr> in
               case net (connect_address u secure) secure of
                 None \<Rightarrow> DialError ''connect''
               | Some (conn, peer) \<Rightarrow>
                   if di_HandshakeTimeout d > 0 \<and> setting \<noteq> None then DialError ''deadline''
                   else case peer request of None \<Rightarrow> DialError ''write''
                   | Some rd \<Rightarrow>
                     case ReadResponse (string_of_bytes (avail rd)) of
                     None \<Rightarrow> DialError ''response''
                   | Some (response, rest) \<Rightarrow>
                       if re_StatusCode response \<noteq> 101 then BadHandshake response
                       else if verifyAccept response key \<noteq> None then BadHandshake response
                       else if di_HandshakeTimeout d > 0 \<and> clearing \<noteq> None then DialError ''deadline''
                       else Dialed (newConn conn (rd\<lparr>avail := bytes_of_string rest\<rparr>) (di_WriteBufferSize d) True ks) response)"

section \<open>Reading back a head\<close>

lemma read_line_crlf: "CHR 0x0A \<notin> set l \<Longrightarrow> read_line (l @ crlf @ s) = Some (l, s)"
proof -
  assume l: "CHR 0x0A \<notin> set l"
  have "takeWhile (\<lambda>c. c \<noteq> CHR 0x0A) (l @ crlf @ s) = l @ [CHR 0x0D]"
    using l by (subst takeWhile_append2) (auto simp: crlf_def)
  then show "read_line (l @ crlf @ s) = Some (l, s)"
    unfolding read_line_def by (simp add: crlf_def Let_def)
qed

lemma header_byte_facts:
  "header_byte c \<Longrightarrow> \<not> is_blank c" "header_byte c \<Longrightarrow> c \<noteq> CHR '':''" "header_byte c \<Longrightarrow> c \<noteq> CHR 0x0A" "header_byte c \<Longrightarrow> c \<noteq> CHR 0x0D"
  by (auto simp: header_byte_def is_blank_def is_digit_def code_def of_char_def)

lemma trim_right_from: "\<not> is_blank c \<Longrightarrow> rev (dropWhile is_blank (rev (a @ c # w))) = a @ c # rev (dropWhile is_blank (rev w))"
  by (simp add: dropWhile_append)

lemma dropWhile_trim: "dropWhile is_blank (rev (dropWhile is_blank (rev w))) = trim_blank w"
proof -
  have d: "dropWhile is_blank (u @ v) = (if \<forall>c \<in> set u. is_blank c then dropWhile is_blank v else dropWhile is_blank u @ v)" for u v
    by (simp add: dropWhile_append split: if_splits)
  let ?t = "takeWhile is_blank w" and ?r = "dropWhile is_blank w"
  show ?thesis
  proof (cases "?r = []")
    case True
    then have "\<forall>c \<in> set w. is_blank c" by (simp add: dropWhile_eq_Nil_conv)
    then have e: "dropWhile is_blank (rev w) = []" by (simp only: dropWhile_eq_Nil_conv set_rev)
    show ?thesis unfolding trim_blank_def True e by simp
  next
    case False
    then obtain c v where cv: "?r = c # v" by (cases ?r) auto
    then have r: "?r = c # v" "\<not> is_blank c" using hd_dropWhile [OF False] by simp_all
    have w: "w = ?t @ c # v" using takeWhile_dropWhile_id [of is_blank w] unfolding cv by simp
    have "rev (dropWhile is_blank (rev w)) = ?t @ c # rev (dropWhile is_blank (rev v))"
      by (subst w) (rule trim_right_from [OF r(2)])
    moreover have "rev (dropWhile is_blank (rev (c # v))) = c # rev (dropWhile is_blank (rev v))"
      using trim_right_from [OF r(2), of "[]" v] by simp
    moreover have "dropWhile is_blank (?t @ c # u) = c # u" for u
      using r(2) by (subst dropWhile_append2) (auto dest: set_takeWhileD)
    ultimately show ?thesis by (simp add: trim_blank_def r(1))
  qed
qed

text \<open>One header line of a name and a value is read as that name, in its canonical form, and the value without the blanks around it.\<close>

lemma header_line_step:
  assumes "name \<noteq> []" "list_all header_byte name" "list_all header_value_byte v" "CHR 0x0A \<notin> set v"
    and "s = [] \<or> \<not> is_blank (hd s)"
  shows "header_lines h (name @ '': '' @ v @ crlf @ s) = header_lines (header_Add (CanonicalHeaderKey name) (trim_blank v) h) s"
proof -
  define t where "t = rev (dropWhile is_blank (rev (CHR '' '' # v)))"
  have n: "\<forall>c \<in> set name. header_byte c" using assms(2) by (simp add: list_all_iff)
  then have lf: "CHR 0x0A \<notin> set (name @ '': '' @ v)" using assms(4) header_byte_facts(3) by auto
  have rl: "read_line (name @ '': '' @ v @ crlf @ s) = Some (name @ '': '' @ v, s)"
    using read_line_crlf [OF lf, of s] by simp
  have "\<not> is_blank (hd name)" using n assms(1) header_byte_facts(1) by (cases name) auto
  then have "dropWhile is_blank (name @ x) = name @ x" for x using assms(1) by (cases name) auto
  then have tb: "trim_blank (name @ '': '' @ v) = name @ CHR '':'' # t"
    using trim_right_from [of "CHR '':''" name "CHR '' '' # v"] by (simp add: trim_blank_def is_blank_def t_def)
  have ct: "continued (name @ CHR '':'' # t) s = Some (name @ CHR '':'' # t, s)"
    using assms(5) by (auto simp: continued.simps)
  have tw: "takeWhile (\<lambda>c. c \<noteq> CHR '':'') (name @ CHR '':'' # t) = name"
    using n header_byte_facts(2) by (subst takeWhile_append2) auto
  have key: "header_key name = Some (CanonicalHeaderKey name)"
    using assms(1) n by (simp add: header_key_def list_all_iff)
  have "set t \<subseteq> insert (CHR '' '') (set v)" unfolding t_def by (auto dest: set_dropWhileD)
  moreover have sp: "header_value_byte (CHR '' '')" by (simp add: header_value_byte_def code_def of_char_def)
  ultimately have val: "list_all header_value_byte t"
    using assms(3) sp by (auto simp: list_all_iff)
  have "dropWhile is_blank t = trim_blank (CHR '' '' # v)" unfolding t_def by (rule dropWhile_trim)
  then have tv: "dropWhile is_blank t = trim_blank v" by (simp add: trim_blank_def is_blank_def)
  show ?thesis
    by (subst header_lines.simps) (simp add: rl [simplified] tb [simplified] ct tw key val tv Let_def)
qed

text \<open>
  The headers a server may add: names that are names and do not frame a body, which an answer that
  switches protocols has none of, and values of bytes a value may hold, line breaks aside.
\<close>

definition writable :: "Header \<Rightarrow> bool" where
  "writable extra \<longleftrightarrow> (\<forall>(name, values) \<in> set extra. name \<noteq> [] \<and> list_all header_byte name \<and>
    CanonicalHeaderKey name \<notin> {''Transfer-Encoding'', ''Content-Length''} \<and>
    (\<forall>v \<in> set values. list_all (\<lambda>c. header_value_byte c \<or> c = CHR 0x0D \<or> c = CHR 0x0A) v))"

text \<open>The lines that are written of them, each a name and a value.\<close>

definition added :: "Header \<Rightarrow> (string \<times> string) list" where
  "added extra = concat (map (\<lambda>(name, values). if own_header name then [] else map (\<lambda>v. (name, one_line v)) values) extra)"

lemma extra_lines_added: "extra_lines extra = concat (map (\<lambda>(name, v). name @ '': '' @ v @ crlf) (added extra))"
  by (induction extra) (auto simp: extra_lines_def added_def comp_def split_def)

lemma added_ok:
  assumes "writable extra" "(name, v) \<in> set (added extra)"
  shows "name \<noteq> []" "list_all header_byte name" "list_all header_value_byte v" "CHR 0x0A \<notin> set v" "\<not> own_header name"
    "CanonicalHeaderKey name \<notin> {''Transfer-Encoding'', ''Content-Length''}"
  using assms by (auto simp: writable_def added_def one_line_def list_all_iff split: if_splits) fastforce+

lemma header_lines_all:
  assumes "\<forall>(name, v) \<in> set ls. name \<noteq> [] \<and> list_all header_byte name \<and> list_all header_value_byte v \<and> CHR 0x0A \<notin> set v"
  shows "header_lines h (concat (map (\<lambda>(name, v). name @ '': '' @ v @ crlf) ls) @ crlf @ rest) =
    Some (fold (\<lambda>(name, v). header_Add (CanonicalHeaderKey name) (trim_blank v)) ls h, rest)"
  using assms
proof (induction ls arbitrary: h)
  case Nil
  have "read_line (crlf @ rest) = Some ([], rest)" using read_line_crlf [of "[]" rest] by simp
  then show ?case by (simp add: header_lines.simps)
next
  case (Cons l ls)
  obtain name v where l: "l = (name, v)" by force
  let ?s = "concat (map (\<lambda>(name, v). name @ '': '' @ v @ crlf) ls) @ crlf @ rest"
  have "?s = [] \<or> \<not> is_blank (hd ?s)"
  proof (cases ls)
    case Nil
    then show ?thesis by (simp add: crlf_def is_blank_def)
  next
    case (Cons m ms)
    then obtain c cs where "fst m = c # cs" "header_byte c" using \<open>\<forall>(name, v) \<in> set (l # ls). _\<close> by (cases "fst m") (auto simp: split_def)
    then show ?thesis using Cons header_byte_facts(1) by (simp add: split_def)
  qed
  then show ?case using header_line_step [of name v ?s h] Cons.IH Cons.prems l by simp
qed

lemma fold_add:
  "header_Values (fold (\<lambda>(name, v). header_Add (CanonicalHeaderKey name) (trim_blank v)) ls h) k =
    header_Values h k @ map (trim_blank \<circ> snd) (filter (\<lambda>(name, v). CanonicalHeaderKey name = CanonicalHeaderKey k) ls)"
proof (induction ls arbitrary: h)
  case (Cons l ls)
  obtain name v where l: "l = (name, v)" by force
  have "header_Values (header_Add (CanonicalHeaderKey name) x h) k = header_Values h k @ (if CanonicalHeaderKey name = CanonicalHeaderKey k then [x] else [])" for x
    by (auto simp: header_Values_def header_Add_def update_conv' split: option.splits)
  then show ?case using Cons.IH l by simp
qed simp

lemma accept_key_text: "list_all header_value_byte (acceptKey key)" "CHR 0x0A \<notin> set (acceptKey key)" "trim_blank (acceptKey key) = acceptKey key"
proof -
  have "\<forall>c \<in> set b64_alphabet. header_value_byte c \<and> c \<noteq> CHR 0x0A \<and> \<not> is_blank c"
    by (simp add: b64_alphabet_def header_value_byte_def is_blank_def code_def of_char_def)
  moreover have "header_value_byte (CHR ''='') \<and> \<not> is_blank (CHR ''='')" by (simp add: header_value_byte_def is_blank_def code_def of_char_def)
  ultimately have a: "\<forall>c \<in> set (acceptKey key). header_value_byte c \<and> c \<noteq> CHR 0x0A \<and> \<not> is_blank c"
    using b64_encode_alphabet unfolding acceptKey_def by fastforce
  then show "list_all header_value_byte (acceptKey key)" "CHR 0x0A \<notin> set (acceptKey key)" by (auto simp: list_all_iff)
  have "dropWhile is_blank w = w" if "\<forall>c \<in> set w. \<not> is_blank c" for w using that by (cases w) auto
  from this [of "acceptKey key"] this [of "rev (acceptKey key)"] a
  have "dropWhile is_blank (acceptKey key) = acceptKey key" "dropWhile is_blank (rev (acceptKey key)) = rev (acceptKey key)" by simp_all
  then show "trim_blank (acceptKey key) = acceptKey key" unfolding trim_blank_def by simp
qed

text \<open>The head as one list of lines.\<close>

definition accept_lines :: "string \<Rightarrow> Header \<Rightarrow> (string \<times> string) list" where
  "accept_lines key extra = [(''Upgrade'', ''websocket''), (''Connection'', ''Upgrade''), (''Sec-WebSocket-Accept'', acceptKey key)] @ added extra"

lemma own_names:
  "CanonicalHeaderKey ''Upgrade'' = ''Upgrade''" "CanonicalHeaderKey ''Connection'' = ''Connection''" "CanonicalHeaderKey ''Origin'' = ''Origin''"
  "CanonicalHeaderKey ''Sec-WebSocket-Accept'' = ''Sec-Websocket-Accept''" "CanonicalHeaderKey ''Sec-Websocket-Accept'' = ''Sec-Websocket-Accept''"
  "CanonicalHeaderKey ''Sec-Websocket-Extensions'' = ''Sec-Websocket-Extensions''"
  "CanonicalHeaderKey ''Sec-WebSocket-Key'' = ''Sec-Websocket-Key''" "CanonicalHeaderKey ''Sec-Websocket-Key'' = ''Sec-Websocket-Key''"
  "CanonicalHeaderKey ''Sec-WebSocket-Version'' = ''Sec-Websocket-Version''" "CanonicalHeaderKey ''Sec-Websocket-Version'' = ''Sec-Websocket-Version''"
  "CanonicalHeaderKey ''Transfer-Encoding'' = ''Transfer-Encoding''" "CanonicalHeaderKey ''Content-Length'' = ''Content-Length''"
  "CanonicalHeaderKey ''Pragma'' = ''Pragma''" "CanonicalHeaderKey ''Cache-Control'' = ''Cache-Control''"
  by (simp_all add: CanonicalHeaderKey_def header_byte_def is_digit_def upper_char_def lower_char_def code_def of_char_def char_of_def bit_0)

text \<open>What a client makes of the lines before it frames a body, and what it has then.\<close>

definition accepted_lines :: "string \<Rightarrow> Header \<Rightarrow> Header" where
  "accepted_lines key extra = fold (\<lambda>(name, v). header_Add (CanonicalHeaderKey name) (trim_blank v)) (accept_lines key extra) []"

lemma header_Add_filled: "(\<forall>k vs. map_of h k = Some vs \<longrightarrow> vs \<noteq> []) \<Longrightarrow> map_of (header_Add key v h) k = Some vs \<Longrightarrow> vs \<noteq> []"
  by (auto simp: header_Add_def update_conv' split: if_splits option.splits)

lemma fold_add_filled:
  assumes "\<forall>k vs. map_of h k = Some vs \<longrightarrow> vs \<noteq> []"
  shows "\<forall>k vs. map_of (fold (\<lambda>(name, v). header_Add (CanonicalHeaderKey name) (trim_blank v)) ls h) k = Some vs \<longrightarrow> vs \<noteq> []"
  using assms
proof (induction ls arbitrary: h)
  case (Cons l ls)
  have "\<forall>k vs. map_of (header_Add (CanonicalHeaderKey (fst l)) (trim_blank (snd l)) h) k = Some vs \<longrightarrow> vs \<noteq> []"
    using header_Add_filled [of h] Cons.prems by blast
  from Cons.IH [OF this] show ?case by (simp add: split_def)
qed simp

lemma absent_iff:
  assumes "CanonicalHeaderKey k = k"
  shows "map_of (accepted_lines key extra) k = None \<longleftrightarrow> header_Values (accepted_lines key extra) k = []"
  using fold_add_filled [of "[]" "accept_lines key extra"] assms by (auto simp: accepted_lines_def header_Values_def split: option.splits)

lemma pragma_values:
  "header_Values (fixPragmaCacheControl (accepted_lines key extra)) k =
    (if CanonicalHeaderKey k = ''Cache-Control'' \<and> header_Values (accepted_lines key extra) ''Cache-Control'' = [] \<and>
        take 1 (header_Values (accepted_lines key extra) ''Pragma'') = [''no-cache''] then [''no-cache'']
     else header_Values (accepted_lines key extra) k)"
proof -
  let ?h = "accepted_lines key extra"
  have n: "CanonicalHeaderKey ''Cache-Control'' = ''Cache-Control''" "CanonicalHeaderKey ''Pragma'' = ''Pragma''" by (simp_all add: own_names)
  have p: "(\<exists>vs. map_of ?h ''Pragma'' = Some (''no-cache'' # vs)) \<longleftrightarrow> take 1 (header_Values ?h ''Pragma'') = [''no-cache'']"
    unfolding header_Values_def n by (auto split: option.splits) (metis list.exhaust take_Suc_Cons take_0 take_Nil list.distinct(1) list.inject)
  have "fixPragmaCacheControl ?h = (if (\<exists>vs. map_of ?h ''Pragma'' = Some (''no-cache'' # vs)) \<and> map_of ?h ''Cache-Control'' = None
      then AList.update ''Cache-Control'' [''no-cache''] ?h else ?h)"
    by (auto simp: fixPragmaCacheControl_def split: option.splits list.splits)
  then show ?thesis unfolding p absent_iff [OF n(1)] by (auto simp: header_Values_def update_conv')
qed

lemma readTransfer_nothing:
  assumes "map_of h ''Transfer-Encoding'' = None" "map_of h ''Content-Length'' = None"
  shows "readTransfer v status h = Some h"
  using assms by (simp add: readTransfer_def parseTransferEncoding_def fixLength_def fixTrailer_def split: option.splits)

lemma accepted_frames_nothing:
  assumes "writable extra" "k \<in> {''Transfer-Encoding'', ''Content-Length''}"
  shows "map_of (fixPragmaCacheControl (accepted_lines key extra)) k = None"
proof -
  have k: "CanonicalHeaderKey k = k" using assms(2) by (auto simp: own_names)
  have "filter (\<lambda>(name, v). CanonicalHeaderKey name = CanonicalHeaderKey k) (accept_lines key extra) = []"
    using added_ok(6) [OF assms(1)] assms(2) by (auto simp: filter_empty_conv accept_lines_def own_names)
  then have "header_Values (accepted_lines key extra) k = []" unfolding accepted_lines_def fold_add by (simp add: header_Values_def)
  then have "map_of (accepted_lines key extra) k = None" using absent_iff [OF k] by simp
  then show ?thesis using assms(2) by (auto simp: fixPragmaCacheControl_def update_conv' split: option.splits list.splits)
qed

lemma ReadResponse_accept:
  assumes "writable extra"
  shows "ReadResponse (accept_text key extra @ rest) =
    Some (\<lparr>re_StatusCode = 101, re_Header = fixPragmaCacheControl (accepted_lines key extra)\<rparr>, rest)"
proof -
  let ?ls = "accept_lines key extra"
  define s where "s = concat (map (\<lambda>(name, v). name @ '': '' @ v @ crlf) ?ls) @ crlf @ rest"
  have whole: "accept_text key extra @ rest = ''HTTP/1.1 101 Switching Protocols'' @ crlf @ s"
    by (simp add: accept_text_def accept_lines_def extra_lines_added s_def)
  have first: "read_line (''HTTP/1.1 101 Switching Protocols'' @ crlf @ s) = Some (''HTTP/1.1 101 Switching Protocols'', s)"
    by (rule read_line_crlf) simp
  have "\<forall>(name, v) \<in> set ?ls. name \<noteq> [] \<and> list_all header_byte name \<and> list_all header_value_byte v \<and> CHR 0x0A \<notin> set v"
    using accept_key_text(1,2) added_ok [OF assms]
    by (auto simp: accept_lines_def header_byte_def header_value_byte_def is_digit_def code_def of_char_def)
  note lines = header_lines_all [OF this, of "[]" rest, folded s_def accepted_lines_def]
  note framed = readTransfer_nothing [OF accepted_frames_nothing [OF assms] accepted_frames_nothing [OF assms], simplified]
  have "hd s = CHR ''U''" by (simp add: accept_lines_def s_def)
  then have blank: "\<not> is_blank (hd s)" by (simp add: is_blank_def)
  have n: "ParseInt ''101'' = Some 101" "is_version ''HTTP/1.1''"
    by (simp_all add: ParseInt_def is_digit_def is_version_def code_def of_char_def)
  show ?thesis unfolding whole
    by (simp only: ReadResponse_def first option.case prod.case) (simp add: Let_def n blank lines framed)
qed

lemma upgrade_token: "headerContainsToken h ''Connection'' ''Upgrade''" if "header_Values h ''Connection'' = [''Upgrade'']"
proof -
  have "trim_left ''Upgrade'' = ''Upgrade''" by (subst trim_left.simps) (simp add: spaces_def is_prefix_def upt_conv_Cons)
  moreover have "trim_right ''Upgrade'' = ''Upgrade''" by (subst trim_right.simps) (simp add: spaces_def is_prefix_def upt_conv_Cons)
  ultimately have "TrimSpace ''Upgrade'' = ''Upgrade''" by (simp add: TrimSpace_def)
  then show ?thesis using that by (simp add: headerContainsToken_def EqualFold_def)
qed

lemma trim_own: "trim_blank ''websocket'' = ''websocket''" "trim_blank ''Upgrade'' = ''Upgrade''"
  by (simp_all add: trim_blank_def is_blank_def)

text \<open>The values a header is given with, under whatever spelling of its name, each on one line and without the blanks around it.\<close>

definition given :: "Header \<Rightarrow> string \<Rightarrow> string list" where
  "given extra k = concat (map (\<lambda>(name, values). if CanonicalHeaderKey name = CanonicalHeaderKey k then map (\<lambda>v. trim_blank (one_line v)) values else []) extra)"

lemma accepted_header:
  assumes "writable extra"
  shows "let h = accepted_lines key extra in
    header_Values h ''Upgrade'' = [''websocket''] \<and> header_Values h ''Connection'' = [''Upgrade''] \<and>
    header_Values h ''Sec-Websocket-Accept'' = [acceptKey key] \<and> header_Values h ''Sec-Websocket-Extensions'' = [] \<and>
    (\<forall>k. \<not> own_header k \<longrightarrow> header_Values h k = given extra k)"
proof -
  have e: "header_Values [] k = []" for k by (simp add: header_Values_def)
  have none: "filter (\<lambda>(name, v). CanonicalHeaderKey name = CanonicalHeaderKey k) (added extra) = []" if "own_header k" for k
    using added_ok(5) [OF assms] that by (auto simp: filter_empty_conv own_header_def)
  have own: "own_header ''Upgrade''" "own_header ''Connection''" "own_header ''Sec-Websocket-Accept''" "own_header ''Sec-Websocket-Extensions''"
    by (simp_all add: own_header_def own_names)
  have some: "map (trim_blank \<circ> snd) (filter (\<lambda>(name, v). CanonicalHeaderKey name = CanonicalHeaderKey k) (added extra)) =
      concat (map (\<lambda>(name, values). if CanonicalHeaderKey name = CanonicalHeaderKey k then map (\<lambda>v. trim_blank (one_line v)) values else []) extra)"
    if "\<not> own_header k" for k
  proof -
    have c: "\<not> own_header name" if "CanonicalHeaderKey name = CanonicalHeaderKey k" for name
      using \<open>\<not> own_header k\<close> that by (simp add: own_header_def)
    show ?thesis unfolding added_def
      by (induction extra) (auto simp: c filter_map comp_def split_def filter_empty_conv)
  qed
  have k: "''Upgrade'' \<noteq> CanonicalHeaderKey k" "''Connection'' \<noteq> CanonicalHeaderKey k" "''Sec-Websocket-Accept'' \<noteq> CanonicalHeaderKey k" if "\<not> own_header k" for k
    using that by (auto simp: own_header_def)
  show ?thesis
    unfolding Let_def accepted_lines_def fold_add e accept_lines_def given_def
  proof (intro conjI allI impI)
    fix j assume "\<not> own_header j"
    from some [OF this] k [OF this] show "[] @ map (trim_blank \<circ> snd) (filter (\<lambda>(name, v). CanonicalHeaderKey name = CanonicalHeaderKey j)
        ([(''Upgrade'', ''websocket''), (''Connection'', ''Upgrade''), (''Sec-WebSocket-Accept'', acceptKey key)] @ added extra)) =
      concat (map (\<lambda>(name, values). if CanonicalHeaderKey name = CanonicalHeaderKey j then map (\<lambda>v. trim_blank (one_line v)) values else []) extra)"
      by (simp add: own_names)
  qed (use none [OF own(1)] none [OF own(2)] none [OF own(3)] none [OF own(4)] in \<open>simp_all add: own_names trim_own accept_key_text(3)\<close>)
qed

lemma accepted_values:
  assumes "writable extra"
  shows "let h = fixPragmaCacheControl (accepted_lines key extra) in
    header_Values h ''Upgrade'' = [''websocket''] \<and> header_Values h ''Connection'' = [''Upgrade''] \<and>
    header_Values h ''Sec-Websocket-Accept'' = [acceptKey key] \<and> header_Values h ''Sec-Websocket-Extensions'' = [] \<and>
    (\<forall>k. \<not> own_header k \<longrightarrow> header_Values h k =
      (if CanonicalHeaderKey k = ''Cache-Control'' \<and> given extra k = [] \<and> take 1 (given extra ''Pragma'') = [''no-cache''] then [''no-cache''] else given extra k))"
proof -
  note a = accepted_header [OF assms, of key, unfolded Let_def]
  have o: "\<not> own_header ''Pragma''" "\<not> own_header ''Cache-Control''" by (simp_all add: own_header_def own_names)
  have g: "given extra k = given extra ''Cache-Control''" if "CanonicalHeaderKey k = ''Cache-Control''" for k
    using that by (simp add: given_def own_names)
  have v: "header_Values (accepted_lines key extra) ''Pragma'' = given extra ''Pragma''"
    "header_Values (accepted_lines key extra) ''Cache-Control'' = given extra ''Cache-Control''" using a o by blast+
  have own: "header_Values (accepted_lines key extra) ''Upgrade'' = [''websocket'']" "header_Values (accepted_lines key extra) ''Connection'' = [''Upgrade'']"
    "header_Values (accepted_lines key extra) ''Sec-Websocket-Accept'' = [acceptKey key]" "header_Values (accepted_lines key extra) ''Sec-Websocket-Extensions'' = []"
    using a by blast+
  have "(if CanonicalHeaderKey k = ''Cache-Control'' \<and> given extra ''Cache-Control'' = [] \<and> take 1 (given extra ''Pragma'') = [''no-cache''] then [''no-cache'']
      else header_Values (accepted_lines key extra) k) =
    (if CanonicalHeaderKey k = ''Cache-Control'' \<and> given extra k = [] \<and> take 1 (given extra ''Pragma'') = [''no-cache''] then [''no-cache''] else given extra k)"
    if "\<not> own_header k" for k
  proof -
    have "header_Values (accepted_lines key extra) k = given extra k" using a that by blast
    then show ?thesis using g [of k] by (cases "CanonicalHeaderKey k = ''Cache-Control''") (simp_all only: refl simp_thms if_True if_False)
  qed
  then show ?thesis unfolding Let_def pragma_values v using own by (simp add: own_names)
qed

section \<open>Properties\<close>


text \<open>
  The names are the caller's to get right: a line break in a value is dropped, but one in a name is
  written as it is. A name that holds an empty line ends the head, and what it goes on with is read as
  the first bytes of the new protocol.
\<close>

lemma line_break_in_a_name_splits_the_answer:
  "\<exists>response. ReadResponse (accept_text key [(''X: y'' @ crlf @ crlf @ ''evil'', [v])] @ rest) =
    Some (response, ''evil: '' @ one_line v @ crlf @ crlf @ rest)"
proof -
  have "\<not> list_all header_byte (''X: y'' @ crlf @ crlf @ ''evil'')" by (simp add: crlf_def header_byte_def is_digit_def code_def of_char_def)
  then have "CanonicalHeaderKey (''X: y'' @ crlf @ crlf @ ''evil'') = ''X: y'' @ crlf @ crlf @ ''evil''" unfolding CanonicalHeaderKey_def by (rule if_not_P)
  then have "\<not> own_header (''X: y'' @ crlf @ crlf @ ''evil'')" unfolding own_header_def by (simp only:) simp
  moreover have x: "CanonicalHeaderKey ''X'' = ''X''"
    by (simp add: CanonicalHeaderKey_def header_byte_def is_digit_def upper_char_def code_def of_char_def)
  then have "\<not> own_header ''X''" by (simp add: own_header_def)
  ultimately have same: "accept_text key [(''X: y'' @ crlf @ crlf @ ''evil'', [v])] @ rest =
      accept_text key [(''X'', [''y''])] @ ''evil: '' @ one_line v @ crlf @ crlf @ rest"
    by (simp add: accept_text_def extra_lines_def one_line_def)
  have "writable [(''X'', [''y''])]"
    by (simp add: writable_def x header_byte_def header_value_byte_def is_digit_def code_def of_char_def)
  then show ?thesis unfolding same using ReadResponse_accept by blast
qed

lemma answer_verifies:
  assumes "writable extra"
  shows "\<exists>response. ReadResponse (accept_text key extra @ rest) = Some (response, rest) \<and> re_StatusCode response = 101 \<and> verifyAccept response key = None"
  using ReadResponse_accept [OF assms, of key rest] accepted_values [OF assms, of key] upgrade_token
  by (intro exI conjI) (assumption, simp_all add: Let_def verifyAccept_def header_Get_def EqualFold_def)

lemma dial_header_values:
  "header_Values (dial_header key rh) ''Upgrade'' = [''websocket'']" "header_Values (dial_header key rh) ''Connection'' = [''Upgrade'']"
  "header_Values (dial_header key rh) ''Sec-Websocket-Key'' = [key]" "header_Values (dial_header key rh) ''Sec-Websocket-Version'' = [''13'']"
  by (simp_all add: header_Values_def dial_header_def header_Set_def own_names update_conv')

lemma upgrade_of_dial:
  assumes "length random = 16" "sameOrigin parse \<lparr>hq_Method = ''GET'', hq_Header = dial_header (b64_encode random) rh, hq_Host = host\<rparr>"
    and "\<not> shut conn" "room conn = None"
  shows "Upgrade u parse (Hijacked conn rd 0) None None ks \<lparr>hq_Method = ''GET'', hq_Header = dial_header (b64_encode random) rh, hq_Host = host\<rparr> extra =
    Switched (newConn (conn\<lparr>sent := sent conn @ bytes_of_string (accept_text (b64_encode random) extra)\<rparr>) rd (up_WriteBufferSize u) False ks)"
proof -
  note h = dial_header_values [of "b64_encode random" rh]
  have "b64_encode random \<noteq> []" using assms(1) b64_roundtrip [of random] by (auto simp: b64_decode_def)
  then show ?thesis
    using assms h upgrade_token [OF h(2)] b64_roundtrip [of random]
    by (simp add: Upgrade_def header_Get_def EqualFold_def Let_def writeAccept_def net_write_def)
qed

text \<open>Property C34. Dialing and upgrading meet. When the peer that is dialed upgrades the request it is sent, and
  nothing fails on the way, both ends hold a connection: the dialer as the client, reading first what
  the server sends after the handshake, and the server as the server, having sent nothing but the
  answer. The key of every dial is one the server takes, and its answer is one the dialer accepts.\<close>

theorem dialing_meets_upgrading:
  assumes "parse rawURL = Some url" "url_Scheme url = (if secure then ''wss'' else ''ws'')" "length random = 16"
    and "sameOrigin parse' \<lparr>hq_Method = ''GET'', hq_Header = dial_header (b64_encode random) requestHeader, hq_Host = url_Host url\<rparr>"
    and "writable extra" "\<not> shut conn" "room conn = None" "sent conn = []"
    and "net (connect_address url secure) secure = Some (mine, \<lambda>request. case Upgrade u parse' (Hijacked conn rd 0) None None ks request extra of
      Switched c \<Rightarrow> Some \<lparr>avail = sent (wr (bw c)) @ later, stop = e\<rparr> | _ \<Rightarrow> None)"
  shows "\<exists>c c' response. Dial d parse net None None ks' (Some random) rawURL requestHeader = Dialed c response \<and>
    isClient c \<and> br c = \<lparr>avail = later, stop = e\<rparr> \<and>
    Upgrade u parse' (Hijacked conn rd 0) None None ks \<lparr>hq_Method = ''GET'', hq_Header = dial_header (b64_encode random) requestHeader, hq_Host = url_Host url\<rparr> extra = Switched c' \<and>
    \<not> isClient c' \<and> br c' = rd \<and> sent (wr (bw c')) = bytes_of_string (accept_text (b64_encode random) extra)"
proof -
  note up = upgrade_of_dial [OF assms(3,4,6,7), of u rd ks extra]
  let ?text = "accept_text (b64_encode random) extra"
  have bytes: "string_of_bytes (bytes_of_string ?text @ later) = ?text @ string_of_bytes later" "bytes_of_string (string_of_bytes later) = later"
    by simp_all
  obtain response where r: "ReadResponse (?text @ string_of_bytes later) = Some (response, string_of_bytes later)" "re_StatusCode response = 101"
    "verifyAccept response (b64_encode random) = None" using answer_verifies [OF assms(5)] by blast
  have sent: "sent (wr (bw (newConn c r n cl k))) = sent c" "isClient (newConn c r n cl k) = cl" "br (newConn c r n cl k) = r" for c r n cl k
    by (simp_all add: newConn_def Let_def)
  have "Dial d parse net None None ks' (Some random) rawURL requestHeader =
      Dialed (newConn mine \<lparr>avail = later, stop = e\<rparr> (di_WriteBufferSize d) True ks') response"
    using assms(1,2,8,9) up r bytes by (simp add: Dial_def challengeKey_def Let_def sent split: if_splits)
  then show ?thesis using up assms(8) sent by simp
qed

text \<open>A page of another host gets no socket: a request with an Origin that names no host, or another one, is refused over HTTP.\<close>

lemma foreign_origin_is_refused:
  assumes "header_Get (hq_Header r) ''Origin'' \<noteq> []"
    and "case parse (header_Get (hq_Header r) ''Origin'') of None \<Rightarrow> True | Some o' \<Rightarrow> \<not> EqualFold (url_Host o') (hq_Host r)"
  shows "\<exists>h status reason. Upgrade u parse hj setting clearing ks r extra = Refused h status reason \<and> status \<in> {400, 403, 405, 426}"
proof -
  have "\<not> sameOrigin parse r" using assms by (auto simp: sameOrigin_def Let_def split: option.splits)
  then show ?thesis by (simp add: Upgrade_def ws_refuse_def)
qed

text \<open>
  The address of a host that is an IPv6 address and names no port gets a second pair of brackets, and
  nothing dials it.
\<close>

lemma ipv6_without_a_port: "SplitHostPort (connect_address \<lparr>url_Scheme = ''ws'', url_Host = ''[::1]''\<rparr> False) = None"
  by (simp add: connect_address_def url_Port_def JoinHostPort_def last_index_def validOptionalPort_def SplitHostPort_def index_of_def
      is_digit_def code_def of_char_def Let_def)

section \<open>Witnesses\<close>


text \<open>A peer at every address that upgrades what it is sent and then pings.\<close>

definition idle_conn :: net_conn where
  "idle_conn = \<lparr>sent = [], room = None, shut = False\<rparr>"

definition pinging_peer :: "string \<Rightarrow> bool \<Rightarrow> (net_conn \<times> (handshake_request \<Rightarrow> reader option)) option" where
  "pinging_peer address secure = Some (idle_conn, \<lambda>request.
    case Upgrade \<lparr>up_HandshakeTimeout = 0, up_ReadBufferSize = 0, up_WriteBufferSize = 0\<rparr> (\<lambda>_. None)
      (Hijacked idle_conn \<lparr>avail = [], stop = EOF\<rparr> 0) None None (\<lambda>_. 0) request [] of
      Switched c \<Rightarrow> Some \<lparr>avail = sent (wr (bw c)) @ [0x89, 0], stop = EOF\<rparr> | _ \<Rightarrow> None)"

theorem dialing_meets_upgrading_witness:
  "\<exists>c response. Dial DefaultDialer (\<lambda>_. Some \<lparr>url_Scheme = ''ws'', url_Host = ''a.b''\<rparr>) pinging_peer None None (\<lambda>_. 0)
      (Some (replicate 16 0)) ''ws://a.b'' [] = Dialed c response \<and> avail (br c) = [0x89, 0]"
proof -
  let ?url = "\<lparr>url_Scheme = ''ws'', url_Host = ''a.b''\<rparr>"
  have s: "sameOrigin (\<lambda>_. None) \<lparr>hq_Method = ''GET'', hq_Header = dial_header (b64_encode (replicate 16 0)) [], hq_Host = url_Host ?url\<rparr>"
    by (simp add: sameOrigin_def header_Get_def header_Values_def dial_header_def header_Set_def own_names)
  have "url_Scheme ?url = (if False then ''wss'' else ''ws'')" "length (replicate 16 0) = 16" "writable []" "\<not> shut idle_conn"
    "room idle_conn = None" "sent idle_conn = []" by (simp_all add: writable_def idle_conn_def)
  from dialing_meets_upgrading [where parse = "\<lambda>_. Some ?url" and rawURL = "''ws://a.b''" and d = DefaultDialer and ks' = "\<lambda>_. 0" and net = pinging_peer,
      OF refl this(1,2) s this(3-6) pinging_peer_def [of "connect_address ?url False" False]]
  show ?thesis by auto
qed

end
