(* ===== verification/Joaju_Socket.thy ===== *)
theory Joaju_Socket
  imports Joaju_Server Ws_Handshake
begin

text \<open>
  The socket route of \<^verbatim>\<open>server.go\<close>: \<open>handleSocket\<close>, from the request to the socket that was served,
  and the shutdown, which waits for the handlers that are under way and for their writers. Serving the
  socket is \<open>server_read\<close>, the handshake \<open>Upgrade\<close>. Who asks and what the policy of the deployment says about
  it are arguments.
\<close>

section \<open>The route\<close>

text \<open>A request of the route: the key in its path, whom it was authenticated as, and the handshake.\<close>

record 's socket_request =
  sq_appKey :: string
  sq_subject :: "'s option"
  sq_http :: handshake_request

text \<open>
  What happens around a handler: the eight random bytes, what taking over the connection gives, the
  masking keys, the clock, and what moving the read deadline answers.
\<close>

record surroundings =
  sx_random :: "byte list option"
  sx_hijack :: hijack
  sx_keys :: "nat \<Rightarrow> 32 word"
  sx_clock :: "nat \<Rightarrow> int"
  sx_opened :: int
  sx_deadline :: "string \<Rightarrow> ws_err option"

record 'g socket_state =
  so_registry :: "'g registry"
  so_pusher :: "'g pusher"
  so_seen :: "observation list"
  so_asked :: "Handshake list"

type_synonym ('g, 's) connect_policy = "Handshake list \<Rightarrow> 's \<Rightarrow> string \<Rightarrow> Handshake \<Rightarrow> jerr + 'g"

text \<open>
  The answers: a status and a sentence, what the upgrade came to when it was not one, a socket whose
  sink was closed before it was served, and a socket that was served.
\<close>

datatype socket_answer = Plain int string | NotUpgraded upgrade_outcome | Abandoned sink_state | Served

definition server_refuse :: "int \<Rightarrow> string \<Rightarrow> socket_answer" where
  "server_refuse status message = Plain status message"

definition server_upgrader :: Upgrader where
  "server_upgrader = \<lparr>up_HandshakeTimeout = 0, up_ReadBufferSize = 1024, up_WriteBufferSize = 1024\<rparr>"

definition handleSocket :: "('g, 's) pusher_env \<Rightarrow> Server \<Rightarrow> ('g, 's) connect_policy \<Rightarrow> (string \<Rightarrow> url option) \<Rightarrow> surroundings \<Rightarrow>
    's socket_request \<Rightarrow> 'g socket_state \<Rightarrow> socket_answer \<times> 'g socket_state" where
  "handleSocket E srv policy parse x r st =
    (if closed (so_registry st) then (server_refuse 503 ''The server is shutting down.'', st)
     else if sq_appKey r \<noteq> appKey srv then (server_refuse 404 ''Unknown app.'', st)
     else case sq_subject r of
       None \<Rightarrow> (server_refuse 401 ''Unauthenticated.'', st)
     | Some subject \<Rightarrow>
         (case newSocketID (sx_random x) of
            Inl _ \<Rightarrow> (server_refuse 500 ''Could not mint a socket id.'', st)
          | Inr sid \<Rightarrow>
              let question = \<lparr>hs_Socket = sid, hs_Origin = header_Get (hq_Header (sq_http r)) ''Origin''\<rparr>;
                  st1 = st\<lparr>so_asked := so_asked st @ [question]\<rparr>
              in (case policy (so_asked st) subject Connect question of
                    Inl err \<Rightarrow>
                      (if is_forbidden err then server_refuse 403 ''Forbidden.''
                       else server_refuse 400 ''The handshake could not be served.'', st1)
                  | Inr grant \<Rightarrow>
                      (case Upgrade server_upgrader parse (sx_hijack x) None None (sx_keys x) (sq_http r) [] of
                         Switched socket \<Rightarrow>
                           let sink = newSink (nat (outboundQueue srv)) socket in
                           (case NewConnection (hes E) grant sid True of
                              Inl err \<Rightarrow> (Abandoned (snd (sink_Terminate sink)), st1)
                            | Inr conn \<Rightarrow>
                                let (s, p, obs) = server_read E srv (sx_clock x) (sx_opened x) (sx_deadline x) conn socket
                                      (so_registry st1, so_pusher st1, so_seen st1)
                                in (Served, st1\<lparr>so_registry := s, so_pusher := p, so_seen := obs\<rparr>))
                       | outcome \<Rightarrow> (NotUpgraded outcome, st1)))))"

section \<open>What serving a socket tells the observer\<close>

definition about_socket :: "SocketID \<Rightarrow> string \<Rightarrow> observation \<Rightarrow> bool" where
  "about_socket sid t ob \<longleftrightarrow> ob = ObsConnectionOpened sid t \<or> (\<exists>m. ob = ObsMessageReceived sid m) \<or> (\<exists>reason. ob = ObsConnectionClosed sid t reason)"

lemma read_messages_observed:
  assumes "read_messages E conn clock n socket lp obs = (err, lp', obs')"
  shows "\<exists>new. obs' = obs @ new \<and> (\<forall>ob \<in> set new. about_socket (conn_id conn) t ob)"
  using assms
proof (induction E conn clock n socket lp obs rule: read_messages.induct)
  case (1 E conn clock n socket lp obs)
  obtain res socket1 where rm: "ReadMessage socket = (res, socket1)" by force
  show ?case
  proof (cases res)
    case (Inl e)
    then show ?thesis using 1(2) rm by (simp add: read_messages.simps [of E conn clock n socket])
  next
    case (Inr km)
    obtain k m where km: "km = (k, m)" by force
    obtain new where "obs' = (obs @ [ObsMessageReceived (conn_id conn) (string_of_bytes m)]) @ new"
        "\<forall>ob \<in> set new. about_socket (conn_id conn) t ob"
      using 1(1) [OF rm [symmetric, unfolded Inr km] refl refl] 1(2) rm Inr km by (auto simp: read_messages.simps [of E conn clock n socket])
    then show ?thesis by (intro exI [of _ "ObsMessageReceived (conn_id conn) (string_of_bytes m) # new"]) (auto simp: about_socket_def)
  qed
qed

lemma server_read_observed:
  assumes "server_read E srv clock opened deadline conn socket (s, p, obs) = (s', p', obs')"
  shows "\<exists>new. obs' = obs @ new \<and> new \<noteq> [] \<and> (\<forall>ob \<in> set new. about_socket (conn_id conn) (conn_Tenant (hes E) conn) ob)"
proof -
  let ?t = "conn_Tenant (hes E) conn" and ?sid = "conn_id conn"
  have ending: "\<exists>reason. obs' = obs1 @ [ObsConnectionClosed ?sid ?t reason]" if "end_socket E conn fb (s1, p1, obs1) = (s', p', obs')" for fb s1 p1 obs1
    using that by (auto simp: end_socket_def split_def Let_def)
  obtain e s1 where reg: "register (hes E) conn s = (e, s1)" by force
  obtain oe p1 where op: "Open E conn p = (oe, p1)" by force
  let ?obs = "obs @ [ObsConnectionOpened ?sid ?t]"
  let ?socket = "SetPongHandler deadline (SetReadLimit (maxMessageSize srv) socket)"
  obtain err l2 p2 obs2 where rd: "read_messages E conn clock 0 ?socket (newRateLimiter (maxMessagesPerSecond srv) opened, p1) ?obs
      = (err, (l2, p2), obs2)" by (metis prod_cases3 prod.collapse)
  obtain new where new: "obs2 = ?obs @ new" "\<forall>ob \<in> set new. about_socket ?sid ?t ob"
    using read_messages_observed [OF rd, of ?t] by blast
  consider err where "e = Some err" | err where "e = None" "oe = Some err" | "e = None" "oe = None" by (metis not_Some_eq)
  then show ?thesis
  proof cases
    case 1
    then show ?thesis using assms reg by (auto simp: server_read_def Let_def about_socket_def split: if_splits)
  next
    case (2 err)
    then have "server_read E srv clock opened deadline conn socket (s, p, obs) = end_socket E conn ReasonError (s1, p1, ?obs)"
      using reg op by (simp add: server_read_def Let_def)
    then have "\<exists>reason. obs' = ?obs @ [ObsConnectionClosed ?sid ?t reason]" using ending assms by metis
    then show ?thesis by (auto simp: about_socket_def)
  next
    case 3
    then obtain fb s2 where "server_read E srv clock opened deadline conn socket (s, p, obs) = end_socket E conn fb (s2, p2, obs2)"
      using reg op rd by (cases "read_reason err") (simp add: server_read_def Let_def)
    then have "\<exists>reason. obs' = obs2 @ [ObsConnectionClosed ?sid ?t reason]" using ending assms by metis
    then show ?thesis using new by (auto simp: about_socket_def)
  qed
qed

section \<open>Nobody gets a socket unasked\<close>

lemma switched_is_same_origin:
  assumes "Upgrade u parse hj setting clearing ks r extra = Switched c"
  shows "sameOrigin parse r" "hq_Method r = ''GET''"
  using assms by (auto simp: Upgrade_def ws_refuse_def split: if_splits)

lemma served_by_the_policy:
  assumes "handleSocket E srv policy parse x r st = (Served, st')"
  shows "\<not> closed (so_registry st) \<and> sq_appKey r = appKey srv \<and>
      (\<exists>subject sid q g new. sq_subject r = Some subject \<and> newSocketID (sx_random x) = Inr sid \<and>
        q = \<lparr>hs_Socket = sid, hs_Origin = header_Get (hq_Header (sq_http r)) ''Origin''\<rparr> \<and> so_asked st' = so_asked st @ [q] \<and>
        policy (so_asked st) subject Connect q = Inr g \<and> sameOrigin parse (sq_http r) \<and>
        Check (hes E) g Connect = None \<and> auth_Tenant (hes E) g \<noteq> [] \<and>
        so_seen st' = so_seen st @ new \<and> new \<noteq> [] \<and> (\<forall>ob \<in> set new. about_socket sid (auth_Tenant (hes E) g) ob))"
proof -
  obtain subject sid g socket conn s p obs where h: "\<not> closed (so_registry st)" "sq_appKey r = appKey srv" "sq_subject r = Some subject"
      "newSocketID (sx_random x) = Inr sid"
      "policy (so_asked st) subject Connect \<lparr>hs_Socket = sid, hs_Origin = header_Get (hq_Header (sq_http r)) ''Origin''\<rparr> = Inr g"
      "Upgrade server_upgrader parse (sx_hijack x) None None (sx_keys x) (sq_http r) [] = Switched socket"
      "NewConnection (hes E) g sid True = Inr conn"
      "server_read E srv (sx_clock x) (sx_opened x) (sx_deadline x) conn socket (so_registry st, so_pusher st, so_seen st) = (s, p, obs)"
      "st' = st\<lparr>so_asked := so_asked st @ [\<lparr>hs_Socket = sid, hs_Origin = header_Get (hq_Header (sq_http r)) ''Origin''\<rparr>],
        so_registry := s, so_pusher := p, so_seen := obs\<rparr>"
    using assms
    by (auto simp: handleSocket_def server_refuse_def Let_def split: if_splits option.splits sum.splits upgrade_outcome.splits prod.splits)
  have c: "conn_id conn = sid" "conn_Tenant (hes E) conn = auth_Tenant (hes E) g" "Check (hes E) g Connect = None" "auth_Tenant (hes E) g \<noteq> []"
    using h(7) by (auto simp: NewConnection_def conn_Tenant_def split: option.splits if_splits)
  obtain new where "obs = so_seen st @ new" "new \<noteq> []" "\<forall>ob \<in> set new. about_socket sid (auth_Tenant (hes E) g) ob"
    using server_read_observed [OF h(8)] c by auto
  then show ?thesis using h c switched_is_same_origin(1) [OF h(6)] by simp
qed

text \<open>Property C35. Nobody gets a socket without the policy. Whatever a request to the socket route is, the
  policy is asked at most once, about the socket it would be and the origin it names; unless the app
  key is the server's, somebody is authenticated and the policy granted exactly that, nothing of the
  server changes and nobody is told of a socket. Then the origin is the server's own, the grant is
  one for connecting and carries a tenant, and everything the observer hears is about that socket
  under that tenant. A refusal says one of six fixed sentences, whatever the policy said.\<close>

theorem no_socket_without_the_policy:
  assumes "handleSocket E srv policy parse x r st = (answer, st')"
  shows "(so_registry st', so_pusher st', so_seen st') = (so_registry st, so_pusher st, so_seen st) \<and> answer \<noteq> Served \<and>
      (so_asked st' = so_asked st \<or> (\<exists>q. so_asked st' = so_asked st @ [q])) \<and>
      (\<forall>status message. answer = Plain status message \<longrightarrow> (status, message) \<in> {(503, ''The server is shutting down.''), (404, ''Unknown app.''),
        (401, ''Unauthenticated.''), (500, ''Could not mint a socket id.''), (403, ''Forbidden.''), (400, ''The handshake could not be served.'')}) \<or>
    answer = Served \<and> \<not> closed (so_registry st) \<and> sq_appKey r = appKey srv \<and>
      (\<exists>subject sid q g new. sq_subject r = Some subject \<and> newSocketID (sx_random x) = Inr sid \<and>
        q = \<lparr>hs_Socket = sid, hs_Origin = header_Get (hq_Header (sq_http r)) ''Origin''\<rparr> \<and> so_asked st' = so_asked st @ [q] \<and>
        policy (so_asked st) subject Connect q = Inr g \<and> sameOrigin parse (sq_http r) \<and>
        Check (hes E) g Connect = None \<and> auth_Tenant (hes E) g \<noteq> [] \<and>
        so_seen st' = so_seen st @ new \<and> new \<noteq> [] \<and> (\<forall>ob \<in> set new. about_socket sid (auth_Tenant (hes E) g) ob))"
proof (cases "answer = Served")
  case False
  then show ?thesis using assms
    by (auto simp: handleSocket_def server_refuse_def Let_def split: if_splits option.splits sum.splits upgrade_outcome.splits prod.splits)
next
  case True
  then show ?thesis using served_by_the_policy [of E srv policy parse x r st st'] assms by blast
qed

section \<open>Shutting down\<close>

text \<open>
  The handlers of the route, their writers and \<open>Close\<close>. Every request is a handler of its own: not yet
  there, deciding, upgraded with a connection that is not registered yet, holding a registered
  socket, about to close its sink, about to be taken off the wait group, gone. \<open>newSink\<close> starts the
  writer and counts it too; a writer stops once its sink is closed, or when a write fails, and its
  end closes the connection. The worker count is the wait group. \<open>Terminate\<close> and \<open>Close\<close> name the
  sockets under the lock and close their sinks afterwards, one at a time, so those still to be closed
  are kept in \<open>ho_pending\<close>. What the registry does is \<open>rstep\<close>; a socket id is eight random bytes, and as
  in \<open>rstep\<close> no two handlers under way have the same. \<open>Close\<close> returns when the count is zero or
  when its context is done, whichever comes first.

  A step is the program's own when nothing outside has to happen for it: a handler that decides,
  registers, announces, ends; a sink that is closed; a writer that stops after its sink was closed;
  a read that fails because the writer is gone and the connection closed. The others wait for
  somebody: a request, a client that hangs up or falls silent, a write that fails, a queue that
  runs over, an operator, a shutdown, the caller of \<open>Close\<close>.
\<close>

datatype 'g stage = Away | Deciding | Upgraded "'g Connection" | Holding SocketID | Finishing | Ended | Gone

datatype writer = NoWriter | Writing | Stopping | Stopped

datatype close_return = InTime | Overdue

datatype cause = Own | Foreign

record 'g house =
  ho_registry :: "'g registry"
  ho_phase :: "SocketID \<Rightarrow> 'g phase"
  ho_seen :: "observation list"
  ho_stage :: "nat \<Rightarrow> 'g stage"
  ho_writer :: "nat \<Rightarrow> writer"
  ho_pending :: "nat set"
  ho_workers :: nat
  ho_returns :: "close_return list"

fun close_writer :: "writer \<Rightarrow> writer" where
  "close_writer Writing = Stopping"
| "close_writer w = w"

fun socket_of :: "'g stage \<Rightarrow> SocketID option" where
  "socket_of (Upgraded c) = Some (conn_id c)"
| "socket_of (Holding sid) = Some sid"
| "socket_of _ = None"

definition fresh_id :: "'g house \<Rightarrow> SocketID \<Rightarrow> bool" where
  "fresh_id x sid \<longleftrightarrow> (\<forall>h. socket_of (ho_stage x h) \<noteq> Some sid)"

text \<open>The sockets whose sinks a step of the registry says to terminate.\<close>

definition newly_ended :: "'g registry \<Rightarrow> 'g registry \<Rightarrow> SocketID set" where
  "newly_ended s s' = set (drop (length (ended s)) (ended s'))"

inductive hstep :: "('g, 's) hesape \<Rightarrow> cause \<Rightarrow> 'g house \<Rightarrow> 'g house \<Rightarrow> bool" for H where
  arrive: "ho_stage x h = Away \<Longrightarrow> \<not> closed (ho_registry x) \<Longrightarrow>
    hstep H Foreign x (x\<lparr>ho_stage := (ho_stage x)(h := Deciding), ho_workers := Suc (ho_workers x)\<rparr>)"
| refused: "ho_stage x h = Deciding \<Longrightarrow> hstep H Own x (x\<lparr>ho_stage := (ho_stage x)(h := Ended)\<rparr>)"
| unusable: "ho_stage x h = Deciding \<Longrightarrow> NewConnection H g sid True = Inl e \<Longrightarrow>
    hstep H Own x (x\<lparr>ho_stage := (ho_stage x)(h := Finishing), ho_writer := (ho_writer x)(h := Writing), ho_workers := Suc (ho_workers x)\<rparr>)"
| upgraded: "ho_stage x h = Deciding \<Longrightarrow> fresh_id x sid \<Longrightarrow> NewConnection H g sid True = Inr c \<Longrightarrow>
    hstep H Own x (x\<lparr>ho_stage := (ho_stage x)(h := Upgraded c), ho_writer := (ho_writer x)(h := Writing), ho_workers := Suc (ho_workers x)\<rparr>)"
| admitted: "ho_stage x h = Upgraded c \<Longrightarrow> register H c (ho_registry x) = (None, s') \<Longrightarrow>
    hstep H Own x (x\<lparr>ho_registry := s', ho_phase := (ho_phase x)(conn_id c := Admitted c), ho_stage := (ho_stage x)(h := Holding (conn_id c))\<rparr>)"
| turned_away: "ho_stage x h = Upgraded c \<Longrightarrow> register H c (ho_registry x) = (Some e, s') \<Longrightarrow>
    hstep H Own x (x\<lparr>ho_registry := s', ho_stage := (ho_stage x)(h := Finishing), ho_seen := ho_seen x @
      [ObsConnectionClosed (conn_id c) (conn_Tenant H c) (if e = errServerClosed then ReasonShutdown else ReasonLimit)]\<rparr>)"
| announced: "ho_stage x h = Holding sid \<Longrightarrow> ho_phase x sid = Admitted c \<Longrightarrow>
    hstep H Own x (x\<lparr>ho_phase := (ho_phase x)(sid := Serving c), ho_seen := ho_seen x @ [ObsConnectionOpened sid (conn_Tenant H c)]\<rparr>)"
| read_ends: "ho_stage x h = Holding sid \<Longrightarrow> ho_phase x sid = Serving c \<Longrightarrow> fallback \<in> {ReasonClient, ReasonTimeout, ReasonError} \<Longrightarrow>
    unregister H c fallback (ho_registry x) = (reason, s') \<Longrightarrow> k = (if ho_writer x h = Stopped then Own else Foreign) \<Longrightarrow>
    hstep H k x (x\<lparr>ho_registry := s', ho_phase := (ho_phase x)(sid := phase.Leaving c reason)\<rparr>)"
| announced_end: "ho_stage x h = Holding sid \<Longrightarrow> ho_phase x sid = phase.Leaving c reason \<Longrightarrow>
    hstep H Own x (x\<lparr>ho_phase := (ho_phase x)(sid := Absent), ho_stage := (ho_stage x)(h := Finishing),
      ho_seen := ho_seen x @ [ObsConnectionClosed sid (conn_Tenant H c) reason]\<rparr>)"
| closes_sink: "ho_stage x h = Finishing \<Longrightarrow>
    hstep H Own x (x\<lparr>ho_stage := (ho_stage x)(h := Ended), ho_writer := (ho_writer x)(h := close_writer (ho_writer x h))\<rparr>)"
| handler_done: "ho_stage x h = Ended \<Longrightarrow>
    hstep H Own x (x\<lparr>ho_stage := (ho_stage x)(h := Gone), ho_workers := ho_workers x - 1\<rparr>)"
| writer_done: "ho_writer x h = Stopping \<Longrightarrow>
    hstep H Own x (x\<lparr>ho_writer := (ho_writer x)(h := Stopped), ho_workers := ho_workers x - 1\<rparr>)"
| writer_failed: "ho_writer x h = Writing \<Longrightarrow>
    hstep H Foreign x (x\<lparr>ho_writer := (ho_writer x)(h := Stopped), ho_workers := ho_workers x - 1\<rparr>)"
| fell_behind: "ho_writer x h = Writing \<Longrightarrow> hstep H Foreign x (x\<lparr>ho_writer := (ho_writer x)(h := Stopping)\<rparr>)"
| terminated: "h \<in> ho_pending x \<Longrightarrow> k = (if ho_writer x h = Writing then Own else Foreign) \<Longrightarrow>
    hstep H k x (x\<lparr>ho_pending := ho_pending x - {h}, ho_writer := (ho_writer x)(h := close_writer (ho_writer x h))\<rparr>)"
| besides: "rstep H (ho_registry x, ho_phase x, ho_seen x) (s', ho_phase x, ho_seen x) \<Longrightarrow>
    hstep H Foreign x (x\<lparr>ho_registry := s',
      ho_pending := ho_pending x \<union> {h. \<exists>sid \<in> newly_ended (ho_registry x) s'. ho_stage x h = Holding sid}\<rparr>)"
| close_waited: "closed (ho_registry x) \<Longrightarrow> ho_workers x = 0 \<Longrightarrow> hstep H Foreign x (x\<lparr>ho_returns := ho_returns x @ [InTime]\<rparr>)"
| close_overdue: "closed (ho_registry x) \<Longrightarrow> hstep H Foreign x (x\<lparr>ho_returns := ho_returns x @ [Overdue]\<rparr>)"

definition empty_house :: "int \<Rightarrow> 'g house" where
  "empty_house n = \<lparr>ho_registry = new_registry n, ho_phase = (\<lambda>_. Absent), ho_seen = [], ho_stage = (\<lambda>_. Away),
    ho_writer = (\<lambda>_. NoWriter), ho_pending = {}, ho_workers = 0, ho_returns = []\<rparr>"

text \<open>A run, with the causes of its steps.\<close>

inductive hrun :: "('g, 's) hesape \<Rightarrow> 'g house \<Rightarrow> cause list \<Rightarrow> 'g house \<Rightarrow> bool" for H where
  nothing: "hrun H x [] x"
| further: "hrun H x ks y \<Longrightarrow> hstep H k y z \<Longrightarrow> hrun H x (ks @ [k]) z"

subsection \<open>Counting over the handlers\<close>

text \<open>A sum over all handlers of what is zero for all but finitely many of them.\<close>

definition sum_up :: "(nat \<Rightarrow> nat) \<Rightarrow> nat" where
  "sum_up f = sum f {h. f h \<noteq> 0}"

lemma sum_up_update:
  assumes "finite {h. f h \<noteq> 0}"
  shows "finite {j. (f(h := v)) j \<noteq> 0}" "sum_up (f(h := v)) + f h = sum_up f + v"
proof -
  let ?F = "insert h {j. f j \<noteq> 0}"
  show fin: "finite {j. (f(h := v)) j \<noteq> 0}" by (rule finite_subset [of _ ?F]) (use assms in auto)
  have t: "sum_up f = sum f ?F" unfolding sum_up_def by (rule sum.mono_neutral_left) (use assms in auto)
  have u: "sum_up (f(h := v)) = sum (f(h := v)) ?F" unfolding sum_up_def by (rule sum.mono_neutral_left) (use assms in auto)
  have "sum (f(h := v)) ?F = v + sum f ({j. f j \<noteq> 0} - {h})" using assms by (subst sum.insert_remove) auto
  moreover have "sum f ?F = f h + sum f ({j. f j \<noteq> 0} - {h})" using assms by (subst sum.insert_remove) auto
  ultimately show "sum_up (f(h := v)) + f h = sum_up f + v" using t u by simp
qed

lemma sum_up_positive:
  assumes "finite {h. f h \<noteq> 0}" "sum_up f \<noteq> 0"
  shows "\<exists>h. f h \<noteq> 0"
  using assms unfolding sum_up_def by (metis (mono_tags, lifting) mem_Collect_eq sum.neutral)

text \<open>What a handler and its writer count for in the wait group, and what they still have to do.\<close>

fun counted_handler :: "'g stage \<Rightarrow> nat" where
  "counted_handler Away = 0"
| "counted_handler Gone = 0"
| "counted_handler _ = 1"

fun counted_writer :: "writer \<Rightarrow> nat" where
  "counted_writer Writing = 1"
| "counted_writer Stopping = 1"
| "counted_writer _ = 0"

definition workers_of :: "'g house \<Rightarrow> nat \<Rightarrow> nat" where
  "workers_of x h = counted_handler (ho_stage x h) + counted_writer (ho_writer x h)"

fun still_holding :: "'g phase \<Rightarrow> nat" where
  "still_holding (Admitted _) = 5"
| "still_holding (Serving _) = 4"
| "still_holding (phase.Leaving _ _) = 3"
| "still_holding Absent = 0"

fun still_handling :: "(SocketID \<Rightarrow> 'g phase) \<Rightarrow> 'g stage \<Rightarrow> nat" where
  "still_handling ph Deciding = 9"
| "still_handling ph (Upgraded _) = 6"
| "still_handling ph (Holding sid) = still_holding (ph sid)"
| "still_handling ph Finishing = 2"
| "still_handling ph Ended = 1"
| "still_handling ph _ = 0"

fun still_writing :: "writer \<Rightarrow> nat" where
  "still_writing Writing = 2"
| "still_writing Stopping = 1"
| "still_writing _ = 0"

definition work_of :: "'g house \<Rightarrow> nat \<Rightarrow> nat" where
  "work_of x h = still_handling (ho_phase x) (ho_stage x h) + still_writing (ho_writer x h)"

definition left_to_do :: "'g house \<Rightarrow> nat" where
  "left_to_do x = sum_up (work_of x)"

subsection \<open>The invariant\<close>

definition counted_ok :: "'g house \<Rightarrow> bool" where
  "counted_ok x \<longleftrightarrow> finite {h. workers_of x h \<noteq> 0} \<and> ho_workers x = sum_up (workers_of x)"

fun handler_ok :: "'g stage \<Rightarrow> writer \<Rightarrow> bool" where
  "handler_ok Away w \<longleftrightarrow> w = NoWriter"
| "handler_ok Deciding w \<longleftrightarrow> w = NoWriter"
| "handler_ok (Upgraded _) w \<longleftrightarrow> w \<noteq> NoWriter"
| "handler_ok (Holding _) w \<longleftrightarrow> w \<noteq> NoWriter"
| "handler_ok Finishing w \<longleftrightarrow> w \<noteq> NoWriter"
| "handler_ok Ended w \<longleftrightarrow> w \<noteq> Writing"
| "handler_ok Gone w \<longleftrightarrow> w \<noteq> Writing"

text \<open>Every socket on record is the socket of one handler.\<close>

definition housed :: "'g house \<Rightarrow> bool" where
  "housed x \<longleftrightarrow> (\<forall>sid. ho_phase x sid \<noteq> Absent \<longrightarrow> (\<exists>h. ho_stage x h = Holding sid)) \<and>
    (\<forall>h sid. ho_stage x h = Holding sid \<longrightarrow> ho_phase x sid \<noteq> Absent) \<and>
    (\<forall>h h' sid. socket_of (ho_stage x h) = Some sid \<longrightarrow> socket_of (ho_stage x h') = Some sid \<longrightarrow> h = h')"

text \<open>Once the server is closed, a registered socket whose sink is open is one about to have it closed.\<close>

definition closing :: "'g house \<Rightarrow> bool" where
  "closing x \<longleftrightarrow> (\<forall>h sid. closed (ho_registry x) \<longrightarrow> ho_stage x h = Holding sid \<longrightarrow> present (ho_phase x sid) \<noteq> None \<longrightarrow>
    ho_writer x h = Writing \<longrightarrow> h \<in> ho_pending x)"

definition returned :: "'g house \<Rightarrow> bool" where
  "returned x \<longleftrightarrow> (InTime \<in> set (ho_returns x) \<longrightarrow> closed (ho_registry x) \<and> ho_workers x = 0)"

definition house_ok :: "('g, 's) hesape \<Rightarrow> 'g house \<Rightarrow> bool" where
  "house_ok H x \<longleftrightarrow> registry_ok H (ho_registry x, ho_phase x, ho_seen x) \<and> counted_ok x \<and>
    (\<forall>h. handler_ok (ho_stage x h) (ho_writer x h)) \<and> housed x \<and> closing x \<and> returned x"

lemma house_okD:
  assumes "house_ok H x"
  shows "registry_ok H (ho_registry x, ho_phase x, ho_seen x)" "counted_ok x" "handler_ok (ho_stage x h) (ho_writer x h)"
    "housed x" "closing x" "returned x"
  using assms unfolding house_ok_def by blast+

lemma housedD:
  assumes "housed x"
  shows "ho_phase x sid \<noteq> Absent \<Longrightarrow> \<exists>h. ho_stage x h = Holding sid" "ho_stage x h = Holding sid \<Longrightarrow> ho_phase x sid \<noteq> Absent"
    "socket_of (ho_stage x h) = Some sid \<Longrightarrow> socket_of (ho_stage x h') = Some sid \<Longrightarrow> h = h'"
  using assms unfolding housed_def by blast+

lemma upgraded_is_absent:
  assumes "housed x" "ho_stage x h = Upgraded c"
  shows "ho_phase x (conn_id c) = Absent"
proof (rule ccontr)
  assume "ho_phase x (conn_id c) \<noteq> Absent"
  then obtain h' where h': "ho_stage x h' = Holding (conn_id c)" using housedD(1) [OF assms(1)] by blast
  then have "h' = h" using housedD(3) [OF assms(1), of h' "conn_id c" h] assms(2) by simp
  then show False using h' assms(2) by simp
qed

text \<open>What the steps that touch the registry alone may do.\<close>

lemma rstep_besides:
  assumes "rstep H (s, ph, obs) (s', ph, obs)"
  shows "conns s' = conns s" "closed s \<Longrightarrow> closed s'"
    "closed s' \<Longrightarrow> closed s \<or> newly_ended s s' = (conn_id \<circ> snd) ` set (conns s)"
proof -
  have "conns s' = conns s \<and> (closed s \<longrightarrow> closed s') \<and> (closed s' \<longrightarrow> closed s \<or> newly_ended s s' = (conn_id \<circ> snd) ` set (conns s))"
    using assms
  proof cases
    case (admit c) then show ?thesis by (metis fun_upd_same phase.distinct(1))
  next
    case (leave sid c fb reason) then show ?thesis by (metis fun_upd_same phase.distinct(11))
  next
    case (operator g subject res)
    then show ?thesis using Terminate_keeps [of H g subject s res s'] by (auto simp: doom_keeps)
  next
    case shutdown
    then show ?thesis by (simp add: server_Close_def doom_def newly_ended_def)
  qed (auto simp: recordCloseReason_def recordReadCloseReason_def fun_upd_idem_iff)
  then show "conns s' = conns s" "closed s \<Longrightarrow> closed s'"
    "closed s' \<Longrightarrow> closed s \<or> newly_ended s s' = (conn_id \<circ> snd) ` set (conns s)" by blast+
qed

text \<open>A step of the house is a step of the registry, or none.\<close>

lemma hstep_registry:
  assumes "hstep H k x y" "housed x"
  shows "(ho_registry y, ho_phase y, ho_seen y) = (ho_registry x, ho_phase x, ho_seen x) \<or>
    rstep H (ho_registry x, ho_phase x, ho_seen x) (ho_registry y, ho_phase y, ho_seen y)"
  using assms(1)
proof cases
  case (admitted h c s')
  then show ?thesis using rstep.admit [of "ho_phase x" c H "ho_registry x" s' "ho_seen x"] upgraded_is_absent [OF assms(2)] by simp
next
  case (turned_away h c e s')
  then show ?thesis using rstep.turn_away [of "ho_phase x" c H "ho_registry x" e s' "ho_seen x"] upgraded_is_absent [OF assms(2)] by simp
next
  case (announced h sid c) then show ?thesis using rstep.announce [of "ho_phase x" sid c H "ho_registry x" "ho_seen x"] by simp
next
  case (read_ends h sid c fallback reason s')
  then show ?thesis using rstep.leave [of "ho_phase x" sid c fallback H "ho_registry x" reason s' "ho_seen x"] by simp
next
  case (announced_end h sid c reason)
  then show ?thesis using rstep.announce_end [of "ho_phase x" sid c reason H "ho_registry x" "ho_seen x"] by simp
qed auto

lemma workers_of_change:
  assumes "ho_stage y = (ho_stage x)(h := a)" "ho_writer y = (ho_writer x)(h := b)"
  shows "workers_of y = (workers_of x)(h := counted_handler a + counted_writer b)"
  using assms by (auto simp: workers_of_def fun_eq_iff)

lemma counted_change:
  assumes "counted_ok x" "ho_stage y = (ho_stage x)(h := a)" "ho_writer y = (ho_writer x)(h := b)"
    "ho_workers y + workers_of x h = ho_workers x + (counted_handler a + counted_writer b)"
  shows "counted_ok y"
  using assms(1,4) sum_up_update [of "workers_of x" h "counted_handler a + counted_writer b"]
  by (simp add: counted_ok_def workers_of_change [OF assms(2,3)])

lemma counted_at_least:
  assumes "counted_ok x"
  shows "workers_of x h \<le> ho_workers x"
  using assms sum_up_update(2) [of "workers_of x" h 0] by (simp add: counted_ok_def)

lemma counted_step:
  assumes "hstep H k x y" "counted_ok x" "\<And>h. handler_ok (ho_stage x h) (ho_writer x h)"
  shows "counted_ok y"
  using assms(1)
proof cases
  case (arrive h) then show ?thesis by (intro counted_change [OF assms(2), of y h Deciding "ho_writer x h"]) (simp_all add: workers_of_def)
next
  case (refused h) then show ?thesis by (intro counted_change [OF assms(2), of y h Ended "ho_writer x h"]) (simp_all add: workers_of_def)
next
  case (unusable h g sid e)
  then show ?thesis using assms(3) [of h] by (intro counted_change [OF assms(2), of y h Finishing Writing]) (simp_all add: workers_of_def)
next
  case (upgraded h sid g c)
  then show ?thesis using assms(3) [of h] by (intro counted_change [OF assms(2), of y h "Upgraded c" Writing]) (simp_all add: workers_of_def)
next
  case (admitted h c s') then show ?thesis by (intro counted_change [OF assms(2), of y h "Holding (conn_id c)" "ho_writer x h"]) (simp_all add: workers_of_def)
next
  case (turned_away h c e s') then show ?thesis by (intro counted_change [OF assms(2), of y h Finishing "ho_writer x h"]) (simp_all add: workers_of_def)
next
  case (announced_end h sid c reason)
  then show ?thesis by (intro counted_change [OF assms(2), of y h Finishing "ho_writer x h"]) (simp_all add: workers_of_def)
next
  case (closes_sink h)
  then show ?thesis by (intro counted_change [OF assms(2), of y h Ended "close_writer (ho_writer x h)"])
      (cases "ho_writer x h"; simp add: workers_of_def)+
next
  case (handler_done h)
  then show ?thesis using counted_at_least [OF assms(2), of h]
    by (intro counted_change [OF assms(2), of y h Gone "ho_writer x h"]) (simp_all add: workers_of_def)
next
  case (writer_done h)
  then show ?thesis using counted_at_least [OF assms(2), of h]
    by (intro counted_change [OF assms(2), of y h "ho_stage x h" Stopped]) (simp_all add: workers_of_def)
next
  case (writer_failed h)
  then show ?thesis using counted_at_least [OF assms(2), of h]
    by (intro counted_change [OF assms(2), of y h "ho_stage x h" Stopped]) (simp_all add: workers_of_def)
next
  case (fell_behind h) then show ?thesis by (intro counted_change [OF assms(2), of y h "ho_stage x h" Stopping]) (simp_all add: workers_of_def)
next
  case (terminated h)
  then show ?thesis by (intro counted_change [OF assms(2), of y h "ho_stage x h" "close_writer (ho_writer x h)"])
      (cases "ho_writer x h"; simp add: workers_of_def)+
qed (use assms(2) in \<open>simp_all add: counted_ok_def workers_of_def [abs_def]\<close>)

lemma close_writer_iff [simp]: "close_writer w = NoWriter \<longleftrightarrow> w = NoWriter" "close_writer w \<noteq> Writing"
  by (cases w; simp)+

lemma handler_step:
  assumes "hstep H k x y" "\<And>h. handler_ok (ho_stage x h) (ho_writer x h)"
  shows "handler_ok (ho_stage y h) (ho_writer y h)"
proof -
  have later: "handler_ok st w'" if "handler_ok st w" "w \<noteq> NoWriter" "w' \<noteq> NoWriter" "w' \<noteq> Writing" for st :: "'a stage" and w w'
    using that by (cases st) simp_all
  show ?thesis using assms(1)
  proof cases
    case (terminated j)
    then show ?thesis using assms(2) [of h] by (cases "ho_writer x h"; cases "ho_stage x h") auto
  next
    case (writer_done j) then show ?thesis using later [of "ho_stage x h" Stopping Stopped] assms(2) [of h] by auto
  next
    case (writer_failed j) then show ?thesis using later [of "ho_stage x h" Writing Stopped] assms(2) [of h] by auto
  next
    case (fell_behind j) then show ?thesis using later [of "ho_stage x h" Writing Stopping] assms(2) [of h] by auto
  next
    case (refused j) then show ?thesis using assms(2) [of h] by (cases "h = j") simp_all
  next
    case (admitted j c s') then show ?thesis using assms(2) [of h] by (cases "h = j") simp_all
  next
    case (turned_away j c e s') then show ?thesis using assms(2) [of h] by (cases "h = j") simp_all
  next
    case (announced_end j sid c reason) then show ?thesis using assms(2) [of h] by (cases "h = j") simp_all
  next
    case (handler_done j) then show ?thesis using assms(2) [of h] by (cases "h = j") simp_all
  next
    case (arrive j) then show ?thesis using assms(2) [of h] by (cases "h = j") simp_all
  qed (use assms(2) [of h] in auto)
qed

lemma NewConnection_id: "NewConnection H g sid w = Inr c \<Longrightarrow> conn_id c = sid"
  by (auto simp: NewConnection_def split: option.splits if_splits)

text \<open>One handler changes its stage, and at most its own socket comes on record or goes off it.\<close>

lemma housed_change:
  assumes "housed x" "ho_stage y = (ho_stage x)(h := a)"
    and "\<And>sid. ho_phase y sid \<noteq> Absent \<Longrightarrow> a = Holding sid \<or> ho_phase x sid \<noteq> Absent \<and> ho_stage x h \<noteq> Holding sid"
    and "\<And>sid. a = Holding sid \<Longrightarrow> ho_phase y sid \<noteq> Absent"
    and "\<And>sid j. j \<noteq> h \<Longrightarrow> ho_stage x j = Holding sid \<Longrightarrow> ho_phase y sid \<noteq> Absent"
    and "\<And>sid j. socket_of a = Some sid \<Longrightarrow> j \<noteq> h \<Longrightarrow> socket_of (ho_stage x j) \<noteq> Some sid"
  shows "housed y"
  unfolding housed_def
proof (intro conjI allI impI)
  fix sid assume a: "ho_phase y sid \<noteq> Absent"
  show "\<exists>j. ho_stage y j = Holding sid"
  proof (cases "a = Holding sid")
    case True then show ?thesis using assms(2) by (metis fun_upd_same)
  next
    case False
    then obtain j where "ho_stage x j = Holding sid" "j \<noteq> h" using assms(3) [OF a] housedD(1) [OF assms(1), of sid] by blast
    then show ?thesis using assms(2) by (metis fun_upd_other)
  qed
next
  fix j sid assume "ho_stage y j = Holding sid"
  then show "ho_phase y sid \<noteq> Absent" using assms(2,4,5) by (auto split: if_splits)
next
  fix i j sid assume "socket_of (ho_stage y i) = Some sid" "socket_of (ho_stage y j) = Some sid"
  then show "i = j" using housedD(3) [OF assms(1), of i sid j] assms(6) [of sid i] assms(6) [of sid j] assms(2) by (auto split: if_splits)
qed

lemma housed_out:
  assumes "housed x" "ho_stage y = (ho_stage x)(h := a)" "socket_of a = None" "ho_phase y = ho_phase x" "\<And>sid. ho_stage x h \<noteq> Holding sid"
  shows "housed y"
  by (rule housed_change [OF assms(1,2)]) (use assms(3-5) housedD(2) [OF assms(1)] in auto)

lemma housed_same: "housed x \<Longrightarrow> ho_stage y = ho_stage x \<Longrightarrow> (\<And>sid. ho_phase y sid = Absent \<longleftrightarrow> ho_phase x sid = Absent) \<Longrightarrow> housed y"
  by (simp add: housed_def)

lemma housed_step:
  assumes "hstep H k x y" "housed x"
  shows "housed y"
  using assms(1)
proof cases
  case (arrive h) then show ?thesis by (intro housed_out [OF assms(2), of y h Deciding]) simp_all
next
  case (refused h) then show ?thesis by (intro housed_out [OF assms(2), of y h Ended]) simp_all
next
  case (unusable h g sid e) then show ?thesis by (intro housed_out [OF assms(2), of y h Finishing]) simp_all
next
  case (turned_away h c e s') then show ?thesis by (intro housed_out [OF assms(2), of y h Finishing]) simp_all
next
  case (closes_sink h) then show ?thesis by (intro housed_out [OF assms(2), of y h Ended]) simp_all
next
  case (handler_done h) then show ?thesis by (intro housed_out [OF assms(2), of y h Gone]) simp_all
next
  case (upgraded h sid g c)
  then have "socket_of (ho_stage x j) \<noteq> Some (conn_id c)" for j using NewConnection_id [OF upgraded(5)] by (simp add: fresh_id_def)
  then show ?thesis using upgraded housedD(2) [OF assms(2)] by (intro housed_change [OF assms(2), of y h "Upgraded c"]) auto
next
  case (admitted h c s')
  then have "socket_of (ho_stage x j) \<noteq> Some (conn_id c)" if "j \<noteq> h" for j using housedD(3) [OF assms(2), of j "conn_id c" h] that by auto
  then show ?thesis using admitted housedD(2) [OF assms(2)]
    by (intro housed_change [OF assms(2), of y h "Holding (conn_id c)"]) (auto split: if_splits)
next
  case (announced_end h sid c reason)
  then have "ho_stage x j \<noteq> Holding sid" if "j \<noteq> h" for j using housedD(3) [OF assms(2), of j sid h] that by auto
  then show ?thesis using announced_end housedD(2) [OF assms(2)]
    by (intro housed_change [OF assms(2), of y h Finishing]) (auto split: if_splits)
next
  case (announced h sid c) then show ?thesis by (intro housed_same [OF assms(2)]) (auto split: if_splits)
next
  case (read_ends h sid c fallback reason s') then show ?thesis by (intro housed_same [OF assms(2)]) (auto split: if_splits)
qed (use assms(2) in \<open>simp_all add: housed_def\<close>)

text \<open>A step closes the server only by naming every socket on record.\<close>

lemma closing_besides:
  assumes "registry_ok H (ho_registry x, ho_phase x, ho_seen x)" "closing x"
    and "rstep H (ho_registry x, ho_phase x, ho_seen x) (s', ho_phase x, ho_seen x)"
  shows "closing (x\<lparr>ho_registry := s',
      ho_pending := ho_pending x \<union> {h. \<exists>sid \<in> newly_ended (ho_registry x) s'. ho_stage x h = Holding sid}\<rparr>)"
proof -
  have "h \<in> ho_pending x \<or> (\<exists>sid \<in> newly_ended (ho_registry x) s'. ho_stage x h = Holding sid)"
    if a: "closed s'" "ho_stage x h = Holding sid" "present (ho_phase x sid) = Some c" "ho_writer x h = Writing" for h sid c
  proof (cases "closed (ho_registry x)")
    case True
    then show ?thesis using assms(2) a unfolding closing_def by blast
  next
    case False
    have "(sid, c) \<in> set (conns (ho_registry x))" using registry_okD(2) [OF assms(1), of sid] a(3) by (simp add: map_of_SomeD)
    moreover have "conn_id c = sid" using registry_okD(3) [OF assms(1), of sid c] a(3) by (cases "ho_phase x sid") auto
    ultimately have "sid \<in> newly_ended (ho_registry x) s'" using rstep_besides(3) [OF assms(3) a(1)] False by force
    then show ?thesis using a(2) by blast
  qed
  then show ?thesis by (auto simp: closing_def)
qed

lemma closing_step:
  assumes "hstep H k x y" "registry_ok H (ho_registry x, ho_phase x, ho_seen x)" "housed x" "closing x"
  shows "closing y"
  using assms(1)
proof cases
  case (besides s') then show ?thesis using closing_besides [OF assms(2,4)] by simp
next
  case (admitted h c s') then show ?thesis using register_None(1,2) [OF admitted(4)] by (auto simp: closing_def)
next
  case (turned_away h c e s') then show ?thesis using register_Some [OF turned_away(4)] assms(4) by (auto simp: closing_def)
next
  case (read_ends h sid c fallback reason s')
  then show ?thesis using unregister_closed [OF read_ends(5)] assms(4) by (auto simp: closing_def)
next
  case (announced h sid c) then show ?thesis using assms(4) by (auto simp: closing_def)
next
  case (announced_end h sid c reason) then show ?thesis using assms(4) by (auto simp: closing_def)
qed (use assms(4) in \<open>auto simp: closing_def\<close>)

lemma hstep_closed:
  assumes "hstep H k x y" "closed (ho_registry x)"
  shows "closed (ho_registry y)"
  using assms(1)
proof cases
  case (besides s') then show ?thesis using rstep_besides(2) [OF besides(3)] assms(2) by simp
next
  case (read_ends h sid c fallback reason s') then show ?thesis using unregister_closed [OF read_ends(5)] assms(2) by simp
next
  case (admitted h c s') then show ?thesis using register_None(1) [OF admitted(4)] assms(2) by simp
next
  case (turned_away h c e s') then show ?thesis using register_Some [OF turned_away(4)] assms(2) by simp
qed (use assms(2) in simp_all)

text \<open>A closed house with nobody on the wait group: nobody comes, nobody is there to do anything.\<close>

lemma nobody_in:
  assumes "counted_ok x" "\<And>h. handler_ok (ho_stage x h) (ho_writer x h)" "ho_workers x = 0"
  shows "ho_stage x h = Away \<or> ho_stage x h = Gone" "ho_writer x h = NoWriter \<or> ho_writer x h = Stopped"
proof -
  have "workers_of x h = 0" using counted_at_least [OF assms(1), of h] assms(3) by simp
  then show "ho_stage x h = Away \<or> ho_stage x h = Gone" "ho_writer x h = NoWriter \<or> ho_writer x h = Stopped"
    by (cases "ho_stage x h"; cases "ho_writer x h"; simp add: workers_of_def)+
qed

lemma empty_step:
  assumes "hstep H k x y" "counted_ok x" "\<And>h. handler_ok (ho_stage x h) (ho_writer x h)" "closed (ho_registry x)" "ho_workers x = 0"
  shows "ho_workers y = 0 \<and> ho_seen y = ho_seen x \<and> ho_stage y = ho_stage x \<and> ho_writer y = ho_writer x"
proof -
  have st: "ho_stage x h = Away \<or> ho_stage x h = Gone" "ho_writer x h = NoWriter \<or> ho_writer x h = Stopped" for h
    by (rule nobody_in [OF assms(2,3,5)])+
  have same: "(ho_writer x)(h := close_writer (ho_writer x h)) = ho_writer x" for h using st(2) [of h] by (auto simp: fun_eq_iff)
  from assms(1) show ?thesis by cases (use st assms(4,5) same in \<open>auto, (metis stage.distinct writer.distinct)+\<close>)
qed

lemma hstep_keeps:
  assumes "hstep H k x y" "house_ok H x"
  shows "house_ok H y"
proof -
  note ok = house_okD [OF assms(2)]
  have "registry_ok H (ho_registry y, ho_phase y, ho_seen y)" using hstep_registry [OF assms(1) ok(4)] rstep_keeps [OF _ ok(1)] ok(1) by auto
  moreover have "returned y"
  proof (cases "InTime \<in> set (ho_returns x)")
    case True
    then have "closed (ho_registry x)" "ho_workers x = 0" using ok(6) by (simp_all add: returned_def)
    then show ?thesis using hstep_closed [OF assms(1)] empty_step [OF assms(1) ok(2) ok(3)] by (simp add: returned_def)
  next
    case False
    from assms(1) show ?thesis by cases (use False in \<open>simp_all add: returned_def\<close>)
  qed
  ultimately show ?thesis unfolding house_ok_def
    using counted_step [OF assms(1) ok(2) ok(3)] handler_step [OF assms(1) ok(3)] housed_step [OF assms(1) ok(4)] closing_step [OF assms(1) ok(1,4,5)]
    by blast
qed

interpretation house: transitions "\<lambda>x. \<exists>n. x = empty_house n" "\<lambda>x y. \<exists>k. hstep H k x y" "house_ok H" for H
proof unfold_locales
  fix x :: "'a house" assume "\<exists>n. x = empty_house n"
  moreover have "registry_ok H (new_registry n, (\<lambda>_. Absent), [])" for n using registry.start_inv by blast
  ultimately show "house_ok H x"
    by (auto simp: empty_house_def house_ok_def counted_ok_def workers_of_def sum_up_def housed_def closing_def returned_def)
qed (use hstep_keeps in blast)

lemma hrun_steps: "hrun H x ks y \<Longrightarrow> (\<lambda>x y. \<exists>k. hstep H k x y)\<^sup>*\<^sup>* x y"
  by (induction rule: hrun.induct) (auto intro: rtranclp.rtrancl_into_rtrancl)

lemmas hrun_keeps = house.kept [OF hrun_steps]

subsection \<open>Everybody leaves\<close>

text \<open>
  What is left to do goes down by every step of the program's own and, once the server is closed,
  goes up by none; and while somebody is on the wait group the program has such a step.
\<close>

definition own_move :: "cause \<Rightarrow> nat" where
  "own_move k = (if k = Own then 1 else 0)"

lemma work_finite: "counted_ok x \<Longrightarrow> finite {h. work_of x h \<noteq> 0}"
proof (rule finite_subset)
  show "{h. work_of x h \<noteq> 0} \<subseteq> {h. workers_of x h \<noteq> 0}"
  proof
    fix h assume "h \<in> {h. work_of x h \<noteq> 0}"
    then show "h \<in> {h. workers_of x h \<noteq> 0}" by (cases "ho_stage x h"; cases "ho_writer x h"; simp add: work_of_def workers_of_def)
  qed
qed (simp add: counted_ok_def)

lemma left_change:
  assumes "counted_ok x" "ho_stage y = (ho_stage x)(h := a)" "ho_writer y = (ho_writer x)(h := b)"
    and "\<And>j sid. j \<noteq> h \<Longrightarrow> ho_stage x j = Holding sid \<Longrightarrow> ho_phase y sid = ho_phase x sid"
    and "still_handling (ho_phase y) a + still_writing b + own_move k \<le> still_handling (ho_phase x) (ho_stage x h) + still_writing (ho_writer x h)"
  shows "left_to_do y + own_move k \<le> left_to_do x"
proof -
  have "work_of y j = ((work_of x)(h := still_handling (ho_phase y) a + still_writing b)) j" for j
  proof (cases "j = h")
    case False
    then show ?thesis using assms(2,3) assms(4) [of j] by (cases "ho_stage x j") (simp_all add: work_of_def)
  qed (use assms(2,3) in \<open>simp add: work_of_def\<close>)
  then have "work_of y = (work_of x)(h := still_handling (ho_phase y) a + still_writing b)" by blast
  moreover have "still_handling (ho_phase y) a + still_writing b + own_move k \<le> work_of x h" using assms(5) by (simp add: work_of_def)
  ultimately show ?thesis using sum_up_update(2) [OF work_finite [OF assms(1)], of h "still_handling (ho_phase y) a + still_writing b"]
    by (simp add: left_to_do_def)
qed

lemma left_step:
  assumes "hstep H k x y" "counted_ok x" "housed x" "closed (ho_registry x)"
  shows "left_to_do y + own_move k \<le> left_to_do x"
proof -
  have alone: "sid' \<noteq> sid" if "ho_stage x h = Holding sid" "j \<noteq> h" "ho_stage x j = Holding sid'" for h j sid sid'
    using housedD(3) [OF assms(3), of h sid j] that by auto
  note change = left_change [OF assms(2)]
  from assms(1) show ?thesis
  proof cases
    case (arrive h) then show ?thesis using assms(4) by simp
  next
    case (refused h) then show ?thesis by (intro change [of y h Ended "ho_writer x h"]) (simp_all add: own_move_def)
  next
    case (unusable h g sid e) then show ?thesis by (intro change [of y h Finishing Writing]) (simp_all add: own_move_def)
  next
    case (upgraded h sid g c) then show ?thesis by (intro change [of y h "Upgraded c" Writing]) (simp_all add: own_move_def)
  next
    case (admitted h c s') then show ?thesis using register_None(1) [OF admitted(4)] assms(4) by simp
  next
    case (turned_away h c e s') then show ?thesis by (intro change [of y h Finishing "ho_writer x h"]) (simp_all add: own_move_def)
  next
    case (announced h sid c)
    then show ?thesis using alone [of h sid] by (intro change [of y h "Holding sid" "ho_writer x h"]) (auto simp: own_move_def fun_upd_idem)
  next
    case (read_ends h sid c fallback reason s')
    then show ?thesis using alone [of h sid] by (intro change [of y h "Holding sid" "ho_writer x h"]) (auto simp: own_move_def fun_upd_idem)
  next
    case (announced_end h sid c reason)
    then show ?thesis using alone [of h sid] by (intro change [of y h Finishing "ho_writer x h"]) (auto simp: own_move_def)
  next
    case (closes_sink h)
    then show ?thesis by (intro change [of y h Ended "close_writer (ho_writer x h)"]) (cases "ho_writer x h"; simp add: own_move_def)+
  next
    case (handler_done h) then show ?thesis by (intro change [of y h Gone "ho_writer x h"]) (simp_all add: own_move_def)
  next
    case (writer_done h) then show ?thesis by (intro change [of y h "ho_stage x h" Stopped]) (simp_all add: own_move_def)
  next
    case (writer_failed h) then show ?thesis by (intro change [of y h "ho_stage x h" Stopped]) (simp_all add: own_move_def)
  next
    case (fell_behind h) then show ?thesis by (intro change [of y h "ho_stage x h" Stopping]) (simp_all add: own_move_def)
  next
    case (terminated h)
    then show ?thesis by (intro change [of y h "ho_stage x h" "close_writer (ho_writer x h)"]) (cases "ho_writer x h"; simp add: own_move_def)+
  qed (simp_all add: own_move_def left_to_do_def work_of_def [abs_def])
qed

lemma handler_moves:
  assumes "house_ok H x" "closed (ho_registry x)" "counted_handler (ho_stage x h) \<noteq> 0" "ho_writer x h \<noteq> Stopping"
  shows "\<exists>y. hstep H Own x y"
proof (cases "ho_stage x h")
  case Deciding then show ?thesis using hstep.refused [of x h H] by blast
next
  case (Upgraded c)
  obtain r s' where r: "register H c (ho_registry x) = (r, s')" by force
  show ?thesis
  proof (cases r)
    case None then show ?thesis using hstep.admitted [of x h c H s'] r Upgraded by blast
  next
    case (Some e) then show ?thesis using hstep.turned_away [of x h c H e s'] r Upgraded by blast
  qed
next
  case (Holding sid)
  have w: "ho_writer x h = Writing \<or> ho_writer x h = Stopped" using house_okD(3) [OF assms(1), of h] Holding assms(4) by (cases "ho_writer x h") auto
  show ?thesis
  proof (cases "ho_phase x sid")
    case Absent then show ?thesis using housedD(2) [OF house_okD(4) [OF assms(1)] Holding] by simp
  next
    case (Admitted c) then show ?thesis using hstep.announced [of x h sid c H] Holding by blast
  next
    case (Leaving c reason) then show ?thesis using hstep.announced_end [of x h sid c reason H] Holding by blast
  next
    case (Serving c)
    show ?thesis
    proof (cases "ho_writer x h = Writing")
      case True
      then have "h \<in> ho_pending x" using house_okD(5) [OF assms(1)] assms(2) Holding Serving unfolding closing_def by fastforce
      then show ?thesis using hstep.terminated [of h x Own H] True by auto
    next
      case False
      obtain reason s' where "unregister H c ReasonClient (ho_registry x) = (reason, s')" by force
      then show ?thesis using hstep.read_ends [of x h sid c ReasonClient H reason s' Own] w Holding Serving False by auto
    qed
  qed
next
  case Finishing then show ?thesis using hstep.closes_sink [of x h H] by blast
next
  case Ended then show ?thesis using hstep.handler_done [of x h H] by blast
qed (use assms(3) in simp_all)

lemma somebody_moves:
  assumes "house_ok H x" "closed (ho_registry x)" "ho_workers x \<noteq> 0"
  shows "\<exists>y. hstep H Own x y"
proof -
  obtain h where h: "workers_of x h \<noteq> 0" using house_okD(2) [OF assms(1)] assms(3) sum_up_positive [of "workers_of x"] by (auto simp: counted_ok_def)
  show ?thesis
  proof (cases "ho_writer x h = Stopping")
    case True then show ?thesis using hstep.writer_done [of x h H] by blast
  next
    case False
    have "counted_handler (ho_stage x h) \<noteq> 0" using h False house_okD(3) [OF assms(1), of h]
      by (cases "ho_stage x h"; cases "ho_writer x h"; simp add: workers_of_def)
    then show ?thesis using handler_moves [OF assms(1,2)] False by blast
  qed
qed

lemma hrun_closed:
  assumes "hrun H x ks y" "house_ok H x" "closed (ho_registry x)"
  shows "closed (ho_registry y) \<and> left_to_do y + count_list ks Own \<le> left_to_do x"
  using assms
proof (induction rule: hrun.induct)
  case (further x ks y k z)
  have "house_ok H y" using hrun_keeps [OF further(1)] further(4) .
  then show ?case using further left_step [OF further(2)] hstep_closed [OF further(2)] house_okD [of H y] by (force simp: own_move_def)
qed simp

lemma hrun_append: "hrun H y ls z \<Longrightarrow> hrun H x ks y \<Longrightarrow> hrun H x (ks @ ls) z"
  by (induction rule: hrun.induct) (auto intro: hrun.further simp flip: append_assoc)

lemma everybody_leaves:
  assumes "house_ok H x" "closed (ho_registry x)"
  shows "\<exists>n y. hrun H x (replicate n Own) y \<and> ho_workers y = 0"
  using assms
proof (induction "left_to_do x" arbitrary: x rule: less_induct)
  case less
  show ?case
  proof (cases "ho_workers x = 0")
    case True then show ?thesis using hrun.nothing [of H x] by (metis replicate_0)
  next
    case False
    then obtain y where y: "hstep H Own x y" using somebody_moves less(2,3) by blast
    have "left_to_do y < left_to_do x" using left_step [OF y house_okD(2,4) [OF less(2)]] less(3) by (simp add: own_move_def)
    then obtain n z where z: "hrun H y (replicate n Own) z" "ho_workers z = 0"
      using less(1) [of y] hstep_keeps [OF y less(2)] hstep_closed [OF y less(3)] by blast
    have "hrun H x [Own] y" using hrun.further [OF hrun.nothing y] by simp
    from hrun_append [OF z(1) this] have "hrun H x (replicate (Suc n) Own) z" by simp
    then show ?thesis using z(2) by blast
  qed
qed

lemma empty_run:
  assumes "hrun H x ks y" "house_ok H x" "closed (ho_registry x)" "ho_workers x = 0"
  shows "ho_workers y = 0 \<and> ho_seen y = ho_seen x \<and> ho_stage y = ho_stage x \<and> ho_writer y = ho_writer x"
  using assms
proof (induction rule: hrun.induct)
  case (further x ks y k z)
  have ok: "house_ok H y" using hrun_keeps [OF further(1)] further(4) .
  then show ?case using further hrun_closed [OF further(1)] empty_step [OF further(2) house_okD(2,3) [OF ok]] by simp
qed simp

lemma nobody_registered:
  assumes "house_ok H x" "ho_workers x = 0"
  shows "conns (ho_registry x) = []" "perTenant (ho_registry x) t = 0"
proof -
  note ok = house_okD [OF assms(1)]
  have "ho_phase x sid = Absent" for sid
    using housedD(1) [OF ok(4), of sid] nobody_in(1) [OF ok(2) ok(3) assms(2)] by (metis stage.distinct)
  then have "map_of (conns (ho_registry x)) sid = None" for sid using registry_okD(2) [OF ok(1), of sid] by simp
  then have "map_of (conns (ho_registry x)) = Map.empty" by blast
  then show "conns (ho_registry x) = []" by simp
  then show "perTenant (ho_registry x) t = 0" using registry_okD(4) [OF ok(1), of t] by (simp add: held_by_def)
qed

lemma hstep_conns:
  assumes "hstep H k x y" "closed (ho_registry x)"
  shows "set (conns (ho_registry y)) \<subseteq> set (conns (ho_registry x))"
  using assms(1)
proof cases
  case (besides s') then show ?thesis using rstep_besides(1) [OF besides(3)] by simp
next
  case (admitted h c s') then show ?thesis using register_None(1) [OF admitted(4)] assms(2) by simp
next
  case (turned_away h c e s') then show ?thesis using register_Some [OF turned_away(4)] by simp
next
  case (read_ends h sid c fallback reason s')
  then show ?thesis by (auto simp: unregister_def Let_def AList.delete_eq split: if_splits)
qed simp_all

lemma hrun_conns:
  assumes "hrun H x ks y" "house_ok H x" "closed (ho_registry x)"
  shows "set (conns (ho_registry y)) \<subseteq> set (conns (ho_registry x))"
  using assms
proof (induction rule: hrun.induct)
  case (further x ks y k z)
  then show ?case using hstep_conns [OF further(2)] hrun_closed [OF further(1)] by blast
qed simp

text \<open>Property C36. A shutdown leaves nobody. However handlers, writers, clients, operators and calls of \<open>Close\<close>
  interleave, when a \<open>Close\<close> returns because the wait group is done, rather than because its context
  is, no handler is under way, no writer runs, no socket is registered and every tenant's count is
  zero, and from then on nobody comes in and the observer hears nothing more. And \<open>Close\<close> does not
  wait in vain: once the server is closed, nobody new is registered, on every run the handlers and
  writers have at most \<open>left_to_do\<close> steps of their own left, whatever clients and operators do, they are
  never stuck while one of them is on the wait group, and by such steps alone the house comes to the
  point where \<open>Close\<close> returns. Not one of these steps waits for a client: a socket that is being
  served is let go because \<open>Close\<close> named it and its sink was closed.\<close>

theorem shutdown_leaves_nobody:
  assumes "hrun H (empty_house n) ks x"
  shows "(InTime \<in> set (ho_returns x) \<longrightarrow> closed (ho_registry x) \<and> ho_workers x = 0 \<and> conns (ho_registry x) = [] \<and>
      (\<forall>t. perTenant (ho_registry x) t = 0) \<and> (\<forall>h. ho_stage x h \<in> {Away, Gone} \<and> ho_writer x h \<in> {NoWriter, Stopped}) \<and>
      (\<forall>ls y. hrun H x ls y \<longrightarrow> ho_seen y = ho_seen x \<and> ho_stage y = ho_stage x \<and> conns (ho_registry y) = [])) \<and>
    (closed (ho_registry x) \<longrightarrow>
      (\<forall>ls y. hrun H x ls y \<longrightarrow> set (conns (ho_registry y)) \<subseteq> set (conns (ho_registry x)) \<and> count_list ls Own \<le> left_to_do x \<and>
        (ho_workers y \<noteq> 0 \<longrightarrow> (\<exists>z. hstep H Own y z))) \<and>
      (\<exists>m y z. hrun H x (replicate m Own) y \<and> hstep H Foreign y z \<and> ho_returns z = ho_returns y @ [InTime]))"
proof -
  have ok: "house_ok H x" using house.reachable_inv hrun_steps [OF assms] by blast
  note D = house_okD [OF ok]
  have "ho_seen y = ho_seen x \<and> ho_stage y = ho_stage x \<and> conns (ho_registry y) = []"
    if "hrun H x ls y" "closed (ho_registry x)" "ho_workers x = 0" for ls y
    using empty_run [OF that(1) ok that(2,3)] nobody_registered(1) [OF hrun_keeps [OF that(1) ok]] by simp
  then have "InTime \<in> set (ho_returns x) \<longrightarrow> closed (ho_registry x) \<and> ho_workers x = 0 \<and> conns (ho_registry x) = [] \<and>
      (\<forall>t. perTenant (ho_registry x) t = 0) \<and> (\<forall>h. ho_stage x h \<in> {Away, Gone} \<and> ho_writer x h \<in> {NoWriter, Stopped}) \<and>
      (\<forall>ls y. hrun H x ls y \<longrightarrow> ho_seen y = ho_seen x \<and> ho_stage y = ho_stage x \<and> conns (ho_registry y) = [])"
    using D(6) nobody_in [OF D(2) D(3)] nobody_registered [OF ok] by (simp add: returned_def)
  moreover have "set (conns (ho_registry y)) \<subseteq> set (conns (ho_registry x)) \<and> count_list ls Own \<le> left_to_do x \<and>
        (ho_workers y \<noteq> 0 \<longrightarrow> (\<exists>z. hstep H Own y z))" if "hrun H x ls y" "closed (ho_registry x)" for ls y
    using hrun_closed [OF that(1) ok that(2)] hrun_conns [OF that(1) ok that(2)] somebody_moves [OF hrun_keeps [OF that(1) ok]] by simp
  moreover have "\<exists>m y z. hrun H x (replicate m Own) y \<and> hstep H Foreign y z \<and> ho_returns z = ho_returns y @ [InTime]" if "closed (ho_registry x)"
  proof -
    obtain m y where y: "hrun H x (replicate m Own) y" "ho_workers y = 0" using everybody_leaves [OF ok \<open>closed _\<close>] by blast
    then have "hstep H Foreign y (y\<lparr>ho_returns := ho_returns y @ [InTime]\<rparr>)" using hstep.close_waited hrun_closed [OF y(1) ok \<open>closed _\<close>] by blast
    then show ?thesis using y(1) by fastforce
  qed
  ultimately show ?thesis by blast
qed

section \<open>Witnesses\<close>

text \<open>A request of the route that a policy that grants everything lets through, and whose peer says nothing.\<close>

definition sample_server :: Server where
  "sample_server = \<lparr>appID = ''app'', appKey = ''key'', operates = False, relayed = False, maxMessageSize = 100,
      maxBodySize = 100, outboundQueue = 2, writeTimeout = 1, pingInterval = 1, pongTimeout = 2, srv_maxConnections = 2,
      maxMessagesPerSecond = 2\<rparr>"

definition sample_surroundings :: surroundings where
  "sample_surroundings = \<lparr>sx_random = Some [0, 0, 0, 1, 0, 0, 0, 1], sx_hijack = Hijacked idle_conn \<lparr>avail = [], stop = EOF\<rparr> 0,
    sx_keys = (\<lambda>_. 0), sx_clock = (\<lambda>_. 0), sx_opened = 0, sx_deadline = (\<lambda>_. None)\<rparr>"

definition sample_dial :: handshake_request where
  "sample_dial = \<lparr>hq_Method = ''GET'', hq_Header = dial_header (b64_encode (replicate 16 0)) [], hq_Host = ''a.b''\<rparr>"

definition sample_socket_state :: "sample_grant socket_state" where
  "sample_socket_state = \<lparr>so_registry = new_registry 2, so_pusher = sample_pusher, so_seen = [], so_asked = []\<rparr>"

lemma sample_origin: "header_Get (hq_Header sample_dial) ''Origin'' = []"
  by (simp add: sample_dial_def header_Get_def header_Values_def dial_header_def header_Set_def own_names)

lemma sample_upgrade: "\<exists>c. Upgrade server_upgrader (\<lambda>_. None) (sx_hijack sample_surroundings) None None (sx_keys sample_surroundings) sample_dial [] = Switched c"
proof -
  have "sameOrigin (\<lambda>_. None) sample_dial" using sample_origin by (simp add: sameOrigin_def)
  then show ?thesis unfolding sample_dial_def sample_surroundings_def
    by (simp add: upgrade_of_dial idle_conn_def)
qed

lemma sample_socket_id: "newSocketID (sx_random sample_surroundings) = Inr ''1.1''"
  by (simp add: newSocketID_def sample_surroundings_def be_nat_def nat_string.simps hex_digit_def)

theorem no_socket_without_the_policy_witness:
  "\<exists>st' g. handleSocket sample_env sample_server (\<lambda>_ s a _. Inr \<lparr>gr_subject = s, gr_tenant = ''acme'', gr_action = a\<rparr>) (\<lambda>_. None)
      sample_surroundings \<lparr>sq_appKey = ''key'', sq_subject = Some ''ana'', sq_http = sample_dial\<rparr> sample_socket_state = (Served, st') \<and>
    so_asked st' = [\<lparr>hs_Socket = ''1.1'', hs_Origin = []\<rparr>] \<and> so_seen st' \<noteq> [] \<and> (\<forall>ob \<in> set (so_seen st'). about_socket ''1.1'' ''acme'' ob)"
proof -
  let ?policy = "\<lambda>_ s a _. Inr \<lparr>gr_subject = s, gr_tenant = ''acme'', gr_action = a\<rparr> :: jerr + sample_grant"
  let ?r = "\<lparr>sq_appKey = ''key'', sq_subject = Some ''ana'', sq_http = sample_dial\<rparr>"
  note sid = sample_socket_id
  obtain c where c: "Upgrade server_upgrader (\<lambda>_. None) (sx_hijack sample_surroundings) None None (sx_keys sample_surroundings) sample_dial [] = Switched c"
    using sample_upgrade by blast
  have conn: "NewConnection (hes sample_env) \<lparr>gr_subject = ''ana'', gr_tenant = ''acme'', gr_action = Connect\<rparr> ''1.1'' True =
      Inr \<lparr>conn_id = ''1.1'', conn_grant = \<lparr>gr_subject = ''ana'', gr_tenant = ''acme'', gr_action = Connect\<rparr>\<rparr>"
    by (simp add: NewConnection_def sample_env_def sample_hesape_def)
  have "fst (handleSocket sample_env sample_server ?policy (\<lambda>_. None) sample_surroundings ?r sample_socket_state) = Served"
    using c conn sid by (simp add: handleSocket_def sample_server_def sample_socket_state_def new_registry_def Let_def split_def)
  then obtain st' where h: "handleSocket sample_env sample_server ?policy (\<lambda>_. None) sample_surroundings ?r sample_socket_state = (Served, st')"
    by (metis prod.collapse)
  from no_socket_without_the_policy [OF h] sid obtain g new where
    "so_asked st' = so_asked sample_socket_state @ [\<lparr>hs_Socket = ''1.1'', hs_Origin = []\<rparr>]" "so_seen st' = so_seen sample_socket_state @ new"
    "new \<noteq> []" "\<forall>ob \<in> set new. about_socket ''1.1'' ''acme'' ob"
    by (auto simp: sample_origin sample_env_def sample_hesape_def)
  then show ?thesis using h by (auto simp: sample_socket_state_def)
qed

text \<open>A server that is closed while it serves a socket that says nothing.\<close>

definition serving_house :: "sample_grant house" where
  "serving_house = \<lparr>ho_registry = one_in, ho_phase = (\<lambda>_. Absent)(''1.1'' := Serving ana_socket), ho_seen = [ObsConnectionOpened ''1.1'' ''acme''],
    ho_stage = (\<lambda>_. Away)(0 := Holding ''1.1''), ho_writer = (\<lambda>_. NoWriter)(0 := Writing), ho_pending = {}, ho_workers = 2, ho_returns = []\<rparr>"

lemma serving_house_run: "hrun sample_hesape (empty_house 1) [Foreign, Own, Own, Own] serving_house"
proof -
  let ?a = "empty_house 1 :: sample_grant house"
  let ?b = "?a\<lparr>ho_stage := (ho_stage ?a)(0 := Deciding), ho_workers := Suc (ho_workers ?a)\<rparr>"
  let ?c = "?b\<lparr>ho_stage := (ho_stage ?b)(0 := Upgraded ana_socket), ho_writer := (ho_writer ?b)(0 := Writing), ho_workers := Suc (ho_workers ?b)\<rparr>"
  let ?d = "?c\<lparr>ho_registry := one_in, ho_phase := (ho_phase ?c)(conn_id ana_socket := Admitted ana_socket),
      ho_stage := (ho_stage ?c)(0 := Holding (conn_id ana_socket))\<rparr>"
  let ?e = "?d\<lparr>ho_phase := (ho_phase ?d)(''1.1'' := Serving ana_socket), ho_seen := ho_seen ?d @ [ObsConnectionOpened ''1.1'' (conn_Tenant sample_hesape ana_socket)]\<rparr>"
  have s1: "hstep sample_hesape Foreign ?a ?b" by (rule hstep.arrive) (simp_all add: empty_house_def new_registry_def)
  have "NewConnection sample_hesape (conn_grant ana_socket) ''1.1'' True = Inr ana_socket"
    by (simp add: NewConnection_def ana_socket_def sample_conn_def sample_hesape_def)
  then have s2: "hstep sample_hesape Own ?b ?c" by (intro hstep.upgraded [where sid = "''1.1''"]) (simp_all add: empty_house_def fresh_id_def)
  have "register sample_hesape ana_socket (new_registry 1) = (None, one_in)"
    by (simp add: register_def socket_facts new_registry_def one_in_def)
  then have s3: "hstep sample_hesape Own ?c ?d" by (intro hstep.admitted) (simp_all add: empty_house_def)
  have s4: "hstep sample_hesape Own ?d ?e" by (rule hstep.announced [where h = 0]) (simp_all add: socket_facts)
  have "?e = serving_house" by (simp add: serving_house_def empty_house_def socket_facts)
  then show ?thesis using hrun.further [OF hrun.further [OF hrun.further [OF hrun.further [OF hrun.nothing s1] s2] s3] s4]
    by (simp only: append_Nil append_Cons)
qed

theorem shutdown_leaves_nobody_witness:
  "\<exists>ks x m y z. hrun sample_hesape (empty_house 1) ks x \<and> conns (ho_registry x) \<noteq> [] \<and> ho_workers x = 2 \<and> closed (ho_registry x) \<and>
    hrun sample_hesape x (replicate m Own) y \<and> hstep sample_hesape Foreign y z \<and> InTime \<in> set (ho_returns z) \<and> conns (ho_registry z) = []"
proof -
  let ?s = "serving_house"
  define x where "x = ?s\<lparr>ho_registry := server_Close one_in,
      ho_pending := ho_pending ?s \<union> {h. \<exists>sid \<in> newly_ended (ho_registry ?s) (server_Close one_in). ho_stage ?s h = Holding sid}\<rparr>"
  have "ho_registry ?s = one_in" by (simp add: serving_house_def)
  then have "hstep sample_hesape Foreign ?s x" unfolding x_def using hstep.besides [of sample_hesape ?s "server_Close one_in"] rstep.shutdown by metis
  from hrun.further [OF serving_house_run this] have r: "hrun sample_hesape (empty_house 1) ([Foreign, Own, Own, Own] @ [Foreign]) x" .
  have x: "conns (ho_registry x) \<noteq> []" "ho_workers x = 2" "closed (ho_registry x)"
    by (simp_all add: x_def server_Close_def doom_keeps one_in_def serving_house_def)
  obtain m y z where m: "hrun sample_hesape x (replicate m Own) y" "hstep sample_hesape Foreign y z" "ho_returns z = ho_returns y @ [InTime]"
    using shutdown_leaves_nobody [OF r] x(3) by blast
  have "conns (ho_registry z) = []" using shutdown_leaves_nobody [OF hrun.further [OF hrun_append [OF m(1) r] m(2)]] m(3) by simp
  then show ?thesis using r x m by fastforce
qed

end
