(* ===== verification/Door_Sign.thy ===== *)
theory Door_Sign
  imports Joaju_Types Go_Crypto Go_Http
begin

text \<open>
  \<^verbatim>\<open>cmd/joaju/frontdoor.go\<close> and \<^verbatim>\<open>cmd/joaju/policy.go\<close>: who a request is from, and the three
  decisions of the standalone process. A request under the API's path acts as the application when it
  carries a signature over its method, path and query, fresh and computed with the app secret, and a
  body of the digest that was signed; every other request is the anonymous reader. A browser reaches a
  guarded channel with the signature its application issued for its socket and that channel.

  Shown: exactly which requests act as the application; what a signature binds, for requests whose
  parameters hold no separator, and what it does not bind otherwise; exactly which subscriptions are
  allowed, and that a signature serves one socket and one channel.
\<close>

section \<open>Requests and subjects\<close>

type_synonym url_values = "(string \<times> string list) list"

definition query_get :: "url_values \<Rightarrow> string \<Rightarrow> string" where
  "query_get vs k = (case map_of vs k of Some (v # _) \<Rightarrow> v | _ \<Rightarrow> [])"

text \<open>A request as net/http hands it over, its query already parsed.\<close>

record door_request =
  dr_Method :: string
  dr_Path :: string
  dr_EscapedPath :: string
  dr_Query :: url_values
  dr_Body :: body

record Subject =
  sj_ID :: string
  sj_Tenant :: string
  sj_Roles :: "string list"

text \<open>
  Of hesape: the anonymous reader of a tenant, and whether a subject has a role. The reader is of the
  tenant it was made for and has no role; the roles of a subject are the ones it was made with.
\<close>

record door_auth =
  Guest :: "string \<Rightarrow> Subject"
  HasRole :: "Subject \<Rightarrow> string \<Rightarrow> bool"

definition door_documented :: "door_auth \<Rightarrow> bool" where
  "door_documented D \<longleftrightarrow> (\<forall>t. sj_Tenant (Guest D t) = t \<and> sj_Roles (Guest D t) = []) \<and>
    (\<forall>s r. HasRole D s r \<longleftrightarrow> r \<in> set (sj_Roles s))"

section \<open>The front door\<close>

definition apiPrefix :: string where "apiPrefix = ''/apps/''"
definition paramAuthKey :: string where "paramAuthKey = ''auth_key''"
definition paramAuthTimestamp :: string where "paramAuthTimestamp = ''auth_timestamp''"
definition paramAuthSignature :: string where "paramAuthSignature = ''auth_signature''"
definition paramBodyMD5 :: string where "paramBodyMD5 = ''body_md5''"
definition applicationSubjectPrefix :: string where "applicationSubjectPrefix = ''app:''"
definition roleApplication :: string where "roleApplication = ''application''"

text \<open>Times and durations are in nanoseconds.\<close>

definition signatureWindow :: int where "signatureWindow = 10 * 60 * 1000000000"

record frontDoor =
  fd_appKey :: string
  fd_secret :: "byte list"
  fd_tenant :: string
  fd_maxBody :: int

definition signature :: "byte list \<Rightarrow> string \<Rightarrow> string" where
  "signature secret signing = hex_encode (Hmac secret (bytes_of_string signing))"

definition digest :: "string \<Rightarrow> byte list" where
  "digest b = Md5 (bytes_of_string b)"

fun join_with :: "string \<Rightarrow> string list \<Rightarrow> string" where
  "join_with sep [] = []"
| "join_with sep [x] = x"
| "join_with sep (x # y # zs) = x @ sep @ join_with sep (y # zs)"

definition signed_params :: "url_values \<Rightarrow> (string \<times> string) list" where
  "signed_params query = map (\<lambda>(n, vs). (n, hd vs)) (filter (\<lambda>(n, vs). n \<noteq> paramAuthSignature \<and> vs \<noteq> []) query)"

definition signingString :: "string \<Rightarrow> string \<Rightarrow> url_values \<Rightarrow> string" where
  "signingString method path query =
    (let params = signed_params query;
         pairs = map (\<lambda>n. n @ ''='' @ the (map_of params n)) (sort (map fst params))
     in method @ [CHR 0x0A] @ path @ [CHR 0x0A] @ join_with ''&'' pairs)"

text \<open>\<open>Time.Sub\<close> saturates, and so does \<open>Abs\<close>.\<close>

definition skew :: "int \<Rightarrow> int \<Rightarrow> int" where
  "skew now seconds = min (2 ^ 63 - 1) \<bar>now - seconds * 1000000000\<bar>"

definition verify :: "frontDoor \<Rightarrow> int \<Rightarrow> door_request \<Rightarrow> string option" where
  "verify d now r =
    (let query = dr_Query r in
     if query_get query paramAuthKey \<noteq> fd_appKey d then Some ''this server answers for another application''
     else case ParseInt (query_get query paramAuthTimestamp) of
       None \<Rightarrow> Some ''not a number of seconds since the epoch''
     | Some seconds \<Rightarrow>
         if skew now seconds > signatureWindow then Some ''too far away from now''
         else if signature (fd_secret d) (signingString (dr_Method r) (dr_EscapedPath r) query) \<noteq> query_get query paramAuthSignature
         then Some ''the signature does not match what this server computed''
         else None)"

definition bodyMatches :: "url_values \<Rightarrow> string \<Rightarrow> string option" where
  "bodyMatches query b =
    (case map_of query paramBodyMD5 of
       None \<Rightarrow> if length b > 0 then Some ''the signature does not cover the body'' else None
     | Some claimed \<Rightarrow>
         if claimed = [] \<or> hd claimed \<noteq> hex_encode (digest b) then Some ''the digest does not match the body that arrived'' else None)"

definition application :: "frontDoor \<Rightarrow> Subject" where
  "application d = \<lparr>sj_ID = applicationSubjectPrefix @ fd_appKey d, sj_Tenant = fd_tenant d, sj_Roles = [roleApplication]\<rparr>"

text \<open>\<open>io.ReadAll\<close> of a body that may not be longer than a limit.\<close>

datatype read_result = Got string | TooLarge | Unreadable

definition read_body :: "int \<Rightarrow> body \<Rightarrow> read_result" where
  "read_body limit b =
    (case b of
       Whole s \<Rightarrow> if int (length s) > max 0 limit then TooLarge else Got s
     | Cut s \<Rightarrow> if int (length s) > max 0 limit then TooLarge else Unreadable)"

text \<open>A request is handed on as somebody, with the body that is left to read, or answered here.\<close>

datatype door_outcome = Hand Subject body | Answer int string

definition door_ServeHTTP :: "door_auth \<Rightarrow> frontDoor \<Rightarrow> int \<Rightarrow> door_request \<Rightarrow> door_outcome" where
  "door_ServeHTTP D d now r =
    (if \<not> prefix apiPrefix (dr_Path r) then Hand (Guest D (fd_tenant d)) (dr_Body r)
     else if verify d now r \<noteq> None then Answer 401 ''Authentication signature invalid.''
     else case read_body (fd_maxBody d) (dr_Body r) of
       TooLarge \<Rightarrow> Answer 413 ''The body is larger than this server reads.''
     | Unreadable \<Rightarrow> Answer 400 ''The body could not be read.''
     | Got b \<Rightarrow>
         if bodyMatches (dr_Query r) b \<noteq> None then Answer 401 ''Authentication signature invalid.''
         else Hand (application d) (Whole b))"

section \<open>The three policies\<close>

record connectPolicy =
  cp_tenant :: string
  cp_origins :: "string list"

definition connect_Can :: "connectPolicy \<Rightarrow> Subject \<Rightarrow> string \<Rightarrow> Handshake \<Rightarrow> string option" where
  "connect_Can p s a h =
    (if a \<noteq> Connect then Some ''the only action this policy answers is another''
     else if sj_Tenant s \<noteq> cp_tenant p then Some ''this process serves another tenant''
     else if cp_origins p = [] then None
     else if List.member (cp_origins p) (hs_Origin h) then None
     else Some ''the origin is not one this server accepts sockets from'')"

record operationPolicy =
  opp_tenant :: string

definition operation_Can :: "door_auth \<Rightarrow> operationPolicy \<Rightarrow> Subject \<Rightarrow> string \<Rightarrow> Operation \<Rightarrow> string option" where
  "operation_Can D p s a opn =
    (if a \<noteq> Operate then Some ''the only action this policy answers is another''
     else if sj_Tenant s \<noteq> opp_tenant p then Some ''this process serves another tenant''
     else if \<not> HasRole D s roleApplication then Some (op_Route opn @ '' answers the application'')
     else None)"

record subscriptionPolicy =
  sp_tenant :: string
  sp_appKey :: string
  sp_secret :: "byte list"

definition subscriptionSigningString :: "Subscription \<Rightarrow> string" where
  "subscriptionSigningString sub =
    (let signing = subs_Socket sub @ '':'' @ requested (subs_Channel sub)
     in if length (subs_ChannelData sub) > 0 then signing @ '':'' @ subs_ChannelData sub else signing)"

definition subscription_verify :: "subscriptionPolicy \<Rightarrow> Subscription \<Rightarrow> string option" where
  "subscription_verify p sub =
    (if subs_Auth sub = [] then Some ''the subscription carried no signature''
     else if subs_Socket sub = [] then Some ''the subscription named no socket''
     else if sp_appKey p @ '':'' @ signature (sp_secret p) (subscriptionSigningString sub) \<noteq> subs_Auth sub
     then Some ''the signature is not the one this server computed''
     else None)"

definition subscription_Can :: "('g, 's) hesape \<Rightarrow> door_auth \<Rightarrow> subscriptionPolicy \<Rightarrow> Subject \<Rightarrow> string \<Rightarrow> Subscription \<Rightarrow> string option" where
  "subscription_Can H D p s a sub =
    (if a \<noteq> ChannelJoin H then Some ''the only action this policy answers is another''
     else if sj_Tenant s \<noteq> sp_tenant p then Some ''this process serves another tenant''
     else if IsZero (subs_Channel sub) then
       (if HasRole D s roleApplication then None else Some ''the subscription named no channel'')
     else if \<not> Guarded (name_Type H (subs_Channel sub)) then None
     else if HasRole D s roleApplication then None
     else subscription_verify p sub)"

section \<open>What is signed can be read back\<close>

lemma split_join:
  assumes "xs \<noteq> []" "\<forall>x \<in> set xs. c \<notin> set x"
  shows "split_on c (join_with [c] xs) = xs"
  using assms by (induction "[c]" xs rule: join_with.induct) (auto simp: split_on_none split_on_append)

lemma join_inj:
  assumes "join_with [c] xs = join_with [c] ys" "\<forall>x \<in> set xs \<union> set ys. c \<notin> set x \<and> x \<noteq> []"
  shows "xs = ys"
proof (cases "xs = [] \<or> ys = []")
  case True
  have "join_with [c] zs = [] \<longleftrightarrow> zs = []" if "\<forall>z \<in> set zs. z \<noteq> []" for zs
    using that by (induction "[c]" zs rule: join_with.induct) auto
  then show ?thesis using True assms by (metis UnCI join_with.simps(1))
next
  case False
  then show ?thesis using split_join [of xs c] split_join [of ys c] assms by (metis UnCI)
qed

text \<open>A request whose parameters hold no separator where one is read.\<close>

definition plain_query :: "url_values \<Rightarrow> bool" where
  "plain_query vs \<longleftrightarrow> distinct (map fst vs) \<and>
    (\<forall>(n, v) \<in> set vs. CHR ''='' \<notin> set n \<and> CHR ''&'' \<notin> set n \<and> v \<noteq> [] \<and> CHR ''&'' \<notin> set (hd v))"

definition plain_request :: "door_request \<Rightarrow> bool" where
  "plain_request r \<longleftrightarrow> plain_query (dr_Query r) \<and> CHR 0x0A \<notin> set (dr_Method r) \<and> CHR 0x0A \<notin> set (dr_EscapedPath r)"

lemma map_of_signed:
  assumes "plain_query vs" "n \<noteq> paramAuthSignature"
  shows "map_of (signed_params vs) n = map_option hd (map_of vs n)"
  using assms
proof (induction vs)
  case (Cons p vs)
  then show ?case by (cases p) (auto simp: signed_params_def plain_query_def)
qed (simp add: signed_params_def)

lemma set_signed:
  "(n, v) \<in> set (signed_params vs) \<longleftrightarrow> (\<exists>w. (n, w) \<in> set vs \<and> n \<noteq> paramAuthSignature \<and> w \<noteq> [] \<and> v = hd w)"
  by (force simp: signed_params_def)

lemma signed_names:
  assumes "plain_query vs"
  shows "distinct (map fst (signed_params vs))"
    "(n, v) \<in> set (signed_params vs) \<Longrightarrow> CHR ''='' \<notin> set n \<and> CHR ''&'' \<notin> set n \<and> CHR ''&'' \<notin> set v"
proof -
  have "map fst (signed_params vs) = map fst (filter (\<lambda>(n, w). n \<noteq> paramAuthSignature \<and> w \<noteq> []) vs)"
    by (simp add: signed_params_def split_def comp_def)
  then show "distinct (map fst (signed_params vs))" using assms by (simp add: plain_query_def distinct_map_filter)
  show "(n, v) \<in> set (signed_params vs) \<Longrightarrow> CHR ''='' \<notin> set n \<and> CHR ''&'' \<notin> set n \<and> CHR ''&'' \<notin> set v"
    using assms by (auto simp: set_signed plain_query_def)
qed

definition pairs_of :: "(string \<times> string) list \<Rightarrow> string list" where
  "pairs_of ps = map (\<lambda>n. n @ ''='' @ the (map_of ps n)) (sort (map fst ps))"

lemma pairs_of_inj:
  assumes "distinct (map fst ps)" "distinct (map fst qs)" "pairs_of ps = pairs_of qs"
    "\<forall>(n, v) \<in> set ps \<union> set qs. CHR ''='' \<notin> set n"
  shows "map_of ps = map_of qs"
proof -
  have names: "map (takeWhile (\<lambda>c. c \<noteq> CHR ''='')) (pairs_of zs) = sort (map fst zs)" if "\<forall>(n, v) \<in> set zs. CHR ''='' \<notin> set n" for zs
  proof -
    have "takeWhile (\<lambda>c. c \<noteq> CHR ''='') (n @ ''='' @ w) = n" if "n \<in> fst ` set zs" for n w
      using \<open>\<forall>(n, v) \<in> set zs. CHR ''='' \<notin> set n\<close> that by (subst takeWhile_append2) auto
    then show ?thesis unfolding pairs_of_def map_map by (intro map_idI) (simp add: comp_def)
  qed
  have eq: "sort (map fst ps) = sort (map fst qs)" using names [of ps] names [of qs] assms(3,4) by auto
  then have dom: "fst ` set ps = fst ` set qs" by (metis list.set_map set_sort)
  show ?thesis
  proof
    fix n
    show "map_of ps n = map_of qs n"
    proof (cases "n \<in> fst ` set ps")
      case True
      then have "n \<in> set (sort (map fst ps))" by simp
      moreover have "\<forall>n \<in> set (sort (map fst ps)). n @ ''='' @ the (map_of ps n) = n @ ''='' @ the (map_of qs n)"
        using assms(3) eq unfolding pairs_of_def by (simp add: map_eq_conv)
      ultimately have "the (map_of ps n) = the (map_of qs n)" by auto
      moreover have "map_of ps n \<noteq> None" "map_of qs n \<noteq> None" using True dom by (simp_all add: map_of_eq_None_iff)
      ultimately show ?thesis by auto
    next
      case False
      then show ?thesis using dom by (metis map_of_eq_None_iff)
    qed
  qed
qed

lemma signingString_pairs:
  "signingString m p vs = m @ CHR 0x0A # p @ CHR 0x0A # join_with ''&'' (pairs_of (signed_params vs))"
  by (simp add: signingString_def pairs_of_def Let_def)

lemma pairs_of_plain:
  assumes "plain_query vs" "x \<in> set (pairs_of (signed_params vs))"
  shows "CHR ''&'' \<notin> set x \<and> x \<noteq> []"
proof -
  obtain n where n: "n \<in> fst ` set (signed_params vs)" "x = n @ ''='' @ the (map_of (signed_params vs) n)"
    using assms(2) by (auto simp: pairs_of_def)
  then obtain v where v: "(n, v) \<in> set (signed_params vs)" by force
  then have "map_of (signed_params vs) n = Some v" using signed_names(1) [OF assms(1)] by simp
  then show ?thesis using n signed_names(2) [OF assms(1) v] by auto
qed

lemma signingString_inj:
  assumes "plain_request r" "plain_request r'"
    "signingString (dr_Method r) (dr_EscapedPath r) (dr_Query r) = signingString (dr_Method r') (dr_EscapedPath r') (dr_Query r')"
  shows "dr_Method r = dr_Method r'" "dr_EscapedPath r = dr_EscapedPath r'"
    "map_of (signed_params (dr_Query r)) = map_of (signed_params (dr_Query r'))"
proof -
  note pl = assms(1,2) [unfolded plain_request_def]
  have q: "plain_query (dr_Query r)" "plain_query (dr_Query r')" using pl by simp_all
  have one: "dr_Method r = dr_Method r' \<and> dr_EscapedPath r @ CHR 0x0A # join_with ''&'' (pairs_of (signed_params (dr_Query r))) =
      dr_EscapedPath r' @ CHR 0x0A # join_with ''&'' (pairs_of (signed_params (dr_Query r')))"
    by (rule split_separator [where c = "CHR 0x0A"]) (use assms(3) pl in \<open>simp_all add: signingString_pairs\<close>)
  have two: "dr_EscapedPath r = dr_EscapedPath r' \<and>
      join_with ''&'' (pairs_of (signed_params (dr_Query r))) = join_with ''&'' (pairs_of (signed_params (dr_Query r')))"
    by (rule split_separator [where c = "CHR 0x0A"]) (use one pl in simp_all)
  have "pairs_of (signed_params (dr_Query r)) = pairs_of (signed_params (dr_Query r'))"
    by (rule join_inj [of "CHR ''&''"]) (use two pairs_of_plain [OF q(1)] pairs_of_plain [OF q(2)] in auto)
  then show "map_of (signed_params (dr_Query r)) = map_of (signed_params (dr_Query r'))"
    by (rule pairs_of_inj [rotated 2]) (use signed_names [OF q(1)] signed_names [OF q(2)] in auto)
  show "dr_Method r = dr_Method r'" "dr_EscapedPath r = dr_EscapedPath r'" using one two by simp_all
qed

lemma verify_None:
  "verify d now r = None \<longleftrightarrow> query_get (dr_Query r) paramAuthKey = fd_appKey d \<and>
    (\<exists>seconds. ParseInt (query_get (dr_Query r) paramAuthTimestamp) = Some seconds \<and> \<bar>now - seconds * 1000000000\<bar> \<le> signatureWindow) \<and>
    query_get (dr_Query r) paramAuthSignature = signature (fd_secret d) (signingString (dr_Method r) (dr_EscapedPath r) (dr_Query r))"
  by (auto simp: verify_def Let_def skew_def signatureWindow_def split: option.splits)

lemma bodyMatches_None:
  "bodyMatches q b = None \<longleftrightarrow> (case map_of q paramBodyMD5 of None \<Rightarrow> b = [] | Some c \<Rightarrow> c \<noteq> [] \<and> hd c = hex_encode (digest b))"
  by (auto simp: bodyMatches_def split: option.splits)

lemma door_Hand:
  "door_ServeHTTP D d now r = Hand s b \<longleftrightarrow>
    (if prefix apiPrefix (dr_Path r) then s = application d \<and> verify d now r = None \<and>
       (\<exists>t. dr_Body r = Whole t \<and> b = Whole t \<and> int (length t) \<le> max 0 (fd_maxBody d) \<and> bodyMatches (dr_Query r) t = None)
     else s = Guest D (fd_tenant d) \<and> b = dr_Body r)"
  by (auto simp: door_ServeHTTP_def read_body_def max_def split: body.splits read_result.splits if_splits)

section \<open>Properties of the front door\<close>

text \<open>Property C13. The application is who signed. A request acts with the application's role exactly when it
  is for the API, names the app key, is stamped within ten minutes of now, carries the HMAC of its
  method, path and parameters under the app secret, and brings a whole body within the limit whose
  digest was signed, or no body and no digest; and whoever a request acts as, it is of the process's
  tenant.\<close>

theorem the_application_is_who_signed:
  assumes "door_documented D"
  shows "((\<exists>s b. door_ServeHTTP D d now r = Hand s b \<and> HasRole D s roleApplication) \<longleftrightarrow>
      prefix apiPrefix (dr_Path r) \<and> query_get (dr_Query r) paramAuthKey = fd_appKey d \<and>
      (\<exists>seconds. ParseInt (query_get (dr_Query r) paramAuthTimestamp) = Some seconds \<and> \<bar>now - seconds * 1000000000\<bar> \<le> signatureWindow) \<and>
      query_get (dr_Query r) paramAuthSignature = signature (fd_secret d) (signingString (dr_Method r) (dr_EscapedPath r) (dr_Query r)) \<and>
      (\<exists>t. dr_Body r = Whole t \<and> int (length t) \<le> max 0 (fd_maxBody d) \<and>
         (case map_of (dr_Query r) paramBodyMD5 of None \<Rightarrow> t = [] | Some c \<Rightarrow> c \<noteq> [] \<and> hd c = hex_encode (digest t)))) \<and>
    (\<forall>s b. door_ServeHTTP D d now r = Hand s b \<longrightarrow> sj_Tenant s = fd_tenant d)"
proof -
  have "\<not> HasRole D (Guest D (fd_tenant d)) roleApplication" "HasRole D (application d) roleApplication"
    "sj_Tenant (Guest D (fd_tenant d)) = fd_tenant d" "sj_Tenant (application d) = fd_tenant d"
    using assms by (simp_all add: door_documented_def application_def)
  then show ?thesis by (auto simp: door_Hand verify_None bodyMatches_None)
qed

text \<open>A signature binds the request. When two requests whose parameters hold no separator are
  accepted with the same signature, and the hash functions give no collision between what the two
  sign and between their bodies, they are the same method, path, parameters and body.\<close>

theorem signature_binds_the_request:
  assumes "plain_request r" "plain_request r'"
    and "door_ServeHTTP D d now r = Hand (application d) (Whole t)" "door_ServeHTTP D d now' r' = Hand (application d) (Whole t')"
    and "prefix apiPrefix (dr_Path r)" "prefix apiPrefix (dr_Path r')"
    and "query_get (dr_Query r) paramAuthSignature = query_get (dr_Query r') paramAuthSignature"
    and "signature (fd_secret d) (signingString (dr_Method r) (dr_EscapedPath r) (dr_Query r)) =
        signature (fd_secret d) (signingString (dr_Method r') (dr_EscapedPath r') (dr_Query r')) \<Longrightarrow>
      signingString (dr_Method r) (dr_EscapedPath r) (dr_Query r) = signingString (dr_Method r') (dr_EscapedPath r') (dr_Query r')"
    and "hex_encode (digest t) = hex_encode (digest t') \<Longrightarrow> t = t'"
  shows "dr_Method r = dr_Method r' \<and> dr_EscapedPath r = dr_EscapedPath r' \<and> t = t' \<and>
    (\<forall>n. query_get (dr_Query r) n = query_get (dr_Query r') n)"
proof -
  have v: "verify d now r = None" "bodyMatches (dr_Query r) t = None" "verify d now' r' = None" "bodyMatches (dr_Query r') t' = None"
    using assms(3-6) by (auto simp: door_Hand)
  have q: "plain_query (dr_Query r)" "plain_query (dr_Query r')" using assms(1,2) by (simp_all add: plain_request_def)
  have "signingString (dr_Method r) (dr_EscapedPath r) (dr_Query r) = signingString (dr_Method r') (dr_EscapedPath r') (dr_Query r')"
    using v(1,3) assms(7,8) by (simp add: verify_None)
  note eq = signingString_inj [OF assms(1,2) this]
  have hds: "map_option hd (map_of (dr_Query r) n) = map_option hd (map_of (dr_Query r') n)" if "n \<noteq> paramAuthSignature" for n
    using eq(3) map_of_signed [OF q(1) that] map_of_signed [OF q(2) that] by simp
  have ne: "map_of vs n = Some w \<Longrightarrow> w \<noteq> []" if "plain_query vs" for vs n w
    using that by (auto simp: plain_query_def dest!: map_of_SomeD)
  have get: "query_get vs n = (case map_option hd (map_of vs n) of Some v \<Rightarrow> v | None \<Rightarrow> [])" if "plain_query vs" for vs n
    using ne [OF that, of n] by (auto simp: query_get_def split: option.splits list.splits)
  have "query_get (dr_Query r) n = query_get (dr_Query r') n" for n
    using hds [of n] assms(7) by (cases "n = paramAuthSignature") (simp_all add: get [OF q(1)] get [OF q(2)])
  moreover have "paramBodyMD5 \<noteq> paramAuthSignature" by (simp add: paramBodyMD5_def paramAuthSignature_def)
  then have "t = t'" using hds [of paramBodyMD5] v(2,4) assms(9) by (auto simp: bodyMatches_None split: option.splits)
  ultimately show ?thesis using eq(1,2) by blast
qed

definition as_signed :: "string \<Rightarrow> string \<Rightarrow> string \<Rightarrow> string \<Rightarrow> url_values" where
  "as_signed k stamp m sig = [(paramAuthKey, [k]), (paramAuthTimestamp, [stamp]), (''auth_version'', [''1.0'']),
     (paramBodyMD5, [m]), (paramAuthSignature, [sig])]"

definition merged :: "string \<Rightarrow> string \<Rightarrow> string \<Rightarrow> string \<Rightarrow> url_values" where
  "merged k stamp m sig = [(paramAuthKey, [k]), (paramAuthTimestamp, [stamp]), (''auth_version'', [''1.0&body_md5='' @ m]),
     (paramAuthSignature, [sig])]"

lemmas param_defs = paramAuthKey_def paramAuthTimestamp_def paramAuthSignature_def paramBodyMD5_def

lemma merged_signs_the_same: "signingString method path (merged k stamp m sig) = signingString method path (as_signed k stamp m sig)"
  by (simp add: signingString_def signed_params_def as_signed_def merged_def param_defs Let_def less_char_def less_eq_char_def)

text \<open>Property C32. A signed payload can be dropped. A separator inside a value is signed as it stands, so
  \<open>auth_version=1.0\<close> followed by \<open>body_md5=m\<close> signs the same text as one \<open>auth_version\<close> whose
  value is \<open>1.0&body_md5=m\<close>: whoever saw one accepted request can have the same signature accepted
  for the request without its body and without its digest.\<close>

theorem signed_payload_can_be_dropped:
  assumes "dr_Query r = as_signed k stamp m sig" "door_ServeHTTP D d now r = Hand (application d) (Whole t)" "prefix apiPrefix (dr_Path r)"
  shows "door_ServeHTTP D d now (r\<lparr>dr_Query := merged k stamp m sig, dr_Body := Whole []\<rparr>) = Hand (application d) (Whole [])"
proof -
  have v: "verify d now r = None" using assms(2,3) by (auto simp: door_Hand)
  have "query_get (merged k stamp m sig) n = query_get (as_signed k stamp m sig) n"
    if "n \<in> {paramAuthKey, paramAuthTimestamp, paramAuthSignature}" for n
    using that by (auto simp: query_get_def as_signed_def merged_def param_defs)
  then have "verify d now (r\<lparr>dr_Query := merged k stamp m sig, dr_Body := Whole []\<rparr>) = None"
    using v assms(1) by (simp add: verify_None merged_signs_the_same)
  moreover have "bodyMatches (merged k stamp m sig) [] = None" by (simp add: bodyMatches_None merged_def param_defs)
  ultimately show ?thesis using assms(3) by (simp add: door_Hand)
qed

section \<open>Properties of the policies\<close>

text \<open>A guarded channel needs the signature. For a subject of the process's tenant that is not the
  application, a subscription to a channel is allowed exactly when the channel is not guarded or the
  subscription names its socket and carries the app key and the HMAC, under the app secret, of the
  socket, the requested name and the presence data.\<close>

theorem guarded_channels_need_the_signature:
  assumes "hesape_documented H" "sj_Tenant s = sp_tenant p" "\<not> HasRole D s roleApplication" "\<not> IsZero (subs_Channel sub)"
  shows "subscription_Can H D p s (ChannelJoin H) sub = None \<longleftrightarrow>
    (\<not> prefix ''private-'' (requested (subs_Channel sub)) \<and> \<not> prefix ''presence-'' (requested (subs_Channel sub))) \<or>
    (subs_Socket sub \<noteq> [] \<and> subs_Auth sub = sp_appKey p @ '':'' @ signature (sp_secret p)
      (subs_Socket sub @ '':'' @ requested (subs_Channel sub) @
        (if subs_ChannelData sub = [] then [] else '':'' @ subs_ChannelData sub)))"
  using assms type_properties(1) [OF assms(1), of "subs_Channel sub"]
  by (auto simp: subscription_Can_def subscription_verify_def subscriptionSigningString_def)

lemma subscription_signing_inj:
  assumes "subscriptionSigningString a = subscriptionSigningString b"
    "CHR '':'' \<notin> set (subs_Socket a)" "CHR '':'' \<notin> set (subs_Socket b)"
    "CHR '':'' \<notin> set (requested (subs_Channel a))" "CHR '':'' \<notin> set (requested (subs_Channel b))"
  shows "subs_Socket a = subs_Socket b \<and> requested (subs_Channel a) = requested (subs_Channel b) \<and> subs_ChannelData a = subs_ChannelData b"
proof -
  define tail where "tail = (\<lambda>s::Subscription. requested (subs_Channel s) @ (if subs_ChannelData s = [] then [] else '':'' @ subs_ChannelData s))"
  have sp: "split_on (CHR '':'') (tail s) = requested (subs_Channel s) #
      (if subs_ChannelData s = [] then [] else split_on (CHR '':'') (subs_ChannelData s))"
    if "CHR '':'' \<notin> set (requested (subs_Channel s))" for s
    using that by (simp add: tail_def split_on_none split_on_append)
  have "subs_Socket a @ CHR '':'' # tail a = subs_Socket b @ CHR '':'' # tail b"
    using assms(1) unfolding subscriptionSigningString_def tail_def Let_def by (cases "subs_ChannelData a"; cases "subs_ChannelData b") simp_all
  from split_separator [OF this assms(2,3)] have e: "subs_Socket a = subs_Socket b" "tail a = tail b" by simp_all
  moreover from this have r: "requested (subs_Channel a) = requested (subs_Channel b)" using sp [OF assms(4)] sp [OF assms(5)] by simp
  moreover have "subs_ChannelData a = subs_ChannelData b"
    using e(2) r unfolding tail_def by (cases "subs_ChannelData a"; cases "subs_ChannelData b") simp_all
  ultimately show ?thesis by blast
qed

text \<open>A signature serves one socket and one channel. When two subscriptions to guarded channels are
  allowed to subjects that are not the application, with the same signature and no collision between
  what is signed, they are for the same socket, the same channel name and the same presence data, so a
  signature somebody saw opens nothing on another socket.\<close>

theorem signature_serves_one_socket:
  assumes "subscription_Can H D p s (ChannelJoin H) a = None" "subscription_Can H D p s' (ChannelJoin H) b = None"
    and "\<not> HasRole D s roleApplication" "\<not> HasRole D s' roleApplication"
    and "Guarded (name_Type H (subs_Channel a))" "Guarded (name_Type H (subs_Channel b))"
    and "CHR '':'' \<notin> set (subs_Socket a @ subs_Socket b @ requested (subs_Channel a) @ requested (subs_Channel b))"
    and "subs_Auth a = subs_Auth b"
    and "signature (sp_secret p) (subscriptionSigningString a) = signature (sp_secret p) (subscriptionSigningString b) \<Longrightarrow>
      subscriptionSigningString a = subscriptionSigningString b"
  shows "subs_Socket a = subs_Socket b \<and> requested (subs_Channel a) = requested (subs_Channel b) \<and> subs_ChannelData a = subs_ChannelData b"
proof -
  have "subscription_verify p a = None" "subscription_verify p b = None"
    using assms(1-6) by (auto simp: subscription_Can_def split: if_splits)
  then have "sp_appKey p @ '':'' @ signature (sp_secret p) (subscriptionSigningString a) =
      sp_appKey p @ '':'' @ signature (sp_secret p) (subscriptionSigningString b)"
    using assms(8) by (simp only: subscription_verify_def split: if_splits) simp_all
  then have "signature (sp_secret p) (subscriptionSigningString a) = signature (sp_secret p) (subscriptionSigningString b)" by simp
  from assms(9) [OF this] show ?thesis by (rule subscription_signing_inj) (use assms(7) in auto)
qed

section \<open>A signed request and a signed subscription\<close>

definition sample_auth :: door_auth where
  "sample_auth = \<lparr>Guest = (\<lambda>t. \<lparr>sj_ID = ''guest'', sj_Tenant = t, sj_Roles = []\<rparr>), HasRole = (\<lambda>s r. r \<in> set (sj_Roles s))\<rparr>"

lemma sample_auth_documented: "door_documented sample_auth"
  by (simp add: door_documented_def sample_auth_def)

definition sample_door :: frontDoor where
  "sample_door = \<lparr>fd_appKey = ''key'', fd_secret = bytes_of_string ''secret'', fd_tenant = ''acme'', fd_maxBody = 100\<rparr>"

definition sample_signature :: string where
  "sample_signature = signature (fd_secret sample_door)
     (signingString ''POST'' ''/apps/1/events'' (as_signed ''key'' ''7'' (hex_encode (digest ''{}'')) []))"

definition signed_request :: door_request where
  "signed_request = \<lparr>dr_Method = ''POST'', dr_Path = ''/apps/1/events'', dr_EscapedPath = ''/apps/1/events'',
     dr_Query = as_signed ''key'' ''7'' (hex_encode (digest ''{}'')) sample_signature, dr_Body = Whole ''{}''\<rparr>"

lemma signed_request_verified: "verify sample_door 7000000000 signed_request = None"
proof -
  have eq: "signingString me pa (as_signed k t m sig) = signingString me pa (as_signed k t m [])" for me pa k t m sig
  proof -
    have "signed_params (as_signed k t m sig) = signed_params (as_signed k t m [])" by (simp add: signed_params_def as_signed_def)
    then show ?thesis by (simp only: signingString_pairs)
  qed
  have get: "query_get (as_signed k t m sig) paramAuthSignature = sig" for k t m sig by (simp add: query_get_def as_signed_def param_defs)
  have sig: "query_get (dr_Query signed_request) paramAuthSignature =
      signature (fd_secret sample_door) (signingString (dr_Method signed_request) (dr_EscapedPath signed_request) (dr_Query signed_request))"
    using eq [of "''POST''" "''/apps/1/events''" "''key''" "''7''" "hex_encode (digest ''{}'')" sample_signature]
    by (simp add: signed_request_def get) (simp add: sample_signature_def)
  have stamp: "ParseInt (query_get (dr_Query signed_request) paramAuthTimestamp) = Some 7"
    by (simp add: signed_request_def as_signed_def query_get_def param_defs ParseInt_def is_digit_def code_def of_char_def)
  have "query_get (dr_Query signed_request) paramAuthKey = fd_appKey sample_door"
    by (simp add: signed_request_def as_signed_def query_get_def param_defs sample_door_def)
  then show ?thesis unfolding verify_None using sig stamp by (intro conjI exI [of _ 7]) (simp_all add: signatureWindow_def)
qed

lemma signed_request_served:
  "door_ServeHTTP D sample_door 7000000000 signed_request = Hand (application sample_door) (Whole ''{}'')"
  "prefix apiPrefix (dr_Path signed_request)"
proof -
  show p: "prefix apiPrefix (dr_Path signed_request)" by (simp add: signed_request_def apiPrefix_def)
  have "dr_Body signed_request = Whole ''{}''" "fd_maxBody sample_door = 100" "bodyMatches (dr_Query signed_request) ''{}'' = None"
    by (simp_all add: signed_request_def sample_door_def bodyMatches_None as_signed_def param_defs)
  then show "door_ServeHTTP D sample_door 7000000000 signed_request = Hand (application sample_door) (Whole ''{}'')"
    using p signed_request_verified by (simp add: door_Hand)
qed

theorem the_application_is_who_signed_witness:
  "\<exists>s b. door_ServeHTTP sample_auth sample_door 7000000000 signed_request = Hand s b \<and> HasRole sample_auth s roleApplication \<and> sj_Tenant s = ''acme''"
  using the_application_is_who_signed [OF sample_auth_documented, of sample_door 7000000000 signed_request]
    signed_request_served(1) [of sample_auth] sample_auth_documented
  by (auto simp: door_documented_def application_def) (simp_all add: sample_door_def)

lemma digest_text_plain: "c \<in> {CHR ''='', CHR ''&''} \<Longrightarrow> c \<notin> set (hex_encode bs)"
proof -
  have "hex_digit n \<in> set ''0123456789abcdef''" if "n < 16" for n
    unfolding hex_digit_def using that by (intro nth_mem) simp
  moreover have "unat (b::byte) div 16 < 16" "unat b mod 16 < 16" for b using byte_lt_256 [of b] by (simp_all add: less_mult_imp_div_less)
  ultimately have d: "hex_digit (unat b div 16) \<in> set ''0123456789abcdef''" "hex_digit (unat b mod 16) \<in> set ''0123456789abcdef''" for b :: byte
    by blast+
  have "set (hex_encode bs) \<subseteq> set ''0123456789abcdef''"
  proof
    fix x assume "x \<in> set (hex_encode bs)"
    then obtain b where "x = hex_digit (unat (b::byte) div 16) \<or> x = hex_digit (unat b mod 16)" by (auto simp: hex_encode_def)
    then show "x \<in> set ''0123456789abcdef''" using d [of b] by metis
  qed
  then show "c \<in> {CHR ''='', CHR ''&''} \<Longrightarrow> c \<notin> set (hex_encode bs)" by auto
qed

theorem signature_binds_the_request_witness:
  "plain_request signed_request \<and> dr_Method signed_request = dr_Method signed_request"
proof -
  have "plain_request signed_request"
    using digest_text_plain by (auto simp: plain_request_def plain_query_def signed_request_def as_signed_def param_defs sample_signature_def signature_def)
  from signature_binds_the_request [OF this this signed_request_served(1) signed_request_served(1) signed_request_served(2) signed_request_served(2)] this
  show ?thesis by simp
qed

theorem signed_payload_can_be_dropped_witness:
  "\<exists>q. map_of q paramBodyMD5 = None \<and>
    door_ServeHTTP sample_auth sample_door 7000000000 (signed_request\<lparr>dr_Query := q, dr_Body := Whole []\<rparr>) = Hand (application sample_door) (Whole [])"
proof -
  have "dr_Query signed_request = as_signed ''key'' ''7'' (hex_encode (digest ''{}'')) sample_signature" by (simp add: signed_request_def)
  from signed_payload_can_be_dropped [OF this signed_request_served]
  show ?thesis by (intro exI [of _ "merged ''key'' ''7'' (hex_encode (digest ''{}'')) sample_signature"]) (simp add: merged_def param_defs)
qed

definition sample_policy :: subscriptionPolicy where
  "sample_policy = \<lparr>sp_tenant = ''acme'', sp_appKey = ''key'', sp_secret = bytes_of_string ''secret''\<rparr>"

definition signed_subscription :: Subscription where
  "signed_subscription = \<lparr>subs_Channel = \<lparr>tenant = ''acme'', requested = ''private-orders''\<rparr>, subs_Member = no_member,
     subs_Socket = ''1.2'', subs_Auth = ''key:'' @ signature (bytes_of_string ''secret'') ''1.2:private-orders'', subs_ChannelData = []\<rparr>"

theorem guarded_channels_need_the_signature_witness:
  "subscription_Can sample_hesape sample_auth sample_policy (Guest sample_auth ''acme'') (ChannelJoin sample_hesape) signed_subscription = None"
  using guarded_channels_need_the_signature [OF sample_documented, of "Guest sample_auth ''acme''" sample_policy sample_auth signed_subscription]
  by (auto simp: sample_auth_def sample_policy_def signed_subscription_def IsZero_def)

theorem signature_serves_one_socket_witness:
  "Guarded (name_Type sample_hesape (subs_Channel signed_subscription)) \<and> subs_Socket signed_subscription = subs_Socket signed_subscription"
proof -
  let ?g = "Guest sample_auth ''acme''"
  have c: "subscription_Can sample_hesape sample_auth sample_policy ?g (ChannelJoin sample_hesape) signed_subscription = None"
    by (simp add: subscription_Can_def subscription_verify_def subscriptionSigningString_def sample_auth_def sample_policy_def
        signed_subscription_def IsZero_def)
  have g: "Guarded (name_Type sample_hesape (subs_Channel signed_subscription))"
    using type_properties(1) [OF sample_documented] by (simp add: signed_subscription_def)
  have "\<not> HasRole sample_auth ?g roleApplication" by (simp add: sample_auth_def)
  from signature_serves_one_socket [OF c c this this g g] g show ?thesis by (simp add: signed_subscription_def)
qed

end
