(* ===== verification/Door_Address.thy ===== *)
theory Door_Address
  imports Go_Net "HOL-Library.AList" "HOL-Library.Sublist"
begin

text \<open>
  \<^verbatim>\<open>cmd/joaju/addresslimit.go\<close>: how many sockets one client address may hold. A request is
  counted from its arrival until the handler behind the limit returns, so the handler is cut at
  that call: \<open>admit\<close> is what happens before it and \<open>finish\<close> what the deferred release does after
  it, and requests interleave between the two.

  Shown: the count of an address is the number of its requests inside, never above the limit, and
  an address holding none is not remembered; the address a request is counted against is the
  nearest hop no trusted proxy vouches past, whatever a client writes to the left of it.
\<close>

section \<open>Requests and the limit\<close>

record address_request =
  ar_Method :: string
  ar_Path :: string
  ar_RemoteAddr :: string
  ar_Forwarded :: "string list"

definition socketPrefix :: string where "socketPrefix = ''/app/''"

record addressLimit =
  al_limit :: int
  al_trusted :: "Prefix list"
  al_open :: "(Addr \<times> nat) list"

definition newAddressLimit :: "int \<Rightarrow> Prefix list \<Rightarrow> addressLimit" where
  "newAddressLimit limit trusted = \<lparr>al_limit = limit, al_trusted = trusted, al_open = []\<rparr>"

definition al_count :: "addressLimit \<Rightarrow> Addr \<Rightarrow> nat" where
  "al_count l a = (case map_of (al_open l) a of None \<Rightarrow> 0 | Some n \<Rightarrow> n)"

definition take_slot :: "addressLimit \<Rightarrow> Addr \<Rightarrow> bool \<times> addressLimit" where
  "take_slot l client =
    (if int (al_count l client) \<ge> al_limit l then (False, l)
     else (True, l\<lparr>al_open := AList.update client (al_count l client + 1) (al_open l)\<rparr>))"

definition release_slot :: "addressLimit \<Rightarrow> Addr \<Rightarrow> addressLimit" where
  "release_slot l client =
    (if al_count l client \<le> 1 then l\<lparr>al_open := AList.delete client (al_open l)\<rparr>
     else l\<lparr>al_open := AList.update client (al_count l client - 1) (al_open l)\<rparr>)"

section \<open>Which address is the client's\<close>

definition believes :: "addressLimit \<Rightarrow> Addr \<Rightarrow> bool" where
  "believes l addr = list_ex (\<lambda>p. Contains p addr) (al_trusted l)"

definition forwardedFor :: "string list \<Rightarrow> string list" where
  "forwardedFor headers = filter (\<lambda>hop. hop \<noteq> []) (map TrimSpace (concat (map (split_on (CHR '','')) headers)))"

definition bare :: "Addr \<Rightarrow> Addr" where
  "bare a = WithZone (Unmap a) []"

text \<open>The loop over the hops, which are given from the last to the first.\<close>

fun walk :: "addressLimit \<Rightarrow> Addr \<Rightarrow> string list \<Rightarrow> Addr" where
  "walk l peer [] = peer"
| "walk l peer (h # hs) =
    (case ParseAddr h of
       None \<Rightarrow> peer
     | Some a \<Rightarrow> if \<not> believes l (bare a) then bare a else walk l (bare a) hs)"

definition client :: "addressLimit \<Rightarrow> address_request \<Rightarrow> Addr option" where
  "client l r =
    (case SplitHostPort (ar_RemoteAddr r) of
       None \<Rightarrow> None
     | Some (host, _) \<Rightarrow>
         (case ParseAddr host of
            None \<Rightarrow> None
          | Some a \<Rightarrow>
              if \<not> believes l (bare a) then Some (bare a)
              else Some (walk l (bare a) (rev (forwardedFor (ar_Forwarded r))))))"

section \<open>Serving\<close>

text \<open>What the handler does with a request: hand it on, hand it on and count it, or answer it.\<close>

datatype admission = Through | Counted Addr | Refused int string

definition admit :: "addressLimit \<Rightarrow> address_request \<Rightarrow> admission \<times> addressLimit" where
  "admit l r =
    (if al_limit l \<le> 0 \<or> ar_Method r \<noteq> ''GET'' \<or> \<not> prefix socketPrefix (ar_Path r) then (Through, l)
     else case client l r of
       None \<Rightarrow> (Through, l)
     | Some c \<Rightarrow>
         (case take_slot l c of
            (False, l') \<Rightarrow> (Refused 429 ''Too many sockets from this address.'', l')
          | (True, l') \<Rightarrow> (Counted c, l')))"

fun finish :: "admission \<Rightarrow> addressLimit \<Rightarrow> addressLimit" where
  "finish (Counted c) l = release_slot l c"
| "finish _ l = l"

text \<open>The limit and the requests that are inside the handler behind it.\<close>

inductive astep :: "addressLimit \<times> admission list \<Rightarrow> addressLimit \<times> admission list \<Rightarrow> bool" where
  arrives: "admit l r = (a, l') \<Longrightarrow> astep (l, inside) (l', case a of Refused _ _ \<Rightarrow> inside | _ \<Rightarrow> a # inside)"
| leaves: "a \<in> set inside \<Longrightarrow> astep (l, inside) (finish a l, remove1 a inside)"

inductive_cases astepE: "astep (l, inside) y"

section \<open>Counting\<close>

definition address_ok :: "int \<Rightarrow> Prefix list \<Rightarrow> addressLimit \<times> admission list \<Rightarrow> bool" where
  "address_ok n ps = (\<lambda>(l, inside). al_limit l = n \<and> al_trusted l = ps \<and> distinct (map fst (al_open l)) \<and>
    (\<forall>a. map_of (al_open l) a = (if count_list inside (Counted a) = 0 then None else Some (count_list inside (Counted a)))) \<and>
    (\<forall>a. 0 < count_list inside (Counted a) \<longrightarrow> int (count_list inside (Counted a)) \<le> n))"

lemma al_count_inside:
  "address_ok n ps (l, inside) \<Longrightarrow> al_count l a = count_list inside (Counted a)"
  by (simp add: address_ok_def al_count_def)

lemma take_slot_ok:
  assumes "address_ok n ps (l, inside)" "take_slot l a = (True, l')"
  shows "address_ok n ps (l', Counted a # inside)"
proof -
  have c: "int (count_list inside (Counted a)) < n" "l' = l\<lparr>al_open := AList.update a (count_list inside (Counted a) + 1) (al_open l)\<rparr>"
    using assms al_count_inside [OF assms(1)] by (auto simp: take_slot_def address_ok_def split: if_splits)
  then show ?thesis
    using assms(1) by (auto simp: address_ok_def distinct_update update_conv')
qed

lemma count_list_remove1: "count_list (remove1 x xs) y = (if x = y then count_list xs y - 1 else count_list xs y)"
proof (induction xs)
  case (Cons z zs)
  then show ?case by (cases "count_list zs y") (auto simp: count_list_0_iff)
qed simp

lemma release_slot_ok:
  assumes "address_ok n ps (l, inside)" "Counted a \<in> set inside"
  shows "address_ok n ps (release_slot l a, remove1 (Counted a) inside)"
proof -
  have c: "al_count l a = count_list inside (Counted a)" by (rule al_count_inside [OF assms(1)])
  have "0 < count_list inside (Counted a)" using assms(2) count_list_0_iff [of inside "Counted a"] by (cases "count_list inside (Counted a)") simp_all
  moreover from this have "int (count_list inside (Counted a)) \<le> n" using assms(1) unfolding address_ok_def by blast
  then have "int (count_list inside (Counted a)) - 1 \<le> n" by linarith
  ultimately show ?thesis
    using assms(1) c
    by (auto simp: release_slot_def address_ok_def count_list_remove1 distinct_update update_conv'
        delete_conv' distinct_delete)
qed

lemma take_slot_false: "take_slot l a = (False, l') \<Longrightarrow> l' = l"
  by (simp add: take_slot_def split: if_splits)

lemma admit_cases:
  assumes "admit l r = (a, l')"
  obtains "a = Through" "l' = l" | m where "a = Refused 429 m" "l' = l" | c where "a = Counted c" "take_slot l c = (True, l')"
proof (cases "al_limit l \<le> 0 \<or> ar_Method r \<noteq> ''GET'' \<or> \<not> prefix socketPrefix (ar_Path r)")
  case True
  then show ?thesis using assms that(1) by (simp add: admit_def)
next
  case False
  show ?thesis
  proof (cases "client l r")
    case None
    then show ?thesis using assms that(1) False by (simp add: admit_def)
  next
    case (Some c)
    obtain b l1 where t: "take_slot l c = (b, l1)" by fastforce
    then show ?thesis
      using assms that(2,3) False Some take_slot_false [of l c l1] by (cases b) (auto simp: admit_def)
  qed
qed

lemma finish_ok:
  "address_ok n ps (l, inside) \<Longrightarrow> a \<in> set inside \<Longrightarrow> address_ok n ps (finish a l, remove1 a inside)"
  by (cases a) (auto simp: release_slot_ok, auto simp: address_ok_def count_list_remove1)

lemma arrives_ok:
  assumes "address_ok n ps (l, inside)" "admit l r = (a, l')"
  shows "address_ok n ps (l', case a of Refused _ _ \<Rightarrow> inside | _ \<Rightarrow> a # inside)"
  using assms(2)
proof (cases rule: admit_cases)
  case (3 c)
  then show ?thesis using take_slot_ok [OF assms(1)] by simp
qed (use assms(1) in \<open>simp_all add: address_ok_def\<close>)

interpretation addresses: transitions
  "\<lambda>x. x = (newAddressLimit n ps, [])" astep "address_ok n ps" for n ps
proof unfold_locales
  show "x = (newAddressLimit n ps, []) \<Longrightarrow> address_ok n ps x" for x
    by (simp add: address_ok_def newAddressLimit_def)
next
  fix x y assume "astep x y" "address_ok n ps x"
  then show "address_ok n ps y" by (cases rule: astep.cases) (auto intro: arrives_ok finish_ok)
qed

section \<open>The hops\<close>

lemma forwardedFor_append: "forwardedFor (F @ G) = forwardedFor F @ forwardedFor G"
  by (simp add: forwardedFor_def)

lemma forwardedFor_comma: "forwardedFor ((f @ CHR '','' # h) # hs) = forwardedFor [f] @ forwardedFor (h # hs)"
  by (simp add: forwardedFor_def split_on_append)

text \<open>Once the walk has stopped at a hop that is not a proxy, nothing to the left of it is read.\<close>

lemma walk_append:
  "\<not> believes l (walk l peer hs) \<Longrightarrow> believes l peer \<Longrightarrow> walk l peer (hs @ left) = walk l peer hs"
  by (induction l peer hs rule: walk.induct) (auto split: option.splits)

lemma walk_same: "al_trusted l = al_trusted l' \<Longrightarrow> walk l peer hs = walk l' peer hs"
  by (induction l peer hs rule: walk.induct) (auto simp: believes_def split: option.splits)

lemma client_same: "al_trusted l = al_trusted l' \<Longrightarrow> client l r = client l' r"
  using walk_same [of l l'] by (auto simp: client_def believes_def split: option.splits)

lemma walk_bare: "bare a = a \<Longrightarrow> bare (walk l a hs) = walk l a hs"
proof (induction l a hs rule: walk.induct)
  case (2 l peer h hs)
  have "bare (bare x) = bare x" for x by (cases x) (auto simp: bare_def)
  then show ?case using 2 by (auto split: option.splits)
qed simp

lemma bare_bare [simp]: "bare (bare a) = bare a"
  by (cases a) (auto simp: bare_def)

lemma client_bare: "client l r = Some a \<Longrightarrow> bare a = a"
  by (auto simp: client_def walk_bare split: option.splits if_splits)

lemma client_unforged:
  assumes "client l r = Some a" "\<not> believes l a" "forwardedFor F' = F @ forwardedFor (ar_Forwarded r)"
  shows "client l (r\<lparr>ar_Forwarded := F'\<rparr>) = Some a"
proof -
  obtain host p b where h: "SplitHostPort (ar_RemoteAddr r) = Some (host, p)" "ParseAddr host = Some b"
    using assms(1) by (auto simp: client_def split: option.splits)
  show ?thesis
  proof (cases "believes l (bare b)")
    case True
    then have "a = walk l (bare b) (rev (forwardedFor (ar_Forwarded r)))" using assms(1) h by (simp add: client_def)
    then have "walk l (bare b) (rev (forwardedFor F')) = a" using walk_append [of l "bare b"] True assms(2,3) by simp
    then show ?thesis using h True by (simp add: client_def)
  next
    case False
    then show ?thesis using assms(1) h by (simp add: client_def)
  qed
qed

text \<open>Where the walk stops, and what it passed.\<close>

lemma walk_stops:
  assumes "believes l peer"
  shows "\<exists>pre post. hs = pre @ post \<and> walk l peer hs = (if pre = [] then peer else bare (the (ParseAddr (last pre)))) \<and>
    (\<forall>h \<in> set pre. ParseAddr h \<noteq> None) \<and> (\<forall>h \<in> set (butlast pre). believes l (bare (the (ParseAddr h)))) \<and>
    (\<not> believes l (walk l peer hs) \<or> post = [] \<or> ParseAddr (hd post) = None)"
  using assms
proof (induction l peer hs rule: walk.induct)
  case (1 l peer)
  then show ?case by simp
next
  case (2 l peer h hs)
  show ?case
  proof (cases "ParseAddr h")
    case None
    then show ?thesis by (intro exI [of _ "[]"] exI [of _ "h # hs"]) simp
  next
    case (Some a)
    show ?thesis
    proof (cases "believes l (bare a)")
      case False
      then show ?thesis using Some by (intro exI [of _ "[h]"] exI [of _ hs]) simp
    next
      case True
      obtain pre post where p: "hs = pre @ post" "walk l (bare a) hs = (if pre = [] then bare a else bare (the (ParseAddr (last pre))))"
        "\<forall>h \<in> set pre. ParseAddr h \<noteq> None" "\<forall>h \<in> set (butlast pre). believes l (bare (the (ParseAddr h)))"
        "\<not> believes l (walk l (bare a) hs) \<or> post = [] \<or> ParseAddr (hd post) = None"
        using "2.IH" [OF Some _ True] True by auto
      then show ?thesis using Some True by (intro exI [of _ "h # pre"] exI [of _ post]) auto
    qed
  qed
qed

section \<open>Properties\<close>

text \<open>Property C14. The limit of an address holds. However requests arrive and end, the number of counted
  sockets of an address that are open is at most the limit; the map remembers exactly the addresses
  that hold one, with their number; and while the limit is on, a socket request is answered with 429
  exactly when its address already holds the limit, and is counted otherwise.\<close>

theorem address_limit_holds:
  assumes "astep\<^sup>*\<^sup>* (newAddressLimit n ps, []) (l, inside)" "0 < n"
    and "ar_Method r = ''GET''" "prefix socketPrefix (ar_Path r)" "client l r = Some c"
  shows "int (count_list inside (Counted a)) \<le> n \<and>
    (\<forall>k. map_of (al_open l) a = Some k \<longleftrightarrow> 0 < k \<and> count_list inside (Counted a) = k) \<and>
    fst (admit l r) = (if int (count_list inside (Counted c)) = n then Refused 429 ''Too many sockets from this address.'' else Counted c)"
proof -
  have i: "address_ok n ps (l, inside)" using addresses.reachable_inv assms(1) by blast
  have le: "int (count_list inside (Counted x)) \<le> n" for x
    using i assms(2) by (cases "count_list inside (Counted x)") (auto simp: address_ok_def dest: spec [of _ x])
  have "al_limit l = n" using i by (simp add: address_ok_def)
  moreover have "map_of (al_open l) a = Some k \<longleftrightarrow> 0 < k \<and> count_list inside (Counted a) = k" for k
    using i by (auto simp: address_ok_def)
  moreover have "int (count_list inside (Counted c)) \<ge> n \<longleftrightarrow> int (count_list inside (Counted c)) = n" using le [of c] by linarith
  ultimately show ?thesis
    using le assms(2-5) al_count_inside [OF i, of c] by (simp add: admit_def take_slot_def)
qed

text \<open>Property C15. A client cannot name itself. The address a request is counted against carries no zone
  and is never an IPv4 address written as an IPv6 one; and when it is not a trusted proxy, no header
  put in front of the ones that arrived, and nothing written to the left inside the first of them,
  changes it.\<close>

theorem forged_hops_change_nothing:
  assumes "client l r = Some a" "\<not> believes l a"
  shows "\<not> hasZone a \<and> Unmap a = a \<and> client l (r\<lparr>ar_Forwarded := F @ ar_Forwarded r\<rparr>) = Some a \<and>
    (\<forall>h hs. ar_Forwarded r = h # hs \<longrightarrow> client l (r\<lparr>ar_Forwarded := (f @ CHR '','' # h) # hs\<rparr>) = Some a)"
proof -
  have "\<not> hasZone a \<and> Unmap a = a"
    using client_bare [OF assms(1)] by (cases a) (auto simp: bare_def split: if_splits)
  moreover have "client l (r\<lparr>ar_Forwarded := F @ ar_Forwarded r\<rparr>) = Some a"
    by (rule client_unforged [OF assms]) (rule forwardedFor_append)
  moreover have "client l (r\<lparr>ar_Forwarded := (f @ CHR '','' # h) # hs\<rparr>) = Some a" if "ar_Forwarded r = h # hs" for h hs
    by (rule client_unforged [OF assms]) (simp add: forwardedFor_comma that)
  ultimately show ?thesis by blast
qed

text \<open>The client is the last hop somebody trusted vouched for. Behind a trusted peer the hops are
  read from the right: every hop that was passed is an address of a trusted proxy, the answer is the
  hop the reading stopped at, or the peer if it read none, and it stopped because that hop is not a
  proxy, or nothing is left, or what is left does not end in an address.\<close>

theorem client_is_the_last_vouched_hop:
  assumes "SplitHostPort (ar_RemoteAddr r) = Some (host, port)" "ParseAddr host = Some p" "believes l (bare p)"
  shows "\<exists>a pre post. client l r = Some a \<and> forwardedFor (ar_Forwarded r) = post @ pre \<and>
    a = (if pre = [] then bare p else bare (the (ParseAddr (hd pre)))) \<and>
    (\<forall>h \<in> set pre. ParseAddr h \<noteq> None) \<and> (\<forall>h \<in> set (tl pre). believes l (bare (the (ParseAddr h)))) \<and>
    (\<not> believes l a \<or> post = [] \<or> ParseAddr (last post) = None)"
proof -
  let ?hs = "rev (forwardedFor (ar_Forwarded r))"
  obtain pre post where w: "?hs = pre @ post" "walk l (bare p) ?hs = (if pre = [] then bare p else bare (the (ParseAddr (last pre))))"
    "\<forall>h \<in> set pre. ParseAddr h \<noteq> None" "\<forall>h \<in> set (butlast pre). believes l (bare (the (ParseAddr h)))"
    "\<not> believes l (walk l (bare p) ?hs) \<or> post = [] \<or> ParseAddr (hd post) = None"
    using walk_stops [OF assms(3)] by blast
  have "forwardedFor (ar_Forwarded r) = rev post @ rev pre" using w(1) by (metis rev_append rev_rev_ident)
  moreover have "client l r = Some (walk l (bare p) ?hs)" using assms by (simp add: client_def)
  moreover have "tl (rev pre) = rev (butlast pre)" by (metis butlast_rev rev_rev_ident)
  ultimately show ?thesis
    using w(2-5) by (intro exI [of _ "walk l (bare p) ?hs"] exI [of _ "rev pre"] exI [of _ "rev post"]) (auto simp: hd_rev last_rev)
qed

section \<open>A browser behind a proxy\<close>

definition loopback :: Prefix where
  "loopback = \<lparr>pf_addr = Addr4 [127, 0, 0, 0], pf_bits = 8\<rparr>"

definition proxied :: address_request where
  "proxied = \<lparr>ar_Method = ''GET'', ar_Path = ''/app/key'', ar_RemoteAddr = ''127.0.0.1:4000'',
     ar_Forwarded = [''203.0.113.9'']\<rparr>"

lemma proxied_client: "client (newAddressLimit 1 [loopback]) proxied = Some (Addr4 [203, 0, 113, 9])"
  by code_simp

lemma proxied_stranger: "\<not> believes (newAddressLimit 1 [loopback]) (Addr4 [203, 0, 113, 9])"
  by code_simp

lemma proxied_peer:
  "SplitHostPort (ar_RemoteAddr proxied) = Some (''127.0.0.1'', ''4000'')" "ParseAddr ''127.0.0.1'' = Some (Addr4 [127, 0, 0, 1])"
  "believes (newAddressLimit 1 [loopback]) (bare (Addr4 [127, 0, 0, 1]))"
  by code_simp+

theorem address_limit_holds_witness:
  "\<exists>l. astep\<^sup>*\<^sup>* (newAddressLimit 1 [loopback], []) (l, [Counted (Addr4 [203, 0, 113, 9])]) \<and>
    fst (admit l proxied) = Refused 429 ''Too many sockets from this address.''"
proof -
  let ?c = "Addr4 [203, 0, 113, 9]" and ?l = "newAddressLimit 1 [loopback]"
  have a: "admit ?l proxied = (Counted ?c, ?l\<lparr>al_open := [(?c, 1)]\<rparr>)"
    by (simp add: admit_def proxied_client take_slot_def al_count_def) (simp add: newAddressLimit_def proxied_def socketPrefix_def)
  have "client (?l\<lparr>al_open := [(?c, 1)]\<rparr>) proxied = client ?l proxied"
    by (rule client_same) simp
  then have c: "client (?l\<lparr>al_open := [(?c, 1)]\<rparr>) proxied = Some ?c" by (simp add: proxied_client)
  have s: "astep\<^sup>*\<^sup>* (?l, []) (?l\<lparr>al_open := [(?c, 1)]\<rparr>, [Counted ?c])" using astep.arrives [OF a, of "[]"] by simp
  from address_limit_holds [OF s _ _ _ c] s show ?thesis by (auto simp: proxied_def socketPrefix_def)
qed

theorem forged_hops_change_nothing_witness:
  "client (newAddressLimit 1 [loopback]) (proxied\<lparr>ar_Forwarded := [''10.1.1.1,203.0.113.9'']\<rparr>) = Some (Addr4 [203, 0, 113, 9])"
  using forged_hops_change_nothing [OF proxied_client proxied_stranger, of "[]" "''10.1.1.1''"]
  by (auto simp: proxied_def)

theorem client_is_the_last_vouched_hop_witness:
  "\<exists>a. client (newAddressLimit 1 [loopback]) proxied = Some a"
  using client_is_the_last_vouched_hop [OF proxied_peer] by blast

end
