(* ===== verification/Door_Config.thy ===== *)
theory Door_Config
  imports Joaju_Socket Door_Sign Door_Address
begin

text \<open>
  \<^verbatim>\<open>cmd/joaju/config.go\<close> and \<^verbatim>\<open>cmd/joaju/main.go\<close>: the configuration of the process, read out of its
  environment, and what is built from it: the server, the protocol, the front door and the limit per
  address. Durations are nanoseconds. Of the standard library, splitting a URL, reading a duration
  (whose fractions are computed in floating point) and reading a log level are arguments, and so is
  the rule of hesape for what may be a tenant; spaces, numbers, truth values, addresses and prefixes
  are computed.
\<close>

section \<open>Defaults\<close>

definition envPrefix :: string where "envPrefix = ''JOAJU_''"
definition defaultAddr :: string where "defaultAddr = '':8080''"
definition defaultShutdownTimeout :: int where "defaultShutdownTimeout = 10 * Second"
definition defaultReadHeaderTimeout :: int where "defaultReadHeaderTimeout = 10 * Second"
definition defaultReadTimeout :: int where "defaultReadTimeout = 30 * Second"
definition defaultWriteTimeout :: int where "defaultWriteTimeout = 30 * Second"
definition defaultIdleTimeout :: int where "defaultIdleTimeout = 120 * Second"
definition defaultMaxMessagesPerSecond :: int where "defaultMaxMessagesPerSecond = DefaultMaxChannelsPerConnection"
definition defaultMaxConnectionsPerAddress :: int where "defaultMaxConnectionsPerAddress = 256"

definition defaultTrustedProxies :: "Prefix list" where
  "defaultTrustedProxies =
    [\<lparr>pf_addr = Addr4 [127, 0, 0, 0], pf_bits = 8\<rparr>, \<lparr>pf_addr = Addr4 [10, 0, 0, 0], pf_bits = 8\<rparr>,
     \<lparr>pf_addr = Addr4 [172, 16, 0, 0], pf_bits = 12\<rparr>, \<lparr>pf_addr = Addr4 [192, 168, 0, 0], pf_bits = 16\<rparr>,
     \<lparr>pf_addr = Addr6 (replicate 15 0 @ [1]) [], pf_bits = 128\<rparr>, \<lparr>pf_addr = Addr6 (0xfc # replicate 15 0) [], pf_bits = 7\<rparr>]"

section \<open>The configuration\<close>

record config =
  cf_Addr :: string
  cf_AppID :: string
  cf_AppKey :: string
  cf_AppSecret :: string
  cf_Tenant :: string
  cf_AllowedOrigins :: "string list"
  cf_ClientEvents :: bool
  cf_MaxMessageSize :: int
  cf_MaxBodySize :: int
  cf_OutboundQueue :: int
  cf_MaxConnections :: int
  cf_WriteTimeout :: int
  cf_PingInterval :: int
  cf_PongTimeout :: int
  cf_MaxMessagesPerSecond :: int
  cf_MaxChannelsPerConnection :: int
  cf_MaxConnectionsPerAddress :: int
  cf_TrustedProxies :: "Prefix list"
  cf_ShutdownTimeout :: int
  cf_LogLevel :: int

text \<open>A URL taken apart; of the user information only whether there is any.\<close>

record origin_url =
  ou_Scheme :: string
  ou_Host :: string
  ou_User :: bool
  ou_Path :: string
  ou_RawPath :: string
  ou_RawQuery :: string
  ou_Fragment :: string
  ou_Opaque :: string

record parsers =
  url_Parse :: "string \<Rightarrow> origin_url option"
  ParseDuration :: "string \<Rightarrow> int option"
  UnmarshalLevel :: "string \<Rightarrow> int option"
  ValidTenant :: "string \<Rightarrow> bool"

type_synonym environment = "string \<Rightarrow> string option"

text \<open>What was wrong, and with which variable.\<close>

datatype problem = Problem (pr_variable: string) (pr_sentence: string)

definition env_text :: "environment \<Rightarrow> string \<Rightarrow> string" where
  "env_text env name = TrimSpace (case env (envPrefix @ name) of None \<Rightarrow> [] | Some value \<Rightarrow> value)"

definition browser_origin :: "parsers \<Rightarrow> string \<Rightarrow> bool" where
  "browser_origin P entry =
    (case url_Parse P entry of
       None \<Rightarrow> False
     | Some u \<Rightarrow> (ou_Scheme u = ''http'' \<or> ou_Scheme u = ''https'') \<and> ou_Host u \<noteq> [] \<and> \<not> ou_User u \<and> ou_Path u = [] \<and>
         ou_RawPath u = [] \<and> ou_RawQuery u = [] \<and> ou_Fragment u = [] \<and> ou_Opaque u = [])"

text \<open>The loops over the entries of a list: the empty ones are skipped, and the first bad one ends them.\<close>

fun origin_entries :: "parsers \<Rightarrow> string \<Rightarrow> string list \<Rightarrow> problem + string list" where
  "origin_entries P name [] = Inr []"
| "origin_entries P name (e # es) =
    (let entry = TrimSpace e in
     if entry = [] then origin_entries P name es
     else if \<not> browser_origin P entry then Inl (Problem name ''contains an entry that is not a browser origin'')
     else map_sum id (Cons entry) (origin_entries P name es))"

definition env_origins :: "parsers \<Rightarrow> environment \<Rightarrow> string \<Rightarrow> problem + string list" where
  "env_origins P env name =
    (let raw = env_text env name in
     if raw = [] then Inr []
     else case origin_entries P name (split_on (CHR '','') raw) of
       Inl e \<Rightarrow> Inl e
     | Inr [] \<Rightarrow> Inl (Problem name ''contains no origin'')
     | Inr kept \<Rightarrow> Inr kept)"

fun proxy_entries :: "string \<Rightarrow> string list \<Rightarrow> problem + Prefix list" where
  "proxy_entries name [] = Inr []"
| "proxy_entries name (e # es) =
    (let entry = TrimSpace e in
     if entry = [] then proxy_entries name es
     else case (case ParsePrefix entry of
                  Some p \<Rightarrow> Some p
                | None \<Rightarrow> map_option (\<lambda>a. \<lparr>pf_addr = Unmap a, pf_bits = BitLen (Unmap a)\<rparr>) (ParseAddr entry)) of
       None \<Rightarrow> Inl (Problem name ''contains an entry that is neither an address nor a CIDR prefix'')
     | Some p \<Rightarrow> map_sum id (Cons (Masked p)) (proxy_entries name es))"

definition env_proxies :: "environment \<Rightarrow> string \<Rightarrow> problem + Prefix list" where
  "env_proxies env name =
    (let raw = env_text env name in
     if raw = [] then Inr defaultTrustedProxies
     else if raw = ''none'' then Inr []
     else case proxy_entries name (split_on (CHR '','') raw) of
       Inl e \<Rightarrow> Inl e
     | Inr [] \<Rightarrow> Inl (Problem name ''contains no address'')
     | Inr kept \<Rightarrow> Inr kept)"

definition env_count :: "environment \<Rightarrow> string \<Rightarrow> problem + int" where
  "env_count env name =
    (let raw = env_text env name in
     if raw = [] then Inr 0
     else case ParseInt raw of None \<Rightarrow> Inl (Problem name ''is not a whole number'') | Some v \<Rightarrow> Inr v)"

definition nonNegativeCount :: "environment \<Rightarrow> string \<Rightarrow> problem + int" where
  "nonNegativeCount env name =
    (case env_count env name of
       Inl e \<Rightarrow> Inl e
     | Inr v \<Rightarrow> if v < 0 then Inl (Problem name ''a count cannot be negative'') else Inr v)"

definition nonNegativeCountOr :: "environment \<Rightarrow> string \<Rightarrow> int \<Rightarrow> problem + int" where
  "nonNegativeCountOr env name fallback = (if env_text env name = [] then Inr fallback else nonNegativeCount env name)"

definition env_size :: "environment \<Rightarrow> string \<Rightarrow> problem + int" where
  "env_size env name =
    (let raw = env_text env name in
     if raw = [] then Inr 0
     else case ParseInt raw of
       None \<Rightarrow> Inl (Problem name ''is not a number of bytes'')
     | Some v \<Rightarrow> if v < 0 then Inl (Problem name ''a size cannot be negative'') else Inr v)"

definition env_duration :: "parsers \<Rightarrow> environment \<Rightarrow> string \<Rightarrow> problem + int" where
  "env_duration P env name =
    (let raw = env_text env name in
     if raw = [] then Inr 0
     else case ParseDuration P raw of
       None \<Rightarrow> Inl (Problem name ''is not a duration'')
     | Some v \<Rightarrow> if v < 0 then Inl (Problem name ''a duration cannot be negative'') else Inr v)"

text \<open>\<open>strconv.ParseBool\<close>.\<close>

definition ParseBool :: "string \<Rightarrow> bool option" where
  "ParseBool s =
    (if s \<in> {''1'', ''t'', ''T'', ''TRUE'', ''true'', ''True''} then Some True
     else if s \<in> {''0'', ''f'', ''F'', ''FALSE'', ''false'', ''False''} then Some False
     else None)"

definition clientEvents :: "environment \<Rightarrow> string \<Rightarrow> problem + bool" where
  "clientEvents env name =
    (let raw = env_text env name in
     if raw = [] then Inr False
     else case ParseBool raw of None \<Rightarrow> Inl (Problem name ''is not true or false'') | Some b \<Rightarrow> Inr b)"

definition LevelInfo :: int where "LevelInfo = 0"

definition env_level :: "parsers \<Rightarrow> environment \<Rightarrow> string \<Rightarrow> problem + int" where
  "env_level P env name =
    (let raw = env_text env name in
     if raw = [] then Inr LevelInfo
     else case UnmarshalLevel P raw of None \<Rightarrow> Inl (Problem name ''is not a level'') | Some v \<Rightarrow> Inr v)"

section \<open>Reading the whole configuration\<close>

definition and_then :: "'e + 'a \<Rightarrow> ('a \<Rightarrow> 'e + 'b) \<Rightarrow> 'e + 'b" where
  "and_then r f = (case r of Inl e \<Rightarrow> Inl e | Inr v \<Rightarrow> f v)"

definition missing :: "(string \<times> string) list \<Rightarrow> string option" where
  "missing required = map_option fst (List.find (\<lambda>(name, value). value = []) required)"

text \<open>The limits of the socket and the process, in the order they are read.\<close>

definition load_limits :: "parsers \<Rightarrow> environment \<Rightarrow> config \<Rightarrow> problem + config" where
  "load_limits P env cfg =
    and_then (env_origins P env ''ALLOWED_ORIGINS'') (\<lambda>origins.
    and_then (clientEvents env ''CLIENT_EVENTS'') (\<lambda>events.
    and_then (env_size env ''MAX_MESSAGE_SIZE'') (\<lambda>message_size.
    and_then (env_size env ''MAX_BODY_SIZE'') (\<lambda>body_size.
    and_then (nonNegativeCount env ''OUTBOUND_QUEUE'') (\<lambda>queue.
    and_then (env_count env ''MAX_CONNECTIONS'') (\<lambda>connections.
    and_then (nonNegativeCountOr env ''MAX_MESSAGES_PER_SECOND'' defaultMaxMessagesPerSecond) (\<lambda>rate.
    and_then (env_count env ''MAX_CHANNELS_PER_CONNECTION'') (\<lambda>channels.
    and_then (env_count env ''MAX_CONNECTIONS_PER_ADDRESS'') (\<lambda>per_address.
    and_then (env_proxies env ''TRUSTED_PROXIES'') (\<lambda>proxies.
    Inr (cfg\<lparr>cf_AllowedOrigins := origins, cf_ClientEvents := events, cf_MaxMessageSize := message_size, cf_MaxBodySize := body_size,
      cf_OutboundQueue := queue, cf_MaxConnections := connections, cf_MaxMessagesPerSecond := rate, cf_MaxChannelsPerConnection := channels,
      cf_MaxConnectionsPerAddress := (if per_address = 0 then defaultMaxConnectionsPerAddress else per_address),
      cf_TrustedProxies := proxies\<rparr>)))))))))))"

definition load_timeouts :: "parsers \<Rightarrow> environment \<Rightarrow> config \<Rightarrow> problem + config" where
  "load_timeouts P env cfg =
    and_then (env_duration P env ''WRITE_TIMEOUT'') (\<lambda>write_timeout.
    and_then (env_duration P env ''PING_INTERVAL'') (\<lambda>ping.
    and_then (env_duration P env ''PONG_TIMEOUT'') (\<lambda>pong.
    and_then (env_duration P env ''SHUTDOWN_TIMEOUT'') (\<lambda>shutdown_timeout.
    and_then (env_level P env ''LOG_LEVEL'') (\<lambda>level.
    Inr (cfg\<lparr>cf_WriteTimeout := write_timeout, cf_PingInterval := ping, cf_PongTimeout := pong,
      cf_ShutdownTimeout := (if shutdown_timeout = 0 then defaultShutdownTimeout else shutdown_timeout), cf_LogLevel := level\<rparr>))))))"

definition no_config :: config where
  "no_config = \<lparr>cf_Addr = [], cf_AppID = [], cf_AppKey = [], cf_AppSecret = [], cf_Tenant = [], cf_AllowedOrigins = [], cf_ClientEvents = False,
    cf_MaxMessageSize = 0, cf_MaxBodySize = 0, cf_OutboundQueue = 0, cf_MaxConnections = 0, cf_WriteTimeout = 0, cf_PingInterval = 0,
    cf_PongTimeout = 0, cf_MaxMessagesPerSecond = 0, cf_MaxChannelsPerConnection = 0, cf_MaxConnectionsPerAddress = 0,
    cf_TrustedProxies = [], cf_ShutdownTimeout = 0, cf_LogLevel = 0\<rparr>"

definition loadConfig :: "parsers \<Rightarrow> environment \<Rightarrow> problem + config" where
  "loadConfig P env =
    (let addr = env_text env ''ADDR'';
         cfg = no_config\<lparr>cf_Addr := (if addr = [] then defaultAddr else addr), cf_AppID := env_text env ''APP_ID'',
           cf_AppKey := env_text env ''APP_KEY'', cf_AppSecret := env_text env ''APP_SECRET'', cf_Tenant := env_text env ''TENANT''\<rparr>
     in case missing [(''APP_ID'', cf_AppID cfg), (''APP_KEY'', cf_AppKey cfg), (''APP_SECRET'', cf_AppSecret cfg), (''TENANT'', cf_Tenant cfg)] of
          Some name \<Rightarrow> Inl (Problem name ''is not set, and this server cannot invent one'')
        | None \<Rightarrow>
            if \<not> ValidTenant P (cf_Tenant cfg) then Inl (Problem ''TENANT'' ''cannot be a tenant'')
            else and_then (load_limits P env cfg) (load_timeouts P env))"

section \<open>What is built from it\<close>

definition newServer :: "config \<Rightarrow> string + Server" where
  "newServer cfg = NewServer \<lparr>cfg_AppID = cf_AppID cfg, cfg_AppKey = cf_AppKey cfg, cfg_Broker = True, cfg_Connect = True, cfg_Operate = True,
    cfg_Subscribe = True, cfg_Protocol = True, cfg_Relay = None, cfg_MetricsTimeout = 0, cfg_MaxMessageSize = cf_MaxMessageSize cfg,
    cfg_MaxBodySize = cf_MaxBodySize cfg, cfg_MaxConnections = cf_MaxConnections cfg, cfg_MaxMessagesPerSecond = cf_MaxMessagesPerSecond cfg,
    cfg_OutboundQueue = cf_OutboundQueue cfg, cfg_WriteTimeout = cf_WriteTimeout cfg, cfg_PingInterval = cf_PingInterval cfg,
    cfg_PongTimeout = cf_PongTimeout cfg\<rparr>"

definition binary_connect :: "config \<Rightarrow> connectPolicy" where
  "binary_connect cfg = \<lparr>cp_tenant = cf_Tenant cfg, cp_origins = cf_AllowedOrigins cfg\<rparr>"

definition binary_operate :: "config \<Rightarrow> operationPolicy" where
  "binary_operate cfg = \<lparr>opp_tenant = cf_Tenant cfg\<rparr>"

definition binary_subscribe :: "config \<Rightarrow> subscriptionPolicy" where
  "binary_subscribe cfg = \<lparr>sp_tenant = cf_Tenant cfg, sp_appKey = cf_AppKey cfg, sp_secret = bytes_of_string (cf_AppSecret cfg)\<rparr>"

text \<open>A division of a positive duration, which Go truncates.\<close>

definition activityTimeout :: "int \<Rightarrow> int" where
  "activityTimeout d = (if d \<le> 0 then DefaultPongTimeout else d) div 2"

definition frameLayer :: "config \<Rightarrow> PusherConfig" where
  "frameLayer cfg = \<lparr>ActivityTimeout = activityTimeout (cf_PongTimeout cfg), ClientEvents = cf_ClientEvents cfg,
    MaxChannelsPerConnection = cf_MaxChannelsPerConnection cfg\<rparr>"

definition binary_door :: "config \<Rightarrow> frontDoor" where
  "binary_door cfg = \<lparr>fd_appKey = cf_AppKey cfg, fd_secret = bytes_of_string (cf_AppSecret cfg), fd_tenant = cf_Tenant cfg,
    fd_maxBody = (if cf_MaxBodySize cfg = 0 then DefaultMaxBodySize else cf_MaxBodySize cfg)\<rparr>"

record http_server =
  hv_ReadHeaderTimeout :: int
  hv_ReadTimeout :: int
  hv_WriteTimeout :: int
  hv_IdleTimeout :: int

definition newHTTPServer :: http_server where
  "newHTTPServer = \<lparr>hv_ReadHeaderTimeout = defaultReadHeaderTimeout, hv_ReadTimeout = defaultReadTimeout,
    hv_WriteTimeout = defaultWriteTimeout, hv_IdleTimeout = defaultIdleTimeout\<rparr>"

text \<open>The listener first, whose answer is given; then the sockets, whatever it answered.\<close>

definition binary_shutdown :: "string option \<Rightarrow> 'g registry \<Rightarrow> string option \<times> 'g registry" where
  "binary_shutdown stopped s =
    (let s1 = server_Close s in
     case stopped of Some err \<Rightarrow> (Some ''the shutdown did not finish in time'', s1) | None \<Rightarrow> (None, s1))"

text \<open>How listening and serving come to an end: no listener, a listener that stops, a signal.\<close>

datatype ending = NoListener | ListenerClosed | ListenerStopped | Signalled "string option"

datatype run_result = Exit "string option" | BadConfig problem

definition run :: "parsers \<Rightarrow> environment \<Rightarrow> ending \<Rightarrow> 'g registry \<Rightarrow> run_result \<times> 'g registry" where
  "run P env e s =
    (case loadConfig P env of
       Inl p \<Rightarrow> (BadConfig p, s)
     | Inr cfg \<Rightarrow>
         (case newServer cfg of
            Inl err \<Rightarrow> (Exit (Some err), s)
          | Inr server \<Rightarrow>
              (case e of
                 NoListener \<Rightarrow> (Exit (Some ''the address cannot be listened on''), s)
               | ListenerClosed \<Rightarrow> (Exit None, s)
               | ListenerStopped \<Rightarrow> (Exit (Some ''the listener stopped''), s)
               | Signalled stopped \<Rightarrow> map_prod Exit id (binary_shutdown stopped s))))"

section \<open>A configuration that was read\<close>

lemma and_then_Inr: "and_then r f = Inr v \<longleftrightarrow> (\<exists>x. r = Inr x \<and> f x = Inr v)"
  by (cases r) (simp_all add: and_then_def)

lemma env_values:
  "nonNegativeCount env name = Inr v \<Longrightarrow> 0 \<le> v" "env_size env name = Inr v \<Longrightarrow> 0 \<le> v" "env_duration P env name = Inr v \<Longrightarrow> 0 \<le> v"
  "0 \<le> d \<Longrightarrow> nonNegativeCountOr env name d = Inr v \<Longrightarrow> 0 \<le> v"
  by (auto simp: nonNegativeCount_def nonNegativeCountOr_def env_size_def env_duration_def Let_def split: sum.splits if_splits option.splits)

lemma loadConfig_limits:
  assumes "load_limits P env cfg = Inr cfg'"
  shows "cf_AppID cfg' = cf_AppID cfg" "cf_AppKey cfg' = cf_AppKey cfg" "cf_AppSecret cfg' = cf_AppSecret cfg" "cf_Tenant cfg' = cf_Tenant cfg"
    "0 \<le> cf_MaxMessageSize cfg'" "0 \<le> cf_MaxBodySize cfg'" "0 \<le> cf_OutboundQueue cfg'" "0 \<le> cf_MaxMessagesPerSecond cfg'"
    "nonNegativeCountOr env ''MAX_MESSAGES_PER_SECOND'' defaultMaxMessagesPerSecond = Inr (cf_MaxMessagesPerSecond cfg')"
    "env_count env ''MAX_CHANNELS_PER_CONNECTION'' = Inr (cf_MaxChannelsPerConnection cfg')"
    "env_proxies env ''TRUSTED_PROXIES'' = Inr (cf_TrustedProxies cfg')"
proof -
  have d: "0 \<le> defaultMaxMessagesPerSecond" by (simp add: defaultMaxMessagesPerSecond_def DefaultMaxChannelsPerConnection_def)
  obtain origins ev message_size body_size q connections rate channels per_address proxies where
    r: "env_size env ''MAX_MESSAGE_SIZE'' = Inr message_size" "env_size env ''MAX_BODY_SIZE'' = Inr body_size"
      "nonNegativeCount env ''OUTBOUND_QUEUE'' = Inr q"
      "nonNegativeCountOr env ''MAX_MESSAGES_PER_SECOND'' defaultMaxMessagesPerSecond = Inr rate"
      "env_count env ''MAX_CHANNELS_PER_CONNECTION'' = Inr channels" "env_proxies env ''TRUSTED_PROXIES'' = Inr proxies"
    and c: "cfg' = cfg\<lparr>cf_AllowedOrigins := origins, cf_ClientEvents := ev, cf_MaxMessageSize := message_size, cf_MaxBodySize := body_size,
      cf_OutboundQueue := q, cf_MaxConnections := connections, cf_MaxMessagesPerSecond := rate, cf_MaxChannelsPerConnection := channels,
      cf_MaxConnectionsPerAddress := (if per_address = 0 then defaultMaxConnectionsPerAddress else per_address),
      cf_TrustedProxies := proxies\<rparr>"
    using assms by (auto simp: load_limits_def and_then_Inr)
  show "cf_AppID cfg' = cf_AppID cfg" "cf_AppKey cfg' = cf_AppKey cfg" "cf_AppSecret cfg' = cf_AppSecret cfg" "cf_Tenant cfg' = cf_Tenant cfg"
    "0 \<le> cf_MaxMessageSize cfg'" "0 \<le> cf_MaxBodySize cfg'" "0 \<le> cf_OutboundQueue cfg'" "0 \<le> cf_MaxMessagesPerSecond cfg'"
    "nonNegativeCountOr env ''MAX_MESSAGES_PER_SECOND'' defaultMaxMessagesPerSecond = Inr (cf_MaxMessagesPerSecond cfg')"
    "env_count env ''MAX_CHANNELS_PER_CONNECTION'' = Inr (cf_MaxChannelsPerConnection cfg')"
    "env_proxies env ''TRUSTED_PROXIES'' = Inr (cf_TrustedProxies cfg')"
    using r c env_values(1) [OF r(3)] env_values(2) [OF r(1)] env_values(2) [OF r(2)] env_values(4) [OF d r(4)] by simp_all
qed

lemma loadConfig_timeouts:
  assumes "load_timeouts P env cfg = Inr cfg'"
  shows "0 \<le> cf_WriteTimeout cfg'" "0 \<le> cf_PingInterval cfg'" "0 \<le> cf_PongTimeout cfg'" "0 < cf_ShutdownTimeout cfg'"
    "\<exists>a b c d e. cfg' = cfg\<lparr>cf_WriteTimeout := a, cf_PingInterval := b, cf_PongTimeout := c, cf_ShutdownTimeout := d, cf_LogLevel := e\<rparr>"
  using assms env_values(3) [of P env] by (force simp: load_timeouts_def and_then_Inr defaultShutdownTimeout_def Second_def)+

lemma loadConfig_ok:
  assumes "loadConfig P env = Inr cfg"
  shows "cf_AppID cfg \<noteq> []" "cf_AppKey cfg \<noteq> []" "cf_AppSecret cfg \<noteq> []" "cf_Tenant cfg \<noteq> []" "ValidTenant P (cf_Tenant cfg)"
    "0 \<le> cf_MaxMessageSize cfg" "0 \<le> cf_MaxBodySize cfg" "0 \<le> cf_OutboundQueue cfg" "0 \<le> cf_MaxMessagesPerSecond cfg"
    "0 \<le> cf_WriteTimeout cfg" "0 \<le> cf_PingInterval cfg" "0 \<le> cf_PongTimeout cfg" "0 < cf_ShutdownTimeout cfg"
    "nonNegativeCountOr env ''MAX_MESSAGES_PER_SECOND'' defaultMaxMessagesPerSecond = Inr (cf_MaxMessagesPerSecond cfg)"
    "env_count env ''MAX_CHANNELS_PER_CONNECTION'' = Inr (cf_MaxChannelsPerConnection cfg)"
    "env_proxies env ''TRUSTED_PROXIES'' = Inr (cf_TrustedProxies cfg)"
proof -
  obtain cfg0 cfg1 where c: "cf_AppID cfg0 \<noteq> []" "cf_AppKey cfg0 \<noteq> []" "cf_AppSecret cfg0 \<noteq> []" "cf_Tenant cfg0 \<noteq> []"
      "ValidTenant P (cf_Tenant cfg0)" "load_limits P env cfg0 = Inr cfg1" "load_timeouts P env cfg1 = Inr cfg"
  proof -
    let ?cfg = "no_config\<lparr>cf_Addr := (if env_text env ''ADDR'' = [] then defaultAddr else env_text env ''ADDR''), cf_AppID := env_text env ''APP_ID'',
           cf_AppKey := env_text env ''APP_KEY'', cf_AppSecret := env_text env ''APP_SECRET'', cf_Tenant := env_text env ''TENANT''\<rparr>"
    have "missing [(''APP_ID'', cf_AppID ?cfg), (''APP_KEY'', cf_AppKey ?cfg), (''APP_SECRET'', cf_AppSecret ?cfg), (''TENANT'', cf_Tenant ?cfg)] = None"
      "ValidTenant P (cf_Tenant ?cfg)" "and_then (load_limits P env ?cfg) (load_timeouts P env) = Inr cfg"
      using assms unfolding loadConfig_def Let_def by (simp_all split: option.splits if_splits)
    then show thesis using that [of ?cfg] by (auto simp: missing_def and_then_Inr split: if_splits)
  qed
  obtain a b d e f where t: "cfg = cfg1\<lparr>cf_WriteTimeout := a, cf_PingInterval := b, cf_PongTimeout := d, cf_ShutdownTimeout := e, cf_LogLevel := f\<rparr>"
    using loadConfig_timeouts(5) [OF c(7)] by blast
  show "cf_AppID cfg \<noteq> []" "cf_AppKey cfg \<noteq> []" "cf_AppSecret cfg \<noteq> []" "cf_Tenant cfg \<noteq> []" "ValidTenant P (cf_Tenant cfg)"
    "0 \<le> cf_MaxMessageSize cfg" "0 \<le> cf_MaxBodySize cfg" "0 \<le> cf_OutboundQueue cfg" "0 \<le> cf_MaxMessagesPerSecond cfg"
    "nonNegativeCountOr env ''MAX_MESSAGES_PER_SECOND'' defaultMaxMessagesPerSecond = Inr (cf_MaxMessagesPerSecond cfg)"
    "env_count env ''MAX_CHANNELS_PER_CONNECTION'' = Inr (cf_MaxChannelsPerConnection cfg)"
    "env_proxies env ''TRUSTED_PROXIES'' = Inr (cf_TrustedProxies cfg)"
    using c(1-5) loadConfig_limits [OF c(6)] t by simp_all
  show "0 \<le> cf_WriteTimeout cfg" "0 \<le> cf_PingInterval cfg" "0 \<le> cf_PongTimeout cfg" "0 < cf_ShutdownTimeout cfg"
    using loadConfig_timeouts(1-4) [OF c(7)] by simp_all
qed

section \<open>What is built fits together\<close>

lemma newServer_iff:
  assumes "loadConfig P env = Inr cfg"
  shows "newServer cfg = (if or_default (cf_PongTimeout cfg) DefaultPongTimeout \<le> or_default (cf_PingInterval cfg) DefaultPingInterval
    then Inl ''PongTimeout has to be longer than PingInterval''
    else Inr \<lparr>appID = cf_AppID cfg, appKey = cf_AppKey cfg, operates = True, relayed = False,
      maxMessageSize = or_default (cf_MaxMessageSize cfg) DefaultMaxMessageSize, maxBodySize = or_default (cf_MaxBodySize cfg) DefaultMaxBodySize,
      outboundQueue = or_default (cf_OutboundQueue cfg) DefaultOutboundQueue, writeTimeout = or_default (cf_WriteTimeout cfg) DefaultWriteTimeout,
      pingInterval = or_default (cf_PingInterval cfg) DefaultPingInterval, pongTimeout = or_default (cf_PongTimeout cfg) DefaultPongTimeout,
      srv_maxConnections = or_default (cf_MaxConnections cfg) DefaultMaxConnections, maxMessagesPerSecond = cf_MaxMessagesPerSecond cfg\<rparr>)"
  using loadConfig_ok [OF assms] by (simp add: newServer_def NewServer_def config_error_def Let_def not_less)

text \<open>The seconds the client is told to ping after.\<close>

definition told_seconds :: "int \<Rightarrow> int" where
  "told_seconds d = (let n = round_second d div 1000000000 in if n = 0 then 1 else n)"

lemma round_second_le: "0 < d \<Longrightarrow> 2 * round_second d \<le> 2 * d + 1000000000"
  using pos_mod_bound [of 1000000000 d] pos_mod_sign [of 1000000000 d] by (auto simp: round_second_def Let_def)

lemma told_in_time:
  assumes "1000000000 < d"
  shows "0 < told_seconds (d div 2) \<and> told_seconds (d div 2) * 1000000000 < d"
proof -
  have p: "0 < d div 2" using assms by linarith
  have nn: "0 \<le> round_second (d div 2)" using p pos_mod_bound [of 1000000000 "d div 2"] zmod_le_nonneg_dividend [of "d div 2" 1000000000]
    by (auto simp: round_second_def Let_def)
  let ?n = "round_second (d div 2) div 1000000000"
  have "?n * 1000000000 \<le> round_second (d div 2)" using pos_mod_sign [of 1000000000 "round_second (d div 2)"]
    by (metis div_mult_mod_eq le_add_same_cancel1 zero_less_numeral)
  moreover have "2 * round_second (d div 2) \<le> 2 * (d div 2) + 1000000000" by (rule round_second_le [OF p])
  ultimately have "?n * 1000000000 < d" using assms by linarith
  moreover have "0 \<le> ?n" using nn by (simp add: pos_imp_zdiv_nonneg_iff)
  ultimately show ?thesis using assms by (auto simp: told_seconds_def Let_def)
qed

text \<open>Property C37. A configuration that is read is one a server is built from. Whatever the environment says, once
  it is read the only thing that can still be wrong with it is a pong timeout that is not longer
  than the ping interval, with their defaults of 70 and 30 seconds where they were left out. The server
  that is built reads bodies up to the very limit the front door reads them to, and serves the
  application whose key the front door checks. A client is told to ping after a whole number of
  seconds that is over before the server hangs up, as long as that is more than a second.\<close>

theorem loaded_configuration_serves:
  assumes "loadConfig P env = Inr cfg"
  shows "((\<exists>s. newServer cfg = Inr s) \<longleftrightarrow>
      or_default (cf_PingInterval cfg) (30 * Second) < or_default (cf_PongTimeout cfg) (70 * Second)) \<and>
    (\<forall>s. newServer cfg = Inr s \<longrightarrow> maxBodySize s = fd_maxBody (binary_door cfg) \<and> 0 < fd_maxBody (binary_door cfg) \<and>
      appKey s = fd_appKey (binary_door cfg) \<and> appKey s \<noteq> [] \<and> fd_secret (binary_door cfg) \<noteq> [] \<and>
      (1 * Second < pongTimeout s \<longrightarrow> 0 < told_seconds (ActivityTimeout (frameLayer cfg)) \<and>
        told_seconds (ActivityTimeout (frameLayer cfg)) * Second < pongTimeout s))"
proof (intro conjI allI impI)
  note ok = loadConfig_ok [OF assms]
  note new = newServer_iff [OF assms]
  show "(\<exists>s. newServer cfg = Inr s) \<longleftrightarrow> or_default (cf_PingInterval cfg) (30 * Second) < or_default (cf_PongTimeout cfg) (70 * Second)"
    using new by (simp add: DefaultPongTimeout_def DefaultPingInterval_def not_le)
  fix s assume s: "newServer cfg = Inr s"
  have built: "pongTimeout s = or_default (cf_PongTimeout cfg) DefaultPongTimeout" "maxBodySize s = or_default (cf_MaxBodySize cfg) DefaultMaxBodySize"
    "appKey s = cf_AppKey cfg" using s new by (auto split: if_splits)
  have act: "ActivityTimeout (frameLayer cfg) = pongTimeout s div 2" using ok(12) built by (simp add: frameLayer_def activityTimeout_def or_default_def)
  show "maxBodySize s = fd_maxBody (binary_door cfg)" "0 < fd_maxBody (binary_door cfg)" "appKey s = fd_appKey (binary_door cfg)" "appKey s \<noteq> []"
    using ok(2,7) built by (auto simp: binary_door_def or_default_def DefaultMaxBodySize_def)
  show "fd_secret (binary_door cfg) \<noteq> []" using ok(3) by (simp add: binary_door_def flip: length_greater_0_conv)
  assume "1 * Second < pongTimeout s"
  then show "0 < told_seconds (ActivityTimeout (frameLayer cfg))" "told_seconds (ActivityTimeout (frameLayer cfg)) * Second < pongTimeout s"
    using told_in_time [of "pongTimeout s"] by (simp_all add: act Second_def)
qed

text \<open>The seconds are those of the frame the client is sent.\<close>

lemma told_seconds_sent: "0 < d \<Longrightarrow> 0 < told_seconds d \<Longrightarrow> ConnectionEstablished sid d = ev_frame EventConnectionEstablished []
    (json_object [(''socket_id'', json_string sid), (''activity_timeout'', int_string (told_seconds d))])"
  by (auto simp: ConnectionEstablished_def told_seconds_def Let_def)

section \<open>The rate limit lets a client come back\<close>

lemma burst_passes:
  assumes "0 < n" "n \<le> Second" "sorted (now # ts)" "int (length ts) \<le> n"
  shows "fst (allow_all (newRateLimiter n now) ts) = replicate (length ts) True"
proof (rule ccontr)
  let ?l = "newRateLimiter n now"
  let ?bs = "fst (allow_all ?l ts)"
  assume "?bs \<noteq> replicate (length ts) True"
  then have "\<exists>i < length ts. \<not> ?bs ! i" using allow_all_length [of ?l ts] by (metis (full_types) length_replicate nth_equalityI nth_replicate)
  then obtain i where i: "i < length ts" "\<not> ?bs ! i" by blast
  let ?us = "take i ts" and ?t = "ts ! i"
  have ts: "ts = (?us @ [?t]) @ drop (Suc i) ts" using i(1) by (simp add: id_take_nth_drop)
  obtain cs l1 where c: "allow_all ?l (?us @ [?t]) = (cs, l1)" by force
  have len: "length cs = Suc i" using allow_all_length [of ?l "?us @ [?t]"] c i(1) by simp
  have "?bs = cs @ fst (allow_all l1 (drop (Suc i) ts))" by (subst ts, subst allow_all_append) (simp add: c split_def Let_def)
  then have "\<not> cs ! i" using i(2) len by (simp add: nth_append)
  moreover have "cs = take i cs @ [cs ! i]" using len take_Suc_conv_app_nth [of i cs] by simp
  ultimately have cs: "cs = take i cs @ [False]" by simp
  have "sorted (now # ?us @ [?t])" using assms(3) ts by (metis append_Cons sorted_append)
  from refusal_is_earned [OF assms(1,2) this, of "take i cs" l1] c cs
  have "n \<le> int (length (filter (\<lambda>(x, b). b \<and> ?t - Second \<le> x) (zip ?us (take i cs))))" by simp
  also have "\<dots> \<le> int (length (zip ?us (take i cs)))" using length_filter_le by (metis of_nat_mono)
  also have "\<dots> \<le> int i" by simp
  finally show False using i(1) assms(4) by linarith
qed

text \<open>Property C38. A client that comes back is not refused. Where a deployment sets neither the rate nor the number of
  channels, a socket that subscribes to as many channels as it may hold, all at once or over any
  time, has every one of these frames let through.\<close>

theorem resubscribing_is_never_refused:
  assumes "loadConfig P env = Inr cfg" "env_text env ''MAX_MESSAGES_PER_SECOND'' = []" "env_text env ''MAX_CHANNELS_PER_CONNECTION'' = []"
    and "newServer cfg = Inr s" "NewPusher H wires (Some (b, carrier)) (Some policy) (frameLayer cfg) = Inr (E, p)"
    and "sorted (now # ts)" "int (length ts) \<le> maxChannels E"
  shows "fst (allow_all (newRateLimiter (maxMessagesPerSecond s) now) ts) = replicate (length ts) True"
proof -
  have "cf_MaxMessagesPerSecond cfg = 100" "cf_MaxChannelsPerConnection cfg = 0"
    using loadConfig_ok(14,15) [OF assms(1)] assms(2,3)
    by (simp_all add: nonNegativeCountOr_def env_count_def defaultMaxMessagesPerSecond_def DefaultMaxChannelsPerConnection_def)
  then have "maxMessagesPerSecond s = 100" "maxChannels E = 100"
    using assms(4,5) newServer_iff [OF assms(1)] by (auto simp: NewPusher_def frameLayer_def DefaultMaxChannelsPerConnection_def split: if_splits)
  then show ?thesis using burst_passes [of 100 now ts] assms(6,7) by (simp add: Second_def)
qed

section \<open>A prefix in mapped notation\<close>

text \<open>
  A single proxy address in mapped notation is turned into the IPv4 address it stands for; a prefix
  is not. Peers and hops always are, so such a prefix is never theirs.
\<close>

lemma byte_bits_inj: "byte_bits a = byte_bits b \<Longrightarrow> a = b"
proof (rule bit_word_eqI)
  fix n assume e: "byte_bits a = byte_bits b" and n: "n < LENGTH(8)"
  have "byte_bits a ! (7 - n) = byte_bits b ! (7 - n)" using e by simp
  then show "bit a n = bit b n" using n by (simp add: byte_bits_def)
qed

lemma bits_inj: "length xs = length ys \<Longrightarrow> concat (map byte_bits xs) = concat (map byte_bits ys) \<Longrightarrow> xs = ys"
proof (induction xs ys rule: list_induct2)
  case (Cons x xs y ys)
  have "length (byte_bits x) = length (byte_bits y)" by (simp add: byte_bits_def)
  then show ?case using Cons byte_bits_inj by auto
qed simp

lemma take_bits: "take (8 * k) (concat (map byte_bits bs)) = concat (map byte_bits (take k bs))"
proof (induction k arbitrary: bs)
  case (Suc k)
  show ?case
  proof (cases bs)
    case (Cons b bs')
    have "length (byte_bits b) = 8" by (simp add: byte_bits_def)
    then show ?thesis using Suc Cons by simp
  qed simp
qed simp

lemma bits_length: "length (concat (map byte_bits bs)) = 8 * length bs"
  by (induction bs) (simp_all add: byte_bits_def)

lemma mask_keeps_front:
  assumes "8 * k \<le> n" "k \<le> length bs"
  shows "take k (mask_bytes n bs) = take k bs"
  by (rule nth_equalityI) (use assms in \<open>auto simp: mask_bytes_def mask_byte_def\<close>)

lemma mapped_prefix_is_nobody:
  assumes "pf_addr p = Addr6 b z" "length b = 16" "take 12 b = mapped_prefix" "96 \<le> pf_bits p"
  shows "\<not> Contains (Masked p) (bare a)"
proof (cases "bare a")
  case (Addr6 b' z')
  have ne: "take 12 b' \<noteq> mapped_prefix" using Addr6 by (cases a) (auto simp: bare_def split: if_splits)
  show ?thesis
  proof
    assume c: "Contains (Masked p) (bare a)"
    define n where "n = pf_bits p"
    have same: "take n (concat (map byte_bits (mask_bytes n b))) = take n (concat (map byte_bits b'))"
      using c assms(1) Addr6 by (simp add: Contains_def Masked_def addr_bits_def n_def)
    have short: "take (8 * 12) (take n ys) = take (8 * 12) ys" for ys :: "bool list" using assms(4) by (simp add: n_def min_absorb1)
    have "take (8 * 12) (concat (map byte_bits (mask_bytes n b))) = take (8 * 12) (concat (map byte_bits b'))"
      using arg_cong [OF same, of "take (8 * 12)"] unfolding short .
    then have e: "concat (map byte_bits (take 12 (mask_bytes n b))) = concat (map byte_bits (take 12 b'))" unfolding take_bits .
    have m: "take 12 (mask_bytes n b) = mapped_prefix" using mask_keeps_front [of 12 n b] assms by (simp add: n_def)
    have "length mapped_prefix = length (take 12 b')"
      using arg_cong [OF e, of length] m unfolding bits_length by simp
    from bits_inj [OF this] e m ne show False by simp
  qed
qed (simp add: Contains_def Masked_def assms(1))

lemma mapped_proxies_are_never_believed:
  assumes "\<forall>p \<in> set trusted. \<exists>q b z. p = Masked q \<and> pf_addr q = Addr6 b z \<and> length b = 16 \<and> take 12 b = mapped_prefix \<and> 96 \<le> pf_bits q"
    and "SplitHostPort (ar_RemoteAddr r) = Some (host, port)" "ParseAddr host = Some peer"
  shows "client (newAddressLimit n trusted) r = Some (bare peer)"
proof -
  have "\<not> Contains p (bare peer)" if t: "p \<in> set trusted" for p
  proof -
    obtain q b z where "p = Masked q" "pf_addr q = Addr6 b z" "length b = 16" "take 12 b = mapped_prefix" "96 \<le> pf_bits q" using assms(1) t by blast
    then show ?thesis using mapped_prefix_is_nobody [of q b z peer] by simp
  qed
  then show ?thesis using assms(2,3) by (auto simp: client_def believes_def newAddressLimit_def list_ex_iff)
qed

section \<open>The process in front of a socket\<close>

text \<open>
  A request to the process: what the limit reads of it, what the front door reads of it, and the
  handshake. The limit is in front of the door, and the door in front of the server. Of hesape,
  \<open>auth.Authorize\<close> is an argument: it asks the policy, refuses what the policy refuses, and what it
  grants is a grant for the action, of the tenant of the subject.
\<close>

record socket_call =
  sc_address :: address_request
  sc_door :: door_request
  sc_appKey :: string
  sc_http :: handshake_request

type_synonym ('g, 'r) authorize = "(Subject \<Rightarrow> string \<Rightarrow> 'r \<Rightarrow> string option) \<Rightarrow> Subject \<Rightarrow> string \<Rightarrow> 'r \<Rightarrow> jerr + 'g"

definition authorize_documented :: "('g, Subject) hesape \<Rightarrow> ('g, 'r) authorize \<Rightarrow> bool" where
  "authorize_documented H authorize \<longleftrightarrow> (\<forall>can s a h. case authorize can s a h of
     Inl err \<Rightarrow> can s a h \<noteq> None \<longrightarrow> is_forbidden err
   | Inr g \<Rightarrow> can s a h = None \<and> Check H g a = None \<and> auth_Tenant H g = sj_Tenant s)"

definition binary_serve :: "('g, Subject) pusher_env \<Rightarrow> door_auth \<Rightarrow> ('g, Handshake) authorize \<Rightarrow> (string \<Rightarrow> url option) \<Rightarrow> config \<Rightarrow> Server \<Rightarrow> int \<Rightarrow>
    surroundings \<Rightarrow> socket_call \<Rightarrow> addressLimit \<times> 'g socket_state \<Rightarrow> socket_answer \<times> addressLimit \<times> 'g socket_state" where
  "binary_serve E D authorize parse cfg srv now x r = (\<lambda>(l, st).
    (case admit l (sc_address r) of
       (admission.Refused status message, l1) \<Rightarrow> (Plain status message, l1, st)
     | (a, l1) \<Rightarrow>
         (case door_ServeHTTP D (binary_door cfg) now (sc_door r) of
            Answer status message \<Rightarrow> (Plain status message, finish a l1, st)
          | Hand subject _ \<Rightarrow>
              let (answer, st1) = handleSocket E srv (\<lambda>_. authorize (connect_Can (binary_connect cfg))) parse x
                    \<lparr>sq_appKey = sc_appKey r, sq_subject = Some subject, sq_http = sc_http r\<rparr> st
              in (answer, finish a l1, st1))))"

lemma slot_comes_back: "admit l r = (a, l1) \<Longrightarrow> al_count (finish a l1) c = al_count l c"
  by (auto simp: admit_def take_slot_def release_slot_def al_count_def update_conv' delete_conv' split: option.splits if_splits)

lemma door_subject_tenant:
  assumes "door_documented D" "door_ServeHTTP D d now r = Hand subject b"
  shows "sj_Tenant subject = fd_tenant d"
  using assms by (auto simp: door_ServeHTTP_def door_documented_def application_def split: if_splits read_result.splits)

text \<open>Property C2. Every socket of the process is the configured tenant's. Whatever a request carries, when the process
  serves it a socket then the app key is the configured one, the origin it names is on the list of
  the configuration if there is one, and is the host it was sent to, and everything the server
  reports of it is about that socket and the tenant of the configuration; the client had a slot of
  its address free where a limit is set, and has given it back.\<close>

theorem sockets_are_the_tenants:
  assumes "authorize_documented (hes E) authorize" "door_documented D"
    and "loadConfig P env = Inr cfg" "newServer cfg = Inr srv"
    and "binary_serve E D authorize parse cfg srv now x r (l, st) = (Served, l', st')"
  shows "sc_appKey r = cf_AppKey cfg \<and> (\<forall>c. al_count l' c = al_count l c) \<and>
    (cf_AllowedOrigins cfg \<noteq> [] \<longrightarrow> header_Get (hq_Header (sc_http r)) ''Origin'' \<in> set (cf_AllowedOrigins cfg)) \<and>
    sameOrigin parse (sc_http r) \<and>
    (\<forall>c. fst (admit l (sc_address r)) = Counted c \<longrightarrow> int (al_count l c) < al_limit l) \<and>
    (\<exists>sid new. so_seen st' = so_seen st @ new \<and> new \<noteq> [] \<and> (\<forall>ob \<in> set new. about_socket sid (cf_Tenant cfg) ob))"
proof -
  obtain a l1 where a: "admit l (sc_address r) = (a, l1)" by force
  obtain subject b where d: "door_ServeHTTP D (binary_door cfg) now (sc_door r) = Hand subject b" "l' = finish a l1"
      and h: "handleSocket E srv (\<lambda>_. authorize (connect_Can (binary_connect cfg))) parse x
        \<lparr>sq_appKey = sc_appKey r, sq_subject = Some subject, sq_http = sc_http r\<rparr> st = (Served, st')"
    using assms(5) a by (auto simp: binary_serve_def Let_def split: admission.splits door_outcome.splits prod.splits)
  obtain sid q g new where s: "sc_appKey r = appKey srv" "q = \<lparr>hs_Socket = sid, hs_Origin = header_Get (hq_Header (sc_http r)) ''Origin''\<rparr>"
      "authorize (connect_Can (binary_connect cfg)) subject Connect q = Inr g" "sameOrigin parse (sc_http r)"
      "so_seen st' = so_seen st @ new" "new \<noteq> []" "\<forall>ob \<in> set new. about_socket sid (auth_Tenant (hes E) g) ob"
    using served_by_the_policy [OF h] by auto
  have g: "connect_Can (binary_connect cfg) subject Connect q = None" "auth_Tenant (hes E) g = cf_Tenant cfg"
    using assms(1) s(3) door_subject_tenant [OF assms(2) d(1)] by (auto simp: authorize_documented_def binary_door_def split: sum.splits)
  have "appKey srv = cf_AppKey cfg" using assms(4) newServer_iff [OF assms(3)] by (auto split: if_splits)
  moreover have "cf_AllowedOrigins cfg \<noteq> [] \<longrightarrow> header_Get (hq_Header (sc_http r)) ''Origin'' \<in> set (cf_AllowedOrigins cfg)"
    using g(1) s(2) by (auto simp: connect_Can_def binary_connect_def split: if_splits)
  moreover have "\<forall>c. fst (admit l (sc_address r)) = Counted c \<longrightarrow> int (al_count l c) < al_limit l"
    by (auto simp: admit_def take_slot_def split: option.splits if_splits)
  ultimately show ?thesis using s g slot_comes_back [OF a] d(2) by auto
qed

section \<open>Witnesses\<close>

text \<open>The four variables a process cannot do without, and nothing else.\<close>

definition sample_environment :: environment where
  "sample_environment = map_of [(''JOAJU_APP_ID'', ''app''), (''JOAJU_APP_KEY'', ''key''), (''JOAJU_APP_SECRET'', ''secret''), (''JOAJU_TENANT'', ''acme'')]"

definition sample_parsers :: parsers where
  "sample_parsers = \<lparr>url_Parse = (\<lambda>_. None), ParseDuration = (\<lambda>_. None), UnmarshalLevel = (\<lambda>_. None), ValidTenant = (\<lambda>t. CHR '':'' \<notin> set t)\<rparr>"

definition sample_binary :: config where
  "sample_binary = no_config\<lparr>cf_Addr := defaultAddr, cf_AppID := ''app'', cf_AppKey := ''key'', cf_AppSecret := ''secret'', cf_Tenant := ''acme'',
    cf_MaxMessagesPerSecond := 100, cf_MaxConnectionsPerAddress := 256, cf_TrustedProxies := defaultTrustedProxies,
    cf_ShutdownTimeout := 10 * Second\<rparr>"

lemma trimmed: "TrimSpace [] = []" "TrimSpace ''app'' = ''app''" "TrimSpace ''key'' = ''key''" "TrimSpace ''secret'' = ''secret''" "TrimSpace ''acme'' = ''acme''"
  by (simp_all add: TrimSpace_def trim_left.simps trim_right.simps spaces_def is_prefix_def)

lemma sample_texts: "env_text sample_environment name = (if name = ''APP_ID'' then ''app'' else if name = ''APP_KEY'' then ''key''
    else if name = ''APP_SECRET'' then ''secret'' else if name = ''TENANT'' then ''acme'' else [])"
  by (simp add: env_text_def sample_environment_def envPrefix_def trimmed)

lemma sample_loads: "loadConfig sample_parsers sample_environment = Inr sample_binary"
proof -
  have "load_limits sample_parsers sample_environment cfg = Inr (cfg\<lparr>cf_AllowedOrigins := [], cf_ClientEvents := False, cf_MaxMessageSize := 0,
      cf_MaxBodySize := 0, cf_OutboundQueue := 0, cf_MaxConnections := 0, cf_MaxMessagesPerSecond := 100, cf_MaxChannelsPerConnection := 0,
      cf_MaxConnectionsPerAddress := 256, cf_TrustedProxies := defaultTrustedProxies\<rparr>)" for cfg
    by (simp add: load_limits_def and_then_def env_origins_def clientEvents_def env_size_def nonNegativeCount_def nonNegativeCountOr_def
        env_count_def env_proxies_def sample_texts defaultMaxMessagesPerSecond_def DefaultMaxChannelsPerConnection_def defaultMaxConnectionsPerAddress_def)
  moreover have "load_timeouts sample_parsers sample_environment cfg = Inr (cfg\<lparr>cf_WriteTimeout := 0, cf_PingInterval := 0, cf_PongTimeout := 0,
      cf_ShutdownTimeout := 10 * Second, cf_LogLevel := 0\<rparr>)" for cfg
    by (simp add: load_timeouts_def and_then_def env_duration_def env_level_def LevelInfo_def sample_texts defaultShutdownTimeout_def)
  ultimately show ?thesis
    by (simp add: loadConfig_def sample_texts missing_def and_then_def sample_parsers_def sample_binary_def no_config_def Let_def)
qed

lemma sample_serves: "\<exists>s. newServer sample_binary = Inr s \<and> appKey s = ''key'' \<and> pongTimeout s = 70 * Second \<and> maxMessagesPerSecond s = 100"
  using newServer_iff [OF sample_loads] by (simp add: sample_binary_def no_config_def or_default_def server_defaults)

theorem loaded_configuration_serves_witness:
  "\<exists>s. newServer sample_binary = Inr s \<and> maxBodySize s = fd_maxBody (binary_door sample_binary) \<and>
    told_seconds (ActivityTimeout (frameLayer sample_binary)) * Second < 70 * Second"
  using loaded_configuration_serves [OF sample_loads] sample_serves by (auto simp: Second_def)

theorem resubscribing_is_never_refused_witness:
  "fst (allow_all (newRateLimiter 100 0) (replicate 100 5)) = replicate 100 True"
proof -
  obtain s where s: "newServer sample_binary = Inr s" "maxMessagesPerSecond s = 100" using sample_serves by blast
  obtain E p where np: "NewPusher sample_hesape all_writes_work (Some (NewMemoryBroker, False)) (Some (subscribe_policy sample_env)) (frameLayer sample_binary) = Inr (E, p)"
    "maxChannels E = 100" by (simp add: NewPusher_def frameLayer_def sample_binary_def no_config_def DefaultMaxChannelsPerConnection_def)
  show ?thesis
    using resubscribing_is_never_refused [OF sample_loads _ _ s(1) np(1), of 0 "replicate 100 5"] s(2) np(2)
    by (simp add: sample_texts)
qed

text \<open>The prefixes that are believed unless a deployment says otherwise, as the source writes them.\<close>

lemma hex_values: "hex_value (CHR ''1'') = Some 1" "hex_value (CHR ''0'') = Some 0" "hex_value (CHR ''f'') = Some 15" "hex_value (CHR ''c'') = Some 12"
  "hex_value (CHR '':'') = None" "hex_value (CHR ''.'') = None" "code (CHR ''1'') = 49"
  by code_simp+

lemma eight_groups: "(8::nat) = Suc (Suc (Suc (Suc (Suc (Suc (Suc (Suc 0)))))))"
  by simp

lemmas address_text = ParseAddr_def parseIPv6_def index_of_def eight_groups hex_values Let_def

lemma IPv6_texts:
  "ParseAddr ''::1'' = Some (Addr6 (replicate 15 0 @ [1]) [])" "ParseAddr ''fc00::'' = Some (Addr6 (0xfc # replicate 15 0) [])"
  by (simp add: address_text, simp add: numeral_eq_Suc)+

lemma default_proxies_text: "map ParsePrefix [''127.0.0.0/8'', ''10.0.0.0/8'', ''172.16.0.0/12'', ''192.168.0.0/16'', ''::1/128'', ''fc00::/7''] =
    map Some defaultTrustedProxies"
proof -
  have "ParsePrefix ''127.0.0.0/8'' = Some \<lparr>pf_addr = Addr4 [127, 0, 0, 0], pf_bits = 8\<rparr>" "ParsePrefix ''10.0.0.0/8'' = Some \<lparr>pf_addr = Addr4 [10, 0, 0, 0], pf_bits = 8\<rparr>"
    "ParsePrefix ''172.16.0.0/12'' = Some \<lparr>pf_addr = Addr4 [172, 16, 0, 0], pf_bits = 12\<rparr>"
    "ParsePrefix ''192.168.0.0/16'' = Some \<lparr>pf_addr = Addr4 [192, 168, 0, 0], pf_bits = 16\<rparr>"
    "last_index (CHR ''/'') ''::1/128'' = Some 3" "ParseInt ''128'' = Some 128" "last_index (CHR ''/'') ''fc00::/7'' = Some 6" "ParseInt ''7'' = Some 7"
    by code_simp+
  moreover from this have "ParsePrefix ''::1/128'' = Some \<lparr>pf_addr = Addr6 (replicate 15 0 @ [1]) [], pf_bits = 128\<rparr>"
    "ParsePrefix ''fc00::/7'' = Some \<lparr>pf_addr = Addr6 (0xfc # replicate 15 0) [], pf_bits = 7\<rparr>"
    by (simp_all add: ParsePrefix_def IPv6_texts hex_values)
  ultimately show ?thesis unfolding defaultTrustedProxies_def list.map by argo
qed

text \<open>A proxy prefix in mapped notation is read, and the proxy is not believed.\<close>

lemma mapped_proxy_is_read:
  "env_proxies (\<lambda>_. Some ''::ffff:10.0.0.0/104'') ''TRUSTED_PROXIES'' = Inr [Masked \<lparr>pf_addr = Addr6 (mapped_prefix @ [10, 0, 0, 0]) [], pf_bits = 104\<rparr>]"
  "client (newAddressLimit 1 [Masked \<lparr>pf_addr = Addr6 (mapped_prefix @ [10, 0, 0, 0]) [], pf_bits = 104\<rparr>])
    (proxied\<lparr>ar_RemoteAddr := ''10.0.0.1:4000''\<rparr>) = Some (Addr4 [10, 0, 0, 1])"
proof -
  have "v4_fields 0 0 [] ''10.0.0.0'' = Some [10, 0, 0, 0]" by code_simp
  then have a: "ParseAddr ''::ffff:10.0.0.0'' = Some (Addr6 (mapped_prefix @ [10, 0, 0, 0]) [])"
    by (simp add: address_text mapped_prefix_def del: v4_fields.simps)
  have "last_index (CHR ''/'') ''::ffff:10.0.0.0/104'' = Some 15" "ParseInt ''104'' = Some 104" by code_simp+
  then have p: "ParsePrefix ''::ffff:10.0.0.0/104'' = Some \<lparr>pf_addr = Addr6 (mapped_prefix @ [10, 0, 0, 0]) [], pf_bits = 104\<rparr>"
    by (simp add: ParsePrefix_def a hex_values)
  have "TrimSpace ''::ffff:10.0.0.0/104'' = ''::ffff:10.0.0.0/104''" by code_simp
  then show "env_proxies (\<lambda>_. Some ''::ffff:10.0.0.0/104'') ''TRUSTED_PROXIES'' =
      Inr [Masked \<lparr>pf_addr = Addr6 (mapped_prefix @ [10, 0, 0, 0]) [], pf_bits = 104\<rparr>]"
    by (simp add: env_proxies_def env_text_def p)
  have "SplitHostPort (ar_RemoteAddr (proxied\<lparr>ar_RemoteAddr := ''10.0.0.1:4000''\<rparr>)) = Some (''10.0.0.1'', ''4000'')"
    "ParseAddr ''10.0.0.1'' = Some (Addr4 [10, 0, 0, 1])" by code_simp+
  from mapped_proxies_are_never_believed [OF _ this, of "[Masked \<lparr>pf_addr = Addr6 (mapped_prefix @ [10, 0, 0, 0]) [], pf_bits = 104\<rparr>]" 1]
  show "client (newAddressLimit 1 [Masked \<lparr>pf_addr = Addr6 (mapped_prefix @ [10, 0, 0, 0]) [], pf_bits = 104\<rparr>])
      (proxied\<lparr>ar_RemoteAddr := ''10.0.0.1:4000''\<rparr>) = Some (Addr4 [10, 0, 0, 1])"
    by (force simp: mapped_prefix_def bare_def)
qed

text \<open>Grants that are what \<open>auth.Authorize\<close> says they are.\<close>

definition door_hesape :: "(sample_grant, Subject) hesape" where
  "door_hesape = \<lparr>Check = (\<lambda>g a. if gr_action g = a then None else Some ErrForbidden),
    Subject = (\<lambda>g. \<lparr>sj_ID = gr_subject g, sj_Tenant = gr_tenant g, sj_Roles = []\<rparr>), subject_ID = sj_ID, auth_Tenant = gr_tenant,
    RequestedChannel = RequestedChannel sample_hesape, TenantChannel = TenantChannel sample_hesape,
    TenantSeparator = '':'', PrivateChannelPrefix = ''private-'', PresenceChannelPrefix = ''presence-'',
    EncryptedPrivateChannelPrefix = ''private-encrypted-'', ChannelJoin = ''channel.join''\<rparr>"

definition door_env :: "(sample_grant, Subject) pusher_env" where
  "door_env = \<lparr>hes = door_hesape, snk = all_writes_work, subscribe_policy = (\<lambda>_ _ _ _. Inl ErrForbidden),
    is_carrier = False, events = False, timeout = 35 * Second, maxChannels = 100\<rparr>"

definition sample_authorize :: "(sample_grant, 'r) authorize" where
  "sample_authorize can s a h = (if can s a h = None then Inr \<lparr>gr_subject = sj_ID s, gr_tenant = sj_Tenant s, gr_action = a\<rparr> else Inl ErrForbidden)"

definition sample_call :: socket_call where
  "sample_call = \<lparr>sc_address = proxied, sc_door = \<lparr>dr_Method = ''GET'', dr_Path = ''/app/key'', dr_EscapedPath = ''/app/key'', dr_Query = [], dr_Body = Whole []\<rparr>,
    sc_appKey = ''key'', sc_http = sample_dial\<rparr>"

theorem sockets_are_the_tenants_witness:
  "\<exists>s l st sid new. newServer sample_binary = Inr s \<and>
    binary_serve door_env sample_auth sample_authorize (\<lambda>_. None) sample_binary s 0 sample_surroundings sample_call
      (newAddressLimit 1 [loopback], sample_socket_state) = (Served, l, st) \<and>
    so_seen st = new \<and> new \<noteq> [] \<and> (\<forall>ob \<in> set new. about_socket sid ''acme'' ob)"
proof -
  obtain s where s: "newServer sample_binary = Inr s" "appKey s = ''key''" using sample_serves by blast
  have doc: "authorize_documented (hes door_env) sample_authorize"
    by (simp add: authorize_documented_def sample_authorize_def door_env_def door_hesape_def split: sum.split)
  have ad: "admit (newAddressLimit 1 [loopback]) (sc_address sample_call) =
      (Counted (Addr4 [203, 0, 113, 9]), newAddressLimit 1 [loopback]\<lparr>al_open := [(Addr4 [203, 0, 113, 9], 1)]\<rparr>)"
    by (simp add: sample_call_def admit_def proxied_client take_slot_def al_count_def) (simp add: newAddressLimit_def proxied_def socketPrefix_def)
  have door: "door_ServeHTTP sample_auth (binary_door sample_binary) 0 (sc_door sample_call) = Hand (Guest sample_auth ''acme'') (Whole [])"
    by (simp add: door_ServeHTTP_def sample_call_def apiPrefix_def binary_door_def sample_binary_def no_config_def)
  have tenant: "sj_Tenant (Guest sample_auth ''acme'') = ''acme''" using sample_auth_documented by (simp add: door_documented_def)
  have sid: "newSocketID (sx_random sample_surroundings) = Inr ''1.1''" by (rule sample_socket_id)
  obtain c where c: "Upgrade server_upgrader (\<lambda>_. None) (sx_hijack sample_surroundings) None None (sx_keys sample_surroundings) sample_dial [] = Switched c"
    using sample_upgrade by blast
  have "fst (binary_serve door_env sample_auth sample_authorize (\<lambda>_. None) sample_binary s 0 sample_surroundings sample_call
      (newAddressLimit 1 [loopback], sample_socket_state)) = Served"
    using ad door s(2) sid c tenant
    by (simp add: binary_serve_def handleSocket_def sample_call_def sample_authorize_def connect_Can_def binary_connect_def sample_binary_def no_config_def
        sample_socket_state_def new_registry_def NewConnection_def door_env_def door_hesape_def Let_def split_def)
  then obtain l st where b: "binary_serve door_env sample_auth sample_authorize (\<lambda>_. None) sample_binary s 0 sample_surroundings sample_call
      (newAddressLimit 1 [loopback], sample_socket_state) = (Served, l, st)" by (metis prod.collapse)
  have "cf_Tenant sample_binary = ''acme''" "so_seen sample_socket_state = []" by (simp_all add: sample_binary_def sample_socket_state_def)
  then show ?thesis using sockets_are_the_tenants [OF doc sample_auth_documented sample_loads s(1) b] s(1) b by auto
qed

end
