(* ===== verification/Door_Process.thy ===== *)
theory Door_Process
  imports Door_Config Pusher_Routes
begin

text \<open>
  The HTTP API of the process: what \<^verbatim>\<open>server.go\<close> offers the routes of the protocol, behind the front
  door of \<^verbatim>\<open>cmd/joaju\<close> and under its policies, built from a configuration that was read.
\<close>

section \<open>The API of a server\<close>

text \<open>\<open>api\<close>: the settings are the server's; the policies and the other instances are what it was given.\<close>

definition server_api :: "Server \<Rightarrow> ('g, 's) pusher_env \<Rightarrow> (Operation list \<Rightarrow> 's \<Rightarrow> string \<Rightarrow> Operation \<Rightarrow> jerr + 'g) \<Rightarrow> ('g, 's) policy \<Rightarrow>
    (('g \<times> string) list \<Rightarrow> 'g \<Rightarrow> string \<Rightarrow> FleetTally) \<Rightarrow> ('g, 's) API" where
  "server_api srv E operate subscribe fleet = \<lparr>api_env = E, api_AppID = appID srv, api_Operate = (if operates srv then Some operate else None),
    api_Subscribe = subscribe, api_Fleet = fleet, api_MaxBodySize = maxBodySize srv\<rparr>"

text \<open>A request for the API: what the limit and the door read of it, the pattern it matched and the values of its path.\<close>

record api_call =
  ac_address :: address_request
  ac_door :: door_request
  ac_pattern :: string
  ac_appId :: string
  ac_channel :: string
  ac_userId :: string
  ac_Origin :: string
  ac_ContentType :: string

text \<open>A deployment of one has no other instances to ask.\<close>

definition no_fleet :: "('g \<times> string) list \<Rightarrow> 'g \<Rightarrow> string \<Rightarrow> FleetTally" where
  "no_fleet _ _ _ = \<lparr>ft_Connections = 0, ft_Channels = []\<rparr>"

definition binary_api :: "('g, Subject) pusher_env \<Rightarrow> door_auth \<Rightarrow> ('g, Operation) authorize \<Rightarrow> ('g, Subscription) authorize \<Rightarrow> config \<Rightarrow> Server \<Rightarrow>
    ('g, Subject) API" where
  "binary_api E D oauth sauth cfg srv =
    server_api srv E (\<lambda>_. oauth (operation_Can D (binary_operate cfg))) (\<lambda>_. sauth (subscription_Can (hes E) D (binary_subscribe cfg))) no_fleet"

text \<open>What the process answers: the limit's or the door's sentence, or what the route answers.\<close>

definition binary_call :: "('g, Subject) pusher_env \<Rightarrow> door_auth \<Rightarrow> ('g, Operation) authorize \<Rightarrow> ('g, Subscription) authorize \<Rightarrow> config \<Rightarrow> Server \<Rightarrow> int \<Rightarrow>
    api_call \<Rightarrow> addressLimit \<times> 'g api_state \<Rightarrow> ((int \<times> string) + api_response) option \<times> addressLimit \<times> 'g api_state" where
  "binary_call E D oauth sauth cfg srv now r = (\<lambda>(l, st).
    (case admit l (ac_address r) of
       (admission.Refused status message, l1) \<Rightarrow> (Some (Inl (status, message)), l1, st)
     | (a, l1) \<Rightarrow>
         (case door_ServeHTTP D (binary_door cfg) now (ac_door r) of
            Answer status message \<Rightarrow> (Some (Inl (status, message)), finish a l1, st)
          | Hand subject b \<Rightarrow>
              (case mux (binary_api E D oauth sauth cfg srv) (ac_pattern r)
                      \<lparr>hr_appId = ac_appId r, hr_channel = ac_channel r, hr_userId = ac_userId r, hr_subject = Some subject,
                       hr_Origin = ac_Origin r, hr_ContentType = ac_ContentType r, hr_Body = b\<rparr> st of
                 None \<Rightarrow> (None, finish a l1, st)
               | Some (resp, st1) \<Rightarrow> (Some (Inr resp), finish a l1, st1)))))"

text \<open>What the front door writes when it refuses, the log line aside.\<close>

definition door_refuse :: "int \<Rightarrow> string \<Rightarrow> api_response" where
  "door_refuse status message = writeJSON status (json_object [(''message'', json_string message)])"

text \<open>A caller reads a refusal of the door as one of the routes: whatever they refuse with, it is the same response.\<close>

lemma door_refuses_like_the_routes:
  "fst (api_refuse status message err st) = door_refuse status message"
  "\<exists>message. fst (api_fail e st) = door_refuse (rs_Status (fst (api_fail e st))) message"
  by (auto simp: api_refuse_def api_fail_def door_refuse_def writeJSON_def)

section \<open>Only the application operates the process\<close>

lemma mux_served:
  assumes "mux A pat r st = Some (resp, st')" "pat \<noteq> ''GET /up''"
  shows "(\<exists>g. operator A r pat st g) \<or>
    rs_Status resp \<in> {400, 401, 403, 404} \<and> st_pusher st' = st_pusher st \<and> st_registry st' = st_registry st \<and> st_fleet st' = st_fleet st"
proof (cases "enter A r pat st")
  case (Pair x st1)
  then show ?thesis using enter_granted [of A r pat st _ st1] mux_refused [of A r pat st _ st1 resp st'] enter_refused [of A r pat st _ st1] assms
    by (cases x) blast+
qed

lemma operator_is_the_application:
  assumes "authorize_documented (hes E) oauth" "door_documented D" "door_ServeHTTP D (binary_door cfg) now q = Hand subject b"
    and "operator (binary_api E D oauth sauth cfg srv) r pat st g" "hr_subject r = Some subject"
  shows "prefix apiPrefix (dr_Path q)" "auth_Tenant (hes E) g = cf_Tenant cfg" "subject = application (binary_door cfg)" "hr_appId r = appID srv"
proof -
  have o: "oauth (operation_Can D (binary_operate cfg)) subject Operate \<lparr>op_Route = pat, op_Origin = hr_Origin r\<rparr> = Inr g" "hr_appId r = appID srv"
    using assms(4,5) by (auto simp: operator_def binary_api_def server_api_def split: if_splits)
  have can: "operation_Can D (binary_operate cfg) subject Operate \<lparr>op_Route = pat, op_Origin = hr_Origin r\<rparr> = None" "auth_Tenant (hes E) g = sj_Tenant subject"
    using assms(1) o(1) by (auto simp: authorize_documented_def split: sum.splits)
  have role: "HasRole D subject roleApplication" "sj_Tenant subject = cf_Tenant cfg"
    using can(1) by (auto simp: operation_Can_def binary_operate_def split: if_splits)
  then show "prefix apiPrefix (dr_Path q)" "subject = application (binary_door cfg)"
    using assms(2,3) by (auto simp: door_Hand door_documented_def split: if_splits)
  show "auth_Tenant (hes E) g = cf_Tenant cfg" "hr_appId r = appID srv" using can(2) role(2) o(2) by simp_all
qed

text \<open>Property C3. Only the application oauth the process. Whatever a request to the process carries and whichever
  route it matches, the health check apart, it is refused and leaves the channels, the sockets and
  what was said as they were; or its path is the API's, it names the configured app, it carries the
  signature over method, path and parameters under the configured secret, stamped within ten
  minutes, with the digest of the body it brings, and the grant it acts under is of the configured
  tenant.\<close>

theorem only_the_application_operates:
  assumes "authorize_documented (hes E) oauth" "door_documented D" "loadConfig P env = Inr cfg" "newServer cfg = Inr srv"
    and "ac_pattern r \<noteq> ''GET /up''"
    and "binary_call E D oauth sauth cfg srv now r (l, st) = (answer, l', st')"
  shows "st_pusher st' = st_pusher st \<and> st_registry st' = st_registry st \<and> (\<forall>resp. answer = Some (Inr resp) \<longrightarrow> rs_Status resp \<in> {400, 401, 403, 404}) \<or>
    prefix apiPrefix (dr_Path (ac_door r)) \<and> ac_appId r = cf_AppID cfg \<and>
    query_get (dr_Query (ac_door r)) paramAuthKey = cf_AppKey cfg \<and>
    (\<exists>seconds. ParseInt (query_get (dr_Query (ac_door r)) paramAuthTimestamp) = Some seconds \<and> \<bar>now - seconds * 1000000000\<bar> \<le> signatureWindow) \<and>
    query_get (dr_Query (ac_door r)) paramAuthSignature = signature (bytes_of_string (cf_AppSecret cfg))
      (signingString (dr_Method (ac_door r)) (dr_EscapedPath (ac_door r)) (dr_Query (ac_door r))) \<and>
    (\<exists>t. dr_Body (ac_door r) = Whole t \<and> bodyMatches (dr_Query (ac_door r)) t = None) \<and>
    (\<exists>g. auth_Tenant (hes E) g = cf_Tenant cfg \<and> operator (binary_api E D oauth sauth cfg srv)
        \<lparr>hr_appId = ac_appId r, hr_channel = ac_channel r, hr_userId = ac_userId r, hr_subject = Some (application (binary_door cfg)),
         hr_Origin = ac_Origin r, hr_ContentType = ac_ContentType r, hr_Body = dr_Body (ac_door r)\<rparr> (ac_pattern r) st g)"
proof -
  obtain a l1 where a: "admit l (ac_address r) = (a, l1)" by force
  show ?thesis
  proof (cases "(\<exists>status message. a = admission.Refused status message) \<or> (\<exists>status message. door_ServeHTTP D (binary_door cfg) now (ac_door r) = Answer status message)")
    case True
    then show ?thesis using assms(6) a by (intro disjI1) (auto simp: binary_call_def split: admission.splits)
  next
    case False
    then obtain subject b where d: "door_ServeHTTP D (binary_door cfg) now (ac_door r) = Hand subject b" by (metis door_outcome.exhaust)
    let ?A = "binary_api E D oauth sauth cfg srv"
    let ?r = "\<lparr>hr_appId = ac_appId r, hr_channel = ac_channel r, hr_userId = ac_userId r, hr_subject = Some subject,
        hr_Origin = ac_Origin r, hr_ContentType = ac_ContentType r, hr_Body = b\<rparr>"
    have id: "appID srv = cf_AppID cfg" using assms(4) newServer_iff [OF assms(3)] by (auto split: if_splits)
    show ?thesis
    proof (cases "mux ?A (ac_pattern r) ?r st")
      case None
      then show ?thesis using assms(6) a d False by (intro disjI1) (auto simp: binary_call_def split: admission.splits)
    next
      case (Some m)
      obtain resp st1 where m: "m = (resp, st1)" by force
      have out: "answer = Some (Inr resp)" "st' = st1" using assms(6) a d False Some m by (auto simp: binary_call_def split: admission.splits)
      show ?thesis
      proof (cases "\<exists>g. operator ?A ?r (ac_pattern r) st g")
        case True
        then obtain g where g: "operator ?A ?r (ac_pattern r) st g" by blast
        note who = operator_is_the_application [OF assms(1,2) d g, simplified]
        have h: "verify (binary_door cfg) now (ac_door r) = None" "dr_Body (ac_door r) = b" "\<exists>t. b = Whole t \<and> bodyMatches (dr_Query (ac_door r)) t = None"
          using d who(1) by (auto simp: door_Hand)
        show ?thesis using who g h id by (intro disjI2) (auto simp: verify_None binary_door_def)
      next
        case False
        then show ?thesis using mux_served [OF Some [unfolded m] assms(5)] out by (intro disjI1) auto
      qed
    qed
  qed
qed

section \<open>Witness\<close>

definition counting_call :: api_call where
  "counting_call = \<lparr>ac_address = \<lparr>ar_Method = ''POST'', ar_Path = ''/apps/1/events'', ar_RemoteAddr = ''127.0.0.1:4000'', ar_Forwarded = []\<rparr>,
    ac_door = signed_request, ac_pattern = RouteConnections, ac_appId = ''app'', ac_channel = [], ac_userId = [], ac_Origin = [], ac_ContentType = []\<rparr>"

definition quiet_state :: "sample_grant api_state" where
  "quiet_state = \<lparr>st_pusher = sample_pusher, st_registry = new_registry 2, st_operated = [], st_fleet = [], st_log = []\<rparr>"

theorem only_the_application_operates_witness:
  "\<exists>srv resp l st. newServer sample_binary = Inr srv \<and>
    binary_call door_env sample_auth sample_authorize sample_authorize sample_binary srv 7000000000 counting_call (newAddressLimit 1 [loopback], quiet_state) =
      (Some (Inr resp), l, st) \<and> rs_Status resp = 200 \<and> query_get (dr_Query (ac_door counting_call)) paramAuthKey = ''key''"
proof -
  obtain srv where s: "newServer sample_binary = Inr srv" "appKey srv = ''key''" using sample_serves by blast
  have id: "appID srv = ''app''" "operates srv" using s(1) newServer_iff [OF sample_loads] by (auto simp: sample_binary_def split: if_splits)
  have doc: "authorize_documented (hes door_env) (sample_authorize :: (sample_grant, Operation) authorize)"
    by (simp add: authorize_documented_def sample_authorize_def door_env_def door_hesape_def split: sum.split)
  have "fd_appKey (binary_door sample_binary) = fd_appKey sample_door" "fd_secret (binary_door sample_binary) = fd_secret sample_door"
    by (simp_all add: binary_door_def sample_door_def sample_binary_def)
  then have "verify (binary_door sample_binary) 7000000000 signed_request = None" using signed_request_verified by (simp add: verify_None)
  moreover have "bodyMatches (dr_Query signed_request) ''{}'' = None" "dr_Body signed_request = Whole ''{}''"
    by (simp_all add: signed_request_def bodyMatches_None as_signed_def param_defs)
  ultimately have door: "door_ServeHTTP sample_auth (binary_door sample_binary) 7000000000 signed_request = Hand (application (binary_door sample_binary)) (Whole ''{}'')"
    using signed_request_served(2) by (simp add: door_Hand binary_door_def sample_binary_def no_config_def DefaultMaxBodySize_def)
  let ?A = "binary_api door_env sample_auth sample_authorize sample_authorize sample_binary srv"
  let ?r = "\<lparr>hr_appId = ''app'', hr_channel = [], hr_userId = [], hr_subject = Some (application (binary_door sample_binary)),
      hr_Origin = [], hr_ContentType = [], hr_Body = Whole ''{}''\<rparr>"
  have "HasRole sample_auth (application (binary_door sample_binary)) roleApplication" "sj_Tenant (application (binary_door sample_binary)) = ''acme''"
    by (simp_all add: sample_auth_def application_def binary_door_def sample_binary_def no_config_def)
  then have "\<exists>st1. enter ?A ?r RouteConnections quiet_state = (Inr \<lparr>gr_subject = sj_ID (application (binary_door sample_binary)), gr_tenant = ''acme'', gr_action = Operate\<rparr>, st1) \<and>
      st_registry st1 = new_registry 2"
    using id by (simp add: enter_def binary_api_def server_api_def sample_authorize_def operation_Can_def binary_operate_def sample_binary_def no_config_def quiet_state_def)
  then have "\<exists>resp st1. mux ?A RouteConnections ?r quiet_state = Some (resp, st1) \<and> rs_Status resp = 200"
    by (auto simp: mux_def route_defs api_connections_def Joaju_Registry.Connections_def registryTenant_def binary_api_def server_api_def door_env_def
        door_hesape_def new_registry_def ask_fleet_def writeJSON_def)
  then obtain resp st1 where m: "mux ?A RouteConnections ?r quiet_state = Some (resp, st1)" "rs_Status resp = 200" by blast
  have "admit (newAddressLimit 1 [loopback]) (ac_address counting_call) = (Through, newAddressLimit 1 [loopback])"
    by (simp add: admit_def counting_call_def)
  then have b: "binary_call door_env sample_auth sample_authorize sample_authorize sample_binary srv 7000000000 counting_call (newAddressLimit 1 [loopback], quiet_state) =
      (Some (Inr resp), newAddressLimit 1 [loopback], st1)" using door m by (simp add: binary_call_def counting_call_def)
  have "ac_pattern counting_call \<noteq> ''GET /up''" by (simp add: counting_call_def route_defs)
  from only_the_application_operates [OF doc sample_auth_documented sample_loads s(1) this b] m(2)
  have "query_get (dr_Query (ac_door counting_call)) paramAuthKey = cf_AppKey sample_binary" by auto
  then show ?thesis using s(1) b m(2) by (auto simp: sample_binary_def)
qed

end
