(* ===== verification/Spec2Isabelle.thy ===== *)
theory Spec2Isabelle
  imports Joaju_Fanout Joaju_Broadcaster Joaju_Redis Joaju_Client Joaju_Outage Door_Process
begin

text \<open>
  A verification development of joaju, a WebSocket server that speaks the Pusher protocol: a library
  (the package \<open>joaju\<close> with \<^verbatim>\<open>ws/\<close>, \<^verbatim>\<open>protocols/pusher/\<close>, \<^verbatim>\<open>redis/\<close> and \<^verbatim>\<open>client/\<close>) and a process
  built from it (\<^verbatim>\<open>cmd/joaju/\<close>). All paths are under \<^verbatim>\<open>src/\<close>. This theory imports every other one.

  \<^bold>\<open>The program.\<close> A request to the socket route is upgraded to a WebSocket (\<^verbatim>\<open>ws/\<close>) after the connect
  policy granted it. A socket has a reading and a writing goroutine: what it sends is metered, handed
  to the protocol, and answered through a bounded queue, the sink. The protocol reads Pusher frames,
  asks the subscription policy, and seats the socket on channels, which the broker holds by a name that
  carries the tenant. The application publishes over an HTTP API or by broadcasting; a relay carries
  events to other instances over a bus and asks them what they hold. The process reads its
  configuration from the environment, counts the sockets of a client address, and tells the signed
  requests of the application from those of visitors at its front door.

  \<^bold>\<open>Theories and sources.\<close> State is a record of the fields of the Go struct, an operation is a function
  of the same name with the state passed, an error is a value of a sum or an option, a lock-protected
  section is one step, and an operation that takes several locks in turn is several. Names that clash get a prefix or suffix.

  \<^item> \<open>Joaju_Prelude\<close>: bytes and strings, sequences of operations and transition systems with their
    invariants, as locales that the components interpret (\<open>stepper\<close>, \<open>total_stepper\<close>, \<open>transitions\<close>,
    \<open>incremental\<close>).
  \<^item> \<open>Ws_Utf8\<close>, \<open>Ws_Io\<close>, \<open>Ws_Frame\<close>, \<open>Ws_Conn\<close>, \<open>Ws_Handshake\<close>: \<^verbatim>\<open>ws/utf8.go\<close>, the readers and writers of
    the standard library, \<^verbatim>\<open>ws/frame.go\<close>, \<^verbatim>\<open>ws/conn.go\<close>, and \<^verbatim>\<open>ws/handshake.go\<close>, \<^verbatim>\<open>ws/server.go\<close> and \<^verbatim>\<open>ws/client.go\<close>.
    Locales: \<open>frame_codec\<close>, interpreted on frames, and \<open>read_side\<close> and \<open>write_side\<close>, on the wire of a
    connection and of a sink.
  \<^item> \<open>Json\<close>, \<open>Json_Compact\<close>, \<open>Json_Facts\<close>, \<open>Json_Values\<close>, \<open>Go_Net\<close>, \<open>Go_Crypto\<close>, \<open>Go_Header\<close>, \<open>Go_Http\<close>: what the
    program uses of \<open>encoding/json\<close>, \<open>strings\<close>, \<open>net/netip\<close>, the hash functions, and \<open>net/http\<close>, the headers
    that frame a body included.
  \<^item> \<open>Joaju_Types\<close>: \<^verbatim>\<open>joaju.go\<close>, the names, connections, events and errors.
  \<^item> \<open>Pusher_Frame\<close>, \<open>Pusher_Channel\<close>, \<open>Pusher_Broker\<close>, \<open>Pusher_Protocol\<close>: \<^verbatim>\<open>pusher.go\<close>, \<^verbatim>\<open>channels.go\<close>, \<^verbatim>\<open>broker.go\<close>
    and \<^verbatim>\<open>protocol.go\<close> under \<^verbatim>\<open>protocols/pusher/\<close>. \<open>Pusher_Interleaving\<close> runs the handlers of many sockets
    interleaved at the points where the code gives its lock back, \<open>Pusher_Answers\<close> says what a client is
    answered, and \<open>Pusher_Routes\<close> is \<^verbatim>\<open>routes.go\<close>, the HTTP API. The locale \<open>channel_registry\<close> is what the
    protocol relies on of a broker; the broker in memory and the one in front of a relay interpret it.
  \<^item> \<open>Joaju_Limiter\<close>, \<open>Joaju_Sink\<close>, \<open>Joaju_Registry\<close>, \<open>Joaju_Server\<close>, \<open>Joaju_Socket\<close>: \<^verbatim>\<open>server.go\<close>, \<^verbatim>\<open>events.go\<close>
    and \<^verbatim>\<open>counter.go\<close>: the rate limiter, the sink, the registry with its observers, building a server and
    the life of a socket, and the socket route with the shutdown: handlers, their writers and \<open>Close\<close>, which
    returns when its wait group is done or its context is.
  \<^item> \<open>Joaju_Relay\<close>, \<open>Joaju_Fanout\<close>, \<open>Joaju_Metrics\<close>, \<open>Joaju_Outage\<close>: \<^verbatim>\<open>scaling.go\<close>: one relay, a fleet of them over
    a bus that loses, delays and reorders, with the calls of the broker that relays cut where it gives a lock
    back and subscriptions that stand or are lost, the questions about the fleet, and the report of an outage
    (locale \<open>reporting_handler\<close>, interpreted on both handlers of the fleet's topics).
  \<^item> \<open>Joaju_Broadcaster\<close>, \<open>Joaju_Redis\<close>, \<open>Joaju_Client\<close>: \<^verbatim>\<open>broadcaster.go\<close>, \<^verbatim>\<open>redis/redis.go\<close>, \<^verbatim>\<open>client/client.go\<close>.
  \<^item> \<open>Door_Address\<close>, \<open>Door_Sign\<close>, \<open>Door_Config\<close>, \<open>Door_Process\<close>: \<^verbatim>\<open>addresslimit.go\<close>, \<^verbatim>\<open>frontdoor.go\<close> and \<^verbatim>\<open>policy.go\<close>,
    \<^verbatim>\<open>config.go\<close> and \<^verbatim>\<open>main.go\<close> under \<^verbatim>\<open>cmd/joaju/\<close>, and the API behind the front door.

  \<^bold>\<open>What is shown.\<close>

  \<^item> The transport: the UTF-8 check is UTF-8 wherever a message was cut; a frame written is read back and
    only canonical frames are read; fragments are joined across control frames; nothing follows a close;
    the answer to a handshake is one head, as long as the names that ride along are names and frame no
    body, and dialing meets upgrading. A line break in such a name splits the answer, which is a finding.
  \<^item> Names and channels: keys keep tenants apart, a channel serves one tenant for life.
  \<^item> The protocol, interleaved: a channel in use is the one the broker hands out, nothing is left behind
    when the sockets are idle, the limit of channels holds; nothing changes before the policy granted it;
    a client event names its sender; encoded frames are decoded. A resubscription that is refused evicts,
    which is a finding.
  \<^item> The server: the queue of a sink is first in, first out on the wire; the rate is bounded over any span
    of time; the limit of a tenant holds; a socket leaves nothing behind; no socket without the policy;
    a shutdown leaves nobody when \<open>Close\<close> returns before its context is done, and what the handlers and writers
    of a closed server have left to do is a number that every step of theirs lowers and nobody raises, so
    \<open>Close\<close> does not wait for a client.
  \<^item> The API: a request stays in its tenant, a publication reaches its channels once, and a broadcast is
    a publication no policy is asked about.
  \<^item> The fleet: what arrives was published, for that channel and once; an instance hears what it holds
    and a published event is under way to every holder whose subscription stands, when the callers of a broker
    come one at a time, as the protocol's do (\<open>serialised\<close>); a tally is the sum and the union of the answers; a
    question comes back; an outage is two lines of the log; the bus over Redis changes nothing. A removal
    that races a subscriber, with two callers at once, deafens a channel, which is a finding.
  \<^item> The process: a configuration that was read serves; sockets are the tenant's, from allowed origins; only
    the application operates, with its signature; the limit of an address holds and forged hops change
    nothing; only the current script is cached for good. The payload of a signed request can be dropped,
    which is a finding.

  \<^bold>\<open>Bounds and termination.\<close> Every function is total. Loops over a stream decrease the bytes that are left,
  those over a list are structural, the parser of IPv6 groups counts its eight groups, and the scanner of
  JSON has the nesting limit of the library, 10000. No fuel is used: a wait is an argument, the list of what
  happens during it, and where the list ends before the code returns the result says so; that a question
  returns is shown for every list in which its time runs out. Machine integers are words where they wrap
  (frame lengths, masks, hashes), \<open>go_int\<close> wraps the sums over what other instances answered, and integers are
  unbounded where the code saturates or compares (durations, counts of what is held).

  \<^bold>\<open>Arguments.\<close> Code outside the repository is an argument with documented behaviour as a named hypothesis:
  hesape's authorization and channel names (\<open>hesape\<close> with \<open>hesape_documented\<close> and \<open>check_forbids\<close>), its subjects
  (\<open>door_auth\<close> with \<open>door_documented\<close>) and \<open>auth.Authorize\<close> (\<open>authorize_documented\<close>), all instantiated by the
  witnesses; and without hypothesis policies, the Redis connection, \<open>url.Parse\<close>, \<open>time.ParseDuration\<close>, the names
  of log levels, random bytes, the clock, the network and every failure of it.

  \<^bold>\<open>Not modelled.\<close> \<open>main\<close>, the listener, signals and the log handler, which are the operating system's; deadlines,
  other than as the errors they cause; the matching of a request to a pattern by \<open>net/http\<close>; TLS; the
  wording of log lines beyond what tells them apart; goroutine scheduling below the critical sections; two
  sockets with one id at the same time, which eight random bytes make unlikely and a finding describes; the
  script \<^verbatim>\<open>client/joaju.js\<close>, whose bytes are an argument; and \<^verbatim>\<open>doc.go\<close>, a comment.
\<close>

end
